(* ===== verification/Prelude.thy ===== *)
theory Prelude imports Complex_Main "HOL-Library.AList" begin

text \<open>
  Shared vocabulary of the development: results that may raise, dictionaries that keep
  insertion order, loops that stop at the first exception, and the fact collections the
  component theories extend. A Python \<^verbatim>\<open>dict\<close> is an association list with distinct
  keys; assignment is \<^term>\<open>AList.update\<close>, which overwrites in place or appends.
\<close>

section \<open>Fact collections\<close>

named_theorems result_simps
named_theorems dict_simps

section \<open>Results that may raise\<close>

type_synonym ('e, 'a) result = "'e + 'a"

definition bindE :: "('e, 'a) result \<Rightarrow> ('a \<Rightarrow> ('e, 'b) result) \<Rightarrow> ('e, 'b) result" where
  "bindE r f = (case r of Inl e \<Rightarrow> Inl e | Inr a \<Rightarrow> f a)"

definition mapR :: "('a \<Rightarrow> 'b) \<Rightarrow> ('e, 'a) result \<Rightarrow> ('e, 'b) result" where
  "mapR f r = (case r of Inl e \<Rightarrow> Inl e | Inr a \<Rightarrow> Inr (f a))"

lemma bindE_simps [simp, result_simps]:
  "bindE (Inl e) f = Inl e"
  "bindE (Inr a) f = f a"
  by (simp_all add: bindE_def)

lemma mapR_simps [simp, result_simps]:
  "mapR g (Inl e) = Inl e"
  "mapR g (Inr a) = Inr (g a)"
  by (simp_all add: mapR_def)

lemma bindE_Inr_iff [result_simps]: "bindE r f = Inr b \<longleftrightarrow> (\<exists>a. r = Inr a \<and> f a = Inr b)"
  by (cases r) simp_all

lemma bindE_Inl_iff [result_simps]:
  "bindE r f = Inl e \<longleftrightarrow> r = Inl e \<or> (\<exists>a. r = Inr a \<and> f a = Inl e)"
  by (cases r) simp_all

lemma mapR_Inr_iff [result_simps]: "mapR f r = Inr b \<longleftrightarrow> (\<exists>a. r = Inr a \<and> f a = b)"
  by (cases r) auto

lemma mapR_Inl_iff [result_simps]: "mapR f r = Inl e \<longleftrightarrow> r = Inl e"
  by (cases r) simp_all

lemma bindE_cong [fundef_cong]:
  assumes "r = r'" and "\<And>a. r' = Inr a \<Longrightarrow> f a = g a"
  shows "bindE r f = bindE r' g"
  using assms by (cases r') simp_all

text \<open>A list comprehension whose body may raise: the first exception, in list order.\<close>

fun mapE :: "('a \<Rightarrow> ('e, 'b) result) \<Rightarrow> 'a list \<Rightarrow> ('e, 'b list) result" where
  "mapE f [] = Inr []"
| "mapE f (x # xs) = bindE (f x) (\<lambda>y. mapR (\<lambda>ys. y # ys) (mapE f xs))"

lemma mapE_cong [fundef_cong]:
  assumes "xs = ys" and "\<And>x. x \<in> set ys \<Longrightarrow> f x = g x"
  shows "mapE f xs = mapE g ys"
proof -
  have "(\<And>x. x \<in> set ys \<Longrightarrow> f x = g x) \<Longrightarrow> mapE f ys = mapE g ys"
  proof (induction ys)
    case Nil
    then show ?case by simp
  next
    case (Cons y ys)
    then show ?case by simp
  qed
  with assms show ?thesis by simp
qed

lemma mapE_Inr_iff: "mapE f xs = Inr ys \<longleftrightarrow> list_all2 (\<lambda>x y. f x = Inr y) xs ys"
proof (induction xs arbitrary: ys)
  case Nil
  then show ?case by auto
next
  case (Cons x xs)
  then show ?case
    by (cases ys) (auto simp: bindE_Inr_iff mapR_Inr_iff)
qed

lemma mapE_all_Inr: "(\<And>x. x \<in> set xs \<Longrightarrow> f x = Inr (g x)) \<Longrightarrow> mapE f xs = Inr (map g xs)"
  by (induction xs) auto

lemma mapE_length: "mapE f xs = Inr ys \<Longrightarrow> length ys = length xs"
  by (auto simp: mapE_Inr_iff dest: list_all2_lengthD)

section \<open>Dictionaries\<close>

type_synonym ('k, 'v) dict = "('k \<times> 'v) list"

abbreviation keys :: "('k, 'v) dict \<Rightarrow> 'k list" where
  "keys d \<equiv> map fst d"

abbreviation dict_wf :: "('k, 'v) dict \<Rightarrow> bool" where
  "dict_wf d \<equiv> distinct (keys d)"

abbreviation get :: "('k, 'v) dict \<Rightarrow> 'k \<Rightarrow> 'v option" where
  "get d k \<equiv> map_of d k"

abbreviation put :: "'k \<Rightarrow> 'v \<Rightarrow> ('k, 'v) dict \<Rightarrow> ('k, 'v) dict" where
  "put \<equiv> AList.update"

lemma get_put [simp, dict_simps]: "get (put k v d) k' = (if k = k' then Some v else get d k')"
  by (simp add: update_conv')

lemma dict_wf_put [simp, intro]: "dict_wf d \<Longrightarrow> dict_wf (put k v d)"
  by (rule distinct_update)

lemma put_new: "k \<notin> set (keys d) \<Longrightarrow> put k v d = d @ [(k, v)]"
  by (induction d) auto

lemma keys_put [dict_simps]: "set (keys (put k v d)) = insert k (set (keys d))"
  by (induction d) auto

lemma keys_put_old: "k \<in> set (keys d) \<Longrightarrow> keys (put k v d) = keys d"
  by (induction d) auto

lemma length_put_old: "k \<in> set (keys d) \<Longrightarrow> length (put k v d) = length d"
  by (metis keys_put_old length_map)

lemma get_None_iff [dict_simps]: "get d k = None \<longleftrightarrow> k \<notin> set (keys d)"
  by (simp add: map_of_eq_None_iff)

lemma get_Some_key: "get d k = Some v \<Longrightarrow> k \<in> set (keys d)"
  by (metis dict_simps(3) option.distinct(1))

text \<open>Python's \<^verbatim>\<open>dict(pairs)\<close>: later pairs overwrite earlier ones.\<close>

fun dict_of :: "('k \<times> 'v) list \<Rightarrow> ('k, 'v) dict \<Rightarrow> ('k, 'v) dict" where
  "dict_of [] d = d"
| "dict_of ((k, v) # ps) d = dict_of ps (put k v d)"

lemma dict_of_append: "dict_wf (d @ ps) \<Longrightarrow> dict_of ps d = d @ ps"
proof (induction ps arbitrary: d)
  case Nil
  then show ?case by simp
next
  case (Cons p ps)
  obtain k v where p: "p = (k, v)" by fastforce
  from Cons.prems have "k \<notin> set (keys d)" by (auto simp: p)
  then have "put k v d = d @ [(k, v)]" by (rule put_new)
  moreover from Cons.prems have "dict_wf ((d @ [(k, v)]) @ ps)" by (simp add: p)
  ultimately show ?case using Cons.IH [of "d @ [(k, v)]"] by (simp add: p)
qed

lemma dict_of_wf: "dict_wf d \<Longrightarrow> dict_wf (dict_of ps d)"
  by (induction ps d rule: dict_of.induct) auto

lemma dict_of_id [simp]: "dict_wf ps \<Longrightarrow> dict_of ps [] = ps"
  using dict_of_append [of "[]" ps] by simp

section \<open>Lists\<close>

text \<open>Python's \<^verbatim>\<open>len(set(xs)) != len(xs)\<close> tests: a list without repetitions.\<close>

lemma subset_code: "set xs \<subseteq> set ys \<longleftrightarrow> list_all (\<lambda>x. x \<in> set ys) xs"
  by (auto simp: list_all_iff)

text \<open>A boolean as an optional entry of an object under construction.\<close>

definition entry_if :: "bool \<Rightarrow> 'k \<Rightarrow> 'v \<Rightarrow> ('k, 'v) dict" where
  "entry_if b k v = (if b then [(k, v)] else [])"

definition entry_opt :: "'k \<Rightarrow> ('a \<Rightarrow> 'v) \<Rightarrow> 'a option \<Rightarrow> ('k, 'v) dict" where
  "entry_opt k f x = (case x of None \<Rightarrow> [] | Some a \<Rightarrow> [(k, f a)])"

lemma entry_simps [simp]:
  "entry_if True k v = [(k, v)]"
  "entry_if False k v = []"
  "entry_opt k f None = []"
  "entry_opt k f (Some a) = [(k, f a)]"
  by (simp_all add: entry_if_def entry_opt_def)

end
