(* ===== verification/Errors.thy ===== *)
theory Errors imports Prelude begin

text \<open>
  \<^verbatim>\<open>core/errors.py\<close>: the closed set of failure codes with their wire values and fixed
  messages, the safe patterns of a failure's location and constraint, \<^verbatim>\<open>ServiceError\<close> and
  the exceptions the engine distinguishes, and the timeout classification.
\<close>

section \<open>Codes and messages\<close>

datatype error_code =
    INVALID_CONFIGURATION | INVALID_INPUT | INVALID_OUTPUT | INVALID_TOOL_CALL
  | OUTPUT_LIMIT_REACHED | OUTPUT_REFUSED | CONTEXT_LIMIT_EXCEEDED | REQUEST_REJECTED
  | MODEL_NOT_FOUND | UNAUTHENTICATED | FORBIDDEN | NOT_FOUND | MISSING_BINDING
  | REQUEST_TIMEOUT | RUN_TIMEOUT | STEP_LIMIT_REACHED | MODEL_REQUEST_LIMIT_REACHED
  | ITERATION_LIMIT_REACHED | TOOL_CALL_LIMIT_REACHED | RATE_LIMITED | DEPENDENCY_OVERLOADED
  | DEPENDENCY_FAILURE | TOOL_ERROR | TOOL_OUTPUT_LIMIT_EXCEEDED | TOOL_CATALOG_MISMATCH
  | HANDLER_FAILED | CONFLICT | UNCERTAIN_EFFECT | CANCELLED | CAPACITY_EXCEEDED

fun code_value :: "error_code \<Rightarrow> string" where
  "code_value INVALID_CONFIGURATION = ''invalid_configuration''"
| "code_value INVALID_INPUT = ''invalid_input''"
| "code_value INVALID_OUTPUT = ''invalid_output''"
| "code_value INVALID_TOOL_CALL = ''invalid_tool_call''"
| "code_value OUTPUT_LIMIT_REACHED = ''output_limit_reached''"
| "code_value OUTPUT_REFUSED = ''output_refused''"
| "code_value CONTEXT_LIMIT_EXCEEDED = ''context_limit_exceeded''"
| "code_value REQUEST_REJECTED = ''request_rejected''"
| "code_value MODEL_NOT_FOUND = ''model_not_found''"
| "code_value UNAUTHENTICATED = ''unauthenticated''"
| "code_value FORBIDDEN = ''forbidden''"
| "code_value NOT_FOUND = ''not_found''"
| "code_value MISSING_BINDING = ''missing_binding''"
| "code_value REQUEST_TIMEOUT = ''request_timeout''"
| "code_value RUN_TIMEOUT = ''run_timeout''"
| "code_value STEP_LIMIT_REACHED = ''step_limit_reached''"
| "code_value MODEL_REQUEST_LIMIT_REACHED = ''model_request_limit_reached''"
| "code_value ITERATION_LIMIT_REACHED = ''iteration_limit_reached''"
| "code_value TOOL_CALL_LIMIT_REACHED = ''tool_call_limit_reached''"
| "code_value RATE_LIMITED = ''rate_limited''"
| "code_value DEPENDENCY_OVERLOADED = ''dependency_overloaded''"
| "code_value DEPENDENCY_FAILURE = ''dependency_failure''"
| "code_value TOOL_ERROR = ''tool_error''"
| "code_value TOOL_OUTPUT_LIMIT_EXCEEDED = ''tool_output_limit_exceeded''"
| "code_value TOOL_CATALOG_MISMATCH = ''tool_catalog_mismatch''"
| "code_value HANDLER_FAILED = ''handler_failed''"
| "code_value CONFLICT = ''conflict''"
| "code_value UNCERTAIN_EFFECT = ''uncertain_effect''"
| "code_value CANCELLED = ''cancelled''"
| "code_value CAPACITY_EXCEEDED = ''capacity_exceeded''"

fun code_message :: "error_code \<Rightarrow> string" where
  "code_message INVALID_CONFIGURATION = ''The workflow configuration is invalid.''"
| "code_message INVALID_INPUT = ''The input does not satisfy the required contract.''"
| "code_message INVALID_OUTPUT = ''An operation returned an invalid result.''"
| "code_message INVALID_TOOL_CALL =
     ''The model called an unknown tool or passed arguments that violate its schema.''"
| "code_message OUTPUT_LIMIT_REACHED =
     ''The model reached its output token limit before completing the result.''"
| "code_message OUTPUT_REFUSED = ''The model or its provider refused to produce the result.''"
| "code_message CONTEXT_LIMIT_EXCEEDED =
     ''The model request exceeds the model's context window.''"
| "code_message REQUEST_REJECTED = ''The model provider or tool server rejected the request.''"
| "code_message MODEL_NOT_FOUND =
     ''The configured model is not available at the provider.''"
| "code_message UNAUTHENTICATED = ''Authentication is required.''"
| "code_message FORBIDDEN = ''The operation is not authorized.''"
| "code_message NOT_FOUND = ''The requested resource was not found.''"
| "code_message MISSING_BINDING = ''A required input binding is unavailable.''"
| "code_message REQUEST_TIMEOUT =
     ''A model, tool or handler request exceeded its timeout.''"
| "code_message RUN_TIMEOUT = ''The run exceeded its deadline.''"
| "code_message STEP_LIMIT_REACHED = ''The run reached its limit of executed steps.''"
| "code_message MODEL_REQUEST_LIMIT_REACHED =
     ''The step reached its limit of model requests.''"
| "code_message ITERATION_LIMIT_REACHED =
     ''The step reached its limit of model turns before a final answer.''"
| "code_message TOOL_CALL_LIMIT_REACHED = ''The step reached its limit of tool calls.''"
| "code_message RATE_LIMITED =
     ''A dependency rejected the request because of a rate limit.''"
| "code_message DEPENDENCY_OVERLOADED = ''A dependency is temporarily overloaded.''"
| "code_message DEPENDENCY_FAILURE = ''A required dependency is unavailable.''"
| "code_message TOOL_ERROR = ''The tool reported an error.''"
| "code_message TOOL_OUTPUT_LIMIT_EXCEEDED =
     ''The tool result exceeds its configured size limit.''"
| "code_message TOOL_CATALOG_MISMATCH =
     ''The tool server's tools differ from the declared catalog.''"
| "code_message HANDLER_FAILED = ''A registered handler failed unexpectedly.''"
| "code_message CONFLICT = ''The request conflicts with an existing operation.''"
| "code_message UNCERTAIN_EFFECT = ''An external operation requires reconciliation.''"
| "code_message CANCELLED = ''The execution was cancelled.''"
| "code_message CAPACITY_EXCEEDED = ''The service has reached its admission limit.''"

definition FAILURE_REASONS :: "string list" where
  "FAILURE_REASONS = [''json_parse_error'', ''schema_violation'', ''decision_contract'',
     ''missing_output'', ''reasoning_consumed_budget'', ''answer_exceeded_budget'']"

section \<open>Safe explanations\<close>

definition ascii_lower :: "char \<Rightarrow> bool" where
  "ascii_lower c \<longleftrightarrow> of_char c \<ge> (97::nat) \<and> of_char c \<le> (122::nat)"

definition ascii_upper :: "char \<Rightarrow> bool" where
  "ascii_upper c \<longleftrightarrow> of_char c \<ge> (65::nat) \<and> of_char c \<le> (90::nat)"

definition ascii_digit :: "char \<Rightarrow> bool" where
  "ascii_digit c \<longleftrightarrow> of_char c \<ge> (48::nat) \<and> of_char c \<le> (57::nat)"

text \<open>\<^verbatim>\<open>LOCATION_PATTERN\<close>: one to 256 characters of \<^verbatim>\<open>[A-Za-z0-9_.:*/-]\<close>.\<close>

definition location_char :: "char \<Rightarrow> bool" where
  "location_char c \<longleftrightarrow>
     ascii_upper c \<or> ascii_lower c \<or> ascii_digit c \<or> c \<in> set ''_.:*/-''"

definition location_ok :: "string \<Rightarrow> bool" where
  "location_ok s \<longleftrightarrow> 1 \<le> length s \<and> length s \<le> 256 \<and> list_all location_char s"

text \<open>\<^verbatim>\<open>CONSTRAINT_PATTERN\<close>: \<^verbatim>\<open>[a-z][a-z0-9_]{0,63}\<close>.\<close>

definition constraint_ok :: "string \<Rightarrow> bool" where
  "constraint_ok s = (case s of [] \<Rightarrow> False
     | c # cs \<Rightarrow> ascii_lower c \<and> length cs \<le> 63 \<and>
         list_all (\<lambda>x. ascii_lower x \<or> ascii_digit x \<or> x = CHR ''_'') cs)"

definition safe_location :: "string option \<Rightarrow> string option" where
  "safe_location v = (case v of Some s \<Rightarrow> (if location_ok s then Some s else None) | None \<Rightarrow> None)"

definition safe_constraint :: "string option \<Rightarrow> string option" where
  "safe_constraint v =
     (case v of Some s \<Rightarrow> (if constraint_ok s then Some s else None) | None \<Rightarrow> None)"

lemma safe_location_idem [simp]: "safe_location (safe_location v) = safe_location v"
  by (auto simp: safe_location_def split: option.splits)

lemma safe_constraint_idem [simp]: "safe_constraint (safe_constraint v) = safe_constraint v"
  by (auto simp: safe_constraint_def split: option.splits)

section \<open>Exceptions\<close>

record service_error =
  se_code :: error_code
  se_retryable :: bool
  se_reason :: "string option"
  se_location :: "string option"
  se_constraint :: "string option"

definition ServiceError ::
  "error_code \<Rightarrow> bool \<Rightarrow> string option \<Rightarrow> string option \<Rightarrow> string option \<Rightarrow> service_error" where
  "ServiceError code retryable reason location constraint =
     \<lparr>se_code = code, se_retryable = retryable,
      se_reason = (case reason of Some r \<Rightarrow> (if r \<in> set FAILURE_REASONS then Some r else None)
                     | None \<Rightarrow> None),
      se_location = safe_location location,
      se_constraint = safe_constraint constraint\<rparr>"

text \<open>
  The exceptions the engine tells apart. A \<^verbatim>\<open>TransientFailure\<close> (core/retry.py) is a
  \<^verbatim>\<open>ServiceError\<close> with an optional retry-after delay; \<^verbatim>\<open>asyncio.CancelledError\<close> is not
  an \<^verbatim>\<open>Exception\<close> and is never swallowed.
\<close>

datatype exn =
    ServiceErr service_error
  | TransientErr service_error "rat option"
  | TimeoutErr
  | CancelledErr
  | OtherErr

fun as_service :: "exn \<Rightarrow> service_error option" where
  "as_service (ServiceErr e) = Some e"
| "as_service (TransientErr e _) = Some e"
| "as_service TimeoutErr = None"
| "as_service CancelledErr = None"
| "as_service OtherErr = None"

definition raise_code :: "error_code \<Rightarrow> (exn, 'a) result" where
  "raise_code c = Inl (ServiceErr (ServiceError c False None None None))"

lemma raise_code_simps [simp]:
  "raise_code c \<noteq> Inr a"
  "Inr a \<noteq> raise_code c"
  "bindE (raise_code c) f = raise_code c"
  "mapR g (raise_code c) = raise_code c"
  by (simp_all add: raise_code_def)

lemma raise_code_eq_iff [simp]: "raise_code c = raise_code d \<longleftrightarrow> c = d"
  by (simp add: raise_code_def ServiceError_def)

section \<open>Timeouts\<close>

definition TIMEOUT_CODES :: "error_code list" where
  "TIMEOUT_CODES = [REQUEST_TIMEOUT, RUN_TIMEOUT]"

definition timeout_code :: "rat \<Rightarrow> rat \<Rightarrow> error_code" where
  "timeout_code now run_deadline = (if now \<ge> run_deadline then RUN_TIMEOUT else REQUEST_TIMEOUT)"

lemma timeout_code_in: "timeout_code n d \<in> set TIMEOUT_CODES"
  by (simp add: timeout_code_def TIMEOUT_CODES_def)

end
