(* ===== verification/Json.thy ===== *)
theory Json imports Errors begin

text \<open>
  \<^verbatim>\<open>core/json.py\<close> and the deep equality of \<^verbatim>\<open>core/conditions.py\<close>: Python objects as the
  engine sees them at its boundary, immutable JSON values, the validating copy between them,
  and JSON equality without coercion.

  A finite Python float is an exact rational, so mixed int/float comparison is exact, as it is
  in Python; the non-finite floats are separate constructors. A string is a list of code
  points.
\<close>

section \<open>Numbers\<close>

datatype pfloat = Fin rat | PosInf | NegInf | NaN

text \<open>IEEE comparison: every comparison with NaN is false.\<close>

fun pf_eq :: "pfloat \<Rightarrow> pfloat \<Rightarrow> bool" where
  "pf_eq (Fin a) (Fin b) = (a = b)"
| "pf_eq PosInf PosInf = True"
| "pf_eq NegInf NegInf = True"
| "pf_eq _ _ = False"

fun pf_less :: "pfloat \<Rightarrow> pfloat \<Rightarrow> bool" where
  "pf_less (Fin a) (Fin b) = (a < b)"
| "pf_less (Fin a) PosInf = True"
| "pf_less NegInf (Fin b) = True"
| "pf_less NegInf PosInf = True"
| "pf_less _ _ = False"

definition pf_le :: "pfloat \<Rightarrow> pfloat \<Rightarrow> bool" where
  "pf_le a b \<longleftrightarrow> pf_less a b \<or> pf_eq a b"

section \<open>Values\<close>

text \<open>Objects handed to the engine: keys of a mapping need not be strings.\<close>

datatype pyobj =
    PNone
  | PBool bool
  | PInt int
  | PFloat pfloat
  | PStr string
  | PList "pyobj list"
  | PTuple "pyobj list"
  | PMap "(pyobj \<times> pyobj) list"
  | POther

text \<open>\<^verbatim>\<open>FrozenJson\<close>: tuples and read-only mappings with string keys.\<close>

datatype json =
    JNull
  | JBool bool
  | JInt int
  | JFloat pfloat
  | JStr string
  | JArr "json list"
  | JObj "(string \<times> json) list"

type_synonym jobj = "(string, json) dict"

definition MAX_JSON_DEPTH :: nat where "MAX_JSON_DEPTH = 64"
definition MAX_EXECUTION_JSON_DEPTH :: nat where "MAX_EXECUTION_JSON_DEPTH = 192"

section \<open>The validating copy\<close>

fun visit :: "nat \<Rightarrow> nat \<Rightarrow> pyobj \<Rightarrow> (exn, json) result"
  and visit_list :: "nat \<Rightarrow> nat \<Rightarrow> pyobj list \<Rightarrow> (exn, json list) result"
  and visit_items :: "nat \<Rightarrow> nat \<Rightarrow> jobj \<Rightarrow> (pyobj \<times> pyobj) list \<Rightarrow> (exn, jobj) result"
where
  "visit m d PNone = (if m < d then raise_code INVALID_INPUT else Inr JNull)"
| "visit m d (PStr s) = (if m < d then raise_code INVALID_INPUT else Inr (JStr s))"
| "visit m d (PBool b) = (if m < d then raise_code INVALID_INPUT else Inr (JBool b))"
| "visit m d (PInt i) = (if m < d then raise_code INVALID_INPUT else Inr (JInt i))"
| "visit m d (PFloat x) = (if m < d then raise_code INVALID_INPUT
     else (case x of Fin q \<Rightarrow> Inr (JFloat (Fin q)) | _ \<Rightarrow> raise_code INVALID_INPUT))"
| "visit m d (PList xs) = (if m < d then raise_code INVALID_INPUT
     else mapR JArr (visit_list m (Suc d) xs))"
| "visit m d (PTuple xs) = (if m < d then raise_code INVALID_INPUT
     else mapR JArr (visit_list m (Suc d) xs))"
| "visit m d (PMap ps) = (if m < d then raise_code INVALID_INPUT
     else mapR JObj (visit_items m (Suc d) [] ps))"
| "visit m d POther = raise_code INVALID_INPUT"
| "visit_list m d [] = Inr []"
| "visit_list m d (x # xs) =
     bindE (visit m d x) (\<lambda>y. mapR (\<lambda>ys. y # ys) (visit_list m d xs))"
| "visit_items m d acc [] = Inr acc"
| "visit_items m d acc ((k, c) # ps) =
     (case k of PStr s \<Rightarrow> bindE (visit m d c) (\<lambda>j. visit_items m d (put s j acc) ps)
      | _ \<Rightarrow> raise_code INVALID_INPUT)"

definition freeze_json_depth :: "nat \<Rightarrow> pyobj \<Rightarrow> (exn, json) result" where
  "freeze_json_depth max_depth v = visit max_depth 0 v"

definition freeze_json :: "pyobj \<Rightarrow> (exn, json) result" where
  "freeze_json v = freeze_json_depth MAX_JSON_DEPTH v"

fun thaw_json :: "json \<Rightarrow> pyobj" where
  "thaw_json JNull = PNone"
| "thaw_json (JBool b) = PBool b"
| "thaw_json (JInt i) = PInt i"
| "thaw_json (JFloat x) = PFloat x"
| "thaw_json (JStr s) = PStr s"
| "thaw_json (JArr xs) = PList (map thaw_json xs)"
| "thaw_json (JObj ps) = PMap (map (\<lambda>p. (PStr (fst p), thaw_json (snd p))) ps)"

text \<open>A frozen value seen as a Python object: tuples and mapping proxies, not copies.\<close>

fun frozen_obj :: "json \<Rightarrow> pyobj" where
  "frozen_obj JNull = PNone"
| "frozen_obj (JBool b) = PBool b"
| "frozen_obj (JInt i) = PInt i"
| "frozen_obj (JFloat x) = PFloat x"
| "frozen_obj (JStr s) = PStr s"
| "frozen_obj (JArr xs) = PTuple (map frozen_obj xs)"
| "frozen_obj (JObj ps) = PMap (map (\<lambda>p. (PStr (fst p), frozen_obj (snd p))) ps)"

section \<open>Well-formed values\<close>

text \<open>What a frozen value guarantees: finite floats, distinct keys, bounded depth.\<close>

fun json_wf :: "json \<Rightarrow> bool" where
  "json_wf (JFloat x) = (case x of Fin _ \<Rightarrow> True | _ \<Rightarrow> False)"
| "json_wf (JArr xs) = list_all json_wf xs"
| "json_wf (JObj ps) = (dict_wf ps \<and> list_all (\<lambda>p. json_wf (snd p)) ps)"
| "json_wf _ = True"

fun json_depth :: "json \<Rightarrow> nat" where
  "json_depth (JArr xs) = fold max (map (\<lambda>x. Suc (json_depth x)) xs) 0"
| "json_depth (JObj ps) = fold max (map (\<lambda>p. Suc (json_depth (snd p))) ps) 0"
| "json_depth _ = 0"

definition depth_within :: "nat \<Rightarrow> nat \<Rightarrow> json \<Rightarrow> bool" where
  "depth_within m d j \<longleftrightarrow> d + json_depth j \<le> m"

lemma fold_max_le: "fold max xs a \<le> (b::nat) \<longleftrightarrow> a \<le> b \<and> list_all (\<lambda>x. x \<le> b) xs"
  by (induction xs arbitrary: a) auto

lemma fold_max_Suc_bound:
  "d + fold max (map (\<lambda>x. Suc (f x)) xs) 0 \<le> m \<longleftrightarrow> d \<le> m \<and> list_all (\<lambda>x. Suc d + f x \<le> m) xs"
proof (cases "d \<le> m")
  case True
  then have "d + fold max (map (\<lambda>x. Suc (f x)) xs) 0 \<le> m \<longleftrightarrow>
      fold max (map (\<lambda>x. Suc (f x)) xs) 0 \<le> m - d" by arith
  also have "\<dots> \<longleftrightarrow> list_all (\<lambda>x. Suc (f x) \<le> m - d) xs"
    by (simp add: fold_max_le list_all_iff)
  also have "\<dots> \<longleftrightarrow> list_all (\<lambda>x. Suc d + f x \<le> m) xs"
    using True by (auto simp: list_all_iff)
  finally show ?thesis using True by simp
qed simp

lemma depth_within_simps [simp]:
  "depth_within m d (JArr xs) \<longleftrightarrow> d \<le> m \<and> list_all (depth_within m (Suc d)) xs"
  "depth_within m d (JObj ps) \<longleftrightarrow> d \<le> m \<and> list_all (\<lambda>p. depth_within m (Suc d) (snd p)) ps"
  by (simp_all add: depth_within_def fold_max_Suc_bound list_all_iff)

lemma depth_within_atoms [simp]:
  "depth_within m d JNull \<longleftrightarrow> d \<le> m" "depth_within m d (JBool b) \<longleftrightarrow> d \<le> m"
  "depth_within m d (JInt i) \<longleftrightarrow> d \<le> m" "depth_within m d (JFloat x) \<longleftrightarrow> d \<le> m"
  "depth_within m d (JStr s) \<longleftrightarrow> d \<le> m"
  by (simp_all add: depth_within_def)

text \<open>A copy succeeds exactly on well-formed values within the depth bound.\<close>

lemma visit_items_distinct:
  assumes "dict_wf (acc @ ps)"
    and "\<And>p. p \<in> set ps \<Longrightarrow> visit m d (g (snd p)) = Inr (snd p)"
  shows "visit_items m d acc (map (\<lambda>p. (PStr (fst p), g (snd p))) ps) = Inr (acc @ ps)"
  using assms
proof (induction ps arbitrary: acc)
  case Nil
  then show ?case by simp
next
  case (Cons p ps)
  from Cons.prems(1) have "put (fst p) (snd p) acc = acc @ [p]"
    by (simp add: put_new)
  moreover from Cons.prems have
    "visit_items m d (acc @ [p]) (map (\<lambda>p. (PStr (fst p), g (snd p))) ps) = Inr ((acc @ [p]) @ ps)"
    by (intro Cons.IH) auto
  ultimately show ?case using Cons.prems(2) [of p] by simp
qed

lemma visit_list_map:
  "(\<And>x. x \<in> set xs \<Longrightarrow> visit m d (g x) = Inr x) \<Longrightarrow> visit_list m d (map g xs) = Inr xs"
  by (induction xs) auto

lemma visit_thaw: "json_wf j \<Longrightarrow> depth_within m d j \<Longrightarrow> visit m d (thaw_json j) = Inr j"
proof (induction j arbitrary: d)
  case (JArr xs)
  then have "visit_list m (Suc d) (map thaw_json xs) = Inr xs"
    by (intro visit_list_map) (auto simp: list_all_iff)
  with JArr.prems show ?case by simp
next
  case (JObj ps)
  have "visit_items m (Suc d) [] (map (\<lambda>p. (PStr (fst p), thaw_json (snd p))) ps) = Inr ([] @ ps)"
  proof (rule visit_items_distinct)
    fix p assume p: "p \<in> set ps"
    show "visit m (Suc d) (thaw_json (snd p)) = Inr (snd p)"
      by (rule JObj.IH [of p "snd p"]) (use p JObj.prems in \<open>auto simp: list_all_iff snds.simps\<close>)
  qed (use JObj.prems in simp)
  with JObj.prems show ?case by simp
next
  case (JFloat x)
  then show ?case by (cases x) simp_all
qed simp_all

lemma visit_frozen: "json_wf j \<Longrightarrow> depth_within m d j \<Longrightarrow> visit m d (frozen_obj j) = Inr j"
proof (induction j arbitrary: d)
  case (JArr xs)
  then have "visit_list m (Suc d) (map frozen_obj xs) = Inr xs"
    by (intro visit_list_map) (auto simp: list_all_iff)
  with JArr.prems show ?case by simp
next
  case (JObj ps)
  have "visit_items m (Suc d) [] (map (\<lambda>p. (PStr (fst p), frozen_obj (snd p))) ps) = Inr ([] @ ps)"
  proof (rule visit_items_distinct)
    fix p assume p: "p \<in> set ps"
    show "visit m (Suc d) (frozen_obj (snd p)) = Inr (snd p)"
      by (rule JObj.IH [of p "snd p"]) (use p JObj.prems in \<open>auto simp: list_all_iff snds.simps\<close>)
  qed (use JObj.prems in simp)
  with JObj.prems show ?case by simp
next
  case (JFloat x)
  then show ?case by (cases x) simp_all
qed simp_all

lemma put_list_all: "list_all (\<lambda>p. P (snd p)) acc \<Longrightarrow> P v \<Longrightarrow> list_all (\<lambda>p. P (snd p)) (put k v acc)"
  by (induction acc) auto

lemma visit_sound:
  "visit m d v = Inr j \<Longrightarrow> json_wf j \<and> depth_within m d j"
  "visit_list m d vs = Inr js \<Longrightarrow> list_all json_wf js \<and> list_all (depth_within m d) js"
  "visit_items m d acc ps = Inr o' \<Longrightarrow> dict_wf acc \<Longrightarrow>
     list_all (\<lambda>p. json_wf (snd p) \<and> depth_within m d (snd p)) acc \<Longrightarrow>
     dict_wf o' \<and> list_all (\<lambda>p. json_wf (snd p) \<and> depth_within m d (snd p)) o'"
proof (induction m d v and m d vs and m d acc ps arbitrary: j and js and o'
    rule: visit_visit_list_visit_items.induct)
  case (5 m d x)
  then show ?case by (auto split: if_splits pfloat.splits)
next
  case (8 m d ps)
  then show ?case by (auto split: if_splits simp: mapR_Inr_iff list_all_iff)
next
  case (13 m d acc k c ps)
  from "13.prems"(1) obtain s w where k: "k = PStr s" and w: "visit m d c = Inr w"
    and rest: "visit_items m d (put s w acc) ps = Inr o'"
    by (auto simp: bindE_Inr_iff split: pyobj.splits)
  from "13.IH"(1) [OF k w] have "json_wf w \<and> depth_within m d w" .
  then have "list_all (\<lambda>p. json_wf (snd p) \<and> depth_within m d (snd p)) (put s w acc)"
    using "13.prems"(3) by (rule put_list_all [rotated])
  with "13.IH"(2) [OF k w rest] "13.prems"(2) show ?case by simp
qed (auto split: if_splits simp: bindE_Inr_iff mapR_Inr_iff)

lemma freeze_depth_frozen_iff:
  "freeze_json_depth m (frozen_obj j) = Inr j' \<Longrightarrow> json_wf j' \<and> json_depth j' \<le> m"
  unfolding freeze_json_depth_def using visit_sound(1) [of m 0] by (auto simp: depth_within_def)

lemma freeze_frozen:
  "json_wf j \<Longrightarrow> json_depth j \<le> m \<Longrightarrow> freeze_json_depth m (frozen_obj j) = Inr j"
  unfolding freeze_json_depth_def by (rule visit_frozen) (simp_all add: depth_within_def)

lemma freeze_json_sound: "freeze_json v = Inr j \<Longrightarrow> json_wf j \<and> json_depth j \<le> MAX_JSON_DEPTH"
  unfolding freeze_json_def freeze_json_depth_def
  using visit_sound(1) [of MAX_JSON_DEPTH 0 v j] by (simp add: depth_within_def)

lemma visit_error:
  "visit m d v = Inl e \<Longrightarrow> Inl e = (raise_code INVALID_INPUT :: (exn, unit) result)"
  "visit_list m d vs = Inl e \<Longrightarrow> Inl e = (raise_code INVALID_INPUT :: (exn, unit) result)"
  "visit_items m d acc ps = Inl e \<Longrightarrow> Inl e = (raise_code INVALID_INPUT :: (exn, unit) result)"
  by (induction m d v and m d vs and m d acc ps rule: visit_visit_list_visit_items.induct)
    (auto split: if_splits pfloat.splits pyobj.splits
      simp: bindE_Inl_iff mapR_Inl_iff raise_code_def)

section \<open>Deep equality\<close>

text \<open>\<^verbatim>\<open>json_equal\<close>: numbers compare by value, booleans are not numbers.\<close>

fun number_of :: "json \<Rightarrow> pfloat option" where
  "number_of (JInt i) = Some (Fin (of_int i))"
| "number_of (JFloat x) = Some x"
| "number_of _ = None"

lemma snd_mem_size: "(a, b) \<in> set ps \<Longrightarrow> size b < Suc (size_list (size_prod (\<lambda>_. 0) size) ps)"
  by (induction ps) auto

lemma zip_left_size: "(a, b) \<in> set (zip xs ys) \<Longrightarrow> size a < Suc (size_list size xs)"
  by (meson le_imp_less_Suc order_refl set_zip_leftD size_list_estimation')

function json_equal :: "json \<Rightarrow> json \<Rightarrow> bool" where
  "json_equal (JBool a) r = (case r of JBool b \<Rightarrow> a = b | _ \<Rightarrow> False)"
| "json_equal (JInt i) r =
     (case number_of r of Some y \<Rightarrow> pf_eq (Fin (of_int i)) y | None \<Rightarrow> False)"
| "json_equal (JFloat x) r = (case number_of r of Some y \<Rightarrow> pf_eq x y | None \<Rightarrow> False)"
| "json_equal (JStr s) r = (case r of JStr t \<Rightarrow> s = t | _ \<Rightarrow> False)"
| "json_equal JNull r = (case r of JNull \<Rightarrow> True | _ \<Rightarrow> False)"
| "json_equal (JObj ps) r = (case r of
     JObj qs \<Rightarrow> list_all (\<lambda>k. k \<in> set (keys qs)) (keys ps) \<and>
               list_all (\<lambda>k. k \<in> set (keys ps)) (keys qs) \<and>
               list_all (\<lambda>p. case get qs (fst p) of
                   Some w \<Rightarrow> json_equal (snd p) w | None \<Rightarrow> False) ps
   | _ \<Rightarrow> False)"
| "json_equal (JArr xs) r = (case r of
     JArr ys \<Rightarrow> length xs = length ys \<and> list_all (\<lambda>p. json_equal (fst p) (snd p)) (zip xs ys)
   | _ \<Rightarrow> False)"
  by pat_completeness auto
termination
  by (relation "measure (\<lambda>(l, r). size l)")
    (auto intro: zip_left_size snd_mem_size)

lemma json_equal_obj_iff:
  "json_equal (JObj ps) (JObj qs) \<longleftrightarrow> set (keys ps) = set (keys qs) \<and>
     (\<forall>p \<in> set ps. \<exists>w. get qs (fst p) = Some w \<and> json_equal (snd p) w)"
  by (fastforce simp: list_all_iff split: option.splits)

lemma json_equal_arr_iff:
  "json_equal (JArr xs) (JArr ys) \<longleftrightarrow>
     length xs = length ys \<and> (\<forall>i < length xs. json_equal (xs ! i) (ys ! i))"
  by (auto simp: list_all_length)

lemma json_equal_arrD: "json_equal (JArr xs) r \<Longrightarrow> \<exists>ys. r = JArr ys"
  by (cases r) simp_all

lemma json_equal_objD: "json_equal (JObj ps) r \<Longrightarrow> \<exists>qs. r = JObj qs"
  by (cases r) simp_all

lemma pf_eq_refl: "(case x of Fin _ \<Rightarrow> True | _ \<Rightarrow> False) \<Longrightarrow> pf_eq x x"
  by (cases x) auto

lemma pf_eq_sym: "pf_eq x y \<Longrightarrow> pf_eq y x"
  by (induction x y rule: pf_eq.induct) auto

lemma pf_eq_trans: "pf_eq x y \<Longrightarrow> pf_eq y z \<Longrightarrow> pf_eq x z"
  by (cases x; cases y; cases z) auto

lemma json_equal_refl: "json_wf j \<Longrightarrow> json_equal j j"
proof (induction j)
  case (JArr xs)
  then show ?case by (auto simp: list_all_iff in_set_zip)
next
  case (JObj ps)
  have "\<exists>w. get ps (fst p) = Some w \<and> json_equal (snd p) w" if p: "p \<in> set ps" for p
  proof -
    from JObj.prems p have "get ps (fst p) = Some (snd p)"
      by (intro map_of_is_SomeI) auto
    moreover have "json_equal (snd p) (snd p)"
      by (rule JObj.IH [of p]) (use p JObj.prems in \<open>auto simp: list_all_iff snds.simps\<close>)
    ultimately show ?thesis by blast
  qed
  then show ?case unfolding json_equal_obj_iff by blast
next
  case (JFloat x)
  then show ?case by (cases x) simp_all
qed simp_all

lemma json_equal_sym: "json_wf l \<Longrightarrow> json_wf r \<Longrightarrow> json_equal l r \<Longrightarrow> json_equal r l"
proof (induction l arbitrary: r)
  case (JInt i)
  then show ?case by (cases r) (auto intro: pf_eq_sym)
next
  case (JFloat x)
  then show ?case by (cases r) (auto intro: pf_eq_sym)
next
  case (JArr xs)
  then obtain ys where r: "r = JArr ys" "length xs = length ys"
    and eq: "\<And>i. i < length xs \<Longrightarrow> json_equal (xs ! i) (ys ! i)"
    by (cases r) (auto simp: list_all_length)
  have "json_equal (ys ! i) (xs ! i)" if i: "i < length xs" for i
    by (rule JArr.IH) (use i r JArr.prems eq in \<open>auto simp: list_all_length\<close>)
  with r show ?case by (auto simp: list_all_length)
next
  case (JObj ps)
  then obtain qs where r: "r = JObj qs" by (cases r) auto
  with JObj.prems have eq: "json_equal (JObj ps) (JObj qs)"
    and wf: "dict_wf ps" "dict_wf qs" "\<And>q. q \<in> set qs \<Longrightarrow> json_wf (snd q)"
      "\<And>p. p \<in> set ps \<Longrightarrow> json_wf (snd p)"
    by (auto simp: list_all_iff)
  have "\<exists>w. get ps (fst q) = Some w \<and> json_equal (snd q) w" if q: "q \<in> set qs" for q
  proof -
    from eq q have "fst q \<in> set (keys ps)" unfolding json_equal_obj_iff by auto
    then obtain v where p: "(fst q, v) \<in> set ps" by force
    from q wf(2) have g: "get qs (fst q) = Some (snd q)" by (intro map_of_is_SomeI) auto
    from eq p have "\<exists>w. get qs (fst q) = Some w \<and> json_equal v w"
      unfolding json_equal_obj_iff by force
    with g have "json_equal v (snd q)" by simp
    then have "json_equal (snd q) v"
      using JObj.IH [OF p, of v] wf(3) [OF q] wf(4) [OF p] by (simp add: snds.simps)
    moreover from p wf(1) have "get ps (fst q) = Some v" by (intro map_of_is_SomeI) auto
    ultimately show ?thesis by blast
  qed
  with eq show ?case unfolding r json_equal_obj_iff by auto
qed (auto split: json.splits)

lemma number_of_eq_cases:
  "json_equal (JInt i) r \<Longrightarrow> \<exists>y. number_of r = Some y \<and> pf_eq (Fin (of_int i)) y"
  "json_equal (JFloat x) r \<Longrightarrow> \<exists>y. number_of r = Some y \<and> pf_eq x y"
  by (auto split: option.splits)

lemma json_equal_number:
  "number_of r = Some y \<Longrightarrow> json_equal r t \<longleftrightarrow> (\<exists>z. number_of t = Some z \<and> pf_eq y z)"
  by (cases r) (auto split: option.splits)

lemma json_equal_trans: "json_equal l r \<Longrightarrow> json_equal r t \<Longrightarrow> json_equal l t"
proof (induction l arbitrary: r t)
  case (JInt i)
  then obtain y where "number_of r = Some y" "pf_eq (Fin (of_int i)) y"
    using number_of_eq_cases(1) by blast
  with JInt.prems(2) show ?case by (auto simp: json_equal_number intro: pf_eq_trans)
next
  case (JFloat x)
  then obtain y where "number_of r = Some y" "pf_eq x y"
    using number_of_eq_cases(2) by blast
  with JFloat.prems(2) show ?case by (auto simp: json_equal_number intro: pf_eq_trans)
next
  case (JArr xs)
  obtain ys where r: "r = JArr ys" using json_equal_arrD [OF JArr.prems(1)] by blast
  obtain zs where t: "t = JArr zs" using json_equal_arrD JArr.prems(2) unfolding r by blast
  from JArr.prems show ?case
    unfolding r t json_equal_arr_iff using JArr.IH by (metis nth_mem)
next
  case (JObj ps)
  obtain qs where r1: "r = JObj qs" using json_equal_objD [OF JObj.prems(1)] by blast
  obtain rs where r2: "t = JObj rs" using json_equal_objD JObj.prems(2) unfolding r1 by blast
  note r = r1 r2
  from JObj.prems have e1: "json_equal (JObj ps) (JObj qs)" and e2: "json_equal (JObj qs) (JObj rs)"
    by (simp_all only: r)
  have "\<exists>w. get rs (fst p) = Some w \<and> json_equal (snd p) w" if p: "p \<in> set ps" for p
  proof -
    from e1 p obtain v where v: "get qs (fst p) = Some v" "json_equal (snd p) v"
      unfolding json_equal_obj_iff by blast
    then have "(fst p, v) \<in> set qs" by (intro map_of_SomeD)
    with e2 obtain w where "get rs (fst p) = Some w" "json_equal v w"
      unfolding json_equal_obj_iff by force
    with v(2) JObj.IH [of p "snd p" v w] p show ?thesis by (auto simp: snds.simps)
  qed
  with e1 e2 show ?case unfolding r json_equal_obj_iff by auto
qed (auto split: json.splits)

section \<open>Properties\<close>

text \<open>
  C35: Thawing a well-formed frozen value and freezing it again gives the value back.
\<close>

theorem freeze_thaw_roundtrip:
  assumes "json_wf j" "json_depth j \<le> MAX_JSON_DEPTH"
  shows "freeze_json (thaw_json j) = Inr j"
  using assms visit_thaw [of j MAX_JSON_DEPTH 0]
  by (simp add: freeze_json_def freeze_json_depth_def depth_within_def)

theorem freeze_thaw_roundtrip_witness:
  "freeze_json (thaw_json (JObj [(''a'', JArr [JInt 1, JFloat (Fin (1/2)), JNull]), (''b'', JObj [])]))
     = Inr (JObj [(''a'', JArr [JInt 1, JFloat (Fin (1/2)), JNull]), (''b'', JObj [])])"
  by (rule freeze_thaw_roundtrip) (simp_all add: MAX_JSON_DEPTH_def)

text \<open>
  C40: Whatever Python object is frozen, the result is a well-formed value within the depth
  limit, or the failure is an invalid-input error and nothing else.
\<close>

theorem freeze_json_checked:
  "case freeze_json v of
     Inr j \<Rightarrow> json_wf j \<and> json_depth j \<le> MAX_JSON_DEPTH
   | Inl e \<Rightarrow> (Inl e :: (exn, unit) result) = raise_code INVALID_INPUT"
  using freeze_json_sound [of v] visit_error(1) [of MAX_JSON_DEPTH 0 v]
  by (auto simp: freeze_json_def freeze_json_depth_def split: sum.split)

text \<open>
  C36: On frozen values the business equality of JSON (numbers by value across integers
  and floats, objects without order) is an equivalence.
\<close>

theorem json_equal_equivalence:
  assumes "json_wf a" "json_wf b" "json_wf c"
  shows "json_equal a a \<and> json_equal a b = json_equal b a \<and>
    (json_equal a b \<and> json_equal b c \<longrightarrow> json_equal a c)"
  using assms by (auto intro: json_equal_refl json_equal_sym json_equal_trans)

theorem json_equal_equivalence_witness:
  "let a = JObj [(''x'', JInt 1), (''y'', JNull)]; b = JObj [(''y'', JNull), (''x'', JFloat (Fin 1))];
       c = JObj [(''x'', JFloat (Fin 1)), (''y'', JNull)] in
   json_equal a a \<and> json_equal a b = json_equal b a \<and> (json_equal a b \<and> json_equal b c \<longrightarrow> json_equal a c)"
  unfolding Let_def by (rule json_equal_equivalence) simp_all

end
