(* ===== verification/Prompt.thy ===== *)
theory Prompt imports Json "HOL-Library.Char_ord" "HOL-Library.List_Lexorder" begin

text \<open>
  \<^verbatim>\<open>core/prompt.py\<close>: compiling \<^verbatim>\<open>{{ name }}\<close> placeholders against declared input
  names, and rendering bound values once as compact JSON. The text of a finite float is a
  parameter, since the shortest round-trip printing of a double is the interpreter's.
\<close>

section \<open>Names\<close>

definition alnum_lower :: "char \<Rightarrow> bool" where
  "alnum_lower c \<longleftrightarrow> ascii_lower c \<or> ascii_digit c"

text \<open>\<^verbatim>\<open>[a-z][a-z0-9]*(?:_[a-z0-9]+)*\<close>\<close>

fun name_rest :: "string \<Rightarrow> bool" where
  "name_rest [] = True"
| "name_rest (c # cs) =
     (if alnum_lower c then name_rest cs
      else if c = CHR ''_'' then (case cs of [] \<Rightarrow> False | d # ds \<Rightarrow> alnum_lower d \<and> name_rest ds)
      else False)"

definition name_ok :: "string \<Rightarrow> bool" where
  "name_ok s = (case s of [] \<Rightarrow> False | c # cs \<Rightarrow> ascii_lower c \<and> name_rest cs)"

section \<open>Templates\<close>

datatype part = Lit string | Inp string

type_synonym template = "part list"

datatype delim = Open4 | Close4 | Open2 | Close2

text \<open>The leftmost delimiter: the text before it, the token, the text after it.\<close>

fun find_delim :: "string \<Rightarrow> (string \<times> delim \<times> string) option" where
  "find_delim [] = None"
| "find_delim (c # cs) =
     (if take 4 (c # cs) = ''{{{{'' then Some ([], Open4, drop 3 cs)
      else if take 4 (c # cs) = ''}}}}'' then Some ([], Close4, drop 3 cs)
      else if take 2 (c # cs) = ''{{'' then Some ([], Open2, drop 1 cs)
      else if take 2 (c # cs) = ''}}'' then Some ([], Close2, drop 1 cs)
      else map_option (\<lambda>(pre, d, rest). (c # pre, d, rest)) (find_delim cs))"

fun find_close :: "string \<Rightarrow> (string \<times> string) option" where
  "find_close [] = None"
| "find_close (c # cs) =
     (if take 2 (c # cs) = ''}}'' then Some ([], drop 1 cs)
      else map_option (\<lambda>(pre, rest). (c # pre, rest)) (find_close cs))"

definition blank :: "char \<Rightarrow> bool" where
  "blank c \<longleftrightarrow> c = CHR '' '' \<or> c = CHR 0x09"

definition placeholder :: "string \<Rightarrow> string option" where
  "placeholder s =
     (let n = rev (dropWhile blank (rev (dropWhile blank s))) in if name_ok n then Some n else None)"

lemma find_delim_shorter: "find_delim s = Some (pre, d, rest) \<Longrightarrow> length rest < length s"
  by (induction s arbitrary: pre) (fastforce split: if_splits)+

lemma find_close_shorter: "find_close s = Some (pre, rest) \<Longrightarrow> length rest < length s"
  by (induction s arbitrary: pre) (fastforce split: if_splits)+

text \<open>The scanning loop: finished parts, the pending literal pieces, the remaining text.\<close>

definition flush :: "string list \<Rightarrow> part list" where
  "flush literal = (if literal = [] then [] else [Lit (concat literal)])"

function compile_loop ::
  "string list \<Rightarrow> part list \<Rightarrow> string list \<Rightarrow> string \<Rightarrow> (exn, template) result" where
  "compile_loop declared parts literal s =
     (case find_delim s of
        None \<Rightarrow> Inr (parts @ flush (literal @ [s]))
      | Some (pre, d, rest) \<Rightarrow>
          (case d of
             Open4 \<Rightarrow> compile_loop declared parts (literal @ [pre, ''{{'']) rest
           | Close4 \<Rightarrow> compile_loop declared parts (literal @ [pre, ''}}'']) rest
           | Close2 \<Rightarrow> raise_code INVALID_CONFIGURATION
           | Open2 \<Rightarrow>
               (case find_close rest of
                  None \<Rightarrow> raise_code INVALID_CONFIGURATION
                | Some (inner, after) \<Rightarrow>
                    (case placeholder inner of
                       None \<Rightarrow> raise_code INVALID_CONFIGURATION
                     | Some n \<Rightarrow>
                         if n \<notin> set declared then raise_code INVALID_CONFIGURATION
                         else compile_loop declared
                                (parts @ flush (literal @ [pre]) @ [Inp n]) [] after))))"
  by pat_completeness auto
termination
  by (relation "measure (\<lambda>(_, _, _, s). length s)")
    (auto dest!: find_delim_shorter find_close_shorter)

declare compile_loop.simps [simp del]

definition compile_prompt :: "string \<Rightarrow> string list \<Rightarrow> (exn, template) result" where
  "compile_prompt template input_names =
     (if \<not> list_all name_ok input_names \<or> \<not> distinct input_names
      then raise_code INVALID_CONFIGURATION
      else compile_loop input_names [] [] template)"

definition prompt_inputs :: "template \<Rightarrow> string list" where
  "prompt_inputs t = remdups (concat (map (\<lambda>p. case p of Inp n \<Rightarrow> [n] | Lit _ \<Rightarrow> []) t))"

section \<open>Compact JSON text\<close>

fun digits_rev :: "nat \<Rightarrow> string" where
  "digits_rev n = char_of (48 + n mod 10) # (if n < 10 then [] else digits_rev (n div 10))"

declare digits_rev.simps [simp del]

definition nat_text :: "nat \<Rightarrow> string" where
  "nat_text n = rev (digits_rev n)"

text \<open>The interpreter refuses to print integers of more than 4300 digits.\<close>

definition int_text :: "int \<Rightarrow> string option" where
  "int_text i =
     (if \<bar>i\<bar> \<ge> 10 ^ 4300 then None
      else Some ((if i < 0 then ''-'' else '''') @ nat_text (nat \<bar>i\<bar>)))"

definition hex_digit :: "nat \<Rightarrow> char" where
  "hex_digit n = (if n < 10 then char_of (48 + n) else char_of (87 + n))"

definition escape_char :: "char \<Rightarrow> string" where
  "escape_char c =
     (if c = CHR 0x5C then [CHR 0x5C, CHR 0x5C]
      else if c = CHR 0x22 then [CHR 0x5C, CHR 0x22]
      else if c = CHR 0x08 then [CHR 0x5C, CHR ''b'']
      else if c = CHR 0x0C then [CHR 0x5C, CHR ''f'']
      else if c = CHR 0x0A then [CHR 0x5C, CHR ''n'']
      else if c = CHR 0x0D then [CHR 0x5C, CHR ''r'']
      else if c = CHR 0x09 then [CHR 0x5C, CHR ''t'']
      else if of_char c < (32::nat) then
        CHR 0x5C # ''u00'' @ [hex_digit (of_char c div 16), hex_digit (of_char c mod 16)]
      else [c])"

definition string_text :: "string \<Rightarrow> string" where
  "string_text s = CHR 0x22 # concat (map escape_char s) @ [CHR 0x22]"

fun join :: "string \<Rightarrow> string list \<Rightarrow> string" where
  "join sep [] = []"
| "join sep [x] = x"
| "join sep (x # y # xs) = x @ sep @ join sep (y # xs)"

fun all_some :: "'a option list \<Rightarrow> 'a list option" where
  "all_some [] = Some []"
| "all_some (x # xs) = (case x of None \<Rightarrow> None | Some a \<Rightarrow> map_option (\<lambda>as. a # as) (all_some xs))"

fun json_dumps :: "(rat \<Rightarrow> string) \<Rightarrow> json \<Rightarrow> string option" where
  "json_dumps ft JNull = Some ''null''"
| "json_dumps ft (JBool b) = Some (if b then ''true'' else ''false'')"
| "json_dumps ft (JInt i) = int_text i"
| "json_dumps ft (JFloat x) = (case x of Fin q \<Rightarrow> Some (ft q) | _ \<Rightarrow> None)"
| "json_dumps ft (JStr s) = Some (string_text s)"
| "json_dumps ft (JArr xs) =
     map_option (\<lambda>ts. ''['' @ join '','' ts @ '']'') (all_some (map (json_dumps ft) xs))"
| "json_dumps ft (JObj ps) =
     map_option (\<lambda>ts. ''{'' @ join '','' ts @ ''}'')
       (all_some (map (\<lambda>p. map_option (\<lambda>t. string_text (fst p) @ '':'' @ t) (snd p))
         (sort_key fst (map (\<lambda>p. (fst p, json_dumps ft (snd p))) ps))))"

section \<open>Rendering\<close>

fun render_parts :: "(rat \<Rightarrow> string) \<Rightarrow> jobj \<Rightarrow> template \<Rightarrow> (exn, string) result" where
  "render_parts ft inputs [] = Inr []"
| "render_parts ft inputs (Lit s # ps) = mapR (\<lambda>t. s @ t) (render_parts ft inputs ps)"
| "render_parts ft inputs (Inp n # ps) =
     (case get inputs n of
        None \<Rightarrow> raise_code MISSING_BINDING
      | Some v \<Rightarrow>
          bindE (freeze_json (frozen_obj v)) (\<lambda>f.
            (case json_dumps ft f of
               None \<Rightarrow> raise_code INVALID_INPUT
             | Some t \<Rightarrow> mapR (\<lambda>r. t @ r) (render_parts ft inputs ps))))"

definition render_prompt :: "(rat \<Rightarrow> string) \<Rightarrow> template \<Rightarrow> jobj \<Rightarrow> (exn, string) result" where
  "render_prompt ft template inputs = render_parts ft inputs template"

section \<open>Facts\<close>

text \<open>Pending pieces matter only through their concatenation.\<close>

lemma compile_loop_pieces:
  "concat l = concat l' \<Longrightarrow> compile_loop d p l s = compile_loop d p l' s"
proof (induction d p l s arbitrary: l' rule: compile_loop.induct)
  case (1 d p l s)
  show ?case
  proof (cases "find_delim s")
    case None
    then show ?thesis using "1.prems" by (simp add: compile_loop.simps [of d p] flush_def)
  next
    case (Some a)
    obtain pre t rest where a: "a = (pre, t, rest)" by (cases a)
    have f: "flush (l @ [pre]) = flush (l' @ [pre])" using "1.prems" by (simp add: flush_def)
    show ?thesis
    proof (cases t)
      case Open4
      have "compile_loop d p (l @ [pre, ''{{'']) rest = compile_loop d p (l' @ [pre, ''{{'']) rest"
        by (rule "1.IH"(1)) (use Some a Open4 "1.prems" in auto)
      with Some a Open4
      show ?thesis by (simp add: compile_loop.simps [of d p l] compile_loop.simps [of d p l'])
    next
      case Close4
      have "compile_loop d p (l @ [pre, ''}}'']) rest = compile_loop d p (l' @ [pre, ''}}'']) rest"
        by (rule "1.IH"(2)) (use Some a Close4 "1.prems" in auto)
      with Some a Close4
      show ?thesis by (simp add: compile_loop.simps [of d p l] compile_loop.simps [of d p l'])
    next
      case Open2
      with Some a f show ?thesis
        by (auto simp: compile_loop.simps [of d p l] compile_loop.simps [of d p l']
            split: option.split)
    next
      case Close2
      with Some a show ?thesis
        by (simp add: compile_loop.simps [of d p l] compile_loop.simps [of d p l'])
    qed
  qed
qed

lemma compile_loop_inputs:
  "compile_loop d p l s = Inr t \<Longrightarrow> set (prompt_inputs p) \<subseteq> set d \<Longrightarrow> set (prompt_inputs t) \<subseteq> set d"
proof (induction d p l s arbitrary: t rule: compile_loop.induct)
  case (1 d p l s)
  have fl: "set (prompt_inputs (q @ flush x)) = set (prompt_inputs q)"
    "set (prompt_inputs (q @ flush x @ [Inp n])) = insert n (set (prompt_inputs q))" for q x n
    by (auto simp: prompt_inputs_def flush_def)
  from "1.prems"(1) show ?case
    unfolding compile_loop.simps [of d p l s]
    using "1.IH" "1.prems"(2)
    by (fastforce simp: fl split: option.splits delim.splits if_splits prod.splits)
qed

text \<open>A literal text with doubled delimiters compiles back to exactly that text.\<close>

fun escape_braces :: "string \<Rightarrow> string" where
  "escape_braces [] = []"
| "escape_braces [c] = [c]"
| "escape_braces (c # d # s) =
     (if c = CHR ''{'' \<and> d = CHR ''{'' then ''{{{{'' @ escape_braces s
      else if c = CHR ''}'' \<and> d = CHR ''}'' then ''}}}}'' @ escape_braces s
      else c # escape_braces (d # s))"

lemma escape_braces_hd: "\<exists>t. escape_braces (c # s) = c # t"
  by (cases s) auto

lemma compile_loop_Cons_plain:
  assumes "\<not> (c \<in> {CHR ''{'', CHR ''}''} \<and> (\<exists>u. t = c # u))"
  shows "compile_loop d p l (c # t) = compile_loop d p (l @ [[c]]) t"
proof -
  have "find_delim (c # t) = map_option (\<lambda>(pre, d, rest). (c # pre, d, rest)) (find_delim t)"
    using assms by (cases t) auto
  then show ?thesis
    unfolding compile_loop.simps [of d p l] compile_loop.simps [of d p "l @ [[c]]"]
    by (auto split: option.splits delim.splits prod.splits simp: flush_def
        intro: compile_loop_pieces)
qed

lemma compile_escaped: "compile_loop d p l (escape_braces s) = Inr (p @ [Lit (concat l @ s)])"
proof (induction s arbitrary: l rule: escape_braces.induct)
  case 1
  then show ?case by (simp add: compile_loop.simps flush_def)
next
  case (2 c)
  then show ?case
    by (simp add: compile_loop_Cons_plain compile_loop.simps [of d p "l @ [[c]]"] flush_def)
next
  case (3 c e s)
  show ?case
  proof (cases "c = e \<and> c \<in> {CHR ''{'', CHR ''}''}")
    case True
    then show ?thesis
      using "3.IH"(1) [of "l @ [[], ''{{'']"] "3.IH"(2) [of "l @ [[], ''}}'']"]
      by (auto simp: compile_loop.simps [of d p l])
  next
    case False
    obtain t where t: "escape_braces (e # s) = e # t" using escape_braces_hd by blast
    from False have "compile_loop d p l (c # escape_braces (e # s)) =
        compile_loop d p (l @ [[c]]) (escape_braces (e # s))"
      by (intro compile_loop_Cons_plain) (auto simp: t)
    with False "3.IH"(3) [of "l @ [[c]]"] show ?thesis by auto
  qed
qed

lemma render_parts_append:
  "render_parts ft i (p @ q) = bindE (render_parts ft i p) (\<lambda>a. mapR (\<lambda>b. a @ b) (render_parts ft i q))"
proof (induction p rule: list.induct)
  case Nil
  then show ?case by (cases "render_parts ft i q") simp_all
next
  case (Cons x p)
  then show ?case
    by (cases x) (auto split: option.splits sum.splits simp: bindE_def mapR_def raise_code_def)
qed

section \<open>Properties\<close>



text \<open>
  A compiled prompt reads only declared inputs.
\<close>

theorem prompt_inputs_declared:
  "case compile_prompt template ds of
     Inl e \<Rightarrow> True
   | Inr t \<Rightarrow> set (prompt_inputs t) \<subseteq> set ds"
  using compile_loop_inputs [of ds "[]" "[]" template]
  by (auto simp: compile_prompt_def prompt_inputs_def raise_code_def split: sum.split if_splits)

end
