(* ===== verification/Plan.thy ===== *)
theory Plan imports Prompt begin

text \<open>
  \<^verbatim>\<open>core/plan.py\<close>: the frozen plan the compiler produces and the engine executes.
  One record or datatype per class; the union \<^verbatim>\<open>CompiledStep\<close> is the datatype
  \<^verbatim>\<open>step_body\<close> inside the common step record. The plan records are the interface between
  compiler and runner, so they carry every field of the classes, the ones only
  adapters read included.
\<close>

definition MAX_COLLECTION_DEPTH :: nat where "MAX_COLLECTION_DEPTH = 16"

section \<open>Locations and diagnostics\<close>

record source_location =
  loc_path :: string
  loc_line :: nat
  loc_column :: nat

datatype level = LError | LWarning | LInfo

record diagnostic =
  dg_code :: string
  dg_level :: level
  dg_location :: source_location
  dg_message :: string
  dg_field :: "string option"
  dg_hint :: "string option"

section \<open>Bindings and conditions\<close>

datatype binding_kind = KPointer | KLiteral | KFirstOf | KFields

datatype binding = Binding
  (bk_kind: binding_kind)
  (bk_pointer: "string option")
  (bk_literal: json)
  (bk_has_default: bool)
  (bk_default: json)
  (bk_members: "string list")
  (bk_fields: "(string \<times> binding) list")

type_synonym bindings = "(string \<times> binding) list"

abbreviation pointer_binding :: "string \<Rightarrow> binding" where
  "pointer_binding p \<equiv> Binding KPointer (Some p) JNull False JNull [] []"

abbreviation literal_binding :: "json \<Rightarrow> binding" where
  "literal_binding j \<equiv> Binding KLiteral None j False JNull [] []"

datatype operator =
    OpPresent | OpEmpty | OpEquals | OpNotEquals | OpIn | OpNotIn
  | OpGt | OpGte | OpLt | OpLte | OpMatches | OpLength

datatype comparison = CGt | CGte | CLt | CLte | CEquals

text \<open>A compiled pattern is named by its source text; matching is the \<^verbatim>\<open>re\<close> engine's.\<close>

record leaf =
  lf_source :: binding
  lf_operator :: operator
  lf_operand :: json
  lf_comparison :: "comparison option"
  lf_pattern :: "string option"

datatype condition =
    Leaf leaf
  | All "condition list"
  | Any "condition list"
  | Not condition

section \<open>Decisions, tools and categories\<close>

record decision_option =
  do_id :: string
  do_description :: string

datatype question_type = QChoice | QMultiselect | QPredicate | QOrdinal | QRequestUnits

record decision_question =
  dq_id :: string
  dq_type :: question_type
  dq_prompt :: string
  dq_criteria :: "string list"
  dq_allowed_source_ids :: "string list"
  dq_options :: "decision_option list"
  dq_min_selections :: "nat option"
  dq_max_selections :: "nat option"
  dq_allow_no_match :: "bool option"

datatype choice_mode = ModeAuto | ModeRequired | ModeNamed

record tool_policy =
  tp_server :: string
  tp_allow :: "string list"
  tp_choice_mode :: choice_mode
  tp_choice_name :: "string option"

datatype issue = NoSupportedAnswer | ConflictingInformation | MultipleValidOptions

fun issue_text :: "issue \<Rightarrow> string" where
  "issue_text NoSupportedAnswer = ''no_supported_answer''"
| "issue_text ConflictingInformation = ''conflicting_information''"
| "issue_text MultipleValidOptions = ''multiple_valid_options''"

record category =
  ct_id :: string
  ct_description :: "string option"

record fallback =
  fb_category :: category
  fb_on :: "issue list"

section \<open>Routes\<close>

datatype terminal = OutCompleted | OutNeedsReview

record target =
  tg_flow :: "string option"
  tg_outcome :: "terminal option"

record match_routing =
  mr_binding :: binding
  mr_cases :: "(string \<times> target) list"
  mr_default :: target
  mr_default_covers :: "string list"

record route_entry =
  re_target :: target
  re_when :: "condition option"

type_synonym conditional_routing = "route_entry list"

record unresolved_routing =
  ur_default :: target
  ur_issues :: "(issue \<times> target) list"

datatype transition = TTarget target | TMatch match_routing | TRoute conditional_routing

datatype review_route = RTarget target | RIssues unresolved_routing | RRoute conditional_routing

datatype start_plan = StartFlow string | StartRoute conditional_routing

text \<open>
  \<^verbatim>\<open>UnresolvedRoutingPlan.select\<close>: agreeing issues select their target and the first
  issue that names it, everything else the default.
\<close>

definition select_unresolved :: "unresolved_routing \<Rightarrow> issue list \<Rightarrow> target \<times> issue option" where
  "select_unresolved r issues =
     (let routes = dict_of (ur_issues r) [];
          route_of = (\<lambda>i. case get routes i of Some t \<Rightarrow> t | None \<Rightarrow> ur_default r);
          targets = remdups (map route_of issues)
      in (case targets of
            [t] \<Rightarrow> (t, List.find (\<lambda>i. get routes i = Some t) issues)
          | _ \<Rightarrow> (ur_default r, None)))"

definition unresolved_target :: "unresolved_routing \<Rightarrow> issue list \<Rightarrow> target" where
  "unresolved_target r issues = fst (select_unresolved r issues)"

section \<open>Steps, flows, workflows\<close>

record repeat_plan =
  rp_max_attempts :: nat
  rp_until :: condition
  rp_retry_flow :: "string option"
  rp_retry_flow_input :: bindings
  rp_continue_when :: "condition option"
  rp_retry_input :: bindings

datatype question_mode = ModeSingle | ModeMultiple

datatype source_format = FText | FJson

record decision_step =
  ds_model :: string
  ds_sources :: bindings
  ds_questions :: "decision_question list"
  ds_question_mode :: question_mode
  ds_instructions :: string
  ds_source_formats :: "(string \<times> source_format) list"
  ds_fallback :: "fallback option"

datatype output_kind = OutText | OutSchema

record llm_step =
  ls_model :: string
  ls_input :: bindings
  ls_instructions :: string
  ls_output_kind :: output_kind
  ls_output_schema_path :: "string option"
  ls_output_schema :: "jobj option"
  ls_tools :: "tool_policy option"
  ls_prompt :: "template option"
  ls_max_iterations :: nat

record mcp_step =
  ms_server :: string
  ms_tool :: string
  ms_arguments :: bindings

record handler_step =
  hs_handler :: string
  hs_input :: bindings

record collection_step =
  cs_items :: binding
  cs_flows :: "string list"
  cs_max_items :: nat

datatype step_body =
    DecisionStep decision_step
  | LlmStep llm_step
  | McpStep mcp_step
  | HandlerStep handler_step
  | CollectionStep collection_step

record step =
  st_name :: string
  st_type :: string
  st_location :: source_location
  st_when :: "condition option"
  st_body :: step_body

text \<open>\<^verbatim>\<open>FlowCollectionStepPlan.input\<close>: the one explicit binding.\<close>

definition collection_input :: "collection_step \<Rightarrow> bindings" where
  "collection_input c = [(''items'', cs_items c)]"

fun is_collection :: "step_body \<Rightarrow> bool" where
  "is_collection (CollectionStep _) = True"
| "is_collection _ = False"

record schema_resource =
  sr_path :: string
  sr_schema :: jobj

record flow =
  fl_name :: string
  fl_input :: bindings
  fl_steps :: "step list"
  fl_input_schema_path :: "string option"
  fl_input_schema :: "jobj option"
  fl_output :: "binding option"
  fl_transition :: "transition option"
  fl_on_unresolved :: "review_route option"
  fl_location :: source_location
  fl_callable :: bool
  fl_repeat :: "repeat_plan option"
  fl_on_unresolved_inherited :: bool
  fl_available_flows :: "string list"

record workflow =
  wf_name :: string
  wf_revision :: string
  wf_start :: start_plan
  wf_default_model :: "string option"
  wf_input_schema_path :: "string option"
  wf_input_schema :: "jobj option"
  wf_schema_resources :: "schema_resource list"
  wf_output :: "binding option"
  wf_flows :: "flow list"
  wf_location :: source_location
  wf_diagnostics :: "diagnostic list"

text \<open>\<^verbatim>\<open>FlowPlan.step\<close> and \<^verbatim>\<open>WorkflowPlan.flow\<close>: \<^term>\<open>None\<close> is the \<^verbatim>\<open>KeyError\<close>.\<close>

definition flow_step :: "flow \<Rightarrow> string \<Rightarrow> step option" where
  "flow_step f name = List.find (\<lambda>s. st_name s = name) (fl_steps f)"

definition workflow_flow :: "workflow \<Rightarrow> string \<Rightarrow> flow option" where
  "workflow_flow w name = List.find (\<lambda>f. fl_name f = name) (wf_flows w)"

text \<open>No repeat names its own flow as its retry flow (the compiler refuses those).\<close>

definition repeats_apart :: "flow \<Rightarrow> bool" where
  "repeats_apart f \<longleftrightarrow> (case fl_repeat f of
     Some rp \<Rightarrow> rp_retry_flow rp \<noteq> Some (fl_name f) | None \<Rightarrow> True)"

definition plan_apart :: "workflow \<Rightarrow> bool" where
  "plan_apart w \<longleftrightarrow> list_all repeats_apart (wf_flows w)"

section \<open>Facts\<close>

lemma repeats_apartD: "repeats_apart f \<Longrightarrow> fl_repeat f = Some rp \<Longrightarrow> rp_retry_flow rp \<noteq> Some (fl_name f)"
  by (simp add: repeats_apart_def)

lemma flow_step_Some: "flow_step f n = Some s \<Longrightarrow> s \<in> set (fl_steps f) \<and> st_name s = n"
  by (auto simp: flow_step_def find_Some_iff)

lemma workflow_flow_Some: "workflow_flow w n = Some f \<Longrightarrow> f \<in> set (wf_flows w) \<and> fl_name f = n"
  by (auto simp: workflow_flow_def find_Some_iff)

lemma workflow_flow_None: "workflow_flow w n = None \<longleftrightarrow> n \<notin> fl_name ` set (wf_flows w)"
  by (auto simp: workflow_flow_def find_None_iff)

lemma find_distinct_key:
  "distinct (map f xs) \<Longrightarrow> x \<in> set xs \<Longrightarrow> List.find (\<lambda>y. f y = f x) xs = Some x"
  by (induction xs) (auto dest: image_eqI [where f = f])

lemma workflow_flow_self:
  "distinct (map fl_name (wf_flows w)) \<Longrightarrow> f \<in> set (wf_flows w) \<Longrightarrow> workflow_flow w (fl_name f) = Some f"
  unfolding workflow_flow_def by (rule find_distinct_key)

end
