(* ===== verification/Bindings.thy ===== *)
theory Bindings imports Plan begin

text \<open>
  \<^verbatim>\<open>core/bindings.py\<close>: RFC 6901 pointers over frozen values, and literal, pointer,
  \<^verbatim>\<open>first_of\<close> and object bindings. A pointer that does not resolve is "not found"; a
  malformed pointer or binding is a configuration failure.
\<close>

section \<open>Pointer syntax\<close>

text \<open>\<^verbatim>\<open>_INVALID_ESCAPE\<close>: a tilde not followed by 0 or 1.\<close>

fun invalid_escape :: "string \<Rightarrow> bool" where
  "invalid_escape [] = False"
| "invalid_escape (c # s) =
     ((c = CHR ''~'' \<and> (case s of [] \<Rightarrow> True | d # _ \<Rightarrow> d \<noteq> CHR ''0'' \<and> d \<noteq> CHR ''1'')) \<or> invalid_escape s)"

text \<open>\<^verbatim>\<open>str.split\<close> on one character: always at least one part.\<close>

fun split_on :: "char \<Rightarrow> string \<Rightarrow> string list" where
  "split_on c [] = [[]]"
| "split_on c (x # xs) =
     (if x = c then [] # split_on c xs
      else (case split_on c xs of [] \<Rightarrow> [[x]] | p # ps \<Rightarrow> (x # p) # ps))"

text \<open>\<^verbatim>\<open>str.replace\<close> of a two-character text by one character.\<close>

fun replace2 :: "char \<Rightarrow> char \<Rightarrow> char \<Rightarrow> string \<Rightarrow> string" where
  "replace2 a b r (x # y # s) =
     (if x = a \<and> y = b then r # replace2 a b r s else x # replace2 a b r (y # s))"
| "replace2 a b r s = s"

definition unescape :: "string \<Rightarrow> string" where
  "unescape part = replace2 (CHR ''~'') (CHR ''0'') (CHR ''~'')
                     (replace2 (CHR ''~'') (CHR ''1'') (CHR ''/'') part)"

text \<open>\<^verbatim>\<open>_INDEX\<close>: \<^verbatim>\<open>0\<close> or digits without a leading zero.\<close>

definition index_ok :: "string \<Rightarrow> bool" where
  "index_ok s = (case s of [] \<Rightarrow> False
     | c # cs \<Rightarrow> (c = CHR ''0'' \<and> cs = []) \<or>
                 (c \<noteq> CHR ''0'' \<and> ascii_digit c \<and> list_all ascii_digit cs))"

definition digit_value :: "char \<Rightarrow> nat" where
  "digit_value c = of_char c - 48"

definition parse_nat :: "string \<Rightarrow> nat" where
  "parse_nat s = foldl (\<lambda>n c. 10 * n + digit_value c) 0 s"

section \<open>Lookup\<close>

text \<open>One reference token: a key of an object, or a canonical index of an array.\<close>

definition lookup_token :: "string \<Rightarrow> json \<Rightarrow> json option" where
  "lookup_token key v = (case v of
     JObj ps \<Rightarrow> get ps key
   | JArr xs \<Rightarrow>
       if index_ok key \<and> length key \<le> length (nat_text (length xs)) \<and> parse_nat key < length xs
       then Some (xs ! parse_nat key) else None
   | _ \<Rightarrow> None)"

fun lookup_parts :: "string list \<Rightarrow> json \<Rightarrow> json option" where
  "lookup_parts [] v = Some v"
| "lookup_parts (p # ps) v =
     (case lookup_token (unescape p) v of None \<Rightarrow> None | Some w \<Rightarrow> lookup_parts ps w)"

definition lookup_pointer :: "string \<Rightarrow> json \<Rightarrow> (exn, json option) result" where
  "lookup_pointer pointer context =
     (if (pointer \<noteq> [] \<and> hd pointer \<noteq> CHR ''/'') \<or> invalid_escape pointer
      then raise_code INVALID_CONFIGURATION
      else if pointer = [] then Inr (Some context)
      else let parts = split_on (CHR ''/'') (tl pointer) in
        if length parts > MAX_JSON_DEPTH then raise_code INVALID_CONFIGURATION
        else Inr (lookup_parts parts context))"

text \<open>The first candidate that was found and is not null.\<close>

fun first_present :: "json option list \<Rightarrow> json option" where
  "first_present [] = None"
| "first_present (c # cs) =
     (case c of Some v \<Rightarrow> (if v \<noteq> JNull then Some v else first_present cs)
      | None \<Rightarrow> first_present cs)"

section \<open>Bindings\<close>

text \<open>The default of a binding that selected nothing.\<close>

definition default_or_missing :: "binding \<Rightarrow> (exn, json) result" where
  "default_or_missing b =
     (if bk_has_default b then freeze_json (frozen_obj (bk_default b))
      else raise_code MISSING_BINDING)"

fun resolve_binding :: "binding \<Rightarrow> json \<Rightarrow> (exn, json) result"
  and resolve_bindings_from :: "jobj \<Rightarrow> bindings \<Rightarrow> json \<Rightarrow> (exn, jobj) result"
where
  "resolve_binding (Binding kind pointer literal has_default dflt members flds) context =
     (case kind of
        KLiteral \<Rightarrow> freeze_json (frozen_obj literal)
      | KFields \<Rightarrow>
          if flds = [] \<or> has_default then raise_code INVALID_CONFIGURATION
          else mapR JObj (resolve_bindings_from [] flds context)
      | KPointer \<Rightarrow>
          (case pointer of
             None \<Rightarrow> raise_code INVALID_CONFIGURATION
           | Some p \<Rightarrow>
               if members \<noteq> [] then raise_code INVALID_CONFIGURATION
               else bindE (lookup_pointer p context) (\<lambda>found.
                 (case found of
                    Some v \<Rightarrow> Inr v
                  | None \<Rightarrow> default_or_missing
                      (Binding kind pointer literal has_default dflt members flds))))
      | KFirstOf \<Rightarrow>
          if pointer \<noteq> None \<or> members = [] then raise_code INVALID_CONFIGURATION
          else bindE (mapE (\<lambda>m. lookup_pointer m context) members) (\<lambda>candidates.
            (case first_present candidates of
               Some v \<Rightarrow> Inr v
             | None \<Rightarrow> default_or_missing
                 (Binding kind pointer literal has_default dflt members flds))))"
| "resolve_bindings_from acc [] context = Inr acc"
| "resolve_bindings_from acc ((name, b) # rest) context =
     (if name \<in> set (keys acc) then raise_code INVALID_CONFIGURATION
      else bindE (resolve_binding b context) (\<lambda>v. resolve_bindings_from (put name v acc) rest context))"

definition resolve_bindings :: "bindings \<Rightarrow> json \<Rightarrow> (exn, jobj) result" where
  "resolve_bindings bs context = resolve_bindings_from [] bs context"

text \<open>A condition source: \<^term>\<open>None\<close> is absent, and null counts as absent.\<close>

definition present_value :: "json \<Rightarrow> json option" where
  "present_value v = (if v = JNull then None else Some v)"

definition resolve_source :: "binding \<Rightarrow> json \<Rightarrow> (exn, json option) result" where
  "resolve_source b context =
     (if bk_kind b = KLiteral then mapR present_value (freeze_json (frozen_obj (bk_literal b)))
      else if bk_has_default b \<or> (bk_kind b \<noteq> KPointer \<and> bk_kind b \<noteq> KFirstOf)
      then raise_code INVALID_CONFIGURATION
      else let pointers = (if bk_kind b = KPointer then [bk_pointer b] else map Some (bk_members b)) in
        if None \<in> set pointers \<or> pointers = [] then raise_code INVALID_CONFIGURATION
        else mapR first_present (mapE (\<lambda>p. lookup_pointer p context) (map the pointers)))"

section \<open>Pointer facts\<close>

lemma split_on_nonempty [simp]: "split_on c s \<noteq> []"
  by (induction s) (auto split: list.splits)

text \<open>The escape of one token and the pointer of a path, as RFC 6901 writes them.\<close>

definition escape_token :: "string \<Rightarrow> string" where
  "escape_token t = concat (map (\<lambda>c. if c = CHR ''~'' then ''~0''
                                     else if c = CHR ''/'' then ''~1'' else [c]) t)"

definition pointer_of :: "string list \<Rightarrow> string" where
  "pointer_of ts = concat (map (\<lambda>t. CHR ''/'' # escape_token t) ts)"

fun lookup_path :: "string list \<Rightarrow> json \<Rightarrow> json option" where
  "lookup_path [] v = Some v"
| "lookup_path (t # ts) v = (case lookup_token t v of None \<Rightarrow> None | Some w \<Rightarrow> lookup_path ts w)"

lemma escape_token_simps [simp]:
  "escape_token [] = []"
  "escape_token (c # t) = (if c = CHR ''~'' then ''~0''
     else if c = CHR ''/'' then ''~1'' else [c]) @ escape_token t"
  by (simp_all add: escape_token_def)

lemma escape_token_no_slash: "CHR ''/'' \<notin> set (escape_token t)"
  by (induction t) auto

lemma invalid_escape_append:
  "\<not> invalid_escape (escape_token t) \<and>
   (\<forall>s. (s = [] \<or> hd s = CHR ''/'') \<longrightarrow> invalid_escape (escape_token t @ s) = invalid_escape s)"
  by (induction t) (auto split: list.splits)

lemma replace2_cons_other: "x \<noteq> a \<Longrightarrow> replace2 a b r (x # s) = x # replace2 a b r s"
  by (cases s) auto

lemma replace2_escape1:
  "replace2 (CHR ''~'') (CHR ''1'') (CHR ''/'') (escape_token t) =
   concat (map (\<lambda>c. if c = CHR ''~'' then ''~0'' else [c]) t)"
proof (induction t)
  case Nil
  then show ?case by simp
next
  case (Cons c t)
  then show ?case by (auto simp: replace2_cons_other)
qed

lemma replace2_escape0:
  "replace2 (CHR ''~'') (CHR ''0'') (CHR ''~'')
     (concat (map (\<lambda>c. if c = CHR ''~'' then ''~0'' else [c]) t)) = t"
  by (induction t) (auto simp: replace2_cons_other)

lemma unescape_escape [simp]: "unescape (escape_token t) = t"
  by (simp add: unescape_def replace2_escape1 replace2_escape0)

lemma split_on_prefix: "c \<notin> set p \<Longrightarrow> split_on c (p @ c # s) = p # split_on c s"
  by (induction p) auto

lemma split_on_whole: "c \<notin> set p \<Longrightarrow> split_on c p = [p]"
  by (induction p) auto

lemma split_pointer_of:
  "split_on (CHR ''/'') (tl (pointer_of (t # ts))) = map escape_token (t # ts)"
proof (induction ts arbitrary: t)
  case Nil
  then show ?case by (simp add: pointer_of_def split_on_whole escape_token_no_slash)
next
  case (Cons u us)
  have "tl (pointer_of (t # u # us)) = escape_token t @ CHR ''/'' # tl (pointer_of (u # us))"
    by (simp add: pointer_of_def)
  then show ?case using Cons.IH [of u]
    by (simp add: split_on_prefix escape_token_no_slash)
qed

lemma invalid_escape_pointer_of: "\<not> invalid_escape (pointer_of ts)"
proof (induction ts)
  case Nil
  then show ?case by (simp add: pointer_of_def)
next
  case (Cons t ts)
  have "pointer_of ts = [] \<or> hd (pointer_of ts) = CHR ''/''"
    by (cases ts) (simp_all add: pointer_of_def)
  moreover have "pointer_of (t # ts) = CHR ''/'' # (escape_token t @ pointer_of ts)"
    by (simp add: pointer_of_def)
  ultimately show ?case using invalid_escape_append [of t] Cons by force
qed

lemma lookup_parts_escape: "lookup_parts (map escape_token ts) v = lookup_path ts v"
  by (induction ts arbitrary: v) (auto split: option.splits)

lemma lookup_pointer_of:
  "length ts \<le> MAX_JSON_DEPTH \<Longrightarrow> lookup_pointer (pointer_of ts) v = Inr (lookup_path ts v)"
proof (cases ts)
  case Nil
  then show ?thesis by (simp add: lookup_pointer_def pointer_of_def)
next
  case (Cons t us)
  moreover assume "length ts \<le> MAX_JSON_DEPTH"
  moreover have "pointer_of ts \<noteq> []" "hd (pointer_of ts) = CHR ''/''"
    by (simp_all add: Cons pointer_of_def)
  ultimately show ?thesis
    using invalid_escape_pointer_of [of ts]
    by (simp add: lookup_pointer_def split_pointer_of Let_def lookup_parts_escape
        del: list.map)
qed

lemma lookup_path_append:
  "lookup_path (xs @ ys) v = (case lookup_path xs v of None \<Rightarrow> None | Some w \<Rightarrow> lookup_path ys w)"
  by (induction xs arbitrary: v) (auto split: option.splits)

section \<open>Array indices\<close>

lemma digits_rev_length_mono: "m \<le> n \<Longrightarrow> length (digits_rev m) \<le> length (digits_rev n)"
proof (induction n arbitrary: m rule: less_induct)
  case (less n)
  show ?case
  proof (cases "n < 10")
    case True
    with less.prems show ?thesis by (simp add: digits_rev.simps)
  next
    case False
    then have "length (digits_rev (m div 10)) \<le> length (digits_rev (n div 10))"
      using less.prems by (intro less.IH) (simp_all add: div_le_mono)
    with False show ?thesis by (simp add: digits_rev.simps [of m] digits_rev.simps [of n])
  qed
qed

lemma parse_nat_snoc: "parse_nat (s @ [c]) = 10 * parse_nat s + digit_value c"
  by (simp add: parse_nat_def)

lemma digit_char_value: "n < 10 \<Longrightarrow> digit_value (char_of (48 + n)) = n"
  by (simp add: digit_value_def)

lemma parse_nat_text [simp]: "parse_nat (nat_text n) = n"
  unfolding nat_text_def
proof (induction n rule: digits_rev.induct)
  case (1 n)
  show ?case
  proof (cases "n < 10")
    case True
    then show ?thesis by (simp add: digits_rev.simps parse_nat_def digit_char_value)
  next
    case False
    with 1 show ?thesis
      by (simp add: digits_rev.simps [of n] parse_nat_snoc digit_char_value)
  qed
qed

lemma char_of_48: "char_of (48::nat) = CHR ''0''"
  using char_of_char [of "CHR ''0''"] by simp

lemma digit_char: "ascii_digit c \<Longrightarrow> char_of (48 + digit_value c) = c \<and> digit_value c < 10"
  by (auto simp: ascii_digit_def digit_value_def)

lemma digits_rev_step:
  "0 < m \<Longrightarrow> d < 10 \<Longrightarrow> digits_rev (10 * m + d) = char_of (48 + d) # digits_rev m"
  by (simp add: digits_rev.simps [of "10 * m + d"])

lemma index_digits:
  "list_all ascii_digit cs \<Longrightarrow> ascii_digit c \<Longrightarrow> c \<noteq> CHR ''0'' \<Longrightarrow>
     nat_text (parse_nat (c # cs)) = c # cs \<and> 0 < parse_nat (c # cs)"
proof (induction cs rule: rev_induct)
  case Nil
  have "digit_value c \<noteq> 0"
  proof
    assume "digit_value c = 0"
    with digit_char [OF Nil.prems(2)] have "c = char_of (48::nat)" by simp
    with Nil.prems(3) show False by (simp add: char_of_48)
  qed
  with digit_char [OF Nil.prems(2)] show ?case
    by (simp add: parse_nat_def nat_text_def digits_rev.simps)
next
  case (snoc d cs)
  have IH: "nat_text (parse_nat (c # cs)) = c # cs" "0 < parse_nat (c # cs)"
    using snoc by auto
  from snoc.prems(1) have d: "char_of (48 + digit_value d) = d" "digit_value d < 10"
    using digit_char by auto
  have "parse_nat (c # cs @ [d]) = 10 * parse_nat (c # cs) + digit_value d"
    using parse_nat_snoc [of "c # cs" d] by simp
  with IH d digits_rev_step [OF IH(2) d(2)] show ?case by (simp add: nat_text_def)
qed

lemma index_text: "index_ok key \<Longrightarrow> nat_text (parse_nat key) = key"
proof (cases key)
  case (Cons c cs)
  assume k: "index_ok key"
  show ?thesis
  proof (cases "c = CHR ''0''")
    case True
    with k Cons show ?thesis
      by (simp add: index_ok_def parse_nat_def nat_text_def digits_rev.simps digit_value_def char_of_48)
  next
    case False
    with k Cons index_digits [of cs c] show ?thesis by (simp add: index_ok_def)
  qed
qed (simp add: index_ok_def)

text \<open>The length guard only bounds the work of parsing: it never rejects an index in range.\<close>

lemma index_length_guard:
  "index_ok key \<Longrightarrow> parse_nat key < n \<Longrightarrow> length key \<le> length (nat_text n)"
proof -
  assume "index_ok key" "parse_nat key < n"
  then have "length (nat_text (parse_nat key)) \<le> length (nat_text n)"
    unfolding nat_text_def using digits_rev_length_mono [of "parse_nat key" n] by simp
  with \<open>index_ok key\<close> show ?thesis by (simp add: index_text)
qed

section \<open>Resolved values\<close>

lemma lookup_token_wf: "lookup_token k v = Some w \<Longrightarrow> json_wf v \<Longrightarrow> json_wf w"
  by (auto simp: lookup_token_def list_all_iff split: json.splits if_splits dest: map_of_SomeD)

lemma lookup_parts_wf: "lookup_parts ps v = Some w \<Longrightarrow> json_wf v \<Longrightarrow> json_wf w"
  by (induction ps arbitrary: v) (auto split: option.splits dest: lookup_token_wf)

lemma lookup_pointer_wf: "lookup_pointer p v = Inr (Some w) \<Longrightarrow> json_wf v \<Longrightarrow> json_wf w"
  by (auto simp: lookup_pointer_def Let_def split: if_splits dest: lookup_parts_wf)

lemma first_present_Some: "first_present cs = Some v \<Longrightarrow> Some v \<in> set cs \<and> v \<noteq> JNull"
  by (induction cs) (auto split: option.splits if_splits)

lemma first_present_None: "first_present cs = None \<longleftrightarrow> (\<forall>v. Some v \<in> set cs \<longrightarrow> v = JNull)"
  by (induction cs) (auto split: option.splits if_splits)

lemma mapE_lookup_wf:
  "mapE (\<lambda>m. lookup_pointer m c) ms = Inr cs \<Longrightarrow> json_wf c \<Longrightarrow> Some v \<in> set cs \<Longrightarrow> json_wf v"
proof (induction ms arbitrary: cs)
  case (Cons m ms)
  then show ?case
    by (auto simp: bindE_Inr_iff mapR_Inr_iff dest: lookup_pointer_wf)
qed simp

lemma default_or_missing_wf: "default_or_missing b = Inr v \<Longrightarrow> json_wf v"
  by (auto simp: default_or_missing_def split: if_splits dest: freeze_json_sound)

lemma resolve_binding_wf:
  "resolve_binding b c = Inr v \<Longrightarrow> json_wf c \<Longrightarrow> json_wf v"
  "resolve_bindings_from acc bs c = Inr o' \<Longrightarrow> json_wf c \<Longrightarrow> json_wf (JObj acc) \<Longrightarrow> json_wf (JObj o')"
proof (induction b c and acc bs c arbitrary: v and o' rule: resolve_binding_resolve_bindings_from.induct)
  case (1 kind pointer literal has_default dflt members flds c)
  then show ?case
    by (auto split: binding_kind.splits if_splits option.splits
        simp: bindE_Inr_iff mapR_Inr_iff
        dest: freeze_json_sound lookup_pointer_wf default_or_missing_wf first_present_Some
          mapE_lookup_wf)
next
  case (3 acc name b rest c)
  then show ?case
    by (auto split: if_splits simp: bindE_Inr_iff intro!: put_list_all)
qed auto

text \<open>Argument sets keep every authored name, in order, exactly once.\<close>

lemma resolve_bindings_from_keys:
  "resolve_bindings_from acc bs c = Inr o' \<Longrightarrow> dict_wf acc \<Longrightarrow>
     keys o' = keys acc @ map fst bs \<and> dict_wf o'"
proof (induction bs arbitrary: acc)
  case (Cons p bs)
  obtain n b where p: "p = (n, b)" by fastforce
  from Cons.prems obtain v where n: "n \<notin> set (keys acc)"
    and r: "resolve_bindings_from (put n v acc) bs c = Inr o'"
    by (auto simp: p bindE_Inr_iff split: if_splits)
  from Cons.IH [OF r] Cons.prems(2) have w: "dict_wf o'"
    and k: "keys o' = keys (put n v acc) @ map fst bs" by blast+
  from k n have "keys o' = keys acc @ map fst (p # bs)" by (simp add: p put_new)
  with w show ?case by blast
qed simp

section \<open>Properties\<close>

text \<open>
  C38: A pointer built from any reference tokens (with slashes and tildes escaped) selects
  exactly what following the tokens selects: RFC 6901 escaping and lookup are inverse.
\<close>

theorem pointer_roundtrip:
  assumes "length ts \<le> MAX_JSON_DEPTH"
  shows "lookup_pointer (pointer_of ts) v = Inr (lookup_path ts v)"
  using assms by (rule lookup_pointer_of)

theorem pointer_roundtrip_witness:
  "lookup_pointer (pointer_of [''a/b'', ''~1'', ''1'']) (JObj [(''a/b'', JObj [(''~1'', JArr [JNull, JInt 7])])])
     = Inr (Some (JInt 7))"
proof -
  have i: "index_ok ''1''" "parse_nat ''1'' = 1" "Suc 0 \<le> length (nat_text (Suc (Suc 0)))" by code_simp+
  show ?thesis
    by (subst pointer_roundtrip) (simp_all add: MAX_JSON_DEPTH_def i lookup_token_def)
qed

text \<open>
  Resolving a list of bindings gives one entry per distinct name, in the order the
  bindings are declared, and every value is a well-formed frozen value.
\<close>

theorem resolve_bindings_keys:
  "case resolve_bindings bs c of
     Inl e \<Rightarrow> True
   | Inr o' \<Rightarrow> keys o' = map fst bs \<and> json_wf (if json_wf c then JObj o' else JNull)"
  by (auto simp: resolve_bindings_def split: sum.split dest: resolve_bindings_from_keys resolve_binding_wf(2))

end
