(* ===== verification/Conditions.thy ===== *)
theory Conditions imports Bindings begin

text \<open>
  \<^verbatim>\<open>core/conditions.py\<close>: evaluation of compiled conditions over a binding context, with the
  record of leaves whose runtime value could not be compared, and the value-free
  description. The regular-expression engine is the parameter \<^verbatim>\<open>fullmatch\<close>.
\<close>

definition MAX_DESCRIPTION_LENGTH :: nat where "MAX_DESCRIPTION_LENGTH = 512"
definition MAX_MATCH_LENGTH :: nat where "MAX_MATCH_LENGTH = 1024"

datatype mismatch_reason = IncompatibleType | ValueTooLong

record mismatch =
  mm_leaf :: leaf
  mm_reason :: mismatch_reason

section \<open>Leaves\<close>

definition compare :: "comparison \<Rightarrow> pfloat \<Rightarrow> pfloat \<Rightarrow> bool" where
  "compare op value operand = (case op of
     CGt \<Rightarrow> pf_less operand value
   | CGte \<Rightarrow> pf_le operand value
   | CLt \<Rightarrow> pf_less value operand
   | CLte \<Rightarrow> pf_le value operand
   | CEquals \<Rightarrow> pf_eq value operand)"

fun order_comparison :: "operator \<Rightarrow> comparison option" where
  "order_comparison OpGt = Some CGt"
| "order_comparison OpGte = Some CGte"
| "order_comparison OpLt = Some CLt"
| "order_comparison OpLte = Some CLte"
| "order_comparison _ = None"

fun empty_value :: "json \<Rightarrow> bool" where
  "empty_value (JStr s) = (s = [])"
| "empty_value (JArr xs) = (xs = [])"
| "empty_value (JObj ps) = (ps = [])"
| "empty_value _ = False"

fun json_length :: "json \<Rightarrow> nat option" where
  "json_length (JStr s) = Some (length s)"
| "json_length (JArr xs) = Some (length xs)"
| "json_length (JObj ps) = Some (length ps)"
| "json_length _ = None"

type_synonym verdict = "(exn, bool \<times> mismatch list) result"

definition mismatched :: "leaf \<Rightarrow> mismatch_reason \<Rightarrow> verdict" where
  "mismatched lf reason = Inr (False, [\<lparr>mm_leaf = lf, mm_reason = reason\<rparr>])"

definition leaf_verdict ::
  "(string \<Rightarrow> string \<Rightarrow> bool) \<Rightarrow> leaf \<Rightarrow> json option \<Rightarrow> verdict" where
  "leaf_verdict fullmatch lf source =
     (let operand = lf_operand lf; value = (case source of Some v \<Rightarrow> v | None \<Rightarrow> JNull) in
      case lf_operator lf of
        OpPresent \<Rightarrow>
          (case operand of JBool b \<Rightarrow> Inr ((source \<noteq> None) = b, [])
           | _ \<Rightarrow> raise_code INVALID_CONFIGURATION)
      | OpEmpty \<Rightarrow>
          (case operand of JBool b \<Rightarrow> Inr ((source = None \<or> empty_value value) = b, [])
           | _ \<Rightarrow> raise_code INVALID_CONFIGURATION)
      | OpEquals \<Rightarrow> Inr (json_equal value operand, [])
      | OpNotEquals \<Rightarrow> Inr (\<not> json_equal value operand, [])
      | OpIn \<Rightarrow>
          (case operand of
             JArr (x # xs) \<Rightarrow> Inr (list_ex (json_equal value) (x # xs), [])
           | _ \<Rightarrow> raise_code INVALID_CONFIGURATION)
      | OpNotIn \<Rightarrow>
          (case operand of
             JArr (x # xs) \<Rightarrow> Inr (\<not> list_ex (json_equal value) (x # xs), [])
           | _ \<Rightarrow> raise_code INVALID_CONFIGURATION)
      | OpMatches \<Rightarrow>
          (case (lf_pattern lf, operand) of
             (Some pattern, JStr _) \<Rightarrow>
               (case source of
                  None \<Rightarrow> Inr (False, [])
                | Some (JStr s) \<Rightarrow>
                    if length s > MAX_MATCH_LENGTH then mismatched lf ValueTooLong
                    else Inr (fullmatch pattern s, [])
                | Some _ \<Rightarrow> mismatched lf IncompatibleType)
           | _ \<Rightarrow> raise_code INVALID_CONFIGURATION)
      | OpLength \<Rightarrow>
          (case (lf_comparison lf, operand) of
             (Some c, JInt i) \<Rightarrow>
               (case source of
                  None \<Rightarrow> Inr (False, [])
                | Some v \<Rightarrow>
                    (case json_length v of
                       None \<Rightarrow> mismatched lf IncompatibleType
                     | Some n \<Rightarrow> Inr (compare c (Fin (of_nat n)) (Fin (of_int i)), [])))
           | _ \<Rightarrow> raise_code INVALID_CONFIGURATION)
      | op \<Rightarrow>
          (case (order_comparison op, number_of operand) of
             (Some c, Some y) \<Rightarrow>
               (case source of
                  None \<Rightarrow> Inr (False, [])
                | Some v \<Rightarrow>
                    (case number_of v of
                       None \<Rightarrow> mismatched lf IncompatibleType
                     | Some x \<Rightarrow> Inr (compare c x y, [])))
           | _ \<Rightarrow> raise_code INVALID_CONFIGURATION))"

definition eval_leaf :: "(string \<Rightarrow> string \<Rightarrow> bool) \<Rightarrow> leaf \<Rightarrow> json \<Rightarrow> verdict" where
  "eval_leaf fullmatch lf context =
     bindE (resolve_source (lf_source lf) context) (leaf_verdict fullmatch lf)"

section \<open>Conditions\<close>

text \<open>
  \<^verbatim>\<open>all\<close> and \<^verbatim>\<open>any\<close> stop at the first deciding operand, so later operands neither raise nor
  report mismatches.
\<close>

fun evaluate_condition :: "(string \<Rightarrow> string \<Rightarrow> bool) \<Rightarrow> condition \<Rightarrow> json \<Rightarrow> verdict"
  and evaluate_all :: "(string \<Rightarrow> string \<Rightarrow> bool) \<Rightarrow> condition list \<Rightarrow> json \<Rightarrow> verdict"
  and evaluate_any :: "(string \<Rightarrow> string \<Rightarrow> bool) \<Rightarrow> condition list \<Rightarrow> json \<Rightarrow> verdict"
where
  "evaluate_condition fm (Leaf lf) c = eval_leaf fm lf c"
| "evaluate_condition fm (All cs) c =
     (if cs = [] then raise_code INVALID_CONFIGURATION else evaluate_all fm cs c)"
| "evaluate_condition fm (Any cs) c =
     (if cs = [] then raise_code INVALID_CONFIGURATION else evaluate_any fm cs c)"
| "evaluate_condition fm (Not x) c = mapR (\<lambda>(b, t). (\<not> b, t)) (evaluate_condition fm x c)"
| "evaluate_all fm [] c = Inr (True, [])"
| "evaluate_all fm (x # xs) c =
     bindE (evaluate_condition fm x c) (\<lambda>(b, t).
       if b then mapR (\<lambda>(r, u). (r, t @ u)) (evaluate_all fm xs c) else Inr (False, t))"
| "evaluate_any fm [] c = Inr (False, [])"
| "evaluate_any fm (x # xs) c =
     bindE (evaluate_condition fm x c) (\<lambda>(b, t).
       if b then Inr (True, t) else mapR (\<lambda>(r, u). (r, t @ u)) (evaluate_any fm xs c))"

fun condition_leaves :: "condition \<Rightarrow> leaf list" where
  "condition_leaves (Leaf lf) = [lf]"
| "condition_leaves (Not x) = condition_leaves x"
| "condition_leaves (All cs) = concat (map condition_leaves cs)"
| "condition_leaves (Any cs) = concat (map condition_leaves cs)"

section \<open>Descriptions\<close>

definition source_text :: "binding \<Rightarrow> string" where
  "source_text b =
     (if bk_kind b = KLiteral then ''literal''
      else if bk_kind b = KFirstOf then ''first_of('' @ join '', '' (bk_members b) @ '')''
      else (case bk_pointer b of Some (c # cs) \<Rightarrow> c # cs | _ \<Rightarrow> [CHR 0x22, CHR 0x22]))"

fun operator_name :: "operator \<Rightarrow> string" where
  "operator_name OpPresent = ''present''"
| "operator_name OpEmpty = ''empty''"
| "operator_name OpEquals = ''equals''"
| "operator_name OpNotEquals = ''not_equals''"
| "operator_name OpIn = ''in''"
| "operator_name OpNotIn = ''not_in''"
| "operator_name OpGt = ''gt''"
| "operator_name OpGte = ''gte''"
| "operator_name OpLt = ''lt''"
| "operator_name OpLte = ''lte''"
| "operator_name OpMatches = ''matches''"
| "operator_name OpLength = ''length''"

fun comparison_name :: "comparison option \<Rightarrow> string" where
  "comparison_name (Some CGt) = ''gt''"
| "comparison_name (Some CGte) = ''gte''"
| "comparison_name (Some CLt) = ''lt''"
| "comparison_name (Some CLte) = ''lte''"
| "comparison_name (Some CEquals) = ''equals''"
| "comparison_name None = ''None''"

definition leaf_operator_text :: "leaf \<Rightarrow> string" where
  "leaf_operator_text lf =
     (if lf_operator lf = OpLength then ''length '' @ comparison_name (lf_comparison lf)
      else if lf_operator lf = OpPresent \<or> lf_operator lf = OpEmpty then
        operator_name (lf_operator lf) @ ''='' @
        (if lf_operand lf = JBool True then ''true'' else ''false'')
      else operator_name (lf_operator lf))"

fun condition_text :: "condition \<Rightarrow> string" where
  "condition_text (Leaf lf) = source_text (lf_source lf) @ '' '' @ leaf_operator_text lf"
| "condition_text (All cs) = ''all('' @ join ''; '' (map condition_text cs) @ '')''"
| "condition_text (Any cs) = ''any('' @ join ''; '' (map condition_text cs) @ '')''"
| "condition_text (Not x) = ''not('' @ condition_text x @ '')''"

definition describe_condition :: "condition \<Rightarrow> string" where
  "describe_condition c =
     (let text = condition_text c in
      if length text > MAX_DESCRIPTION_LENGTH
      then take (MAX_DESCRIPTION_LENGTH - 3) text @ ''...'' else text)"

section \<open>Well-formed conditions\<close>

text \<open>What compilation guarantees of a condition plan (compiler/conditions.py).\<close>

definition source_ok :: "binding \<Rightarrow> bool" where
  "source_ok b \<longleftrightarrow>
     (if bk_kind b = KLiteral
      then json_wf (bk_literal b) \<and> json_depth (bk_literal b) \<le> MAX_JSON_DEPTH
      else \<not> bk_has_default b \<and>
        (if bk_kind b = KPointer then (case bk_pointer b of Some p \<Rightarrow> True | None \<Rightarrow> False)
         else bk_kind b = KFirstOf \<and> bk_members b \<noteq> []))"

definition pointer_ok :: "string \<Rightarrow> bool" where
  "pointer_ok p \<longleftrightarrow> (p = [] \<or> hd p = CHR ''/'') \<and> \<not> invalid_escape p \<and>
     (p = [] \<or> length (split_on (CHR ''/'') (tl p)) \<le> MAX_JSON_DEPTH)"

definition source_pointers :: "binding \<Rightarrow> string list" where
  "source_pointers b =
     (if bk_kind b = KLiteral then []
      else if bk_kind b = KPointer then (case bk_pointer b of Some p \<Rightarrow> [p] | None \<Rightarrow> [])
      else bk_members b)"

definition operand_ok :: "leaf \<Rightarrow> bool" where
  "operand_ok lf = (case lf_operator lf of
     OpPresent \<Rightarrow> (case lf_operand lf of JBool _ \<Rightarrow> True | _ \<Rightarrow> False)
   | OpEmpty \<Rightarrow> (case lf_operand lf of JBool _ \<Rightarrow> True | _ \<Rightarrow> False)
   | OpEquals \<Rightarrow> True
   | OpNotEquals \<Rightarrow> True
   | OpIn \<Rightarrow> (case lf_operand lf of JArr (_ # _) \<Rightarrow> True | _ \<Rightarrow> False)
   | OpNotIn \<Rightarrow> (case lf_operand lf of JArr (_ # _) \<Rightarrow> True | _ \<Rightarrow> False)
   | OpMatches \<Rightarrow> lf_pattern lf \<noteq> None \<and> (case lf_operand lf of JStr _ \<Rightarrow> True | _ \<Rightarrow> False)
   | OpLength \<Rightarrow> lf_comparison lf \<noteq> None \<and> (case lf_operand lf of JInt _ \<Rightarrow> True | _ \<Rightarrow> False)
   | _ \<Rightarrow> number_of (lf_operand lf) \<noteq> None)"

fun condition_ok :: "condition \<Rightarrow> bool" where
  "condition_ok (Leaf lf) = (source_ok (lf_source lf) \<and>
     list_all pointer_ok (source_pointers (lf_source lf)) \<and> operand_ok lf)"
| "condition_ok (Not x) = condition_ok x"
| "condition_ok (All cs) = (cs \<noteq> [] \<and> list_all condition_ok cs)"
| "condition_ok (Any cs) = (cs \<noteq> [] \<and> list_all condition_ok cs)"

lemma lookup_pointer_ok: "pointer_ok p \<Longrightarrow> \<exists>r. lookup_pointer p c = Inr r"
  by (auto simp: pointer_ok_def lookup_pointer_def Let_def)

lemma mapE_lookup_ok: "list_all pointer_ok ps \<Longrightarrow> \<exists>rs. mapE (\<lambda>p. lookup_pointer p c) ps = Inr rs"
proof (induction ps)
  case (Cons p ps)
  then obtain r rs where "lookup_pointer p c = Inr r" "mapE (\<lambda>p. lookup_pointer p c) ps = Inr rs"
    using lookup_pointer_ok by fastforce
  then show ?case by simp
qed simp

lemma resolve_source_ok:
  assumes "source_ok b" "list_all pointer_ok (source_pointers b)"
  shows "\<exists>v. resolve_source b c = Inr v"
proof (cases "bk_kind b = KLiteral")
  case True
  with assms(1) have "freeze_json (frozen_obj (bk_literal b)) = Inr (bk_literal b)"
    unfolding freeze_json_def by (simp add: source_ok_def freeze_frozen)
  with True show ?thesis by (simp add: resolve_source_def)
next
  case False
  have m: "map (the \<circ> Some) xs = xs" for xs :: "string list" by (simp add: comp_def)
  from False assms show ?thesis
    using mapE_lookup_ok [of "source_pointers b" c]
    by (auto simp: resolve_source_def source_ok_def source_pointers_def Let_def m
        split: option.splits if_splits)
qed

lemma leaf_verdict_ok: "operand_ok lf \<Longrightarrow> \<exists>r. leaf_verdict fm lf v = Inr r"
  unfolding leaf_verdict_def operand_ok_def Let_def mismatched_def
  by (cases "lf_operator lf") (auto split: json.splits list.splits option.splits)

lemma evaluate_ok:
  "condition_ok x \<Longrightarrow> \<exists>r. evaluate_condition fm x c = Inr r"
  "list_all condition_ok xs \<Longrightarrow> \<exists>r. evaluate_all fm xs c = Inr r"
  "list_all condition_ok xs \<Longrightarrow> \<exists>r. evaluate_any fm xs c = Inr r"
proof (induction fm x c and fm xs c and fm xs c
    rule: evaluate_condition_evaluate_all_evaluate_any.induct)
  case (1 fm lf c)
  then obtain v where "resolve_source (lf_source lf) c = Inr v" using resolve_source_ok by auto
  with 1 leaf_verdict_ok [of lf fm v] show ?case by (auto simp: eval_leaf_def)
next
  case (4 fm x c)
  then obtain b t where "evaluate_condition fm x c = Inr (b, t)" by fastforce
  then show ?case by simp
next
  case (6 fm x xs c)
  then obtain b t where x: "evaluate_condition fm x c = Inr (b, t)" by fastforce
  show ?case
  proof (cases b)
    case True
    with 6 x obtain r where "evaluate_all fm xs c = Inr r" by fastforce
    with x True show ?thesis by simp
  next
    case False
    with x have "evaluate_all fm (x # xs) c = Inr (False, t)" by simp
    then show ?thesis by blast
  qed
next
  case (8 fm x xs c)
  then obtain b t where x: "evaluate_condition fm x c = Inr (b, t)" by fastforce
  show ?case
  proof (cases b)
    case False
    with 8 x obtain r where "evaluate_any fm xs c = Inr r" by fastforce
    with x False show ?thesis by simp
  next
    case True
    with x have "evaluate_any fm (x # xs) c = Inr (True, t)" by simp
    then show ?thesis by blast
  qed
qed (simp_all add: ex_bool_eq)

text \<open>The truth value alone, as a function of the leaves' verdicts.\<close>

fun holds :: "(leaf \<Rightarrow> bool) \<Rightarrow> condition \<Rightarrow> bool" where
  "holds v (Leaf lf) = v lf"
| "holds v (Not x) = (\<not> holds v x)"
| "holds v (All cs) = list_all (holds v) cs"
| "holds v (Any cs) = list_ex (holds v) cs"

definition leaf_truth :: "(string \<Rightarrow> string \<Rightarrow> bool) \<Rightarrow> json \<Rightarrow> leaf \<Rightarrow> bool" where
  "leaf_truth fm c lf = (case eval_leaf fm lf c of Inr (b, _) \<Rightarrow> b | Inl _ \<Rightarrow> False)"

lemma evaluate_holds:
  "evaluate_condition fm x c = Inr (b, t) \<Longrightarrow> b = holds (leaf_truth fm c) x"
  "evaluate_all fm xs c = Inr (b, t) \<Longrightarrow> b = list_all (holds (leaf_truth fm c)) xs"
  "evaluate_any fm xs c = Inr (b, t) \<Longrightarrow> b = list_ex (holds (leaf_truth fm c)) xs"
  by (induction fm x c and fm xs c and fm xs c arbitrary: b t and b t and b t
      rule: evaluate_condition_evaluate_all_evaluate_any.induct)
    (fastforce simp: leaf_truth_def bindE_Inr_iff mapR_Inr_iff split: if_splits prod.splits)+

lemma leaf_mismatch:
  "leaf_verdict fm lf v = Inr (b, t) \<Longrightarrow> m \<in> set t \<Longrightarrow> b = False \<and> mm_leaf m = lf"
  unfolding leaf_verdict_def Let_def mismatched_def
  by (cases "lf_operator lf") (auto split: json.splits list.splits option.splits if_splits)

lemma evaluate_mismatches:
  "evaluate_condition fm x c = Inr (b, t) \<Longrightarrow> mm_leaf ` set t \<subseteq> set (condition_leaves x)"
  "evaluate_all fm xs c = Inr (b, t) \<Longrightarrow> mm_leaf ` set t \<subseteq> set (concat (map condition_leaves xs))"
  "evaluate_any fm xs c = Inr (b, t) \<Longrightarrow> mm_leaf ` set t \<subseteq> set (concat (map condition_leaves xs))"
proof (induction fm x c and fm xs c and fm xs c arbitrary: b t and b t and b t
    rule: evaluate_condition_evaluate_all_evaluate_any.induct)
  case (1 fm lf c)
  then show ?case by (auto simp: eval_leaf_def bindE_Inr_iff dest: leaf_mismatch)
next
  case (6 fm x xs c)
  then obtain b' t' where x: "evaluate_condition fm x c = Inr (b', t')"
    by (auto simp: bindE_Inr_iff)
  show ?case
  proof (cases b')
    case True
    with "6.prems" x obtain u where u: "evaluate_all fm xs c = Inr (b, u)" "t = t' @ u"
      by (auto simp: mapR_Inr_iff)
    have "mm_leaf ` set t' \<subseteq> set (condition_leaves x)" by (rule "6.IH"(1) [OF x])
    moreover have "mm_leaf ` set u \<subseteq> set (concat (map condition_leaves xs))"
      by (rule "6.IH"(2) [OF x refl _ u(1)]) (simp add: True)
    ultimately show ?thesis by (auto simp: u(2))
  qed (use "6.prems" "6.IH"(1) [OF x] x in auto)
next
  case (8 fm x xs c)
  then obtain b' t' where x: "evaluate_condition fm x c = Inr (b', t')"
    by (auto simp: bindE_Inr_iff)
  show ?case
  proof (cases b')
    case False
    with "8.prems" x obtain u where u: "evaluate_any fm xs c = Inr (b, u)" "t = t' @ u"
      by (auto simp: mapR_Inr_iff)
    have "mm_leaf ` set t' \<subseteq> set (condition_leaves x)" by (rule "8.IH"(1) [OF x])
    moreover have "mm_leaf ` set u \<subseteq> set (concat (map condition_leaves xs))"
      by (rule "8.IH"(2) [OF x refl _ u(1)]) (simp add: False)
    ultimately show ?thesis by (auto simp: u(2))
  qed (use "8.prems" "8.IH"(1) [OF x] x in auto)
qed (auto simp: mapR_Inr_iff split: if_splits)

lemma describe_bound: "length (describe_condition c) \<le> MAX_DESCRIPTION_LENGTH"
  by (simp add: describe_condition_def Let_def MAX_DESCRIPTION_LENGTH_def)

section \<open>Properties\<close>



text \<open>
  The description of a condition that events and messages carry is bounded.
\<close>

theorem description_bounded: "length (describe_condition c) \<le> MAX_DESCRIPTION_LENGTH"
  by (rule describe_bound)

end
