(* ===== verification/Usage.thy ===== *)
theory Usage imports Plan "HOL-Library.Multiset" begin

text \<open>
  The measured totals of \<^verbatim>\<open>core/execution.py\<close> (token usage, cost, model usage, usage) and
  the price estimate of \<^verbatim>\<open>core/pricing.py\<close>. Python integers are \<^typ>\<open>int\<close> or, for counters
  that only grow, \<^typ>\<open>nat\<close>; a finite \<^verbatim>\<open>Decimal\<close> is an exact rational (the context's 28
  digits are not exceeded by configured prices and request-sized counts).
\<close>

section \<open>An interface for totals\<close>

text \<open>
  Totals are accumulated in several groupings (per step, flow, attempt, item, run). What the
  groupings rely on is this contract: on acceptable values the sum is acceptable, associative
  and has the empty total as neutral element.
\<close>

locale totals =
  fixes zero :: "'u" and plus :: "'u \<Rightarrow> 'u \<Rightarrow> 'u" and ok :: "'u \<Rightarrow> bool"
  assumes ok_zero: "ok zero"
    and ok_plus: "ok a \<Longrightarrow> ok b \<Longrightarrow> ok (plus a b)"
    and assoc: "ok a \<Longrightarrow> ok b \<Longrightarrow> ok c \<Longrightarrow> plus (plus a b) c = plus a (plus b c)"
    and zero_left: "ok a \<Longrightarrow> plus zero a = a"
    and zero_right: "ok a \<Longrightarrow> plus a zero = a"
begin

definition grand :: "'u list \<Rightarrow> 'u" where
  "grand us = foldl plus zero us"

lemma ok_foldl: "ok a \<Longrightarrow> list_all ok us \<Longrightarrow> ok (foldl plus a us)"
  by (induction us arbitrary: a) (auto intro: ok_plus)

lemma ok_grand: "list_all ok us \<Longrightarrow> ok (grand us)"
  unfolding grand_def by (rule ok_foldl [OF ok_zero])

lemma foldl_grand: "ok a \<Longrightarrow> list_all ok us \<Longrightarrow> foldl plus a us = plus a (grand us)"
proof (induction us arbitrary: a)
  case Nil
  then show ?case by (simp add: grand_def zero_right)
next
  case (Cons u us)
  then have u: "ok u" "list_all ok us" by auto
  have "foldl plus a (u # us) = plus (plus a u) (grand us)"
    using Cons by (simp add: ok_plus)
  also have "\<dots> = plus a (plus u (grand us))"
    using Cons.prems(1) u by (simp add: assoc ok_grand)
  also have "plus u (grand us) = grand (u # us)"
    using Cons.IH [OF u(1) u(2)] u by (simp add: grand_def zero_left)
  finally show ?case .
qed

lemma grand_Nil: "grand [] = zero"
  by (simp add: grand_def)

lemma grand_Cons: "ok u \<Longrightarrow> list_all ok us \<Longrightarrow> grand (u # us) = plus u (grand us)"
  using foldl_grand [of u us] by (simp add: grand_def zero_left)

lemma grand_append:
  "list_all ok us \<Longrightarrow> list_all ok vs \<Longrightarrow> grand (us @ vs) = plus (grand us) (grand vs)"
  using foldl_grand [of "grand us" vs] by (simp add: grand_def ok_grand [unfolded grand_def])

lemma grand_concat:
  "list_all (list_all ok) uss \<Longrightarrow> grand (map grand uss) = grand (concat uss)"
proof (induction uss)
  case Nil
  then show ?case by simp
next
  case (Cons us uss)
  then have oks: "list_all ok us" "list_all ok (concat uss)" "list_all ok (map grand uss)"
    by (auto simp: list_all_iff intro: ok_grand)
  with Cons show ?case by (simp add: grand_Cons ok_grand grand_append)
qed

end

section \<open>Token usage\<close>

record token_usage =
  tu_input :: "int option"
  tu_output :: "int option"
  tu_cache_read :: "int option"
  tu_cache_write :: "int option"
  tu_reasoning :: "int option"

definition count_ok :: "int option \<Rightarrow> bool" where
  "count_ok x = (case x of None \<Rightarrow> True | Some i \<Rightarrow> 0 \<le> i)"

definition subset_ok :: "int option \<Rightarrow> int option \<Rightarrow> bool" where
  "subset_ok part whole = (case (part, whole) of (Some p, Some t) \<Rightarrow> p \<le> t | _ \<Rightarrow> True)"

definition token_usage_ok :: "token_usage \<Rightarrow> bool" where
  "token_usage_ok u \<longleftrightarrow>
     count_ok (tu_input u) \<and> count_ok (tu_output u) \<and> count_ok (tu_cache_read u) \<and>
     count_ok (tu_cache_write u) \<and> count_ok (tu_reasoning u) \<and>
     subset_ok (tu_cache_read u) (tu_input u) \<and>
     subset_ok (tu_cache_write u) (tu_input u) \<and>
     subset_ok (tu_reasoning u) (tu_output u)"

text \<open>\<^verbatim>\<open>__post_init__\<close>: what constructing a \<^verbatim>\<open>TokenUsage\<close> checks.\<close>

definition TokenUsage ::
  "int option \<Rightarrow> int option \<Rightarrow> int option \<Rightarrow> int option \<Rightarrow> int option \<Rightarrow> (exn, token_usage) result" where
  "TokenUsage i out cr cw r =
     (let u = \<lparr>tu_input = i, tu_output = out, tu_cache_read = cr, tu_cache_write = cw,
               tu_reasoning = r\<rparr>
      in if token_usage_ok u then Inr u else raise_code INVALID_OUTPUT)"

definition token_zero :: token_usage where
  "token_zero = \<lparr>tu_input = Some 0, tu_output = Some 0, tu_cache_read = Some 0,
     tu_cache_write = Some 0, tu_reasoning = Some 0\<rparr>"

definition token_unknown :: token_usage where
  "token_unknown = \<lparr>tu_input = None, tu_output = None, tu_cache_read = None,
     tu_cache_write = None, tu_reasoning = None\<rparr>"

definition add_count :: "int option \<Rightarrow> int option \<Rightarrow> int option" where
  "add_count l r = (case (l, r) of (Some a, Some b) \<Rightarrow> Some (a + b) | _ \<Rightarrow> None)"

text \<open>The sum before the constructor's check, which it always passes (\<open>token_plus_constructs\<close>).\<close>

definition token_plus :: "token_usage \<Rightarrow> token_usage \<Rightarrow> token_usage" where
  "token_plus l r =
     \<lparr>tu_input = add_count (tu_input l) (tu_input r),
      tu_output = add_count (tu_output l) (tu_output r),
      tu_cache_read = add_count (tu_cache_read l) (tu_cache_read r),
      tu_cache_write = add_count (tu_cache_write l) (tu_cache_write r),
      tu_reasoning = add_count (tu_reasoning l) (tu_reasoning r)\<rparr>"

lemma add_count_ok: "count_ok a \<Longrightarrow> count_ok b \<Longrightarrow> count_ok (add_count a b)"
  by (auto simp: count_ok_def add_count_def split: option.splits)

lemma add_subset_ok:
  "subset_ok p t \<Longrightarrow> subset_ok q u \<Longrightarrow> subset_ok (add_count p q) (add_count t u)"
  by (auto simp: subset_ok_def add_count_def split: option.splits)

lemma add_count_assoc: "add_count (add_count a b) c = add_count a (add_count b c)"
  by (auto simp: add_count_def split: option.splits)

lemma add_count_zero [simp]: "add_count (Some 0) a = a" "add_count a (Some 0) = a"
  by (auto simp: add_count_def split: option.splits)

lemma token_plus_ok: "token_usage_ok a \<Longrightarrow> token_usage_ok b \<Longrightarrow> token_usage_ok (token_plus a b)"
  by (simp add: token_usage_ok_def token_plus_def add_count_ok add_subset_ok)

lemma token_zero_ok [simp]: "token_usage_ok token_zero" "token_usage_ok token_unknown"
  by (simp_all add: token_usage_ok_def token_zero_def token_unknown_def count_ok_def subset_ok_def)

interpretation token_totals: totals token_zero token_plus token_usage_ok
proof
  fix a b c :: token_usage
  show "token_plus (token_plus a b) c = token_plus a (token_plus b c)"
    by (simp add: token_plus_def add_count_assoc)
  show "token_plus token_zero a = a" "token_plus a token_zero = a"
    by (simp_all add: token_plus_def token_zero_def)
qed (simp_all add: token_plus_ok)

section \<open>Cost\<close>

record cost =
  co_currency :: string
  co_amount :: "rat option"
  co_reference :: "string option"

definition cost_ok :: "cost \<Rightarrow> bool" where
  "cost_ok c \<longleftrightarrow> co_currency c \<noteq> [] \<and>
     (case co_amount c of None \<Rightarrow> True | Some a \<Rightarrow> 0 \<le> a)"

definition Cost :: "string \<Rightarrow> rat option \<Rightarrow> string option \<Rightarrow> (exn, cost) result" where
  "Cost currency amount reference =
     (let c = \<lparr>co_currency = currency, co_amount = amount, co_reference = reference\<rparr>
      in if cost_ok c then Inr c else raise_code INVALID_OUTPUT)"

definition combine :: "cost option \<Rightarrow> cost option \<Rightarrow> cost option" where
  "combine left right = (case (left, right) of
     (Some l, Some r) \<Rightarrow>
       if co_currency l \<noteq> co_currency r
       then Some \<lparr>co_currency = co_currency l, co_amount = None, co_reference = None\<rparr>
       else Some \<lparr>co_currency = co_currency l,
              co_amount = (case (co_amount l, co_amount r) of
                 (Some a, Some b) \<Rightarrow> Some (a + b) | _ \<Rightarrow> None),
              co_reference = (if co_reference l = co_reference r then co_reference l else None)\<rparr>
   | (Some p, None) \<Rightarrow> Some (p\<lparr>co_amount := None\<rparr>)
   | (None, Some p) \<Rightarrow> Some (p\<lparr>co_amount := None\<rparr>)
   | (None, None) \<Rightarrow> None)"

lemma combine_ok:
  "pred_option cost_ok a \<Longrightarrow> pred_option cost_ok b \<Longrightarrow> pred_option cost_ok (combine a b)"
  by (auto simp: combine_def cost_ok_def split: option.splits)

lemma combine_assoc: "combine (combine a b) c = combine a (combine b c)"
  by (cases a; cases b; cases c) (auto simp: combine_def split: option.splits)

section \<open>Usage\<close>

record model_usage =
  mu_requests :: nat
  mu_tokens :: token_usage
  mu_cost :: "cost option"

definition model_usage_ok :: "model_usage \<Rightarrow> bool" where
  "model_usage_ok m \<longleftrightarrow> 1 \<le> mu_requests m \<and> token_usage_ok (mu_tokens m) \<and>
     pred_option cost_ok (mu_cost m)"

definition ModelUsage :: "nat \<Rightarrow> token_usage \<Rightarrow> cost option \<Rightarrow> (exn, model_usage) result" where
  "ModelUsage requests tokens c =
     (if requests < 1 then raise_code INVALID_OUTPUT
      else Inr \<lparr>mu_requests = requests, mu_tokens = tokens, mu_cost = c\<rparr>)"

definition model_plus :: "model_usage \<Rightarrow> model_usage \<Rightarrow> model_usage" where
  "model_plus a b = \<lparr>mu_requests = mu_requests a + mu_requests b,
     mu_tokens = token_plus (mu_tokens a) (mu_tokens b),
     mu_cost = combine (mu_cost a) (mu_cost b)\<rparr>"

type_synonym by_model = "(string, model_usage) dict"

definition add_model :: "by_model \<Rightarrow> string \<times> model_usage \<Rightarrow> by_model" where
  "add_model merged = (\<lambda>(model, usage).
     put model (case get merged model of None \<Rightarrow> usage | Some previous \<Rightarrow> model_plus previous usage)
       merged)"

definition merge_models :: "by_model \<Rightarrow> by_model \<Rightarrow> by_model" where
  "merge_models left right =
     (if right = [] then left else sort_key fst (foldl add_model (dict_of left []) right))"

record usage =
  us_model_requests :: nat
  us_tool_calls :: nat
  us_tokens :: token_usage
  us_by_model :: by_model
  us_output_retries :: nat

definition usage_zero :: usage where
  "usage_zero = \<lparr>us_model_requests = 0, us_tool_calls = 0, us_tokens = token_zero,
     us_by_model = [], us_output_retries = 0\<rparr>"

definition usage_plus :: "usage \<Rightarrow> usage \<Rightarrow> usage" where
  "usage_plus a b =
     \<lparr>us_model_requests = us_model_requests a + us_model_requests b,
      us_tool_calls = us_tool_calls a + us_tool_calls b,
      us_tokens = token_plus (us_tokens a) (us_tokens b),
      us_by_model = merge_models (us_by_model a) (us_by_model b),
      us_output_retries = us_output_retries a + us_output_retries b\<rparr>"

text \<open>\<^verbatim>\<open>Usage.cost\<close>: the estimate across models.\<close>

definition usage_cost :: "usage \<Rightarrow> cost option" where
  "usage_cost u = (case us_by_model u of
     [] \<Rightarrow> None
   | (_, m) # ms \<Rightarrow> foldl (\<lambda>acc (_, m'). combine acc (mu_cost m')) (mu_cost m) ms)"

definition by_model_ok :: "by_model \<Rightarrow> bool" where
  "by_model_ok ms \<longleftrightarrow> dict_wf ms \<and> sorted (keys ms) \<and> list_all (\<lambda>p. model_usage_ok (snd p)) ms"

definition usage_ok :: "usage \<Rightarrow> bool" where
  "usage_ok u \<longleftrightarrow> token_usage_ok (us_tokens u) \<and> by_model_ok (us_by_model u)"

section \<open>Merging\<close>

definition plus_opt :: "model_usage option \<Rightarrow> model_usage option \<Rightarrow> model_usage option" where
  "plus_opt a b = (case (a, b) of
     (Some x, Some y) \<Rightarrow> Some (model_plus x y) | (None, y) \<Rightarrow> y | (x, None) \<Rightarrow> x)"

lemma plus_opt_simps [simp]:
  "plus_opt None b = b" "plus_opt a None = a" "plus_opt (Some x) (Some y) = Some (model_plus x y)"
  by (simp_all add: plus_opt_def split: option.splits)

lemma model_plus_assoc: "model_plus (model_plus a b) c = model_plus a (model_plus b c)"
  by (simp add: model_plus_def token_totals.assoc combine_assoc add.assoc)
    (simp add: token_plus_def add_count_assoc)

lemma plus_opt_assoc: "plus_opt (plus_opt a b) c = plus_opt a (plus_opt b c)"
  by (cases a; cases b; cases c) (simp_all add: model_plus_assoc)

lemma model_plus_ok: "model_usage_ok a \<Longrightarrow> model_usage_ok b \<Longrightarrow> model_usage_ok (model_plus a b)"
  by (simp add: model_usage_ok_def model_plus_def token_plus_ok combine_ok)

lemma get_add_model:
  "get (add_model m (k, u)) k' = (if k = k' then plus_opt (get m k) (Some u) else get m k')"
  by (simp add: add_model_def split: option.splits)

lemma foldl_add_model:
  "dict_wf m \<Longrightarrow> dict_wf r \<Longrightarrow>
     dict_wf (foldl add_model m r) \<and> (\<forall>k. get (foldl add_model m r) k = plus_opt (get m k) (get r k))"
proof (induction r arbitrary: m)
  case (Cons p r)
  obtain k u where p: "p = (k, u)" by fastforce
  from Cons.prems have "dict_wf (add_model m p)" "dict_wf r" by (simp_all add: p add_model_def)
  from Cons.IH [OF this] have "dict_wf (foldl add_model m (p # r))"
    and g: "get (foldl add_model m (p # r)) k' = plus_opt (get (add_model m p) k') (get r k')" for k'
    by simp_all
  moreover have "get r k = None" using Cons.prems(2) by (simp add: p get_None_iff)
  then have "plus_opt (get (add_model m p) k') (get r k') = plus_opt (get m k') (get (p # r) k')" for k'
    by (auto simp: p get_add_model)
  ultimately show ?case by simp
qed simp

lemma foldl_add_model_ok:
  "list_all (\<lambda>p. model_usage_ok (snd p)) m \<Longrightarrow> list_all (\<lambda>p. model_usage_ok (snd p)) r \<Longrightarrow>
     list_all (\<lambda>p. model_usage_ok (snd p)) (foldl add_model m r)"
proof (induction r arbitrary: m)
  case (Cons p r)
  obtain k u where p: "p = (k, u)" by fastforce
  have "model_usage_ok (case get m k of None \<Rightarrow> u | Some v \<Rightarrow> model_plus v u)"
    using Cons.prems by (auto simp: p list_all_iff intro!: model_plus_ok split: option.splits
        dest!: map_of_SomeD bspec)
  then have "list_all (\<lambda>p. model_usage_ok (snd p)) (add_model m p)"
    using Cons.prems(1) unfolding p add_model_def by (simp add: put_list_all)
  with Cons show ?case by simp
qed simp

lemma dict_wf_sort_key: "dict_wf (sort_key fst d) \<longleftrightarrow> dict_wf d"
proof -
  have "mset (map fst (sort_key fst d)) = mset (map fst d)"
    by (simp only: mset_map mset_sort)
  then show ?thesis by (rule mset_eq_imp_distinct_iff)
qed

lemma get_sort_key: "dict_wf d \<Longrightarrow> get (sort_key fst d) k = get d k"
proof -
  assume d: "dict_wf d"
  then have "dict_wf (sort_key fst d)" by (simp add: dict_wf_sort_key)
  with d show ?thesis by (intro map_of_eqI [THEN fun_cong]) (auto simp: map_of_eq_Some_iff)
qed

lemma merge_models_spec:
  assumes "by_model_ok l" "by_model_ok r"
  shows "by_model_ok (merge_models l r) \<and>
    (\<forall>k. get (merge_models l r) k = plus_opt (get l k) (get r k))"
proof (cases "r = []")
  case True
  with assms show ?thesis by (simp add: merge_models_def)
next
  case False
  let ?f = "foldl add_model l r"
  from assms have wf: "dict_wf ?f" and g: "\<And>k. get ?f k = plus_opt (get l k) (get r k)"
    using foldl_add_model [of l r] by (auto simp: by_model_ok_def)
  have m: "merge_models l r = sort_key fst ?f"
    using False assms(1) by (simp add: merge_models_def by_model_ok_def)
  from wf have "dict_wf (sort_key fst ?f)" by (simp add: dict_wf_sort_key)
  moreover have "list_all (\<lambda>p. model_usage_ok (snd p)) ?f"
    using assms by (intro foldl_add_model_ok) (simp_all add: by_model_ok_def)
  ultimately show ?thesis
    by (simp add: m by_model_ok_def get_sort_key [OF wf] g list_all_iff)
qed

lemma by_model_eqI:
  assumes "by_model_ok a" "by_model_ok b" "\<And>k. get a k = get b k"
  shows "a = b"
proof -
  from assms have d: "dict_wf a" "dict_wf b" and s: "sorted (keys a)" "sorted (keys b)"
    by (simp_all add: by_model_ok_def)
  from assms(3) have "map_of a = map_of b" by blast
  then have st: "set a = set b" using d by (simp add: map_of_inject_set)
  then have "inj_on fst (set a \<union> set b)" using d(1) by (simp add: distinct_map)
  then show ?thesis using d s st by (intro map_sorted_distinct_set_unique)
qed

lemma merge_models_assoc:
  assumes "by_model_ok a" "by_model_ok b" "by_model_ok c"
  shows "merge_models (merge_models a b) c = merge_models a (merge_models b c)"
  using assms by (intro by_model_eqI) (simp_all add: merge_models_spec plus_opt_assoc)

lemma by_model_ok_Nil [simp]: "by_model_ok []"
  by (simp add: by_model_ok_def)

lemma merge_models_Nil_left: "by_model_ok a \<Longrightarrow> merge_models [] a = a"
  by (auto intro!: by_model_eqI simp: merge_models_spec)

lemma merge_models_Nil_right: "merge_models a [] = a"
  by (simp add: merge_models_def)

lemmas merge_models_Nil = merge_models_Nil_left merge_models_Nil_right

interpretation usage_totals: totals usage_zero usage_plus usage_ok
proof
  show "usage_ok usage_zero" by (simp add: usage_ok_def usage_zero_def)
next
  fix a b c assume ok: "usage_ok a" "usage_ok b" "usage_ok c"
  then show "usage_plus (usage_plus a b) c = usage_plus a (usage_plus b c)"
    by (simp add: usage_plus_def usage_ok_def merge_models_assoc token_totals.assoc)
qed (simp_all add: usage_ok_def usage_plus_def usage_zero_def token_plus_ok merge_models_spec
    merge_models_Nil token_totals.zero_left token_totals.zero_right)

lemma usage_plus_counts [simp]:
  "us_model_requests (usage_plus a b) = us_model_requests a + us_model_requests b"
  "us_tool_calls (usage_plus a b) = us_tool_calls a + us_tool_calls b"
  "us_output_retries (usage_plus a b) = us_output_retries a + us_output_retries b"
  by (simp_all add: usage_plus_def)

lemma usage_zero_counts [simp]:
  "us_model_requests usage_zero = 0" "us_tool_calls usage_zero = 0"
  "us_output_retries usage_zero = 0"
  by (simp_all add: usage_zero_def)

section \<open>Pricing\<close>

record price_tier =
  pt_input :: rat
  pt_output :: rat
  pt_cached_input :: "rat option"

definition price_tier_ok :: "price_tier \<Rightarrow> bool" where
  "price_tier_ok t \<longleftrightarrow> 0 \<le> pt_input t \<and> 0 \<le> pt_output t \<and>
     (case pt_cached_input t of None \<Rightarrow> True | Some c \<Rightarrow> 0 \<le> c)"

datatype reasoning_billing = BilledOutput | BilledInput

record pricing =
  pr_currency :: string
  pr_base :: price_tier
  pr_reasoning :: reasoning_billing
  pr_threshold :: "int option"
  pr_long_context :: "price_tier option"
  pr_reference :: "string option"

text \<open>The constructors' checks of \<^verbatim>\<open>PriceTier\<close> and \<^verbatim>\<open>PricingPlan\<close>.\<close>

definition pricing_ok :: "pricing \<Rightarrow> bool" where
  "pricing_ok p \<longleftrightarrow> price_tier_ok (pr_base p) \<and>
     (case pr_long_context p of None \<Rightarrow> True | Some t \<Rightarrow> price_tier_ok t) \<and>
     (pr_long_context p = None \<longleftrightarrow> pr_threshold p = None) \<and>
     (case pr_threshold p of None \<Rightarrow> True | Some t \<Rightarrow> 1 \<le> t)"

definition tier :: "pricing \<Rightarrow> int \<Rightarrow> price_tier" where
  "tier p input_tokens = (case (pr_long_context p, pr_threshold p) of
     (Some long, Some threshold) \<Rightarrow> if input_tokens > threshold then long else pr_base p
   | _ \<Rightarrow> pr_base p)"

definition amount_of :: "pricing \<Rightarrow> token_usage option \<Rightarrow> rat option" where
  "amount_of p tokens = (case tokens of
     None \<Rightarrow> None
   | Some u \<Rightarrow>
       (case (tu_input u, tu_output u) of
          (Some inp, Some out) \<Rightarrow>
            (let t = tier p inp;
                 cached = (if pt_cached_input t = None then Some 0 else tu_cache_read u);
                 reasoning = (if pr_reasoning p = BilledInput then tu_reasoning u else Some 0);
                 cached_price = (case pt_cached_input t of Some c \<Rightarrow> c | None \<Rightarrow> pt_input t)
             in (case (cached, reasoning) of
                   (Some c, Some r) \<Rightarrow>
                     Some ((of_int (inp - c + r) * pt_input t + of_int c * cached_price
                            + of_int (out - r) * pt_output t) / 1000000)
                 | _ \<Rightarrow> None))
        | _ \<Rightarrow> None))"

definition request_cost :: "pricing \<Rightarrow> token_usage option \<Rightarrow> (exn, cost) result" where
  "request_cost p tokens = Cost (pr_currency p) (amount_of p tokens) (pr_reference p)"

lemma tier_ok: "pricing_ok p \<Longrightarrow> price_tier_ok (tier p i)"
  by (auto simp: pricing_ok_def tier_def split: option.splits)

lemma amount_nonneg:
  assumes "pricing_ok p" "pred_option token_usage_ok u" "amount_of p u = Some a"
  shows "0 \<le> a"
proof -
  from assms(3) obtain v inp out c r where u: "u = Some v"
    and v: "tu_input v = Some inp" "tu_output v = Some out"
    and c: "(if pt_cached_input (tier p inp) = None then Some 0 else tu_cache_read v) = Some c"
    and r: "(if pr_reasoning p = BilledInput then tu_reasoning v else Some 0) = Some r"
    and a: "a = (of_int (inp - c + r) * pt_input (tier p inp)
        + of_int c * (case pt_cached_input (tier p inp) of Some x \<Rightarrow> x | None \<Rightarrow> pt_input (tier p inp))
        + of_int (out - r) * pt_output (tier p inp)) / 1000000"
    by (auto simp: amount_of_def Let_def split: option.splits)
  from assms(2) u have ok: "token_usage_ok v" by simp
  have c0: "0 \<le> c" "c \<le> inp"
    using ok v c by (auto simp: token_usage_ok_def count_ok_def subset_ok_def split: if_splits)
  have r0: "0 \<le> r" "r \<le> out"
    using ok v r by (auto simp: token_usage_ok_def count_ok_def subset_ok_def split: if_splits)
  have t: "price_tier_ok (tier p inp)" using assms(1) by (rule tier_ok)
  then have "0 \<le> (case pt_cached_input (tier p inp) of Some x \<Rightarrow> x | None \<Rightarrow> pt_input (tier p inp))"
    by (auto simp: price_tier_ok_def split: option.splits)
  with c0 r0 t show ?thesis
    unfolding a price_tier_ok_def
    by (intro divide_nonneg_nonneg add_nonneg_nonneg mult_nonneg_nonneg) simp_all
qed

lemma request_cost_total:
  "pricing_ok p \<Longrightarrow> pr_currency p \<noteq> [] \<Longrightarrow> pred_option token_usage_ok u \<Longrightarrow>
     \<exists>c. request_cost p u = Inr c \<and> cost_ok c"
  using amount_nonneg [of p u]
  by (auto simp: request_cost_def Cost_def Let_def cost_ok_def split: option.splits)

section \<open>Properties\<close>



text \<open>
  The sum of two valid token usages is valid: it passes the checks of the constructor,
  so adding up never raises.
\<close>

theorem token_sum_valid:
  assumes "token_usage_ok a" "token_usage_ok b"
  shows "token_usage_ok (token_plus a b)"
  using assms by (rule token_plus_ok)

theorem token_sum_valid_witness:
  "token_usage_ok (token_plus \<lparr>tu_input = Some 10, tu_output = None, tu_cache_read = Some 4,
      tu_cache_write = None, tu_reasoning = None\<rparr>
    \<lparr>tu_input = Some 5, tu_output = Some 7, tu_cache_read = None, tu_cache_write = Some 5,
      tu_reasoning = Some 7\<rparr>)"
  by (rule token_sum_valid) (simp_all add: token_usage_ok_def count_ok_def subset_ok_def)

text \<open>
  Pricing a request with valid prices and valid (or missing) token counts never
  raises, and the estimated amount is not negative.
\<close>

theorem request_cost_valid:
  assumes "pricing_ok p" "pr_currency p \<noteq> []" "pred_option token_usage_ok u"
  shows "\<exists>c. request_cost p u = Inr c \<and> cost_ok c"
  using assms by (rule request_cost_total)

theorem request_cost_valid_witness:
  "\<exists>c. request_cost \<lparr>pr_currency = ''EUR'', pr_base = \<lparr>pt_input = 2, pt_output = 8, pt_cached_input = Some (1/2)\<rparr>,
       pr_reasoning = BilledInput, pr_threshold = Some 200000,
       pr_long_context = Some \<lparr>pt_input = 4, pt_output = 12, pt_cached_input = None\<rparr>, pr_reference = None\<rparr>
     (Some \<lparr>tu_input = Some 300000, tu_output = Some 70, tu_cache_read = Some 40, tu_cache_write = None,
       tu_reasoning = Some 20\<rparr>) = Inr c \<and> cost_ok c"
  by (rule request_cost_valid)
    (simp_all add: pricing_ok_def price_tier_ok_def token_usage_ok_def count_ok_def subset_ok_def)

end
