(* ===== verification/Budget.thy ===== *)
theory Budget imports Usage begin

text \<open>
  \<^verbatim>\<open>core/budget.py\<close>: the attempt accounting of one step. Each operation is atomic (its
  coroutine never suspends), so an adapter's use of the budget is a sequence of operations;
  a failing operation raises and leaves the budget as it was.
\<close>

section \<open>State and operations\<close>

record attempt =
  at_model :: string
  at_pricing :: "pricing option"
  at_usage :: "token_usage option"

record budget =
  bg_model_limit :: nat
  bg_tool_limit :: nat
  bg_models :: "(nat, attempt) dict"
  bg_tools :: nat
  bg_output_retries :: nat

definition new_budget :: "nat \<Rightarrow> nat \<Rightarrow> budget" where
  "new_budget model_requests tool_calls =
     \<lparr>bg_model_limit = model_requests, bg_tool_limit = tool_calls, bg_models = [],
      bg_tools = 0, bg_output_retries = 0\<rparr>"

definition py_space :: "char \<Rightarrow> bool" where
  "py_space c \<longleftrightarrow> (let n = of_char c :: nat in
     (9 \<le> n \<and> n \<le> 13) \<or> (28 \<le> n \<and> n \<le> 32) \<or> n = 133 \<or> n = 160)"

definition model_id_ok :: "string \<Rightarrow> bool" where
  "model_id_ok m \<longleftrightarrow> 1 \<le> length m \<and> length m \<le> 512 \<and> \<not> list_all py_space m"

definition start_model_request ::
  "string \<Rightarrow> pricing option \<Rightarrow> budget \<Rightarrow> (exn, nat) result \<times> budget" where
  "start_model_request model pricing b =
     (if \<not> model_id_ok model then (raise_code INVALID_CONFIGURATION, b)
      else if length (bg_models b) \<ge> bg_model_limit b
      then (raise_code MODEL_REQUEST_LIMIT_REACHED, b)
      else let ticket = length (bg_models b) + 1 in
        (Inr ticket, b\<lparr>bg_models := put ticket
           \<lparr>at_model = model, at_pricing = pricing, at_usage = None\<rparr> (bg_models b)\<rparr>))"

definition finish_model_request ::
  "nat \<Rightarrow> token_usage \<Rightarrow> budget \<Rightarrow> (exn, unit) result \<times> budget" where
  "finish_model_request ticket usage b =
     (case get (bg_models b) ticket of
        None \<Rightarrow> (raise_code CONFLICT, b)
      | Some a \<Rightarrow>
          if at_usage a \<noteq> None then (raise_code CONFLICT, b)
          else if \<not> token_usage_ok usage then (raise_code INVALID_OUTPUT, b)
          else (Inr (), b\<lparr>bg_models := put ticket (a\<lparr>at_usage := Some usage\<rparr>) (bg_models b)\<rparr>))"

definition start_tool_call :: "budget \<Rightarrow> (exn, nat) result \<times> budget" where
  "start_tool_call b =
     (if bg_tools b \<ge> bg_tool_limit b then (raise_code TOOL_CALL_LIMIT_REACHED, b)
      else (Inr (bg_tools b + 1), b\<lparr>bg_tools := bg_tools b + 1\<rparr>))"

definition record_output_retry :: "budget \<Rightarrow> budget" where
  "record_output_retry b = b\<lparr>bg_output_retries := bg_output_retries b + 1\<rparr>"

text \<open>One attempt's contribution to the totals.\<close>

definition attempt_usage :: "attempt \<Rightarrow> (exn, usage) result" where
  "attempt_usage a =
     (let tokens = (case at_usage a of Some u \<Rightarrow> u | None \<Rightarrow> token_unknown) in
      bindE (case at_pricing a of
               Some p \<Rightarrow> mapR Some (request_cost p (at_usage a))
             | None \<Rightarrow> Inr None) (\<lambda>c.
        Inr \<lparr>us_model_requests = 1, us_tool_calls = 0, us_tokens = tokens,
             us_by_model = [(at_model a,
               \<lparr>mu_requests = 1, mu_tokens = tokens, mu_cost = c\<rparr>)],
             us_output_retries = 0\<rparr>))"

fun add_attempts :: "usage \<Rightarrow> attempt list \<Rightarrow> (exn, usage) result" where
  "add_attempts u [] = Inr u"
| "add_attempts u (a # as) = bindE (attempt_usage a) (\<lambda>v. add_attempts (usage_plus u v) as)"

definition snapshot :: "budget \<Rightarrow> (exn, usage) result" where
  "snapshot b =
     add_attempts (usage_zero\<lparr>us_tool_calls := bg_tools b, us_output_retries := bg_output_retries b\<rparr>)
       (map snd (bg_models b))"

section \<open>Sequences of operations\<close>

datatype budget_op =
    StartModel string "pricing option"
  | FinishModel nat token_usage
  | StartTool
  | RecordRetry

fun budget_step :: "budget \<Rightarrow> budget_op \<Rightarrow> budget" where
  "budget_step b (StartModel m p) = snd (start_model_request m p b)"
| "budget_step b (FinishModel t u) = snd (finish_model_request t u b)"
| "budget_step b StartTool = snd (start_tool_call b)"
| "budget_step b RecordRetry = record_output_retry b"

definition budget_run :: "budget \<Rightarrow> budget_op list \<Rightarrow> budget" where
  "budget_run b ops = foldl budget_step b ops"

text \<open>Pricing plans are checked when they are constructed, so adapters pass valid ones.\<close>

definition op_ok :: "budget_op \<Rightarrow> bool" where
  "op_ok op = (case op of
     StartModel _ (Some p) \<Rightarrow> pricing_ok p \<and> pr_currency p \<noteq> []
   | _ \<Rightarrow> True)"

definition attempt_ok :: "attempt \<Rightarrow> bool" where
  "attempt_ok a \<longleftrightarrow> model_id_ok (at_model a) \<and>
     pred_option (\<lambda>p. pricing_ok p \<and> pr_currency p \<noteq> []) (at_pricing a) \<and>
     pred_option token_usage_ok (at_usage a)"

text \<open>Tickets are handed out consecutively; limits bound what was reserved.\<close>

definition budget_inv :: "budget \<Rightarrow> bool" where
  "budget_inv b \<longleftrightarrow>
     keys (bg_models b) = [1..<Suc (length (bg_models b))] \<and>
     length (bg_models b) \<le> bg_model_limit b \<and>
     bg_tools b \<le> bg_tool_limit b"

definition attempts_ok :: "budget \<Rightarrow> bool" where
  "attempts_ok b \<longleftrightarrow> list_all attempt_ok (map snd (bg_models b))"

section \<open>Facts\<close>

lemma budget_inv_new [simp]: "budget_inv (new_budget m t)" "attempts_ok (new_budget m t)"
  by (simp_all add: budget_inv_def attempts_ok_def new_budget_def)

lemma put_fresh_ticket:
  "keys ms = [1..<Suc (length ms)] \<Longrightarrow> put (Suc (length ms)) a ms = ms @ [(Suc (length ms), a)]"
  by (rule put_new) simp

lemma start_model_inv: "budget_inv b \<Longrightarrow> budget_inv (snd (start_model_request m p b))"
  by (auto simp: start_model_request_def budget_inv_def Let_def put_fresh_ticket)

lemma finish_model_inv:
  assumes "budget_inv b"
  shows "budget_inv (snd (finish_model_request t u b))"
proof (cases "get (bg_models b) t")
  case None
  with assms show ?thesis by (simp add: finish_model_request_def)
next
  case (Some a)
  then have t: "t \<in> set (keys (bg_models b))" by (rule get_Some_key)
  show ?thesis
    using assms Some unfolding finish_model_request_def budget_inv_def
    by (simp add: keys_put_old [OF t] length_put_old [OF t] del: upt_Suc)
qed

lemma budget_step_inv: "budget_inv b \<Longrightarrow> budget_inv (budget_step b op)"
proof (cases op)
  case StartTool
  assume "budget_inv b"
  with StartTool show ?thesis by (auto simp: start_tool_call_def budget_inv_def)
next
  case RecordRetry
  assume "budget_inv b"
  with RecordRetry show ?thesis by (simp add: record_output_retry_def budget_inv_def)
qed (simp_all add: start_model_inv finish_model_inv)

lemma budget_run_inv: "budget_inv b \<Longrightarrow> budget_inv (budget_run b ops)"
  unfolding budget_run_def by (induction ops arbitrary: b) (simp_all add: budget_step_inv)

lemma budget_step_limits [simp]:
  "bg_model_limit (budget_step b op) = bg_model_limit b"
  "bg_tool_limit (budget_step b op) = bg_tool_limit b"
  by (cases op; simp add: start_model_request_def finish_model_request_def start_tool_call_def
      record_output_retry_def Let_def split: option.splits)+

lemma budget_run_limits [simp]:
  "bg_model_limit (budget_run b ops) = bg_model_limit b"
  "bg_tool_limit (budget_run b ops) = bg_tool_limit b"
  unfolding budget_run_def by (induction ops arbitrary: b) simp_all

lemma attempts_ok_put:
  "attempts_ok b \<Longrightarrow> attempt_ok a \<Longrightarrow> attempts_ok (b\<lparr>bg_models := put t a (bg_models b)\<rparr>)"
  using put_list_all [of attempt_ok "bg_models b" a t]
  by (simp add: attempts_ok_def list.pred_map comp_def)

lemma attempt_usage_ok:
  "attempt_ok a \<Longrightarrow> \<exists>u. attempt_usage a = Inr u \<and> usage_ok u \<and> us_model_requests u = 1 \<and>
     us_tool_calls u = 0 \<and> us_output_retries u = 0"
proof -
  assume a: "attempt_ok a"
  have "\<exists>c. (case at_pricing a of Some p \<Rightarrow> mapR Some (request_cost p (at_usage a)) | None \<Rightarrow> Inr None)
      = Inr c \<and> pred_option cost_ok c"
  proof (cases "at_pricing a")
    case (Some p)
    with a obtain c where "request_cost p (at_usage a) = Inr c" "cost_ok c"
      using request_cost_total [of p "at_usage a"] by (auto simp: attempt_ok_def)
    with Some show ?thesis by simp
  qed simp
  with a show ?thesis
    by (auto simp: attempt_usage_def Let_def usage_ok_def by_model_ok_def model_usage_ok_def
        attempt_ok_def split: option.splits)
qed

lemma add_attempts_ok:
  "list_all attempt_ok as \<Longrightarrow> usage_ok u \<Longrightarrow>
     \<exists>v. add_attempts u as = Inr v \<and> usage_ok v \<and>
       us_model_requests v = us_model_requests u + length as \<and>
       us_tool_calls v = us_tool_calls u \<and> us_output_retries v = us_output_retries u"
proof (induction as arbitrary: u)
  case (Cons a as)
  then obtain w where "attempt_usage a = Inr w" "usage_ok w" "us_model_requests w = 1"
    "us_tool_calls w = 0" "us_output_retries w = 0"
    using attempt_usage_ok [of a] by auto
  with Cons.IH [of "usage_plus u w"] Cons.prems show ?case
    by (auto simp: usage_totals.ok_plus)
qed simp

lemma snapshot_counts:
  "snapshot b = Inr u \<Longrightarrow> us_model_requests u = length (bg_models b) \<and>
     us_tool_calls u = bg_tools b \<and> us_output_retries u = bg_output_retries b"
proof -
  have "add_attempts v as = Inr u \<Longrightarrow> us_model_requests u = us_model_requests v + length as \<and>
     us_tool_calls u = us_tool_calls v \<and> us_output_retries u = us_output_retries v" for v as
  proof (induction as arbitrary: v)
    case (Cons a as)
    then show ?case
      by (fastforce simp: bindE_Inr_iff attempt_usage_def Let_def)
  qed simp
  then show "snapshot b = Inr u \<Longrightarrow> ?thesis"
    unfolding snapshot_def by fastforce
qed

lemma snapshot_bounds:
  "budget_inv b \<Longrightarrow> snapshot b = Inr u \<Longrightarrow>
     us_model_requests u \<le> bg_model_limit b \<and> us_tool_calls u \<le> bg_tool_limit b"
  using snapshot_counts [of b u] by (auto simp: budget_inv_def)

lemma snapshot_total:
  "attempts_ok b \<Longrightarrow> \<exists>u. snapshot b = Inr u \<and> usage_ok u"
proof -
  assume "attempts_ok b"
  moreover have "usage_ok (usage_zero\<lparr>us_tool_calls := bg_tools b, us_output_retries := bg_output_retries b\<rparr>)"
    by (simp add: usage_ok_def usage_zero_def)
  ultimately show ?thesis
    using add_attempts_ok [of "map snd (bg_models b)"] unfolding attempts_ok_def snapshot_def by blast
qed

lemma budget_step_attempts: "attempts_ok b \<Longrightarrow> op_ok op \<Longrightarrow> attempts_ok (budget_step b op)"
proof (cases op)
  case (StartModel m p)
  assume "attempts_ok b" "op_ok op"
  with StartModel show ?thesis
    by (auto simp: start_model_request_def Let_def op_ok_def attempt_ok_def split: option.splits
        intro!: attempts_ok_put)
next
  case (FinishModel t u)
  assume b: "attempts_ok b"
  have "attempt_ok (a\<lparr>at_usage := Some u\<rparr>)" if "get (bg_models b) t = Some a" "token_usage_ok u" for a
    using b that by (force simp: attempts_ok_def list_all_iff attempt_ok_def dest!: map_of_SomeD)
  with b FinishModel show ?thesis
    by (auto simp: finish_model_request_def split: option.splits intro!: attempts_ok_put)
next
  case StartTool
  assume "attempts_ok b"
  with StartTool show ?thesis by (simp add: start_tool_call_def attempts_ok_def)
next
  case RecordRetry
  assume "attempts_ok b"
  with RecordRetry show ?thesis by (simp add: record_output_retry_def attempts_ok_def)
qed

lemma budget_run_attempts: "attempts_ok b \<Longrightarrow> list_all op_ok ops \<Longrightarrow> attempts_ok (budget_run b ops)"
  unfolding budget_run_def by (induction ops arbitrary: b) (simp_all add: budget_step_attempts)

section \<open>Properties\<close>

text \<open>
  C33: However the adapters use a step's budget, its usage snapshot succeeds, is a valid
  usage, and counts at most the model requests and tool calls the limits allow.
\<close>

theorem budget_usage_bounded:
  assumes "list_all op_ok ops"
  shows "\<exists>u. snapshot (budget_run (new_budget m t) ops) = Inr u \<and> usage_ok u \<and>
    us_model_requests u \<le> m \<and> us_tool_calls u \<le> t"
proof -
  let ?b = "budget_run (new_budget m t) ops"
  have "attempts_ok ?b" by (rule budget_run_attempts [OF _ assms]) simp
  from snapshot_total [OF this] obtain u where u: "snapshot ?b = Inr u" "usage_ok u" by blast
  have "budget_inv ?b" by (rule budget_run_inv) simp
  from snapshot_bounds [OF this u(1)] u show ?thesis by (simp add: new_budget_def)
qed

theorem budget_usage_bounded_witness:
  "\<exists>u. snapshot (budget_run (new_budget 1 2)
      [StartModel ''m'' None, StartModel ''m'' None, StartTool, RecordRetry,
       FinishModel 1 token_zero, FinishModel 1 token_unknown]) = Inr u \<and> usage_ok u \<and>
    us_model_requests u \<le> 1 \<and> us_tool_calls u \<le> 2"
  by (rule budget_usage_bounded) (simp add: op_ok_def)

end
