(* ===== verification/Records.thy ===== *)
theory Records imports Budget "HOL-Library.Log_Nat" begin

text \<open>
  The execution values of \<^verbatim>\<open>core/execution.py\<close>: failures, selections, step and flow records,
  route records and the run result, with their projections into the public ledger. Times are
  exact rationals; a cost is rounded to six decimals (half to even) and then to the nearest
  double, as the projection does.
\<close>

section \<open>Failures and selections\<close>

record failure =
  fa_code :: error_code
  fa_retryable :: bool
  fa_reason :: "string option"
  fa_location :: "string option"
  fa_constraint :: "string option"

definition Failure ::
  "error_code \<Rightarrow> bool \<Rightarrow> string option \<Rightarrow> string option \<Rightarrow> string option \<Rightarrow> failure" where
  "Failure code retryable reason location constraint =
     \<lparr>fa_code = code, fa_retryable = retryable, fa_reason = reason,
      fa_location = (if safe_location location \<noteq> location then None else location),
      fa_constraint = (if safe_constraint constraint \<noteq> constraint then None else constraint)\<rparr>"

abbreviation failure_code :: "error_code \<Rightarrow> failure" where
  "failure_code c \<equiv> Failure c False None None None"

definition failure_of :: "service_error \<Rightarrow> failure" where
  "failure_of e = Failure (se_code e) (se_retryable e) (se_reason e) (se_location e) (se_constraint e)"

definition failure_json :: "failure \<Rightarrow> jobj" where
  "failure_json f =
     [(''code'', JStr (code_value (fa_code f))),
      (''message'', JStr (code_message (fa_code f))),
      (''retryable'', JBool (fa_retryable f))]
     @ entry_opt ''reason'' JStr (fa_reason f)
     @ entry_opt ''location'' JStr (fa_location f)
     @ entry_opt ''constraint'' JStr (fa_constraint f)"

datatype origin = FromModel | FromFallback

record selection =
  sl_category :: category
  sl_origin :: origin

definition selection_json :: "selection \<Rightarrow> json" where
  "selection_json s =
     JObj [(''category'', JObj ([(''id'', JStr (ct_id (sl_category s)))]
              @ entry_opt ''description'' JStr (ct_description (sl_category s)))),
           (''origin'', JStr (case sl_origin s of FromModel \<Rightarrow> ''model'' | FromFallback \<Rightarrow> ''fallback''))]"

section \<open>Records\<close>

datatype status = Completed | NeedsReview | Failed | Cancelled | Skipped

fun status_text :: "status \<Rightarrow> string" where
  "status_text Completed = ''completed''"
| "status_text NeedsReview = ''needs_review''"
| "status_text Failed = ''failed''"
| "status_text Cancelled = ''cancelled''"
| "status_text Skipped = ''skipped''"

text \<open>\<^verbatim>\<open>sp_collection\<close> is \<^verbatim>\<open>kind == "flow_collection"\<close>.\<close>

record step_record =
  sp_status :: status
  sp_result :: json
  sp_has_result :: bool
  sp_error :: "failure option"
  sp_elapsed :: "rat option"
  sp_usage :: "usage option"
  sp_selection :: "selection option"
  sp_partial :: "jobj option"
  sp_collection :: bool

record outcome =
  oc_result :: json
  oc_needs_review :: bool
  oc_selection :: "selection option"
  oc_issues :: "issue list"

datatype repeat_stop = StopUntil | StopExhausted | StopContinueWhen | StopReview | StopFailure

fun stop_text :: "repeat_stop \<Rightarrow> string" where
  "stop_text StopUntil = ''until''"
| "stop_text StopExhausted = ''exhausted''"
| "stop_text StopContinueWhen = ''continue_when''"
| "stop_text StopReview = ''review''"
| "stop_text StopFailure = ''failure''"

datatype flow_record = FlowRecord
  (fr_status: status)
  (fr_steps: "(string \<times> step_record) list")
  (fr_result: json)
  (fr_has_result: bool)
  (fr_usage: "usage option")
  (fr_elapsed: "rat option")
  (fr_error: "failure option")
  (fr_attempts: "flow_record list")
  (fr_stopped_by: "repeat_stop option")

text \<open>\<^verbatim>\<open>dataclasses.replace\<close> on the fields the runner replaces.\<close>

definition with_attempts :: "flow_record \<Rightarrow> flow_record list \<Rightarrow> flow_record" where
  "with_attempts r as = FlowRecord (fr_status r) (fr_steps r) (fr_result r) (fr_has_result r)
     (fr_usage r) (fr_elapsed r) (fr_error r) as (fr_stopped_by r)"

definition with_stop ::
  "flow_record \<Rightarrow> status \<Rightarrow> flow_record list \<Rightarrow> repeat_stop option \<Rightarrow> flow_record" where
  "with_stop r st as stop = FlowRecord st (fr_steps r) (fr_result r) (fr_has_result r)
     (fr_usage r) (fr_elapsed r) (fr_error r) as stop"

definition attempt_count :: "flow_record \<Rightarrow> nat" where
  "attempt_count r = (if fr_attempts r \<noteq> [] then length (fr_attempts r)
     else if fr_status r = Skipped then 0 else 1)"

fun add_usage :: "usage \<Rightarrow> usage option \<Rightarrow> usage" where
  "add_usage acc None = acc"
| "add_usage acc (Some u) = usage_plus acc u"

definition total_usage :: "flow_record \<Rightarrow> usage option" where
  "total_usage r = (if fr_attempts r = [] then fr_usage r
     else Some (foldl add_usage usage_zero (map fr_usage (fr_attempts r))))"

definition total_elapsed :: "flow_record \<Rightarrow> rat option" where
  "total_elapsed r = (if fr_attempts r = [] then fr_elapsed r
     else Some (sum_list (map (\<lambda>a. case fr_elapsed a of Some t \<Rightarrow> t | None \<Rightarrow> 0) (fr_attempts r))))"

datatype route_kind = KindDirect | KindCases | KindRoute | KindReview

record transition_record =
  tr_source :: string
  tr_reason :: status
  tr_flow :: "string option"
  tr_outcome :: "terminal option"
  tr_kind :: route_kind
  tr_index :: "nat option"
  tr_case :: "string option"

record start_record =
  sa_flow :: string
  sa_kind :: route_kind
  sa_index :: "nat option"

record run_result =
  rr_execution_id :: string
  rr_workflow :: string
  rr_revision :: string
  rr_status :: status
  rr_payload :: json
  rr_metadata :: jobj
  rr_flows :: "(string, flow_record) dict"
  rr_usage :: usage
  rr_error :: "failure option"
  rr_transitions :: "transition_record list"
  rr_trace :: "(string \<times> string) option"
  rr_start :: "start_record option"

section \<open>Ledger projections\<close>

text \<open>Rounding to a multiple of a quantum and to a double, both half to even.\<close>

definition round_half_even :: "rat \<Rightarrow> int" where
  "round_half_even q =
     (let f = \<lfloor>q\<rfloor>; d = q - of_int f in
      if d < 1 / 2 then f else if d > 1 / 2 then f + 1 else if even f then f else f + 1)"

definition quantize_cost :: "rat \<Rightarrow> rat" where
  "quantize_cost a = of_int (round_half_even (a * 1000000)) / 1000000"

definition scale2 :: "int \<Rightarrow> rat \<Rightarrow> rat" where
  "scale2 k q = (if 0 \<le> k then q * 2 ^ nat k else q / 2 ^ nat (- k))"

definition exponent2 :: "rat \<Rightarrow> int" where
  "exponent2 q =
     (let (a, b) = quotient_of \<bar>q\<bar>; e = bitlen a - bitlen b in
      if scale2 (- e) \<bar>q\<bar> < 1 then e - 1 else e)"

definition nearest_double :: "rat \<Rightarrow> rat" where
  "nearest_double q = (if q = 0 then 0
     else let k = 52 - exponent2 q in scale2 (- k) (of_int (round_half_even (scale2 k q))))"

definition cost_value :: "cost \<Rightarrow> jobj" where
  "cost_value c =
     [(''cost'', (case co_amount c of
         Some a \<Rightarrow> JFloat (Fin (nearest_double (quantize_cost a))) | None \<Rightarrow> JNull)),
      (''cost_complete'', JBool (co_amount c \<noteq> None)),
      (''currency'', JStr (co_currency c))]
     @ entry_opt ''reference_model'' JStr (co_reference c)"

definition count_json :: "int option \<Rightarrow> json" where
  "count_json x = (case x of Some i \<Rightarrow> JInt i | None \<Rightarrow> JNull)"

definition model_usage_value :: "model_usage \<Rightarrow> json" where
  "model_usage_value m =
     JObj ([(''requests'', JInt (of_nat (mu_requests m))),
            (''input_tokens'', count_json (tu_input (mu_tokens m))),
            (''cached_input_tokens'', count_json (tu_cache_read (mu_tokens m))),
            (''output_tokens'', count_json (tu_output (mu_tokens m))),
            (''reasoning_tokens'', count_json (tu_reasoning (mu_tokens m)))]
       @ (case mu_cost m of Some c \<Rightarrow> cost_value c | None \<Rightarrow> []))"

definition usage_value :: "usage \<Rightarrow> json" where
  "usage_value u =
     JObj ([(''model_requests'', JInt (of_nat (us_model_requests u))),
            (''tool_calls'', JInt (of_nat (us_tool_calls u))),
            (''output_retries'', JInt (of_nat (us_output_retries u))),
            (''input_tokens'', count_json (tu_input (us_tokens u))),
            (''output_tokens'', count_json (tu_output (us_tokens u))),
            (''cache_read_input_tokens'', count_json (tu_cache_read (us_tokens u))),
            (''cache_write_input_tokens'', count_json (tu_cache_write (us_tokens u))),
            (''reasoning_output_tokens'', count_json (tu_reasoning (us_tokens u)))]
       @ (case usage_cost u of Some c \<Rightarrow> cost_value c | None \<Rightarrow> [])
       @ entry_if (us_by_model u \<noteq> []) ''by_model''
           (JObj (dict_of (map (\<lambda>(m, v). (m, model_usage_value v)) (us_by_model u)) [])))"

text \<open>\<^verbatim>\<open>_record_value\<close>: the fields step and flow records share.\<close>

definition record_value ::
  "status \<Rightarrow> json \<Rightarrow> bool \<Rightarrow> usage option \<Rightarrow> rat option \<Rightarrow> failure option \<Rightarrow> (exn, jobj) result" where
  "record_value st result has_result us elapsed error =
     (if \<not> has_result \<and> result \<noteq> JNull then raise_code INVALID_OUTPUT
      else Inr ([(''status'', JStr (status_text st))]
        @ entry_if has_result ''result'' result
        @ entry_opt ''usage'' usage_value us
        @ entry_opt ''elapsed_seconds'' (\<lambda>t. JFloat (Fin t)) elapsed
        @ entry_opt ''error'' (\<lambda>f. JObj (failure_json f)) error))"

definition step_record_value :: "step_record \<Rightarrow> (exn, json) result" where
  "step_record_value r =
     mapR (\<lambda>v. JObj (v
         @ entry_opt ''selection'' selection_json (sp_selection r)
         @ entry_opt ''partial_result'' JObj (sp_partial r)
         @ entry_if (sp_collection r) ''kind'' (JStr ''flow_collection'')))
       (record_value (sp_status r) (sp_result r) (sp_has_result r) (sp_usage r) (sp_elapsed r)
         (sp_error r))"

fun steps_value :: "jobj \<Rightarrow> (string \<times> step_record) list \<Rightarrow> (exn, jobj) result" where
  "steps_value acc [] = Inr acc"
| "steps_value acc ((name, r) # rest) =
     (if name \<in> set (keys acc) then raise_code INVALID_OUTPUT
      else bindE (step_record_value r) (\<lambda>v. steps_value (put name v acc) rest))"

definition flow_value :: "flow_record \<Rightarrow> (exn, jobj) result" where
  "flow_value r =
     bindE (record_value (fr_status r) (fr_result r) (fr_has_result r) (fr_usage r) (fr_elapsed r)
         (fr_error r)) (\<lambda>v.
       mapR (\<lambda>steps. v @ [(''steps'', JObj steps)]) (steps_value [] (fr_steps r)))"

fun attempt_values :: "nat \<Rightarrow> flow_record list \<Rightarrow> (exn, json list) result" where
  "attempt_values i [] = Inr []"
| "attempt_values i (a # as) =
     bindE (flow_value a) (\<lambda>v.
       mapR (\<lambda>vs. JObj ((''attempt'', JInt (of_nat i)) # v) # vs) (attempt_values (Suc i) as))"

definition flow_record_value :: "flow_record \<Rightarrow> (exn, jobj) result" where
  "flow_record_value r =
     bindE (flow_value r) (\<lambda>v.
       mapR (\<lambda>attempts. v @ [(''attempt_count'', JInt (of_nat (attempt_count r)))] @ attempts
           @ entry_opt ''repeat'' (\<lambda>s. JObj [(''stopped_by'', JStr (stop_text s))]) (fr_stopped_by r))
         (if fr_attempts r = [] then Inr []
          else mapR (\<lambda>vs. [(''attempts'', JArr vs)]
              @ entry_opt ''attempts_usage'' usage_value (total_usage r)
              @ entry_opt ''attempts_elapsed_seconds'' (\<lambda>t. JFloat (Fin t)) (total_elapsed r))
            (attempt_values 1 (fr_attempts r))))"

section \<open>Facts\<close>

text \<open>A failure never carries an unsafe location or constraint.\<close>

lemma Failure_safe:
  "safe_location (fa_location (Failure c r w l k)) = fa_location (Failure c r w l k)"
  "safe_constraint (fa_constraint (Failure c r w l k)) = fa_constraint (Failure c r w l k)"
  by (simp_all add: Failure_def safe_location_def safe_constraint_def)

lemma Failure_simps [simp]:
  "fa_code (Failure c r w l k) = c" "fa_retryable (Failure c r w l k) = r"
  by (simp_all add: Failure_def)

lemma with_attempts_simps [simp]:
  "fr_status (with_attempts r as) = fr_status r" "fr_steps (with_attempts r as) = fr_steps r"
  "fr_result (with_attempts r as) = fr_result r" "fr_has_result (with_attempts r as) = fr_has_result r"
  "fr_usage (with_attempts r as) = fr_usage r" "fr_elapsed (with_attempts r as) = fr_elapsed r"
  "fr_error (with_attempts r as) = fr_error r" "fr_attempts (with_attempts r as) = as"
  "fr_stopped_by (with_attempts r as) = fr_stopped_by r"
  by (simp_all add: with_attempts_def)

lemma with_stop_simps [simp]:
  "fr_status (with_stop r st as stop) = st" "fr_steps (with_stop r st as stop) = fr_steps r"
  "fr_result (with_stop r st as stop) = fr_result r" "fr_has_result (with_stop r st as stop) = fr_has_result r"
  "fr_usage (with_stop r st as stop) = fr_usage r" "fr_elapsed (with_stop r st as stop) = fr_elapsed r"
  "fr_error (with_stop r st as stop) = fr_error r" "fr_attempts (with_stop r st as stop) = as"
  "fr_stopped_by (with_stop r st as stop) = stop"
  by (simp_all add: with_stop_def)

text \<open>A consistent record has a result only if it says so, and no step twice.\<close>

definition step_record_ok :: "step_record \<Rightarrow> bool" where
  "step_record_ok r \<longleftrightarrow> (sp_has_result r \<or> sp_result r = JNull)"

definition flow_record_ok :: "flow_record \<Rightarrow> bool" where
  "flow_record_ok r \<longleftrightarrow> (fr_has_result r \<or> fr_result r = JNull) \<and> dict_wf (fr_steps r) \<and>
     list_all (\<lambda>p. step_record_ok (snd p)) (fr_steps r)"

lemma step_record_value_ok: "step_record_ok r \<Longrightarrow> \<exists>v. step_record_value r = Inr v"
  by (auto simp: step_record_value_def record_value_def step_record_ok_def)

lemma steps_value_ok:
  "dict_wf (acc @ map (\<lambda>p. (fst p, JNull)) rs) \<Longrightarrow> list_all (\<lambda>p. step_record_ok (snd p)) rs \<Longrightarrow>
     \<exists>v. steps_value acc rs = Inr v \<and> keys v = keys acc @ keys rs"
proof (induction rs arbitrary: acc)
  case (Cons p rs)
  obtain n r where p: "p = (n, r)" by fastforce
  from Cons.prems(2) obtain v where v: "step_record_value r = Inr v"
    using step_record_value_ok by (auto simp: p)
  from Cons.prems(1) have n: "n \<notin> set (keys acc)" by (auto simp: p)
  with Cons.prems have "dict_wf (put n v acc @ map (\<lambda>p. (fst p, JNull)) rs)"
    by (auto simp: put_new p)
  from Cons.IH [OF this] Cons.prems(2) n v show ?case by (auto simp: p put_new)
qed simp

lemma flow_value_ok:
  assumes "flow_record_ok r"
  shows "\<exists>v steps. flow_value r = Inr (v @ [(''steps'', JObj steps)]) \<and> keys steps = keys (fr_steps r)"
proof -
  from assms obtain v where
    v: "record_value (fr_status r) (fr_result r) (fr_has_result r) (fr_usage r) (fr_elapsed r)
      (fr_error r) = Inr v"
    by (auto simp: record_value_def flow_record_ok_def)
  from assms have "dict_wf ([] @ map (\<lambda>p. (fst p, JNull)) (fr_steps r))"
    by (simp add: flow_record_ok_def comp_def)
  from steps_value_ok [OF this] assms v show ?thesis
    by (auto simp: flow_value_def flow_record_ok_def)
qed

lemma attempt_values_ok:
  "list_all flow_record_ok as \<Longrightarrow> \<exists>vs. attempt_values i as = Inr vs \<and> length vs = length as"
proof (induction as arbitrary: i)
  case (Cons a as)
  then obtain v vs where "flow_value a = Inr v" "attempt_values (Suc i) as = Inr vs"
    "length vs = length as"
    using flow_value_ok [of a] by fastforce
  then show ?case by simp
qed simp

lemma flow_record_value_ok:
  assumes "flow_record_ok r" "list_all flow_record_ok (fr_attempts r)"
  shows "\<exists>v. flow_record_value r = Inr v"
proof -
  from flow_value_ok [OF assms(1)] obtain v where v: "flow_value r = Inr v" by blast
  from attempt_values_ok [OF assms(2)] obtain vs where "attempt_values 1 (fr_attempts r) = Inr vs"
    by blast
  with v show ?thesis by (simp add: flow_record_value_def)
qed

lemma round_half_even_close: "\<bar>of_int (round_half_even q) - q\<bar> \<le> 1 / 2"
proof -
  define f where "f = \<lfloor>q\<rfloor>"
  have f: "of_int f \<le> q" "q < of_int f + 1" unfolding f_def by linarith+
  consider "round_half_even q = f" "q - of_int f \<le> 1 / 2"
    | "round_half_even q = f + 1" "q - of_int f \<ge> 1 / 2"
    unfolding round_half_even_def Let_def f_def [symmetric]
    by (cases "q - of_int f" "1 / 2 :: rat" rule: linorder_cases; cases "even f") auto
  then show ?thesis
  proof cases
    case 1
    with f show ?thesis unfolding 1(1) by linarith
  next
    case 2
    with f show ?thesis unfolding 2(1) of_int_add of_int_1 by linarith
  qed
qed

lemma quantize_cost_close: "\<bar>quantize_cost a - a\<bar> \<le> 1 / 2000000"
proof -
  have "1000000 * \<bar>quantize_cost a - a\<bar> = \<bar>of_int (round_half_even (a * 1000000)) - a * 1000000\<bar>"
    unfolding quantize_cost_def by (simp add: abs_if field_simps)
  with round_half_even_close [of "a * 1000000"] show ?thesis by simp
qed

text \<open>Totals of records.\<close>

lemma add_usage_model_requests:
  "us_model_requests (foldl add_usage t us) =
     us_model_requests t + sum_list (map (\<lambda>u. case u of Some v \<Rightarrow> us_model_requests v | None \<Rightarrow> 0) us)"
proof (induction us arbitrary: t)
  case (Cons u us)
  then show ?case by (cases u) simp_all
qed simp

lemma add_usage_ok: "usage_ok t \<Longrightarrow> list_all (pred_option usage_ok) us \<Longrightarrow> usage_ok (foldl add_usage t us)"
proof (induction us arbitrary: t)
  case (Cons u us)
  then show ?case by (cases u) (simp_all add: usage_totals.ok_plus)
qed simp

section \<open>Properties\<close>

text \<open>
  Quantizing a cost for the ledger moves it by at most half a millionth.
\<close>

theorem quantized_cost_bound: "\<bar>quantize_cost a - a\<bar> \<le> 1 / 2000000"
  by (rule quantize_cost_close)

end
