(* ===== verification/Admission.thy ===== *)
theory Admission imports Errors begin

text \<open>
  \<^verbatim>\<open>core/admission.py\<close>: the capacity limiter, with the \<^verbatim>\<open>asyncio.Semaphore\<close> it uses
  (a permit count and a FIFO queue of waiters, each marked once its permit was handed over).
  Every task that runs \<^verbatim>\<open>slot\<close> takes atomic steps between two suspensions; the step relation
  interleaves the steps of all tasks. Times are exact rationals; an infinite deadline is
  \<^term>\<open>None\<close>.
\<close>

section \<open>State\<close>

record limiter =
  lm_concurrency :: nat
  lm_value :: nat
  lm_queue :: "(nat \<times> bool) list"
  lm_maximum :: nat
  lm_admitted :: int
  lm_active :: int
  lm_running :: "nat list"

text \<open>\<^verbatim>\<open>CapacityLimiter.__init__\<close>; the two arguments are integers here.\<close>

definition CapacityLimiter :: "int \<Rightarrow> int \<Rightarrow> limiter option" where
  "CapacityLimiter concurrency queue_limit =
     (if concurrency < 1 \<or> queue_limit < 0 then None
      else Some \<lparr>lm_concurrency = nat concurrency, lm_value = nat concurrency, lm_queue = [],
        lm_maximum = nat (concurrency + queue_limit), lm_admitted = 0, lm_active = 0,
        lm_running = []\<rparr>)"

definition lm_waiting :: "limiter \<Rightarrow> int" where
  "lm_waiting l = lm_admitted l - lm_active l"

section \<open>The semaphore\<close>

text \<open>\<^verbatim>\<open>_wake_up_next\<close>: hand one permit to the first waiter without one.\<close>

fun wake_next :: "nat \<Rightarrow> (nat \<times> bool) list \<Rightarrow> nat \<times> (nat \<times> bool) list" where
  "wake_next v [] = (v, [])"
| "wake_next v ((t, g) # q) =
     (if g then (let (v', q') = wake_next v q in (v', (t, g) # q')) else (v - 1, (t, True) # q))"

text \<open>The \<^verbatim>\<open>while\<close> loop at the end of \<^verbatim>\<open>acquire\<close>: permits and waiters, in queue order.\<close>

fun wake_all :: "nat \<Rightarrow> (nat \<times> bool) list \<Rightarrow> nat \<times> (nat \<times> bool) list" where
  "wake_all v [] = (v, [])"
| "wake_all v ((t, g) # q) =
     (if \<not> g \<and> 0 < v then (let (v', q') = wake_all (v - 1) q in (v', (t, True) # q'))
      else (let (v', q') = wake_all v q in (v', (t, g) # q')))"

definition sem_release :: "limiter \<Rightarrow> limiter" where
  "sem_release l = (let (v, q) = wake_next (lm_value l + 1) (lm_queue l)
     in l\<lparr>lm_value := v, lm_queue := q\<rparr>)"

definition sem_wake_all :: "limiter \<Rightarrow> limiter" where
  "sem_wake_all l = (let (v, q) = wake_all (lm_value l) (lm_queue l)
     in l\<lparr>lm_value := v, lm_queue := q\<rparr>)"

definition drop_waiter :: "nat \<Rightarrow> limiter \<Rightarrow> limiter" where
  "drop_waiter t l = l\<lparr>lm_queue := filter (\<lambda>p. fst p \<noteq> t) (lm_queue l)\<rparr>"

section \<open>The slot context manager\<close>

text \<open>What one atomic part of \<^verbatim>\<open>slot\<close> ends with.\<close>

datatype slot_result = SlotFailed exn | SlotWaiting | SlotEntered

abbreviation slot_error :: "error_code \<Rightarrow> bool \<Rightarrow> slot_result" where
  "slot_error c r \<equiv> SlotFailed (ServiceErr (ServiceError c r None None None))"

text \<open>The \<^verbatim>\<open>finally\<close> block, with and without the semaphore held.\<close>

definition slot_finish :: "nat \<Rightarrow> limiter \<Rightarrow> limiter" where
  "slot_finish t l =
     (let l' = sem_release (l\<lparr>lm_active := lm_active l - 1, lm_running := remove1 t (lm_running l)\<rparr>)
      in l'\<lparr>lm_admitted := lm_admitted l' - 1\<rparr>)"

definition slot_abandon :: "limiter \<Rightarrow> limiter" where
  "slot_abandon l = l\<lparr>lm_admitted := lm_admitted l - 1\<rparr>"

text \<open>After the semaphore was acquired: count the task, recheck the deadline, start the body.\<close>

definition slot_acquired :: "nat \<Rightarrow> rat \<Rightarrow> rat \<Rightarrow> error_code \<Rightarrow> limiter \<Rightarrow> slot_result \<times> limiter" where
  "slot_acquired t deadline now timeout l =
     (let l' = l\<lparr>lm_active := lm_active l + 1, lm_running := lm_running l @ [t]\<rparr> in
      if deadline \<le> now then (slot_error timeout False, slot_finish t l')
      else (SlotEntered, l'))"

text \<open>
  From the call to the first suspension: \<^verbatim>\<open>now\<close> is the clock at the first check and
  \<^verbatim>\<open>now'\<close> the one at the recheck. The semaphore's fast path needs a free permit and no
  waiter at all.
\<close>

definition slot_enter ::
  "nat \<Rightarrow> rat option \<Rightarrow> rat \<Rightarrow> rat \<Rightarrow> error_code \<Rightarrow> limiter \<Rightarrow> slot_result \<times> limiter" where
  "slot_enter t deadline now now' timeout l =
     (case deadline of
        None \<Rightarrow> (slot_error timeout False, l)
      | Some d \<Rightarrow>
          if d \<le> now then (slot_error timeout False, l)
          else if int (lm_maximum l) \<le> lm_admitted l then (slot_error CAPACITY_EXCEEDED True, l)
          else let l' = l\<lparr>lm_admitted := lm_admitted l + 1\<rparr> in
            if lm_value l' = 0 \<or> lm_queue l' \<noteq> []
            then (SlotWaiting, l'\<lparr>lm_queue := lm_queue l' @ [(t, False)]\<rparr>)
            else slot_acquired t d now' timeout (l'\<lparr>lm_value := lm_value l' - 1\<rparr>))"

text \<open>A waiter that was handed its permit runs again.\<close>

definition slot_resume :: "nat \<Rightarrow> rat \<Rightarrow> rat \<Rightarrow> error_code \<Rightarrow> limiter \<Rightarrow> slot_result \<times> limiter" where
  "slot_resume t deadline now timeout l =
     slot_acquired t deadline now timeout (sem_wake_all (drop_waiter t l))"

text \<open>
  A waiter whose deadline passes (\<^verbatim>\<open>TimeoutError\<close>) or whose task is cancelled: it leaves the
  queue, and a permit it already held is handed on.
\<close>

definition slot_interrupt :: "nat \<Rightarrow> bool \<Rightarrow> limiter \<Rightarrow> limiter" where
  "slot_interrupt t granted l =
     (let l' = drop_waiter t l in
      slot_abandon (sem_wake_all (if granted then l'\<lparr>lm_value := lm_value l' + 1\<rparr> else l')))"

section \<open>Interleavings\<close>

text \<open>
  One atomic step of some task. Interruption covers the timeout (the result is the
  \<^verbatim>\<open>timeout\<close> failure) and cancellation (the cancellation propagates); leaving covers the
  body's return, its exceptions and its cancellation.
\<close>

inductive lm_step :: "limiter \<Rightarrow> limiter \<Rightarrow> bool" where
  enter: "\<lbrakk>t \<notin> fst ` set (lm_queue l); t \<notin> set (lm_running l);
    slot_enter t d now now' c l = (r, l')\<rbrakk> \<Longrightarrow> lm_step l l'"
| resume: "\<lbrakk>(t, True) \<in> set (lm_queue l); slot_resume t d now c l = (r, l')\<rbrakk> \<Longrightarrow> lm_step l l'"
| interrupt: "(t, g) \<in> set (lm_queue l) \<Longrightarrow> lm_step l (slot_interrupt t g l)"
| leave: "t \<in> set (lm_running l) \<Longrightarrow> lm_step l (slot_finish t l)"

inductive_cases lm_stepE: "lm_step l l'"

inductive lm_reachable :: "limiter \<Rightarrow> limiter \<Rightarrow> bool" for l where
  refl: "lm_reachable l l"
| step: "\<lbrakk>lm_reachable l m; lm_step m n\<rbrakk> \<Longrightarrow> lm_reachable l n"

text \<open>Permits held: waiters that were handed one and tasks in the body.\<close>

definition granted :: "(nat \<times> bool) list \<Rightarrow> nat" where
  "granted q = length (filter snd q)"

text \<open>
  The counters agree with the tasks, permits are conserved, admission is bounded, and
  waiters queue behind a free permit only while one of them was already handed a permit
  (its run of \<^term>\<open>wake_all\<close> is then still to come).
\<close>

definition limiter_inv :: "limiter \<Rightarrow> bool" where
  "limiter_inv l \<longleftrightarrow>
     distinct (map fst (lm_queue l) @ lm_running l) \<and>
     lm_value l + granted (lm_queue l) + length (lm_running l) = lm_concurrency l \<and>
     lm_active l = int (length (lm_running l)) \<and>
     lm_admitted l = int (length (lm_queue l) + length (lm_running l)) \<and>
     lm_admitted l \<le> int (lm_maximum l) \<and>
     (lm_value l = 0 \<or> lm_queue l = [] \<or> 0 < granted (lm_queue l))"

section \<open>Facts\<close>

lemma granted_simps [simp]:
  "granted [] = 0" "granted ((t, g) # q) = (if g then 1 else 0) + granted q"
  "granted (q @ q') = granted q + granted q'"
  by (simp_all add: granted_def)

lemma granted_all: "list_all snd q \<Longrightarrow> granted q = length q"
  by (simp add: granted_def list_all_iff)

lemma wake_next_facts:
  "0 < v \<Longrightarrow> (case wake_next v q of (v', q') \<Rightarrow>
     map fst q' = map fst q \<and> v' + granted q' = v + granted q \<and> (q' = [] \<or> 0 < granted q'))"
proof (induction v q rule: wake_next.induct)
  case (2 v t g q)
  then show ?case by (cases "wake_next v q") auto
qed simp

lemma wake_all_facts:
  "case wake_all v q of (v', q') \<Rightarrow>
     map fst q' = map fst q \<and> v' + granted q' = v + granted q \<and> v' \<le> v \<and> (v' = 0 \<or> list_all snd q')"
proof (induction v q rule: wake_all.induct)
  case (2 v t g q)
  then show ?case
    by (cases "wake_all v q"; cases "wake_all (v - 1) q") auto
qed simp

lemma granted_drop:
  "distinct (map fst q) \<Longrightarrow> (t, g) \<in> set q \<Longrightarrow>
     granted (filter (\<lambda>p. fst p \<noteq> t) q) + (if g then 1 else 0) = granted q \<and>
     Suc (length (filter (\<lambda>p. fst p \<noteq> t) q)) = length q"
proof (induction q)
  case (Cons p q)
  obtain u h where p: "p = (u, h)" by fastforce
  show ?case
  proof (cases "u = t")
    case True
    with Cons.prems have "filter (\<lambda>p. fst p \<noteq> t) q = q" "g = h"
      by (force simp: filter_id_conv p)+
    with True show ?thesis by (simp add: p)
  next
    case False
    with Cons show ?thesis by (auto simp: p)
  qed
qed simp

text \<open>Each atomic part preserves the invariant; the semaphore's parts are shared.\<close>

lemma sem_release_inv:
  assumes "distinct (map fst (lm_queue l) @ lm_running l)"
    and "lm_value l + 1 + granted (lm_queue l) + length (lm_running l) = lm_concurrency l"
    and "lm_active l = int (length (lm_running l))"
    and "lm_admitted l = int (length (lm_queue l) + length (lm_running l)) + 1"
    and "lm_admitted l \<le> int (lm_maximum l)"
  shows "limiter_inv (slot_abandon (sem_release l))"
proof -
  obtain v q where w: "wake_next (lm_value l + 1) (lm_queue l) = (v, q)" by fastforce
  with wake_next_facts [where v = "lm_value l + 1" and q = "lm_queue l"]
  have f: "map fst q = map fst (lm_queue l)" "v + granted q = lm_value l + 1 + granted (lm_queue l)"
    "q = [] \<or> 0 < granted q" by simp_all
  have n: "length q = length (lm_queue l)" using f(1) by (rule map_eq_imp_length_eq)
  have e: "sem_release l = l\<lparr>lm_value := v, lm_queue := q\<rparr>"
    unfolding sem_release_def w by simp
  show ?thesis
    using f assms unfolding limiter_inv_def slot_abandon_def e by (auto simp: n)
qed

lemma slot_finish_eq:
  "slot_finish t l =
     slot_abandon (sem_release (l\<lparr>lm_active := lm_active l - 1, lm_running := remove1 t (lm_running l)\<rparr>))"
  by (simp add: slot_finish_def slot_abandon_def Let_def)

lemma slot_finish_inv: "limiter_inv l \<Longrightarrow> t \<in> set (lm_running l) \<Longrightarrow> limiter_inv (slot_finish t l)"
proof -
  assume i: "limiter_inv l" and t: "t \<in> set (lm_running l)"
  then have n: "length (lm_running l) = Suc (length (remove1 t (lm_running l)))"
    by (metis One_nat_def Suc_pred length_pos_if_in_set length_remove1)
  with i show ?thesis
    unfolding slot_finish_eq
    by (intro sem_release_inv) (auto simp: limiter_inv_def distinct_remove1 dest: notin_set_remove1)
qed

text \<open>A task that holds a permit enters the body, or fails and gives everything back.\<close>

lemma slot_acquired_inv:
  assumes "distinct (t # map fst (lm_queue l) @ lm_running l)"
    and "Suc (lm_value l + granted (lm_queue l) + length (lm_running l)) = lm_concurrency l"
    and "lm_active l = int (length (lm_running l))"
    and "lm_admitted l = int (length (lm_queue l) + length (lm_running l)) + 1"
    and "lm_admitted l \<le> int (lm_maximum l)"
    and "lm_value l = 0 \<or> lm_queue l = [] \<or> 0 < granted (lm_queue l)"
    and "slot_acquired t d now c l = (r, l')"
  shows "limiter_inv l'"
proof -
  let ?m = "l\<lparr>lm_active := lm_active l + 1, lm_running := lm_running l @ [t]\<rparr>"
  have "limiter_inv ?m" using assms(1-6) by (auto simp: limiter_inv_def)
  moreover from this have "limiter_inv (slot_finish t ?m)" by (rule slot_finish_inv) simp
  ultimately show ?thesis using assms(7) by (auto simp: slot_acquired_def Let_def split: if_splits)
qed

lemma slot_enter_inv:
  assumes "limiter_inv l" "t \<notin> fst ` set (lm_queue l)" "t \<notin> set (lm_running l)"
    and "slot_enter t d now now' c l = (r, l')"
  shows "limiter_inv l'"
proof (cases d)
  case None
  with assms show ?thesis by (simp add: slot_enter_def)
next
  case (Some x)
  let ?l = "l\<lparr>lm_admitted := lm_admitted l + 1\<rparr>"
  show ?thesis
  proof (cases "x \<le> now \<or> int (lm_maximum l) \<le> lm_admitted l")
    case True
    with assms(1,4) show ?thesis by (simp add: slot_enter_def Some split: if_splits)
  next
    case free: False
    show ?thesis
    proof (cases "lm_value l = 0 \<or> lm_queue l \<noteq> []")
      case True
      with free assms(4) have "l' = ?l\<lparr>lm_queue := lm_queue l @ [(t, False)]\<rparr>"
        by (simp add: slot_enter_def Some Let_def)
      with True free assms(1-3) show ?thesis by (auto simp: limiter_inv_def)
    next
      case False
      with free assms(4)
      have a: "slot_acquired t x now' c (?l\<lparr>lm_value := lm_value l - 1\<rparr>) = (r, l')"
        by (simp add: slot_enter_def Some Let_def)
      from False obtain v where "lm_value l = Suc v" by (cases "lm_value l") auto
      with False free assms(1-3) show ?thesis
        by (intro slot_acquired_inv [OF _ _ _ _ _ _ a]) (auto simp: limiter_inv_def)
    qed
  qed
qed

text \<open>A waiter that leaves the queue: its own permit is accounted for by the caller.\<close>

lemma drop_wake_facts:
  assumes "limiter_inv l" "(t, g) \<in> set (lm_queue l)"
    and "l1 = sem_wake_all ((drop_waiter t l)\<lparr>lm_value := lm_value l + k\<rparr>)"
  shows "distinct (t # map fst (lm_queue l1) @ lm_running l1)"
    "lm_value l1 + granted (lm_queue l1) + (if g then 1 else 0) + length (lm_running l1)
       = lm_concurrency l1 + k"
    "lm_active l1 = int (length (lm_running l1))"
    "lm_admitted l1 = int (length (lm_queue l1) + length (lm_running l1)) + 1"
    "lm_admitted l1 \<le> int (lm_maximum l1)"
    "lm_value l1 = 0 \<or> lm_queue l1 = [] \<or> 0 < granted (lm_queue l1)"
proof -
  let ?q = "filter (\<lambda>p. fst p \<noteq> t) (lm_queue l)"
  obtain v q where w: "wake_all (lm_value l + k) ?q = (v, q)" by fastforce
  with wake_all_facts [where v = "lm_value l + k" and q = ?q]
  have f: "map fst q = map fst ?q" "v + granted q = lm_value l + k + granted ?q"
    "v = 0 \<or> list_all snd q" by simp_all
  have n: "length q = length ?q" using f(1) by (rule map_eq_imp_length_eq)
  have d: "distinct (map fst (lm_queue l))" using assms(1) by (simp add: limiter_inv_def)
  note g = granted_drop [OF d assms(2)]
  have l1: "l1 = l\<lparr>lm_value := v, lm_queue := q\<rparr>"
    unfolding assms(3) sem_wake_all_def drop_waiter_def by (simp add: w)
  have t: "t \<notin> set (lm_running l)" using assms(1,2) by (force simp: limiter_inv_def)
  have "distinct (map fst ?q)" using d by (rule distinct_map_filter)
  with t assms(1) show "distinct (t # map fst (lm_queue l1) @ lm_running l1)"
    unfolding l1 by (auto simp: f(1) limiter_inv_def)
  show "lm_value l1 + granted (lm_queue l1) + (if g then 1 else 0) + length (lm_running l1)
       = lm_concurrency l1 + k"
    using f(2) g assms(1) unfolding l1 limiter_inv_def by (auto split: if_splits)
  show "lm_active l1 = int (length (lm_running l1))"
    "lm_admitted l1 = int (length (lm_queue l1) + length (lm_running l1)) + 1"
    "lm_admitted l1 \<le> int (lm_maximum l1)"
    using assms(1) g unfolding l1 limiter_inv_def by (auto simp: n)
  show "lm_value l1 = 0 \<or> lm_queue l1 = [] \<or> 0 < granted (lm_queue l1)"
    using f(3) granted_all [of q] unfolding l1 by auto
qed

lemma slot_resume_inv:
  assumes "limiter_inv l" "(t, True) \<in> set (lm_queue l)" "slot_resume t d now c l = (r, l')"
  shows "limiter_inv l'"
proof -
  let ?m = "sem_wake_all (drop_waiter t l)"
  have "?m = sem_wake_all ((drop_waiter t l)\<lparr>lm_value := lm_value l + 0\<rparr>)"
    by (simp add: drop_waiter_def)
  note f = drop_wake_facts [OF assms(1,2) this]
  show ?thesis
    using f(2) by (intro slot_acquired_inv [OF f(1) _ f(3-6) assms(3) [unfolded slot_resume_def]]) simp
qed

lemma slot_interrupt_inv:
  assumes "limiter_inv l" "(t, g) \<in> set (lm_queue l)"
  shows "limiter_inv (slot_interrupt t g l)"
proof -
  let ?k = "if g then 1 else 0 :: nat"
  define m where "m = sem_wake_all ((drop_waiter t l)\<lparr>lm_value := lm_value l + ?k\<rparr>)"
  have "slot_interrupt t g l = slot_abandon m"
    by (simp add: slot_interrupt_def m_def Let_def drop_waiter_def)
  then show ?thesis
    using drop_wake_facts [OF assms m_def] unfolding limiter_inv_def slot_abandon_def by auto
qed

lemma lm_step_inv: "lm_step l l' \<Longrightarrow> limiter_inv l \<Longrightarrow> limiter_inv l'"
  by (erule lm_stepE) (auto intro: slot_enter_inv slot_resume_inv slot_interrupt_inv slot_finish_inv)

lemma CapacityLimiter_inv: "CapacityLimiter c q = Some l \<Longrightarrow> limiter_inv l"
  by (auto simp: CapacityLimiter_def limiter_inv_def split: if_splits)

lemma lm_reachable_inv: "lm_reachable l l' \<Longrightarrow> limiter_inv l \<Longrightarrow> limiter_inv l'"
  by (induction rule: lm_reachable.induct) (auto intro: lm_step_inv)

lemma sem_constants [simp]:
  "lm_concurrency (sem_release l) = lm_concurrency l" "lm_maximum (sem_release l) = lm_maximum l"
  "lm_concurrency (sem_wake_all l) = lm_concurrency l" "lm_maximum (sem_wake_all l) = lm_maximum l"
  by (simp_all add: sem_release_def sem_wake_all_def split: prod.split)

lemma slot_constants:
  "lm_concurrency (slot_finish t l) = lm_concurrency l \<and> lm_maximum (slot_finish t l) = lm_maximum l"
  "lm_concurrency (slot_interrupt t g l) = lm_concurrency l \<and>
     lm_maximum (slot_interrupt t g l) = lm_maximum l"
  by (simp_all add: slot_finish_eq slot_abandon_def slot_interrupt_def drop_waiter_def Let_def)

lemma slot_acquired_constants:
  "slot_acquired t d now c l = (r, l') \<Longrightarrow>
     lm_concurrency l' = lm_concurrency l \<and> lm_maximum l' = lm_maximum l"
  by (auto simp: slot_acquired_def Let_def slot_constants split: if_splits)

lemma lm_step_constants:
  "lm_step l l' \<Longrightarrow> lm_concurrency l' = lm_concurrency l \<and> lm_maximum l' = lm_maximum l"
proof (erule lm_stepE)
  fix t d now now' c r
  assume "slot_enter t d now now' c l = (r, l')"
  then show ?thesis
    by (auto simp: slot_enter_def Let_def split: option.splits if_splits dest: slot_acquired_constants)
next
  fix t d now c r
  assume "slot_resume t d now c l = (r, l')"
  then show ?thesis
    unfolding slot_resume_def by (auto dest!: slot_acquired_constants simp: drop_waiter_def)
qed (simp_all add: slot_constants)

lemma lm_reachable_constants:
  "lm_reachable l l' \<Longrightarrow> lm_concurrency l' = lm_concurrency l \<and> lm_maximum l' = lm_maximum l"
  by (induction rule: lm_reachable.induct) (auto dest: lm_step_constants)

text \<open>Whenever a task waits, some task can move: one that holds a permit.\<close>

lemma limiter_progress:
  assumes "limiter_inv l" "lm_queue l \<noteq> []" "0 < lm_concurrency l"
  shows "lm_running l \<noteq> [] \<or> (\<exists>t. (t, True) \<in> set (lm_queue l))"
proof (cases "granted (lm_queue l) = 0")
  case True
  with assms show ?thesis by (auto simp: limiter_inv_def)
next
  case False
  then obtain p where "p \<in> set (lm_queue l)" "snd p"
    unfolding granted_def by (metis filter_False list.size(3))
  then show ?thesis by (metis prod.collapse)
qed

section \<open>Properties\<close>

text \<open>
  C29: In every interleaving of tasks entering, waiting, timing out, being cancelled and
  leaving, at most the configured number of tasks run, at most that plus the queue limit
  are admitted, the counters agree with the tasks, and no permit is lost.
\<close>

theorem limiter_safe:
  assumes "CapacityLimiter c q = Some l" "lm_reachable l l'"
  shows "int (length (lm_running l')) \<le> c \<and> lm_admitted l' \<le> c + q \<and>
    lm_admitted l' = int (length (lm_queue l') + length (lm_running l')) \<and>
    lm_waiting l' = int (length (lm_queue l')) \<and>
    int (lm_value l' + granted (lm_queue l') + length (lm_running l')) = c"
proof -
  have "limiter_inv l'" using lm_reachable_inv [OF assms(2) CapacityLimiter_inv [OF assms(1)]] .
  moreover have "int (lm_concurrency l') = c" "int (lm_maximum l') = c + q"
    using assms(1) lm_reachable_constants [OF assms(2)] by (auto simp: CapacityLimiter_def split: if_splits)
  ultimately show ?thesis by (auto simp: limiter_inv_def lm_waiting_def)
qed

text \<open>A limiter with one permit and one queue place: a task runs and another one waits.\<close>

definition busy_limiter :: limiter where
  "busy_limiter = snd (slot_enter 8 (Some 9) 0 0 REQUEST_TIMEOUT
     (snd (slot_enter 7 (Some 9) 0 0 REQUEST_TIMEOUT (the (CapacityLimiter 1 1)))))"

lemma busy_limiter_eq:
  "busy_limiter = \<lparr>lm_concurrency = 1, lm_value = 0, lm_queue = [(8, False)], lm_maximum = 2,
     lm_admitted = 2, lm_active = 1, lm_running = [7]\<rparr>"
  by (simp add: busy_limiter_def CapacityLimiter_def slot_enter_def slot_acquired_def)

lemma busy_limiter_reachable: "lm_reachable (the (CapacityLimiter 1 1)) busy_limiter"
proof -
  let ?l = "the (CapacityLimiter 1 1)"
  let ?m = "snd (slot_enter 7 (Some 9) 0 0 REQUEST_TIMEOUT ?l)"
  have "lm_step ?l ?m"
    by (rule lm_step.enter [of 7 _ "Some 9" 0 0 REQUEST_TIMEOUT "fst (slot_enter 7 (Some 9) 0 0 REQUEST_TIMEOUT ?l)"])
      (simp_all add: CapacityLimiter_def)
  moreover have "lm_step ?m busy_limiter"
    by (rule lm_step.enter [of 8 _ "Some 9" 0 0 REQUEST_TIMEOUT "fst (slot_enter 8 (Some 9) 0 0 REQUEST_TIMEOUT ?m)"])
      (simp_all add: CapacityLimiter_def slot_enter_def slot_acquired_def busy_limiter_def)
  ultimately show ?thesis by (blast intro: lm_reachable.intros)
qed

theorem limiter_safe_witness:
  "int (length (lm_running busy_limiter)) \<le> 1 \<and> lm_admitted busy_limiter \<le> 1 + 1 \<and>
    lm_admitted busy_limiter = int (length (lm_queue busy_limiter) + length (lm_running busy_limiter)) \<and>
    lm_waiting busy_limiter = int (length (lm_queue busy_limiter)) \<and>
    int (lm_value busy_limiter + granted (lm_queue busy_limiter) + length (lm_running busy_limiter)) = 1"
  by (rule limiter_safe [OF _ busy_limiter_reachable]) (simp add: CapacityLimiter_def)

text \<open>
  C30: Nobody waits for nothing: in every reachable state with waiters, some task is
  running (its leaving hands a permit on) or a waiter already holds a permit.
\<close>

theorem limiter_never_stuck:
  assumes "CapacityLimiter c q = Some l" "lm_reachable l l'" "lm_queue l' \<noteq> []"
  shows "0 < length (lm_running l') + granted (lm_queue l')"
proof -
  have "0 < lm_concurrency l'"
    using assms(1) lm_reachable_constants [OF assms(2)] by (auto simp: CapacityLimiter_def split: if_splits)
  from limiter_progress [OF lm_reachable_inv [OF assms(2) CapacityLimiter_inv [OF assms(1)]] assms(3) this]
  show ?thesis by (fastforce simp: granted_def filter_empty_conv)
qed

theorem limiter_never_stuck_witness:
  "0 < length (lm_running busy_limiter) + granted (lm_queue busy_limiter)"
  by (rule limiter_never_stuck [of 1 1, OF _ busy_limiter_reachable])
    (simp_all add: CapacityLimiter_def busy_limiter_eq)

end
