(* ===== verification/Effects.thy ===== *)
theory Effects imports Errors begin

text \<open>
  Computations with state and exceptions, the shape every coroutine of the engine has: a
  function from the state to a result or an exception and the state it leaves (an exception
  keeps the changes made before it). With them, partial-correctness triples whose two
  postconditions cover the normal and the exceptional end, and the relations a computation
  keeps between its initial and final state.
\<close>

section \<open>Computations\<close>

type_synonym ('s, 'a) eff = "'s \<Rightarrow> (exn, 'a) result \<times> 's"

definition ret :: "'a \<Rightarrow> ('s, 'a) eff" where
  "ret a s = (Inr a, s)"

definition throw :: "exn \<Rightarrow> ('s, 'a) eff" where
  "throw e s = (Inl e, s)"

definition failM :: "error_code \<Rightarrow> ('s, 'a) eff" where
  "failM c s = (raise_code c, s)"

definition bindM :: "('s, 'a) eff \<Rightarrow> ('a \<Rightarrow> ('s, 'b) eff) \<Rightarrow> ('s, 'b) eff" where
  "bindM m f s = (case m s of (Inl e, s') \<Rightarrow> (Inl e, s') | (Inr a, s') \<Rightarrow> f a s')"

definition thenM :: "('s, 'a) eff \<Rightarrow> ('s, 'b) eff \<Rightarrow> ('s, 'b) eff" where
  "thenM m n = bindM m (\<lambda>_. n)"

definition handleM :: "('s, 'a) eff \<Rightarrow> (exn \<Rightarrow> ('s, 'a) eff) \<Rightarrow> ('s, 'a) eff" where
  "handleM m h s = (case m s of (Inl e, s') \<Rightarrow> h e s' | (Inr a, s') \<Rightarrow> (Inr a, s'))"

text \<open>\<^verbatim>\<open>except CancelledError: raise\<close> followed by \<^verbatim>\<open>except Exception as caught\<close>.\<close>

definition exceptM :: "('s, 'a) eff \<Rightarrow> (exn \<Rightarrow> ('s, 'a) eff) \<Rightarrow> ('s, 'a) eff" where
  "exceptM m h = handleM m (\<lambda>e. if e = CancelledErr then throw e else h e)"

text \<open>\<^verbatim>\<open>try ... finally\<close>: the final part runs on both ends and its own exception wins.\<close>

definition finallyM :: "('s, 'a) eff \<Rightarrow> ('s, unit) eff \<Rightarrow> ('s, 'a) eff" where
  "finallyM m f s = (case m s of (r, s') \<Rightarrow>
     (case f s' of (Inl e, s'') \<Rightarrow> (Inl e, s'') | (Inr _, s'') \<Rightarrow> (r, s'')))"

definition pureM :: "(exn, 'a) result \<Rightarrow> ('s, 'a) eff" where
  "pureM r s = (r, s)"

definition getM :: "('s \<Rightarrow> 'a) \<Rightarrow> ('s, 'a) eff" where
  "getM f s = (Inr (f s), s)"

definition modM :: "('s \<Rightarrow> 's) \<Rightarrow> ('s, unit) eff" where
  "modM f s = (Inr (), f s)"

definition whenM :: "bool \<Rightarrow> ('s, unit) eff \<Rightarrow> ('s, unit) eff" where
  "whenM b m = (if b then m else ret ())"

text \<open>
  Local variables: a computation over the pair of the shared state and the locals, started
  with initial locals that are dropped at its end; and a shared computation inside it.
\<close>

definition withM :: "'l \<Rightarrow> ('s \<times> 'l, 'a) eff \<Rightarrow> ('s, 'a) eff" where
  "withM l m s = (case m (s, l) of (r, (s', _)) \<Rightarrow> (r, s'))"

definition liftM :: "('s, 'a) eff \<Rightarrow> ('s \<times> 'l, 'a) eff" where
  "liftM m p = (case m (fst p) of (r, s') \<Rightarrow> (r, (s', snd p)))"

text \<open>\<^verbatim>\<open>for x in xs\<close> whose body says whether to go on (\<^verbatim>\<open>break\<close> is \<^term>\<open>False\<close>).\<close>

fun loopM :: "('a \<Rightarrow> ('s, bool) eff) \<Rightarrow> 'a list \<Rightarrow> ('s, unit) eff" where
  "loopM body [] = ret ()"
| "loopM body (x # xs) = bindM (body x) (\<lambda>continue. if continue then loopM body xs else ret ())"

lemmas eff_defs = ret_def throw_def failM_def bindM_def thenM_def handleM_def exceptM_def
  pureM_def getM_def modM_def whenM_def

lemma bindM_ret [simp]: "bindM (ret a) f = f a"
  by (rule ext) (simp add: bindM_def ret_def)

section \<open>Triples\<close>

definition valid ::
  "('s \<Rightarrow> bool) \<Rightarrow> ('s, 'a) eff \<Rightarrow> ('a \<Rightarrow> 's \<Rightarrow> bool) \<Rightarrow> (exn \<Rightarrow> 's \<Rightarrow> bool) \<Rightarrow> bool" where
  "valid P m Q E \<longleftrightarrow>
     (\<forall>s. P s \<longrightarrow> (case m s of (Inr a, s') \<Rightarrow> Q a s' | (Inl e, s') \<Rightarrow> E e s'))"

named_theorems triples

lemma validI: "(\<And>s. P s \<Longrightarrow> case m s of (Inr a, s') \<Rightarrow> Q a s' | (Inl e, s') \<Rightarrow> E e s') \<Longrightarrow> valid P m Q E"
  by (simp add: valid_def)

lemma valid_Inr: "valid P m Q E \<Longrightarrow> P s \<Longrightarrow> m s = (Inr a, s') \<Longrightarrow> Q a s'"
  by (fastforce simp: valid_def)

lemma valid_Inl: "valid P m Q E \<Longrightarrow> P s \<Longrightarrow> m s = (Inl e, s') \<Longrightarrow> E e s'"
  by (fastforce simp: valid_def)

lemma valid_pre: "valid P' m Q E \<Longrightarrow> (\<And>s. P s \<Longrightarrow> P' s) \<Longrightarrow> valid P m Q E"
  by (simp add: valid_def)

lemma valid_conseq:
  assumes "valid P' m Q' E'" "\<And>s. P s \<Longrightarrow> P' s" "\<And>a s. Q' a s \<Longrightarrow> Q a s" "\<And>e s. E' e s \<Longrightarrow> E e s"
  shows "valid P m Q E"
proof (rule validI)
  fix s assume "P s"
  with assms show "case m s of (Inr a, s') \<Rightarrow> Q a s' | (Inl e, s') \<Rightarrow> E e s'"
    by (fastforce simp: valid_def split: prod.splits sum.splits)
qed

lemma valid_post: "valid P m Q' E \<Longrightarrow> (\<And>a s. Q' a s \<Longrightarrow> Q a s) \<Longrightarrow> valid P m Q E"
  by (rule valid_conseq)

lemma valid_conj:
  assumes "valid P m Q E" "valid P' m Q' E'"
  shows "valid (\<lambda>s. P s \<and> P' s) m (\<lambda>a s. Q a s \<and> Q' a s) (\<lambda>e s. E e s \<and> E' e s)"
proof (rule validI)
  fix s assume s: "P s \<and> P' s"
  obtain r t where m: "m s = (r, t)" by fastforce
  show "case m s of (Inr a, t) \<Rightarrow> Q a t \<and> Q' a t | (Inl e, t) \<Rightarrow> E e t \<and> E' e t"
    using assms s m by (cases r) (auto dest: valid_Inl valid_Inr)
qed

lemma valid_assume: "(\<And>s. P s \<Longrightarrow> valid (\<lambda>t. t = s) m Q E) \<Longrightarrow> valid P m Q E"
  by (simp add: valid_def)

lemma valid_ret [triples]: "valid (Q a) (ret a) Q E"
  by (simp add: valid_def ret_def)

lemma valid_throw [triples]: "valid (E e) (throw e) Q E"
  by (simp add: valid_def throw_def)

lemma valid_failM: "valid (\<lambda>s. \<forall>e. raise_code c = (Inl e :: (exn, unit) result) \<longrightarrow> E e s) (failM c) Q E"
  by (simp add: valid_def failM_def raise_code_def)

lemma valid_pureM: "valid (\<lambda>s. (\<forall>a. r = Inr a \<longrightarrow> Q a s) \<and> (\<forall>e. r = Inl e \<longrightarrow> E e s)) (pureM r) Q E"
  by (cases r) (simp_all add: valid_def pureM_def)

lemma valid_getM [triples]: "valid (\<lambda>s. Q (f s) s) (getM f) Q E"
  by (simp add: valid_def getM_def)

lemma valid_modM [triples]: "valid (\<lambda>s. Q () (f s)) (modM f) Q E"
  by (simp add: valid_def modM_def)

lemma valid_bindM: "valid P m R E \<Longrightarrow> (\<And>a. valid (R a) (f a) Q E) \<Longrightarrow> valid P (bindM m f) Q E"
  unfolding valid_def bindM_def by (fastforce split: prod.splits sum.splits)

lemma valid_thenM: "valid P m (\<lambda>_. R) E \<Longrightarrow> valid R n Q E \<Longrightarrow> valid P (thenM m n) Q E"
  unfolding thenM_def by (erule valid_bindM) simp

lemma valid_handleM: "valid P m Q E' \<Longrightarrow> (\<And>e. valid (E' e) (h e) Q E) \<Longrightarrow> valid P (handleM m h) Q E"
  unfolding valid_def handleM_def by (fastforce split: prod.splits sum.splits)

lemma valid_exceptM:
  assumes "valid P m Q E'" "\<And>e. e \<noteq> CancelledErr \<Longrightarrow> valid (E' e) (h e) Q E"
    and "\<And>s. E' CancelledErr s \<Longrightarrow> E CancelledErr s"
  shows "valid P (exceptM m h) Q E"
  unfolding exceptM_def
proof (rule valid_handleM [OF assms(1)])
  show "valid (E' e) (if e = CancelledErr then throw e else h e) Q E" for e
    using assms(2,3) by (auto intro: valid_pre [OF valid_throw])
qed

lemma valid_finallyM:
  assumes "valid P m Q' E'" "\<And>a. valid (Q' a) f (\<lambda>_. Q a) E" "\<And>e. valid (E' e) f (\<lambda>_. E e) E"
  shows "valid P (finallyM m f) Q E"
proof (rule validI)
  fix s assume P: "P s"
  obtain r s' where m: "m s = (r, s')" by fastforce
  obtain q s'' where f: "f s' = (q, s'')" by fastforce
  show "case finallyM m f s of (Inr a, s') \<Rightarrow> Q a s' | (Inl e, s') \<Rightarrow> E e s'"
  proof (cases r)
    case (Inl e)
    with valid_Inl [OF assms(1) P] m have "E' e s'" by simp
    with assms(3) [of e] f Inl m show ?thesis
      by (cases q) (auto simp: finallyM_def dest: valid_Inl valid_Inr)
  next
    case (Inr a)
    with valid_Inr [OF assms(1) P] m have "Q' a s'" by simp
    with assms(2) [of a] f Inr m show ?thesis
      by (cases q) (auto simp: finallyM_def dest: valid_Inl valid_Inr)
  qed
qed

lemma valid_if: "(b \<Longrightarrow> valid P m Q E) \<Longrightarrow> (\<not> b \<Longrightarrow> valid P n Q E) \<Longrightarrow> valid P (if b then m else n) Q E"
  by simp

lemma valid_whenM: "(b \<Longrightarrow> valid P m (\<lambda>_. R) E) \<Longrightarrow> (\<And>s. \<not> b \<Longrightarrow> P s \<Longrightarrow> R s) \<Longrightarrow> valid P (whenM b m) (\<lambda>_. R) E"
  by (cases b) (simp_all add: whenM_def valid_def ret_def)

lemma valid_withM:
  "valid (\<lambda>p. P (fst p) \<and> snd p = l) m (\<lambda>a p. Q a (fst p)) (\<lambda>e p. E e (fst p)) \<Longrightarrow>
     valid P (withM l m) Q E"
  unfolding valid_def withM_def by (fastforce split: prod.splits sum.splits)

lemma valid_liftM:
  "(\<And>l. valid (\<lambda>s. P (s, l)) m (\<lambda>a s. Q a (s, l)) (\<lambda>e s. E e (s, l))) \<Longrightarrow> valid P (liftM m) Q E"
  unfolding valid_def liftM_def by (fastforce split: prod.splits sum.splits)

lemma valid_loopM:
  assumes "\<And>x. x \<in> set xs \<Longrightarrow> valid I (body x) (\<lambda>c. if c then I else Q ()) E" "\<And>s. I s \<Longrightarrow> Q () s"
  shows "valid I (loopM body xs) Q E"
  using assms(1)
proof (induction xs)
  case Nil
  show ?case using assms(2) by (auto intro: valid_pre [OF valid_ret])
next
  case (Cons x xs)
  have "valid (if c then I else Q ()) (if c then loopM body xs else ret ()) Q E" for c
    using Cons by (auto intro: valid_pre [OF valid_ret])
  with Cons.prems [of x] show ?case by (auto intro: valid_bindM)
qed

section \<open>Relations between initial and final state\<close>

definition keeps :: "('s \<Rightarrow> 's \<Rightarrow> bool) \<Rightarrow> ('s, 'a) eff \<Rightarrow> bool" where
  "keeps R m \<longleftrightarrow> (\<forall>s. R s (snd (m s)))"

text \<open>A reflexive and transitive relation is kept by every composition of parts that keep it.\<close>

locale frame =
  fixes R :: "'s \<Rightarrow> 's \<Rightarrow> bool"
  assumes frame_refl: "R s s"
    and frame_trans: "R s t \<Longrightarrow> R t u \<Longrightarrow> R s u"
begin

lemma keeps_same: "(\<And>s. snd (m s) = s) \<Longrightarrow> keeps R m"
  by (simp add: keeps_def frame_refl)

lemma keeps_ret: "keeps R (ret a)" and keeps_throw: "keeps R (throw e)"
  and keeps_failM: "keeps R (failM c)" and keeps_pureM: "keeps R (pureM r)"
  and keeps_getM: "keeps R (getM f)"
  by (rule keeps_same, simp add: eff_defs)+

lemma keeps_modM: "(\<And>s. R s (f s)) \<Longrightarrow> keeps R (modM f)"
  by (simp add: keeps_def modM_def)

lemma keeps_bindM: "keeps R m \<Longrightarrow> (\<And>a. keeps R (f a)) \<Longrightarrow> keeps R (bindM m f)"
  unfolding keeps_def bindM_def
  by (auto split: prod.split sum.split) (metis frame_trans snd_conv)+

lemma keeps_thenM: "keeps R m \<Longrightarrow> keeps R n \<Longrightarrow> keeps R (thenM m n)"
  unfolding thenM_def by (rule keeps_bindM)

lemma keeps_handleM: "keeps R m \<Longrightarrow> (\<And>e. keeps R (h e)) \<Longrightarrow> keeps R (handleM m h)"
  unfolding keeps_def handleM_def
  by (auto split: prod.split sum.split) (metis frame_trans snd_conv)+

lemma keeps_exceptM: "keeps R m \<Longrightarrow> (\<And>e. keeps R (h e)) \<Longrightarrow> keeps R (exceptM m h)"
  unfolding exceptM_def by (rule keeps_handleM) (simp_all add: keeps_throw)

lemma keeps_finallyM: "keeps R m \<Longrightarrow> keeps R f \<Longrightarrow> keeps R (finallyM m f)"
  unfolding keeps_def finallyM_def
  by (auto split: prod.split sum.split) (metis frame_trans snd_conv)+

lemma keeps_whenM: "keeps R m \<Longrightarrow> keeps R (whenM b m)"
  by (simp add: whenM_def keeps_ret)

lemma keeps_if: "keeps R m \<Longrightarrow> keeps R n \<Longrightarrow> keeps R (if b then m else n)"
  by simp

lemma keeps_loopM: "(\<And>x. x \<in> set xs \<Longrightarrow> keeps R (body x)) \<Longrightarrow> keeps R (loopM body xs)"
  by (induction xs) (auto intro!: keeps_bindM keeps_ret)

lemmas keeps_intros = keeps_ret keeps_throw keeps_failM keeps_pureM keeps_getM keeps_bindM
  keeps_thenM keeps_handleM keeps_exceptM keeps_finallyM keeps_whenM keeps_if keeps_loopM

end

text \<open>A frame on the shared state is one on the pair with locals.\<close>

definition on_fst :: "('s \<Rightarrow> 's \<Rightarrow> bool) \<Rightarrow> 's \<times> 'l \<Rightarrow> 's \<times> 'l \<Rightarrow> bool" where
  "on_fst R p q \<longleftrightarrow> R (fst p) (fst q)"

lemma frame_on_fst: "frame R \<Longrightarrow> frame (on_fst R)"
  unfolding frame_def on_fst_def by blast

context frame begin

lemma keeps_withM: "keeps (on_fst R) m \<Longrightarrow> keeps R (withM l m)"
  unfolding keeps_def withM_def on_fst_def by (auto split: prod.split) (metis fst_conv snd_conv)

lemma keeps_liftM: "keeps R m \<Longrightarrow> keeps (on_fst R) (liftM m)"
  unfolding keeps_def liftM_def on_fst_def by (auto split: prod.split) (metis snd_conv)

lemma keeps_localM: "(\<And>p. fst (f p) = fst p) \<Longrightarrow> keeps (on_fst R) (modM f)"
  by (simp add: keeps_def modM_def on_fst_def frame_refl)

end

end
