(* ===== verification/Retry.thy ===== *)
theory Retry imports Effects Json begin

text \<open>
  \<^verbatim>\<open>core/retry.py\<close>: the retry policy and its loop. The operation, the deadline, the loop
  clock, \<^verbatim>\<open>random.uniform\<close> and the bounded sleep act on a world the model leaves open
  (parameters of the loop); a sleep under \<^verbatim>\<open>timeout_at\<close> may end in \<^term>\<open>TimeoutErr\<close>.
\<close>

section \<open>Policy and transient failures\<close>

record retry_policy =
  py_max_attempts :: nat
  py_initial_delay :: rat
  py_max_delay :: rat

definition MAX_RETRY_ATTEMPTS :: int where "MAX_RETRY_ATTEMPTS = 8"

definition delay_ok :: "pfloat \<Rightarrow> rat \<Rightarrow> bool" where
  "delay_ok x maximum = (case x of Fin q \<Rightarrow> 0 \<le> q \<and> q \<le> maximum | _ \<Rightarrow> False)"

definition RetryPolicy :: "int \<Rightarrow> pfloat \<Rightarrow> pfloat \<Rightarrow> retry_policy option" where
  "RetryPolicy attempts initial maximum =
     (if \<not> (1 \<le> attempts \<and> attempts \<le> MAX_RETRY_ATTEMPTS) then None
      else if \<not> delay_ok initial 60 \<or> \<not> delay_ok maximum 300 then None
      else case (initial, maximum) of
        (Fin i, Fin m) \<Rightarrow>
          (if m < i then None
           else Some \<lparr>py_max_attempts = nat attempts, py_initial_delay = i, py_max_delay = m\<rparr>)
      | _ \<Rightarrow> None)"

definition TransientFailure :: "error_code \<Rightarrow> pfloat option \<Rightarrow> exn option" where
  "TransientFailure code retry_after =
     (let e = ServiceError code True None None None in
      case retry_after of
        None \<Rightarrow> Some (TransientErr e None)
      | Some (Fin q) \<Rightarrow> (if q < 0 then None else Some (TransientErr e (Some q)))
      | Some _ \<Rightarrow> None)"

section \<open>The loop\<close>

record ('s, 'a) retry_env =
  rv_operation :: "nat \<Rightarrow> ('s, 'a) eff"
  rv_deadline :: "('s, rat) eff"
  rv_time :: "('s, rat) eff"
  rv_uniform :: "rat \<Rightarrow> ('s, rat) eff"
  rv_sleep :: "rat \<Rightarrow> rat \<Rightarrow> ('s, unit) eff"

definition ATTEMPT_LIMITS :: "error_code list" where
  "ATTEMPT_LIMITS = [MODEL_REQUEST_LIMIT_REACHED, TOOL_CALL_LIMIT_REACHED]"

text \<open>Between two attempts: give up, or wait without clipping the requested delay.\<close>

definition retry_wait ::
  "('s, 'a) retry_env \<Rightarrow> retry_policy \<Rightarrow> nat \<Rightarrow> exn \<Rightarrow> rat option \<Rightarrow> ('s, unit) eff" where
  "retry_wait env policy attempt error retry_after =
     (if attempt = py_max_attempts policy then throw error
      else
        let cap = min (py_max_delay policy) (py_initial_delay policy * 2 ^ (attempt - 1)) in
        bindM (rv_uniform env cap) (\<lambda>u.
          let delay = max u (case retry_after of Some r \<Rightarrow> r | None \<Rightarrow> 0) in
          bindM (rv_deadline env) (\<lambda>stop.
            if py_max_delay policy < delay then throw error
            else bindM (rv_time env) (\<lambda>now.
              if stop - now \<le> delay then throw error
              else handleM (rv_sleep env stop delay) (\<lambda>e.
                if e = TimeoutErr then failM REQUEST_TIMEOUT else throw e)))))"

fun retry_loop ::
  "('s, 'a) retry_env \<Rightarrow> retry_policy \<Rightarrow> exn option \<Rightarrow> nat list \<Rightarrow> ('s, 'a) eff" where
  "retry_loop env policy prior [] = throw OtherErr"
| "retry_loop env policy prior (attempt # rest) =
     bindM (rv_deadline env) (\<lambda>d. bindM (rv_time env) (\<lambda>now.
       if d \<le> now then failM REQUEST_TIMEOUT
       else handleM (rv_operation env attempt) (\<lambda>error.
         case error of
           TransientErr e retry_after \<Rightarrow>
             thenM (retry_wait env policy attempt error retry_after)
               (retry_loop env policy (Some error) rest)
         | ServiceErr e \<Rightarrow>
             (case prior of
                Some l \<Rightarrow> (if se_code e \<in> set ATTEMPT_LIMITS then throw l else throw error)
              | None \<Rightarrow> throw error)
         | _ \<Rightarrow> throw error)))"

definition retry :: "('s, 'a) retry_env \<Rightarrow> retry_policy \<Rightarrow> ('s, 'a) eff" where
  "retry env policy = retry_loop env policy None [1..<Suc (py_max_attempts policy)]"

section \<open>Facts\<close>

lemma RetryPolicy_bounds:
  "RetryPolicy a i m = Some p \<Longrightarrow> 1 \<le> py_max_attempts p \<and> py_max_attempts p \<le> 8 \<and>
     0 \<le> py_initial_delay p \<and> py_initial_delay p \<le> py_max_delay p \<and> py_max_delay p \<le> 300"
  by (auto simp: RetryPolicy_def delay_ok_def MAX_RETRY_ATTEMPTS_def split: if_splits pfloat.splits)

text \<open>
  The loop keeps every invariant its parts keep, where each attempt may advance it by one and
  a sleep only has to keep it for delays within the policy.
\<close>

lemma retry_loop_inv:
  assumes mono: "\<And>k s. I k s \<Longrightarrow> I (Suc k) s"
    and op: "\<And>k n. valid (I k) (rv_operation env n) (\<lambda>_. I (Suc k)) (\<lambda>_. I (Suc k))"
    and pure: "\<And>k. valid (I k) (rv_deadline env) (\<lambda>_. I k) (\<lambda>_. I k)"
      "\<And>k. valid (I k) (rv_time env) (\<lambda>_. I k) (\<lambda>_. I k)"
      "\<And>k c. valid (I k) (rv_uniform env c) (\<lambda>_. I k) (\<lambda>_. I k)"
    and sleep: "\<And>k t d. d \<le> py_max_delay p \<Longrightarrow> valid (I k) (rv_sleep env t d) (\<lambda>_. I k) (\<lambda>_. I k)"
  shows "valid (I k) (retry_loop env p prior ns) (\<lambda>_. I (k + length ns)) (\<lambda>_. I (k + length ns))"
proof (induction ns arbitrary: k prior)
  case Nil
  show ?case by (simp add: valid_def throw_def)
next
  case (Cons n ns)
  define J where "J = I (k + length (n # ns))"
  have grow: "I j s \<Longrightarrow> I (j + i) s" for j i s
    by (induction i) (simp_all add: mono)
  have up: "I k s \<Longrightarrow> J s" "I (Suc k) s \<Longrightarrow> J s" for s
    using grow [of k s "Suc (length ns)"] grow [of "Suc k" s "length ns"] by (simp_all add: J_def)
  have fail: "valid (I j) (throw e) (\<lambda>_. Q) (\<lambda>_. I j)"
    and code: "valid (I j) (failM c) (\<lambda>_. Q) (\<lambda>_. I j)" for j Q e c
    by (simp_all add: valid_def throw_def failM_def raise_code_def)
  have weak: "valid (I (Suc k)) m (\<lambda>_. I (Suc k)) (\<lambda>_. I (Suc k)) \<Longrightarrow>
      valid (I (Suc k)) m (\<lambda>_. I (Suc k)) (\<lambda>_. J)" for m :: "('a, unit) eff"
    by (erule valid_conseq) (use up in simp_all)
  have wait: "valid (I (Suc k)) (retry_wait env p n e ra) (\<lambda>_. I (Suc k)) (\<lambda>_. I (Suc k))" for e ra
    unfolding retry_wait_def Let_def
    by (intro valid_if valid_bindM [OF pure(3)] valid_bindM [OF pure(1)] valid_bindM [OF pure(2)]
        valid_handleM [OF sleep] fail code) (simp add: not_less)
  have again: "valid (I (Suc k)) (retry_loop env p l ns) (\<lambda>_. J) (\<lambda>_. J)" for l
    using Cons.IH [of "Suc k" l] by (simp add: J_def)
  have stop: "valid (I (Suc k)) (throw e) (\<lambda>_. J) (\<lambda>_. J)" for e
    using up by (auto simp: valid_def throw_def)
  have caught: "valid (I (Suc k)) (case e of
         TransientErr e' retry_after \<Rightarrow>
             thenM (retry_wait env p n e retry_after) (retry_loop env p (Some e) ns)
         | ServiceErr e' \<Rightarrow> (case prior of
                Some l \<Rightarrow> (if se_code e' \<in> set ATTEMPT_LIMITS then throw l else throw e)
              | None \<Rightarrow> throw e)
         | _ \<Rightarrow> throw e) (\<lambda>_. J) (\<lambda>_. J)" for e
    by (cases e) (auto split: option.split intro!: stop valid_thenM [OF weak [OF wait]] again)
  have op': "valid (I k) (rv_operation env n) (\<lambda>_. J) (\<lambda>_. I (Suc k))"
    by (rule valid_post [OF op]) (use up in simp)
  have all: "valid (I k) m (\<lambda>_. I k) (\<lambda>_. I k) \<Longrightarrow> valid (I k) m (\<lambda>_. I k) (\<lambda>_. J)"
    for m :: "('a, rat) eff"
    by (erule valid_conseq) (use up in simp_all)
  have late: "valid (I k) (failM REQUEST_TIMEOUT) (\<lambda>_. J) (\<lambda>_. J)"
    using up by (auto simp: valid_def failM_def raise_code_def)
  show ?case
    unfolding retry_loop.simps J_def [symmetric]
    by (intro valid_bindM [OF all [OF pure(1)]] valid_bindM [OF all [OF pure(2)]] valid_if late
        valid_handleM [OF op'] caught)
qed

text \<open>A limit error after a transient failure is never what the caller sees.\<close>

lemma retry_loop_limit:
  assumes quiet: "\<And>s e s'. rv_deadline env s \<noteq> (Inl e, s')" "\<And>s e s'. rv_time env s \<noteq> (Inl e, s')"
    "\<And>c s e s'. rv_uniform env c s \<noteq> (Inl e, s')"
    and sleep: "\<And>t d s e s'. rv_sleep env t d s = (Inl e, s') \<Longrightarrow> e = TimeoutErr \<or> e = CancelledErr"
  shows "retry_loop env p (Some (TransientErr t r)) ns s = (Inl (ServiceErr e), s') \<Longrightarrow>
    se_code e \<notin> set ATTEMPT_LIMITS"
proof -
  have q: "valid (\<lambda>_. True) (rv_deadline env) (\<lambda>_ _. True) (\<lambda>_ _. False)"
    "valid (\<lambda>_. True) (rv_time env) (\<lambda>_ _. True) (\<lambda>_ _. False)"
    "valid (\<lambda>_. True) (rv_uniform env c) (\<lambda>_ _. True) (\<lambda>_ _. False)"
    "valid (\<lambda>_. True) (rv_sleep env u d) (\<lambda>_ _. True) (\<lambda>e _. e = TimeoutErr \<or> e = CancelledErr)" for c u d
    using quiet sleep by (fastforce simp: valid_def split: prod.splits sum.splits)+
  let ?E = "\<lambda>x _. \<forall>e. x = ServiceErr e \<longrightarrow> se_code e \<notin> set ATTEMPT_LIMITS"
  have weak: "valid P m Q (\<lambda>_ _. False) \<Longrightarrow> valid P m Q ?E" for P m Q
    by (erule valid_conseq) simp_all
  have "valid (\<lambda>_. True) (retry_loop env p (Some (TransientErr t r)) ns) (\<lambda>_ _. True) ?E" for t r
  proof (induction ns arbitrary: t r)
    case Nil
    show ?case by (simp add: valid_def throw_def)
  next
    case (Cons n ns)
    have code: "valid (\<lambda>_. True) (failM REQUEST_TIMEOUT) (\<lambda>_ _. True) ?E"
      by (simp add: valid_def failM_def raise_code_def ServiceError_def ATTEMPT_LIMITS_def)
    have thr: "(\<And>e. x = ServiceErr e \<Longrightarrow> se_code e \<notin> set ATTEMPT_LIMITS) \<Longrightarrow>
        valid (\<lambda>_. True) (throw x) (\<lambda>_ _. True) ?E" for x
      by (simp add: valid_def throw_def)
    have nap: "valid (\<lambda>_. True) (handleM (rv_sleep env u d) (\<lambda>e.
        if e = TimeoutErr then failM REQUEST_TIMEOUT else throw e)) (\<lambda>_ _. True) ?E" for u d
      by (rule valid_handleM [OF q(4)]) (auto simp: valid_def throw_def failM_def raise_code_def
          ServiceError_def ATTEMPT_LIMITS_def)
    have wait: "valid (\<lambda>_. True) (retry_wait env p n (TransientErr e' ra) ra') (\<lambda>_ _. True) ?E" for e' ra ra'
      unfolding retry_wait_def Let_def
      by (intro valid_if valid_bindM [OF weak [OF q(3)]] valid_bindM [OF weak [OF q(1)]]
          valid_bindM [OF weak [OF q(2)]] nap thr) simp_all
    have caught: "valid (\<lambda>_. True) (case e of
         TransientErr e' retry_after \<Rightarrow>
             thenM (retry_wait env p n e retry_after) (retry_loop env p (Some e) ns)
         | ServiceErr e' \<Rightarrow> (case Some (TransientErr t r) of
                Some l \<Rightarrow> (if se_code e' \<in> set ATTEMPT_LIMITS then throw l else throw e)
              | None \<Rightarrow> throw e)
         | _ \<Rightarrow> throw e) (\<lambda>_ _. True) ?E" for e
      by (cases e) (auto intro!: thr valid_thenM [OF wait] Cons.IH)
    have op: "valid (\<lambda>_. True) (rv_operation env n) (\<lambda>_ _. True) (\<lambda>_ _. True)"
      by (simp add: valid_def split: prod.split sum.split)
    show ?case
      unfolding retry_loop.simps
      by (intro valid_bindM [OF weak [OF q(1)]] valid_bindM [OF weak [OF q(2)]] valid_if code
          valid_handleM [OF op] caught)
  qed
  then show "retry_loop env p (Some (TransientErr t r)) ns s = (Inl (ServiceErr e), s') \<Longrightarrow>
    se_code e \<notin> set ATTEMPT_LIMITS"
    by (fastforce dest: valid_Inl)
qed

section \<open>Properties\<close>

text \<open>Counting the attempts and collecting the requested waits of any environment.\<close>

definition counted :: "('w, 'a) retry_env \<Rightarrow> (nat \<times> rat list \<times> 'w, 'a) retry_env" where
  "counted env = \<lparr>
     rv_operation = (\<lambda>i (n, ds, w). let (r, w') = rv_operation env i w in (r, n + 1, ds, w')),
     rv_deadline = (\<lambda>(n, ds, w). let (r, w') = rv_deadline env w in (r, n, ds, w')),
     rv_time = (\<lambda>(n, ds, w). let (r, w') = rv_time env w in (r, n, ds, w')),
     rv_uniform = (\<lambda>c (n, ds, w). let (r, w') = rv_uniform env c w in (r, n, ds, w')),
     rv_sleep = (\<lambda>t d (n, ds, w). let (r, w') = rv_sleep env t d w in (r, n, d # ds, w'))\<rparr>"

text \<open>
  C31: Whatever the operation, the clocks and the random source do, the loop makes at most
  the policy's attempts and never asks for a wait longer than its maximum delay.
\<close>

theorem retry_bounded:
  "case retry (counted env) p (0, [], w) of (r, n, ds, w') \<Rightarrow>
     n \<le> py_max_attempts p \<and> list_all (\<lambda>d. d \<le> py_max_delay p) ds"
proof -
  let ?I = "\<lambda>k (n, ds, w). n \<le> k \<and> list_all (\<lambda>d. d \<le> py_max_delay p) ds"
  have "valid (?I 0) (retry_loop (counted env) p None [1..<Suc (py_max_attempts p)])
     (\<lambda>_. ?I (0 + length [1..<Suc (py_max_attempts p)])) (\<lambda>_. ?I (0 + length [1..<Suc (py_max_attempts p)]))"
    by (rule retry_loop_inv) (auto simp: valid_def counted_def split: prod.split sum.split)
  from this [unfolded valid_def, rule_format, of "(0, [], w)"] show ?thesis
    by (auto simp: retry_def simp del: upt_Suc split: prod.splits sum.splits)
qed

text \<open>An environment whose clocks and random source raise nothing, nor a sleep but at its end.\<close>

definition quiet :: "('s, 'a) retry_env \<Rightarrow> bool" where
  "quiet env \<longleftrightarrow> (\<forall>s. \<not> isl (fst (rv_deadline env s)) \<and> \<not> isl (fst (rv_time env s))) \<and>
     (\<forall>c s. \<not> isl (fst (rv_uniform env c s))) \<and>
     (\<forall>t d s. fst (rv_sleep env t d s) \<in> {Inr (), Inl TimeoutErr, Inl CancelledErr})"

text \<open>
  C32: Once an attempt failed transiently, a later attempt that is refused by a request or
  tool limit does not hide that failure: the loop never raises the limit error itself.
\<close>

theorem retry_keeps_failure:
  assumes "quiet env"
  shows "case retry_loop env p (Some (TransientErr e r)) ns s of
     (Inl (ServiceErr x), s') \<Rightarrow> se_code x \<notin> set ATTEMPT_LIMITS
   | _ \<Rightarrow> True"
proof -
  have q: "rv_deadline env s \<noteq> (Inl x, s')" "rv_time env s \<noteq> (Inl x, s')" "rv_uniform env c s \<noteq> (Inl x, s')"
    for x s s' c
    using assms unfolding quiet_def by (metis fst_conv sum.disc(1))+
  have n: "x = TimeoutErr \<or> x = CancelledErr" if "rv_sleep env t d s = (Inl x, s')" for t d s x s'
  proof -
    from assms have "fst (rv_sleep env t d s) \<in> {Inr (), Inl TimeoutErr, Inl CancelledErr}"
      by (simp add: quiet_def)
    with that show ?thesis by simp
  qed
  show ?thesis
    using retry_loop_limit [OF q n] by (auto split: prod.split sum.split exn.split)
qed

theorem retry_keeps_failure_witness:
  "case retry_loop \<lparr>rv_operation = (\<lambda>i. if i = 2 then failM MODEL_REQUEST_LIMIT_REACHED else ret i),
       rv_deadline = ret 100, rv_time = ret 0, rv_uniform = ret, rv_sleep = (\<lambda>_ _. ret ())\<rparr>
     \<lparr>py_max_attempts = 3, py_initial_delay = 1, py_max_delay = 4\<rparr>
     (Some (TransientErr (ServiceError RATE_LIMITED True None None None) None)) [2, 3] ()
   of (Inl (ServiceErr x), s') \<Rightarrow> se_code x \<notin> set ATTEMPT_LIMITS | _ \<Rightarrow> True"
  by (rule retry_keeps_failure) (simp add: quiet_def ret_def)

end
