(* ===== verification/Boundary.thy ===== *)
theory Boundary imports Json Budget begin

text \<open>
  The values that cross the engine's boundary: accepted envelopes (\<^verbatim>\<open>core/envelope.py\<close>),
  trusted identities (\<^verbatim>\<open>core/identity.py\<close>) and the trace carriers read from and handed
  to the outside (\<^verbatim>\<open>core/observation.py\<close>).
\<close>

section \<open>Envelopes\<close>

record envelope =
  en_payload :: json
  en_metadata :: jobj

definition AcceptedEnvelope :: "pyobj \<Rightarrow> pyobj \<Rightarrow> (exn, envelope) result" where
  "AcceptedEnvelope payload metadata =
     bindE (freeze_json metadata) (\<lambda>m.
       case m of
         JObj ps \<Rightarrow> mapR (\<lambda>p. \<lparr>en_payload = p, en_metadata = ps\<rparr>) (freeze_json payload)
       | _ \<Rightarrow> raise_code INVALID_INPUT)"

definition from_frozen :: "json \<Rightarrow> jobj \<Rightarrow> (exn, envelope) result" where
  "from_frozen payload metadata =
     bindE (freeze_json_depth MAX_EXECUTION_JSON_DEPTH (frozen_obj payload)) (\<lambda>p.
       bindE (freeze_json (frozen_obj (JObj metadata))) (\<lambda>m.
         case m of
           JObj ps \<Rightarrow> Inr \<lparr>en_payload = p, en_metadata = ps\<rparr>
         | _ \<Rightarrow> raise_code INVALID_INPUT))"

section \<open>Identities\<close>

definition IDENTITY_MAX_LENGTH :: nat where "IDENTITY_MAX_LENGTH = 256"

definition control_char :: "char \<Rightarrow> bool" where
  "control_char c \<longleftrightarrow> (let n = of_char c :: nat in n \<le> 31 \<or> (127 \<le> n \<and> n \<le> 159))"

text \<open>\<^verbatim>\<open>IDENTITY_PATTERN\<close>: no control character, and at least one that is not whitespace.\<close>

definition identity_id_ok :: "string \<Rightarrow> bool" where
  "identity_id_ok s \<longleftrightarrow> length s \<le> IDENTITY_MAX_LENGTH \<and>
     list_all (\<lambda>c. \<not> control_char c) s \<and> list_ex (\<lambda>c. \<not> py_space c) s"

fun validate_identity_id :: "json \<Rightarrow> (exn, string) result" where
  "validate_identity_id (JStr s) = (if identity_id_ok s then Inr s else raise_code INVALID_INPUT)"
| "validate_identity_id _ = raise_code INVALID_INPUT"

record identity =
  id_tenant :: "string option"
  id_principal :: "string option"

definition Identity :: "string option \<Rightarrow> string option \<Rightarrow> (exn, identity) result" where
  "Identity tenant user =
     (if pred_option identity_id_ok tenant \<and> pred_option identity_id_ok user
      then Inr \<lparr>id_tenant = tenant, id_principal = user\<rparr>
      else raise_code INVALID_INPUT)"

section \<open>Trace carriers\<close>

type_synonym carrier = "(string \<times> string) list"

definition MAX_TRACE_FIELD :: nat where "MAX_TRACE_FIELD = 512"

text \<open>
  \<^verbatim>\<open>Outcome.carrier\<close>: what the observer returned (\<^term>\<open>None\<close> when there is none or it
  raised), reduced to the two W3C fields, or nothing at all.
\<close>

fun carrier_entry :: "pyobj \<times> pyobj \<Rightarrow> (string \<times> string) option" where
  "carrier_entry (PStr k, PStr v) = (if length v \<le> MAX_TRACE_FIELD then Some (k, v) else None)"
| "carrier_entry _ = None"

definition safe_carrier :: "pyobj option \<Rightarrow> carrier" where
  "safe_carrier raw = (case raw of
     Some (PMap ps) \<Rightarrow>
       (case all_some (map carrier_entry ps) of
          Some kvs \<Rightarrow> filter (\<lambda>(k, v). k \<in> {''traceparent'', ''tracestate''}) kvs
        | None \<Rightarrow> [])
   | _ \<Rightarrow> [])"

definition hex_lower :: "char \<Rightarrow> bool" where
  "hex_lower c \<longleftrightarrow> ascii_digit c \<or> c \<in> set ''abcdef''"

text \<open>\<^verbatim>\<open>_TRACEPARENT\<close>: version, trace ID, span ID and flags, separated by dashes.\<close>

definition traceparent_ids :: "string \<Rightarrow> (string \<times> string) option" where
  "traceparent_ids s =
     (let version = take 2 s; trace = take 32 (drop 3 s); scope = take 16 (drop 36 s);
          flags = drop 53 s in
      if length s = 55 \<and> s ! 2 = CHR ''-'' \<and> s ! 35 = CHR ''-'' \<and> s ! 52 = CHR ''-'' \<and>
        list_all hex_lower (version @ trace @ scope @ flags)
      then Some (trace, scope) else None)"

definition trace_ids :: "carrier \<Rightarrow> (string \<times> string) option" where
  "trace_ids c =
     (case traceparent_ids (case get c ''traceparent'' of Some v \<Rightarrow> v | None \<Rightarrow> []) of
        Some (trace, scope) \<Rightarrow>
          (if set trace = {CHR ''0''} \<or> set scope = {CHR ''0''} then None else Some (trace, scope))
      | None \<Rightarrow> None)"

record trace_context =
  tc_traceparent :: "string option"
  tc_tracestate :: "string option"

definition trace_field :: "jobj \<Rightarrow> string \<Rightarrow> string option" where
  "trace_field value name = (case get value name of
     Some (JStr s) \<Rightarrow> (if length s \<le> MAX_TRACE_FIELD then Some s else None) | _ \<Rightarrow> None)"

definition incoming_trace :: "jobj \<Rightarrow> trace_context option" where
  "incoming_trace metadata = (case get metadata ''telemetry'' of
     Some (JObj value) \<Rightarrow> Some \<lparr>tc_traceparent = trace_field value ''traceparent'',
       tc_tracestate = trace_field value ''tracestate''\<rparr>
   | _ \<Rightarrow> None)"

section \<open>Facts\<close>

definition envelope_ok :: "envelope \<Rightarrow> bool" where
  "envelope_ok e \<longleftrightarrow> json_wf (en_payload e) \<and> json_depth (en_payload e) \<le> MAX_EXECUTION_JSON_DEPTH \<and>
     json_wf (JObj (en_metadata e)) \<and> json_depth (JObj (en_metadata e)) \<le> MAX_JSON_DEPTH"

lemma from_frozen_ok:
  assumes "json_wf p" "json_depth p \<le> MAX_EXECUTION_JSON_DEPTH"
    and "json_wf (JObj m)" "json_depth (JObj m) \<le> MAX_JSON_DEPTH"
  shows "from_frozen p m = Inr \<lparr>en_payload = p, en_metadata = m\<rparr>"
  unfolding from_frozen_def freeze_json_def freeze_frozen [OF assms(1,2)] freeze_frozen [OF assms(3,4)]
  by simp

lemma AcceptedEnvelope_ok:
  assumes "AcceptedEnvelope p m = Inr e"
  shows "envelope_ok e \<and> json_depth (en_payload e) \<le> MAX_JSON_DEPTH"
proof -
  from assms obtain j where m: "freeze_json m = Inr j"
    and j: "(case j of JObj ps \<Rightarrow> mapR (\<lambda>p. \<lparr>en_payload = p, en_metadata = ps\<rparr>) (freeze_json p)
       | _ \<Rightarrow> raise_code INVALID_INPUT) = Inr e"
    by (auto simp: AcceptedEnvelope_def bindE_Inr_iff)
  from j obtain ps q where "j = JObj ps" "freeze_json p = Inr q"
    "e = \<lparr>en_payload = q, en_metadata = ps\<rparr>"
    by (cases j) (auto simp: mapR_Inr_iff)
  with freeze_json_sound [OF m] freeze_json_sound [of p q] show ?thesis
    by (simp add: envelope_ok_def MAX_JSON_DEPTH_def MAX_EXECUTION_JSON_DEPTH_def)
qed

text \<open>Only the two W3C fields leave the process, and only bounded ones.\<close>

lemma carrier_entry_bound: "carrier_entry p = Some (k, v) \<Longrightarrow> length v \<le> MAX_TRACE_FIELD"
  by (cases p rule: carrier_entry.cases) (auto split: if_splits)

lemma all_some_mem: "all_some xs = Some ys \<Longrightarrow> y \<in> set ys \<Longrightarrow> Some y \<in> set xs"
  by (induction xs arbitrary: ys) (auto split: option.splits)

lemma safe_carrier_bounds:
  assumes "(k, v) \<in> set (safe_carrier raw)"
  shows "k \<in> {''traceparent'', ''tracestate''} \<and> length v \<le> MAX_TRACE_FIELD"
proof -
  from assms obtain ps where ps: "raw = Some (PMap ps)"
    by (auto simp: safe_carrier_def split: option.splits pyobj.splits)
  show ?thesis
  proof (cases "all_some (map carrier_entry ps)")
    case None
    with assms show ?thesis by (simp add: safe_carrier_def ps)
  next
    case (Some kvs)
    with assms have kv: "(k, v) \<in> set kvs" "k \<in> {''traceparent'', ''tracestate''}"
      by (auto simp: safe_carrier_def ps)
    from all_some_mem [OF Some kv(1)] obtain p where "carrier_entry p = Some (k, v)" by auto
    with carrier_entry_bound kv(2) show ?thesis by blast
  qed
qed

lemma identity_id_wf: "validate_identity_id j = Inr s \<Longrightarrow> j = JStr s \<and> s \<noteq> [] \<and> length s \<le> 256"
  by (cases j) (auto simp: identity_id_ok_def IDENTITY_MAX_LENGTH_def split: if_splits)

section \<open>Properties\<close>

text \<open>
  An accepted envelope holds well-formed frozen values within the depth limits, so the
  engine can freeze them again without a failure.
\<close>

theorem accepted_envelope_stable:
  "case AcceptedEnvelope payload metadata of
     Inl e \<Rightarrow> True
   | Inr e \<Rightarrow> envelope_ok e \<and> from_frozen (en_payload e) (en_metadata e) = Inr e"
  using AcceptedEnvelope_ok [of payload metadata]
  by (auto simp: envelope_ok_def from_frozen_ok split: sum.split)

text \<open>
  Whatever an observer returns as its carrier, only the two W3C trace fields leave
  the engine, each at most 512 characters long.
\<close>

theorem carrier_safe:
  "list_all (\<lambda>(k, v). k \<in> {''traceparent'', ''tracestate''} \<and> length v \<le> MAX_TRACE_FIELD)
     (safe_carrier raw)"
  unfolding list_all_iff using safe_carrier_bounds [of _ _ raw] by blast

end
