(* ===== verification/RunBase.thy ===== *)
theory RunBase imports Records Conditions Boundary Effects begin

text \<open>
  The pure parts of \<^verbatim>\<open>core/runner.py\<close> (limits, outcome validation, binding contexts,
  skipped records, overrides), the context a step receives (\<^verbatim>\<open>ports/execution.py\<close>), and the
  state and the environment of one run. Executor, validator, observer, clock, scheduler and
  regular expressions are code outside the core: they are the fields of \<^verbatim>\<open>run_env\<close>. The
  values constant during a run (identity, deadline, execution ID) are fields of it too.
\<close>

section \<open>Limits\<close>

record execution_limits =
  el_run_timeout :: rat
  el_model_timeout :: rat
  el_tool_timeout :: rat
  el_max_steps :: nat
  el_model_requests :: nat
  el_tool_calls :: nat

definition duration_ok :: "pfloat \<Rightarrow> bool" where
  "duration_ok x = (case x of Fin q \<Rightarrow> 0 < q | _ \<Rightarrow> False)"

definition duration :: "pfloat \<Rightarrow> rat" where
  "duration x = (case x of Fin q \<Rightarrow> q | _ \<Rightarrow> 0)"

definition ExecutionLimits ::
  "pfloat \<Rightarrow> pfloat \<Rightarrow> pfloat \<Rightarrow> int \<Rightarrow> int \<Rightarrow> int \<Rightarrow> execution_limits option" where
  "ExecutionLimits run model tool max_steps requests calls =
     (if list_all duration_ok [run, model, tool] \<and> list_all (\<lambda>v. 1 \<le> v) [max_steps, requests, calls]
      then Some \<lparr>el_run_timeout = duration run, el_model_timeout = duration model,
        el_tool_timeout = duration tool, el_max_steps = nat max_steps,
        el_model_requests = nat requests, el_tool_calls = nat calls\<rparr>
      else None)"

definition DEFAULT_LIMITS :: execution_limits where
  "DEFAULT_LIMITS = \<lparr>el_run_timeout = 900, el_model_timeout = 300, el_tool_timeout = 30,
     el_max_steps = 128, el_model_requests = 16, el_tool_calls = 16\<rparr>"

section \<open>Adapter outcomes\<close>

text \<open>What an executor hands back, before the runner has checked it.\<close>

datatype raw_category = NotCategory | RawCategory pyobj pyobj

datatype raw_selection = NotSelection | RawSelection raw_category pyobj

record raw_outcome =
  ro_is_outcome :: bool
  ro_result :: pyobj
  ro_needs_review :: pyobj
  ro_selection :: "raw_selection option"
  ro_issues :: pyobj

definition issue_of :: "pyobj \<Rightarrow> issue option" where
  "issue_of p = (case p of
     PStr s \<Rightarrow> List.find (\<lambda>i. issue_text i = s)
       [NoSupportedAnswer, ConflictingInformation, MultipleValidOptions]
   | _ \<Rightarrow> None)"

fun selects_category :: "step_body \<Rightarrow> bool" where
  "selects_category (DecisionStep _) = True"
| "selects_category (HandlerStep _) = True"
| "selects_category _ = False"

fun origin_of :: "pyobj \<Rightarrow> origin option" where
  "origin_of (PStr s) = (if s = ''model'' then Some FromModel
     else if s = ''fallback'' then Some FromFallback else None)"
| "origin_of _ = None"

text \<open>A category whose identifier and description have the required types and bounds.\<close>

fun category_of :: "raw_category \<Rightarrow> category option" where
  "category_of NotCategory = None"
| "category_of (RawCategory cid description) =
     (case cid of
        PStr s \<Rightarrow>
          if list_all py_space s \<or> length s > 128 then None
          else (case description of
            PNone \<Rightarrow> Some \<lparr>ct_id = s, ct_description = None\<rparr>
          | PStr d \<Rightarrow> (if d = [] then None else Some \<lparr>ct_id = s, ct_description = Some d\<rparr>)
          | _ \<Rightarrow> None)
      | _ \<Rightarrow> None)"

definition selection_of :: "raw_selection \<Rightarrow> step_body \<Rightarrow> bool \<Rightarrow> (exn, selection) result" where
  "selection_of raw body needs_review =
     (if \<not> selects_category body then raise_code INVALID_OUTPUT
      else case raw of
        NotSelection \<Rightarrow> raise_code INVALID_OUTPUT
      | RawSelection c o' \<Rightarrow>
          (case (category_of c, origin_of o') of
             (Some cat, Some orig) \<Rightarrow>
               (if needs_review \<noteq> (orig = FromFallback) then raise_code INVALID_OUTPUT
                else Inr \<lparr>sl_category = cat, sl_origin = orig\<rparr>)
           | _ \<Rightarrow> raise_code INVALID_OUTPUT))"

text \<open>The checked facts of an outcome; its result is frozen afterwards.\<close>

record checked_outcome =
  ck_needs_review :: bool
  ck_issues :: "issue list"
  ck_selection :: "selection option"

definition validate_outcome :: "raw_outcome \<Rightarrow> step_body \<Rightarrow> (exn, checked_outcome) result" where
  "validate_outcome raw body =
     (if \<not> ro_is_outcome raw then raise_code INVALID_OUTPUT
      else case (ro_needs_review raw, ro_issues raw) of
        (PBool review, PTuple is) \<Rightarrow>
          (case all_some (map issue_of is) of
             None \<Rightarrow> raise_code INVALID_OUTPUT
           | Some issues \<Rightarrow>
               if \<not> distinct issues \<or> (issues \<noteq> [] \<and> \<not> review) then raise_code INVALID_OUTPUT
               else mapR (\<lambda>sel. \<lparr>ck_needs_review = review, ck_issues = issues, ck_selection = sel\<rparr>)
                 (case ro_selection raw of
                    None \<Rightarrow> Inr None
                  | Some sel \<Rightarrow> mapR Some (selection_of sel body review)))
      | _ \<Rightarrow> raise_code INVALID_OUTPUT)"

section \<open>Binding contexts\<close>

definition error_value :: "failure \<Rightarrow> json" where
  "error_value f = JObj (failure_json f)"

definition step_data :: "step_record \<Rightarrow> json" where
  "step_data r = JObj ([(''status'', JStr (status_text (sp_status r)))]
     @ entry_if (sp_has_result r) ''result'' (sp_result r)
     @ entry_if (sp_collection r) ''kind'' (JStr ''flow_collection'')
     @ entry_opt ''selection'' selection_json (sp_selection r)
     @ entry_opt ''partial_result'' JObj (sp_partial r)
     @ entry_opt ''error'' error_value (sp_error r))"

fun attempts_data :: "nat \<Rightarrow> flow_record list \<Rightarrow> json list" where
  "attempts_data i [] = []"
| "attempts_data i (a # as) =
     JObj ([(''attempt'', JInt (of_nat i)), (''status'', JStr (status_text (fr_status a)))]
       @ entry_if (fr_has_result a) ''result'' (fr_result a)
       @ entry_opt ''error'' error_value (fr_error a)) # attempts_data (Suc i) as"

definition flow_data :: "flow_record \<Rightarrow> json" where
  "flow_data r = JObj ([(''status'', JStr (status_text (fr_status r)))]
     @ entry_if (fr_has_result r) ''result'' (fr_result r)
     @ entry_opt ''error'' error_value (fr_error r)
     @ entry_if (fr_attempts r \<noteq> []) ''attempts'' (JArr (attempts_data 1 (fr_attempts r))))"

definition binding_context :: "envelope \<Rightarrow> (string, step_record) dict \<Rightarrow> json" where
  "binding_context e records =
     JObj [(''payload'', en_payload e), (''metadata'', JObj (en_metadata e)),
           (''steps'', JObj (map (\<lambda>(n, r). (n, step_data r)) records))]"

definition workflow_context :: "envelope \<Rightarrow> (string, flow_record) dict \<Rightarrow> json" where
  "workflow_context e records =
     JObj [(''payload'', en_payload e), (''metadata'', JObj (en_metadata e)),
           (''flows'', JObj (map (\<lambda>(n, r). (n, flow_data r)) records))]"

definition step_bindings :: "step \<Rightarrow> bindings" where
  "step_bindings s = (case st_body s of
     DecisionStep d \<Rightarrow> ds_sources d
   | LlmStep l \<Rightarrow> ls_input l
   | McpStep m \<Rightarrow> ms_arguments m
   | HandlerStep h \<Rightarrow> hs_input h
   | CollectionStep c \<Rightarrow> collection_input c)"

section \<open>Skipped records and overrides\<close>

definition empty_step_record :: "status \<Rightarrow> step_record" where
  "empty_step_record st = \<lparr>sp_status = st, sp_result = JNull, sp_has_result = False,
     sp_error = None, sp_elapsed = None, sp_usage = None, sp_selection = None,
     sp_partial = None, sp_collection = False\<rparr>"

definition skipped_step :: "step \<Rightarrow> step_record" where
  "skipped_step s = (empty_step_record Skipped)\<lparr>sp_collection := is_collection (st_body s)\<rparr>"

definition skipped_steps :: "flow \<Rightarrow> (string \<times> step_record) list" where
  "skipped_steps f = map (\<lambda>s. (st_name s, skipped_step s)) (fl_steps f)"

definition skipped :: "flow \<Rightarrow> flow_record" where
  "skipped f = FlowRecord Skipped (skipped_steps f) JNull False None None None [] None"

text \<open>The record of a flow that failed outside its steps.\<close>

definition failed_flow ::
  "flow \<Rightarrow> failure option \<Rightarrow> flow_record list \<Rightarrow> repeat_stop option \<Rightarrow> flow_record" where
  "failed_flow f error attempts stop =
     FlowRecord Failed (skipped_steps f) JNull False (Some usage_zero) (Some 0) error attempts stop"

definition observed :: "status \<Rightarrow> status" where
  "observed st = (if st \<in> {Failed, NeedsReview, Skipped} then st else Completed)"

definition overridden :: "bindings \<Rightarrow> bindings \<Rightarrow> bindings" where
  "overridden base overrides =
     (let replaced = dict_of overrides [] in
      map (\<lambda>(n, b). (n, case get replaced n of Some o' \<Rightarrow> o' | None \<Rightarrow> b)) base)"

text \<open>\<^verbatim>\<open>{**item.payload, **overrides}\<close>.\<close>

definition merged :: "jobj \<Rightarrow> jobj \<Rightarrow> jobj" where
  "merged base overrides = dict_of overrides base"

section \<open>The step context\<close>

datatype flow_role = RoleRouted | RoleCallable | RoleRetry

fun role_text :: "flow_role \<Rightarrow> string" where
  "role_text RoleRouted = ''routed''"
| "role_text RoleCallable = ''callable''"
| "role_text RoleRetry = ''retry''"

record step_context =
  sc_execution_id :: string
  sc_workflow :: string
  sc_revision :: string
  sc_step_id :: string
  sc_identity :: identity
  sc_metadata :: jobj
  sc_deadline :: rat
  sc_model_timeout :: rat
  sc_tool_timeout :: rat
  sc_budget :: budget
  sc_flow_id :: string
  sc_trace :: carrier
  sc_attempt :: nat
  sc_collection_item :: "string option"
  sc_flow_role :: flow_role

section \<open>Environment and state of a run\<close>

text \<open>
  An executor call returns its outcome or exception, the operations it performed on its
  budget, and the world; \<^term>\<open>TimeoutErr\<close> is the run deadline of \<^verbatim>\<open>timeout_at\<close>. A
  suspension answers whether the task was cancelled there.
\<close>

record 'w run_env =
  ev_plan :: workflow
  ev_limits :: execution_limits
  ev_execute :: "step \<Rightarrow> jobj \<Rightarrow> step_context \<Rightarrow> 'w \<Rightarrow>
    (exn, raw_outcome) result \<times> budget_op list \<times> 'w"
  ev_validate_input :: "json \<Rightarrow> (exn, unit) result"
  ev_validate_flow_input :: "string \<Rightarrow> json \<Rightarrow> (exn, unit) result"
  ev_time :: "'w \<Rightarrow> rat \<times> 'w"
  ev_suspend :: "'w \<Rightarrow> bool \<times> 'w"
  ev_carrier :: "'w \<Rightarrow> pyobj option \<times> 'w"
  ev_admit :: "rat \<Rightarrow> 'w \<Rightarrow> (exn, unit) result \<times> 'w"
  ev_release :: "'w \<Rightarrow> 'w"
  ev_fullmatch :: "string \<Rightarrow> string \<Rightarrow> bool"
  ev_execution_id :: string
  ev_identity :: identity
  ev_deadline :: rat

text \<open>
  What an observer sees: every scope opened and closed, and the events of the innermost
  open scope, which is the one every event of the runner addresses.
\<close>

datatype observation =
    ScopeStart "string option" "string option" jobj
  | ScopeEvent string jobj
  | ScopeFinish status "error_code option"

record 'w run_state =
  rs_world :: 'w
  rs_consumed :: nat
  rs_records :: "(string, flow_record) dict"
  rs_active :: "string option"
  rs_scopes :: "(status \<times> error_code option) list"
  rs_log :: "observation list"

definition new_run :: "'w \<Rightarrow> 'w run_state" where
  "new_run w = \<lparr>rs_world = w, rs_consumed = 0, rs_records = [], rs_active = None,
     rs_scopes = [], rs_log = []\<rparr>"

type_synonym ('w, 'a) run = "('w run_state, 'a) eff"

section \<open>Primitive computations\<close>

definition now :: "'w run_env \<Rightarrow> ('w, rat) run" where
  "now env s = (let (t, w) = ev_time env (rs_world s) in (Inr t, s\<lparr>rs_world := w\<rparr>))"

definition suspend :: "'w run_env \<Rightarrow> ('w, unit) run" where
  "suspend env s = (let (cancelled, w) = ev_suspend env (rs_world s) in
     (if cancelled then Inl CancelledErr else Inr (), s\<lparr>rs_world := w\<rparr>))"

definition read_carrier :: "'w run_env \<Rightarrow> ('w, carrier) run" where
  "read_carrier env s = (let (raw, w) = ev_carrier env (rs_world s) in
     (Inr (safe_carrier raw), s\<lparr>rs_world := w\<rparr>))"

definition check_deadline :: "'w run_env \<Rightarrow> ('w, unit) run" where
  "check_deadline env =
     bindM (now env) (\<lambda>t. if ev_deadline env \<le> t then failM RUN_TIMEOUT else ret ())"

definition consume_step :: "'w run_env \<Rightarrow> ('w, unit) run" where
  "consume_step env s =
     (if el_max_steps (ev_limits env) \<le> rs_consumed s then failM STEP_LIMIT_REACHED s
      else (Inr (), s\<lparr>rs_consumed := rs_consumed s + 1\<rparr>))"

definition event :: "string \<Rightarrow> jobj \<Rightarrow> ('w, unit) run" where
  "event name attributes = modM (\<lambda>s. s\<lparr>rs_log := rs_log s @ [ScopeEvent name attributes]\<rparr>)"

definition open_scope :: "string option \<Rightarrow> string option \<Rightarrow> jobj \<Rightarrow> ('w, unit) run" where
  "open_scope fl st attributes = modM (\<lambda>s. s\<lparr>rs_log := rs_log s @ [ScopeStart fl st attributes],
     rs_scopes := (Completed, None) # rs_scopes s\<rparr>)"

text \<open>\<^verbatim>\<open>observation.status, observation.error = ...\<close>\<close>

definition set_outcome :: "status \<Rightarrow> error_code option \<Rightarrow> ('w, unit) run" where
  "set_outcome st code = modM (\<lambda>s. s\<lparr>rs_scopes := (st, code) # tl (rs_scopes s)\<rparr>)"

definition close_scope :: "('w, unit) run" where
  "close_scope = modM (\<lambda>s. s\<lparr>rs_log := rs_log s @
     [case rs_scopes s of (st, code) # _ \<Rightarrow> ScopeFinish st code | [] \<Rightarrow> ScopeFinish Completed None],
     rs_scopes := tl (rs_scopes s)\<rparr>)"

definition observed_error :: "exn \<Rightarrow> status \<times> error_code" where
  "observed_error e =
     (if e = CancelledErr then (Cancelled, CANCELLED)
      else (Failed, case as_service e of
          Some se \<Rightarrow> se_code se
        | None \<Rightarrow> if e = TimeoutErr then RUN_TIMEOUT else DEPENDENCY_FAILURE))"

text \<open>
  \<^verbatim>\<open>with observe(...)\<close>; the body runs at some state over which \<^verbatim>\<open>lift\<close> carries the shared
  run state.
\<close>

definition observe_at ::
  "(('w, unit) run \<Rightarrow> ('s, unit) eff) \<Rightarrow> string option \<Rightarrow> string option \<Rightarrow> jobj \<Rightarrow>
     ('s, 'a) eff \<Rightarrow> ('s, 'a) eff" where
  "observe_at lift fl st attributes body =
     thenM (lift (open_scope fl st attributes))
       (bindM (handleM body (\<lambda>e.
            thenM (lift (thenM (set_outcome (fst (observed_error e)) (Some (snd (observed_error e))))
                close_scope))
              (throw e)))
          (\<lambda>a. thenM (lift close_scope) (ret a)))"

abbreviation observe ::
  "string option \<Rightarrow> string option \<Rightarrow> jobj \<Rightarrow> ('w, 'a) run \<Rightarrow> ('w, 'a) run" where
  "observe \<equiv> observe_at (\<lambda>m. m)"

abbreviation observe_local ::
  "string option \<Rightarrow> string option \<Rightarrow> jobj \<Rightarrow> ('w run_state \<times> 'l, 'a) eff \<Rightarrow>
     ('w run_state \<times> 'l, 'a) eff" where
  "observe_local \<equiv> observe_at liftM"

text \<open>\<^verbatim>\<open>_attributes\<close>\<close>

definition attributes ::
  "'w run_env \<Rightarrow> flow_role option \<Rightarrow> nat option \<Rightarrow> nat option \<Rightarrow> nat option \<Rightarrow> jobj" where
  "attributes env role attempt max_attempts index =
     [(''foliqant.execution.id'', JStr (ev_execution_id env))]
     @ entry_opt ''foliqant.flow.role'' (\<lambda>r. JStr (role_text r)) role
     @ entry_opt ''foliqant.flow.attempt'' (\<lambda>n. JInt (of_nat n)) attempt
     @ entry_opt ''foliqant.flow.max_attempts'' (\<lambda>n. JInt (of_nat n)) max_attempts
     @ entry_opt ''foliqant.collection.index'' (\<lambda>n. JInt (of_nat n)) index"

text \<open>\<^verbatim>\<open>_failure\<close>: a timeout reports the bound that was hit.\<close>

definition timeout_like :: "exn \<Rightarrow> bool" where
  "timeout_like e \<longleftrightarrow> (case as_service e of
     Some se \<Rightarrow> se_code se \<in> set TIMEOUT_CODES \<and> \<not> se_retryable se | None \<Rightarrow> False)"

definition failure_at :: "'w run_env \<Rightarrow> exn \<Rightarrow> ('w, failure) run" where
  "failure_at env e =
     (if e = TimeoutErr \<or> timeout_like e
      then bindM (now env) (\<lambda>t. ret (failure_code (timeout_code t (ev_deadline env))))
      else ret (case as_service e of
          Some se \<Rightarrow> failure_of se | None \<Rightarrow> failure_code DEPENDENCY_FAILURE))"

section \<open>Conditions and routes\<close>

fun reason_text :: "mismatch_reason \<Rightarrow> string" where
  "reason_text IncompatibleType = ''incompatible_type''"
| "reason_text ValueTooLong = ''value_too_long''"

fun report_mismatches :: "string \<Rightarrow> mismatch list \<Rightarrow> ('w, unit) run" where
  "report_mismatches location [] = ret ()"
| "report_mismatches location (m # ms) =
     thenM (event ''condition.type_mismatch''
         [(''location'', JStr location), (''operator'', JStr (operator_name (lf_operator (mm_leaf m)))),
          (''reason'', JStr (reason_text (mm_reason m)))])
       (report_mismatches location ms)"

definition report :: "string \<Rightarrow> bool \<Rightarrow> mismatch list \<Rightarrow> ('w, unit) run" where
  "report location result ms =
     thenM (event ''condition.evaluated'' [(''location'', JStr location), (''result'', JBool result)])
       (report_mismatches location ms)"

definition condition_holds :: "'w run_env \<Rightarrow> condition \<Rightarrow> string \<Rightarrow> json \<Rightarrow> ('w, bool) run" where
  "condition_holds env c location context =
     bindM (pureM (evaluate_condition (ev_fullmatch env) c context)) (\<lambda>(result, ms).
       thenM (report location result ms) (ret result))"

fun select_from ::
  "'w run_env \<Rightarrow> string \<Rightarrow> json \<Rightarrow> nat \<Rightarrow> route_entry list \<Rightarrow> ('w, target \<times> nat) run" where
  "select_from env location context i [] = failM INVALID_CONFIGURATION"
| "select_from env location context i (entry # rest) =
     (case re_when entry of
        None \<Rightarrow> ret (re_target entry, i)
      | Some c \<Rightarrow>
          bindM (condition_holds env c (location @ ''.'' @ nat_text i) context) (\<lambda>b.
            if b then ret (re_target entry, i) else select_from env location context (Suc i) rest))"

definition select_route ::
  "'w run_env \<Rightarrow> conditional_routing \<Rightarrow> string \<Rightarrow> json \<Rightarrow> ('w, target \<times> nat) run" where
  "select_route env route location context = select_from env location context 0 route"

fun kind_text :: "route_kind \<Rightarrow> string" where
  "kind_text KindDirect = ''direct''"
| "kind_text KindCases = ''cases''"
| "kind_text KindRoute = ''route''"
| "kind_text KindReview = ''review''"

fun terminal_text :: "terminal \<Rightarrow> string" where
  "terminal_text OutCompleted = ''completed''"
| "terminal_text OutNeedsReview = ''needs_review''"

fun terminal_status :: "terminal \<Rightarrow> status" where
  "terminal_status OutCompleted = Completed"
| "terminal_status OutNeedsReview = NeedsReview"

definition target_text :: "target \<Rightarrow> string" where
  "target_text t = (case tg_flow t of
     Some (c # cs) \<Rightarrow> c # cs
   | _ \<Rightarrow> (case tg_outcome t of Some oc \<Rightarrow> terminal_text oc | None \<Rightarrow> []))"

definition index_entry :: "nat option \<Rightarrow> jobj" where
  "index_entry i = entry_opt ''index'' (\<lambda>n. JInt (of_nat n)) i"

text \<open>\<^verbatim>\<open>_start\<close>\<close>

definition select_start :: "'w run_env \<Rightarrow> envelope \<Rightarrow> ('w, start_record) run" where
  "select_start env e =
     bindM (case wf_start (ev_plan env) of
         StartFlow n \<Rightarrow> ret \<lparr>sa_flow = n, sa_kind = KindDirect, sa_index = None\<rparr>
       | StartRoute route \<Rightarrow>
           bindM (select_route env route ''start.route''
               (JObj [(''payload'', en_payload e), (''metadata'', JObj (en_metadata e))])) (\<lambda>(t, i).
             case tg_flow t of
               None \<Rightarrow> failM INVALID_CONFIGURATION
             | Some n \<Rightarrow> ret \<lparr>sa_flow = n, sa_kind = KindRoute, sa_index = Some i\<rparr>))
       (\<lambda>sel. thenM (event ''route.selected''
            ([(''kind'', JStr (kind_text (sa_kind sel))), (''target'', JStr (sa_flow sel))]
             @ index_entry (sa_index sel)))
          (ret sel))"

text \<open>The review branch and the completion branch of \<^verbatim>\<open>_target\<close>.\<close>

definition review_target ::
  "'w run_env \<Rightarrow> flow \<Rightarrow> issue list \<Rightarrow> json \<Rightarrow> ('w, target \<times> nat option \<times> string option) run" where
  "review_target env f issues context =
     bindM (case fl_on_unresolved f of
         None \<Rightarrow> ret (\<lparr>tg_flow = None, tg_outcome = Some OutNeedsReview\<rparr>, None, None)
       | Some (RIssues r) \<Rightarrow> ret (let (t, i) = select_unresolved r issues in (t, None, map_option issue_text i))
       | Some (RRoute route) \<Rightarrow>
           bindM (select_route env route ''on_unresolved.route'' context) (\<lambda>(t, i). ret (t, Some i, None))
       | Some (RTarget t) \<Rightarrow> ret (t, None, None))
     (\<lambda>(t, i, c). if tg_outcome t = Some OutCompleted then failM INVALID_CONFIGURATION
        else ret (t, i, c))"

definition completed_target ::
  "'w run_env \<Rightarrow> flow \<Rightarrow> json \<Rightarrow> ('w, target \<times> route_kind \<times> nat option \<times> string option) run" where
  "completed_target env f context =
     (case fl_transition f of
        None \<Rightarrow> failM INVALID_CONFIGURATION
      | Some (TTarget t) \<Rightarrow> ret (t, KindDirect, None, None)
      | Some (TRoute route) \<Rightarrow>
          bindM (select_route env route ''transition.route'' context) (\<lambda>(t, i).
            ret (t, KindRoute, Some i, None))
      | Some (TMatch r) \<Rightarrow>
          bindM (pureM (resolve_binding (mr_binding r) context)) (\<lambda>v. case v of
            JNull \<Rightarrow> ret (mr_default r, KindCases, None, None)
          | JStr s \<Rightarrow> (case get (dict_of (mr_cases r) []) s of
                Some t \<Rightarrow> ret (t, KindCases, None, Some s)
              | None \<Rightarrow> ret (mr_default r, KindCases, None, None))
          | _ \<Rightarrow> failM INVALID_INPUT))"

definition select_target ::
  "'w run_env \<Rightarrow> flow \<Rightarrow> flow_record \<Rightarrow> issue list \<Rightarrow> json \<Rightarrow> ('w, target \<times> transition_record) run" where
  "select_target env f record issues context =
     bindM (if fr_status record = NeedsReview
         then bindM (review_target env f issues context) (\<lambda>(t, i, c). ret (t, KindReview, i, c))
         else completed_target env f context)
     (\<lambda>(t, kind, i, c).
       if (tg_flow t = None) = (tg_outcome t = None) then failM INVALID_CONFIGURATION
       else thenM (event ''route.selected''
            ([(''kind'', JStr (kind_text kind)), (''target'', JStr (target_text t))]
             @ index_entry i @ entry_opt ''case'' JStr c))
          (ret (t, \<lparr>tr_source = fl_name f,
             tr_reason = (if fr_status record = NeedsReview then NeedsReview else Completed),
             tr_flow = tg_flow t, tr_outcome = tg_outcome t, tr_kind = kind, tr_index = i,
             tr_case = c\<rparr>)))"

section \<open>Properties\<close>

text \<open>Whether a route entry can be selected in a context.\<close>

definition entry_matches :: "'w run_env \<Rightarrow> json \<Rightarrow> route_entry \<Rightarrow> bool" where
  "entry_matches env context entry = (case re_when entry of
     None \<Rightarrow> True
   | Some c \<Rightarrow> (case evaluate_condition (ev_fullmatch env) c context of
       Inr (b, _) \<Rightarrow> b | Inl _ \<Rightarrow> False))"

lemma report_mismatches_ret: "\<exists>s'. report_mismatches l ms s = (Inr (), s')"
  by (induction ms arbitrary: s) (simp_all add: ret_def thenM_def bindM_def event_def modM_def)

lemma condition_holds_result:
  "fst (condition_holds env c l context s) =
     (case evaluate_condition (ev_fullmatch env) c context of Inl e \<Rightarrow> Inl e | Inr (b, _) \<Rightarrow> Inr b)"
proof (cases "evaluate_condition (ev_fullmatch env) c context")
  case (Inr p)
  obtain b ms where p: "p = (b, ms)" by fastforce
  let ?s = "s\<lparr>rs_log := rs_log s @ [ScopeEvent ''condition.evaluated''
      [(''location'', JStr l), (''result'', JBool b)]]\<rparr>"
  from report_mismatches_ret [of l ms ?s] show ?thesis
    by (auto simp: Inr p condition_holds_def bindM_def thenM_def pureM_def ret_def report_def event_def modM_def)
qed (simp add: condition_holds_def bindM_def pureM_def)

text \<open>
  A conditional route selects its first entry whose condition holds (or that has
  none), with its index; with no such entry, or when a condition raises, it fails.
\<close>

theorem route_first_match:
  "case select_from env location context i es s of
     (Inr (t, j), _) \<Rightarrow> i \<le> j \<and> j < i + length es \<and> t = re_target (es ! (j - i)) \<and>
       entry_matches env context (es ! (j - i)) \<and>
       list_all (\<lambda>e. \<not> entry_matches env context e) (take (j - i) es)
   | (Inl e, _) \<Rightarrow> True"
proof (induction es arbitrary: i s)
  case Nil
  show ?case by (simp add: failM_def throw_def raise_code_def)
next
  case (Cons en es)
  show ?case
  proof (cases "re_when en")
    case None
    then show ?thesis by (simp add: ret_def entry_matches_def)
  next
    case (Some c)
    obtain r s' where h: "condition_holds env c (location @ ''.'' @ nat_text i) context s = (r, s')"
      by fastforce
    with condition_holds_result [of env c "location @ ''.'' @ nat_text i" "context" s]
    have r: "r = (case evaluate_condition (ev_fullmatch env) c context of Inl e \<Rightarrow> Inl e | Inr (b, _) \<Rightarrow> Inr b)"
      by simp
    show ?thesis
    proof (cases r)
      case (Inl e)
      with h Some show ?thesis by (simp add: bindM_def)
    next
      case (Inr b)
      with r have m: "entry_matches env context en = b"
        by (auto simp: entry_matches_def Some split: sum.splits prod.splits)
      show ?thesis
      proof (cases b)
        case True
        with h Some Inr m show ?thesis by (simp add: bindM_def ret_def)
      next
        case False
        have n: "(en # es) ! (j - i) = es ! (j - Suc i) \<and> take (j - i) (en # es) = en # take (j - Suc i) es"
          if "Suc i \<le> j" for j
        proof -
          from that have "j - i = Suc (j - Suc i)" by simp
          then show ?thesis by simp
        qed
        show ?thesis
          using Cons.IH [of "Suc i" s'] h Some Inr m False
          by (auto simp: bindM_def n split: prod.splits sum.splits)
      qed
    qed
  qed
qed

end
