(* ===== verification/Runner.thy ===== *)
theory Runner imports RunBase begin

text \<open>
  The engine of \<^verbatim>\<open>core/runner.py\<close>: execution of one flow with its steps, collections and
  repeats, the routing of a run from flow to flow, and admission. A coroutine is a
  computation over the run state; local variables that outlive an exception (those a handler
  or the code after a loop reads) are a record of locals. Nested flows of collections are
  executed by the same function one level deeper, up to \<^term>\<open>MAX_COLLECTION_DEPTH\<close>.
\<close>

section \<open>Executing one flow\<close>

text \<open>The arguments of \<^verbatim>\<open>_execute_flow\<close>.\<close>

record flow_call =
  fc_flow :: flow
  fc_envelope :: envelope
  fc_step_id :: "string option"
  fc_attempt :: nat
  fc_role :: flow_role
  fc_item :: "string option"

record flow_locals =
  lo_records :: "(string, step_record) dict"
  lo_usage :: usage
  lo_status :: status
  lo_error :: "failure option"
  lo_result :: json
  lo_has_result :: bool
  lo_active :: "string option"
  lo_step_started :: rat
  lo_step_usage :: usage
  lo_issues :: "issue list"

type_synonym ('w, 'a) flow_run = "('w run_state \<times> flow_locals, 'a) eff"

text \<open>How the engine runs a nested flow: the level below.\<close>

type_synonym 'w child = "flow_call \<Rightarrow> ('w, flow_record \<times> issue list) run"

definition call_steps :: "flow_call \<Rightarrow> step list" where
  "call_steps c = filter (\<lambda>s. fc_step_id c = None \<or> Some (st_name s) = fc_step_id c)
     (fl_steps (fc_flow c))"

definition initial_locals :: "flow_call \<Rightarrow> rat \<Rightarrow> flow_locals" where
  "initial_locals c started =
     \<lparr>lo_records = dict_of (map (\<lambda>s. (st_name s, skipped_step s)) (call_steps c)) [],
      lo_usage = usage_zero, lo_status = Completed, lo_error = None,
      lo_result = en_payload (fc_envelope c), lo_has_result = False, lo_active = None,
      lo_step_started = started, lo_step_usage = usage_zero, lo_issues = []\<rparr>"

definition locally :: "(flow_locals \<Rightarrow> flow_locals) \<Rightarrow> ('w, unit) flow_run" where
  "locally f = modM (\<lambda>p. (fst p, f (snd p)))"

definition step_context_of ::
  "'w run_env \<Rightarrow> flow_call \<Rightarrow> step \<Rightarrow> carrier \<Rightarrow> step_context" where
  "step_context_of env c step trace =
     \<lparr>sc_execution_id = ev_execution_id env, sc_workflow = wf_name (ev_plan env),
      sc_revision = wf_revision (ev_plan env), sc_step_id = st_name step,
      sc_identity = ev_identity env, sc_metadata = en_metadata (fc_envelope c),
      sc_deadline = ev_deadline env, sc_model_timeout = el_model_timeout (ev_limits env),
      sc_tool_timeout = el_tool_timeout (ev_limits env),
      sc_budget = new_budget (el_model_requests (ev_limits env)) (el_tool_calls (ev_limits env)),
      sc_flow_id = fl_name (fc_flow c), sc_trace = trace, sc_attempt = fc_attempt c,
      sc_collection_item = fc_item c, sc_flow_role = fc_role c\<rparr>"

definition step_attributes :: "'w run_env \<Rightarrow> flow_call \<Rightarrow> step \<Rightarrow> jobj" where
  "step_attributes env c step =
     attributes env None
       (if fl_repeat (fc_flow c) \<noteq> None \<or> fc_role c = RoleRetry then Some (fc_attempt c) else None)
       None None
     @ [(''foliqant.step.kind'', JStr (st_type step))]"

definition step_location :: "step \<Rightarrow> string" where
  "step_location step = ''steps.'' @ st_name step @ ''.when''"

text \<open>The guard of a step, evaluated before its scope opens; a single step has none.\<close>

definition step_guard ::
  "'w run_env \<Rightarrow> flow_call \<Rightarrow> step \<Rightarrow> ('w, (bool \<times> mismatch list) option) flow_run" where
  "step_guard env c step =
     (case st_when step of
        Some w \<Rightarrow> (if fc_step_id c \<noteq> None then ret None
          else bindM (getM snd) (\<lambda>l. bindM (pureM (evaluate_condition (ev_fullmatch env) w
              (binding_context (fc_envelope c) (lo_records l)))) (\<lambda>g. ret (Some g))))
      | None \<Rightarrow> ret None)"

definition skip_step ::
  "'w run_env \<Rightarrow> flow_call \<Rightarrow> step \<Rightarrow> mismatch list \<Rightarrow> ('w, unit) flow_run" where
  "skip_step env c step ms =
     observe_local (Some (fl_name (fc_flow c))) (Some (st_name step))
       (step_attributes env c step @ [(''foliqant.step.skipped'', JBool True)])
       (thenM (liftM (set_outcome Skipped None))
         (thenM (liftM (report (step_location step) False ms))
           (liftM (event ''step.skipped'' [(''condition'', JStr (case st_when step of
              Some w \<Rightarrow> describe_condition w | None \<Rightarrow> []))]))))"

definition step_inputs :: "flow_call \<Rightarrow> step \<Rightarrow> ('w, jobj) flow_run" where
  "step_inputs c step =
     (if fc_step_id c \<noteq> None
      then (case en_payload (fc_envelope c) of
              JObj ps \<Rightarrow> ret ps | _ \<Rightarrow> failM INVALID_INPUT)
      else bindM (getM snd) (\<lambda>l. pureM (resolve_bindings (step_bindings step)
             (binding_context (fc_envelope c) (lo_records l)))))"

section \<open>Operation steps\<close>

text \<open>The awaited executor call: its result and the budget it leaves; it raises nothing here.\<close>

definition call_executor ::
  "'w run_env \<Rightarrow> step \<Rightarrow> jobj \<Rightarrow> step_context \<Rightarrow> ('w, (exn, raw_outcome) result \<times> budget) run" where
  "call_executor env step inputs ctx s =
     (let (r, ops, w) = ev_execute env step inputs ctx (rs_world s) in
      (Inr (r, budget_run (sc_budget ctx) ops), s\<lparr>rs_world := w\<rparr>))"

text \<open>The \<^verbatim>\<open>except\<close> clauses around it: deadlines are reported by the bound they hit.\<close>

definition executor_result :: "'w run_env \<Rightarrow> (exn, raw_outcome) result \<Rightarrow> ('w, raw_outcome) run" where
  "executor_result env r = (case r of
     Inr o' \<Rightarrow> ret o'
   | Inl e \<Rightarrow>
       if e = TimeoutErr then failM RUN_TIMEOUT
       else if timeout_like e
       then bindM (now env) (\<lambda>t. failM (timeout_code t (ev_deadline env)))
       else throw e)"

text \<open>The \<^verbatim>\<open>finally\<close> clause: what was used counts, however the call ended.\<close>

definition account_usage :: "budget \<Rightarrow> ('w, unit) flow_run" where
  "account_usage b =
     bindM (pureM (snapshot b)) (\<lambda>u.
       locally (\<lambda>l. l\<lparr>lo_step_usage := u, lo_usage := usage_plus (lo_usage l) u\<rparr>))"

definition freeze_result :: "pyobj \<Rightarrow> (exn, json) result" where
  "freeze_result v = (case freeze_json v of
     Inl _ \<Rightarrow> raise_code INVALID_OUTPUT | Inr j \<Rightarrow> Inr j)"

definition outcome_status :: "checked_outcome \<Rightarrow> status" where
  "outcome_status ck = (if ck_needs_review ck then NeedsReview else Completed)"

text \<open>Recording a valid outcome; the answer is whether the flow goes on.\<close>

definition record_outcome ::
  "'w run_env \<Rightarrow> flow_call \<Rightarrow> step \<Rightarrow> checked_outcome \<Rightarrow> json \<Rightarrow> ('w, bool) flow_run" where
  "record_outcome env c step ck value =
     thenM (liftM (set_outcome (outcome_status ck) None))
      (bindM (liftM (now env)) (\<lambda>t.
        thenM (locally (\<lambda>l. l\<lparr>
           lo_records := put (st_name step)
             \<lparr>sp_status = outcome_status ck, sp_result = value, sp_has_result = True,
              sp_error = None, sp_elapsed = Some (t - lo_step_started l),
              sp_usage = Some (lo_step_usage l), sp_selection = ck_selection ck,
              sp_partial = None, sp_collection = False\<rparr> (lo_records l),
           lo_active := None,
           lo_result := (if fc_step_id c \<noteq> None then value else lo_result l)\<rparr>))
        (if ck_needs_review ck
         then thenM (locally (\<lambda>l. l\<lparr>lo_status := NeedsReview, lo_issues := ck_issues ck\<rparr>))
           (thenM (liftM (whenM (case st_body step of HandlerStep _ \<Rightarrow> True | _ \<Rightarrow> False)
               (event ''handler.review''
                 [(''issues'', JArr (map (\<lambda>i. JStr (issue_text i)) (ck_issues ck)))])))
             (ret False))
         else ret True)))"

definition run_operation ::
  "'w run_env \<Rightarrow> flow_call \<Rightarrow> step \<Rightarrow> jobj \<Rightarrow> ('w, bool) flow_run" where
  "run_operation env c step inputs =
     bindM (liftM (read_carrier env)) (\<lambda>trace.
      bindM (liftM (call_executor env step inputs (step_context_of env c step trace))) (\<lambda>(r, b).
       bindM (finallyM (liftM (executor_result env r)) (account_usage b)) (\<lambda>raw.
        thenM (liftM (check_deadline env))
         (bindM (pureM (validate_outcome raw (st_body step))) (\<lambda>ck.
           bindM (pureM (freeze_result (ro_result raw))) (record_outcome env c step ck))))))"

section \<open>Repeats\<close>

type_synonym flow_records = "(string, flow_record) dict"

text \<open>A repeat runs over the flow records of its scope: the run's own, or those of one item.\<close>

type_synonym ('w, 'a) scope_run = "('w run_state \<times> flow_records, 'a) eff"

record item =
  it_id :: string
  it_index :: nat
  it_payload :: jobj

record repeat_decision =
  rd_stop :: "repeat_stop option"
  rd_issues :: "issue list"
  rd_status :: "status option"
  rd_failure :: "failure option"
  rd_inputs :: "jobj option"

definition stop_repeat :: "repeat_stop \<Rightarrow> issue list \<Rightarrow> repeat_decision" where
  "stop_repeat stop issues = \<lparr>rd_stop = Some stop, rd_issues = issues, rd_status = None,
     rd_failure = None, rd_inputs = None\<rparr>"

definition record_flow :: "string \<Rightarrow> flow_record \<Rightarrow> ('w, unit) scope_run" where
  "record_flow n r = modM (\<lambda>p. (fst p, put n r (snd p)))"

text \<open>\<^verbatim>\<open>_flow_input\<close>\<close>

definition flow_input ::
  "'w run_env \<Rightarrow> string \<Rightarrow> bindings \<Rightarrow> envelope \<Rightarrow> flow_records \<Rightarrow> (exn, jobj) result" where
  "flow_input env name bs e records =
     bindE (resolve_bindings bs (workflow_context e records)) (\<lambda>inputs.
       mapR (\<lambda>_. inputs) (ev_validate_flow_input env name (JObj inputs)))"

definition error_code_of :: "flow_record \<Rightarrow> error_code option" where
  "error_code_of r = map_option fa_code (fr_error r)"

text \<open>The input of the next attempt, in the repeat's scope.\<close>

definition next_input ::
  "'w run_env \<Rightarrow> flow \<Rightarrow> repeat_plan \<Rightarrow> envelope \<Rightarrow> item option \<Rightarrow> ('w, jobj) scope_run" where
  "next_input env f rp e it =
     thenM (liftM (check_deadline env)) (bindM (getM snd) (\<lambda>records.
       case it of
         None \<Rightarrow> pureM (flow_input env (fl_name f) (overridden (fl_input f) (rp_retry_input rp)) e records)
       | Some i \<Rightarrow>
           bindM (pureM (resolve_bindings (rp_retry_input rp) (workflow_context e records))) (\<lambda>o'.
             let inputs = merged (it_payload i) o' in
             thenM (pureM (ev_validate_flow_input env (fl_name f) (JObj inputs))) (ret inputs))))"

definition decide_next ::
  "'w run_env \<Rightarrow> flow \<Rightarrow> repeat_plan \<Rightarrow> issue list \<Rightarrow> envelope \<Rightarrow> item option \<Rightarrow>
     ('w, repeat_decision) scope_run" where
  "decide_next env f rp issues e it =
     exceptM (bindM (next_input env f rp e it) (\<lambda>inputs.
         ret \<lparr>rd_stop = None, rd_issues = issues, rd_status = None, rd_failure = None,
           rd_inputs = Some inputs\<rparr>))
       (\<lambda>caught. bindM (liftM (failure_at env caught)) (\<lambda>failure.
         ret ((stop_repeat StopFailure issues)\<lparr>rd_failure := Some failure\<rparr>)))"

text \<open>
  The retry flow between two attempts; \<^term>\<open>None\<close> means the repeat may go on. Every run of
  the retry flow is appended to its record's attempts.
\<close>

definition retry_flow_call :: "flow \<Rightarrow> envelope \<Rightarrow> nat \<Rightarrow> item option \<Rightarrow> flow_call" where
  "retry_flow_call retry e attempt it =
     \<lparr>fc_flow = retry, fc_envelope = e, fc_step_id = None, fc_attempt = attempt,
      fc_role = RoleRetry, fc_item = map_option it_id it\<rparr>"

definition observe_record :: "flow_record \<Rightarrow> ('w, unit) run" where
  "observe_record r = set_outcome (observed (fr_status r)) (error_code_of r)"

definition run_retry ::
  "'w run_env \<Rightarrow> 'w child \<Rightarrow> repeat_plan \<Rightarrow> flow \<Rightarrow> nat \<Rightarrow> issue list \<Rightarrow> envelope \<Rightarrow>
     item option \<Rightarrow> flow_record list \<Rightarrow> jobj \<Rightarrow> ('w, repeat_decision option) scope_run" where
  "run_retry env child rp retry attempt issues e it runs inputs =
     bindM (observe_local (Some (fl_name retry)) None
         (attributes env (Some RoleRetry) (Some (length runs + 1)) None (map_option it_index it))
         (bindM (pureM (from_frozen (JObj inputs) (en_metadata e))) (\<lambda>le.
           bindM (liftM (child (retry_flow_call retry le attempt it))) (\<lambda>(record, retry_issues).
             thenM (liftM (observe_record record)) (ret (record, retry_issues))))))
      (\<lambda>(record, retry_issues).
        thenM (record_flow (fl_name retry) (with_attempts record (runs @ [record])))
         (if fr_status record = Failed
          then ret (Some ((stop_repeat StopFailure issues)\<lparr>rd_failure := fr_error record\<rparr>))
          else if fr_status record = NeedsReview
          then ret (Some ((stop_repeat StopReview retry_issues)\<lparr>rd_status := Some NeedsReview\<rparr>))
          else case rp_continue_when rp of
            None \<Rightarrow> ret None
          | Some w \<Rightarrow>
              bindM (getM snd) (\<lambda>records.
                bindM (liftM (condition_holds env w ''repeat.retry.continue_when''
                    (workflow_context e records))) (\<lambda>b.
                  ret (if b then None else Some (stop_repeat StopContinueWhen issues))))))"

definition retry_phase ::
  "'w run_env \<Rightarrow> 'w child \<Rightarrow> repeat_plan \<Rightarrow> nat \<Rightarrow> issue list \<Rightarrow> envelope \<Rightarrow> item option \<Rightarrow>
     ('w, repeat_decision option) scope_run" where
  "retry_phase env child rp attempt issues e it =
     (case rp_retry_flow rp of
        None \<Rightarrow> ret None
      | Some n \<Rightarrow>
         (case workflow_flow (ev_plan env) n of
            None \<Rightarrow> throw OtherErr
          | Some retry \<Rightarrow>
             bindM (getM snd) (\<lambda>records.
               let runs = (case get records (fl_name retry) of Some p \<Rightarrow> fr_attempts p | None \<Rightarrow> []) in
               bindM (exceptM
                  (bindM (pureM (flow_input env (fl_name retry) (rp_retry_flow_input rp) e records))
                    (\<lambda>inputs. ret (Inl inputs)))
                  (\<lambda>caught. bindM (liftM (failure_at env caught)) (\<lambda>failure.
                    let failed = failed_flow retry (Some failure) [] None in
                    thenM (record_flow (fl_name retry) (with_attempts failed (runs @ [failed])))
                      (ret (Inr ((stop_repeat StopFailure issues)\<lparr>rd_failure := Some failure\<rparr>))))))
                (\<lambda>r. case r of
                   Inl inputs \<Rightarrow> run_retry env child rp retry attempt issues e it runs inputs
                 | Inr d \<Rightarrow> ret (Some d)))))"

text \<open>\<^verbatim>\<open>_repeat_decision\<close>\<close>

definition repeat_step ::
  "'w run_env \<Rightarrow> 'w child \<Rightarrow> flow \<Rightarrow> repeat_plan \<Rightarrow> flow_record \<Rightarrow> nat \<Rightarrow> issue list \<Rightarrow> envelope \<Rightarrow>
     item option \<Rightarrow> ('w, repeat_decision) scope_run" where
  "repeat_step env child f rp record attempt issues e it =
     (if fr_status record = Failed then ret (stop_repeat StopFailure issues)
      else if fr_status record = NeedsReview then ret (stop_repeat StopReview issues)
      else bindM (getM snd) (\<lambda>records.
        bindM (liftM (condition_holds env (rp_until rp) ''repeat.until'' (workflow_context e records)))
         (\<lambda>b. if b then ret (stop_repeat StopUntil issues)
           else if rp_max_attempts rp \<le> attempt then ret (stop_repeat StopExhausted issues)
           else bindM (retry_phase env child rp attempt issues e it) (\<lambda>d.
             case d of Some stop \<Rightarrow> ret stop | None \<Rightarrow> decide_next env f rp issues e it))))"

text \<open>
  One attempt of a flow with \<^verbatim>\<open>repeat\<close> after its execution: record it, decide, and record
  the decision. The answer is the next input, or the stop.
\<close>

definition repeat_attempt ::
  "'w run_env \<Rightarrow> 'w child \<Rightarrow> flow \<Rightarrow> repeat_plan \<Rightarrow> flow_record \<Rightarrow> flow_record list \<Rightarrow> nat \<Rightarrow>
     issue list \<Rightarrow> envelope \<Rightarrow> item option \<Rightarrow> ('w, repeat_decision) scope_run" where
  "repeat_attempt env child f rp record attempts attempt issues e it =
     thenM (record_flow (fl_name f) (with_attempts record attempts))
      (bindM (repeat_step env child f rp record attempt issues e it) (\<lambda>d.
        thenM (record_flow (fl_name f) (with_stop record
             (case rd_status d of Some st \<Rightarrow> st | None \<Rightarrow> fr_status record) attempts (rd_stop d)))
          (thenM (case rd_stop d of
               None \<Rightarrow> ret ()
             | Some stop \<Rightarrow> liftM (event ''repeat.stopped'' [(''stopped_by'', JStr (stop_text stop))]))
           (ret d))))"

section \<open>Collections\<close>

text \<open>\<^verbatim>\<open>_run_item\<close>: the attempts of one collection item.\<close>

definition item_call :: "flow \<Rightarrow> envelope \<Rightarrow> nat \<Rightarrow> item \<Rightarrow> flow_call" where
  "item_call f e attempt it =
     \<lparr>fc_flow = f, fc_envelope = e, fc_step_id = None, fc_attempt = attempt,
      fc_role = RoleCallable, fc_item = Some (it_id it)\<rparr>"

definition max_attempts_of :: "flow \<Rightarrow> nat" where
  "max_attempts_of f = (case fl_repeat f of Some rp \<Rightarrow> rp_max_attempts rp | None \<Rightarrow> 1)"

definition attempt_attributes ::
  "'w run_env \<Rightarrow> flow \<Rightarrow> flow_role \<Rightarrow> nat \<Rightarrow> nat option \<Rightarrow> jobj" where
  "attempt_attributes env f role attempt index =
     attributes env (Some role)
       (if fl_repeat f \<noteq> None then Some attempt else None)
       (if fl_repeat f \<noteq> None then Some (max_attempts_of f) else None) index"

type_synonym item_result = "flow_record \<times> flow_record option \<times> failure option"

text \<open>One attempt: either the next input with the attempts so far, or the item's result.\<close>

definition item_attempt ::
  "'w run_env \<Rightarrow> 'w child \<Rightarrow> flow \<Rightarrow> item \<Rightarrow> jobj \<Rightarrow> envelope \<Rightarrow> nat \<Rightarrow> flow_record list \<Rightarrow> jobj \<Rightarrow>
     ('w, (jobj \<times> flow_record list) + item_result) scope_run" where
  "item_attempt env child f it metadata e attempt attempts inputs =
     observe_local (Some (fl_name f)) None (attempt_attributes env f RoleCallable attempt (Some (it_index it)))
      (bindM (pureM (from_frozen (JObj inputs) metadata)) (\<lambda>le.
        bindM (liftM (child (item_call f le attempt it))) (\<lambda>(record, issues).
         thenM (liftM (observe_record record))
          (case fl_repeat f of
             None \<Rightarrow> ret (Inr (record, None, None))
           | Some rp \<Rightarrow>
              bindM (repeat_attempt env child f rp record (attempts @ [record]) attempt issues e (Some it))
               (\<lambda>d. case (rd_stop d, rd_inputs d) of
                  (None, Some inputs') \<Rightarrow> ret (Inl (inputs', attempts @ [record]))
                | (None, None) \<Rightarrow> throw OtherErr
                | (Some _, _) \<Rightarrow> bindM (getM snd) (\<lambda>records.
                    case get records (fl_name f) of
                      None \<Rightarrow> throw OtherErr
                    | Some r \<Rightarrow> ret (Inr (r,
                        (case rp_retry_flow rp of Some n \<Rightarrow> get records n | None \<Rightarrow> None),
                        rd_failure d))))))))"

fun item_attempts ::
  "'w run_env \<Rightarrow> 'w child \<Rightarrow> flow \<Rightarrow> item \<Rightarrow> jobj \<Rightarrow> envelope \<Rightarrow> nat list \<Rightarrow> flow_record list \<Rightarrow> jobj \<Rightarrow>
     ('w, item_result) scope_run" where
  "item_attempts env child f it metadata e [] attempts inputs = failM INVALID_CONFIGURATION"
| "item_attempts env child f it metadata e (n # ns) attempts inputs =
     bindM (item_attempt env child f it metadata e n attempts inputs) (\<lambda>r. case r of
       Inl (inputs', attempts') \<Rightarrow> item_attempts env child f it metadata e ns attempts' inputs'
     | Inr result \<Rightarrow> ret result)"

definition run_item ::
  "'w run_env \<Rightarrow> 'w child \<Rightarrow> flow \<Rightarrow> item \<Rightarrow> jobj \<Rightarrow> ('w, item_result) run" where
  "run_item env child f it metadata =
     bindM (pureM (from_frozen (JObj (it_payload it)) metadata)) (\<lambda>e.
       withM [] (item_attempts env child f it metadata e [1..<Suc (max_attempts_of f)] [] (it_payload it)))"

text \<open>\<^verbatim>\<open>_ITEM_ID\<close>: lower-case words of letters and digits joined by single underscores.\<close>

definition item_id_ok :: "string \<Rightarrow> bool" where
  "item_id_ok s = name_ok s"

text \<open>Validation of the whole batch, before any item runs.\<close>

fun validate_items ::
  "'w run_env \<Rightarrow> collection_step \<Rightarrow> string list \<Rightarrow> json list \<Rightarrow>
     ('w, (string \<times> flow \<times> jobj) list) run" where
  "validate_items env cs seen [] = ret []"
| "validate_items env cs seen (raw # rest) =
     thenM (check_deadline env)
      (case raw of
         JObj o' \<Rightarrow>
           if set (keys o') \<noteq> {''id'', ''flow'', ''input''} then failM INVALID_INPUT
           else (case (get o' ''id'', get o' ''flow'', get o' ''input'') of
             (Some (JStr i), Some (JStr n), Some (JObj payload)) \<Rightarrow>
               if \<not> item_id_ok i \<or> i \<in> set seen \<or> n \<notin> set (cs_flows cs) then failM INVALID_INPUT
               else (case workflow_flow (ev_plan env) n of
                   None \<Rightarrow> failM INVALID_CONFIGURATION
                 | Some f \<Rightarrow>
                     if \<not> fl_callable f then failM INVALID_CONFIGURATION
                     else thenM (pureM (ev_validate_flow_input env n (JObj payload)))
                       (bindM (validate_items env cs (i # seen) rest) (\<lambda>items.
                         ret ((i, f, payload) # items))))
           | _ \<Rightarrow> failM INVALID_INPUT)
       | _ \<Rightarrow> failM INVALID_INPUT)"

definition add_runs :: "usage \<Rightarrow> flow_record \<Rightarrow> flow_record option \<Rightarrow> usage" where
  "add_runs u record retry =
     add_usage (add_usage u (total_usage record))
       (case retry of Some r \<Rightarrow> total_usage r | None \<Rightarrow> None)"

text \<open>
  The loop over the items: it stops at the first failed item; the items after it keep their
  skipped records.
\<close>

fun run_items ::
  "'w run_env \<Rightarrow> 'w child \<Rightarrow> jobj \<Rightarrow> nat \<Rightarrow> usage \<Rightarrow> status \<Rightarrow> (string \<times> flow \<times> jobj) list \<Rightarrow>
     ('w, (flow_record \<times> flow_record option) list \<times> usage \<times> status \<times> failure option) run" where
  "run_items env child metadata index u st [] = ret ([], u, st, None)"
| "run_items env child metadata index u st ((i, f, payload) # rest) =
     bindM (run_item env child f \<lparr>it_id = i, it_index = index, it_payload = payload\<rparr> metadata)
      (\<lambda>(record, retry, failure).
        let u' = add_runs u record retry in
        if fr_status record = Failed \<or> failure \<noteq> None
        then ret ((record, retry) # map (\<lambda>(_, g, _). (skipped g, None)) rest, u', Failed,
          (case failure of Some x \<Rightarrow> Some x | None \<Rightarrow> fr_error record))
        else bindM (run_items env child metadata (Suc index) u'
            (if fr_status record = NeedsReview then NeedsReview else st) rest)
          (\<lambda>(records, u'', st', failure'). ret ((record, retry) # records, u'', st', failure')))"

definition item_entry ::
  "(string \<times> flow \<times> jobj) \<Rightarrow> flow_record \<times> flow_record option \<Rightarrow> (exn, json) result" where
  "item_entry p r = (case p of (i, f, _) \<Rightarrow>
     bindE (flow_record_value (fst r)) (\<lambda>v.
       let value = dict_of v [(''id'', JStr i), (''flow'', JStr (fl_name f))] in
       case snd r of
         None \<Rightarrow> Inr (JObj value)
       | Some retry \<Rightarrow> mapR (\<lambda>w. JObj (put ''retry'' (JObj w) value)) (flow_record_value retry)))"

text \<open>\<^verbatim>\<open>_execute_collection\<close>\<close>

definition execute_collection ::
  "'w run_env \<Rightarrow> 'w child \<Rightarrow> collection_step \<Rightarrow> jobj \<Rightarrow> jobj \<Rightarrow> nat \<Rightarrow> ('w, step_record) run" where
  "execute_collection env child cs inputs metadata depth =
     bindM (now env) (\<lambda>started.
      if MAX_COLLECTION_DEPTH \<le> depth then failM INVALID_CONFIGURATION
      else (case get inputs ''items'' of
        Some (JArr raw) \<Rightarrow>
          if set (keys inputs) \<noteq> {''items''} \<or> cs_max_items cs < length raw then failM INVALID_INPUT
          else bindM (validate_items env cs [] raw) (\<lambda>items.
           bindM (run_items env child metadata 0 usage_zero Completed items) (\<lambda>(records, u, st, failure).
            bindM (pureM (mapE (\<lambda>(p, r). item_entry p r) (zip items records))) (\<lambda>entries.
             bindM (now env) (\<lambda>finished.
              let ledger = [(''items'', JArr entries)] in
              ret \<lparr>sp_status = st, sp_result = (if st \<noteq> Failed then JObj ledger else JNull),
                sp_has_result = (st \<noteq> Failed), sp_error = failure,
                sp_elapsed = Some (finished - started), sp_usage = Some u, sp_selection = None,
                sp_partial = (if st = Failed then Some ledger else None),
                sp_collection = True\<rparr>))))
      | _ \<Rightarrow> failM INVALID_INPUT))"

text \<open>The collection branch of a step.\<close>

definition run_collection ::
  "'w run_env \<Rightarrow> 'w child \<Rightarrow> flow_call \<Rightarrow> nat \<Rightarrow> step \<Rightarrow> collection_step \<Rightarrow> jobj \<Rightarrow> ('w, bool) flow_run" where
  "run_collection env child c depth step cs inputs =
     bindM (liftM (execute_collection env child cs inputs (en_metadata (fc_envelope c)) depth)) (\<lambda>record.
      let u = (case sp_usage record of Some u \<Rightarrow> u | None \<Rightarrow> usage_zero) in
      thenM (locally (\<lambda>l. l\<lparr>lo_records := put (st_name step) record (lo_records l),
          lo_step_usage := u, lo_usage := usage_plus (lo_usage l) u, lo_active := None\<rparr>))
       (thenM (liftM (set_outcome (observed (sp_status record)) (map_option fa_code (sp_error record))))
        (if sp_status record = Failed
         then thenM (locally (\<lambda>l. l\<lparr>lo_status := Failed, lo_error := sp_error record, lo_result := JNull\<rparr>))
           (ret False)
         else thenM (locally (\<lambda>l. l\<lparr>lo_result :=
               (if fc_step_id c \<noteq> None then sp_result record else lo_result l)\<rparr>))
           (if sp_status record = NeedsReview
            then thenM (locally (\<lambda>l. l\<lparr>lo_status := NeedsReview\<rparr>)) (ret False)
            else ret True))))"

section \<open>The step loop\<close>

definition run_step_body ::
  "'w run_env \<Rightarrow> 'w child \<Rightarrow> flow_call \<Rightarrow> nat \<Rightarrow> step \<Rightarrow> (bool \<times> mismatch list) option \<Rightarrow>
     ('w, bool) flow_run" where
  "run_step_body env child c depth step guard =
     thenM (liftM (consume_step env))
      (bindM (liftM (now env)) (\<lambda>t.
        thenM (locally (\<lambda>l. l\<lparr>lo_active := Some (st_name step), lo_step_started := t,
            lo_step_usage := usage_zero\<rparr>))
         (observe_local (Some (fl_name (fc_flow c))) (Some (st_name step)) (step_attributes env c step)
           (thenM (case guard of
                Some (b, ms) \<Rightarrow> liftM (report (step_location step) b ms)
              | None \<Rightarrow> ret ())
             (bindM (step_inputs c step) (\<lambda>inputs.
               case st_body step of
                 CollectionStep cs \<Rightarrow> run_collection env child c depth step cs inputs
               | _ \<Rightarrow> run_operation env c step inputs))))))"

definition step_iteration ::
  "'w run_env \<Rightarrow> 'w child \<Rightarrow> flow_call \<Rightarrow> nat \<Rightarrow> step \<Rightarrow> ('w, bool) flow_run" where
  "step_iteration env child c depth step =
     thenM (liftM (suspend env))
      (thenM (liftM (check_deadline env))
       (bindM (step_guard env c step) (\<lambda>guard.
         case guard of
           Some (False, ms) \<Rightarrow> thenM (skip_step env c step ms) (ret True)
         | _ \<Rightarrow> run_step_body env child c depth step guard)))"

text \<open>After the loop: the flow's output, unless a collection failed.\<close>

definition flow_output :: "flow_call \<Rightarrow> ('w, unit) flow_run" where
  "flow_output c =
     bindM (getM snd) (\<lambda>l.
       thenM (case fl_output (fc_flow c) of
           Some b \<Rightarrow>
             if lo_status l \<noteq> Failed \<and> fc_step_id c = None
             then bindM (pureM (resolve_binding b (binding_context (fc_envelope c) (lo_records l)))) (\<lambda>v.
               locally (\<lambda>l. l\<lparr>lo_result := v\<rparr>))
             else ret ()
         | None \<Rightarrow> ret ())
        (locally (\<lambda>l. l\<lparr>lo_has_result := (lo_status l \<noteq> Failed)\<rparr>)))"

text \<open>The \<^verbatim>\<open>except Exception\<close> clause: the step that was running failed.\<close>

definition flow_failure :: "'w run_env \<Rightarrow> exn \<Rightarrow> ('w, unit) flow_run" where
  "flow_failure env caught =
     bindM (liftM (failure_at env caught)) (\<lambda>failure.
      thenM (locally (\<lambda>l. l\<lparr>lo_status := Failed, lo_error := Some failure, lo_result := JNull\<rparr>))
       (bindM (getM snd) (\<lambda>l. case lo_active l of
          None \<Rightarrow> ret ()
        | Some n \<Rightarrow> bindM (liftM (now env)) (\<lambda>t.
            locally (\<lambda>l. l\<lparr>lo_records := put n
              ((empty_step_record Failed)\<lparr>sp_error := Some failure,
                 sp_elapsed := Some (t - lo_step_started l), sp_usage := Some (lo_step_usage l),
                 sp_collection := (case get (lo_records l) n of
                    Some r \<Rightarrow> sp_collection r | None \<Rightarrow> False)\<rparr>)
              (lo_records l)\<rparr>)))))"

definition flow_steps :: "'w run_env \<Rightarrow> 'w child \<Rightarrow> flow_call \<Rightarrow> nat \<Rightarrow> ('w, unit) flow_run" where
  "flow_steps env child c depth =
     exceptM (thenM (loopM (step_iteration env child c depth) (call_steps c)) (flow_output c))
       (flow_failure env)"

definition flow_record_of :: "flow_locals \<Rightarrow> rat \<Rightarrow> flow_record" where
  "flow_record_of l elapsed = FlowRecord (lo_status l) (lo_records l) (lo_result l) (lo_has_result l)
     (Some (lo_usage l)) (Some elapsed) (lo_error l) [] None"

definition execute_level ::
  "'w run_env \<Rightarrow> 'w child \<Rightarrow> nat \<Rightarrow> flow_call \<Rightarrow> ('w, flow_record \<times> issue list) run" where
  "execute_level env child depth c =
     bindM (now env) (\<lambda>started.
      bindM (withM (initial_locals c started) (thenM (flow_steps env child c depth) (getM snd))) (\<lambda>l.
       bindM (now env) (\<lambda>finished. ret (flow_record_of l (finished - started), lo_issues l))))"

text \<open>
  \<^verbatim>\<open>_execute_flow\<close>. The level below the deepest one is never entered: a collection there
  fails before it runs an item.
\<close>

function execute_flow ::
  "'w run_env \<Rightarrow> nat \<Rightarrow> flow_call \<Rightarrow> ('w, flow_record \<times> issue list) run" where
  "execute_flow env depth c =
     execute_level env
       (if MAX_COLLECTION_DEPTH \<le> depth then (\<lambda>_. failM INVALID_CONFIGURATION)
        else execute_flow env (Suc depth)) depth c"
  by pat_completeness auto
termination
  by (relation "measure (\<lambda>(_, depth, _). MAX_COLLECTION_DEPTH - depth)") auto

declare execute_flow.simps [simp del]

end
