(* ===== verification/Run.thy ===== *)
theory Run imports Runner begin

text \<open>
  The run level of \<^verbatim>\<open>core/runner.py\<close>: the attempts of one routed flow, the routing from
  flow to flow, single flows and steps, the result of a run, and its admission. The flow
  records of the run are the scope of its repeats.
\<close>

section \<open>Routed flows\<close>

text \<open>A computation over a scope whose records are the run's own (the same object in the code).\<close>

definition sharedM :: "('w, 'a) scope_run \<Rightarrow> ('w, 'a) run" where
  "sharedM m s = (case m (s, rs_records s) of (r, (s', records)) \<Rightarrow> (r, s'\<lparr>rs_records := records\<rparr>))"

definition set_active :: "string option \<Rightarrow> ('w, unit) run" where
  "set_active a = modM (\<lambda>s. s\<lparr>rs_active := a\<rparr>)"

definition set_record :: "string \<Rightarrow> flow_record \<Rightarrow> ('w, unit) run" where
  "set_record n r = modM (\<lambda>s. s\<lparr>rs_records := put n r (rs_records s)\<rparr>)"

record routed =
  rt_record :: flow_record
  rt_target :: "(target \<times> transition_record) option"
  rt_failure :: "failure option"

text \<open>The end of a routed flow's attempts: its record stands, its boundary is selected.\<close>

definition routed_boundary ::
  "'w run_env \<Rightarrow> flow \<Rightarrow> envelope \<Rightarrow> issue list \<Rightarrow> failure option \<Rightarrow> ('w, routed) run" where
  "routed_boundary env f e issues failure =
     thenM (set_active None)
      (bindM (getM rs_records) (\<lambda>records. case get records (fl_name f) of
          None \<Rightarrow> throw OtherErr
        | Some r \<Rightarrow>
            if fr_status r = Failed \<or> failure \<noteq> None
            then ret \<lparr>rt_record = r, rt_target = None, rt_failure = failure\<rparr>
            else bindM (select_target env f r issues (workflow_context e records)) (\<lambda>t.
              ret \<lparr>rt_record = r, rt_target = Some t, rt_failure = None\<rparr>)))"

definition routed_call :: "flow \<Rightarrow> envelope \<Rightarrow> nat \<Rightarrow> flow_call" where
  "routed_call f e attempt =
     \<lparr>fc_flow = f, fc_envelope = e, fc_step_id = None, fc_attempt = attempt,
      fc_role = RoleRouted, fc_item = None\<rparr>"

definition routed_attempt ::
  "'w run_env \<Rightarrow> flow \<Rightarrow> envelope \<Rightarrow> nat \<Rightarrow> flow_record list \<Rightarrow> jobj \<Rightarrow>
     ('w, (jobj \<times> flow_record list) + routed) run" where
  "routed_attempt env f e attempt attempts inputs =
     thenM (set_active (Some (fl_name f)))
      (bindM (pureM (from_frozen (JObj inputs) (en_metadata e))) (\<lambda>le.
       observe (Some (fl_name f)) None (attempt_attributes env f RoleRouted attempt None)
        (bindM (execute_flow env 0 (routed_call f le attempt)) (\<lambda>(record, issues).
         thenM (observe_record record)
          (case fl_repeat f of
             None \<Rightarrow> thenM (set_record (fl_name f) record)
               (bindM (routed_boundary env f e issues None) (\<lambda>r. ret (Inr r)))
           | Some rp \<Rightarrow>
              bindM (sharedM (repeat_attempt env (execute_flow env 0) f rp record
                  (attempts @ [record]) attempt issues e None)) (\<lambda>d.
                case (rd_stop d, rd_inputs d) of
                  (None, Some inputs') \<Rightarrow> ret (Inl (inputs', attempts @ [record]))
                | (None, None) \<Rightarrow> throw OtherErr
                | (Some _, _) \<Rightarrow> bindM (routed_boundary env f e (rd_issues d) (rd_failure d))
                    (\<lambda>r. ret (Inr r))))))))"

fun routed_attempts ::
  "'w run_env \<Rightarrow> flow \<Rightarrow> envelope \<Rightarrow> nat list \<Rightarrow> flow_record list \<Rightarrow> jobj \<Rightarrow> ('w, routed) run" where
  "routed_attempts env f e [] attempts inputs = failM INVALID_CONFIGURATION"
| "routed_attempts env f e (n # ns) attempts inputs =
     bindM (routed_attempt env f e n attempts inputs) (\<lambda>r. case r of
       Inl (inputs', attempts') \<Rightarrow> routed_attempts env f e ns attempts' inputs'
     | Inr result \<Rightarrow> ret result)"

text \<open>\<^verbatim>\<open>_run_routed\<close>\<close>

definition run_routed :: "'w run_env \<Rightarrow> flow \<Rightarrow> envelope \<Rightarrow> ('w, routed) run" where
  "run_routed env f e =
     thenM (check_deadline env)
      (thenM (set_active (Some (fl_name f)))
       (bindM (getM rs_records) (\<lambda>records.
         bindM (pureM (flow_input env (fl_name f) (fl_input f) e records))
           (routed_attempts env f e [1..<Suc (max_attempts_of f)] []))))"

section \<open>One run\<close>

record run_locals =
  ru_transitions :: "transition_record list"
  ru_payload :: json
  ru_status :: status
  ru_error :: "failure option"
  ru_start :: "start_record option"

type_synonym ('w, 'a) body_run = "('w run_state \<times> run_locals, 'a) eff"

definition run_locally :: "(run_locals \<Rightarrow> run_locals) \<Rightarrow> ('w, unit) body_run" where
  "run_locally f = modM (\<lambda>p. (fst p, f (snd p)))"

text \<open>The checks at the head of the loop; the flow of the plan they select.\<close>

definition enter_flow :: "'w run_env \<Rightarrow> string list \<Rightarrow> string \<Rightarrow> ('w, flow) run" where
  "enter_flow env visited current =
     thenM (check_deadline env)
      (if current \<in> set visited \<or> length (wf_flows (ev_plan env)) \<le> length visited
       then failM INVALID_CONFIGURATION
       else case workflow_flow (ev_plan env) current of
         None \<Rightarrow> failM INVALID_CONFIGURATION
       | Some f \<Rightarrow> ret f)"

text \<open>One routed flow of the loop: the answer is the next flow, if any.\<close>

definition routed_iteration ::
  "'w run_env \<Rightarrow> envelope \<Rightarrow> string list \<Rightarrow> string \<Rightarrow> ('w, string option) body_run" where
  "routed_iteration env e visited current =
     bindM (liftM (enter_flow env visited current)) (\<lambda>f.
      if fl_callable f then failM INVALID_CONFIGURATION
      else bindM (liftM (run_routed env f e)) (\<lambda>r.
       if fr_status (rt_record r) = Failed \<or> rt_failure r \<noteq> None
       then thenM (run_locally (\<lambda>l. l\<lparr>ru_status := Failed, ru_error :=
           (case rt_failure r of Some x \<Rightarrow> Some x | None \<Rightarrow> fr_error (rt_record r))\<rparr>)) (ret None)
       else case rt_target r of
         None \<Rightarrow> throw OtherErr
       | Some (t, tr) \<Rightarrow>
           thenM (run_locally (\<lambda>l. l\<lparr>ru_transitions := ru_transitions l @ [tr],
             ru_status := (case tg_outcome t of
                Some oc \<Rightarrow> terminal_status oc | None \<Rightarrow> ru_status l)\<rparr>))
           (ret (tg_flow t))))"

text \<open>The \<^verbatim>\<open>while\<close> loop; each flow is visited once, so it ends.\<close>

function run_loop ::
  "'w run_env \<Rightarrow> envelope \<Rightarrow> string list \<Rightarrow> string option \<Rightarrow> ('w, unit) body_run" where
  "run_loop env e visited None = ret ()"
| "run_loop env e visited (Some current) =
     bindM (routed_iteration env e visited current) (\<lambda>next_flow.
       if length (wf_flows (ev_plan env)) \<le> length visited then ret ()
       else run_loop env e (visited @ [current]) next_flow)"
  by pat_completeness auto
termination
  by (relation "measure (\<lambda>(env, _, visited, _). length (wf_flows (ev_plan env)) - length visited)")
    auto

declare run_loop.simps [simp del]

text \<open>A single flow or step: no routes, no repeat.\<close>

definition run_single ::
  "'w run_env \<Rightarrow> envelope \<Rightarrow> string \<Rightarrow> string option \<Rightarrow> ('w, unit) body_run" where
  "run_single env e flow_id step_id =
     bindM (liftM (enter_flow env [] flow_id)) (\<lambda>f.
      let role = (if fl_callable f then RoleCallable else RoleRouted) in
      thenM (liftM (set_active (Some flow_id)))
       (bindM (liftM (observe (Some (fl_name f)) None (attributes env (Some role) None None None)
          (bindM (execute_flow env 0 \<lparr>fc_flow = f, fc_envelope = e, fc_step_id = step_id,
               fc_attempt = 1, fc_role = role, fc_item = None\<rparr>) (\<lambda>(record, _).
             thenM (observe_record record) (ret record))))) (\<lambda>record.
         thenM (liftM (set_record flow_id record))
          (thenM (liftM (set_active None))
            (if fr_status record = Failed
             then run_locally (\<lambda>l. l\<lparr>ru_status := Failed, ru_error := fr_error record\<rparr>)
             else run_locally (\<lambda>l. l\<lparr>ru_payload := fr_result record, ru_status :=
               (if fr_status record = NeedsReview then NeedsReview else Completed)\<rparr>))))))"

text \<open>\<^verbatim>\<open>_retry_flows\<close> and the initial records.\<close>

definition retry_flows :: "workflow \<Rightarrow> string list" where
  "retry_flows w = concat (map (\<lambda>f. case fl_repeat f of
      Some rp \<Rightarrow> (case rp_retry_flow rp of
         Some n \<Rightarrow> (if fl_callable f then [] else [n]) | None \<Rightarrow> [])
    | None \<Rightarrow> []) (wf_flows w))"

definition initial_records :: "workflow \<Rightarrow> string option \<Rightarrow> flow_records" where
  "initial_records w flow_id =
     dict_of (map (\<lambda>f. (fl_name f, skipped f))
       (filter (\<lambda>f. (flow_id = None \<and> (\<not> fl_callable f \<or> fl_name f \<in> set (retry_flows w)))
          \<or> Some (fl_name f) = flow_id) (wf_flows w))) []"

definition workflow_output :: "'w run_env \<Rightarrow> envelope \<Rightarrow> string option \<Rightarrow> ('w, unit) body_run" where
  "workflow_output env e flow_id =
     bindM (getM snd) (\<lambda>l.
       case wf_output (ev_plan env) of
         Some b \<Rightarrow>
           if ru_status l \<noteq> Failed \<and> flow_id = None
           then bindM (liftM (getM rs_records)) (\<lambda>records.
             bindM (pureM (resolve_binding b (workflow_context e records))) (\<lambda>v.
               run_locally (\<lambda>l. l\<lparr>ru_payload := v\<rparr>)))
           else ret ()
       | None \<Rightarrow> ret ())"

definition run_body ::
  "'w run_env \<Rightarrow> envelope \<Rightarrow> string option \<Rightarrow> string option \<Rightarrow> ('w, unit) body_run" where
  "run_body env e flow_id step_id =
     thenM (case flow_id of
         Some n \<Rightarrow> run_single env e n step_id
       | None \<Rightarrow> bindM (liftM (select_start env e)) (\<lambda>start.
           thenM (run_locally (\<lambda>l. l\<lparr>ru_start := Some start\<rparr>))
             (run_loop env e [] (Some (sa_flow start)))))
      (thenM (workflow_output env e flow_id) (liftM (check_deadline env)))"

text \<open>The \<^verbatim>\<open>except Exception\<close> clause: the flow that was active failed, its attempts stand.\<close>

definition run_failure :: "'w run_env \<Rightarrow> envelope \<Rightarrow> exn \<Rightarrow> ('w, unit) body_run" where
  "run_failure env e caught =
     bindM (liftM (failure_at env caught)) (\<lambda>failure.
      thenM (run_locally (\<lambda>l. l\<lparr>ru_status := Failed, ru_error := Some failure, ru_payload := en_payload e\<rparr>))
       (bindM (liftM (getM rs_active)) (\<lambda>active. case active of
          None \<Rightarrow> ret ()
        | Some n \<Rightarrow> bindM (liftM (getM rs_records)) (\<lambda>records.
            case (get records n, workflow_flow (ev_plan env) n) of
              (Some prior, Some f) \<Rightarrow>
                liftM (set_record n (failed_flow f (Some failure) (fr_attempts prior)
                  (if fr_attempts prior \<noteq> [] then Some StopFailure else None)))
            | _ \<Rightarrow> throw OtherErr))))"

definition initial_run_locals :: "envelope \<Rightarrow> run_locals" where
  "initial_run_locals e = \<lparr>ru_transitions = [], ru_payload = en_payload e, ru_status = Completed,
     ru_error = None, ru_start = None\<rparr>"

definition records_usage :: "flow_records \<Rightarrow> usage" where
  "records_usage records = foldl add_usage usage_zero (map (\<lambda>p. total_usage (snd p)) records)"

definition run_result_of ::
  "'w run_env \<Rightarrow> envelope \<Rightarrow> flow_records \<Rightarrow> run_locals \<Rightarrow> run_result" where
  "run_result_of env e records l =
     \<lparr>rr_execution_id = ev_execution_id env, rr_workflow = wf_name (ev_plan env),
      rr_revision = wf_revision (ev_plan env), rr_status = ru_status l,
      rr_payload = ru_payload l, rr_metadata = en_metadata e, rr_flows = records,
      rr_usage = records_usage records, rr_error = ru_error l,
      rr_transitions = ru_transitions l, rr_trace = None, rr_start = ru_start l\<rparr>"

text \<open>\<^verbatim>\<open>_run\<close>\<close>

definition run_workflow ::
  "'w run_env \<Rightarrow> envelope \<Rightarrow> string option \<Rightarrow> string option \<Rightarrow> ('w, run_result) run" where
  "run_workflow env e flow_id step_id =
     thenM (modM (\<lambda>s. s\<lparr>rs_records := initial_records (ev_plan env) flow_id\<rparr>))
      (bindM (withM (initial_run_locals e)
          (thenM (exceptM (run_body env e flow_id step_id) (run_failure env e)) (getM snd))) (\<lambda>l.
        bindM (getM rs_records) (\<lambda>records. ret (run_result_of env e records l))))"

section \<open>Admission\<close>

text \<open>The identity claims of the metadata must be valid and agree with the trusted identity.\<close>

definition check_claim :: "jobj \<Rightarrow> string \<Rightarrow> string option \<Rightarrow> (exn, unit) result" where
  "check_claim metadata key expected =
     (case get metadata key of
        None \<Rightarrow> (if expected \<noteq> None then raise_code FORBIDDEN else Inr ())
      | Some claim \<Rightarrow> bindE (validate_identity_id claim) (\<lambda>s.
          if expected \<noteq> Some s then raise_code FORBIDDEN else Inr ()))"

definition check_claims :: "jobj \<Rightarrow> identity \<Rightarrow> (exn, unit) result" where
  "check_claims metadata i =
     bindE (check_claim metadata ''tenant_id'' (id_tenant i)) (\<lambda>_.
       check_claim metadata ''principal_id'' (id_principal i))"

definition validated :: "(exn, unit) result \<Rightarrow> (exn, unit) result" where
  "validated r = (case r of
     Inr u \<Rightarrow> Inr u
   | Inl e \<Rightarrow> (if e = CancelledErr \<or> as_service e \<noteq> None then Inl e
       else raise_code DEPENDENCY_FAILURE))"

definition end_of :: "'w run_env \<Rightarrow> rat \<Rightarrow> pfloat option \<Rightarrow> (exn, rat) result" where
  "end_of env t deadline =
     (let limit = t + el_run_timeout (ev_limits env) in
      case deadline of
        None \<Rightarrow> Inr limit
      | Some (Fin d) \<Rightarrow> Inr (min limit d)
      | Some _ \<Rightarrow> raise_code INVALID_INPUT)"

definition admit_slot :: "'w run_env \<Rightarrow> ('w, unit) run" where
  "admit_slot env s = (let (r, w) = ev_admit env (ev_deadline env) (rs_world s) in
     (r, s\<lparr>rs_world := w\<rparr>))"

definition release_slot :: "'w run_env \<Rightarrow> ('w, unit) run" where
  "release_slot env = modM (\<lambda>s. s\<lparr>rs_world := ev_release env (rs_world s)\<rparr>)"

text \<open>\<^verbatim>\<open>_admit\<close>\<close>

definition admit ::
  "'w run_env \<Rightarrow> envelope \<Rightarrow> pfloat option \<Rightarrow> string option \<Rightarrow> string option \<Rightarrow>
     ('w, run_result) run" where
  "admit env0 e deadline flow_id step_id =
     bindM (now env0) (\<lambda>t. bindM (pureM (end_of env0 t deadline)) (\<lambda>stop.
      let env = env0\<lparr>ev_deadline := stop\<rparr> in
      thenM (pureM (check_claims (en_metadata e) (ev_identity env)))
       (thenM (pureM (validated (case flow_id of
            None \<Rightarrow> ev_validate_input env (en_payload e)
          | Some n \<Rightarrow> (if step_id = None then ev_validate_flow_input env n (en_payload e)
              else Inr ()))))
        (thenM (admit_slot env)
         (finallyM
           (observe None None [(''foliqant.execution.id'', JStr (ev_execution_id env))]
             (bindM (run_workflow env e flow_id step_id) (\<lambda>result.
               thenM (set_outcome (rr_status result) (map_option fa_code (rr_error result)))
                (bindM (read_carrier env) (\<lambda>c. ret (result\<lparr>rr_trace := trace_ids c\<rparr>))))))
           (release_slot env))))))"

text \<open>\<^verbatim>\<open>run\<close>, \<^verbatim>\<open>run_flow\<close> and \<^verbatim>\<open>run_step\<close>\<close>

definition run_all :: "'w run_env \<Rightarrow> envelope \<Rightarrow> pfloat option \<Rightarrow> ('w, run_result) run" where
  "run_all env e deadline = admit env e deadline None None"

definition run_flow ::
  "'w run_env \<Rightarrow> string \<Rightarrow> envelope \<Rightarrow> pfloat option \<Rightarrow> ('w, run_result) run" where
  "run_flow env flow_id e deadline =
     (if workflow_flow (ev_plan env) flow_id = None then failM NOT_FOUND
      else admit env e deadline (Some flow_id) None)"

definition run_step ::
  "'w run_env \<Rightarrow> string \<Rightarrow> string \<Rightarrow> envelope \<Rightarrow> pfloat option \<Rightarrow> ('w, run_result) run" where
  "run_step env flow_id step_id e deadline =
     (case workflow_flow (ev_plan env) flow_id of
        None \<Rightarrow> failM NOT_FOUND
      | Some f \<Rightarrow>
         (case flow_step f step_id of
            None \<Rightarrow> failM NOT_FOUND
          | Some s \<Rightarrow>
             (case en_payload e of
                JObj ps \<Rightarrow>
                  if set (keys ps) \<noteq> set (map fst (step_bindings s)) then failM INVALID_INPUT
                  else admit env e deadline (Some flow_id) (Some step_id)
              | _ \<Rightarrow> failM INVALID_INPUT)))"

end
