(* ===== verification/RunFrames.thy ===== *)
theory RunFrames imports Run begin

text \<open>
  What every computation of the engine keeps. The locale states what a relation between run
  states must allow (the world moves, events are logged, a scope is opened and closed
  around a related change, steps are consumed within the limit); every function of the
  engine then keeps it. Two interpretations: the step counter within its limit, and a log
  in which every scope that was opened is closed.
\<close>

definition keeps_child :: "('w run_state \<Rightarrow> 'w run_state \<Rightarrow> bool) \<Rightarrow> 'w child \<Rightarrow> bool" where
  "keeps_child R child \<longleftrightarrow> (\<forall>c. keeps R (child c))"

lemma keeps_childD: "keeps_child R child \<Longrightarrow> keeps R (child c)"
  by (simp add: keeps_child_def)

locale flow_frame = frame R for R :: "'w run_state \<Rightarrow> 'w run_state \<Rightarrow> bool" +
  fixes limit :: nat
  assumes world: "R s (s\<lparr>rs_world := w\<rparr>)"
    and consume: "rs_consumed s < limit \<Longrightarrow> R s (s\<lparr>rs_consumed := rs_consumed s + 1\<rparr>)"
    and logged: "R s (s\<lparr>rs_log := rs_log s @ [ScopeEvent n a]\<rparr>)"
    and outcome: "R s (s\<lparr>rs_scopes := x # tl (rs_scopes s)\<rparr>)"
    and scope: "R (snd (open_scope fl st ats s)) t \<Longrightarrow> R s (snd (close_scope t))"
begin

lemma keeps_primitives:
  "keeps R (now env)" "keeps R (suspend env)" "keeps R (read_carrier env)"
  "keeps R (event n a)" "keeps R (set_outcome st code)" "keeps R (admit_slot env)"
  "keeps R (release_slot env)" "keeps R (call_executor env step inputs ctx)"
  by (simp_all add: keeps_def now_def suspend_def read_carrier_def event_def set_outcome_def
      admit_slot_def release_slot_def call_executor_def modM_def
      world logged outcome split: prod.split)

lemma keeps_consume: "el_max_steps (ev_limits env) = limit \<Longrightarrow> keeps R (consume_step env)"
  using consume by (simp add: keeps_def consume_step_def failM_def frame_refl not_le)

text \<open>A scope around a body that keeps the relation, over the shared state and over locals.\<close>

lemma observe_snd:
  "snd (observe_at (\<lambda>m. m) fl st ats body s) =
     (case body (snd (open_scope fl st ats s)) of
        (Inr a, s') \<Rightarrow> snd (close_scope s')
      | (Inl e, s') \<Rightarrow> snd (close_scope (snd (set_outcome (fst (observed_error e))
          (Some (snd (observed_error e))) s'))))"
  by (simp add: observe_at_def thenM_def bindM_def handleM_def open_scope_def modM_def ret_def
      throw_def close_scope_def set_outcome_def split: prod.split sum.split)

lemma keeps_observe: "keeps R body \<Longrightarrow> keeps R (observe fl st ats body)"
proof -
  assume b: "keeps R body"
  have "R s (snd (observe_at (\<lambda>m. m) fl st ats body s))" for s
  proof -
    let ?o = "snd (open_scope fl st ats s)"
    obtain r t where t: "body ?o = (r, t)" by fastforce
    with b have "R ?o t" unfolding keeps_def by (metis snd_conv)
    moreover from this have "R ?o (snd (set_outcome x y t))" for x y
      using keeps_primitives(5) frame_trans unfolding keeps_def by blast
    ultimately show ?thesis by (cases r) (auto simp: observe_snd t intro: scope)
  qed
  then show ?thesis by (simp add: keeps_def)
qed

lemma observe_local_fst:
  "fst (snd (observe_at liftM fl st ats body p)) =
     (case body (snd (open_scope fl st ats (fst p)), snd p) of
        (Inr a, q) \<Rightarrow> snd (close_scope (fst q))
      | (Inl e, q) \<Rightarrow> snd (close_scope (snd (set_outcome (fst (observed_error e))
          (Some (snd (observed_error e))) (fst q)))))"
  by (simp add: observe_at_def thenM_def bindM_def handleM_def open_scope_def modM_def ret_def
      throw_def close_scope_def set_outcome_def liftM_def split: prod.split sum.split)

lemma keeps_observe_local: "keeps (on_fst R) body \<Longrightarrow> keeps (on_fst R) (observe_local fl st ats body)"
proof -
  assume b: "keeps (on_fst R) body"
  have "R (fst p) (fst (snd (observe_at liftM fl st ats body p)))" for p
  proof -
    let ?o = "snd (open_scope fl st ats (fst p))"
    obtain r q where t: "body (?o, snd p) = (r, q)" by (cases "body (?o, snd p)") blast
    with b have "R ?o (fst q)" unfolding keeps_def on_fst_def by (metis fst_conv snd_conv)
    moreover from this have "R ?o (snd (set_outcome x y (fst q)))" for x y
      using keeps_primitives(5) frame_trans unfolding keeps_def by blast
    ultimately show ?thesis by (cases r) (auto simp: observe_local_fst t intro: scope)
  qed
  then show ?thesis by (simp add: keeps_def on_fst_def)
qed

lemma keeps_case_prod: "(\<And>a b. keeps S (f a b)) \<Longrightarrow> keeps S (case p of (a, b) \<Rightarrow> f a b)"
  by (cases p) simp

lemma keeps_case_option:
  "keeps S a \<Longrightarrow> (\<And>x. keeps S (f x)) \<Longrightarrow> keeps S (case o' of None \<Rightarrow> a | Some x \<Rightarrow> f x)"
  by (cases o') simp_all

lemma keeps_case_sum:
  "(\<And>x. keeps S (f x)) \<Longrightarrow> (\<And>x. keeps S (g x)) \<Longrightarrow> keeps S (case r of Inl x \<Rightarrow> f x | Inr x \<Rightarrow> g x)"
  by (cases r) simp_all

lemma keeps_Let: "(\<And>x. keeps S (f x)) \<Longrightarrow> keeps S (let x = v in f x)"
  by (simp add: Let_def)

lemmas keeps_cases = keeps_case_prod keeps_case_option keeps_case_sum keeps_Let

lemmas keeps_base = keeps_intros keeps_primitives keeps_observe keeps_cases

text \<open>The same composition rules over locals.\<close>

lemmas local_intros = frame.keeps_intros [OF frame_on_fst [OF frame_axioms]]

lemmas keeps_over_locals = local_intros keeps_observe_local keeps_cases

text \<open>Conditions, routes and failures.\<close>

lemma keeps_check_deadline: "keeps R (check_deadline env)"
  unfolding check_deadline_def by (intro keeps_base)

lemma keeps_failure_at: "keeps R (failure_at env e)"
  unfolding failure_at_def by (intro keeps_base)

lemma keeps_report_mismatches: "keeps R (report_mismatches location ms)"
  by (induction ms) (auto intro!: keeps_base)

lemma keeps_condition_holds: "keeps R (condition_holds env c location context)"
  unfolding condition_holds_def report_def by (intro keeps_base keeps_report_mismatches)

lemma keeps_select_from: "keeps R (select_from env location context i es)"
  by (induction es arbitrary: i) (auto intro!: keeps_base keeps_condition_holds split: option.split)

lemma keeps_select_target: "keeps R (select_target env f r issues context)"
  unfolding select_target_def review_target_def completed_target_def select_route_def
  by (auto intro!: keeps_base keeps_select_from split: option.split review_route.split
      transition.split json.split)

lemma keeps_select_start: "keeps R (select_start env e)"
  unfolding select_start_def select_route_def
  by (auto intro!: keeps_base keeps_select_from split: start_plan.split)

lemmas keeps_helpers = keeps_check_deadline keeps_failure_at keeps_condition_holds
  keeps_select_target keeps_select_start

text \<open>Steps.\<close>

lemma keeps_locally: "keeps (on_fst R) (locally f)"
  unfolding locally_def by (rule keeps_localM) simp

lemma keeps_run_locally: "keeps (on_fst R) (run_locally f)"
  unfolding run_locally_def by (rule keeps_localM) simp

lemmas keeps_parts = keeps_over_locals keeps_liftM keeps_locally keeps_run_locally

lemma keeps_report: "keeps R (report location b ms)"
  unfolding report_def by (intro keeps_base keeps_report_mismatches)

lemma keeps_executor_result: "keeps R (executor_result env r)"
  unfolding executor_result_def by (auto intro!: keeps_base split: sum.split)

lemma keeps_run_operation: "keeps (on_fst R) (run_operation env c step inputs)"
  unfolding run_operation_def account_usage_def record_outcome_def
  by (intro keeps_parts keeps_primitives keeps_executor_result keeps_helpers keeps_whenM)

lemma keeps_skip_step: "keeps (on_fst R) (skip_step env c step ms)"
  unfolding skip_step_def by (intro keeps_parts keeps_primitives keeps_report)

lemma keeps_step_inputs: "keeps (on_fst R) (step_inputs c step)"
  unfolding step_inputs_def by (auto intro!: keeps_parts split: json.split)

lemma keeps_step_guard: "keeps (on_fst R) (step_guard env c step)"
  unfolding step_guard_def by (auto intro!: keeps_parts split: option.split)

end

text \<open>
  The same over the records of a repeat's scope, for a relation between pairs that allows
  what the shared state allows and the recording of a flow.
\<close>

locale scope_frame = flow_frame R limit for R :: "'w run_state \<Rightarrow> 'w run_state \<Rightarrow> bool" and limit +
  fixes S :: "'w run_state \<times> flow_records \<Rightarrow> 'w run_state \<times> flow_records \<Rightarrow> bool"
  assumes S_trans: "S p q \<Longrightarrow> S q r \<Longrightarrow> S p r"
    and S_lift: "R s t \<Longrightarrow> S (s, l) (t, l)"
    and S_put: "S (s, l) (s, put n rec l)"
    and S_scope: "S (snd (open_scope fl st ats s), l) (t, l') \<Longrightarrow> S (s, l) (snd (close_scope t), l')"
begin

lemma frame_S: "frame S"
  using S_lift [OF frame_refl] S_trans by unfold_locales auto

lemma S_liftM: "keeps R m \<Longrightarrow> keeps S (liftM m)"
  unfolding keeps_def liftM_def by (auto split: prod.split) (metis S_lift snd_conv)

lemma S_record_flow: "keeps S (record_flow n r)"
  by (auto simp: keeps_def record_flow_def modM_def S_put)

lemma observe_local_snd:
  "snd (observe_at liftM fl st ats body p) =
     (case body (snd (open_scope fl st ats (fst p)), snd p) of
        (Inr a, q) \<Rightarrow> (snd (close_scope (fst q)), snd q)
      | (Inl e, q) \<Rightarrow> (snd (close_scope (snd (set_outcome (fst (observed_error e))
          (Some (snd (observed_error e))) (fst q)))), snd q))"
  by (simp add: observe_at_def thenM_def bindM_def handleM_def open_scope_def modM_def ret_def
      throw_def close_scope_def set_outcome_def liftM_def split: prod.split sum.split)

lemma S_observe: "keeps S body \<Longrightarrow> keeps S (observe_local fl st ats body)"
proof -
  assume b: "keeps S body"
  have "S (s, l) (snd (observe_at liftM fl st ats body (s, l)))" for s l
  proof -
    let ?o = "snd (open_scope fl st ats s)"
    obtain r t l' where t: "body (?o, l) = (r, (t, l'))" by (cases "body (?o, l)") auto
    with b have "S (?o, l) (t, l')" unfolding keeps_def by (metis snd_conv)
    moreover have "S (t, l') (snd (set_outcome x y t), l')" for x y
      using keeps_primitives(5) unfolding keeps_def by (metis S_lift)
    ultimately show ?thesis
      by (cases r) (auto simp: observe_local_snd t intro: S_scope S_trans)
  qed
  then show ?thesis by (auto simp: keeps_def)
qed

lemmas scope_parts = frame.keeps_intros [OF frame_S] S_observe keeps_cases S_liftM S_record_flow


lemma keeps_next_input: "keeps (S) (next_input env f rp e it)"
  unfolding next_input_def by (intro scope_parts keeps_helpers)

lemma keeps_decide_next: "keeps (S) (decide_next env f rp issues e it)"
  unfolding decide_next_def by (intro scope_parts keeps_next_input keeps_helpers)

lemma keeps_run_retry:
  "keeps_child R child \<Longrightarrow> keeps (S) (run_retry env child rp retry n issues e it runs inputs)"
  unfolding run_retry_def observe_record_def
  by (intro scope_parts keeps_primitives keeps_helpers keeps_childD)

lemma keeps_retry_phase:
  "keeps_child R child \<Longrightarrow> keeps (S) (retry_phase env child rp n issues e it)"
  unfolding retry_phase_def by (intro scope_parts keeps_primitives keeps_helpers keeps_run_retry)

lemma keeps_repeat_step:
  "keeps_child R child \<Longrightarrow> keeps (S) (repeat_step env child f rp record n issues e it)"
  unfolding repeat_step_def
  by (intro scope_parts keeps_helpers keeps_retry_phase keeps_decide_next)

lemma keeps_repeat_attempt:
  "keeps_child R child \<Longrightarrow>
     keeps (S) (repeat_attempt env child f rp record attempts n issues e it)"
  unfolding repeat_attempt_def
  by (intro scope_parts keeps_primitives keeps_helpers keeps_repeat_step)

lemma keeps_item_attempt:
  "keeps_child R child \<Longrightarrow>
     keeps (S) (item_attempt env child f it metadata e n attempts inputs)"
  unfolding item_attempt_def observe_record_def
  by (intro scope_parts keeps_primitives keeps_childD keeps_repeat_attempt)

lemma keeps_item_attempts:
  "keeps_child R child \<Longrightarrow>
     keeps (S) (item_attempts env child f it metadata e ns attempts inputs)"
proof (induction ns arbitrary: attempts inputs)
  case Nil
  show ?case unfolding item_attempts.simps by (intro scope_parts)
next
  case (Cons n ns)
  show ?case
    unfolding item_attempts.simps
    by (intro scope_parts keeps_item_attempt Cons.IH Cons.prems)
qed

end

text \<open>Collections and whole flows.\<close>

context flow_frame begin

lemma on_fst_scope: "scope_frame R limit (on_fst R)"
proof unfold_locales
  fix p q r :: "'w run_state \<times> flow_records"
  show "on_fst R p q \<Longrightarrow> on_fst R q r \<Longrightarrow> on_fst R p r"
    unfolding on_fst_def by (rule frame_trans)
qed (auto simp: on_fst_def frame_refl intro: scope)

lemma keeps_run_item: "keeps_child R child \<Longrightarrow> keeps R (run_item env child f it metadata)"
  unfolding run_item_def
  by (intro keeps_base keeps_withM scope_frame.keeps_item_attempts [OF on_fst_scope])

lemma keeps_validate_items: "keeps R (validate_items env cs seen raws)"
proof (induction raws arbitrary: seen)
  case Nil
  show ?case by (simp add: keeps_ret)
next
  case (Cons raw raws)
  then show ?case
    unfolding validate_items.simps
    by (auto intro!: keeps_base keeps_helpers split: json.split option.split)
qed

lemma keeps_run_items: "keeps_child R child \<Longrightarrow> keeps R (run_items env child metadata i u st items)"
proof (induction items arbitrary: i u st)
  case Nil
  show ?case by (simp add: keeps_ret)
next
  case (Cons p items)
  obtain k f payload where p: "p = (k, f, payload)" by (cases p) blast
  show ?case
    unfolding p run_items.simps by (intro keeps_base keeps_run_item Cons.IH Cons.prems)
qed

lemma keeps_execute_collection:
  "keeps_child R child \<Longrightarrow> keeps R (execute_collection env child cs inputs metadata depth)"
  unfolding execute_collection_def
  by (auto intro!: keeps_base keeps_validate_items keeps_run_items split: option.split json.split)

lemma keeps_run_collection:
  "keeps_child R child \<Longrightarrow> keeps (on_fst R) (run_collection env child c depth step cs inputs)"
  unfolding run_collection_def
  by (intro keeps_parts keeps_primitives keeps_execute_collection)

text \<open>Flows and runs.\<close>

lemma keeps_step_iteration:
  assumes "keeps_child R child" "el_max_steps (ev_limits env) = limit"
  shows "keeps (on_fst R) (step_iteration env child c depth step)"
  unfolding step_iteration_def run_step_body_def
  using assms
  by (auto intro!: keeps_parts keeps_primitives keeps_helpers keeps_step_guard keeps_skip_step
      keeps_consume keeps_report keeps_step_inputs keeps_run_collection keeps_run_operation
      split: option.split bool.split step_body.split)

lemma keeps_flow_steps:
  assumes "keeps_child R child" "el_max_steps (ev_limits env) = limit"
  shows "keeps (on_fst R) (flow_steps env child c depth)"
  unfolding flow_steps_def flow_output_def flow_failure_def
  by (intro keeps_parts keeps_primitives keeps_helpers keeps_step_iteration assms)

lemma keeps_execute_level:
  assumes "keeps_child R child" "el_max_steps (ev_limits env) = limit"
  shows "keeps R (execute_level env child depth c)"
  unfolding execute_level_def
  by (intro keeps_base keeps_withM keeps_parts keeps_flow_steps assms)

lemma keeps_execute_flow:
  "el_max_steps (ev_limits env) = limit \<Longrightarrow> keeps R (execute_flow env depth c)"
proof (induction env depth c rule: execute_flow.induct)
  case (1 env depth c)
  show ?case
    unfolding execute_flow.simps [of env depth c]
    by (rule keeps_execute_level) (use 1 in \<open>auto simp: keeps_child_def keeps_failM\<close>)
qed

lemma keeps_enter_flow: "keeps R (enter_flow env visited current)"
  unfolding enter_flow_def by (intro keeps_base keeps_helpers)

end

text \<open>At the level of a run the active flow and the flow records move as well.\<close>

locale run_frame = flow_frame R limit for R :: "'w run_state \<Rightarrow> 'w run_state \<Rightarrow> bool" and limit +
  assumes active: "R s (s\<lparr>rs_active := v\<rparr>)"
    and records: "R s (s\<lparr>rs_records := r\<rparr>)"
begin

lemma keeps_run_primitives: "keeps R (set_active v)" "keeps R (set_record k r)"
  by (simp_all add: keeps_def set_active_def set_record_def modM_def active records)

lemma keeps_routed_boundary: "keeps R (routed_boundary env f e issues failure)"
  unfolding routed_boundary_def by (intro keeps_base keeps_run_primitives keeps_helpers)

lemma keeps_sharedM: "keeps (on_fst R) m \<Longrightarrow> keeps R (sharedM m)"
proof -
  assume m: "keeps (on_fst R) m"
  have "R s (snd (sharedM m s))" for s
  proof -
    obtain r t rec where t: "m (s, rs_records s) = (r, (t, rec))"
      by (cases "m (s, rs_records s)") auto
    with m have "R s t" unfolding keeps_def on_fst_def by (metis fst_conv snd_conv)
    then show ?thesis using records frame_trans by (simp add: sharedM_def t)
  qed
  then show ?thesis by (simp add: keeps_def)
qed

lemma keeps_routed_attempt:
  assumes l: "el_max_steps (ev_limits env) = limit"
  shows "keeps R (routed_attempt env f e n attempts inputs)"
proof -
  have c: "keeps_child R (execute_flow env 0)" by (simp add: keeps_child_def keeps_execute_flow l)
  show ?thesis
    unfolding routed_attempt_def observe_record_def
    by (intro keeps_base keeps_run_primitives keeps_sharedM scope_frame.keeps_repeat_attempt [OF on_fst_scope] c
        keeps_routed_boundary keeps_execute_flow l)
qed

lemma keeps_run_routed:
  assumes "el_max_steps (ev_limits env) = limit"
  shows "keeps R (run_routed env f e)"
proof -
  have "keeps R (routed_attempts env f e ns attempts inputs)" for ns attempts inputs
  proof (induction ns arbitrary: attempts inputs)
    case Nil
    show ?case by (simp add: keeps_failM)
  next
    case (Cons n ns)
    show ?case
      unfolding routed_attempts.simps by (intro keeps_base keeps_routed_attempt Cons.IH assms)
  qed
  then show ?thesis
    unfolding run_routed_def by (intro keeps_base keeps_run_primitives keeps_helpers)
qed

lemma keeps_run_loop:
  "el_max_steps (ev_limits env) = limit \<Longrightarrow> keeps (on_fst R) (run_loop env e visited current)"
proof (induction env e visited current rule: run_loop.induct)
  case (1 env e visited)
  show ?case unfolding run_loop.simps by (intro keeps_parts)
next
  case (2 env e visited current)
  have "keeps (on_fst R) (routed_iteration env e visited current)"
    unfolding routed_iteration_def by (intro keeps_parts keeps_enter_flow keeps_run_routed 2)
  moreover have "keeps (on_fst R) (if length (wf_flows (ev_plan env)) \<le> length visited then ret ()
      else run_loop env e (visited @ [current]) n)" for n
    using 2 by (auto intro: local_intros)
  ultimately show ?case unfolding run_loop.simps by (rule local_intros)
qed

lemma keeps_run_single:
  assumes "el_max_steps (ev_limits env) = limit"
  shows "keeps (on_fst R) (run_single env e flow_id step_id)"
  unfolding run_single_def observe_record_def
  by (intro keeps_parts keeps_base keeps_run_primitives keeps_enter_flow keeps_execute_flow assms)

lemma keeps_run_workflow:
  assumes l: "el_max_steps (ev_limits env) = limit"
  shows "keeps R (run_workflow env e flow_id step_id)"
proof -
  have "keeps (on_fst R) (run_body env e flow_id step_id)"
    unfolding run_body_def workflow_output_def
    by (auto intro!: keeps_parts keeps_primitives keeps_helpers keeps_run_single keeps_run_loop
        keeps_getM l split: option.split)
  moreover have "keeps (on_fst R) (run_failure env e x)" for x
    unfolding run_failure_def
    by (auto intro!: keeps_parts keeps_primitives keeps_run_primitives keeps_helpers keeps_getM
        split: option.split)
  ultimately show ?thesis
    unfolding run_workflow_def
    by (intro keeps_base keeps_withM keeps_parts keeps_modM records)
qed

lemma keeps_admit:
  assumes "el_max_steps (ev_limits env) = limit"
  shows "keeps R (admit env e deadline flow_id step_id)"
  unfolding admit_def Let_def by (intro keeps_base keeps_run_workflow) (simp add: assms)

lemma keeps_entry_points:
  assumes "el_max_steps (ev_limits env) = limit"
  shows "keeps R (run_all env e deadline)" "keeps R (run_flow env flow_id e deadline)"
    "keeps R (run_step env flow_id step_id e deadline)"
  unfolding run_all_def run_flow_def run_step_def
  by (auto intro!: keeps_admit assms keeps_failM split: option.split json.split)

end

section \<open>The step counter\<close>

definition steps_within :: "nat \<Rightarrow> 'w run_state \<Rightarrow> 'w run_state \<Rightarrow> bool" where
  "steps_within m s t \<longleftrightarrow> rs_consumed s \<le> rs_consumed t \<and> (rs_consumed s \<le> m \<longrightarrow> rs_consumed t \<le> m)"

interpretation step_counter: run_frame "steps_within m" m
  by unfold_locales
    (auto simp: steps_within_def open_scope_def close_scope_def modM_def)

interpretation step_mono: run_frame "\<lambda>s t. rs_consumed s \<le> rs_consumed t" m
  by unfold_locales (auto simp: open_scope_def close_scope_def modM_def)

text \<open>A nested execution leaves the records of the run and its active flow alone.\<close>

definition records_still :: "'w run_state \<Rightarrow> 'w run_state \<Rightarrow> bool" where
  "records_still s t \<longleftrightarrow> rs_records t = rs_records s \<and> rs_active t = rs_active s \<and>
     rs_consumed s \<le> rs_consumed t"

interpretation records_still: flow_frame records_still m
  by unfold_locales (auto simp: records_still_def open_scope_def close_scope_def modM_def)

section \<open>The observation log\<close>

text \<open>Open scopes after a piece of the log: \<^term>\<open>None\<close> when it closes one that is not open.\<close>

fun scopes_after :: "nat \<Rightarrow> observation list \<Rightarrow> nat option" where
  "scopes_after n [] = Some n"
| "scopes_after n (ScopeStart _ _ _ # os) = scopes_after (Suc n) os"
| "scopes_after n (ScopeEvent _ _ # os) = scopes_after n os"
| "scopes_after n (ScopeFinish _ _ # os) = (case n of 0 \<Rightarrow> None | Suc k \<Rightarrow> scopes_after k os)"

lemma scopes_after_append:
  "scopes_after n (as @ bs) = (case scopes_after n as of None \<Rightarrow> None | Some m \<Rightarrow> scopes_after m bs)"
  by (induction n as rule: scopes_after.induct) (auto split: nat.split)

lemma scopes_after_shift: "scopes_after n os = Some m \<Longrightarrow> scopes_after (n + k) os = Some (m + k)"
proof (induction n os arbitrary: m rule: scopes_after.induct)
  case (4 n st c os)
  then show ?case by (cases n) auto
qed auto

definition balanced_log :: "'w run_state \<Rightarrow> 'w run_state \<Rightarrow> bool" where
  "balanced_log s t \<longleftrightarrow> (\<exists>d. rs_log t = rs_log s @ d \<and> scopes_after 0 d = Some 0)"

interpretation log: run_frame balanced_log m
proof unfold_locales
  show "balanced_log s s" for s :: "'w run_state"
    by (auto simp: balanced_log_def intro: exI [of _ "[]"])
next
  fix s t u :: "'w run_state"
  assume "balanced_log s t" "balanced_log t u"
  then obtain d d' where "rs_log t = rs_log s @ d" "scopes_after 0 d = Some 0"
    "rs_log u = rs_log t @ d'" "scopes_after 0 d' = Some 0"
    by (auto simp: balanced_log_def)
  then have "rs_log u = rs_log s @ (d @ d')" "scopes_after 0 (d @ d') = Some 0"
    by (simp_all add: scopes_after_append)
  then show "balanced_log s u" unfolding balanced_log_def by blast
next
  fix fl st ats and s t :: "'w run_state"
  assume "balanced_log (snd (open_scope fl st ats s)) t"
  then obtain d where d: "rs_log t = rs_log s @ ScopeStart fl st ats # d" "scopes_after 0 d = Some 0"
    by (auto simp: balanced_log_def open_scope_def modM_def)
  obtain x y where "rs_log (snd (close_scope t)) = rs_log t @ [ScopeFinish x y]"
    by (cases "rs_scopes t") (auto simp: close_scope_def modM_def split: prod.split)
  then have "rs_log (snd (close_scope t)) = rs_log s @ (ScopeStart fl st ats # d @ [ScopeFinish x y])"
    using d(1) by simp
  moreover have "scopes_after 0 (ScopeStart fl st ats # d @ [ScopeFinish x y]) = Some 0"
    using scopes_after_shift [OF d(2), of 1] by (simp add: scopes_after_append)
  ultimately show "balanced_log s (snd (close_scope t))" unfolding balanced_log_def by blast
next
  fix s :: "'w run_state" and n a
  show "balanced_log s (s\<lparr>rs_log := rs_log s @ [ScopeEvent n a]\<rparr>)"
    by (auto simp: balanced_log_def)
qed (auto simp: balanced_log_def intro: exI [of _ "[]"])

section \<open>Properties\<close>


text \<open>
  C13: Every observed scope a run opens is closed again, innermost first, and no scope is
  closed that was not opened, whatever fails or is cancelled.
\<close>

theorem scopes_balanced:
  "scopes_after 0 (rs_log (snd (run_all env e d (new_run w)))) = Some 0 \<and>
   scopes_after 0 (rs_log (snd (run_flow env f e d (new_run w)))) = Some 0 \<and>
   scopes_after 0 (rs_log (snd (run_step env f st e d (new_run w)))) = Some 0"
proof -
  have "scopes_after 0 (rs_log s) = Some 0" if "balanced_log (new_run w) s" for s :: "'a run_state"
    using that by (auto simp: balanced_log_def new_run_def)
  moreover note log.keeps_entry_points [OF refl, of env]
  ultimately show ?thesis by (simp add: keeps_def)
qed

end
