(* ===== verification/RunUsage.thy ===== *)
theory RunUsage imports RunFrames begin

text \<open>
  The usage a run reports is bounded by the steps it consumed. The interface of the
  argument is a counter of usage values that adds up and that one step's budget bounds;
  model requests and tool calls are its two interpretations. Assertions see the run state
  only through its step counter.
\<close>

section \<open>Triples over the step counter\<close>

definition bvalid ::
  "(nat \<Rightarrow> bool) \<Rightarrow> ('w, 'a) run \<Rightarrow> ('a \<Rightarrow> nat \<Rightarrow> bool) \<Rightarrow> (nat \<Rightarrow> bool) \<Rightarrow> bool" where
  "bvalid P m Q E \<longleftrightarrow> valid (\<lambda>s. P (rs_consumed s)) m (\<lambda>a s. Q a (rs_consumed s)) (\<lambda>_ s. E (rs_consumed s))"

definition lvalid ::
  "(nat \<Rightarrow> 'l \<Rightarrow> bool) \<Rightarrow> ('w run_state \<times> 'l, 'a) eff \<Rightarrow> ('a \<Rightarrow> nat \<Rightarrow> 'l \<Rightarrow> bool) \<Rightarrow>
     (nat \<Rightarrow> 'l \<Rightarrow> bool) \<Rightarrow> bool" where
  "lvalid P m Q E \<longleftrightarrow>
     valid (\<lambda>p. P (rs_consumed (fst p)) (snd p)) m (\<lambda>a p. Q a (rs_consumed (fst p)) (snd p))
       (\<lambda>_ p. E (rs_consumed (fst p)) (snd p))"

text \<open>A computation that leaves the locals alone and consumes, at most, steps.\<close>

definition still :: "'w run_state \<times> 'l \<Rightarrow> 'w run_state \<times> 'l \<Rightarrow> bool" where
  "still p q \<longleftrightarrow> snd q = snd p \<and> rs_consumed (fst p) \<le> rs_consumed (fst q)"

interpretation still: frame still
  by unfold_locales (auto simp: still_def)

lemma still_liftM: "keeps (\<lambda>s t. rs_consumed s \<le> rs_consumed t) m \<Longrightarrow> keeps still (liftM m)"
  unfolding keeps_def still_def liftM_def by (auto split: prod.split) (metis snd_conv)

lemma bvalid_keeps:
  assumes "keeps (\<lambda>s t. rs_consumed s \<le> rs_consumed t) m" "\<And>c d. c \<le> d \<Longrightarrow> P c \<Longrightarrow> P d"
  shows "bvalid P m (\<lambda>_. P) P"
  using assms unfolding bvalid_def valid_def keeps_def
  by (auto split: prod.split sum.split) (metis snd_conv)+

lemma lvalid_still:
  assumes "keeps still m" "\<And>c d l. c \<le> d \<Longrightarrow> P c l \<Longrightarrow> P d l"
  shows "lvalid P m (\<lambda>_. P) P"
  using assms unfolding lvalid_def valid_def keeps_def still_def
  by (auto split: prod.split sum.split) (metis fst_conv snd_conv)+

lemma bvalid_conseq:
  "bvalid P' m Q' E' \<Longrightarrow> (\<And>c. P c \<Longrightarrow> P' c) \<Longrightarrow> (\<And>a c. Q' a c \<Longrightarrow> Q a c) \<Longrightarrow> (\<And>c. E' c \<Longrightarrow> E c) \<Longrightarrow>
     bvalid P m Q E"
  unfolding bvalid_def by (erule valid_conseq) simp_all

lemma lvalid_conseq:
  "lvalid P' m Q' E' \<Longrightarrow> (\<And>c l. P c l \<Longrightarrow> P' c l) \<Longrightarrow> (\<And>a c l. Q' a c l \<Longrightarrow> Q a c l) \<Longrightarrow>
     (\<And>c l. E' c l \<Longrightarrow> E c l) \<Longrightarrow> lvalid P m Q E"
  unfolding lvalid_def by (erule valid_conseq) simp_all

lemma lvalid_assume: "(\<And>l. (\<exists>c. P c l) \<Longrightarrow> lvalid (\<lambda>c l'. l' = l \<and> P c l) m Q E) \<Longrightarrow> lvalid P m Q E"
  unfolding lvalid_def valid_def by (fastforce split: prod.splits sum.splits)

lemma bvalid_bindM: "bvalid P m R E \<Longrightarrow> (\<And>a. bvalid (R a) (f a) Q E) \<Longrightarrow> bvalid P (bindM m f) Q E"
  unfolding bvalid_def by (rule valid_bindM)

lemma lvalid_bindM: "lvalid P m R E \<Longrightarrow> (\<And>a. lvalid (R a) (f a) Q E) \<Longrightarrow> lvalid P (bindM m f) Q E"
  unfolding lvalid_def by (rule valid_bindM)

lemma bvalid_thenM: "bvalid P m (\<lambda>_. R) E \<Longrightarrow> bvalid R n Q E \<Longrightarrow> bvalid P (thenM m n) Q E"
  unfolding bvalid_def by (rule valid_thenM)

lemma lvalid_thenM: "lvalid P m (\<lambda>_. R) E \<Longrightarrow> lvalid R n Q E \<Longrightarrow> lvalid P (thenM m n) Q E"
  unfolding lvalid_def by (rule valid_thenM)

lemma bvalid_ret: "bvalid (Q a) (ret a) Q E"
  unfolding bvalid_def by (rule valid_conseq [OF valid_ret]) auto

lemma lvalid_ret: "(\<And>c l. P c l \<Longrightarrow> Q a c l) \<Longrightarrow> lvalid P (ret a) Q E"
  unfolding lvalid_def valid_def ret_def by simp

lemma lvalid_fail: "(\<And>c l. P c l \<Longrightarrow> E c l) \<Longrightarrow> lvalid P (failM k) Q E"
  "(\<And>c l. P c l \<Longrightarrow> E c l) \<Longrightarrow> lvalid P (throw x) Q E"
  unfolding lvalid_def valid_def failM_def throw_def raise_code_def by simp_all

lemma bvalid_fail: "(\<And>c. P c \<Longrightarrow> E c) \<Longrightarrow> bvalid P (failM k) Q E"
  unfolding bvalid_def valid_def failM_def raise_code_def by simp

lemma lvalid_modM:
  "(\<And>c l. P c l \<Longrightarrow> Q () c (f l)) \<Longrightarrow> lvalid P (modM (\<lambda>p. (fst p, f (snd p)))) Q E"
  unfolding lvalid_def valid_def modM_def by simp

lemma lvalid_get: "(\<And>c l. P c l \<Longrightarrow> Q l c l) \<Longrightarrow> lvalid P (getM snd) Q E"
  unfolding lvalid_def valid_def getM_def by simp

lemma lvalid_pureM:
  "(\<And>a c l. r = Inr a \<Longrightarrow> P c l \<Longrightarrow> Q a c l) \<Longrightarrow> (\<And>c l. P c l \<Longrightarrow> E c l) \<Longrightarrow> lvalid P (pureM r) Q E"
  by (cases r) (simp_all add: lvalid_def valid_def pureM_def)

lemma lvalid_exceptM:
  "lvalid P m Q E' \<Longrightarrow> (\<And>e. lvalid E' (h e) Q E) \<Longrightarrow> (\<And>c l. E' c l \<Longrightarrow> E c l) \<Longrightarrow>
     lvalid P (exceptM m h) Q E"
  unfolding lvalid_def by (rule valid_exceptM)

lemma lvalid_finallyM:
  "lvalid P m Q' E' \<Longrightarrow> (\<And>a. lvalid (Q' a) f (\<lambda>_. Q a) E) \<Longrightarrow> lvalid E' f (\<lambda>_. E) E \<Longrightarrow>
     lvalid P (finallyM m f) Q E"
  unfolding lvalid_def by (rule valid_finallyM)

lemma lvalid_liftM:
  "(\<And>l. bvalid (\<lambda>c. P c l) m (\<lambda>a c. Q a c l) (\<lambda>c. E c l)) \<Longrightarrow> lvalid P (liftM m) Q E"
  unfolding lvalid_def bvalid_def by (rule valid_liftM) simp

lemma bvalid_withM:
  "lvalid (\<lambda>c l'. l' = l \<and> P c) m (\<lambda>a c _. Q a c) (\<lambda>c _. E c) \<Longrightarrow> bvalid P (withM l m) Q E"
  unfolding lvalid_def bvalid_def by (rule valid_withM) (simp add: conj_commute)

lemma lvalid_if: "lvalid P m Q E \<Longrightarrow> lvalid P n Q E \<Longrightarrow> lvalid P (if b then m else n) Q E"
  by simp

lemma lvalid_loopM:
  "(\<And>x. x \<in> set xs \<Longrightarrow> lvalid I (body x) (\<lambda>_. I) I) \<Longrightarrow> lvalid I (loopM body xs) (\<lambda>_. I) I"
  unfolding lvalid_def by (rule valid_loopM) (auto simp: if_distrib)

text \<open>Scopes are invisible to these assertions.\<close>

lemma lvalid_scope_parts:
  "lvalid P (liftM (open_scope fl st ats)) (\<lambda>_. P) E"
  "lvalid P (liftM close_scope) (\<lambda>_. P) E"
  "lvalid P (liftM (thenM (set_outcome x y) close_scope)) (\<lambda>_. P) E"
  "lvalid P (liftM (set_outcome x y)) (\<lambda>_. P) E"
  "lvalid P (liftM (event n a)) (\<lambda>_. P) E"
  by (simp_all add: lvalid_def valid_def liftM_def open_scope_def close_scope_def set_outcome_def
      event_def thenM_def bindM_def modM_def)

lemma lvalid_observe:
  assumes "lvalid P body Q E"
  shows "lvalid P (observe_local fl st ats body) Q E"
  unfolding observe_at_def
proof (intro lvalid_thenM [OF lvalid_scope_parts(1)] lvalid_bindM)
  show "lvalid P (handleM body (\<lambda>e. thenM (liftM (thenM (set_outcome (fst (observed_error e))
      (Some (snd (observed_error e)))) close_scope)) (throw e))) Q E"
    unfolding lvalid_def
  proof (rule valid_handleM [OF assms [unfolded lvalid_def]])
    fix e
    show "valid (\<lambda>p. E (rs_consumed (fst p)) (snd p))
        (thenM (liftM (thenM (set_outcome (fst (observed_error e)) (Some (snd (observed_error e))))
            close_scope)) (throw e))
        (\<lambda>a p. Q a (rs_consumed (fst p)) (snd p)) (\<lambda>_ p. E (rs_consumed (fst p)) (snd p))"
      using lvalid_thenM [OF lvalid_scope_parts(3) lvalid_fail(2)] unfolding lvalid_def by blast
  qed
  show "lvalid (Q a) (thenM (liftM close_scope) (ret a)) Q E" for a
    by (intro lvalid_thenM [OF lvalid_scope_parts(2)] lvalid_ret)
qed

lemma valid_lift_fst:
  "valid P m Q E \<Longrightarrow> valid (\<lambda>p. P (fst p)) (liftM m) (\<lambda>a p. Q a (fst p)) (\<lambda>e p. E e (fst p))"
  by (rule valid_liftM) simp

lemma lvalid_keeps:
  assumes "keeps R m" "\<And>p q. R p q \<Longrightarrow> P (rs_consumed (fst p)) (snd p) \<Longrightarrow> P (rs_consumed (fst q)) (snd q)"
  shows "lvalid P m (\<lambda>_. P) P"
  using assms unfolding lvalid_def valid_def keeps_def
  by (auto split: prod.split sum.split) (metis fst_conv snd_conv)+

section \<open>Counting usage in records\<close>

definition opt_count :: "(usage \<Rightarrow> nat) \<Rightarrow> usage option \<Rightarrow> nat" where
  "opt_count cnt u = (case u of None \<Rightarrow> 0 | Some v \<Rightarrow> cnt v)"

definition runs_count :: "(usage \<Rightarrow> nat) \<Rightarrow> flow_record list \<Rightarrow> nat" where
  "runs_count cnt rs = sum_list (map (\<lambda>r. opt_count cnt (fr_usage r)) rs)"

definition record_count :: "(usage \<Rightarrow> nat) \<Rightarrow> flow_record \<Rightarrow> nat" where
  "record_count cnt r = opt_count cnt (total_usage r)"

definition scope_count :: "(usage \<Rightarrow> nat) \<Rightarrow> flow_records \<Rightarrow> nat" where
  "scope_count cnt recs = sum_list (map (\<lambda>p. record_count cnt (snd p)) recs)"

definition count_at :: "(usage \<Rightarrow> nat) \<Rightarrow> flow_records \<Rightarrow> string \<Rightarrow> nat" where
  "count_at cnt recs n = (case get recs n of None \<Rightarrow> 0 | Some r \<Rightarrow> record_count cnt r)"

text \<open>Locals whose usage a part leaves alone.\<close>

definition usage_still :: "'w run_state \<times> flow_locals \<Rightarrow> 'w run_state \<times> flow_locals \<Rightarrow> bool" where
  "usage_still p q \<longleftrightarrow> lo_usage (snd q) = lo_usage (snd p) \<and> rs_consumed (fst p) \<le> rs_consumed (fst q)"

interpretation usage_still: frame usage_still
  by unfold_locales (auto simp: usage_still_def)

lemma usage_still_liftM: "keeps (\<lambda>s t. rs_consumed s \<le> rs_consumed t) m \<Longrightarrow> keeps usage_still (liftM m)"
  using still_liftM unfolding keeps_def still_def usage_still_def by (metis (no_types))

lemma usage_still_locally: "(\<And>l. lo_usage (f l) = lo_usage l) \<Longrightarrow> keeps usage_still (locally f)"
  by (simp add: keeps_def locally_def modM_def usage_still_def)

lemmas usage_still_intros = usage_still.keeps_intros usage_still_liftM usage_still_locally
  step_mono.keeps_cases

section \<open>The bound\<close>

locale step_count =
  fixes count :: "usage \<Rightarrow> nat" and env :: "'w run_env" and K :: nat
  assumes count_zero: "count usage_zero = 0"
    and count_plus: "count (usage_plus a b) = count a + count b"
    and count_budget: "snapshot (budget_run (new_budget (el_model_requests (ev_limits env))
      (el_tool_calls (ev_limits env))) ops) = Inr u \<Longrightarrow> count u \<le> K"
begin

lemma count_add: "count (add_usage u v) = count u + opt_count count v"
  by (cases v) (simp_all add: opt_count_def count_plus)

lemma count_foldl: "count (foldl add_usage u us) = count u + sum_list (map (opt_count count) us)"
  by (induction us arbitrary: u) (simp_all add: count_add)

lemma record_count_simps:
  "fr_attempts r = [] \<Longrightarrow> record_count count r = opt_count count (fr_usage r)"
  "fr_attempts r \<noteq> [] \<Longrightarrow> record_count count r = runs_count count (fr_attempts r)"
  by (simp_all add: record_count_def total_usage_def runs_count_def count_foldl count_zero
      opt_count_def [of count "Some _"] comp_def)

lemma record_count_attempts: "runs_count count (fr_attempts r) \<le> record_count count r"
  by (cases "fr_attempts r = []") (simp_all add: record_count_simps runs_count_def)

lemma record_count_with [simp]:
  "record_count count (with_attempts r (as @ [a])) = runs_count count as + opt_count count (fr_usage a)"
  "record_count count (with_stop r st (as @ [a]) x) = runs_count count as + opt_count count (fr_usage a)"
  by (simp_all add: record_count_simps runs_count_def)

lemma scope_count_put:
  "dict_wf recs \<Longrightarrow> scope_count count (put n r recs) + count_at count recs n =
     scope_count count recs + record_count count r"
proof (induction recs)
  case Nil
  then show ?case by (simp add: scope_count_def count_at_def)
next
  case (Cons p recs)
  obtain m q where p: "p = (m, q)" by fastforce
  show ?case
  proof (cases "m = n")
    case True
    then show ?thesis by (simp add: p scope_count_def count_at_def)
  next
    case False
    with Cons show ?thesis by (auto simp: p scope_count_def count_at_def)
  qed
qed

text \<open>The invariant of a flow's locals: what was used is covered by the steps consumed.\<close>

definition covered :: "nat \<Rightarrow> nat \<Rightarrow> flow_locals \<Rightarrow> bool" where
  "covered k n l \<longleftrightarrow> k + count (lo_usage l) \<le> K * n"

lemma covered_mono: "c \<le> d \<Longrightarrow> covered k c l \<Longrightarrow> covered k d l"
  unfolding covered_def using mult_le_mono2 [of c d K] by linarith

lemma K_mono: "k \<le> K * c \<Longrightarrow> c \<le> d \<Longrightarrow> k \<le> K * d"
  using mult_le_mono2 [of c d K] by linarith

lemma usage_still_covered: "keeps usage_still m \<Longrightarrow> lvalid (covered k) m (\<lambda>_. covered k) (covered k)"
  by (erule lvalid_keeps) (auto simp: usage_still_def covered_def intro: K_mono)

lemma usage_still_slack:
  "keeps usage_still m \<Longrightarrow> lvalid (\<lambda>n l. covered (k + K) n l) m (\<lambda>_. covered (k + K)) (covered k)"
  by (rule lvalid_conseq [OF usage_still_covered [where k = "k + K"]]) (auto simp: covered_def)

lemmas mono_prims = step_mono.keeps_primitives step_mono.keeps_helpers step_mono.keeps_report
  step_mono.keeps_executor_result step_mono.keeps_intros

lemma call_executor_slack:
  "sc_budget ctx = new_budget (el_model_requests (ev_limits env)) (el_tool_calls (ev_limits env)) \<Longrightarrow>
   lvalid (covered (k + K)) (liftM (call_executor env step inputs ctx))
     (\<lambda>x n l. covered (k + K) n l \<and> (\<forall>u. snapshot (snd x) = Inr u \<longrightarrow> count u \<le> K)) E"
  by (auto simp: lvalid_def valid_def liftM_def call_executor_def dest: count_budget split: prod.splits)

lemma account_covered:
  assumes "\<forall>u. snapshot b = Inr u \<longrightarrow> count u \<le> K"
  shows "lvalid (covered (k + K)) (account_usage b) (\<lambda>_. covered k) (covered k)"
  unfolding account_usage_def locally_def
  by (intro lvalid_bindM [where R = "\<lambda>u n l. covered (k + K) n l \<and> count u \<le> K"] lvalid_pureM lvalid_modM)
    (use assms in \<open>auto simp: covered_def count_plus\<close>)

lemma record_outcome_still: "keeps usage_still (record_outcome env c step ck value)"
  unfolding record_outcome_def
  by (intro usage_still_intros mono_prims) simp_all

lemma run_operation_covered:
  "lvalid (covered (k + K)) (run_operation env c step inputs) (\<lambda>_. covered k) (covered k)"
proof -
  have fin: "lvalid (covered (k + K)) (finallyM (liftM (executor_result env r)) (account_usage b))
      (\<lambda>_. covered k) (covered k)" if "\<forall>u. snapshot b = Inr u \<longrightarrow> count u \<le> K" for r b
    by (intro lvalid_finallyM [OF usage_still_covered account_covered account_covered]
        usage_still_liftM mono_prims that)
  have fin': "lvalid (\<lambda>n l. covered (k + K) n l \<and> (\<forall>u. snapshot b = Inr u \<longrightarrow> count u \<le> K))
      (finallyM (liftM (executor_result env r)) (account_usage b)) (\<lambda>_. covered k) (covered k)" for r b
  proof (cases "\<forall>u. snapshot b = Inr u \<longrightarrow> count u \<le> K")
    case True
    show ?thesis by (rule lvalid_conseq [OF fin [OF True]]) simp_all
  next
    case False
    then show ?thesis unfolding lvalid_def valid_def by blast
  qed
  have rest: "lvalid (covered k) (thenM (liftM (check_deadline env))
         (bindM (pureM (validate_outcome raw (st_body step))) (\<lambda>ck.
           bindM (pureM (freeze_result (ro_result raw))) (record_outcome env c step ck))))
      (\<lambda>_. covered k) (covered k)" for raw
    by (intro usage_still_covered usage_still_intros record_outcome_still mono_prims)
  show ?thesis
    unfolding run_operation_def
  proof (rule lvalid_bindM [OF usage_still_slack [OF usage_still_liftM [OF step_mono.keeps_primitives(3)]]])
    fix trace
    let ?ctx = "step_context_of env c step trace"
    have ctx: "sc_budget ?ctx = new_budget (el_model_requests (ev_limits env)) (el_tool_calls (ev_limits env))"
      by (simp add: step_context_of_def)
    show "lvalid (covered (k + K)) (bindM (liftM (call_executor env step inputs ?ctx)) (\<lambda>(r, b).
       bindM (finallyM (liftM (executor_result env r)) (account_usage b)) (\<lambda>raw.
        thenM (liftM (check_deadline env))
         (bindM (pureM (validate_outcome raw (st_body step))) (\<lambda>ck.
           bindM (pureM (freeze_result (ro_result raw))) (record_outcome env c step ck))))))
       (\<lambda>_. covered k) (covered k)"
    proof (rule lvalid_bindM [OF call_executor_slack [OF ctx]])
      fix x :: "(exn, raw_outcome) result \<times> budget"
      obtain r b where x: "x = (r, b)" by fastforce
      show "lvalid (\<lambda>n l. covered (k + K) n l \<and> (\<forall>u. snapshot (snd x) = Inr u \<longrightarrow> count u \<le> K))
         (case x of (r, b) \<Rightarrow>
           bindM (finallyM (liftM (executor_result env r)) (account_usage b)) (\<lambda>raw.
            thenM (liftM (check_deadline env))
             (bindM (pureM (validate_outcome raw (st_body step))) (\<lambda>ck.
               bindM (pureM (freeze_result (ro_result raw))) (record_outcome env c step ck)))))
         (\<lambda>_. covered k) (covered k)"
        unfolding x by simp (rule lvalid_bindM [OF fin' rest])
    qed
  qed
qed

text \<open>Nested flows pay for their own usage.\<close>

definition paying :: "'w child \<Rightarrow> bool" where
  "paying child \<longleftrightarrow> keeps_child (\<lambda>s t. rs_consumed s \<le> rs_consumed t) child \<and>
     (\<forall>c k. bvalid (\<lambda>n. k \<le> K * n) (child c)
       (\<lambda>x n. k + opt_count count (fr_usage (fst x)) \<le> K * n \<and> fr_attempts (fst x) = [])
       (\<lambda>n. k \<le> K * n))"

lemma payingD: "paying child \<Longrightarrow> bvalid (\<lambda>n. k \<le> K * n) (child c)
    (\<lambda>x n. k + opt_count count (fr_usage (fst x)) \<le> K * n \<and> fr_attempts (fst x) = [])
    (\<lambda>n. k \<le> K * n)"
  and paying_keeps: "paying child \<Longrightarrow> keeps_child (\<lambda>s t. rs_consumed s \<le> rs_consumed t) child"
  by (simp_all add: paying_def)

text \<open>
  The invariant of a repeat's scope: the records cover what was used, and the repeated
  flow's own record stays as it is.
\<close>

definition scoped :: "nat \<Rightarrow> string \<Rightarrow> flow_record option \<Rightarrow> nat \<Rightarrow> flow_records \<Rightarrow> bool" where
  "scoped k f r n recs \<longleftrightarrow> dict_wf recs \<and> k + scope_count count recs \<le> K * n \<and> get recs f = r"

lemma scoped_mono: "c \<le> d \<Longrightarrow> scoped k f r c l \<Longrightarrow> scoped k f r d l"
  unfolding scoped_def by (auto intro: K_mono)

lemma still_scoped: "keeps still m \<Longrightarrow> lvalid (scoped k f r) m (\<lambda>_. scoped k f r) (scoped k f r)"
  by (rule lvalid_still) (auto intro: scoped_mono)

lemmas still_intros = still.keeps_intros still_liftM step_mono.keeps_cases

text \<open>A record that was paid for on top of its earlier runs may be put into the scope.\<close>

lemma scoped_put:
  assumes "scoped (k + x) f r n recs" "record_count count q \<le> count_at count recs m + x"
  shows "scoped k f (if m = f then Some q else r) n (put m q recs)"
  using assms scope_count_put [of recs m q] by (auto simp: scoped_def)

lemma run_retry_scoped:
  assumes c: "paying child" and ne: "fl_name retry \<noteq> f"
  shows "lvalid (\<lambda>n recs. scoped k f r n recs \<and> runs_count count runs \<le> count_at count recs (fl_name retry))
    (run_retry env child rp retry attempt issues e it runs inputs) (\<lambda>_. scoped k f r) (scoped k f r)"
proof -
  let ?P = "\<lambda>n recs. scoped k f r n recs \<and> runs_count count runs \<le> count_at count recs (fl_name retry)"
  let ?R = "\<lambda>x n recs. scoped (k + opt_count count (fr_usage (fst x))) f r n recs \<and>
    runs_count count runs \<le> count_at count recs (fl_name retry)"
  have call: "lvalid ?P (liftM (child (retry_flow_call retry le attempt it))) ?R (scoped k f r)" for le
  proof (rule lvalid_liftM)
    fix l
    show "bvalid (\<lambda>n. ?P n l) (child (retry_flow_call retry le attempt it)) (\<lambda>a n. ?R a n l)
       (\<lambda>n. scoped k f r n l)"
    proof (cases "dict_wf l \<and> get l f = r \<and> runs_count count runs \<le> count_at count l (fl_name retry)")
      case True
      then show ?thesis
        by (intro bvalid_conseq [OF payingD [OF c, where k = "k + scope_count count l"]])
          (auto simp: scoped_def)
    next
      case False
      then show ?thesis unfolding bvalid_def valid_def scoped_def by blast
    qed
  qed
  have seen: "lvalid (?R x) (case x of (record, retry_issues) \<Rightarrow>
       thenM (liftM (observe_record record)) (ret (record, retry_issues))) ?R (scoped k f r)" for x
    by (cases x) (auto simp: observe_record_def intro!: lvalid_thenM [OF lvalid_scope_parts(4)] lvalid_ret)
  have frozen: "lvalid ?P (pureM (from_frozen (JObj inputs) (en_metadata e))) (\<lambda>_. ?P) (scoped k f r)"
    by (rule lvalid_pureM) simp_all
  note body = lvalid_bindM [OF frozen lvalid_bindM [OF call seen]]
  have rest: "keeps still (if fr_status rec = Failed
          then ret (Some ((stop_repeat StopFailure issues)\<lparr>rd_failure := fr_error rec\<rparr>))
          else if fr_status rec = NeedsReview
          then ret (Some ((stop_repeat StopReview ri)\<lparr>rd_status := Some NeedsReview\<rparr>))
          else case rp_continue_when rp of
            None \<Rightarrow> ret None
          | Some w \<Rightarrow>
              bindM (getM snd) (\<lambda>records.
                bindM (liftM (condition_holds env w ''repeat.retry.continue_when''
                    (workflow_context e records))) (\<lambda>b.
                  ret (if b then None else Some (stop_repeat StopContinueWhen issues)))))" for rec ri
    by (intro still_intros mono_prims)
  have put: "lvalid (?R x) (record_flow (fl_name retry) (with_attempts (fst x) (runs @ [fst x])))
      (\<lambda>_. scoped k f r) (scoped k f r)" for x
    unfolding record_flow_def
  proof (rule lvalid_modM)
    fix n recs
    assume "?R x n recs"
    then show "scoped k f r n (put (fl_name retry) (with_attempts (fst x) (runs @ [fst x])) recs)"
      using scoped_put [of k "opt_count count (fr_usage (fst x))" f r n recs
          "with_attempts (fst x) (runs @ [fst x])" "fl_name retry"] ne by simp
  qed
  show ?thesis
    unfolding run_retry_def
  proof (rule lvalid_bindM [OF lvalid_observe [OF body]])
    fix x :: "flow_record \<times> issue list"
    obtain rec ri where x: "x = (rec, ri)" by fastforce
    show "lvalid (?R x) (case x of (record, retry_issues) \<Rightarrow>
        thenM (record_flow (fl_name retry) (with_attempts record (runs @ [record])))
         (if fr_status record = Failed
          then ret (Some ((stop_repeat StopFailure issues)\<lparr>rd_failure := fr_error record\<rparr>))
          else if fr_status record = NeedsReview
          then ret (Some ((stop_repeat StopReview retry_issues)\<lparr>rd_status := Some NeedsReview\<rparr>))
          else case rp_continue_when rp of
            None \<Rightarrow> ret None
          | Some w \<Rightarrow>
              bindM (getM snd) (\<lambda>records.
                bindM (liftM (condition_holds env w ''repeat.retry.continue_when''
                    (workflow_context e records))) (\<lambda>b.
                  ret (if b then None else Some (stop_repeat StopContinueWhen issues))))))
       (\<lambda>_. scoped k f r) (scoped k f r)"
      unfolding x prod.case
      using lvalid_thenM [OF put [of x, unfolded x fst_conv] still_scoped [OF rest]]
      by (simp add: x)
  qed
qed

lemma scoped_attempts:
  "scoped k f r n recs \<Longrightarrow>
     runs_count count (case get recs m of Some p \<Rightarrow> fr_attempts p | None \<Rightarrow> []) \<le> count_at count recs m"
  by (auto simp: count_at_def runs_count_def record_count_attempts [unfolded runs_count_def] split: option.split)

lemma retry_phase_scoped:
  assumes c: "paying child" and ne: "rp_retry_flow rp \<noteq> Some f"
  shows "lvalid (scoped k f r) (retry_phase env child rp attempt issues e it) (\<lambda>_. scoped k f r) (scoped k f r)"
proof (cases "rp_retry_flow rp")
  case None
  then show ?thesis by (simp add: retry_phase_def lvalid_ret)
next
  case n: (Some n)
  show ?thesis
  proof (cases "workflow_flow (ev_plan env) n")
    case None
    with n show ?thesis by (simp add: retry_phase_def lvalid_fail)
  next
    case (Some retry)
    then have name: "fl_name retry \<noteq> f" using ne n workflow_flow_Some by metis
    let ?runs = "\<lambda>recs. case get recs (fl_name retry) of Some p \<Rightarrow> fr_attempts p | None \<Rightarrow> []"
    let ?P = "\<lambda>recs n l. scoped k f r n l \<and> runs_count count (?runs recs) \<le> count_at count l (fl_name retry)"
    let ?R = "\<lambda>recs x. case x of Inl _ \<Rightarrow> ?P recs | Inr (_ :: repeat_decision) \<Rightarrow> scoped k f r"
    have input: "lvalid (?P recs) (bindM (pureM (flow_input env (fl_name retry) (rp_retry_flow_input rp) e recs))
        (\<lambda>inputs. ret (Inl inputs))) (?R recs) (?P recs)" for recs
      by (intro lvalid_bindM [where R = "\<lambda>_. ?P recs"] lvalid_pureM lvalid_ret) simp_all
    have failed: "lvalid (?P recs) (bindM (liftM (failure_at env caught)) (\<lambda>failure.
          let failed = failed_flow retry (Some failure) [] None in
          thenM (record_flow (fl_name retry) (with_attempts failed (?runs recs @ [failed])))
            (ret (Inr ((stop_repeat StopFailure issues)\<lparr>rd_failure := Some failure\<rparr>)))))
        (?R recs) (scoped k f r)" for recs caught
    proof (rule lvalid_bindM [where R = "\<lambda>_. ?P recs"])
      show "lvalid (?P recs) (liftM (failure_at env caught)) (\<lambda>_. ?P recs) (scoped k f r)"
        by (rule lvalid_conseq [OF lvalid_still [OF still_liftM, where P = "?P recs"]])
          (auto intro: mono_prims scoped_mono)
      fix failure
      let ?f = "failed_flow retry (Some failure) [] None"
      have z: "opt_count count (fr_usage ?f) = 0"
        by (simp add: failed_flow_def opt_count_def count_zero)
      have "scoped k f r n (put (fl_name retry) (with_attempts ?f (?runs recs @ [?f])) l)"
        if "?P recs n l" for n l
        using scoped_put [of k 0 f r n l "with_attempts ?f (?runs recs @ [?f])" "fl_name retry"] that name
        by (simp add: z)
      then show "lvalid (?P recs) (let failed = ?f in
          thenM (record_flow (fl_name retry) (with_attempts failed (?runs recs @ [failed])))
            (ret (Inr ((stop_repeat StopFailure issues)\<lparr>rd_failure := Some failure\<rparr>))))
        (?R recs) (scoped k f r)"
        unfolding Let_def record_flow_def
        by (intro lvalid_thenM [where R = "scoped k f r"] lvalid_modM lvalid_ret) auto
    qed
    have go: "lvalid (?R recs x) (case x of
          Inl inputs \<Rightarrow> run_retry env child rp retry attempt issues e it (?runs recs) inputs
        | Inr d \<Rightarrow> ret (Some d)) (\<lambda>_. scoped k f r) (scoped k f r)" for recs x
      by (cases x) (simp_all add: run_retry_scoped [OF c name] lvalid_ret)
    have "lvalid (?P recs) (bindM (exceptM
          (bindM (pureM (flow_input env (fl_name retry) (rp_retry_flow_input rp) e recs))
            (\<lambda>inputs. ret (Inl inputs)))
          (\<lambda>caught. bindM (liftM (failure_at env caught)) (\<lambda>failure.
            let failed = failed_flow retry (Some failure) [] None in
            thenM (record_flow (fl_name retry) (with_attempts failed (?runs recs @ [failed])))
              (ret (Inr ((stop_repeat StopFailure issues)\<lparr>rd_failure := Some failure\<rparr>))))))
        (\<lambda>x. case x of
           Inl inputs \<Rightarrow> run_retry env child rp retry attempt issues e it (?runs recs) inputs
         | Inr d \<Rightarrow> ret (Some d))) (\<lambda>_. scoped k f r) (scoped k f r)" for recs
      by (rule lvalid_bindM [OF lvalid_exceptM [OF input failed] go]) simp
    then show ?thesis
      unfolding retry_phase_def n Some option.case Let_def [of "?runs _"]
      by (intro lvalid_bindM [OF lvalid_get [where Q = "\<lambda>recs. ?P recs"]])
        (use scoped_attempts in \<open>auto simp: Let_def\<close>)
  qed
qed

lemma decide_next_still: "keeps still (decide_next env f rp issues e it)"
  unfolding decide_next_def next_input_def by (intro still_intros mono_prims)

lemma repeat_step_scoped:
  assumes "paying child" "rp_retry_flow rp \<noteq> Some f"
  shows "lvalid (scoped k f r) (repeat_step env child g rp rec attempt issues e it)
     (\<lambda>_. scoped k f r) (scoped k f r)"
proof -
  have "lvalid (scoped k f r) (bindM (retry_phase env child rp attempt issues e it) (\<lambda>d.
       case d of Some stop \<Rightarrow> ret stop | None \<Rightarrow> decide_next env g rp issues e it))
     (\<lambda>_. scoped k f r) (scoped k f r)"
    by (rule lvalid_bindM [OF retry_phase_scoped [OF assms]])
      (auto intro: lvalid_ret still_scoped decide_next_still split: option.split)
  then show ?thesis
    unfolding repeat_step_def
    by (intro lvalid_if lvalid_ret lvalid_bindM [OF still_scoped [OF still.keeps_getM]]
        lvalid_bindM [OF still_scoped [OF still_liftM]] mono_prims)
qed

definition scope_ok :: "nat \<Rightarrow> nat \<Rightarrow> flow_records \<Rightarrow> bool" where
  "scope_ok k n recs \<longleftrightarrow> dict_wf recs \<and> k + scope_count count recs \<le> K * n"

lemma scoped_ok: "scoped k f r n recs \<Longrightarrow> scope_ok k n recs"
  by (simp add: scoped_def scope_ok_def)

lemma scope_ok_mono: "c \<le> d \<Longrightarrow> scope_ok k c recs \<Longrightarrow> scope_ok k d recs"
  unfolding scope_ok_def by (auto intro: K_mono)

lemma repeat_attempt_scoped:
  assumes c: "paying child" and ne: "rp_retry_flow rp \<noteq> Some (fl_name f)"
  shows "lvalid (\<lambda>n recs. scope_ok (k + opt_count count (fr_usage rec)) n recs \<and>
        runs_count count old \<le> count_at count recs (fl_name f))
      (repeat_attempt env child f rp rec (old @ [rec]) attempt issues e it)
      (\<lambda>_ n recs. \<exists>q. scoped k (fl_name f) (Some q) n recs \<and> fr_attempts q = old @ [rec]) (scope_ok k)"
proof -
  let ?n = "fl_name f"
  let ?a = "with_attempts rec (old @ [rec])"
  let ?Q = "\<lambda>n recs. \<exists>q. scoped k ?n (Some q) n recs \<and> fr_attempts q = old @ [rec]"
  have put1: "scoped k ?n (Some ?a) n (put ?n ?a recs)"
    if "scope_ok (k + opt_count count (fr_usage rec)) n recs \<and> runs_count count old \<le> count_at count recs ?n"
    for n recs
    using that scoped_put [of k "opt_count count (fr_usage rec)" ?n "get recs ?n" n recs ?a ?n]
    by (simp add: scoped_def scope_ok_def)
  have put2: "?Q n (put ?n (with_stop rec st (old @ [rec]) x) recs)"
    if "scoped k ?n (Some ?a) n recs" for n recs st x
  proof (intro exI conjI)
    show "scoped k ?n (Some (with_stop rec st (old @ [rec]) x)) n
        (put ?n (with_stop rec st (old @ [rec]) x) recs)"
      using scoped_put [of k 0 ?n "Some ?a" n recs "with_stop rec st (old @ [rec]) x" ?n] that
      by (simp add: count_at_def scoped_def)
  qed simp
  have ev: "lvalid ?Q (case x of None \<Rightarrow> ret () | Some stop \<Rightarrow>
      liftM (event ''repeat.stopped'' [(''stopped_by'', JStr (stop_text stop))])) (\<lambda>_. ?Q) (scope_ok k)" for x
    by (cases x) (simp_all add: lvalid_ret lvalid_scope_parts)
  have dec: "lvalid (scoped k ?n (Some ?a)) (repeat_step env child f rp rec attempt issues e it)
      (\<lambda>_. scoped k ?n (Some ?a)) (scope_ok k)"
    by (rule lvalid_conseq [OF repeat_step_scoped [OF c ne]]) (auto intro: scoped_ok)
  have rest: "lvalid (scoped k ?n (Some ?a)) (thenM (record_flow ?n (with_stop rec
         (case rd_status d of Some st \<Rightarrow> st | None \<Rightarrow> fr_status rec) (old @ [rec]) (rd_stop d)))
      (thenM (case rd_stop d of None \<Rightarrow> ret ()
         | Some stop \<Rightarrow> liftM (event ''repeat.stopped'' [(''stopped_by'', JStr (stop_text stop))]))
       (ret d))) (\<lambda>_. ?Q) (scope_ok k)" for d
    by (rule lvalid_thenM [where R = ?Q])
      (auto simp: record_flow_def intro!: lvalid_modM put2 lvalid_thenM [OF ev] lvalid_ret)
  show ?thesis
    unfolding repeat_attempt_def
  proof (rule lvalid_thenM [where R = "scoped k ?n (Some ?a)"])
    show "lvalid (\<lambda>n recs. scope_ok (k + opt_count count (fr_usage rec)) n recs \<and>
        runs_count count old \<le> count_at count recs ?n) (record_flow ?n ?a)
       (\<lambda>_. scoped k ?n (Some ?a)) (scope_ok k)"
      unfolding record_flow_def by (rule lvalid_modM) (rule put1)
    show "lvalid (scoped k ?n (Some ?a)) (bindM (repeat_step env child f rp rec attempt issues e it) (\<lambda>d.
        thenM (record_flow ?n (with_stop rec
             (case rd_status d of Some st \<Rightarrow> st | None \<Rightarrow> fr_status rec) (old @ [rec]) (rd_stop d)))
          (thenM (case rd_stop d of None \<Rightarrow> ret ()
             | Some stop \<Rightarrow> liftM (event ''repeat.stopped'' [(''stopped_by'', JStr (stop_text stop))]))
           (ret d)))) (\<lambda>_. ?Q) (scope_ok k)"
      by (rule lvalid_bindM [OF dec rest])
  qed
qed

text \<open>Collection items.\<close>

lemma scope_count_member: "get recs n = Some r \<Longrightarrow> record_count count r \<le> scope_count count recs"
  by (induction recs) (auto simp: scope_count_def split: if_splits)

lemma scope_count_two:
  "get recs n = Some r \<Longrightarrow> get recs m = Some q \<Longrightarrow> n \<noteq> m \<Longrightarrow>
     record_count count r + record_count count q \<le> scope_count count recs"
proof (induction recs)
  case (Cons p recs)
  then show ?case
    using scope_count_member [of recs n r] scope_count_member [of recs m q]
    by (auto simp: scope_count_def split: if_splits)
qed simp

definition item_cost :: "item_result \<Rightarrow> nat" where
  "item_cost r = record_count count (fst r) +
     (case fst (snd r) of Some q \<Rightarrow> record_count count q | None \<Rightarrow> 0)"

definition item_inv :: "nat \<Rightarrow> flow \<Rightarrow> flow_record list \<Rightarrow> nat \<Rightarrow> flow_records \<Rightarrow> bool" where
  "item_inv k f old n recs \<longleftrightarrow> scope_ok k n recs \<and> runs_count count old \<le> count_at count recs (fl_name f)"

text \<open>A child call inside a scope: what it spends is added to the offset.\<close>

lemma child_in_scope:
  assumes c: "paying child"
  shows "lvalid (item_inv k f old) (liftM (child call))
    (\<lambda>x n recs. item_inv (k + opt_count count (fr_usage (fst x))) f old n recs \<and> fr_attempts (fst x) = [])
    (\<lambda>n _. k \<le> K * n)"
proof (rule lvalid_liftM)
  fix l
  show "bvalid (\<lambda>n. item_inv k f old n l) (child call)
    (\<lambda>x n. item_inv (k + opt_count count (fr_usage (fst x))) f old n l \<and> fr_attempts (fst x) = [])
    (\<lambda>n. k \<le> K * n)"
  proof (cases "dict_wf l \<and> runs_count count old \<le> count_at count l (fl_name f)")
    case True
    then show ?thesis
      by (intro bvalid_conseq [OF payingD [OF c, where k = "k + scope_count count l"]])
        (auto simp: item_inv_def scope_ok_def)
  next
    case False
    then show ?thesis unfolding bvalid_def valid_def item_inv_def scope_ok_def by blast
  qed
qed

lemma scoped_inv:
  "scoped k (fl_name f) (Some q) n recs \<Longrightarrow> item_inv k f (fr_attempts q) n recs"
  using record_count_attempts [of q] by (auto simp: scoped_def item_inv_def scope_ok_def count_at_def)

lemma scoped_item_cost:
  assumes "rp_retry_flow rp \<noteq> Some g" "scoped k g (Some q) n recs"
  shows "k + item_cost (q, (case rp_retry_flow rp of Some m \<Rightarrow> get recs m | None \<Rightarrow> None), x) \<le> K * n"
proof -
  have "item_cost (q, (case rp_retry_flow rp of Some m \<Rightarrow> get recs m | None \<Rightarrow> None), x)
      \<le> scope_count count recs"
    using assms scope_count_member [of recs g q] scope_count_two [of recs g q]
    by (auto simp: item_cost_def scoped_def split: option.split)
  with assms(2) show ?thesis by (simp add: scoped_def)
qed

lemma item_attempt_scoped:
  assumes c: "paying child" and ap: "repeats_apart f"
  shows "lvalid (item_inv k f old) (item_attempt env child f it metadata e attempt old inputs)
    (\<lambda>x n recs. case x of Inl (_, as) \<Rightarrow> item_inv k f as n recs | Inr r \<Rightarrow> k + item_cost r \<le> K * n)
    (\<lambda>n _. k \<le> K * n)"
proof -
  let ?Q = "\<lambda>x n recs. case x of Inl (_, as) \<Rightarrow> item_inv k f as n recs | Inr r \<Rightarrow> k + item_cost r \<le> K * n"
  let ?E = "\<lambda>n _. k \<le> K * n"
  let ?R = "\<lambda>rec n recs. item_inv (k + opt_count count (fr_usage rec)) f old n recs \<and> fr_attempts rec = []"
  have weak: "item_inv k' f as n recs \<Longrightarrow> k' \<le> K * n" for k' as n recs
    by (simp add: item_inv_def scope_ok_def)
  have once: "lvalid (?R rec) (ret (Inr (rec, None, None))) ?Q ?E" for rec
    by (rule lvalid_ret) (auto simp: item_cost_def record_count_simps item_inv_def scope_ok_def)
  have ended: "lvalid (\<lambda>n recs. \<exists>q. scoped k (fl_name f) (Some q) n recs \<and> fr_attempts q = old @ [rec])
      (case (rd_stop d, rd_inputs d) of
          (None, Some inputs') \<Rightarrow> ret (Inl (inputs', old @ [rec]))
        | (None, None) \<Rightarrow> throw OtherErr
        | (Some _, _) \<Rightarrow> bindM (getM snd) (\<lambda>records.
            case get records (fl_name f) of
              None \<Rightarrow> throw OtherErr
            | Some r \<Rightarrow> ret (Inr (r,
                (case rp_retry_flow rp of Some n \<Rightarrow> get records n | None \<Rightarrow> None), rd_failure d)))) ?Q ?E"
    if ne: "rp_retry_flow rp \<noteq> Some (fl_name f)" for rp d rec
  proof -
    let ?S = "\<lambda>n recs. \<exists>q. scoped k (fl_name f) (Some q) n recs \<and> fr_attempts q = old @ [rec]"
    have weakS: "?S n recs \<Longrightarrow> k \<le> K * n" for n recs by (auto simp: scoped_def)
    have again: "lvalid ?S (ret (Inl (inputs', old @ [rec]))) ?Q ?E" for inputs'
      by (rule lvalid_ret) (auto dest: scoped_inv)
    have stop: "lvalid (\<lambda>n recs. ?S n recs \<and> recs = records)
       (case get records (fl_name f) of
              None \<Rightarrow> throw OtherErr
            | Some r \<Rightarrow> ret (Inr (r,
                (case rp_retry_flow rp of Some n \<Rightarrow> get records n | None \<Rightarrow> None), rd_failure d))) ?Q ?E"
      for records
      by (cases "get records (fl_name f)")
        (auto intro!: lvalid_fail lvalid_ret scoped_item_cost [OF ne] dest: weakS simp: scoped_def)
    show ?thesis
      by (auto split: option.split intro!: again lvalid_fail weakS lvalid_bindM [OF lvalid_get stop])
  qed
  have repeated: "lvalid (?R rec) (bindM (repeat_attempt env child f rp rec (old @ [rec]) attempt issues e (Some it))
      (\<lambda>d. case (rd_stop d, rd_inputs d) of
          (None, Some inputs') \<Rightarrow> ret (Inl (inputs', old @ [rec]))
        | (None, None) \<Rightarrow> throw OtherErr
        | (Some _, _) \<Rightarrow> bindM (getM snd) (\<lambda>records.
            case get records (fl_name f) of
              None \<Rightarrow> throw OtherErr
            | Some r \<Rightarrow> ret (Inr (r,
                (case rp_retry_flow rp of Some n \<Rightarrow> get records n | None \<Rightarrow> None), rd_failure d))))) ?Q ?E"
    if "fl_repeat f = Some rp" for rp rec issues
  proof -
    note ne = repeats_apartD [OF ap that]
    have "lvalid (?R rec) (repeat_attempt env child f rp rec (old @ [rec]) attempt issues e (Some it))
       (\<lambda>_ n recs. \<exists>q. scoped k (fl_name f) (Some q) n recs \<and> fr_attempts q = old @ [rec]) ?E"
      by (rule lvalid_conseq [OF repeat_attempt_scoped [OF c ne]])
        (auto simp: item_inv_def scope_ok_def)
    from lvalid_bindM [OF this ended [OF ne]] show ?thesis .
  qed
  have after: "lvalid (\<lambda>n recs. item_inv (k + opt_count count (fr_usage (fst x))) f old n recs \<and>
        fr_attempts (fst x) = [])
      (case x of (rec, issues) \<Rightarrow> thenM (liftM (observe_record rec))
          (case fl_repeat f of
             None \<Rightarrow> ret (Inr (rec, None, None))
           | Some rp \<Rightarrow>
              bindM (repeat_attempt env child f rp rec (old @ [rec]) attempt issues e (Some it))
               (\<lambda>d. case (rd_stop d, rd_inputs d) of
                  (None, Some inputs') \<Rightarrow> ret (Inl (inputs', old @ [rec]))
                | (None, None) \<Rightarrow> throw OtherErr
                | (Some _, _) \<Rightarrow> bindM (getM snd) (\<lambda>records.
                    case get records (fl_name f) of
                      None \<Rightarrow> throw OtherErr
                    | Some r \<Rightarrow> ret (Inr (r,
                        (case rp_retry_flow rp of Some n \<Rightarrow> get records n | None \<Rightarrow> None),
                        rd_failure d)))))) ?Q ?E" for x
  proof -
    obtain rec issues where x: "x = (rec, issues)" by fastforce
    show ?thesis
      unfolding x prod.case fst_conv observe_record_def
      by (rule lvalid_thenM [OF lvalid_scope_parts(4)])
        (cases "fl_repeat f", simp_all only: option.case once repeated [unfolded prod.case])
  qed
  have frozen: "lvalid (item_inv k f old) (pureM r) (\<lambda>_. item_inv k f old) ?E" for r :: "(exn, envelope) result"
    by (rule lvalid_pureM) (auto dest: weak)
  show ?thesis
    unfolding item_attempt_def
    by (rule lvalid_observe) (rule lvalid_bindM [OF frozen lvalid_bindM [OF child_in_scope [OF c] after]])
qed

lemma item_attempts_scoped:
  assumes "paying child" "repeats_apart f"
  shows "lvalid (item_inv k f old) (item_attempts env child f it metadata e ns old inputs)
    (\<lambda>r n _. k + item_cost r \<le> K * n) (\<lambda>n _. k \<le> K * n)"
proof (induction ns arbitrary: old inputs)
  case Nil
  show ?case by (auto simp: item_inv_def scope_ok_def intro: lvalid_fail)
next
  case (Cons m ns)
  have "lvalid (\<lambda>n recs. case x of Inl (_, as) \<Rightarrow> item_inv k f as n recs | Inr r \<Rightarrow> k + item_cost r \<le> K * n)
      (case x of
         Inl (inputs', attempts') \<Rightarrow> item_attempts env child f it metadata e ns attempts' inputs'
       | Inr result \<Rightarrow> ret result) (\<lambda>r n _. k + item_cost r \<le> K * n) (\<lambda>n _. k \<le> K * n)" for x
    by (cases x) (auto intro: Cons.IH lvalid_ret split: prod.split)
  then show ?case
    unfolding item_attempts.simps by (rule lvalid_bindM [OF item_attempt_scoped [OF assms]])
qed

lemma run_item_paid:
  assumes "paying child" "repeats_apart f"
  shows "bvalid (\<lambda>n. k \<le> K * n) (run_item env child f it metadata)
    (\<lambda>r n. k + item_cost r \<le> K * n) (\<lambda>n. k \<le> K * n)"
  unfolding run_item_def
proof (rule bvalid_bindM [OF bvalid_keeps [OF step_mono.keeps_pureM]])
  show "bvalid (\<lambda>n. k \<le> K * n)
     (withM [] (item_attempts env child f it metadata e [1..<Suc (max_attempts_of f)] [] (it_payload it)))
     (\<lambda>r n. k + item_cost r \<le> K * n) (\<lambda>n. k \<le> K * n)" for e
    by (rule bvalid_withM, rule lvalid_conseq [OF item_attempts_scoped [OF assms]])
      (auto simp: item_inv_def scope_ok_def scope_count_def runs_count_def)
qed (rule K_mono)

lemma add_runs_count: "count (add_runs u r q) = count u + item_cost (r, q, x)"
  by (auto simp: add_runs_def count_add item_cost_def record_count_def opt_count_def split: option.split)

lemma run_items_paid:
  assumes "paying child" "\<forall>p \<in> set items. repeats_apart (fst (snd p))"
  shows "bvalid (\<lambda>n. k + count u \<le> K * n) (run_items env child metadata i u st items)
    (\<lambda>x n. k + count (fst (snd x)) \<le> K * n) (\<lambda>n. k \<le> K * n)"
  using assms(2)
proof (induction items arbitrary: i u st)
  case Nil
  show ?case using bvalid_ret [where Q = "\<lambda>x n. k + count (fst (snd x)) \<le> K * n"] by fastforce
next
  case (Cons p items)
  obtain j f payload where p: "p = (j, f, payload)" by (cases p) blast
  with Cons.prems have ap: "repeats_apart f" by simp
  let ?E = "\<lambda>n. k \<le> K * n"
  let ?Q = "\<lambda>x n. k + count (fst (snd x)) \<le> K * n"
  have it: "bvalid (\<lambda>n. k + count u \<le> K * n)
      (run_item env child f \<lparr>it_id = j, it_index = i, it_payload = payload\<rparr> metadata)
      (\<lambda>r n. k + count u + item_cost r \<le> K * n) ?E"
    by (rule bvalid_conseq [OF run_item_paid [OF assms(1) ap, where k = "k + count u"]]) auto
  have "bvalid (\<lambda>n. k + count u + item_cost x \<le> K * n)
      (case x of (rec, retry, failure) \<Rightarrow>
        let u' = add_runs u rec retry in
        if fr_status rec = Failed \<or> failure \<noteq> None
        then ret ((rec, retry) # map (\<lambda>(_, g, _). (skipped g, None)) items, u', Failed,
          (case failure of Some x \<Rightarrow> Some x | None \<Rightarrow> fr_error rec))
        else bindM (run_items env child metadata (Suc i) u'
            (if fr_status rec = NeedsReview then NeedsReview else st) items)
          (\<lambda>(records, u'', st', failure'). ret ((rec, retry) # records, u'', st', failure'))) ?Q ?E" for x
  proof -
    obtain rec retry failure where x: "x = (rec, retry, failure)" by (cases x) blast
    let ?u = "add_runs u rec retry"
    have pre: "k + count u + item_cost (rec, retry, failure) = k + count ?u"
      by (simp add: add_runs_count [of u rec retry failure])
    have stop: "bvalid (\<lambda>n. k + count ?u \<le> K * n) (ret (rs, ?u, Failed, fl)) ?Q ?E" for rs fl
      using bvalid_ret [where Q = ?Q and E = ?E] by fastforce
    have "bvalid (\<lambda>n. k + count ?u \<le> K * n) (bindM (run_items env child metadata (Suc i) ?u s items)
          (\<lambda>(records, u'', st', failure'). ret ((rec, retry) # records, u'', st', failure'))) ?Q ?E" for s
    proof (rule bvalid_bindM [OF Cons.IH])
      show "\<forall>p\<in>set items. repeats_apart (fst (snd p))" using Cons.prems by simp
      fix a :: "(flow_record \<times> flow_record option) list \<times> usage \<times> status \<times> failure option"
      obtain rs u'' s' fl where a: "a = (rs, u'', s', fl)" by (cases a) blast
      show "bvalid (?Q a) (case a of (records, u'', st', failure') \<Rightarrow>
          ret ((rec, retry) # records, u'', st', failure')) ?Q ?E"
        using bvalid_ret [where Q = ?Q and E = ?E and a = "((rec, retry) # rs, u'', s', fl)"]
        by (simp add: a)
    qed
    with stop show ?thesis
      unfolding x prod.case Let_def pre by (auto split: if_split)
  qed
  from bvalid_bindM [OF it this] show ?case unfolding p run_items.simps .
qed

lemma validate_items_flows:
  "valid (\<lambda>_. True) (validate_items env cs seen raws)
     (\<lambda>items _. \<forall>p \<in> set items. fst (snd p) \<in> set (wf_flows (ev_plan env))) (\<lambda>_ _. True)"
  (is "valid _ _ ?Q ?E")
proof (induction raws arbitrary: seen)
  case Nil
  show ?case by (simp add: valid_def ret_def)
next
  case (Cons raw raws)
  have fail: "valid (\<lambda>_. True) (failM c) ?Q ?E" for c
    by (simp add: valid_def failM_def raise_code_def)
  have go: "valid (\<lambda>_. True) (thenM (pureM v) (bindM (validate_items env cs seen' raws)
       (\<lambda>items. ret ((i, f, payload) # items)))) ?Q ?E"
    if "f \<in> set (wf_flows (ev_plan env))" for v seen' i f payload
  proof (rule valid_thenM [where R = "\<lambda>_. True"])
    show "valid (\<lambda>_. True) (bindM (validate_items env cs seen' raws)
       (\<lambda>items. ret ((i, f, payload) # items))) ?Q ?E"
      by (rule valid_bindM [OF Cons.IH]) (use that in \<open>auto simp: valid_def ret_def\<close>)
  qed (simp add: valid_def split: prod.split sum.split)
  show ?case
    unfolding validate_items.simps
    by (rule valid_thenM [where R = "\<lambda>_. True"])
      (auto simp: valid_def [of _ "check_deadline env"] intro!: fail go dest: workflow_flow_Some
        split: json.split option.split prod.split sum.split)
qed

text \<open>Collections and steps.\<close>

lemma validate_items_apart:
  assumes "plan_apart (ev_plan env)"
  shows "bvalid (\<lambda>n. k \<le> K * n) (validate_items env cs seen raws)
    (\<lambda>items n. k \<le> K * n \<and> (\<forall>p \<in> set items. repeats_apart (fst (snd p)))) (\<lambda>n. k \<le> K * n)"
proof -
  have "bvalid (\<lambda>n. k \<le> K * n) (validate_items env cs seen raws) (\<lambda>_ n. k \<le> K * n) (\<lambda>n. k \<le> K * n)"
    by (rule bvalid_keeps [OF step_mono.keeps_validate_items]) (rule K_mono)
  then show ?thesis
    unfolding bvalid_def
    by (rule valid_conseq [OF valid_conj [OF _ validate_items_flows]])
      (use assms in \<open>auto simp: plan_apart_def list_all_iff\<close>)
qed

lemma execute_collection_paid:
  assumes c: "paying child" and ap: "plan_apart (ev_plan env)"
  shows "bvalid (\<lambda>n. k \<le> K * n) (execute_collection env child cs inputs metadata depth)
    (\<lambda>r n. k + opt_count count (sp_usage r) \<le> K * n) (\<lambda>n. k \<le> K * n)" (is "bvalid ?P _ ?Q ?E")
proof -
  have fail: "bvalid ?P (failM x) ?Q ?E" for x by (rule bvalid_fail) simp
  have same: "bvalid ?P m (\<lambda>_. ?P) ?E" if "keeps (\<lambda>s t. rs_consumed s \<le> rs_consumed t) m" for m :: "('w, 'x) run"
    by (rule bvalid_keeps [OF that]) (rule K_mono)
  have finish: "bvalid (\<lambda>n. k + count u \<le> K * n)
      (bindM (pureM (mapE (\<lambda>(p, r). item_entry p r) (zip items records))) (\<lambda>entries.
         bindM (now env) (\<lambda>finished.
          let ledger = [(''items'', JArr entries)] in
          ret \<lparr>sp_status = st, sp_result = (if st \<noteq> Failed then JObj ledger else JNull),
            sp_has_result = (st \<noteq> Failed), sp_error = failure,
            sp_elapsed = Some (finished - started), sp_usage = Some u, sp_selection = None,
            sp_partial = (if st = Failed then Some ledger else None),
            sp_collection = True\<rparr>))) ?Q ?E" for u items records st failure started
  proof -
    let ?P' = "\<lambda>n. k + count u \<le> K * n"
    have keep: "bvalid ?P' m (\<lambda>_. ?P') ?E" if "keeps (\<lambda>s t. rs_consumed s \<le> rs_consumed t) m" for m :: "('w, 'x) run"
      by (rule bvalid_conseq [OF bvalid_keeps [OF that, where P = ?P']]) (auto intro: K_mono)
    have last: "bvalid ?P' (ret r) ?Q ?E" if "sp_usage r = Some u" for r
      using bvalid_ret [where Q = ?Q and a = r and E = ?E] that by (simp add: opt_count_def)
    show ?thesis
      unfolding Let_def
      by (intro bvalid_bindM [OF keep] step_mono.keeps_pureM step_mono.keeps_primitives last) simp
  qed
  have items: "bvalid (\<lambda>n. k \<le> K * n \<and> (\<forall>p \<in> set items. repeats_apart (fst (snd p))))
      (bindM (run_items env child metadata 0 usage_zero Completed items) (\<lambda>(records, u, st, failure).
            bindM (pureM (mapE (\<lambda>(p, r). item_entry p r) (zip items records))) (\<lambda>entries.
             bindM (now env) (\<lambda>finished.
              let ledger = [(''items'', JArr entries)] in
              ret \<lparr>sp_status = st, sp_result = (if st \<noteq> Failed then JObj ledger else JNull),
                sp_has_result = (st \<noteq> Failed), sp_error = failure,
                sp_elapsed = Some (finished - started), sp_usage = Some u, sp_selection = None,
                sp_partial = (if st = Failed then Some ledger else None),
                sp_collection = True\<rparr>)))) ?Q ?E" for items started
  proof (cases "\<forall>p \<in> set items. repeats_apart (fst (snd p))")
    case True
    have run: "bvalid (\<lambda>n. k \<le> K * n \<and> (\<forall>p \<in> set items. repeats_apart (fst (snd p))))
        (run_items env child metadata 0 usage_zero Completed items)
        (\<lambda>x n. k + count (fst (snd x)) \<le> K * n) ?E"
      by (rule bvalid_conseq [OF run_items_paid [OF c True, where k = k]]) (auto simp: count_zero)
    show ?thesis
    proof (rule bvalid_bindM [OF run])
      fix x :: "(flow_record \<times> flow_record option) list \<times> usage \<times> status \<times> failure option"
      obtain rs u st fl where x: "x = (rs, u, st, fl)" by (cases x) blast
      show "bvalid (\<lambda>n. k + count (fst (snd x)) \<le> K * n) (case x of (records, u, st, failure) \<Rightarrow>
            bindM (pureM (mapE (\<lambda>(p, r). item_entry p r) (zip items records))) (\<lambda>entries.
             bindM (now env) (\<lambda>finished.
              let ledger = [(''items'', JArr entries)] in
              ret \<lparr>sp_status = st, sp_result = (if st \<noteq> Failed then JObj ledger else JNull),
                sp_has_result = (st \<noteq> Failed), sp_error = failure,
                sp_elapsed = Some (finished - started), sp_usage = Some u, sp_selection = None,
                sp_partial = (if st = Failed then Some ledger else None),
                sp_collection = True\<rparr>))) ?Q ?E"
        unfolding x prod.case fst_conv snd_conv by (rule finish)
    qed
  next
    case False
    then show ?thesis unfolding bvalid_def valid_def by blast
  qed
  show ?thesis
    unfolding execute_collection_def
    by (rule bvalid_bindM [OF same [OF step_mono.keeps_primitives(1)]])
      (auto split: option.split json.split
        intro!: fail bvalid_bindM [OF validate_items_apart [OF ap] items])
qed

lemma run_collection_covered:
  assumes "paying child" "plan_apart (ev_plan env)"
  shows "lvalid (covered k) (run_collection env child c depth step cs inputs) (\<lambda>_. covered k) (covered k)"
proof -
  have call: "lvalid (covered k) (liftM (execute_collection env child cs inputs md depth))
      (\<lambda>r n l. covered (k + opt_count count (sp_usage r)) n l) (covered k)" for md
    by (rule lvalid_liftM, rule bvalid_conseq [OF execute_collection_paid [OF assms]])
      (auto simp: covered_def algebra_simps)
  have add: "lvalid (covered (k + opt_count count (sp_usage r)))
      (locally (\<lambda>l. l\<lparr>lo_records := put (st_name step) r (lo_records l),
          lo_step_usage := u, lo_usage := usage_plus (lo_usage l) u, lo_active := None\<rparr>))
      (\<lambda>_. covered k) (covered k)"
    if "u = (case sp_usage r of Some u \<Rightarrow> u | None \<Rightarrow> usage_zero)" for r u
    unfolding locally_def
    by (rule lvalid_modM) (use that in \<open>auto simp: covered_def count_plus opt_count_def count_zero split: option.splits\<close>)
  show ?thesis
    unfolding run_collection_def Let_def
    by (rule lvalid_bindM [OF call], rule lvalid_thenM [OF add [OF refl]])
      (intro usage_still_covered usage_still_intros mono_prims, simp_all)
qed

lemma step_iteration_covered:
  assumes "paying child" "plan_apart (ev_plan env)"
  shows "lvalid (covered k) (step_iteration env child c depth step) (\<lambda>_. covered k) (covered k)"
proof -
  have guard: "keeps usage_still (step_guard env c step)"
    unfolding step_guard_def by (intro usage_still_intros mono_prims)
  have skip: "lvalid (covered k) (thenM (skip_step env c step ms) (ret True)) (\<lambda>_. covered k) (covered k)" for ms
  proof (rule lvalid_thenM [where R = "covered k"])
    show "lvalid (covered k) (skip_step env c step ms) (\<lambda>_. covered k) (covered k)"
      unfolding skip_step_def
      by (rule lvalid_observe, rule usage_still_covered) (intro usage_still_intros mono_prims)
  qed (simp add: lvalid_ret)
  have consume: "lvalid (covered k) (liftM (consume_step env)) (\<lambda>_. covered (k + K)) (covered k)"
    by (auto simp: lvalid_def valid_def liftM_def consume_step_def failM_def raise_code_def covered_def)
  have start: "lvalid (covered (k + K)) (locally (\<lambda>l. l\<lparr>lo_active := Some (st_name step),
      lo_step_started := t, lo_step_usage := usage_zero\<rparr>)) (\<lambda>_. covered (k + K)) (covered k)" for t
    by (intro usage_still_slack usage_still_locally) simp
  have op: "lvalid (covered (k + K)) (case st_body step of
         CollectionStep cs \<Rightarrow> run_collection env child c depth step cs inputs
       | _ \<Rightarrow> run_operation env c step inputs) (\<lambda>_. covered k) (covered k)" for inputs
    by (cases "st_body step")
      (auto intro: run_operation_covered lvalid_conseq [OF run_collection_covered [OF assms]]
        simp: covered_def)
  have inputs: "lvalid (covered (k + K)) (step_inputs c step) (\<lambda>_. covered (k + K)) (covered k)"
    unfolding step_inputs_def
    by (auto intro!: usage_still_slack usage_still_intros split: json.split)
  have reported: "lvalid (covered (k + K)) (case guard of
          Some (b, ms) \<Rightarrow> liftM (report (step_location step) b ms)
        | None \<Rightarrow> ret ()) (\<lambda>_. covered (k + K)) (covered k)" for guard :: "(bool \<times> mismatch list) option"
    by (intro usage_still_slack usage_still_intros mono_prims)
  have body: "lvalid (covered k) (run_step_body env child c depth step guard) (\<lambda>_. covered k) (covered k)" for guard
    unfolding run_step_body_def
    by (intro lvalid_thenM [OF consume] lvalid_bindM [OF usage_still_slack [OF usage_still_liftM]]
        mono_prims lvalid_thenM [OF start] lvalid_observe lvalid_thenM [OF reported]
        lvalid_bindM [OF inputs] op)
  have branch: "lvalid (covered k) (case guard of
           Some (False, ms) \<Rightarrow> thenM (skip_step env c step ms) (ret True)
         | _ \<Rightarrow> run_step_body env child c depth step guard) (\<lambda>_. covered k) (covered k)" for guard
    by (auto split: option.split bool.split intro!: skip body)
  show ?thesis
    unfolding step_iteration_def
    by (intro lvalid_thenM [OF usage_still_covered [OF usage_still_liftM]] mono_prims
        lvalid_bindM [OF usage_still_covered [OF guard]] branch)
qed

text \<open>Whole flows.\<close>

lemma flow_steps_covered:
  assumes "paying child" "plan_apart (ev_plan env)"
  shows "lvalid (covered k) (flow_steps env child c depth) (\<lambda>_. covered k) (covered k)"
proof -
  have outp: "keeps usage_still (flow_output c)"
    unfolding flow_output_def by (intro usage_still_intros mono_prims) simp_all
  have failing: "keeps usage_still (flow_failure env e)" for e
    unfolding flow_failure_def by (intro usage_still_intros mono_prims) simp_all
  show ?thesis
    unfolding flow_steps_def
    by (intro lvalid_exceptM [OF lvalid_thenM [OF lvalid_loopM [OF step_iteration_covered [OF assms]]]]
        usage_still_covered outp failing)
qed

lemma execute_level_paid:
  assumes "paying child" "plan_apart (ev_plan env)"
  shows "bvalid (\<lambda>n. k \<le> K * n) (execute_level env child depth c)
    (\<lambda>x n. k + opt_count count (fr_usage (fst x)) \<le> K * n \<and> fr_attempts (fst x) = []) (\<lambda>n. k \<le> K * n)"
    (is "bvalid ?P _ ?Q ?E")
proof -
  let ?L = "\<lambda>l n. k + count (lo_usage l) \<le> K * n"
  have same: "bvalid ?P m (\<lambda>_. ?P) ?E" if "keeps (\<lambda>s t. rs_consumed s \<le> rs_consumed t) m" for m :: "('w, 'x) run"
    by (rule bvalid_keeps [OF that]) (rule K_mono)
  have get: "lvalid (covered k) (getM snd) (\<lambda>l n _. ?L l n) (\<lambda>n _. ?E n)"
    by (rule lvalid_get) (simp add: covered_def)
  have steps: "lvalid (covered k) (flow_steps env child c depth) (\<lambda>_. covered k) (\<lambda>n _. ?E n)"
    by (rule lvalid_conseq [OF flow_steps_covered [OF assms]]) (auto simp: covered_def)
  have locals: "bvalid ?P (withM (initial_locals c started) (thenM (flow_steps env child c depth) (getM snd))) ?L ?E"
    for started
    by (rule bvalid_withM, rule lvalid_conseq [OF lvalid_thenM [OF steps get]])
      (auto simp: covered_def initial_locals_def count_zero)
  have last: "bvalid (?L l) (bindM (now env) (\<lambda>finished. ret (flow_record_of l (finished - started), lo_issues l))) ?Q ?E"
    for l started
  proof (rule bvalid_bindM [where R = "\<lambda>_. ?L l"])
    show "bvalid (?L l) (now env) (\<lambda>_. ?L l) ?E"
      by (rule bvalid_conseq [OF bvalid_keeps [OF step_mono.keeps_primitives(1), where P = "?L l"]])
        (auto intro: K_mono)
    show "bvalid (?L l) (ret (flow_record_of l (t - started), lo_issues l)) ?Q ?E" for t
      using bvalid_ret [where Q = ?Q and E = ?E and a = "(flow_record_of l (t - started), lo_issues l)"]
      by (simp add: flow_record_of_def opt_count_def)
  qed
  show ?thesis
    unfolding execute_level_def
    by (rule bvalid_bindM [OF same [OF step_mono.keeps_primitives(1)] bvalid_bindM [OF locals last]])
qed

lemma execute_flow_paying: "plan_apart (ev_plan env) \<Longrightarrow> paying (execute_flow env depth)"
proof (induction "MAX_COLLECTION_DEPTH - depth" arbitrary: depth)
  case 0
  then have d: "MAX_COLLECTION_DEPTH \<le> depth" by simp
  have "paying (\<lambda>_. failM INVALID_CONFIGURATION)"
    by (auto simp: paying_def keeps_child_def step_mono.keeps_failM intro: bvalid_fail)
  from execute_level_paid [OF this 0(2)] show ?case
    by (auto simp: paying_def keeps_child_def execute_flow.simps [of env depth] d
        step_mono.keeps_execute_level [OF _ refl] step_mono.keeps_failM)
next
  case (Suc m)
  then have d: "\<not> MAX_COLLECTION_DEPTH \<le> depth" by simp
  from Suc have "paying (execute_flow env (Suc depth))" by simp
  from execute_level_paid [OF this Suc(3)] paying_keeps [OF this] show ?case
    by (auto simp: paying_def keeps_child_def execute_flow.simps [of env depth] d
        intro!: step_mono.keeps_execute_level [OF _ refl])
qed

text \<open>Routed flows: the scope is the run's own records.\<close>

definition rvalid ::
  "(nat \<Rightarrow> flow_records \<Rightarrow> bool) \<Rightarrow> ('w, 'a) run \<Rightarrow> ('a \<Rightarrow> nat \<Rightarrow> flow_records \<Rightarrow> bool) \<Rightarrow>
     (nat \<Rightarrow> flow_records \<Rightarrow> bool) \<Rightarrow> bool" where
  "rvalid P m Q E \<longleftrightarrow> valid (\<lambda>s. P (rs_consumed s) (rs_records s)) m
     (\<lambda>a s. Q a (rs_consumed s) (rs_records s)) (\<lambda>_ s. E (rs_consumed s) (rs_records s))"

lemma rvalid_bindM: "rvalid P m R E \<Longrightarrow> (\<And>a. rvalid (R a) (f a) Q E) \<Longrightarrow> rvalid P (bindM m f) Q E"
  unfolding rvalid_def by (rule valid_bindM)

lemma rvalid_thenM: "rvalid P m (\<lambda>_. R) E \<Longrightarrow> rvalid R n Q E \<Longrightarrow> rvalid P (thenM m n) Q E"
  unfolding rvalid_def by (rule valid_thenM)

lemma rvalid_conseq:
  "rvalid P' m Q' E' \<Longrightarrow> (\<And>c l. P c l \<Longrightarrow> P' c l) \<Longrightarrow> (\<And>a c l. Q' a c l \<Longrightarrow> Q a c l) \<Longrightarrow>
     (\<And>c l. E' c l \<Longrightarrow> E c l) \<Longrightarrow> rvalid P m Q E"
  unfolding rvalid_def by (erule valid_conseq) simp_all

lemma rvalid_ret: "(\<And>c l. P c l \<Longrightarrow> Q a c l) \<Longrightarrow> rvalid P (ret a) Q E"
  by (simp add: rvalid_def valid_def ret_def)

lemma rvalid_fail: "(\<And>c l. P c l \<Longrightarrow> E c l) \<Longrightarrow> rvalid P (failM x) Q E"
  "(\<And>c l. P c l \<Longrightarrow> E c l) \<Longrightarrow> rvalid P (throw y) Q E"
  by (simp_all add: rvalid_def valid_def failM_def throw_def raise_code_def)

lemma rvalid_sharedM: "lvalid P m Q E \<Longrightarrow> rvalid P (sharedM m) Q E"
  unfolding rvalid_def lvalid_def valid_def sharedM_def
  by (fastforce split: prod.splits sum.splits)

lemma rvalid_set_record: "(\<And>c l. P c l \<Longrightarrow> Q () c (put n r l)) \<Longrightarrow> rvalid P (set_record n r) Q E"
  by (simp add: rvalid_def valid_def set_record_def modM_def)

lemma rvalid_get: "(\<And>c l. P c l \<Longrightarrow> Q l c l) \<Longrightarrow> rvalid P (getM rs_records) Q E"
  by (simp add: rvalid_def valid_def getM_def)

lemma rvalid_keeps:
  assumes "keeps S m" "\<And>s t. S s t \<Longrightarrow> rs_records t = rs_records s \<and> rs_consumed s \<le> rs_consumed t"
    and "\<And>c d l. c \<le> d \<Longrightarrow> P c l \<Longrightarrow> P d l"
  shows "rvalid P m (\<lambda>_. P) P"
  unfolding rvalid_def
proof (rule validI)
  fix s :: "'w run_state"
  assume s: "P (rs_consumed s) (rs_records s)"
  obtain r t where m: "m s = (r, t)" by fastforce
  with assms(1) have "S s t" unfolding keeps_def by (metis snd_conv)
  with assms(2,3) s have "P (rs_consumed t) (rs_records t)" by metis
  with m show "case m s of (Inr a, s') \<Rightarrow> P (rs_consumed s') (rs_records s')
      | (Inl e, s') \<Rightarrow> P (rs_consumed s') (rs_records s')"
    by (cases r) simp_all
qed

lemma rvalid_still:
  "keeps records_still m \<Longrightarrow> (\<And>c d l. c \<le> d \<Longrightarrow> P c l \<Longrightarrow> P d l) \<Longrightarrow> rvalid P m (\<lambda>_. P) P"
  by (rule rvalid_keeps [where S = records_still]) (auto simp: records_still_def)

lemma rvalid_set_active: "(\<And>c l. P c l \<Longrightarrow> Q () c l) \<Longrightarrow> rvalid P (set_active a) Q E"
  by (simp add: rvalid_def valid_def set_active_def modM_def)

lemma rvalid_observe:
  assumes "rvalid P body Q E"
  shows "rvalid P (observe fl st ats body) Q E"
  unfolding rvalid_def
proof (rule validI)
  fix s :: "'w run_state"
  assume s: "P (rs_consumed s) (rs_records s)"
  let ?o = "snd (open_scope fl st ats s)"
  from s have o': "P (rs_consumed ?o) (rs_records ?o)" by (simp add: open_scope_def modM_def)
  obtain r t where b: "body ?o = (r, t)" by fastforce
  show "case observe fl st ats body s of (Inr a, s') \<Rightarrow> Q a (rs_consumed s') (rs_records s')
      | (Inl e, s') \<Rightarrow> E (rs_consumed s') (rs_records s')"
    using valid_Inl [OF assms [unfolded rvalid_def] o'] valid_Inr [OF assms [unfolded rvalid_def] o'] b
    by (cases r) (auto simp: observe_at_def thenM_def bindM_def handleM_def open_scope_def
        close_scope_def set_outcome_def modM_def ret_def throw_def)
qed

lemma item_inv_mono: "c \<le> d \<Longrightarrow> item_inv k f old c l \<Longrightarrow> item_inv k f old d l"
  unfolding item_inv_def by (auto intro: scope_ok_mono)

lemmas still_prims = records_still.keeps_primitives records_still.keeps_helpers
  records_still.keeps_intros records_still.keeps_cases

lemma execute_flow_in_run:
  assumes "plan_apart (ev_plan env)"
  shows "rvalid (item_inv k f old) (execute_flow env 0 call)
    (\<lambda>x n recs. item_inv (k + opt_count count (fr_usage (fst x))) f old n recs \<and> fr_attempts (fst x) = [])
    (scope_ok k)"
  unfolding rvalid_def
proof (rule validI)
  fix s :: "'w run_state"
  assume s: "item_inv k f old (rs_consumed s) (rs_records s)"
  obtain r t where m: "execute_flow env 0 call s = (r, t)" by fastforce
  have "keeps records_still (execute_flow env 0 call)" by (rule records_still.keeps_execute_flow [OF refl])
  with m have t: "rs_records t = rs_records s" "rs_consumed s \<le> rs_consumed t"
    unfolding keeps_def records_still_def by (metis snd_conv)+
  let ?k = "k + scope_count count (rs_records s)"
  note v = payingD [OF execute_flow_paying [OF assms], where k = ?k, unfolded bvalid_def]
  from s have p: "?k \<le> K * rs_consumed s" by (simp add: item_inv_def scope_ok_def)
  show "case execute_flow env 0 call s of
      (Inr a, s') \<Rightarrow> item_inv (k + opt_count count (fr_usage (fst a))) f old (rs_consumed s') (rs_records s')
        \<and> fr_attempts (fst a) = []
    | (Inl e, s') \<Rightarrow> scope_ok k (rs_consumed s') (rs_records s')"
  proof (cases r)
    case (Inl e)
    with valid_Inl [OF v p m [unfolded Inl]] s t show ?thesis
      by (simp add: m item_inv_def scope_ok_def)
  next
    case (Inr a)
    with valid_Inr [OF v p m [unfolded Inr]] s t show ?thesis
      by (simp add: m item_inv_def scope_ok_def algebra_simps)
  qed
qed

lemma routed_boundary_scope:
  "rvalid (scope_ok k) (routed_boundary env f e issues failure) (\<lambda>_. scope_ok k) (scope_ok k)"
  unfolding routed_boundary_def
  by (rule rvalid_thenM [OF rvalid_set_active rvalid_still], assumption)
    (intro still_prims, rule scope_ok_mono)

lemma routed_attempt_scope:
  assumes ap: "plan_apart (ev_plan env)" and f: "repeats_apart f"
  shows "rvalid (item_inv k f old) (routed_attempt env f e attempt old inputs)
    (\<lambda>x. case x of Inl (_, as) \<Rightarrow> item_inv k f as | Inr _ \<Rightarrow> scope_ok k) (scope_ok k)"
proof -
  let ?Q = "\<lambda>x. case x of Inl (_, as) \<Rightarrow> item_inv k f as | Inr (_ :: routed) \<Rightarrow> scope_ok k"
  let ?R = "\<lambda>rec n recs. item_inv (k + opt_count count (fr_usage rec)) f old n recs \<and> fr_attempts rec = []"
  have boundary: "rvalid (scope_ok k) (bindM (routed_boundary env f e issues failure) (\<lambda>r. ret (Inr r))) ?Q (scope_ok k)"
    for issues failure
    by (rule rvalid_bindM [OF routed_boundary_scope]) (simp add: rvalid_ret)
  have once: "rvalid (?R rec) (thenM (set_record (fl_name f) rec)
      (bindM (routed_boundary env f e issues None) (\<lambda>r. ret (Inr r)))) ?Q (scope_ok k)" for rec issues
  proof (rule rvalid_thenM [OF rvalid_set_record boundary])
    fix n recs assume r: "?R rec n recs"
    with scope_count_put [of recs "fl_name f" rec]
    show "scope_ok k n (put (fl_name f) rec recs)"
      by (auto simp: item_inv_def scope_ok_def record_count_simps)
  qed
  have repeated: "rvalid (?R rec) (bindM (sharedM (repeat_attempt env (execute_flow env 0) f rp rec
          (old @ [rec]) attempt issues e None)) (\<lambda>d.
        case (rd_stop d, rd_inputs d) of
          (None, Some inputs') \<Rightarrow> ret (Inl (inputs', old @ [rec]))
        | (None, None) \<Rightarrow> throw OtherErr
        | (Some _, _) \<Rightarrow> bindM (routed_boundary env f e (rd_issues d) (rd_failure d))
            (\<lambda>r. ret (Inr r)))) ?Q (scope_ok k)"
    if "fl_repeat f = Some rp" for rp rec issues
  proof (rule rvalid_bindM)
    let ?S = "\<lambda>n recs. \<exists>q. scoped k (fl_name f) (Some q) n recs \<and> fr_attempts q = old @ [rec]"
    show "rvalid (?R rec) (sharedM (repeat_attempt env (execute_flow env 0) f rp rec
          (old @ [rec]) attempt issues e None)) (\<lambda>_. ?S) (scope_ok k)"
      by (rule rvalid_sharedM, rule lvalid_conseq [OF repeat_attempt_scoped
            [OF execute_flow_paying [OF ap] repeats_apartD [OF f that]]])
        (auto simp: item_inv_def)
    have weak: "?S n recs \<Longrightarrow> scope_ok k n recs" for n recs using scoped_ok by blast
    have next': "rvalid ?S (ret (Inl (inputs', old @ [rec]))) ?Q (scope_ok k)" for inputs'
      by (rule rvalid_ret) (auto dest: scoped_inv)
    have end': "rvalid ?S (bindM (routed_boundary env f e issues' failure) (\<lambda>r. ret (Inr r))) ?Q (scope_ok k)"
      for issues' failure
      by (rule rvalid_conseq [OF boundary]) (auto intro: weak)
    show "rvalid ?S (case (rd_stop d, rd_inputs d) of
          (None, Some inputs') \<Rightarrow> ret (Inl (inputs', old @ [rec]))
        | (None, None) \<Rightarrow> throw OtherErr
        | (Some _, _) \<Rightarrow> bindM (routed_boundary env f e (rd_issues d) (rd_failure d))
            (\<lambda>r. ret (Inr r))) ?Q (scope_ok k)" for d
      by (auto split: option.split intro: next' end' rvalid_fail weak)
  qed
  have after: "rvalid (\<lambda>n recs. item_inv (k + opt_count count (fr_usage (fst x))) f old n recs \<and>
        fr_attempts (fst x) = [])
      (case x of (rec, issues) \<Rightarrow> thenM (observe_record rec)
          (case fl_repeat f of
             None \<Rightarrow> thenM (set_record (fl_name f) rec)
               (bindM (routed_boundary env f e issues None) (\<lambda>r. ret (Inr r)))
           | Some rp \<Rightarrow>
              bindM (sharedM (repeat_attempt env (execute_flow env 0) f rp rec
                  (old @ [rec]) attempt issues e None)) (\<lambda>d.
                case (rd_stop d, rd_inputs d) of
                  (None, Some inputs') \<Rightarrow> ret (Inl (inputs', old @ [rec]))
                | (None, None) \<Rightarrow> throw OtherErr
                | (Some _, _) \<Rightarrow> bindM (routed_boundary env f e (rd_issues d) (rd_failure d))
                    (\<lambda>r. ret (Inr r))))) ?Q (scope_ok k)" for x
  proof -
    obtain rec issues where x: "x = (rec, issues)" by fastforce
    have obs: "rvalid (?R rec) (observe_record rec) (\<lambda>_. ?R rec) (scope_ok k)"
      unfolding observe_record_def
      by (rule rvalid_conseq [OF rvalid_still [OF records_still.keeps_primitives(5), where P = "?R rec"]])
        (auto intro: K_mono simp: item_inv_def scope_ok_def)
    show ?thesis
      unfolding x prod.case fst_conv
      by (rule rvalid_thenM [OF obs])
        (cases "fl_repeat f", simp_all only: option.case once repeated [unfolded prod.case])
  qed
  have frozen: "rvalid (item_inv k f old) (pureM r) (\<lambda>_. item_inv k f old) (scope_ok k)"
    for r :: "(exn, envelope) result"
    by (rule rvalid_conseq [OF rvalid_still [OF records_still.keeps_pureM, where P = "item_inv k f old"]])
      (auto intro: scope_ok_mono simp: item_inv_def)
  show ?thesis
    unfolding routed_attempt_def
    by (rule rvalid_thenM [OF rvalid_set_active rvalid_bindM [OF frozen rvalid_observe
          [OF rvalid_bindM [OF execute_flow_in_run [OF ap] after]]]])
qed

text \<open>Whole runs.\<close>

lemma run_routed_scope:
  assumes "plan_apart (ev_plan env)" "repeats_apart f"
  shows "rvalid (scope_ok k) (run_routed env f e) (\<lambda>_. scope_ok k) (scope_ok k)"
proof -
  have attempts: "rvalid (item_inv k f old) (routed_attempts env f e ns old inputs) (\<lambda>_. scope_ok k) (scope_ok k)"
    for ns old inputs
  proof (induction ns arbitrary: old inputs)
    case Nil
    show ?case by (auto intro: rvalid_fail simp: item_inv_def)
  next
    case (Cons m ns)
    have "rvalid (case x of Inl (_, as) \<Rightarrow> item_inv k f as | Inr _ \<Rightarrow> scope_ok k)
        (case x of
           Inl (inputs', attempts') \<Rightarrow> routed_attempts env f e ns attempts' inputs'
         | Inr result \<Rightarrow> ret result) (\<lambda>_. scope_ok k) (scope_ok k)" for x
      by (cases x) (auto intro: Cons.IH rvalid_ret split: prod.split)
    then show ?case
      unfolding routed_attempts.simps by (rule rvalid_bindM [OF routed_attempt_scope [OF assms]])
  qed
  have start: "rvalid (scope_ok k) (routed_attempts env f e ns [] inputs) (\<lambda>_. scope_ok k) (scope_ok k)"
    for ns inputs
    by (rule rvalid_conseq [OF attempts]) (auto simp: item_inv_def runs_count_def)
  have still: "rvalid (scope_ok k) m (\<lambda>_. scope_ok k) (scope_ok k)" if "keeps records_still m" for m :: "('w, 'x) run"
    by (rule rvalid_still [OF that scope_ok_mono])
  show ?thesis
    unfolding run_routed_def
    by (rule rvalid_thenM [OF still [OF records_still.keeps_check_deadline]
          rvalid_thenM [OF rvalid_set_active rvalid_bindM [OF still [OF records_still.keeps_getM]
            rvalid_bindM [OF still [OF records_still.keeps_pureM] start]]]])
qed

text \<open>The same over the locals of a run, which do not matter here.\<close>

definition mvalid :: "nat \<Rightarrow> ('w run_state \<times> 'l, 'a) eff \<Rightarrow> bool" where
  "mvalid k m \<longleftrightarrow> valid (\<lambda>p. scope_ok k (rs_consumed (fst p)) (rs_records (fst p))) m
     (\<lambda>_ p. scope_ok k (rs_consumed (fst p)) (rs_records (fst p)))
     (\<lambda>_ p. scope_ok k (rs_consumed (fst p)) (rs_records (fst p)))"

lemma mvalid_bindM: "mvalid k m \<Longrightarrow> (\<And>a. mvalid k (f a)) \<Longrightarrow> mvalid k (bindM m f)"
  unfolding mvalid_def by (rule valid_bindM)

lemma mvalid_thenM: "mvalid k m \<Longrightarrow> mvalid k n \<Longrightarrow> mvalid k (thenM m n)"
  unfolding mvalid_def by (rule valid_thenM)

lemma mvalid_exceptM: "mvalid k m \<Longrightarrow> (\<And>e. mvalid k (h e)) \<Longrightarrow> mvalid k (exceptM m h)"
  unfolding mvalid_def by (rule valid_exceptM) simp_all

lemma mvalid_liftM: "rvalid (scope_ok k) m (\<lambda>_. scope_ok k) (scope_ok k) \<Longrightarrow> mvalid k (liftM m)"
  unfolding mvalid_def rvalid_def by (rule valid_liftM) simp

lemma mvalid_simple:
  "mvalid k (ret a)" "mvalid k (throw x)" "mvalid k (failM c)" "mvalid k (pureM r)"
  "mvalid k (getM g)" "mvalid k (run_locally h)"
  by (simp_all add: mvalid_def valid_def ret_def throw_def failM_def pureM_def getM_def
      run_locally_def modM_def raise_code_def split: sum.split)

lemma mvalid_still: "keeps records_still m \<Longrightarrow> mvalid k (liftM m)"
  by (rule mvalid_liftM [OF rvalid_still [OF _ scope_ok_mono]])

lemmas mvalid_intros = mvalid_bindM mvalid_thenM mvalid_exceptM mvalid_simple mvalid_still still_prims

lemma enter_flow_still: "keeps records_still (enter_flow env visited current)"
  by (rule records_still.keeps_enter_flow)

lemma enter_flow_plan:
  "valid (\<lambda>_. True) (enter_flow env visited current) (\<lambda>f _. f \<in> set (wf_flows (ev_plan env))) (\<lambda>_ _. True)"
  unfolding enter_flow_def
  by (rule valid_thenM [where R = "\<lambda>_. True"])
    (auto simp: valid_def ret_def failM_def raise_code_def dest: workflow_flow_Some
      split: option.split prod.split sum.split)

lemma routed_iteration_scope:
  assumes ap: "plan_apart (ev_plan env)"
  shows "mvalid k (routed_iteration env e visited current)"
proof -
  let ?P = "\<lambda>p :: 'w run_state \<times> run_locals. scope_ok k (rs_consumed (fst p)) (rs_records (fst p))"
  have enter: "valid ?P (liftM (enter_flow env visited current))
      (\<lambda>f p. ?P p \<and> f \<in> set (wf_flows (ev_plan env))) (\<lambda>_. ?P)"
    by (rule valid_conseq [OF valid_conj [OF mvalid_still [OF enter_flow_still, unfolded mvalid_def]
          valid_liftM [OF enter_flow_plan]]]) auto
  show ?thesis
    unfolding mvalid_def routed_iteration_def
  proof (rule valid_bindM [OF enter])
    fix f
    let ?m = "if fl_callable f then failM INVALID_CONFIGURATION
      else bindM (liftM (run_routed env f e)) (\<lambda>r.
       if fr_status (rt_record r) = Failed \<or> rt_failure r \<noteq> None
       then thenM (run_locally (\<lambda>l. l\<lparr>ru_status := Failed, ru_error :=
           (case rt_failure r of Some x \<Rightarrow> Some x | None \<Rightarrow> fr_error (rt_record r))\<rparr>)) (ret None)
       else case rt_target r of
         None \<Rightarrow> throw OtherErr
       | Some (t, tr) \<Rightarrow>
           thenM (run_locally (\<lambda>l. l\<lparr>ru_transitions := ru_transitions l @ [tr],
             ru_status := (case tg_outcome t of
                Some oc \<Rightarrow> terminal_status oc | None \<Rightarrow> ru_status l)\<rparr>))
           (ret (tg_flow t)))"
    show "valid (\<lambda>p. ?P p \<and> f \<in> set (wf_flows (ev_plan env))) ?m (\<lambda>_. ?P) (\<lambda>_. ?P)"
    proof (cases "f \<in> set (wf_flows (ev_plan env))")
      case True
      then have f: "repeats_apart f" using ap by (simp add: plan_apart_def list_all_iff)
      have "mvalid k ?m"
        by (auto intro!: mvalid_intros mvalid_liftM [OF run_routed_scope [OF ap f]]
            split: option.split prod.split)
      then show ?thesis unfolding mvalid_def by (rule valid_pre) simp
    next
      case False
      then show ?thesis by (simp add: valid_def)
    qed
  qed
qed

lemma run_loop_scope:
  assumes "plan_apart (ev_plan env)"
  shows "mvalid k (run_loop env e visited current)"
proof (induction "length (wf_flows (ev_plan env)) - length visited" arbitrary: visited current
    rule: less_induct)
  case less
  show ?case
  proof (cases current)
    case None
    then show ?thesis by (simp add: run_loop.simps mvalid_simple)
  next
    case (Some c)
    have "mvalid k (if length (wf_flows (ev_plan env)) \<le> length visited then ret ()
        else run_loop env e (visited @ [c]) n)" for n
      by (auto intro: mvalid_simple less)
    then show ?thesis
      unfolding Some run_loop.simps by (rule mvalid_bindM [OF routed_iteration_scope [OF assms]])
  qed
qed

lemma run_single_scope:
  assumes ap: "plan_apart (ev_plan env)"
  shows "mvalid k (run_single env e flow_id step_id)"
proof -
  let ?S = "rvalid (scope_ok k)"
  have one: "?S (observe fn None ats (bindM (execute_flow env 0 c) (\<lambda>(record, _).
       thenM (observe_record record) (ret record))))
      (\<lambda>rec n recs. scope_ok (k + opt_count count (fr_usage rec)) n recs \<and> fr_attempts rec = []) (scope_ok k)"
    for fn ats c
  proof -
    let ?R = "\<lambda>rec n recs. scope_ok (k + opt_count count (fr_usage rec)) n recs \<and> fr_attempts rec = []"
    note ex = execute_flow_in_run [OF ap, of k "\<lparr>fl_name = [], fl_input = [], fl_steps = [],
      fl_input_schema_path = None, fl_input_schema = None, fl_output = None, fl_transition = None,
      fl_on_unresolved = None, fl_location = undefined, fl_callable = False, fl_repeat = None,
      fl_on_unresolved_inherited = False, fl_available_flows = []\<rparr>" "[]" c]
    have call: "?S (execute_flow env 0 c) (\<lambda>x. ?R (fst x)) (scope_ok k)"
      by (rule rvalid_conseq [OF ex]) (auto simp: item_inv_def runs_count_def)
    have obs: "rvalid (?R (fst x)) (case x of (record, _) \<Rightarrow> thenM (observe_record record) (ret record))
        ?R (scope_ok k)" for x :: "flow_record \<times> issue list"
    proof -
      obtain rec i where x: "x = (rec, i)" by fastforce
      have "rvalid (?R rec) (observe_record rec) (\<lambda>_. ?R rec) (scope_ok k)"
        unfolding observe_record_def
        by (rule rvalid_conseq [OF rvalid_still [OF records_still.keeps_primitives(5), where P = "?R rec"]])
          (auto intro: K_mono simp: scope_ok_def)
      then show ?thesis unfolding x prod.case fst_conv by (rule rvalid_thenM) (simp add: rvalid_ret)
    qed
    show ?thesis by (rule rvalid_observe [OF rvalid_bindM [OF call obs]])
  qed
  have put: "rvalid (\<lambda>n recs. scope_ok (k + opt_count count (fr_usage rec)) n recs \<and> fr_attempts rec = [])
      (set_record m rec) (\<lambda>_. scope_ok k) (scope_ok k)" for m rec
  proof (rule rvalid_set_record)
    fix n recs
    assume "scope_ok (k + opt_count count (fr_usage rec)) n recs \<and> fr_attempts rec = []"
    with scope_count_put [of recs m rec] show "scope_ok k n (put m rec recs)"
      by (auto simp: scope_ok_def record_count_simps)
  qed
  have act: "mvalid k (liftM (set_active a))" for a :: "string option"
    by (rule mvalid_liftM, rule rvalid_set_active)
  have tail: "mvalid k (thenM (liftM (set_active None))
      (if fr_status rec = Failed
       then run_locally (\<lambda>l. l\<lparr>ru_status := Failed, ru_error := fr_error rec\<rparr>)
       else run_locally (\<lambda>l. l\<lparr>ru_payload := fr_result rec, ru_status :=
         (if fr_status rec = NeedsReview then NeedsReview else Completed)\<rparr>)))" for rec
    by (auto intro!: mvalid_thenM act mvalid_simple)
  let ?P = "\<lambda>p :: 'w run_state \<times> run_locals. scope_ok k (rs_consumed (fst p)) (rs_records (fst p))"
  have rest: "valid ?P (bindM (liftM (observe fn None ats (bindM (execute_flow env 0 c) (\<lambda>(record, _).
             thenM (observe_record record) (ret record))))) (\<lambda>rec.
         thenM (liftM (set_record flow_id rec)) (thenM (liftM (set_active None))
            (if fr_status rec = Failed
             then run_locally (\<lambda>l. l\<lparr>ru_status := Failed, ru_error := fr_error rec\<rparr>)
             else run_locally (\<lambda>l. l\<lparr>ru_payload := fr_result rec, ru_status :=
               (if fr_status rec = NeedsReview then NeedsReview else Completed)\<rparr>)))))
       (\<lambda>_. ?P) (\<lambda>_. ?P)" for fn ats c
    by (rule valid_bindM [OF valid_lift_fst [OF one [unfolded rvalid_def]]
          valid_thenM [OF valid_lift_fst [OF put [unfolded rvalid_def]] tail [unfolded mvalid_def]]])
  show ?thesis
    unfolding run_single_def Let_def
    by (intro mvalid_bindM [OF mvalid_still [OF enter_flow_still]] mvalid_thenM [OF act])
      (simp add: mvalid_def rest)
qed

lemma initial_scope: "scope_count count (initial_records w flow_id) = 0 \<and> dict_wf (initial_records w flow_id)"
proof -
  have "dict_wf (dict_of ps recs) \<and> scope_count count (dict_of ps recs) = 0"
    if "\<forall>p \<in> set ps. record_count count (snd p) = 0" "dict_wf recs" "scope_count count recs = 0" for ps recs
    using that
  proof (induction ps recs rule: dict_of.induct)
    case (2 n r ps d)
    have "scope_count count (put n r d) = 0" using scope_count_put [of d n r] 2 by simp
    with 2 show ?case by simp
  qed simp
  moreover have "record_count count (skipped f) = 0" for f
    by (simp add: record_count_simps skipped_def opt_count_def)
  moreover have "scope_count count [] = 0" by (simp add: scope_count_def)
  ultimately show ?thesis unfolding initial_records_def by simp
qed

text \<open>A run's reported usage is covered by the steps it consumed.\<close>

lemma run_workflow_usage:
  assumes ap: "plan_apart (ev_plan env)"
    and run: "run_workflow env e flow_id step_id s = (Inr result, s')"
  shows "count (rr_usage result) \<le> K * rs_consumed s'"
proof -
  have body: "mvalid 0 (run_body env e flow_id step_id)"
    unfolding run_body_def workflow_output_def
    by (auto intro!: mvalid_intros run_single_scope [OF ap] run_loop_scope [OF ap] split: option.split)
  have failed: "record_count count (failed_flow f x (fr_attempts r) y) \<le> record_count count r" for f x r y
    by (cases "fr_attempts r = []")
      (simp_all add: failed_flow_def record_count_simps opt_count_def count_zero)
  have put: "rvalid (\<lambda>n recs. scope_ok 0 n recs \<and> get recs m = Some r)
      (set_record m (failed_flow f x (fr_attempts r) y)) (\<lambda>_. scope_ok 0) (scope_ok 0)" for m f x r y
  proof (rule rvalid_set_record)
    fix n recs
    assume "scope_ok 0 n recs \<and> get recs m = Some r"
    with scope_count_put [of recs m "failed_flow f x (fr_attempts r) y"] failed [of f x r y]
    show "scope_ok 0 n (put m (failed_flow f x (fr_attempts r) y) recs)"
      by (auto simp: scope_ok_def count_at_def)
  qed
  have inner: "mvalid 0 (bindM (liftM (getM rs_records)) (\<lambda>records.
      case (get records m, workflow_flow (ev_plan env) m) of
        (Some prior, Some f) \<Rightarrow>
          liftM (set_record m (failed_flow f (Some x) (fr_attempts prior)
            (if fr_attempts prior \<noteq> [] then Some StopFailure else None)))
      | _ \<Rightarrow> throw OtherErr) :: ('w run_state \<times> run_locals, unit) eff)" for m x
    unfolding mvalid_def
  proof (rule valid_bindM)
    show "valid (\<lambda>p. scope_ok 0 (rs_consumed (fst p)) (rs_records (fst p))) (liftM (getM rs_records))
      (\<lambda>recs p. scope_ok 0 (rs_consumed (fst p)) (rs_records (fst p)) \<and> rs_records (fst p) = recs)
      (\<lambda>_ p. scope_ok 0 (rs_consumed (fst p)) (rs_records (fst p)))"
      by (simp add: valid_def liftM_def getM_def)
    fix recs
    let ?P = "\<lambda>p :: 'w run_state \<times> run_locals. scope_ok 0 (rs_consumed (fst p)) (rs_records (fst p)) \<and>
      rs_records (fst p) = recs"
    let ?Q = "\<lambda>_ p :: 'w run_state \<times> run_locals. scope_ok 0 (rs_consumed (fst p)) (rs_records (fst p))"
    have thr: "valid ?P (throw OtherErr) ?Q ?Q" by (auto simp: valid_def throw_def)
    have set': "valid ?P (liftM (set_record m (failed_flow f y (fr_attempts r) z))) ?Q ?Q"
      if "get recs m = Some r" for f y r z
      by (rule valid_conseq [OF valid_lift_fst [OF put [unfolded rvalid_def]]]) (use that in auto)
    show "valid ?P (case (get recs m, workflow_flow (ev_plan env) m) of
        (Some prior, Some f) \<Rightarrow>
          liftM (set_record m (failed_flow f (Some x) (fr_attempts prior)
            (if fr_attempts prior \<noteq> [] then Some StopFailure else None)))
      | _ \<Rightarrow> throw OtherErr) ?Q ?Q"
      by (cases "get recs m"; cases "workflow_flow (ev_plan env) m";
          simp only: option.case prod.case thr set')
  qed
  have failure: "mvalid 0 (run_failure env e x)" for x
    unfolding run_failure_def
    by (intro mvalid_bindM [OF mvalid_still] still_prims mvalid_thenM mvalid_simple)
      (auto split: option.split intro: mvalid_simple inner [unfolded prod.case])
  have locals: "rvalid (scope_ok 0) (withM (initial_run_locals e)
      (thenM (exceptM (run_body env e flow_id step_id) (run_failure env e)) (getM snd)))
      (\<lambda>_. scope_ok 0) (scope_ok 0)"
    unfolding rvalid_def
    by (rule valid_withM, rule valid_pre [OF mvalid_thenM [OF mvalid_exceptM [OF body failure]
          mvalid_simple(5), unfolded mvalid_def]]) simp
  have start: "rvalid (\<lambda>_ _. True) (modM (\<lambda>s. s\<lparr>rs_records := initial_records (ev_plan env) flow_id\<rparr>))
      (\<lambda>_. scope_ok 0) (scope_ok 0)"
    using initial_scope [of "ev_plan env" flow_id]
    by (simp add: rvalid_def valid_def modM_def scope_ok_def)
  have last: "rvalid (scope_ok 0) (bindM (getM rs_records) (\<lambda>records. ret (run_result_of env e records l)))
      (\<lambda>r n _. count (rr_usage r) \<le> K * n) (scope_ok 0)" for l
  proof (rule rvalid_bindM [OF rvalid_get [where Q = "\<lambda>recs n l. scope_ok 0 n recs"]])
    show "rvalid (\<lambda>n l. scope_ok 0 n recs) (ret (run_result_of env e recs l))
      (\<lambda>r n _. count (rr_usage r) \<le> K * n) (scope_ok 0)" for recs l
      by (rule rvalid_ret) (simp add: run_result_of_def records_usage_def count_foldl count_zero
          scope_ok_def scope_count_def record_count_def comp_def)
  qed simp
  have "rvalid (\<lambda>_ _. True) (run_workflow env e flow_id step_id)
      (\<lambda>r n _. count (rr_usage r) \<le> K * n) (scope_ok 0)"
    unfolding run_workflow_def
    by (rule rvalid_thenM [OF start rvalid_bindM [OF locals last]])
  then show ?thesis
    unfolding rvalid_def using run by (auto dest: valid_Inr)
qed

end

section \<open>The counters\<close>

interpretation model_requests: step_count us_model_requests env "el_model_requests (ev_limits env)" for env
proof unfold_locales
  fix ops u
  assume "snapshot (budget_run (new_budget (el_model_requests (ev_limits env))
    (el_tool_calls (ev_limits env))) ops) = Inr u"
  then show "us_model_requests u \<le> el_model_requests (ev_limits env)"
    using snapshot_bounds [OF budget_run_inv [OF budget_inv_new(1)]] by (fastforce simp: new_budget_def)
qed simp_all

interpretation tool_calls: step_count us_tool_calls env "el_tool_calls (ev_limits env)" for env
proof unfold_locales
  fix ops u
  assume "snapshot (budget_run (new_budget (el_model_requests (ev_limits env))
    (el_tool_calls (ev_limits env))) ops) = Inr u"
  then show "us_tool_calls u \<le> el_tool_calls (ev_limits env)"
    using snapshot_bounds [OF budget_run_inv [OF budget_inv_new(1)]] by (fastforce simp: new_budget_def)
qed simp_all

section \<open>Properties\<close>

text \<open>
  Admission runs the workflow once, with its own deadline; what holds of the result and the
  steps then holds of an admitted run.
\<close>

lemma admit_result:
  fixes Q :: "run_result \<Rightarrow> nat \<Rightarrow> bool" and env :: "'w run_env"
  assumes run: "\<And>stop. valid (\<lambda>_. True) (run_workflow (env\<lparr>ev_deadline := stop\<rparr>) e fi si)
      (\<lambda>r s. Q r (rs_consumed s)) (\<lambda>_ _. True)"
    and trace: "\<And>r c t. Q r c \<Longrightarrow> Q (r\<lparr>rr_trace := t\<rparr>) c"
  shows "valid (\<lambda>_. True) (admit env e d fi si) (\<lambda>r s. Q r (rs_consumed s)) (\<lambda>_ _. True)"
proof -
  have any: "valid P m (\<lambda>_ _. True) (\<lambda>_ _. True)" for P and m :: "('w, 'y) run"
    by (simp add: valid_def split: prod.split sum.split)
  have tail: "valid (\<lambda>s. Q r (rs_consumed s)) (thenM (set_outcome st code)
      (bindM (read_carrier env') (\<lambda>c. ret (r\<lparr>rr_trace := trace_ids c\<rparr>))))
      (\<lambda>r s. Q r (rs_consumed s)) (\<lambda>_ _. True)" for r st code and env' :: "'w run_env"
    by (auto simp: valid_def thenM_def bindM_def set_outcome_def read_carrier_def modM_def ret_def
        intro: trace split: prod.split)
  have body: "valid (\<lambda>_. True) (observe fl st ats
       (bindM (run_workflow (env\<lparr>ev_deadline := stop\<rparr>) e fi si) (\<lambda>result.
           thenM (set_outcome (rr_status result) (map_option fa_code (rr_error result)))
            (bindM (read_carrier (env\<lparr>ev_deadline := stop\<rparr>)) (\<lambda>c. ret (result\<lparr>rr_trace := trace_ids c\<rparr>))))))
      (\<lambda>r s. Q r (rs_consumed s)) (\<lambda>_ _. True)" for fl st ats stop
    unfolding observe_at_def
  proof (rule valid_thenM [OF any], rule valid_bindM [OF valid_handleM])
    show "valid (\<lambda>_. True) (bindM (run_workflow (env\<lparr>ev_deadline := stop\<rparr>) e fi si) (\<lambda>result.
           thenM (set_outcome (rr_status result) (map_option fa_code (rr_error result)))
            (bindM (read_carrier (env\<lparr>ev_deadline := stop\<rparr>)) (\<lambda>c. ret (result\<lparr>rr_trace := trace_ids c\<rparr>)))))
        (\<lambda>r s. Q r (rs_consumed s)) (\<lambda>_ _. True)"
      by (rule valid_bindM [OF run tail])
    show "valid (\<lambda>_. True) (thenM (thenM (set_outcome (fst (observed_error e)) (Some (snd (observed_error e))))
        (close_scope :: ('w, unit) run)) (throw e)) (\<lambda>r s. Q r (rs_consumed s)) (\<lambda>_ _. True)" for e
      by (rule valid_thenM [OF any]) (simp add: valid_def throw_def)
  qed (simp add: valid_def thenM_def bindM_def close_scope_def modM_def ret_def)
  have fin: "valid (\<lambda>_. True) (finallyM m (release_slot env')) (\<lambda>r s. Q r (rs_consumed s)) (\<lambda>_ _. True)"
    if "valid (\<lambda>_. True) m (\<lambda>r s. Q r (rs_consumed s)) (\<lambda>_ _. True)"
    for m and env' :: "'w run_env"
  proof (rule validI)
    fix s
    from that show "case finallyM m (release_slot env') s of (Inr r, s') \<Rightarrow> Q r (rs_consumed s') | (Inl e, s') \<Rightarrow> True"
      by (cases "m s") (auto simp: valid_def finallyM_def release_slot_def modM_def split: sum.splits prod.splits)
  qed
  show ?thesis
    unfolding admit_def Let_def
    by (rule valid_bindM [OF any], rule valid_bindM [OF any], rule valid_thenM [OF any], rule valid_thenM [OF any],
        rule valid_thenM [OF any], rule fin [OF body])
qed

text \<open>
  C1: The usage a run reports is bounded by its limits: at most the configured model
  requests and tool calls for every step that was visited, and no more steps than allowed.
\<close>

theorem run_usage_bounded:
  assumes "plan_apart (ev_plan env)"
  shows "case run_all env e d (new_run w) of
     (Inr r, s) \<Rightarrow>
       us_model_requests (rr_usage r) \<le> el_model_requests (ev_limits env) * rs_consumed s \<and>
       us_tool_calls (rr_usage r) \<le> el_tool_calls (ev_limits env) * rs_consumed s \<and>
       rs_consumed s \<le> el_max_steps (ev_limits env)
   | (Inl x, s) \<Rightarrow> True"
proof -
  let ?Q = "\<lambda>r n. us_model_requests (rr_usage r) \<le> el_model_requests (ev_limits env) * n \<and>
    us_tool_calls (rr_usage r) \<le> el_tool_calls (ev_limits env) * n"
  have "valid (\<lambda>_. True) (run_workflow (env\<lparr>ev_deadline := stop\<rparr>) e None None)
      (\<lambda>r s. ?Q r (rs_consumed s)) (\<lambda>_ _. True)" for stop
    using model_requests.run_workflow_usage [of "env\<lparr>ev_deadline := stop\<rparr>" e None None]
      tool_calls.run_workflow_usage [of "env\<lparr>ev_deadline := stop\<rparr>" e None None] assms
    by (auto simp: valid_def split: prod.split sum.split)
  from admit_result [where Q = ?Q, OF this] have "valid (\<lambda>_. True) (run_all env e d)
      (\<lambda>r s. ?Q r (rs_consumed s)) (\<lambda>_ _. True)"
    by (simp add: run_all_def)
  moreover have "rs_consumed (snd (run_all env e d (new_run w))) \<le> el_max_steps (ev_limits env)"
    using step_counter.keeps_entry_points(1) [OF refl, of env e d]
    by (simp add: keeps_def steps_within_def new_run_def)
  ultimately show ?thesis by (fastforce simp: valid_def split: prod.splits sum.splits)
qed

text \<open>A plan with a repeated routed flow and its retry flow, in some environment.\<close>

definition sample_step :: "string \<Rightarrow> step" where
  "sample_step n = \<lparr>st_name = n, st_type = ''handler'', st_location = \<lparr>loc_path = ''workflow.yaml'', loc_line = 3,
     loc_column = 1\<rparr>, st_when = None, st_body = HandlerStep \<lparr>hs_handler = ''echo'', hs_input = []\<rparr>\<rparr>"

definition sample_flow :: "string \<Rightarrow> bool \<Rightarrow> repeat_plan option \<Rightarrow> flow" where
  "sample_flow n callable rp = \<lparr>fl_name = n, fl_input = [], fl_steps = [sample_step ''work''],
     fl_input_schema_path = None, fl_input_schema = None, fl_output = Some (pointer_binding ''/steps/work/result''),
     fl_transition = (if callable then None
       else Some (TTarget \<lparr>tg_flow = None, tg_outcome = Some OutCompleted\<rparr>)),
     fl_on_unresolved = None, fl_location = \<lparr>loc_path = ''workflow.yaml'', loc_line = 2, loc_column = 1\<rparr>,
     fl_callable = callable, fl_repeat = rp, fl_on_unresolved_inherited = False, fl_available_flows = []\<rparr>"

definition sample_plan :: workflow where
  "sample_plan = \<lparr>wf_name = ''sample'', wf_revision = ''r1'', wf_start = StartFlow ''main'',
     wf_default_model = None, wf_input_schema_path = None, wf_input_schema = None,
     wf_schema_resources = [], wf_output = None,
     wf_flows = [sample_flow ''main'' False (Some \<lparr>rp_max_attempts = 3,
         rp_until = Leaf \<lparr>lf_source = pointer_binding ''/flows/main/result'', lf_operator = OpEquals,
           lf_operand = JInt 1, lf_comparison = None, lf_pattern = None\<rparr>,
         rp_retry_flow = Some ''again'', rp_retry_flow_input = [], rp_continue_when = None,
         rp_retry_input = []\<rparr>),
       sample_flow ''again'' True None],
     wf_location = \<lparr>loc_path = ''workflow.yaml'', loc_line = 1, loc_column = 1\<rparr>, wf_diagnostics = []\<rparr>"

definition sample_env :: "nat run_env" where
  "sample_env = \<lparr>ev_plan = sample_plan,
     ev_limits = \<lparr>el_run_timeout = 60, el_model_timeout = 10, el_tool_timeout = 10, el_max_steps = 4,
       el_model_requests = 2, el_tool_calls = 1\<rparr>,
     ev_execute = (\<lambda>_ _ _ n. (Inr \<lparr>ro_is_outcome = True, ro_result = PInt (int n), ro_needs_review = PBool False,
       ro_selection = None, ro_issues = PTuple []\<rparr>, [StartModel ''m'' None, FinishModel 1 token_zero], n + 1)),
     ev_validate_input = (\<lambda>_. Inr ()), ev_validate_flow_input = (\<lambda>_ _. Inr ()),
     ev_time = (\<lambda>n. (0, n)), ev_suspend = (\<lambda>n. (False, n)), ev_carrier = (\<lambda>n. (None, n)),
     ev_admit = (\<lambda>_ n. (Inr (), n)), ev_release = (\<lambda>n. n), ev_fullmatch = (=),
     ev_execution_id = ''x1'', ev_identity = \<lparr>id_tenant = None, id_principal = None\<rparr>, ev_deadline = 0\<rparr>"

theorem run_usage_bounded_witness:
  "case run_all sample_env \<lparr>en_payload = JNull, en_metadata = []\<rparr> None (new_run 0) of
     (Inr r, s) \<Rightarrow>
       us_model_requests (rr_usage r) \<le> el_model_requests (ev_limits sample_env) * rs_consumed s \<and>
       us_tool_calls (rr_usage r) \<le> el_tool_calls (ev_limits sample_env) * rs_consumed s \<and>
       rs_consumed s \<le> el_max_steps (ev_limits sample_env)
   | (Inl x, s) \<Rightarrow> True"
  by (rule run_usage_bounded)
    (simp add: plan_apart_def repeats_apart_def sample_env_def sample_plan_def sample_flow_def)

end
