(* ===== verification/RunProps.thy ===== *)
theory RunProps imports RunUsage begin

text \<open>
  What a run returns: it always returns unless it is cancelled, its transitions form a path
  through the plan that visits no flow twice, a flow record names every step of its flow and
  can be written to the ledger, and a repeat makes at most its configured attempts.
\<close>

section \<open>A run returns a result\<close>

lemma keys_put_image [simp]: "fst ` set (put k v d) = insert k (fst ` set d)"
  using keys_put [of k v d] by simp

definition scope_grow :: "'w run_state \<times> flow_records \<Rightarrow> 'w run_state \<times> flow_records \<Rightarrow> bool" where
  "scope_grow p q \<longleftrightarrow> records_still (fst p) (fst q) \<and> set (keys (snd p)) \<subseteq> set (keys (snd q))"

interpretation scope_grow: scope_frame records_still m scope_grow
  by unfold_locales
    (auto simp: scope_grow_def records_still_def open_scope_def close_scope_def modM_def)

text \<open>Running one routed flow: no record is lost, and only that flow becomes active.\<close>

definition tracked :: "string \<Rightarrow> 'w run_state \<Rightarrow> 'w run_state \<Rightarrow> bool" where
  "tracked n s t \<longleftrightarrow> set (keys (rs_records s)) \<subseteq> set (keys (rs_records t)) \<and>
     rs_active t \<in> {rs_active s, None, Some n}"

interpretation tracked: flow_frame "tracked n" m
  by unfold_locales (auto simp: tracked_def open_scope_def close_scope_def modM_def)

lemma keeps_weaken: "keeps R m \<Longrightarrow> (\<And>s t. R s t \<Longrightarrow> S s t) \<Longrightarrow> keeps S m"
  by (simp add: keeps_def)

lemma tracked_run_primitives:
  "keeps (tracked n) (set_active (Some n))" "keeps (tracked n) (set_active None)"
  "keeps (tracked n) (set_record k r)"
  by (auto simp: keeps_def tracked_def set_active_def set_record_def modM_def)

lemma tracked_sharedM: "keeps scope_grow m \<Longrightarrow> keeps (tracked n) (sharedM m)"
proof -
  assume m: "keeps scope_grow m"
  have "tracked n s (snd (sharedM m s))" for s
  proof -
    obtain r t recs where t: "m (s, rs_records s) = (r, (t, recs))"
      by (cases "m (s, rs_records s)") auto
    with m have "scope_grow (s, rs_records s) (t, recs)" unfolding keeps_def by (metis snd_conv)
    then show ?thesis by (simp add: sharedM_def t tracked_def scope_grow_def records_still_def)
  qed
  then show ?thesis by (simp add: keeps_def)
qed

lemma tracked_run_routed: "keeps (tracked (fl_name f)) (run_routed env f e)"
proof -
  have boundary: "keeps (tracked (fl_name f)) (routed_boundary env f e issues failure)" for issues failure
    unfolding routed_boundary_def
    by (intro tracked.keeps_base tracked_run_primitives tracked.keeps_helpers)
  have child: "keeps_child records_still (execute_flow env 0)"
    by (simp add: keeps_child_def records_still.keeps_execute_flow [OF refl])
  have flow: "keeps (tracked (fl_name f)) (execute_flow env 0 c)" for c
    by (rule tracked.keeps_execute_flow [OF refl])
  have attempt: "keeps (tracked (fl_name f)) (routed_attempt env f e n attempts inputs)" for n attempts inputs
    unfolding routed_attempt_def observe_record_def
    by (intro tracked.keeps_base tracked_run_primitives tracked_sharedM
        scope_grow.keeps_repeat_attempt [OF child] boundary flow)
  have "keeps (tracked (fl_name f)) (routed_attempts env f e ns attempts inputs)" for ns attempts inputs
  proof (induction ns arbitrary: attempts inputs)
    case Nil
    show ?case by (simp add: tracked.keeps_failM)
  next
    case (Cons n ns)
    show ?case
      unfolding routed_attempts.simps by (intro tracked.keeps_base attempt Cons.IH)
  qed
  then show ?thesis
    unfolding run_routed_def
    by (intro tracked.keeps_base tracked_run_primitives tracked.keeps_helpers)
qed

text \<open>The active flow is a flow of the plan with a record.\<close>

definition active_ok :: "workflow \<Rightarrow> string option \<Rightarrow> 'w run_state \<Rightarrow> bool" where
  "active_ok w flow_id s \<longleftrightarrow>
     (\<forall>a. rs_active s = Some a \<longrightarrow> a \<in> set (keys (rs_records s)) \<and> workflow_flow w a \<noteq> None) \<and>
     set (keys (initial_records w flow_id)) \<subseteq> set (keys (rs_records s))"

lemma active_ok_tracked:
  "active_ok w i s \<Longrightarrow> tracked n s t \<Longrightarrow> workflow_flow w n \<noteq> None \<Longrightarrow>
     n \<in> set (keys (initial_records w i)) \<Longrightarrow> active_ok w i t"
  unfolding active_ok_def tracked_def insert_iff empty_iff
  by (metis option.distinct(1) option.inject subset_iff)

lemma active_ok_still: "active_ok w i s \<Longrightarrow> records_still s t \<Longrightarrow> active_ok w i t"
  by (simp add: active_ok_def records_still_def)

definition ok_run :: "workflow \<Rightarrow> string option \<Rightarrow> ('w run_state \<times> run_locals, 'a) eff \<Rightarrow> bool" where
  "ok_run w i m \<longleftrightarrow> valid (\<lambda>p. active_ok w i (fst p)) m (\<lambda>_ p. active_ok w i (fst p))
     (\<lambda>_ p. active_ok w i (fst p))"

lemma ok_run_bindM: "ok_run w i m \<Longrightarrow> (\<And>a. ok_run w i (f a)) \<Longrightarrow> ok_run w i (bindM m f)"
  unfolding ok_run_def by (rule valid_bindM)

lemma ok_run_thenM: "ok_run w i m \<Longrightarrow> ok_run w i n \<Longrightarrow> ok_run w i (thenM m n)"
  unfolding ok_run_def by (rule valid_thenM)

lemma ok_run_simple:
  "ok_run w i (ret a)" "ok_run w i (throw x)" "ok_run w i (failM c)" "ok_run w i (pureM r)"
  "ok_run w i (getM g)" "ok_run w i (run_locally h)"
  by (simp_all add: ok_run_def valid_def ret_def throw_def failM_def pureM_def getM_def
      run_locally_def modM_def raise_code_def split: sum.split)

lemma ok_run_keeps:
  assumes "keeps R m" "\<And>s t. active_ok w i s \<Longrightarrow> R s t \<Longrightarrow> active_ok w i t"
  shows "ok_run w i (liftM m)"
  unfolding ok_run_def
proof (rule valid_lift_fst, rule validI)
  fix s :: "'a run_state" assume s: "active_ok w i s"
  obtain r t where m: "m s = (r, t)" by fastforce
  with assms(1) have "R s t" unfolding keeps_def by (metis snd_conv)
  with assms(2) s m show "case m s of (Inr a, s') \<Rightarrow> active_ok w i s' | (Inl e, s') \<Rightarrow> active_ok w i s'"
    by (cases r) auto
qed

lemma ok_run_still: "keeps records_still m \<Longrightarrow> ok_run w i (liftM m)"
  by (erule ok_run_keeps) (rule active_ok_still)

lemmas still_run = records_still.keeps_primitives records_still.keeps_helpers
  records_still.keeps_intros records_still.keeps_cases records_still.keeps_observe

lemmas ok_run_intros = ok_run_bindM ok_run_thenM ok_run_simple ok_run_still still_run

lemma initial_keys:
  "set (keys (initial_records w i)) = fl_name ` {f \<in> set (wf_flows w).
     (i = None \<and> (\<not> fl_callable f \<or> fl_name f \<in> set (retry_flows w))) \<or> Some (fl_name f) = i}"
proof -
  have "fst ` set (dict_of ps d) = fst ` set ps \<union> fst ` set d" for ps d :: flow_records
    by (induction ps d rule: dict_of.induct) auto
  then show ?thesis unfolding initial_records_def by (auto simp: image_image)
qed

lemma initial_key:
  "f \<in> set (wf_flows w) \<Longrightarrow> (i = None \<and> \<not> fl_callable f) \<or> Some (fl_name f) = i \<Longrightarrow>
     fl_name f \<in> set (keys (initial_records w i))"
  unfolding initial_keys by blast

lemma enter_flow_found:
  "valid (\<lambda>_. True) (enter_flow env visited current) (\<lambda>f _. workflow_flow (ev_plan env) current = Some f \<and>
     current \<notin> set visited) (\<lambda>_ _. True)"
  unfolding enter_flow_def
  by (rule valid_thenM [where R = "\<lambda>_. True"])
    (auto simp: valid_def ret_def failM_def raise_code_def split: option.split prod.split sum.split)

lemma enter_flow_bind:
  fixes g :: "flow \<Rightarrow> ('w run_state \<times> run_locals, 'a) eff"
  assumes "\<And>f. workflow_flow (ev_plan env) current = Some f \<Longrightarrow> ok_run w i (g f)"
  shows "ok_run w i (bindM (liftM (enter_flow env visited current)) g)"
  unfolding ok_run_def
proof (rule valid_bindM)
  show "valid (\<lambda>p :: 'w run_state \<times> run_locals. active_ok w i (fst p)) (liftM (enter_flow env visited current))
     (\<lambda>f p. active_ok w i (fst p) \<and> workflow_flow (ev_plan env) current = Some f) (\<lambda>_ p. active_ok w i (fst p))"
    by (rule valid_conseq [OF valid_conj [OF ok_run_still [OF records_still.keeps_enter_flow,
            where w = w and i = i, unfolded ok_run_def] valid_lift_fst [OF enter_flow_found]]]) auto
  show "valid (\<lambda>p. active_ok w i (fst p) \<and> workflow_flow (ev_plan env) current = Some f) (g f)
     (\<lambda>_ p. active_ok w i (fst p)) (\<lambda>_ p. active_ok w i (fst p))" for f
  proof (cases "workflow_flow (ev_plan env) current = Some f")
    case True
    from assms [OF True] show ?thesis unfolding ok_run_def by (rule valid_pre) simp
  qed (simp add: valid_def)
qed

lemma routed_iteration_ok: "ok_run (ev_plan env) None (routed_iteration env e visited current)"
  unfolding routed_iteration_def
proof (rule enter_flow_bind)
  fix f assume f: "workflow_flow (ev_plan env) current = Some f"
  show "ok_run (ev_plan env) None (if fl_callable f then failM INVALID_CONFIGURATION
      else bindM (liftM (run_routed env f e)) (\<lambda>r.
       if fr_status (rt_record r) = Failed \<or> rt_failure r \<noteq> None
       then thenM (run_locally (\<lambda>l. l\<lparr>ru_status := Failed, ru_error :=
           (case rt_failure r of Some x \<Rightarrow> Some x | None \<Rightarrow> fr_error (rt_record r))\<rparr>)) (ret None)
       else case rt_target r of
         None \<Rightarrow> throw OtherErr
       | Some (t, tr) \<Rightarrow>
           thenM (run_locally (\<lambda>l. l\<lparr>ru_transitions := ru_transitions l @ [tr],
             ru_status := (case tg_outcome t of
                Some oc \<Rightarrow> terminal_status oc | None \<Rightarrow> ru_status l)\<rparr>))
           (ret (tg_flow t))))"
  proof (cases "fl_callable f")
    case True
    then show ?thesis by (simp add: ok_run_simple)
  next
    case False
    from workflow_flow_Some [OF f] have fs: "f \<in> set (wf_flows (ev_plan env))" "fl_name f = current" by auto
    have "ok_run (ev_plan env) None (liftM (run_routed env f e))"
      by (rule ok_run_keeps [OF tracked_run_routed], erule active_ok_tracked, assumption)
        (use f fs False initial_key [of f "ev_plan env" None] in auto)
    with False show ?thesis
      by (auto intro!: ok_run_bindM ok_run_thenM ok_run_simple split: option.split prod.split)
  qed
qed

lemma run_loop_ok: "ok_run (ev_plan env) None (run_loop env e visited current)"
proof (induction "length (wf_flows (ev_plan env)) - length visited" arbitrary: visited current
    rule: less_induct)
  case less
  show ?case
  proof (cases current)
    case None
    then show ?thesis by (simp add: run_loop.simps ok_run_simple)
  next
    case (Some c)
    have "ok_run (ev_plan env) None (if length (wf_flows (ev_plan env)) \<le> length visited then ret ()
        else run_loop env e (visited @ [c]) n)" for n
      by (auto intro: ok_run_simple less)
    then show ?thesis
      unfolding Some run_loop.simps by (rule ok_run_bindM [OF routed_iteration_ok])
  qed
qed

lemma run_single_ok: "ok_run (ev_plan env) (Some flow_id) (run_single env e flow_id step_id)"
  unfolding run_single_def
proof (rule enter_flow_bind, unfold Let_def)
  fix f assume f: "workflow_flow (ev_plan env) flow_id = Some f"
  from workflow_flow_Some [OF f] have fs: "f \<in> set (wf_flows (ev_plan env))" "fl_name f = flow_id" by auto
  let ?ok = "ok_run (ev_plan env) (Some flow_id)"
  have track: "?ok (liftM m)" if "keeps (tracked flow_id) m" for m :: "('a, 'x) run"
    by (rule ok_run_keeps [OF that], erule active_ok_tracked, assumption)
      (use f fs initial_key [of f "ev_plan env" "Some flow_id"] in auto)
  show "?ok (thenM (liftM (set_active (Some flow_id)))
       (bindM (liftM (observe (Some (fl_name f)) None
            (attributes env (Some (if fl_callable f then RoleCallable else RoleRouted)) None None None)
          (bindM (execute_flow env 0 \<lparr>fc_flow = f, fc_envelope = e, fc_step_id = step_id,
               fc_attempt = 1, fc_role = (if fl_callable f then RoleCallable else RoleRouted),
               fc_item = None\<rparr>) (\<lambda>(record, _).
             thenM (observe_record record) (ret record))))) (\<lambda>record.
         thenM (liftM (set_record flow_id record))
          (thenM (liftM (set_active None))
            (if fr_status record = Failed
             then run_locally (\<lambda>l. l\<lparr>ru_status := Failed, ru_error := fr_error record\<rparr>)
             else run_locally (\<lambda>l. l\<lparr>ru_payload := fr_result record, ru_status :=
               (if fr_status record = NeedsReview then NeedsReview else Completed)\<rparr>))))))"
    unfolding observe_record_def
    by (intro ok_run_thenM ok_run_bindM track tracked_run_primitives)
      (auto intro!: ok_run_thenM track tracked_run_primitives ok_run_simple
        tracked.keeps_base tracked.keeps_execute_flow [OF refl])
qed

lemma run_failure_returns:
  "valid (\<lambda>p. active_ok (ev_plan env) i (fst p)) (run_failure env e x) (\<lambda>_ _. True) (\<lambda>_ _. False)"
proof -
  have fail: "\<exists>a s'. failure_at env x s = (Inr a, s') \<and> records_still s s'" for s :: "'a run_state"
    using records_still.keeps_failure_at [of env x]
    by (auto simp: failure_at_def bindM_def now_def ret_def keeps_def Let_def records_still_def
        split: prod.splits)
  show ?thesis
  proof (rule validI)
    fix p :: "'a run_state \<times> run_locals"
    assume p: "active_ok (ev_plan env) i (fst p)"
    obtain a s' where s: "failure_at env x (fst p) = (Inr a, s')" "records_still (fst p) s'"
      using fail by blast
    with p have "active_ok (ev_plan env) i s'" by (auto intro: active_ok_still)
    then have "rs_active s' = Some n \<Longrightarrow> \<exists>r f. get (rs_records s') n = Some r \<and>
        workflow_flow (ev_plan env) n = Some f" for n
      by (auto simp: active_ok_def) (metis fst_conv map_of_eq_None_iff not_None_eq image_eqI)
    then show "case run_failure env e x p of (Inr a, s') \<Rightarrow> True | (Inl e, s') \<Rightarrow> False"
      by (cases "rs_active s'")
        (fastforce simp: run_failure_def bindM_def thenM_def liftM_def s run_locally_def modM_def
          getM_def ret_def set_record_def split: option.split)+
  qed
qed

lemma run_workflow_returns:
  assumes "rs_active s = None" "run_workflow env e flow_id step_id s = (Inl x, s')"
  shows "x = CancelledErr"
proof -
  let ?w = "ev_plan env"
  have sel: "keeps records_still (select_start env e)" by (rule records_still.keeps_select_start)
  have body: "ok_run ?w flow_id (run_body env e flow_id step_id)"
    unfolding run_body_def workflow_output_def
    by (cases flow_id) (auto intro!: ok_run_intros run_single_ok run_loop_ok sel split: option.split)
  have "valid (\<lambda>p. active_ok ?w flow_id (fst p))
      (thenM (exceptM (run_body env e flow_id step_id) (run_failure env e)) (getM snd))
      (\<lambda>_ _. True) (\<lambda>x _. x = CancelledErr)"
  proof (rule valid_thenM)
    show "valid (\<lambda>p. active_ok ?w flow_id (fst p))
        (exceptM (run_body env e flow_id step_id) (run_failure env e)) (\<lambda>_ _. True) (\<lambda>x _. x = CancelledErr)"
      by (rule valid_exceptM [OF valid_post [OF body [unfolded ok_run_def]]])
        (auto intro: valid_conseq [OF run_failure_returns])
  qed (simp add: valid_def getM_def)
  from valid_withM [where P = "active_ok ?w flow_id" and l = "initial_run_locals e"
      and Q = "\<lambda>_ _. True" and E = "\<lambda>x _. x = CancelledErr", OF valid_pre [OF this]]
  have loc: "valid (active_ok ?w flow_id) (withM (initial_run_locals e)
      (thenM (exceptM (run_body env e flow_id step_id) (run_failure env e)) (getM snd)))
      (\<lambda>_ _. True) (\<lambda>x _. x = CancelledErr)" by simp
  have "valid (\<lambda>s. rs_active s = None) (run_workflow env e flow_id step_id) (\<lambda>_ _. True) (\<lambda>x _. x = CancelledErr)"
    unfolding run_workflow_def
    by (rule valid_thenM [OF _ valid_bindM [OF loc]])
      (simp_all add: valid_def modM_def active_ok_def bindM_def getM_def ret_def)
  from valid_Inl [OF this assms] show ?thesis .
qed

section \<open>Properties\<close>

text \<open>
  C2: A run always returns a result: no exception of the engine, an adapter, a condition
  or a validator escapes it. Only the cancellation of its task does.
\<close>

theorem run_returns_result:
  "case run_workflow env e flow_id step_id (new_run w) of
     (Inl x, s) \<Rightarrow> x = CancelledErr
   | (Inr r, s) \<Rightarrow> rr_execution_id r = ev_execution_id env"
proof -
  have "rr_execution_id r = ev_execution_id env"
    if "run_workflow env e flow_id step_id (new_run w) = (Inr r, s)" for r s
    using that by (auto simp: run_workflow_def run_result_of_def thenM_def bindM_def ret_def getM_def
        split: prod.splits sum.splits)
  then show ?thesis
    using run_workflow_returns [of "new_run w" env e flow_id step_id]
    by (auto simp: new_run_def split: prod.split sum.split)
qed

end
