(* ===== verification/Routes.thy ===== *)
theory Routes imports Bindings begin

text \<open>
  The routed graph of \<^verbatim>\<open>compiler/compiler.py\<close> before it is walked: the targets of a route
  with the key path where each is authored, the checks of the repeats with the owner of every
  retry flow (\<^verbatim>\<open>_validate_repeats\<close>), and the edges of every flow with their nesting
  weight (the first half of \<^verbatim>\<open>_validate_graph\<close>). A compilation error is its reason with
  the file and key path it points at; message texts are not modelled.
\<close>

section \<open>Errors and places\<close>

datatype key = Key string | Index nat

text \<open>\<^verbatim>\<open>_Where\<close>: a place below a key path of one file.\<close>

record place =
  pl_file :: string
  pl_prefix :: "key list"

definition below :: "place \<Rightarrow> key list \<Rightarrow> place" where
  "below w path = w\<lparr>pl_prefix := pl_prefix w @ path\<rparr>"

text \<open>
  \<^verbatim>\<open>CompilationError\<close>: the reason and the key path. An exception that is none of these
  (a missing key, a failed assertion) would be a defect of the compiler itself.
\<close>

datatype compile_error = Refused string place | Defect

text \<open>\<^verbatim>\<open>_fail_at\<close>\<close>

definition fail_at :: "string \<Rightarrow> place \<Rightarrow> key list \<Rightarrow> compile_error" where
  "fail_at reason w path = Refused reason (below w path)"

text \<open>\<^verbatim>\<open>_FlowSource\<close>\<close>

record flow_source =
  src_instance :: place
  src_definition :: place
  src_steps :: "(string, place) dict"
  src_entries :: "(string, place) dict"

type_synonym flows = "(string, flow) dict"

definition lookupE :: "('k, 'v) dict \<Rightarrow> 'k \<Rightarrow> (compile_error, 'v) result" where
  "lookupE d k = (case get d k of None \<Rightarrow> Inl Defect | Some v \<Rightarrow> Inr v)"

section \<open>Targets of a route\<close>

text \<open>\<^verbatim>\<open>_route_targets\<close>, one definition per kind of route, and \<^verbatim>\<open>_flow_targets\<close>.\<close>

definition match_targets :: "match_routing \<Rightarrow> target list" where
  "match_targets r = mr_default r # map snd (mr_cases r)"

definition unresolved_targets :: "unresolved_routing \<Rightarrow> target list" where
  "unresolved_targets r = ur_default r # map snd (ur_issues r)"

fun transition_targets :: "transition \<Rightarrow> target list" where
  "transition_targets (TTarget t) = [t]"
| "transition_targets (TMatch r) = match_targets r"
| "transition_targets (TRoute es) = map re_target es"

fun review_targets :: "review_route \<Rightarrow> target list" where
  "review_targets (RTarget t) = [t]"
| "review_targets (RIssues r) = unresolved_targets r"
| "review_targets (RRoute es) = map re_target es"

definition flow_targets :: "flow \<Rightarrow> target list" where
  "flow_targets f =
     (case fl_transition f of Some t \<Rightarrow> transition_targets t | None \<Rightarrow> [])
     @ (case fl_on_unresolved f of Some r \<Rightarrow> review_targets r | None \<Rightarrow> [])"

definition target_flows :: "target list \<Rightarrow> string list" where
  "target_flows ts = List.map_filter tg_flow ts"

text \<open>\<^verbatim>\<open>_review_flow_targets\<close>\<close>

definition review_flow_targets :: "flow \<Rightarrow> string list" where
  "review_flow_targets f =
     (case fl_on_unresolved f of None \<Rightarrow> [] | Some r \<Rightarrow> target_flows (review_targets r))"

section \<open>Targets with their places\<close>

type_synonym located = "target \<times> place \<times> key list"

definition target_key :: "target \<Rightarrow> key" where
  "target_key t = Key (if tg_flow t \<noteq> None then ''flow'' else ''outcome'')"

text \<open>\<^verbatim>\<open>_located_targets\<close>\<close>

definition located_plain :: "target \<Rightarrow> place \<Rightarrow> located list" where
  "located_plain t w = [(t, w, [target_key t])]"

definition located_match :: "match_routing \<Rightarrow> place \<Rightarrow> located list" where
  "located_match r w =
     map (\<lambda>(k, t). (t, w, [Key ''cases'', Key k, target_key t])) (mr_cases r)
     @ [(mr_default r, w, [Key ''default'', target_key (mr_default r)])]"

definition located_route :: "conditional_routing \<Rightarrow> place \<Rightarrow> located list" where
  "located_route es w =
     map (\<lambda>(i, e). (re_target e, w, [Key ''route'', Index i, target_key (re_target e)]))
       (enumerate 0 es)"

definition located_issues :: "unresolved_routing \<Rightarrow> place \<Rightarrow> located list" where
  "located_issues r w =
     (ur_default r, w, [Key ''default'', target_key (ur_default r)])
     # map (\<lambda>(i, t). (t, w, [Key (issue_text i), target_key t])) (ur_issues r)"

fun located_transition :: "transition \<Rightarrow> place \<Rightarrow> located list" where
  "located_transition (TTarget t) w = located_plain t w"
| "located_transition (TMatch r) w = located_match r w"
| "located_transition (TRoute es) w = located_route es w"

fun located_review :: "review_route \<Rightarrow> place \<Rightarrow> located list" where
  "located_review (RTarget t) w = located_plain t w"
| "located_review (RIssues r) w = located_issues r w"
| "located_review (RRoute es) w = located_route es w"

text \<open>\<^verbatim>\<open>_review_where\<close> and \<^verbatim>\<open>_flow_located_targets\<close>\<close>

definition review_place :: "flow \<Rightarrow> flow_source \<Rightarrow> place \<Rightarrow> place" where
  "review_place f src w =
     (if fl_on_unresolved_inherited f then below w [Key ''defaults'', Key ''on_unresolved'']
      else below (src_instance src) [Key ''on_unresolved''])"

definition flow_located_targets ::
  "flow \<Rightarrow> flow_source \<Rightarrow> place \<Rightarrow> located list \<times> located list" where
  "flow_located_targets f src w =
     ((case fl_transition f of
         Some t \<Rightarrow> located_transition t (below (src_instance src) [Key ''transition''])
       | None \<Rightarrow> []),
      (case fl_on_unresolved f of
         Some r \<Rightarrow> located_review r (review_place f src w)
       | None \<Rightarrow> []))"

section \<open>Repeats\<close>

text \<open>\<^verbatim>\<open>_pointers\<close>: every pointer of a binding.\<close>

fun binding_pointers :: "binding \<Rightarrow> string list" where
  "binding_pointers (Binding KFields p l h d ms fs) =
     concat (map (\<lambda>(_, b). binding_pointers b) fs)"
| "binding_pointers (Binding KPointer (Some p) l h d ms fs) = [p]"
| "binding_pointers (Binding k p l h d ms fs) = ms"

text \<open>\<^verbatim>\<open>tokens\<close>: the unescaped tokens of a pointer.\<close>

definition tokens :: "string \<Rightarrow> string list" where
  "tokens pointer = map unescape (tl (split_on CHR ''/'' pointer))"

text \<open>
  \<^verbatim>\<open>_repeat_input_keys\<close>; \<^verbatim>\<open>declared\<close> is the declared property names of a callable
  flow's input schema, \<^term>\<open>None\<close> if it is open.
\<close>

definition repeat_input_keys :: "(flow \<Rightarrow> string list option) \<Rightarrow> flow \<Rightarrow> string list option" where
  "repeat_input_keys declared f =
     (if \<not> fl_callable f then Some (map fst (fl_input f))
      else if fl_input_schema_path f = None then None
      else declared f)"

text \<open>A retry input that reads a callable flow although no retry flow could produce it.\<close>

definition reads_callable :: "flows \<Rightarrow> string \<Rightarrow> string \<Rightarrow> bool" where
  "reads_callable flows name pointer =
     (case tokens pointer of
        a # n # _ \<Rightarrow> a = ''flows'' \<and> n \<noteq> name \<and>
          (case get flows n of Some g \<Rightarrow> fl_callable g | None \<Rightarrow> False)
      | _ \<Rightarrow> False)"

text \<open>The \<^verbatim>\<open>if\<close> chain that decides whether a retry flow is valid.\<close>

definition retry_problem :: "flows \<Rightarrow> (string, string) dict \<Rightarrow> string \<Rightarrow> string \<Rightarrow> bool" where
  "retry_problem flows retry_of name retry =
     (case get flows retry of
        None \<Rightarrow> True
      | Some g \<Rightarrow> \<not> fl_callable g \<or> retry = name \<or> get retry_of retry \<noteq> None \<or> fl_repeat g \<noteq> None)"

text \<open>One round of the loop of \<^verbatim>\<open>_validate_repeats\<close>.\<close>

definition validate_repeat ::
  "flows \<Rightarrow> place \<Rightarrow> (flow \<Rightarrow> string list option) \<Rightarrow> (string, string) dict \<Rightarrow> string \<Rightarrow> flow \<Rightarrow>
     (compile_error, (string, string) dict) result" where
  "validate_repeat flows w declared retry_of name f =
     (case fl_repeat f of
        None \<Rightarrow> Inr retry_of
      | Some rp \<Rightarrow>
         let here = below w [Key ''flows'', Key name, Key ''repeat''] in
         if (case repeat_input_keys declared f of
               Some ks \<Rightarrow> \<not> set (map fst (rp_retry_input rp)) \<subseteq> set ks
             | None \<Rightarrow> False)
         then Inl (fail_at ''invalid_repeat'' here [Key ''retry_input''])
         else case rp_retry_flow rp of
             None \<Rightarrow>
               if \<exists>(_, b) \<in> set (rp_retry_input rp). \<exists>p \<in> set (binding_pointers b). reads_callable flows name p
               then Inl (fail_at ''invalid_repeat'' here [Key ''retry_input''])
               else Inr retry_of
           | Some retry \<Rightarrow>
               if retry_problem flows retry_of name retry
               then Inl (fail_at ''invalid_repeat'' here [Key ''retry'', Key ''flow''])
               else Inr (put retry name retry_of))"

fun validate_repeats_from ::
  "flows \<Rightarrow> place \<Rightarrow> (flow \<Rightarrow> string list option) \<Rightarrow> (string, string) dict \<Rightarrow> (string \<times> flow) list \<Rightarrow>
     (compile_error, (string, string) dict) result" where
  "validate_repeats_from flows w declared retry_of [] = Inr retry_of"
| "validate_repeats_from flows w declared retry_of ((name, f) # rest) =
     bindE (validate_repeat flows w declared retry_of name f) (\<lambda>retry_of'.
       validate_repeats_from flows w declared retry_of' rest)"

definition validate_repeats ::
  "flows \<Rightarrow> place \<Rightarrow> (flow \<Rightarrow> string list option) \<Rightarrow> (compile_error, (string, string) dict) result" where
  "validate_repeats flows w declared = validate_repeats_from flows w declared [] flows"

section \<open>Start candidates\<close>

text \<open>\<^verbatim>\<open>_start_paths\<close>\<close>

definition start_paths :: "start_plan \<Rightarrow> (string \<times> key list) list" where
  "start_paths start = (case start of
     StartFlow n \<Rightarrow> [(n, [Key ''start''])]
   | StartRoute es \<Rightarrow> List.map_filter (\<lambda>(i, e).
       map_option (\<lambda>n. (n, [Key ''start'', Key ''route'', Index i, Key ''flow''])) (tg_flow (re_target e)))
       (enumerate 0 es))"

definition start_names :: "start_plan \<Rightarrow> string list" where
  "start_names start = keys (dict_of (map (\<lambda>(n, _). (n, ())) (start_paths start)) [])"

definition is_routed :: "flows \<Rightarrow> string \<Rightarrow> bool" where
  "is_routed flows n = (case get flows n of Some f \<Rightarrow> \<not> fl_callable f | None \<Rightarrow> False)"

definition check_starts :: "flows \<Rightarrow> place \<Rightarrow> start_plan \<Rightarrow> (compile_error, unit) result" where
  "check_starts flows w start =
     (case List.find (\<lambda>(n, _). \<not> is_routed flows n) (start_paths start) of
        Some (_, path) \<Rightarrow> Inl (fail_at ''missing_start'' w path)
      | None \<Rightarrow> Inr ())"

section \<open>Edges\<close>

record edge =
  eg_target :: string
  eg_weight :: nat
  eg_place :: place
  eg_path :: "key list"

text \<open>The routed successors of every flow, each once, in the order they are authored.\<close>

definition routed_targets :: "flow \<Rightarrow> string list" where
  "routed_targets f = keys (dict_of (map (\<lambda>n. (n, ())) (target_flows (flow_targets f))) [])"

text \<open>The review targets may not complete the run.\<close>

definition check_review :: "located list \<Rightarrow> (compile_error, unit) result" where
  "check_review review =
     (case List.find (\<lambda>(t, _). tg_outcome t = Some OutCompleted) review of
        Some (_, w, path) \<Rightarrow> Inl (fail_at ''review_completes_run'' w path)
      | None \<Rightarrow> Inr ())"

fun route_edges :: "flows \<Rightarrow> located list \<Rightarrow> (compile_error, edge list) result" where
  "route_edges flows [] = Inr []"
| "route_edges flows ((t, w, path) # rest) =
     (case tg_flow t of
        None \<Rightarrow> route_edges flows rest
      | Some n \<Rightarrow>
         (case get flows n of
            None \<Rightarrow> Inl (fail_at ''missing_flow'' w path)
          | Some g \<Rightarrow>
              if fl_callable g then Inl (fail_at ''invalid_routed_flow'' w path)
              else mapR (\<lambda>es. \<lparr>eg_target = n, eg_weight = 0, eg_place = w, eg_path = path\<rparr> # es)
                (route_edges flows rest)))"

definition allowlist_edge ::
  "flows \<Rightarrow> place \<Rightarrow> nat \<times> string \<Rightarrow> (compile_error, edge) result" where
  "allowlist_edge flows w p =
     (case get flows (snd p) of
        Some g \<Rightarrow>
          if fl_callable g
          then Inr \<lparr>eg_target = snd p, eg_weight = 1, eg_place = w,
                 eg_path = [Key ''flows'', Index (fst p)]\<rparr>
          else Inl (fail_at ''invalid_callable_flow'' w [Key ''flows'', Index (fst p)])
      | None \<Rightarrow> Inl (fail_at ''invalid_callable_flow'' w [Key ''flows'', Index (fst p)]))"

definition step_edges :: "flows \<Rightarrow> flow_source \<Rightarrow> step \<Rightarrow> (compile_error, edge list) result" where
  "step_edges flows src s =
     (case st_body s of
        CollectionStep cs \<Rightarrow>
          bindE (lookupE (src_steps src) (st_name s)) (\<lambda>w.
            mapE (allowlist_edge flows w) (enumerate 0 (cs_flows cs)))
      | _ \<Rightarrow> Inr [])"

definition retry_edges :: "(string, string) dict \<Rightarrow> flow_source \<Rightarrow> string \<Rightarrow> edge list" where
  "retry_edges retry_of src name =
     map (\<lambda>(retry, _). \<lparr>eg_target = retry, eg_weight = 0, eg_place = src_instance src,
         eg_path = [Key ''repeat'', Key ''retry'', Key ''flow'']\<rparr>)
       (filter (\<lambda>(_, owner). owner = name) retry_of)"

text \<open>\<^verbatim>\<open>setdefault\<close> by target and weight: the first edge of each kind stays.\<close>

definition add_edge :: "(string \<times> nat, edge) dict \<Rightarrow> edge \<Rightarrow> (string \<times> nat, edge) dict" where
  "add_edge d e = (let k = (eg_target e, eg_weight e) in
     if get d k = None then put k e d else d)"

definition unique_edges :: "edge list \<Rightarrow> edge list" where
  "unique_edges es = map snd (foldl add_edge [] es)"

definition flow_edges ::
  "flows \<Rightarrow> (string, string) dict \<Rightarrow> place \<Rightarrow> flow_source \<Rightarrow> string \<times> flow \<Rightarrow>
     (compile_error, edge list) result" where
  "flow_edges flows retry_of w src p = (case p of (name, f) \<Rightarrow>
     let (transition, review) = (if fl_callable f then ([], []) else flow_located_targets f src w) in
     bindE (check_review review) (\<lambda>_.
      bindE (route_edges flows (transition @ review)) (\<lambda>routes.
       bindE (mapE (step_edges flows src) (fl_steps f)) (\<lambda>calls.
        Inr (unique_edges (routes @ concat calls @ retry_edges retry_of src name))))))"

type_synonym graph = "(string, edge list) dict"

definition build_graph ::
  "flows \<Rightarrow> (string, string) dict \<Rightarrow> (string, flow_source) dict \<Rightarrow> place \<Rightarrow>
     (compile_error, graph) result" where
  "build_graph flows retry_of sources w =
     mapE (\<lambda>p. bindE (lookupE sources (fst p)) (\<lambda>src.
       mapR (\<lambda>es. (fst p, es)) (flow_edges flows retry_of w src p))) flows"

end
