(* ===== verification/RunPath.thy ===== *)
theory RunPath imports RunProps Routes begin

text \<open>
  The transitions of a run are a path through its plan: each starts where the previous one
  led, no flow is left twice, exactly one of flow and outcome is selected, an unresolved
  flow never ends in completion, and a run that did not fail ends with the outcome it
  reports. The attempts of a routed flow stay within its repeat.
\<close>

section \<open>Selected boundaries\<close>

text \<open>Only a declared route of the flow leads to another flow.\<close>

definition declared_target :: "flow \<Rightarrow> target \<Rightarrow> bool" where
  "declared_target f t \<longleftrightarrow> (\<forall>n. tg_flow t = Some n \<longrightarrow> n \<in> set (target_flows (flow_targets f)))"

definition boundary_ok :: "flow \<Rightarrow> target \<Rightarrow> transition_record \<Rightarrow> bool" where
  "boundary_ok f t tr \<longleftrightarrow> tr_source tr = fl_name f \<and> tr_flow tr = tg_flow t \<and>
     tr_outcome tr = tg_outcome t \<and> (tg_flow t = None) = (tg_outcome t \<noteq> None) \<and>
     (tr_reason tr = NeedsReview \<longrightarrow> tg_outcome t \<noteq> Some OutCompleted) \<and> declared_target f t"

text \<open>Partial correctness with a trivial exceptional end.\<close>

abbreviation yields :: "('s, 'a) eff \<Rightarrow> ('a \<Rightarrow> bool) \<Rightarrow> bool" where
  "yields m Q \<equiv> valid (\<lambda>_. True) m (\<lambda>a _. Q a) (\<lambda>_ _. True)"

lemma validD: "valid P m Q E \<Longrightarrow> P s \<Longrightarrow> case m s of (Inr a, s') \<Rightarrow> Q a s' | (Inl e, s') \<Rightarrow> E e s'"
  by (simp add: valid_def)

lemma valid_const: "valid (\<lambda>_. P) m (\<lambda>_ _. P) (\<lambda>_ _. P)"
  by (simp add: valid_def split: prod.split sum.split)

lemma valid_vacuous: "(\<And>s. \<not> P s) \<Longrightarrow> valid P m Q E"
  by (simp add: valid_def)

lemma yields_any: "yields m (\<lambda>_. True)"
  by (simp add: valid_def split: prod.split sum.split)

lemma yields_bindM: "yields m Q' \<Longrightarrow> (\<And>a. Q' a \<Longrightarrow> yields (f a) Q) \<Longrightarrow> yields (bindM m f) Q"
  unfolding valid_def bindM_def by (fastforce split: prod.splits sum.splits)

lemma yields_bind_any: "(\<And>a. yields (f a) Q) \<Longrightarrow> yields (bindM m f) Q"
  by (rule yields_bindM [OF yields_any])

lemma yields_thenM: "yields n Q \<Longrightarrow> yields (thenM m n) Q"
  unfolding thenM_def by (rule yields_bind_any)

lemma yields_simple: "Q a \<Longrightarrow> yields (ret a) Q" "yields (failM c) Q" "yields (throw x) Q"
  by (simp_all add: valid_def ret_def failM_def throw_def raise_code_def)

lemma yields_observe: "yields m Q \<Longrightarrow> yields (observe_at lift fl st ats m) Q"
  unfolding observe_at_def thenM_def
proof (rule yields_bind_any, rule yields_bindM)
  assume m: "yields m Q"
  show "yields (handleM m (\<lambda>e. bindM (lift (bindM (set_outcome (fst (observed_error e))
      (Some (snd (observed_error e)))) (\<lambda>_. close_scope))) (\<lambda>_. throw e))) Q"
    by (rule valid_handleM [OF m]) (intro yields_bind_any yields_simple)
qed (auto intro: yields_simple yields_bind_any)

lemma declaredI: "t \<in> set (flow_targets f) \<Longrightarrow> declared_target f t"
  by (force simp: declared_target_def target_flows_def List.map_filter_def)

lemma yields_weaken: "yields m Q \<Longrightarrow> (\<And>a. Q a \<Longrightarrow> Q' a) \<Longrightarrow> yields m Q'"
  by (auto simp: valid_def split: prod.splits sum.splits)

lemma select_from_entry: "yields (select_from env l c i es) (\<lambda>(t, _). t \<in> re_target ` set es)"
proof (induction env l c i es rule: select_from.induct)
  case (1 env l c i)
  show ?case by (simp add: yields_simple)
next
  case (2 env l c i en es)
  show ?case
  proof (cases "re_when en")
    case None
    then show ?thesis by (simp add: yields_simple)
  next
    case (Some w)
    have "yields (if b then ret (re_target en, i) else select_from env l c (Suc i) es)
        (\<lambda>(t, _). t \<in> re_target ` set (en # es))" for b
    proof (cases b)
      case False
      with 2 [OF Some False] show ?thesis by (auto elim!: yields_weaken)
    qed (simp add: yields_simple)
    with Some show ?thesis by (simp only: select_from.simps option.case) (rule yields_bind_any)
  qed
qed

lemma get_dict_of: "get (dict_of ps d) k = Some v \<Longrightarrow> v \<in> snd ` set ps \<or> get d k = Some v"
  by (induction ps d rule: dict_of.induct) (auto split: if_splits)

lemma select_unresolved_target: "fst (select_unresolved r issues) \<in> set (unresolved_targets r)"
proof -
  let ?of = "\<lambda>i. case get (dict_of (ur_issues r) []) i of Some t \<Rightarrow> t | None \<Rightarrow> ur_default r"
  have each: "?of i \<in> set (unresolved_targets r)" for i
    using get_dict_of [of "ur_issues r" "[]" i] by (auto simp: unresolved_targets_def split: option.split)
  show ?thesis
  proof (cases "remdups (map ?of issues)")
    case (Cons t ts)
    then have "t \<in> ?of ` set issues" by (metis list.set_intros(1) set_map set_remdups)
    with each Cons show ?thesis
      by (auto simp: select_unresolved_def unresolved_targets_def split: list.split)
  qed (simp add: select_unresolved_def unresolved_targets_def)
qed

lemma review_target_outcome:
  "yields (review_target env f issues context) (\<lambda>(t, _). tg_outcome t \<noteq> Some OutCompleted \<and> declared_target f t)"
  unfolding review_target_def
proof (rule yields_bindM [where Q' = "\<lambda>(t, _). declared_target f t"])
  have in_flow: "t \<in> set (flow_targets f)" if "fl_on_unresolved f = Some r" "t \<in> set (review_targets r)" for t r
    using that by (simp add: flow_targets_def)
  show "yields (case fl_on_unresolved f of
         None \<Rightarrow> ret (\<lparr>tg_flow = None, tg_outcome = Some OutNeedsReview\<rparr>, None, None)
       | Some (RIssues r) \<Rightarrow> ret (let (t, i) = select_unresolved r issues in (t, None, map_option issue_text i))
       | Some (RRoute route) \<Rightarrow>
           bindM (select_route env route ''on_unresolved.route'' context) (\<lambda>(t, i). ret (t, Some i, None))
       | Some (RTarget t) \<Rightarrow> ret (t, None, None)) (\<lambda>(t, _). declared_target f t)"
  proof (cases "fl_on_unresolved f")
    case None
    then show ?thesis by (simp add: yields_simple declared_target_def)
  next
    case (Some r)
    show ?thesis
    proof (cases r)
      case (RTarget t)
      with in_flow [OF Some, of t] Some show ?thesis by (simp add: yields_simple declaredI)
    next
      case (RIssues u)
      with in_flow [OF Some, of "fst (select_unresolved u issues)"] Some select_unresolved_target [of u issues]
      show ?thesis by (simp add: yields_simple declaredI split_def Let_def)
    next
      case (RRoute es)
      have "yields (bindM (select_route env es ''on_unresolved.route'' context) (\<lambda>(t, i). ret (t, Some i, None :: string option)))
          (\<lambda>(t, _). declared_target f t)"
        unfolding select_route_def
        by (rule yields_bindM [OF select_from_entry])
          (use in_flow [OF Some] RRoute in \<open>auto intro!: yields_simple declaredI split: prod.split\<close>)
      with Some RRoute show ?thesis by simp
    qed
  qed
qed (auto intro: yields_simple split: prod.split)

lemma completed_target_declared:
  "yields (completed_target env f context) (\<lambda>(t, _). declared_target f t)"
proof (cases "fl_transition f")
  case None
  then show ?thesis by (simp add: completed_target_def yields_simple)
next
  case (Some r)
  have in_flow: "declared_target f t" if "t \<in> set (transition_targets r)" for t
    by (rule declaredI) (use that Some in \<open>simp add: flow_targets_def\<close>)
  show ?thesis
  proof (cases r)
    case (TTarget t)
    with Some in_flow [of t] show ?thesis by (simp add: completed_target_def yields_simple)
  next
    case (TRoute es)
    have "yields (bindM (select_route env es ''transition.route'' context) (\<lambda>(t, i).
            ret (t, KindRoute, Some i, None :: string option))) (\<lambda>(t, _). declared_target f t)"
      unfolding select_route_def
      by (rule yields_bindM [OF select_from_entry])
        (use in_flow TRoute in \<open>auto intro!: yields_simple split: prod.split\<close>)
    with Some TRoute show ?thesis by (simp add: completed_target_def)
  next
    case (TMatch m)
    have "declared_target f (mr_default m)" "get (dict_of (mr_cases m) []) k = Some t \<Longrightarrow> declared_target f t" for k t
      using in_flow get_dict_of [of "mr_cases m" "[]" k t] TMatch by (auto simp: match_targets_def)
    with Some TMatch show ?thesis
      by (auto simp: completed_target_def intro!: yields_bind_any yields_simple split: json.split option.split)
  qed
qed

lemma select_target_ok:
  "yields (select_target env f r issues context) (\<lambda>(t, tr). boundary_ok f t tr)"
  unfolding select_target_def
proof (rule yields_bindM [where Q' = "\<lambda>(t, _, _, _). (fr_status r = NeedsReview \<longrightarrow>
    tg_outcome t \<noteq> Some OutCompleted) \<and> declared_target f t"])
  show "yields (if fr_status r = NeedsReview
       then bindM (review_target env f issues context) (\<lambda>(t, i, c). ret (t, KindReview, i, c))
       else completed_target env f context)
     (\<lambda>(t, _, _, _). (fr_status r = NeedsReview \<longrightarrow> tg_outcome t \<noteq> Some OutCompleted) \<and> declared_target f t)"
  proof (cases "fr_status r = NeedsReview")
    case True
    have "yields (bindM (review_target env f issues context) (\<lambda>(t, i, c). ret (t, KindReview, i, c)))
        (\<lambda>(t, _, _, _). tg_outcome t \<noteq> Some OutCompleted \<and> declared_target f t)"
      by (rule yields_bindM [OF review_target_outcome]) (auto intro: yields_simple)
    with True show ?thesis by simp
  next
    case False
    with completed_target_declared [of env f "context"] show ?thesis by (auto elim!: yields_weaken)
  qed
qed (auto intro!: yields_simple yields_thenM simp: boundary_ok_def split: prod.split)

definition routed_ok :: "flow \<Rightarrow> routed \<Rightarrow> bool" where
  "routed_ok f r \<longleftrightarrow> (case rt_target r of
     Some (t, tr) \<Rightarrow> boundary_ok f t tr
   | None \<Rightarrow> fr_status (rt_record r) = Failed \<or> rt_failure r \<noteq> None)"

lemma routed_boundary_ok:
  "yields (routed_boundary env f e issues failure) (routed_ok f)"
  unfolding routed_boundary_def
  by (intro yields_thenM yields_bind_any)
    (auto intro!: yields_simple yields_bindM [OF select_target_ok] simp: routed_ok_def split: option.split)

lemma run_routed_boundary:
  "yields (run_routed env f e) (routed_ok f)"
  (is "yields _ ?Q")
proof -
  let ?A = "\<lambda>x. case x of Inl _ \<Rightarrow> True | Inr r \<Rightarrow> ?Q r"
  have boundary: "yields (bindM (routed_boundary env f e issues failure) (\<lambda>r. ret (Inr r))) ?A" for issues failure
    by (rule yields_bindM [OF routed_boundary_ok]) (auto intro: yields_simple)
  have branch: "yields (case fl_repeat f of
        None \<Rightarrow> thenM (set_record (fl_name f) rec)
          (bindM (routed_boundary env f e issues None) (\<lambda>r. ret (Inr r)))
      | Some rp \<Rightarrow>
         bindM (sharedM (repeat_attempt env (execute_flow env 0) f rp rec
             (attempts @ [rec]) n issues e None)) (\<lambda>d.
           case (rd_stop d, rd_inputs d) of
             (None, Some inputs') \<Rightarrow> ret (Inl (inputs', attempts @ [rec]))
           | (None, None) \<Rightarrow> throw OtherErr
           | (Some _, _) \<Rightarrow> bindM (routed_boundary env f e (rd_issues d) (rd_failure d))
               (\<lambda>r. ret (Inr r)))) ?A" for n attempts rec issues
  proof (cases "fl_repeat f")
    case None
    show ?thesis unfolding None option.case by (rule yields_thenM [OF boundary])
  next
    case (Some rp)
    show ?thesis
      unfolding Some option.case
      by (rule yields_bind_any) (auto split: option.split intro: yields_simple boundary)
  qed
  have attempt: "yields (routed_attempt env f e n attempts inputs) ?A" for n attempts inputs
    unfolding routed_attempt_def
    by (rule yields_thenM, rule yields_bind_any, rule yields_observe, rule yields_bind_any, unfold prod.case_eq_if,
        rule yields_thenM, rule branch [unfolded prod.case_eq_if])
  have "yields (routed_attempts env f e ns attempts inputs) ?Q" for ns attempts inputs
  proof (induction ns arbitrary: attempts inputs)
    case Nil
    show ?case by (simp add: yields_simple)
  next
    case (Cons n ns)
    show ?case
      unfolding routed_attempts.simps
      by (rule yields_bindM [OF attempt]) (auto intro: Cons.IH yields_simple split: sum.splits prod.split)
  qed
  then show ?thesis unfolding run_routed_def by (intro yields_thenM yields_bind_any)
qed

section \<open>Paths\<close>

text \<open>Where a list of transitions from a start leads: the next flow, or the end.\<close>

fun path :: "string \<Rightarrow> transition_record list \<Rightarrow> string option \<Rightarrow> bool" where
  "path start [] current \<longleftrightarrow> current = Some start"
| "path start (t # ts) current \<longleftrightarrow> tr_source t = start \<and>
     (case tr_flow t of
        Some n \<Rightarrow> tr_outcome t = None \<and> path n ts current
      | None \<Rightarrow> tr_outcome t \<noteq> None \<and> ts = [] \<and> current = None)"

lemma path_snoc:
  "path start ts (Some current) \<Longrightarrow> tr_source t = current \<Longrightarrow> (tr_flow t = None) = (tr_outcome t \<noteq> None) \<Longrightarrow>
     path start (ts @ [t]) (tr_flow t)"
  by (induction start ts "Some current" rule: path.induct) (auto split: option.splits)

text \<open>
  A transition the plan declares: it leaves a routed flow of the plan along one of its routes,
  and a flow that needed review does not complete.
\<close>

definition planned :: "workflow \<Rightarrow> transition_record \<Rightarrow> bool" where
  "planned w t \<longleftrightarrow> (tr_reason t = NeedsReview \<longrightarrow> tr_outcome t \<noteq> Some OutCompleted) \<and>
     (\<exists>f. workflow_flow w (tr_source t) = Some f \<and> \<not> fl_callable f \<and>
       (\<forall>n. tr_flow t = Some n \<longrightarrow> n \<in> set (target_flows (flow_targets f))))"

text \<open>What the loop maintains, with the flows it has left.\<close>

definition route_inv :: "workflow \<Rightarrow> string \<Rightarrow> string list \<Rightarrow> string option \<Rightarrow> run_locals \<Rightarrow> bool" where
  "route_inv w start visited current l \<longleftrightarrow>
     path start (ru_transitions l) current \<and> map tr_source (ru_transitions l) = visited \<and>
     distinct visited \<and> set visited \<subseteq> fl_name ` set (wf_flows w) \<and>
     list_all (planned w) (ru_transitions l) \<and>
     (case current of
        Some _ \<Rightarrow> ru_status l = Completed
      | None \<Rightarrow> ru_transitions l \<noteq> [] \<and>
          map_option terminal_status (tr_outcome (last (ru_transitions l))) = Some (ru_status l))"

text \<open>What holds of the transitions of a finished run, failed or not.\<close>

definition route_done :: "workflow \<Rightarrow> string \<Rightarrow> transition_record list \<Rightarrow> status \<Rightarrow> bool" where
  "route_done w start ts st \<longleftrightarrow>
     (\<exists>current. path start ts current \<and>
        (st \<noteq> Failed \<longrightarrow> current = None \<and> ts \<noteq> [] \<and>
           map_option terminal_status (tr_outcome (last ts)) = Some st)) \<and>
     distinct (map tr_source ts) \<and> set (map tr_source ts) \<subseteq> fl_name ` set (wf_flows w) \<and>
     list_all (planned w) ts"

definition route_part :: "workflow \<Rightarrow> string \<Rightarrow> run_locals \<Rightarrow> bool" where
  "route_part w start l \<longleftrightarrow> route_done w start (ru_transitions l) Failed"

lemma route_inv_part: "route_inv w start visited current l \<Longrightarrow> route_part w start l"
  by (auto simp: route_inv_def route_part_def route_done_def)

lemma enter_flow_visited:
  "yields (enter_flow env visited current) (\<lambda>f. workflow_flow (ev_plan env) current = Some f \<and>
     fl_name f = current \<and> f \<in> set (wf_flows (ev_plan env)) \<and> current \<notin> set visited)"
  by (rule valid_conseq [OF enter_flow_found]) (auto dest: workflow_flow_Some)

lemma routed_iteration_route:
  "valid (\<lambda>p. route_inv (ev_plan env) start visited (Some current) (snd p))
     (routed_iteration env e visited current)
     (\<lambda>n p. (if ru_status (snd p) = Failed then n = None \<and> route_part (ev_plan env) start (snd p)
             else route_inv (ev_plan env) start (visited @ [current]) n (snd p)))
     (\<lambda>_ p. route_part (ev_plan env) start (snd p))"
proof -
  let ?w = "ev_plan env"
  let ?I = "\<lambda>p :: 'a run_state \<times> run_locals. route_inv ?w start visited (Some current) (snd p)"
  let ?Q = "\<lambda>n p :: 'a run_state \<times> run_locals. if ru_status (snd p) = Failed
      then n = None \<and> route_part ?w start (snd p)
      else route_inv ?w start (visited @ [current]) n (snd p)"
  let ?E = "\<lambda>_ p :: 'a run_state \<times> run_locals. route_part ?w start (snd p)"
  have lift: "valid ?I (liftM m) (\<lambda>a p. ?I p \<and> Q a) ?E" if "yields m Q" for m :: "('a, 'x) run" and Q
  proof (rule valid_liftM)
    fix l
    let ?inv = "route_inv ?w start visited (Some current) l"
    show "valid (\<lambda>s. route_inv ?w start visited (Some current) (snd (s, l))) m
        (\<lambda>a s. route_inv ?w start visited (Some current) (snd (s, l)) \<and> Q a)
        (\<lambda>e s. route_part ?w start (snd (s, l)))"
      by (rule valid_conseq [OF valid_conj [OF that valid_const [of ?inv]]]) (auto dest: route_inv_part)
  qed
  have stop: "valid ?I (failM c) ?Q ?E" "valid ?I (throw x) ?Q ?E" for c x
    by (auto simp: valid_def failM_def throw_def raise_code_def dest: route_inv_part)
  have failed: "valid ?I (thenM (run_locally (\<lambda>l. l\<lparr>ru_status := Failed, ru_error := x\<rparr>)) (ret None)) ?Q ?E" for x
    by (auto simp: valid_def thenM_def bindM_def run_locally_def modM_def ret_def route_inv_def
        route_part_def route_done_def)
  have go: "valid (\<lambda>p. ?I p \<and> (workflow_flow ?w current = Some f \<and> fl_name f = current \<and>
       f \<in> set (wf_flows ?w) \<and> current \<notin> set visited) \<and> \<not> fl_callable f \<and> boundary_ok f t tr)
      (thenM (run_locally (\<lambda>l. l\<lparr>ru_transitions := ru_transitions l @ [tr],
             ru_status := (case tg_outcome t of
                Some oc \<Rightarrow> terminal_status oc | None \<Rightarrow> ru_status l)\<rparr>))
           (ret (tg_flow t))) ?Q ?E" for f t tr
  proof (rule validI)
    fix p :: "'a run_state \<times> run_locals"
    assume p: "?I p \<and> (workflow_flow ?w current = Some f \<and> fl_name f = current \<and>
       f \<in> set (wf_flows ?w) \<and> current \<notin> set visited) \<and> \<not> fl_callable f \<and> boundary_ok f t tr"
    define l' where "l' = (snd p)\<lparr>ru_transitions := ru_transitions (snd p) @ [tr],
       ru_status := (case tg_outcome t of Some oc \<Rightarrow> terminal_status oc | None \<Rightarrow> ru_status (snd p))\<rparr>"
    have terminal: "terminal_status x \<noteq> Failed" for x by (cases x) simp_all
    have "path start (ru_transitions l') (tg_flow t)"
      using p path_snoc [of start "ru_transitions (snd p)" current tr]
      by (auto simp: l'_def route_inv_def boundary_ok_def)
    moreover have "ru_status l' \<noteq> Failed"
      using p terminal by (auto simp: l'_def route_inv_def split: option.split)
    ultimately have "route_inv ?w start (visited @ [current]) (tg_flow t) l'" "ru_status l' \<noteq> Failed"
      using p by (auto simp: route_inv_def boundary_ok_def declared_target_def planned_def l'_def split: option.splits)
    then show "case thenM (run_locally (\<lambda>l. l\<lparr>ru_transitions := ru_transitions l @ [tr],
             ru_status := (case tg_outcome t of
                Some oc \<Rightarrow> terminal_status oc | None \<Rightarrow> ru_status l)\<rparr>))
           (ret (tg_flow t)) p of (Inr a, s') \<Rightarrow> ?Q a s' | (Inl e, s') \<Rightarrow> ?E e s'"
      by (simp add: thenM_def bindM_def run_locally_def modM_def ret_def l'_def)
  qed
  show ?thesis
    unfolding routed_iteration_def
  proof (rule valid_bindM [OF lift [OF enter_flow_visited]])
    fix f
    let ?F = "workflow_flow ?w current = Some f \<and> fl_name f = current \<and> f \<in> set (wf_flows ?w) \<and> current \<notin> set visited"
    show "valid (\<lambda>p. ?I p \<and> ?F) (if fl_callable f then failM INVALID_CONFIGURATION
      else bindM (liftM (run_routed env f e)) (\<lambda>r.
       if fr_status (rt_record r) = Failed \<or> rt_failure r \<noteq> None
       then thenM (run_locally (\<lambda>l. l\<lparr>ru_status := Failed, ru_error :=
           (case rt_failure r of Some x \<Rightarrow> Some x | None \<Rightarrow> fr_error (rt_record r))\<rparr>)) (ret None)
       else case rt_target r of
         None \<Rightarrow> throw OtherErr
       | Some (t, tr) \<Rightarrow>
           thenM (run_locally (\<lambda>l. l\<lparr>ru_transitions := ru_transitions l @ [tr],
             ru_status := (case tg_outcome t of
                Some oc \<Rightarrow> terminal_status oc | None \<Rightarrow> ru_status l)\<rparr>))
           (ret (tg_flow t)))) ?Q ?E" (is "valid _ ?body _ _")
    proof (cases ?F)
      case True
      have "valid ?I ?body ?Q ?E"
      proof (rule valid_if [OF stop(1)], rule valid_bindM [OF lift [OF run_routed_boundary]])
        fix r
        assume routed: "\<not> fl_callable f"
        show "valid (\<lambda>p. ?I p \<and> routed_ok f r)
           (if fr_status (rt_record r) = Failed \<or> rt_failure r \<noteq> None
       then thenM (run_locally (\<lambda>l. l\<lparr>ru_status := Failed, ru_error :=
           (case rt_failure r of Some x \<Rightarrow> Some x | None \<Rightarrow> fr_error (rt_record r))\<rparr>)) (ret None)
       else case rt_target r of
         None \<Rightarrow> throw OtherErr
       | Some (t, tr) \<Rightarrow>
           thenM (run_locally (\<lambda>l. l\<lparr>ru_transitions := ru_transitions l @ [tr],
             ru_status := (case tg_outcome t of
                Some oc \<Rightarrow> terminal_status oc | None \<Rightarrow> ru_status l)\<rparr>))
           (ret (tg_flow t))) ?Q ?E"
        proof (rule valid_if)
          show "valid (\<lambda>p. ?I p \<and> routed_ok f r)
           (thenM (run_locally (\<lambda>l. l\<lparr>ru_status := Failed, ru_error :=
             (case rt_failure r of Some x \<Rightarrow> Some x | None \<Rightarrow> fr_error (rt_record r))\<rparr>)) (ret None)) ?Q ?E"
            by (rule valid_pre [OF failed]) simp
          show "valid (\<lambda>p. ?I p \<and> routed_ok f r)
           (case rt_target r of
             None \<Rightarrow> throw OtherErr
           | Some (t, tr) \<Rightarrow>
               thenM (run_locally (\<lambda>l. l\<lparr>ru_transitions := ru_transitions l @ [tr],
                 ru_status := (case tg_outcome t of
                    Some oc \<Rightarrow> terminal_status oc | None \<Rightarrow> ru_status l)\<rparr>))
               (ret (tg_flow t))) ?Q ?E"
          proof (cases "rt_target r")
            case None
            then show ?thesis by (simp only: option.case) (rule valid_pre [OF stop(2)], simp)
          next
            case (Some x)
            obtain t tr where x: "x = (t, tr)" by fastforce
            show ?thesis
              unfolding Some x option.case prod.case
              by (rule valid_pre [OF go [of f]]) (use True routed in \<open>simp add: routed_ok_def Some x\<close>)
          qed
        qed
      qed
      then show ?thesis by (rule valid_pre) simp
    next
      case False
      then show ?thesis by (intro valid_vacuous) blast
    qed
  qed
qed

lemma run_loop_route:
  "valid (\<lambda>p. route_inv (ev_plan env) start visited current (snd p))
     (run_loop env e visited current)
     (\<lambda>_ p. route_done (ev_plan env) start (ru_transitions (snd p)) (ru_status (snd p)))
     (\<lambda>_ p. route_part (ev_plan env) start (snd p))"
proof (induction "length (wf_flows (ev_plan env)) - length visited" arbitrary: visited current
    rule: less_induct)
  case less
  let ?w = "ev_plan env"
  show ?case
  proof (cases current)
    case None
    then show ?thesis
      by (auto simp: run_loop.simps valid_def ret_def route_inv_def route_done_def)
  next
    case (Some c)
    have "valid (\<lambda>p. if ru_status (snd p) = Failed then n = None \<and> route_part ?w start (snd p)
             else route_inv ?w start (visited @ [c]) n (snd p))
        (if length (wf_flows ?w) \<le> length visited then ret () else run_loop env e (visited @ [c]) n)
        (\<lambda>_ p. route_done ?w start (ru_transitions (snd p)) (ru_status (snd p)))
        (\<lambda>_ p. route_part ?w start (snd p))" for n
    proof (cases "length (wf_flows ?w) \<le> length visited")
      case True
      have "length (visited @ [c]) \<le> length (wf_flows ?w)" if "route_inv ?w start (visited @ [c]) n l" for l
      proof -
        from that have "distinct (visited @ [c])" "set (visited @ [c]) \<subseteq> set (map fl_name (wf_flows ?w))"
          by (auto simp: route_inv_def)
        then show ?thesis by (metis card_length card_mono distinct_card le_trans length_map List.finite_set)
      qed
      with True have "\<not> route_inv ?w start (visited @ [c]) n l" for l by fastforce
      with True show ?thesis by (auto simp: valid_def ret_def route_part_def)
    next
      case False
      have "valid (\<lambda>p. route_inv ?w start (visited @ [c]) n (snd p)) (run_loop env e (visited @ [c]) n)
        (\<lambda>_ p. route_done ?w start (ru_transitions (snd p)) (ru_status (snd p)))
        (\<lambda>_ p. route_part ?w start (snd p))"
        by (rule less) (use False in simp)
      moreover have "valid (\<lambda>p. ru_status (snd p) = Failed \<and> n = None \<and> route_part ?w start (snd p))
        (run_loop env e (visited @ [c]) n)
        (\<lambda>_ p. route_done ?w start (ru_transitions (snd p)) (ru_status (snd p)))
        (\<lambda>_ p. route_part ?w start (snd p))"
        by (cases n) (auto simp: valid_def run_loop.simps ret_def route_part_def)
      ultimately show ?thesis using False unfolding valid_def by (auto split: if_splits)
    qed
    then show ?thesis
      unfolding Some run_loop.simps by (rule valid_bindM [OF routed_iteration_route])
  qed
qed

text \<open>The transitions of the result of a run.\<close>

definition result_route :: "workflow \<Rightarrow> run_result \<Rightarrow> bool" where
  "result_route w r \<longleftrightarrow> (case rr_start r of
     None \<Rightarrow> rr_transitions r = [] \<and> rr_status r = Failed
   | Some s \<Rightarrow> sa_flow s \<in> set (start_names (wf_start w)) \<and>
       route_done w (sa_flow s) (rr_transitions r) (rr_status r))"

definition locals_route :: "workflow \<Rightarrow> run_locals \<Rightarrow> bool" where
  "locals_route w l \<longleftrightarrow> (case ru_start l of
     None \<Rightarrow> ru_transitions l = []
   | Some s \<Rightarrow> sa_flow s \<in> set (start_names (wf_start w)) \<and> route_part w (sa_flow s) l)"

definition locals_done :: "workflow \<Rightarrow> run_locals \<Rightarrow> bool" where
  "locals_done w l \<longleftrightarrow> (case ru_start l of
     None \<Rightarrow> ru_transitions l = [] \<and> ru_status l = Failed
   | Some s \<Rightarrow> sa_flow s \<in> set (start_names (wf_start w)) \<and>
       route_done w (sa_flow s) (ru_transitions l) (ru_status l))"

lemma locals_done_route: "locals_done w l \<Longrightarrow> locals_route w l"
  by (auto simp: locals_done_def locals_route_def route_part_def route_done_def split: option.splits)

text \<open>The output, the final deadline check and the failure handler keep the path.\<close>

lemma valid_locals:
  "valid (\<lambda>p. I (snd p)) (liftM m) (\<lambda>_ p. I (snd p)) (\<lambda>_ p. I (snd p))"
  by (rule valid_liftM) (simp add: valid_const)

lemma start_names_paths: "set (start_names start) = fst ` set (start_paths start)"
proof -
  have "set (keys (dict_of ps d)) = fst ` set ps \<union> set (keys d)" for ps :: "(string \<times> unit) list" and d
    by (induction ps d rule: dict_of.induct) (auto simp: keys_put [unfolded set_map])
  from this [of "map (\<lambda>(n, _). (n, ())) (start_paths start)" "[]"] show ?thesis
    by (simp add: start_names_def image_image split_def)
qed

lemma select_start_declared:
  "yields (select_start env e) (\<lambda>st. sa_flow st \<in> set (start_names (wf_start (ev_plan env))))"
  unfolding select_start_def
proof (rule yields_bindM)
  let ?P = "\<lambda>st. sa_flow st \<in> set (start_names (wf_start (ev_plan env)))"
  show "yields (case wf_start (ev_plan env) of
         StartFlow n \<Rightarrow> ret \<lparr>sa_flow = n, sa_kind = KindDirect, sa_index = None\<rparr>
       | StartRoute route \<Rightarrow>
           bindM (select_route env route ''start.route''
               (JObj [(''payload'', en_payload e), (''metadata'', JObj (en_metadata e))])) (\<lambda>(t, i).
             case tg_flow t of
               None \<Rightarrow> failM INVALID_CONFIGURATION
             | Some n \<Rightarrow> ret \<lparr>sa_flow = n, sa_kind = KindRoute, sa_index = Some i\<rparr>)) ?P"
  proof (cases "wf_start (ev_plan env)")
    case (StartFlow n)
    then show ?thesis by (simp add: yields_simple start_names_paths start_paths_def)
  next
    case (StartRoute es)
    have start: "n \<in> set (start_names (StartRoute es))" if "en \<in> set es" "tg_flow (re_target en) = Some n" for en n
    proof -
      from that(1) obtain i where "i < length es" "en = es ! i" by (auto simp: in_set_conv_nth)
      then have "(i, en) \<in> set (enumerate 0 es)" by (auto simp: in_set_enumerate_eq)
      with that(2) show ?thesis
        unfolding start_names_paths start_paths_def start_plan.case List.map_filter_def by force
    qed
    have "yields (bindM (select_route env es ''start.route''
               (JObj [(''payload'', en_payload e), (''metadata'', JObj (en_metadata e))])) (\<lambda>(t, i).
             case tg_flow t of
               None \<Rightarrow> failM INVALID_CONFIGURATION
             | Some n \<Rightarrow> ret \<lparr>sa_flow = n, sa_kind = KindRoute, sa_index = Some i\<rparr>)) ?P"
      unfolding select_route_def StartRoute
      by (rule yields_bindM [OF select_from_entry])
        (auto intro!: yields_simple start split: option.split)
    with StartRoute show ?thesis by simp
  qed
qed (auto intro!: yields_thenM yields_simple)

lemma run_body_route:
  "valid (\<lambda>p. snd p = initial_run_locals e) (run_body env e None step_id)
     (\<lambda>_ p. locals_done (ev_plan env) (snd p)) (\<lambda>_ p. locals_route (ev_plan env) (snd p))"
proof -
  let ?w = "ev_plan env"
  let ?D = "\<lambda>_ p :: 'a run_state \<times> run_locals. locals_done ?w (snd p)"
  let ?E = "\<lambda>_ p :: 'a run_state \<times> run_locals. locals_route ?w (snd p)"
  have started: "valid (\<lambda>p. snd p = initial_run_locals e) (liftM (select_start env e))
      (\<lambda>st p. snd p = initial_run_locals e \<and> sa_flow st \<in> set (start_names (wf_start ?w))) ?E"
  proof (rule valid_liftM)
    fix l
    show "valid (\<lambda>s. snd (s, l) = initial_run_locals e) (select_start env e)
        (\<lambda>st s. snd (s, l) = initial_run_locals e \<and> sa_flow st \<in> set (start_names (wf_start ?w)))
        (\<lambda>x s. locals_route ?w (snd (s, l)))"
      by (rule valid_conseq [OF valid_conj [OF select_start_declared valid_const [of "l = initial_run_locals e"]]])
        (auto simp: locals_route_def initial_run_locals_def)
  qed
  let ?R = "\<lambda>st p :: 'a run_state \<times> run_locals. route_inv ?w (sa_flow st) [] (Some (sa_flow st)) (snd p) \<and>
      ru_start (snd p) = Some st \<and> sa_flow st \<in> set (start_names (wf_start ?w))"
  have note': "valid (\<lambda>p. snd p = initial_run_locals e \<and> sa_flow st \<in> set (start_names (wf_start ?w))) (run_locally (\<lambda>l. l\<lparr>ru_start := Some st\<rparr>))
      (\<lambda>_. ?R st) ?E" for st
    by (auto simp: valid_def run_locally_def modM_def route_inv_def initial_run_locals_def)
  have loop: "valid (?R st) (run_loop env e [] (Some (sa_flow st))) ?D ?E" for st
  proof -
    have keep: "keeps (\<lambda>p q. ru_start (snd q) = ru_start (snd p)) (run_loop env e visited current)" for visited current
    proof (induction "length (wf_flows ?w) - length visited" arbitrary: visited current rule: less_induct)
      case less
      have fr: "frame (\<lambda>p q :: 'a run_state \<times> run_locals. ru_start (snd q) = ru_start (snd p))"
        by unfold_locales auto
      have lift: "keeps (\<lambda>p q. ru_start (snd q) = ru_start (snd p)) (liftM m)" for m :: "('a, 'x) run"
        by (simp add: keeps_def liftM_def split: prod.split)
      have loc: "keeps (\<lambda>p q :: 'a run_state \<times> run_locals. ru_start (snd q) = ru_start (snd p)) (run_locally f)"
        if "\<And>l. ru_start (f l) = ru_start l" for f
        by (simp add: keeps_def run_locally_def modM_def that)
      note fi = frame.keeps_intros [OF fr]
      have iter: "keeps (\<lambda>p q. ru_start (snd q) = ru_start (snd p)) (routed_iteration env e visited c)" for c
        unfolding routed_iteration_def
        by (intro fi lift loc step_mono.keeps_cases) simp_all
      show ?case
      proof (cases current)
        case None
        then show ?thesis by (simp add: run_loop.simps frame.keeps_ret [OF fr])
      next
        case (Some c)
        show ?thesis
          unfolding Some run_loop.simps
          by (intro frame.keeps_bindM [OF fr] iter) (auto intro: frame.keeps_ret [OF fr] less)
      qed
    qed
    have "valid (\<lambda>p. ru_start (snd p) = Some st) (run_loop env e [] (Some (sa_flow st)))
        (\<lambda>_ p. ru_start (snd p) = Some st) (\<lambda>_ p. ru_start (snd p) = Some st)"
      using keep [of "[]" "Some (sa_flow st)"] unfolding keeps_def valid_def
      by (auto split: prod.split sum.split) (metis snd_conv)+
    from valid_conj [OF valid_conj [OF run_loop_route this]
        valid_const [of "sa_flow st \<in> set (start_names (wf_start ?w))"]] show ?thesis
      by (rule valid_conseq) (auto simp: locals_done_def locals_route_def)
  qed
  have tail: "valid (?D x) (thenM (workflow_output env e None) (liftM (check_deadline env))) ?D ?E" for x
  proof (rule valid_thenM)
    have get: "valid (?D x) (getM snd) ?D ?E"
      by (simp add: valid_def getM_def)
    have pure: "valid (?D x) (pureM r) ?D ?E" for r :: "(exn, json) result"
      by (auto simp: valid_def pureM_def locals_done_route split: sum.split)
    have set': "valid (?D x) (run_locally (\<lambda>l. l\<lparr>ru_payload := v\<rparr>)) ?D ?E" for v
      by (auto simp: valid_def run_locally_def modM_def locals_done_def split: option.splits)
    have lift: "valid (?D x) (liftM m) ?D ?E" for m :: "('a, 'y) run"
      by (rule valid_conseq [OF valid_locals [where I = "locals_done ?w"]]) (auto dest: locals_done_route)
    have none: "valid (?D x) (ret ()) ?D ?E" by (simp add: valid_def ret_def)
    show "valid (?D x) (workflow_output env e None) ?D ?E"
      unfolding workflow_output_def
      by (rule valid_bindM [OF get])
        (auto split: option.split intro!: none valid_bindM [OF lift] valid_bindM [OF pure] set')
    show "valid (?D ()) (liftM (check_deadline env)) ?D ?E"
      by (rule valid_conseq [OF valid_locals [where I = "locals_done ?w"]]) (auto dest: locals_done_route)
  qed
  show ?thesis
    unfolding run_body_def option.case
    by (rule valid_thenM [OF valid_bindM [OF started valid_thenM [OF note' loop]] tail])
qed

lemma run_workflow_route:
  assumes "run_workflow env e None step_id s = (Inr r, s')"
  shows "result_route (ev_plan env) r"
proof -
  let ?w = "ev_plan env"
  have fail: "valid (\<lambda>p. locals_route ?w (snd p)) (run_failure env e x) (\<lambda>_ p. locals_done ?w (snd p))
      (\<lambda>_ _. True)" for x
  proof -
    have lift: "valid (\<lambda>p. locals_done ?w (snd p)) (liftM m) (\<lambda>_ p. locals_done ?w (snd p)) (\<lambda>_ _. True)"
      for m :: "('a, 'y) run"
      by (rule valid_conseq [OF valid_locals [where I = "locals_done ?w"]]) simp_all
    have simple: "valid (\<lambda>p. locals_done ?w (snd p)) (ret ()) (\<lambda>_ p. locals_done ?w (snd p)) (\<lambda>_ _. True)"
      "valid (\<lambda>p. locals_done ?w (snd p)) (throw y) (\<lambda>_ p. locals_done ?w (snd p)) (\<lambda>_ _. True)" for y
      by (simp_all add: valid_def ret_def throw_def)
    have first: "valid (\<lambda>p. locals_route ?w (snd p)) (liftM (failure_at env x)) (\<lambda>_ p. locals_route ?w (snd p))
        (\<lambda>_ _. True)"
      by (rule valid_conseq [OF valid_locals [where I = "locals_route ?w"]]) simp_all
    have set': "valid (\<lambda>p. locals_route ?w (snd p)) (run_locally (\<lambda>l. l\<lparr>ru_status := Failed,
        ru_error := y, ru_payload := z\<rparr>)) (\<lambda>_ p. locals_done ?w (snd p)) (\<lambda>_ _. True)" for y z
      by (auto simp: valid_def run_locally_def modM_def locals_done_def locals_route_def route_part_def
          split: option.splits)
    show ?thesis
      unfolding run_failure_def
      by (rule valid_bindM [OF first], rule valid_thenM [OF set'])
        (auto intro!: valid_bindM [OF lift] simple lift split: option.split)
  qed
  have "valid (\<lambda>p. True \<and> snd p = initial_run_locals e)
      (thenM (exceptM (run_body env e None step_id) (run_failure env e)) (getM snd))
      (\<lambda>l _. locals_done ?w l) (\<lambda>_ _. True)"
    by (rule valid_thenM [OF valid_pre [OF valid_exceptM [OF run_body_route fail]]])
      (auto simp: valid_def getM_def)
  from valid_withM [OF this] have loc: "valid (\<lambda>_. True) (withM (initial_run_locals e)
      (thenM (exceptM (run_body env e None step_id) (run_failure env e)) (getM snd)))
      (\<lambda>l _. locals_done ?w l) (\<lambda>_ _. True)" .
  have "valid (\<lambda>_. True) (run_workflow env e None step_id) (\<lambda>r _. result_route ?w r) (\<lambda>_ _. True)"
    unfolding run_workflow_def
  proof (rule yields_thenM, rule yields_bindM [OF loc], rule yields_bind_any)
    show "yields (ret (run_result_of env e records l)) (result_route ?w)" if "locals_done ?w l" for l records
      using that by (intro yields_simple) (auto simp: result_route_def locals_done_def run_result_of_def split: option.splits)
  qed
  from valid_Inr [OF this _ assms] show ?thesis by simp
qed

lemma run_all_route:
  "case run_all env e d (new_run w) of
     (Inr r, s) \<Rightarrow> result_route (ev_plan env) r
   | (Inl x, s) \<Rightarrow> True"
proof -
  have "valid (\<lambda>_. True) (run_workflow (env\<lparr>ev_deadline := stop\<rparr>) e None None)
      (\<lambda>r s. result_route (ev_plan env) r) (\<lambda>_ _. True)" for stop
    using run_workflow_route [of "env\<lparr>ev_deadline := stop\<rparr>" e None]
    by (auto simp: valid_def split: prod.split sum.split)
  then have "valid (\<lambda>_. True) (run_all env e d) (\<lambda>r s. result_route (ev_plan env) r) (\<lambda>_ _. True)"
    unfolding run_all_def
    by (rule admit_result [where Q = "\<lambda>r n. result_route (ev_plan env) r"]) (auto simp: result_route_def split: option.splits)
  then show ?thesis by (auto simp: valid_def split: prod.splits sum.splits)
qed

section \<open>Properties\<close>

text \<open>
  C3: The transitions of a run are a path through the plan: it begins at a declared start,
  each flow is left at most once and along one of its routes, every transition starts where
  the previous one led, a flow that needed review never leads to completion, and a run that
  did not fail ends with the outcome of its last transition.
\<close>

theorem run_is_path:
  "case run_all env e d (new_run w) of
     (Inr r, s) \<Rightarrow> result_route (ev_plan env) r
   | (Inl x, s) \<Rightarrow> True"
  by (rule run_all_route)

end
