(* ===== verification/RunShape.thy ===== *)
theory RunShape imports RunPath begin

text \<open>
  The records a run leaves: a flow record names the steps of its flow in order, has a result
  exactly if it did not fail, and can always be written to the ledger; a repeated flow makes
  at most its configured attempts.
\<close>

section \<open>The shape of a flow record\<close>

definition steps_ok :: "string list \<Rightarrow> flow_locals \<Rightarrow> bool" where
  "steps_ok names l \<longleftrightarrow> keys (lo_records l) = names \<and>
     list_all (\<lambda>p. step_record_ok (snd p)) (lo_records l) \<and>
     (\<forall>n. lo_active l = Some n \<longrightarrow> n \<in> set names)"

definition running :: "string list \<Rightarrow> flow_locals \<Rightarrow> bool" where
  "running names l \<longleftrightarrow> steps_ok names l \<and> \<not> lo_has_result l \<and> lo_error l = None \<and>
     lo_status l \<in> {Completed, NeedsReview}"

definition halted :: "string list \<Rightarrow> flow_locals \<Rightarrow> bool" where
  "halted names l \<longleftrightarrow> steps_ok names l \<and> \<not> lo_has_result l \<and>
     (lo_status l = Failed \<and> lo_result l = JNull \<or>
      lo_error l = None \<and> lo_status l \<in> {Completed, NeedsReview})"

definition finished :: "string list \<Rightarrow> flow_locals \<Rightarrow> bool" where
  "finished names l \<longleftrightarrow> steps_ok names l \<and> lo_status l \<in> {Completed, NeedsReview, Failed} \<and>
     (if lo_status l = Failed then \<not> lo_has_result l \<and> lo_result l = JNull
      else lo_has_result l \<and> lo_error l = None)"

definition interrupted :: "string list \<Rightarrow> flow_locals \<Rightarrow> bool" where
  "interrupted names l \<longleftrightarrow> steps_ok names l \<and> \<not> lo_has_result l"

lemma running_weaken: "running names l \<Longrightarrow> halted names l" "running names l \<Longrightarrow> interrupted names l"
  "halted names l \<Longrightarrow> interrupted names l"
  by (auto simp: running_def halted_def interrupted_def)

lemma consistent_record:
  "sp_has_result r \<Longrightarrow> step_record_ok r" "sp_result r = JNull \<Longrightarrow> step_record_ok r"
  by (simp_all add: step_record_ok_def)

lemma steps_ok_put:
  assumes "steps_ok names l" "n \<in> set names" "step_record_ok r"
  shows "keys (put n r (lo_records l)) = names"
    "list_all (\<lambda>p. step_record_ok (snd p)) (put n r (lo_records l))"
  using assms by (simp_all add: steps_ok_def keys_put_old put_list_all)

definition stays :: "string list \<Rightarrow> 'w run_state \<times> flow_locals \<Rightarrow> 'w run_state \<times> flow_locals \<Rightarrow> bool" where
  "stays names p q \<longleftrightarrow> (running names (snd p) \<longrightarrow> running names (snd q))"

interpretation stays: frame "stays names"
  by unfold_locales (auto simp: stays_def)

lemma stays_liftM: "keeps (stays names) (liftM m)"
  by (simp add: keeps_def stays_def liftM_def split: prod.split)

lemma stays_locally: "(\<And>l. running names l \<Longrightarrow> running names (f l)) \<Longrightarrow> keeps (stays names) (locally f)"
  by (simp add: keeps_def stays_def locally_def modM_def)

lemmas stays_intros = stays.keeps_intros stays_liftM step_mono.keeps_cases

lemma stays_valid:
  "keeps (stays names) m \<Longrightarrow> lvalid (\<lambda>_. running names) m (\<lambda>_ _. running names) (\<lambda>_. interrupted names)"
  by (rule lvalid_conseq [OF lvalid_keeps [where P = "\<lambda>_. running names" and R = "stays names"]])
    (auto simp: stays_def running_weaken)

lemma record_outcome_stays:
  "st_name step \<in> set names \<Longrightarrow> keeps (stays names) (record_outcome env c step ck value)"
  unfolding record_outcome_def
  by (intro stays_intros stays_locally)
    (auto simp: running_def steps_ok_def keys_put_old put_list_all consistent_record)

lemma run_operation_stays:
  "st_name step \<in> set names \<Longrightarrow> keeps (stays names) (run_operation env c step inputs)"
  unfolding run_operation_def account_usage_def
  by (intro stays_intros record_outcome_stays stays_locally) (auto simp: running_def steps_ok_def)

text \<open>A collection step records a consistent result; a failed one stops the flow.\<close>

lemma execute_collection_record: "yields (execute_collection env child cs inputs metadata depth) step_record_ok"
proof -
  have last: "yields (bindM (pureM r) (\<lambda>entries. bindM (now env) (\<lambda>finished.
      let ledger = [(''items'', JArr entries)] in
      ret \<lparr>sp_status = st, sp_result = (if st \<noteq> Failed then JObj ledger else JNull),
        sp_has_result = (st \<noteq> Failed), sp_error = failure,
        sp_elapsed = Some (finished - started), sp_usage = Some u, sp_selection = None,
        sp_partial = (if st = Failed then Some ledger else None),
        sp_collection = True\<rparr>))) step_record_ok" for r st failure started u
    unfolding Let_def
    by (rule yields_bind_any, rule yields_bind_any) (simp add: yields_simple step_record_ok_def)
  have items: "yields (bindM (validate_items env cs [] raw) (\<lambda>items.
           bindM (run_items env child metadata 0 usage_zero Completed items) (\<lambda>(records, u, st, failure).
            bindM (pureM (mapE (\<lambda>(p, r). item_entry p r) (zip items records))) (\<lambda>entries.
             bindM (now env) (\<lambda>finished.
              let ledger = [(''items'', JArr entries)] in
              ret \<lparr>sp_status = st, sp_result = (if st \<noteq> Failed then JObj ledger else JNull),
                sp_has_result = (st \<noteq> Failed), sp_error = failure,
                sp_elapsed = Some (finished - started), sp_usage = Some u, sp_selection = None,
                sp_partial = (if st = Failed then Some ledger else None),
                sp_collection = True\<rparr>))))) step_record_ok" for raw started
    by (rule yields_bind_any, rule yields_bind_any) (simp add: last split: prod.split)
  show ?thesis
    unfolding execute_collection_def
    by (rule yields_bind_any) (auto simp: yields_simple items split: option.split json.split)
qed

lemma run_collection_halts:
  assumes "st_name step \<in> set names"
  shows "lvalid (\<lambda>_. running names) (run_collection env child c depth step cs inputs)
    (\<lambda>continue _. if continue then running names else halted names) (\<lambda>_. interrupted names)"
proof -
  have call: "lvalid (\<lambda>_. running names)
      (liftM (execute_collection env child cs inputs (en_metadata (fc_envelope c)) depth))
      (\<lambda>r _ l. running names l \<and> step_record_ok r) (\<lambda>_. interrupted names)"
    unfolding lvalid_def
  proof (rule valid_liftM)
    fix l
    show "valid (\<lambda>s. running names (snd (s, l)))
       (execute_collection env child cs inputs (en_metadata (fc_envelope c)) depth)
       (\<lambda>r s. running names (snd (s, l)) \<and> step_record_ok r) (\<lambda>_ s. interrupted names (snd (s, l)))"
      by (rule valid_conseq [OF valid_conj [OF execute_collection_record valid_const [of "running names l"]]])
        (auto simp: running_weaken)
  qed
  have rec: "lvalid (\<lambda>_ l. running names l \<and> step_record_ok r)
      (locally (\<lambda>l. l\<lparr>lo_records := put (st_name step) r (lo_records l),
          lo_step_usage := u, lo_usage := usage_plus (lo_usage l) u, lo_active := None\<rparr>))
      (\<lambda>_ _. running names) (\<lambda>_. interrupted names)" for r u
    unfolding locally_def
    by (rule lvalid_modM) (use assms in \<open>auto simp: running_def steps_ok_def keys_put_old put_list_all\<close>)
  have failed: "lvalid (\<lambda>_. running names) (thenM (locally (\<lambda>l. l\<lparr>lo_status := Failed, lo_error := x,
      lo_result := JNull\<rparr>)) (ret False))
      (\<lambda>continue _. if continue then running names else halted names) (\<lambda>_. interrupted names)" for x
    unfolding locally_def
    by (rule lvalid_thenM [where R = "\<lambda>_. halted names"])
      (auto intro!: lvalid_modM lvalid_ret simp: running_def halted_def steps_ok_def)
  have went: "lvalid (\<lambda>_. running names) (thenM (locally (\<lambda>l. l\<lparr>lo_result := f l\<rparr>))
       (if b then thenM (locally (\<lambda>l. l\<lparr>lo_status := NeedsReview\<rparr>)) (ret False) else ret True))
      (\<lambda>continue _. if continue then running names else halted names) (\<lambda>_. interrupted names)" for f b
  proof (rule lvalid_thenM [where R = "\<lambda>_. running names"])
    show "lvalid (\<lambda>_. running names) (locally (\<lambda>l. l\<lparr>lo_result := f l\<rparr>)) (\<lambda>_ _. running names)
        (\<lambda>_. interrupted names)"
      by (rule stays_valid, rule stays_locally) (auto simp: running_def steps_ok_def)
    have "lvalid (\<lambda>_. running names) (locally (\<lambda>l. l\<lparr>lo_status := NeedsReview\<rparr>)) (\<lambda>_ _. running names)
        (\<lambda>_. interrupted names)"
      by (rule stays_valid, rule stays_locally) (auto simp: running_def steps_ok_def)
    then have then': "lvalid (\<lambda>_. running names) n Q (\<lambda>_. interrupted names) \<Longrightarrow>
       lvalid (\<lambda>_. running names) (thenM (locally (\<lambda>l. l\<lparr>lo_status := NeedsReview\<rparr>)) n) Q
         (\<lambda>_. interrupted names)" for n :: "('w, bool) flow_run" and Q
      by (rule lvalid_thenM)
    show "lvalid (\<lambda>_. running names)
       (if b then thenM (locally (\<lambda>l. l\<lparr>lo_status := NeedsReview\<rparr>)) (ret False) else ret True)
       (\<lambda>continue _. if continue then running names else halted names) (\<lambda>_. interrupted names)"
      by (cases b) (auto intro!: lvalid_ret then' simp: running_weaken)
  qed
  have scope: "lvalid (\<lambda>_. running names) (liftM m) (\<lambda>_ _. running names) (\<lambda>_. interrupted names)"
    for m :: "('w, 'x) run"
    by (rule stays_valid [OF stays_liftM])
  show ?thesis
    unfolding run_collection_def Let_def
    by (rule lvalid_bindM [OF call], rule lvalid_thenM [OF rec], rule lvalid_thenM [OF scope],
        rule lvalid_if [OF failed went])
qed

lemma step_iteration_halts:
  assumes n: "st_name step \<in> set names"
  shows "lvalid (\<lambda>_. running names) (step_iteration env child c depth step)
    (\<lambda>continue _. if continue then running names else halted names) (\<lambda>_. interrupted names)"
    (is "lvalid ?P _ ?Q ?E")
proof -
  have skip: "lvalid ?P (thenM (skip_step env c step ms) (ret True)) ?Q ?E" for ms
  proof (rule lvalid_thenM [where R = ?P])
    show "lvalid ?P (skip_step env c step ms) (\<lambda>_. ?P) ?E"
      unfolding skip_step_def by (rule lvalid_observe, rule stays_valid) (intro stays_intros)
  qed (simp add: lvalid_ret)
  have op: "lvalid ?P (case st_body step of
         CollectionStep cs \<Rightarrow> run_collection env child c depth step cs inputs
       | _ \<Rightarrow> run_operation env c step inputs) ?Q ?E" for inputs
  proof -
    have "lvalid ?P (run_operation env c step inputs) ?Q ?E"
      by (rule lvalid_conseq [OF stays_valid [OF run_operation_stays [OF n]]])
        (auto simp: running_weaken)
    then show ?thesis by (cases "st_body step") (simp_all add: run_collection_halts [OF n])
  qed
  have start: "keeps (stays names) (locally (\<lambda>l. l\<lparr>lo_active := Some (st_name step),
      lo_step_started := t, lo_step_usage := usage_zero\<rparr>))" for t
    by (rule stays_locally) (use n in \<open>auto simp: running_def steps_ok_def\<close>)
  have inputs: "keeps (stays names) (step_inputs c step)"
    unfolding step_inputs_def by (auto intro!: stays_intros split: json.split)
  have guard: "keeps (stays names) (step_guard env c step)"
    unfolding step_guard_def by (auto intro!: stays_intros split: option.split)
  have reported: "keeps (stays names) (case g of
          Some (b, ms) \<Rightarrow> liftM (report (step_location step) b ms) | None \<Rightarrow> ret ())" for g
    by (intro stays_intros)
  have body: "lvalid ?P (run_step_body env child c depth step g) ?Q ?E" for g
    unfolding run_step_body_def
    by (intro lvalid_thenM [OF stays_valid [OF stays_liftM]] lvalid_bindM [OF stays_valid [OF stays_liftM]]
        lvalid_thenM [OF stays_valid [OF start]] lvalid_observe
        lvalid_thenM [OF stays_valid [OF reported]] lvalid_bindM [OF stays_valid [OF inputs]] op)
  have branch: "lvalid ?P (case g of
           Some (False, ms) \<Rightarrow> thenM (skip_step env c step ms) (ret True)
         | _ \<Rightarrow> run_step_body env child c depth step g) ?Q ?E" for g
    by (cases g; cases "fst (the g)") (auto split: prod.split bool.split intro: skip body)
  show ?thesis
    unfolding step_iteration_def
    by (intro lvalid_thenM [OF stays_valid [OF stays_liftM]] lvalid_bindM [OF stays_valid [OF guard]] branch)
qed

lemma flow_steps_finish:
  assumes "names = keys (lo_records (initial_locals c started))"
  shows "lvalid (\<lambda>_. running names) (flow_steps env child c depth) (\<lambda>_ _. finished names) (\<lambda>_ _. True)"
proof -
  have mem: "st_name s \<in> set names" if "s \<in> set (call_steps c)" for s
  proof -
    have "fst ` set (dict_of ps d) = fst ` set ps \<union> fst ` set d" for ps d :: "(string \<times> step_record) list"
      by (induction ps d rule: dict_of.induct) auto
    with that assms show ?thesis by (force simp: initial_locals_def)
  qed
  have loop: "lvalid (\<lambda>_. running names) (loopM (step_iteration env child c depth) (call_steps c))
      (\<lambda>_ _. halted names) (\<lambda>_. interrupted names)"
    unfolding lvalid_def
  proof (rule valid_loopM)
    fix s assume "s \<in> set (call_steps c)"
    from step_iteration_halts [OF mem [OF this]] show "valid (\<lambda>p. running names (snd p))
        (step_iteration env child c depth s)
        (\<lambda>continue. if continue then \<lambda>p. running names (snd p) else (\<lambda>p. halted names (snd p)))
        (\<lambda>_ p. interrupted names (snd p))"
      unfolding lvalid_def by (rule valid_conseq) (auto split: if_splits)
  qed (simp add: running_weaken)
  have outp: "lvalid (\<lambda>_. halted names) (flow_output c) (\<lambda>_ _. finished names) (\<lambda>_. interrupted names)"
    unfolding flow_output_def locally_def
  proof (rule lvalid_bindM [where R = "\<lambda>l _ l'. l' = l \<and> halted names l"], rule lvalid_get, simp)
    fix l :: flow_locals
    let ?H = "\<lambda>_ l' :: flow_locals. halted names l' \<and> lo_status l' = lo_status l"
    show "lvalid (\<lambda>_ l'. l' = l \<and> halted names l)
       (thenM (case fl_output (fc_flow c) of
           Some b \<Rightarrow>
             if lo_status l \<noteq> Failed \<and> fc_step_id c = None
             then bindM (pureM (resolve_binding b (binding_context (fc_envelope c) (lo_records l)))) (\<lambda>v.
               modM (\<lambda>p. (fst p, (snd p)\<lparr>lo_result := v\<rparr>)))
             else ret ()
         | None \<Rightarrow> ret ())
        (modM (\<lambda>p. (fst p, (snd p)\<lparr>lo_has_result := (lo_status (snd p) \<noteq> Failed)\<rparr>))))
       (\<lambda>_ _. finished names) (\<lambda>_. interrupted names)"
    proof (rule lvalid_thenM [where R = ?H])
      have skip: "lvalid (\<lambda>_ l'. l' = l \<and> halted names l) (ret ()) (\<lambda>_. ?H) (\<lambda>_. interrupted names)"
        by (rule lvalid_ret) auto
      have set': "lvalid (\<lambda>_ l'. l' = l \<and> halted names l) (bindM (pureM r) (\<lambda>v.
          modM (\<lambda>p. (fst p, (snd p)\<lparr>lo_result := v\<rparr>)))) (\<lambda>_. ?H) (\<lambda>_. interrupted names)"
        if "lo_status l \<noteq> Failed" for r
        by (rule lvalid_bindM [where R = "\<lambda>_ _ l'. l' = l \<and> halted names l"])
          (use that in \<open>auto intro!: lvalid_pureM lvalid_modM simp: running_weaken,
            auto simp: halted_def steps_ok_def\<close>)
      show "lvalid (\<lambda>_ l'. l' = l \<and> halted names l) (case fl_output (fc_flow c) of
           Some b \<Rightarrow>
             if lo_status l \<noteq> Failed \<and> fc_step_id c = None
             then bindM (pureM (resolve_binding b (binding_context (fc_envelope c) (lo_records l)))) (\<lambda>v.
               modM (\<lambda>p. (fst p, (snd p)\<lparr>lo_result := v\<rparr>)))
             else ret ()
         | None \<Rightarrow> ret ()) (\<lambda>_. ?H) (\<lambda>_. interrupted names)"
        by (cases "fl_output (fc_flow c)") (auto simp: skip set')
    qed (rule lvalid_modM, auto simp: halted_def finished_def steps_ok_def)
  qed
  have failing: "lvalid (\<lambda>_. interrupted names) (flow_failure env x) (\<lambda>_ _. finished names) (\<lambda>_ _. True)" for x
  proof -
    have lift: "lvalid (\<lambda>_. I) (liftM m) (\<lambda>_ _. I) (\<lambda>_ _. True)" for I and m :: "('w, 'x) run"
      unfolding lvalid_def by (rule valid_conseq [OF valid_locals [where I = I]]) simp_all
    show ?thesis
      unfolding flow_failure_def locally_def
      by (rule lvalid_bindM [OF lift], rule lvalid_thenM [where R = "\<lambda>_. finished names"],
          rule lvalid_modM, simp add: interrupted_def finished_def steps_ok_def,
          rule lvalid_bindM [where R = "\<lambda>l _ l'. l' = l \<and> finished names l"], rule lvalid_get, simp)
        (auto split: option.split intro!: lvalid_ret lvalid_bindM [OF lift] lvalid_modM
          simp: finished_def steps_ok_def keys_put_old put_list_all consistent_record empty_step_record_def)
  qed
  show ?thesis
    unfolding flow_steps_def by (rule lvalid_exceptM [OF lvalid_thenM [OF loop outp] failing]) simp
qed

text \<open>The record of an executed flow.\<close>

definition step_names :: "flow_call \<Rightarrow> string list" where
  "step_names c = keys (lo_records (initial_locals c 0))"

lemma step_names_distinct:
  "distinct (map st_name (call_steps c)) \<Longrightarrow> step_names c = map st_name (call_steps c)"
  by (simp add: step_names_def initial_locals_def comp_def)

definition executed_ok :: "flow_call \<Rightarrow> flow_record \<Rightarrow> bool" where
  "executed_ok c r \<longleftrightarrow> keys (fr_steps r) = step_names c \<and> flow_record_ok r \<and> fr_attempts r = [] \<and>
     fr_status r \<in> {Completed, NeedsReview, Failed} \<and>
     (if fr_status r = Failed then \<not> fr_has_result r else fr_has_result r \<and> fr_error r = None)"

lemma initial_locals_running: "running (step_names c) (initial_locals c started)"
proof -
  have all: "list_all (\<lambda>p. step_record_ok (snd p)) d \<Longrightarrow> list_all (\<lambda>p. step_record_ok (snd p)) ps \<Longrightarrow>
      list_all (\<lambda>p. step_record_ok (snd p)) (dict_of ps d)" for ps d
    by (induction ps d rule: dict_of.induct) (simp_all add: put_list_all)
  have "list_all (\<lambda>p. step_record_ok (snd p)) (dict_of (map (\<lambda>s. (st_name s, skipped_step s)) ss) [])" for ss
    by (rule all) (simp_all add: list_all_iff skipped_step_def empty_step_record_def step_record_ok_def
        split: step_body.splits)
  then show ?thesis
    by (simp add: running_def steps_ok_def initial_locals_def step_names_def)
qed

lemma finished_record:
  assumes "finished (step_names c) l"
  shows "executed_ok c (flow_record_of l t)"
proof -
  have wf: "dict_wf d \<Longrightarrow> distinct (keys (dict_of ps d))" for ps :: "(string \<times> step_record) list" and d
    by (rule dict_of_wf)
  have "distinct (step_names c)" by (simp add: step_names_def initial_locals_def wf)
  with assms show ?thesis
    by (auto simp: executed_ok_def finished_def steps_ok_def flow_record_of_def flow_record_ok_def split: if_splits)
qed

lemma execute_level_record: "yields (execute_level env child depth c) (\<lambda>(r, _). executed_ok c r)"
proof -
  have "bvalid (\<lambda>_. True) (withM (initial_locals c started) (thenM (flow_steps env child c depth) (getM snd)))
      (\<lambda>l _. finished (step_names c) l) (\<lambda>_. True)" for started
  proof (rule bvalid_withM)
    have names: "step_names c = keys (lo_records (initial_locals c started))"
      by (simp add: step_names_def initial_locals_def)
    have "lvalid (\<lambda>_. running (step_names c)) (thenM (flow_steps env child c depth) (getM snd))
       (\<lambda>l _ _. finished (step_names c) l) (\<lambda>_ _. True)"
      by (rule lvalid_thenM [OF flow_steps_finish [OF names] lvalid_get]) simp
    then show "lvalid (\<lambda>co l. l = initial_locals c started \<and> True)
       (thenM (flow_steps env child c depth) (getM snd))
       (\<lambda>a co l. finished (step_names c) a) (\<lambda>co l. True)"
      by (rule lvalid_conseq) (auto simp: initial_locals_running)
  qed
  then have body: "yields (withM (initial_locals c started) (thenM (flow_steps env child c depth) (getM snd)))
      (finished (step_names c))" for started
    by (simp add: bvalid_def)
  show ?thesis
    unfolding execute_level_def
    by (rule yields_bind_any, rule yields_bindM [OF body], rule yields_bind_any, rule yields_simple(1))
      (simp add: finished_record)
qed

lemma execute_flow_record: "yields (execute_flow env depth c) (\<lambda>(r, _). executed_ok c r)"
  by (subst execute_flow.simps) (rule execute_level_record)

section \<open>The attempts of a repeated flow\<close>

definition decision_ok :: "repeat_plan \<Rightarrow> nat \<Rightarrow> repeat_stop option \<Rightarrow> bool" where
  "decision_ok rp attempt stop \<longleftrightarrow> (stop = None \<longrightarrow> attempt < rp_max_attempts rp) \<and>
     (stop = Some StopExhausted \<longrightarrow> rp_max_attempts rp \<le> attempt)"

abbreviation early_stop :: "repeat_decision \<Rightarrow> bool" where
  "early_stop d \<equiv> rd_stop d \<noteq> None \<and> rd_stop d \<noteq> Some StopExhausted"

lemma stop_of_stop_repeat [simp]: "rd_stop (stop_repeat s is) = Some s"
  by (simp add: stop_repeat_def)

lemma run_retry_stop:
  "yields (run_retry env child rp retry attempt issues e it runs inputs)
     (\<lambda>d. case d of None \<Rightarrow> True | Some d' \<Rightarrow> early_stop d')"
  unfolding run_retry_def
  by (rule yields_bind_any)
    (auto intro!: yields_thenM yields_simple yields_bind_any split: option.split)

lemma retry_phase_stop:
  "yields (retry_phase env child rp attempt issues e it)
     (\<lambda>d. case d of None \<Rightarrow> True | Some d' \<Rightarrow> early_stop d')"
proof -
  have start: "yields (exceptM
        (bindM (pureM i) (\<lambda>inputs. ret (Inl inputs)))
        (\<lambda>caught. bindM (liftM (failure_at env caught)) (\<lambda>failure.
          let failed = failed_flow retry (Some failure) [] None in
          thenM (record_flow (fl_name retry) (with_attempts failed (runs @ [failed])))
            (ret (Inr ((stop_repeat StopFailure issues)\<lparr>rd_failure := Some failure\<rparr>))))))
      (\<lambda>r. case r of Inl _ \<Rightarrow> True | Inr d \<Rightarrow> early_stop d)" for i :: "(exn, jobj) result" and retry runs
    by (rule valid_exceptM [where E' = "\<lambda>_ _. True"])
      (auto intro!: yields_bind_any yields_thenM yields_simple simp: Let_def)
  have go: "yields (case r of Inl inputs \<Rightarrow> run_retry env child rp retry attempt issues e it runs inputs
        | Inr d \<Rightarrow> ret (Some d)) (\<lambda>d. case d of None \<Rightarrow> True | Some d' \<Rightarrow> early_stop d')"
    if "case r of Inl _ \<Rightarrow> True | Inr d \<Rightarrow> early_stop d" for r retry runs
    using that by (cases r) (auto intro!: yields_simple run_retry_stop)
  show ?thesis
    unfolding retry_phase_def Let_def
    by (auto intro!: yields_simple yields_bind_any yields_bindM [OF start [unfolded Let_def] go] split: option.split)
qed

lemma repeat_step_ok:
  "yields (repeat_step env child f rp rec attempt issues e it) (\<lambda>d. decision_ok rp attempt (rd_stop d))"
proof -
  have go: "yields (decide_next env f rp issues e it) (\<lambda>d. decision_ok rp attempt (rd_stop d))"
    if "attempt < rp_max_attempts rp"
    unfolding decide_next_def
    by (rule valid_exceptM [where E' = "\<lambda>_ _. True"])
      (use that in \<open>auto intro!: yields_bind_any yields_simple simp: decision_ok_def\<close>)
  have step: "yields (bindM (retry_phase env child rp attempt issues e it) (\<lambda>d.
      case d of Some stop \<Rightarrow> ret stop | None \<Rightarrow> decide_next env f rp issues e it))
      (\<lambda>d. decision_ok rp attempt (rd_stop d))" if "attempt < rp_max_attempts rp"
  proof (rule yields_bindM [OF retry_phase_stop])
    fix d
    assume "case d of None \<Rightarrow> True | Some d' \<Rightarrow> early_stop d'"
    then show "yields (case d of Some stop \<Rightarrow> ret stop | None \<Rightarrow> decide_next env f rp issues e it)
        (\<lambda>d. decision_ok rp attempt (rd_stop d))"
      by (cases d) (auto intro!: yields_simple go [OF that], simp add: decision_ok_def)
  qed
  show ?thesis
    unfolding repeat_step_def
    by (rule valid_if, simp add: yields_simple decision_ok_def,
        rule valid_if, simp add: yields_simple decision_ok_def,
        rule yields_bind_any, rule yields_bind_any,
        rule valid_if, simp add: yields_simple decision_ok_def,
        rule valid_if, simp add: yields_simple decision_ok_def, rule step, simp)
qed

lemma repeat_attempt_record:
  "valid (\<lambda>_. True) (repeat_attempt env child f rp rec attempts attempt issues e it)
     (\<lambda>d p. decision_ok rp attempt (rd_stop d) \<and>
        (\<exists>st. get (snd p) (fl_name f) = Some (with_stop rec st attempts (rd_stop d))))
     (\<lambda>_ _. True)"
proof -
  have ends: "valid (\<lambda>_. decision_ok rp attempt (rd_stop d))
      (thenM (record_flow (fl_name f) (with_stop rec st attempts (rd_stop d)))
        (thenM (case rd_stop d of
               None \<Rightarrow> ret ()
             | Some stop \<Rightarrow> liftM (event ''repeat.stopped'' [(''stopped_by'', JStr (stop_text stop))]))
           (ret d)))
      (\<lambda>d p. decision_ok rp attempt (rd_stop d) \<and>
        (\<exists>st. get (snd p) (fl_name f) = Some (with_stop rec st attempts (rd_stop d))))
     (\<lambda>_ _. True)" for d st
    by (auto simp: valid_def thenM_def bindM_def record_flow_def modM_def ret_def liftM_def
        split: option.split prod.split sum.split)
  show ?thesis
    unfolding repeat_attempt_def
    by (rule valid_thenM [OF yields_any], rule valid_bindM [OF repeat_step_ok ends])
qed

text \<open>What a repeat leaves behind: every attempt on record, at most as many as configured.\<close>

definition repeat_ok :: "flow \<Rightarrow> flow_record \<Rightarrow> bool" where
  "repeat_ok f r \<longleftrightarrow> flow_record_ok r \<and> list_all flow_record_ok (fr_attempts r) \<and>
     (case fl_repeat f of
        None \<Rightarrow> fr_attempts r = []
      | Some rp \<Rightarrow> fr_attempts r \<noteq> [] \<and> length (fr_attempts r) \<le> rp_max_attempts rp \<and>
          fr_stopped_by r \<noteq> None \<and>
          (fr_stopped_by r = Some StopExhausted \<longrightarrow> length (fr_attempts r) = rp_max_attempts rp))"

definition attempts_upto :: "nat \<Rightarrow> flow_record list \<Rightarrow> bool" where
  "attempts_upto n as \<longleftrightarrow> length as = n \<and> list_all flow_record_ok as"

lemma repeat_ok_ends:
  assumes "attempts_upto n as" "executed_ok c rec" "fl_repeat f = Some rp" "Suc n \<le> rp_max_attempts rp"
    "decision_ok rp (Suc n) stop" "stop \<noteq> None"
  shows "repeat_ok f (with_stop rec st (as @ [rec]) stop)"
  using assms by (auto simp: repeat_ok_def executed_ok_def flow_record_ok_def decision_ok_def attempts_upto_def)

lemma routed_boundary_record:
  "valid (\<lambda>s. get (rs_records s) (fl_name f) = Some r0) (routed_boundary env f e issues failure)
     (\<lambda>r _. rt_record r = r0) (\<lambda>_ _. True)"
proof -
  have "yields (case records of
          None \<Rightarrow> throw OtherErr
        | Some r \<Rightarrow>
            if fr_status r = Failed \<or> failure \<noteq> None
            then ret \<lparr>rt_record = r, rt_target = None, rt_failure = failure\<rparr>
            else bindM (select_target env f r issues (workflow_context e recs)) (\<lambda>t.
              ret \<lparr>rt_record = r, rt_target = Some t, rt_failure = None\<rparr>))
     (\<lambda>r. records = Some r0 \<longrightarrow> rt_record r = r0)" for records recs
    by (auto intro!: yields_simple yields_bind_any split: option.split)
  then have found: "yields (case get recs (fl_name f) of
          None \<Rightarrow> throw OtherErr
        | Some r \<Rightarrow>
            if fr_status r = Failed \<or> failure \<noteq> None
            then ret \<lparr>rt_record = r, rt_target = None, rt_failure = failure\<rparr>
            else bindM (select_target env f r issues (workflow_context e recs)) (\<lambda>t.
              ret \<lparr>rt_record = r, rt_target = Some t, rt_failure = None\<rparr>))
     (\<lambda>r. get recs (fl_name f) = Some r0 \<longrightarrow> rt_record r = r0)" for recs .
  have go: "valid (\<lambda>_. get recs (fl_name f) = Some r0) (case get recs (fl_name f) of
          None \<Rightarrow> throw OtherErr
        | Some r \<Rightarrow>
            if fr_status r = Failed \<or> failure \<noteq> None
            then ret \<lparr>rt_record = r, rt_target = None, rt_failure = failure\<rparr>
            else bindM (select_target env f r issues (workflow_context e recs)) (\<lambda>t.
              ret \<lparr>rt_record = r, rt_target = Some t, rt_failure = None\<rparr>))
     (\<lambda>r _. rt_record r = r0) (\<lambda>_ _. True)" for recs
    by (rule valid_conseq [OF valid_conj [OF found valid_const [of "get recs (fl_name f) = Some r0"]]]) auto
  show ?thesis
    unfolding routed_boundary_def set_active_def
    by (rule valid_thenM [where R = "\<lambda>s. get (rs_records s) (fl_name f) = Some r0"],
        simp add: valid_def modM_def,
        rule valid_bindM [where R = "\<lambda>recs _. get recs (fl_name f) = Some r0", OF _ go])
      (simp add: valid_def getM_def)
qed

text \<open>One attempt: after it, either the attempts so far or the whole record.\<close>

definition attempted :: "flow \<Rightarrow> nat \<Rightarrow> flow_record list \<Rightarrow> bool" where
  "attempted f n as \<longleftrightarrow> attempts_upto n as \<and> n < max_attempts_of f"

lemma routed_attempt_record:
  assumes n: "attempts_upto n attempts" "Suc n \<le> max_attempts_of f"
  shows "yields (routed_attempt env f e (Suc n) attempts inputs)
     (\<lambda>x. case x of Inl (_, as) \<Rightarrow> attempted f (Suc n) as | Inr r \<Rightarrow> repeat_ok f (rt_record r))"
    (is "yields _ ?Q")
proof -
  have branch: "yields (case fl_repeat f of
        None \<Rightarrow> thenM (set_record (fl_name f) rec)
          (bindM (routed_boundary env f e issues None) (\<lambda>r. ret (Inr r)))
      | Some rp \<Rightarrow>
         bindM (sharedM (repeat_attempt env (execute_flow env 0) f rp rec
             (attempts @ [rec]) (Suc n) issues e None)) (\<lambda>d.
           case (rd_stop d, rd_inputs d) of
             (None, Some inputs') \<Rightarrow> ret (Inl (inputs', attempts @ [rec]))
           | (None, None) \<Rightarrow> throw OtherErr
           | (Some _, _) \<Rightarrow> bindM (routed_boundary env f e (rd_issues d) (rd_failure d))
               (\<lambda>r. ret (Inr r)))) ?Q" if ok: "executed_ok c rec" for c rec issues
  proof (cases "fl_repeat f")
    case None
    from ok None have "repeat_ok f rec" by (simp add: repeat_ok_def executed_ok_def)
    then have "valid (\<lambda>s. get (rs_records s) (fl_name f) = Some rec)
        (bindM (routed_boundary env f e issues None) (\<lambda>r. ret (Inr r))) (\<lambda>x _. ?Q x) (\<lambda>_ _. True)"
      by (intro valid_bindM [OF routed_boundary_record]) (auto simp: valid_def ret_def)
    then show ?thesis
      unfolding None option.case set_record_def
      by (rule valid_thenM [OF valid_pre [OF valid_modM], rotated]) simp
  next
    case (Some rp)
    let ?R = "\<lambda>d s. decision_ok rp (Suc n) (rd_stop d) \<and>
        (\<exists>st. get (rs_records s) (fl_name f) = Some (with_stop rec st (attempts @ [rec]) (rd_stop d)))"
    have rep: "valid (\<lambda>_. True) (sharedM (repeat_attempt env (execute_flow env 0) f rp rec
             (attempts @ [rec]) (Suc n) issues e None)) ?R (\<lambda>_ _. True)"
    proof (rule validI)
      fix s
      show "case sharedM (repeat_attempt env (execute_flow env 0) f rp rec
             (attempts @ [rec]) (Suc n) issues e None) s of (Inr a, s') \<Rightarrow> ?R a s' | (Inl e, s') \<Rightarrow> True"
        using validD [OF repeat_attempt_record [where env = env and child = "execute_flow env 0" and
            f = f and rp = rp and rec = rec and attempts = "attempts @ [rec]" and attempt = "Suc n" and
            issues = issues and e = e and it = None] TrueI, of "(s, rs_records s)"]
        by (auto simp: sharedM_def split: prod.splits sum.splits)
    qed
    have go: "valid (?R d) (case (rd_stop d, rd_inputs d) of
             (None, Some inputs') \<Rightarrow> ret (Inl (inputs', attempts @ [rec]))
           | (None, None) \<Rightarrow> throw OtherErr
           | (Some _, _) \<Rightarrow> bindM (routed_boundary env f e (rd_issues d) (rd_failure d))
               (\<lambda>r. ret (Inr r))) (\<lambda>x _. ?Q x) (\<lambda>_ _. True)" for d
    proof (cases "rd_stop d")
      case None
      have "attempted f (Suc n) (attempts @ [rec])" if "decision_ok rp (Suc n) None"
        using that n ok Some by (auto simp: attempted_def attempts_upto_def executed_ok_def decision_ok_def max_attempts_of_def)
      then show ?thesis
        unfolding None by (auto simp: valid_def ret_def throw_def split: option.split)
    next
      case (Some stop)
      show ?thesis
        unfolding Some prod.case option.case
      proof (rule valid_assume, elim conjE exE)
        fix s :: "'a run_state" and st
        assume d: "decision_ok rp (Suc n) (Some stop)"
          "get (rs_records s) (fl_name f) = Some (with_stop rec st (attempts @ [rec]) (Some stop))"
        have r: "repeat_ok f (with_stop rec st (attempts @ [rec]) (Some stop))"
          by (rule repeat_ok_ends [OF n(1) ok \<open>fl_repeat f = Some rp\<close> _ d(1)])
            (use n \<open>fl_repeat f = Some rp\<close> in \<open>simp_all add: max_attempts_of_def\<close>)
        show "valid (\<lambda>t. t = s) (bindM (routed_boundary env f e (rd_issues d) (rd_failure d))
               (\<lambda>r. ret (Inr r))) (\<lambda>x _. ?Q x) (\<lambda>_ _. True)"
          by (rule valid_bindM [OF valid_pre [OF routed_boundary_record
                [where ?r0.0 = "with_stop rec st (attempts @ [rec]) (Some stop)"]]])
            (use d r in \<open>auto simp: valid_def ret_def\<close>)
      qed
    qed
    show ?thesis unfolding Some option.case by (rule valid_bindM [OF rep go])
  qed
  show ?thesis
    unfolding routed_attempt_def
    by (rule yields_thenM, rule yields_bind_any, rule yields_observe, rule yields_bindM [OF execute_flow_record],
        unfold prod.case_eq_if, rule yields_thenM, rule branch [unfolded prod.case_eq_if], assumption)
qed

text \<open>The attempts of a scope counted from the first one; the two levels share the induction.\<close>

lemma repeated_ok:
  assumes step: "\<And>n as inputs. attempts_upto n as \<Longrightarrow> Suc n \<le> max_attempts_of f \<Longrightarrow>
      yields (attempt (Suc n) as inputs)
        (\<lambda>x. case x of Inl (_, as') \<Rightarrow> attempted f (Suc n) as' | Inr r \<Rightarrow> Q r)"
    and nil: "\<And>as inputs. attempts [] as inputs = failM INVALID_CONFIGURATION"
    and cons: "\<And>n ns as inputs. attempts (n # ns) as inputs =
      bindM (attempt n as inputs) (\<lambda>r. case r of
        Inl (inputs', as') \<Rightarrow> attempts ns as' inputs' | Inr result \<Rightarrow> ret result)"
    and start: "attempts_upto n as"
  shows "yields (attempts [Suc n..<Suc (max_attempts_of f)] as inputs) Q"
  using start
proof (induction "max_attempts_of f - n" arbitrary: n as inputs)
  case 0
  then show ?case by (simp add: nil yields_simple)
next
  case (Suc k)
  from Suc.hyps have n: "Suc n \<le> max_attempts_of f" by simp
  have range: "[Suc n..<Suc (max_attempts_of f)] = Suc n # [Suc (Suc n)..<Suc (max_attempts_of f)]"
    using n by (simp add: upt_conv_Cons del: upt_Suc)
  have go: "yields (case r of Inl (inputs', as') \<Rightarrow> attempts [Suc (Suc n)..<Suc (max_attempts_of f)] as' inputs'
      | Inr result \<Rightarrow> ret result) Q"
    if "case r of Inl (_, as') \<Rightarrow> attempted f (Suc n) as' | Inr r \<Rightarrow> Q r" for r
  proof (cases r)
    case (Inl x)
    have "k = max_attempts_of f - Suc n" using Suc.hyps(2) by simp
    with that show ?thesis
      unfolding Inl by (auto simp: attempted_def simp del: upt_Suc split: prod.split intro: Suc.hyps(1))
  qed (use that in \<open>simp add: yields_simple\<close>)
  show ?case unfolding range cons by (rule yields_bindM [OF step [OF Suc.prems n] go])
qed

lemma run_routed_record: "yields (run_routed env f e) (\<lambda>r. repeat_ok f (rt_record r))"
proof -
  have "yields (routed_attempts env f e [1..<Suc (max_attempts_of f)] [] inputs)
      (\<lambda>r. repeat_ok f (rt_record r))" for inputs
    using repeated_ok [where attempt = "routed_attempt env f e" and attempts = "routed_attempts env f e" and
        f = f and n = 0 and as = "[]" and Q = "\<lambda>r. repeat_ok f (rt_record r)" and inputs = inputs]
    by (simp add: routed_attempt_record attempts_upto_def del: upt_Suc)
  then show ?thesis unfolding run_routed_def by (intro yields_thenM yields_bind_any)
qed

section \<open>Properties\<close>



end
