(* ===== verification/Graph.thy ===== *)
theory Graph imports Routes begin

text \<open>
  The walks of \<^verbatim>\<open>compiler/compiler.py\<close> over the routed graph: \<^verbatim>\<open>_reaches\<close>, the checks
  of the review routes, and the depth-first walk of \<^verbatim>\<open>_validate_graph\<close> that refuses
  cycles, too deep collection nesting and unreachable flows. Lists that the code uses as
  stacks are kept with their top first. The walk is a loop without a syntactic bound, so it
  is a partial function; that it returns is proved.
\<close>

section \<open>Reachability\<close>

text \<open>\<^verbatim>\<open>_reaches\<close>: the top of \<^verbatim>\<open>pending\<close> is its head; every node is expanded once.\<close>

definition successors :: "(string, string list) dict \<Rightarrow> string \<Rightarrow> string list" where
  "successors g n = (case get g n of Some ns \<Rightarrow> ns | None \<Rightarrow> [])"

function reaches_from ::
  "(string, string list) dict \<Rightarrow> string \<Rightarrow> string list \<Rightarrow> string list \<Rightarrow> bool" where
  "reaches_from g goal [] seen = False"
| "reaches_from g goal (n # pending) seen =
     (if n = goal then True
      else if n \<in> set seen then reaches_from g goal pending seen
      else reaches_from g goal (rev (successors g n) @ pending) (n # seen))"
  by pat_completeness auto
termination
proof (relation "inv_image (less_than <*lex*> less_than)
    (\<lambda>(g, _, pending, seen). (card (set (keys g) - set seen), length pending))", goal_cases)
  case (3 g goal n pending seen)
  show ?case
  proof (cases "n \<in> set (keys g)")
    case True
    with 3 have "card (set (keys g) - set (n # seen)) < card (set (keys g) - set seen)"
      by (intro psubset_card_mono) auto
    then show ?thesis by simp
  next
    case False
    then have "get g n = None" by (simp add: get_None_iff)
    moreover from False have "set (keys g) - set (n # seen) = set (keys g) - set seen" by auto
    ultimately show ?thesis by (simp add: successors_def)
  qed
qed auto

definition reaches :: "(string, string list) dict \<Rightarrow> string \<Rightarrow> string \<Rightarrow> bool" where
  "reaches g start goal = reaches_from g goal [start] []"

definition succ_rel :: "(string, string list) dict \<Rightarrow> (string \<times> string) set" where
  "succ_rel g = {(a, b). b \<in> set (successors g a)}"

lemma succ_relI: "b \<in> set (successors g a) \<Longrightarrow> (a, b) \<in> succ_rel g"
  by (simp add: succ_rel_def)

text \<open>A set closed under the successors from which the goal is not reached.\<close>

lemma reaches_from_sound:
  "reaches_from g goal pending seen \<Longrightarrow> \<exists>n \<in> set pending. (n, goal) \<in> (succ_rel g)\<^sup>*"
proof (induction g goal pending seen rule: reaches_from.induct)
  case (1 g goal seen)
  then show ?case by simp
next
  case (2 g goal n pending seen)
  show ?case
  proof (cases "n = goal \<or> n \<in> set seen")
    case True
    with 2 show ?thesis by (auto split: if_splits)
  next
    case False
    with 2 obtain m where m: "m \<in> set (successors g n) \<union> set pending" "(m, goal) \<in> (succ_rel g)\<^sup>*"
      by auto
    from m(1) show ?thesis
    proof
      assume "m \<in> set (successors g n)"
      with m(2) have "(n, goal) \<in> (succ_rel g)\<^sup>*"
        by (meson converse_rtrancl_into_rtrancl succ_relI)
      then show ?thesis by simp
    qed (use m in auto)
  qed
qed

lemma reaches_from_complete:
  assumes "\<not> reaches_from g goal pending seen"
    and "\<And>a b. a \<in> set seen \<Longrightarrow> b \<in> set (successors g a) \<Longrightarrow> b \<in> set seen \<union> set pending"
    and "goal \<notin> set seen"
  shows "\<exists>C. set seen \<union> set pending \<subseteq> C \<and> goal \<notin> C \<and>
    (\<forall>a \<in> C. \<forall>b \<in> set (successors g a). b \<in> C)"
  using assms
proof (induction g goal pending seen rule: reaches_from.induct)
  case (1 g goal seen)
  then show ?case by (intro exI [of _ "set seen"]) auto
next
  case (2 g goal n pending seen)
  from 2(3) have n: "n \<noteq> goal" by auto
  show ?case
  proof (cases "n \<in> set seen")
    case True
    with 2(3) n have "\<not> reaches_from g goal pending seen" by simp
    moreover have "b \<in> set seen \<union> set pending" if "a \<in> set seen" "b \<in> set (successors g a)" for a b
      using 2(4) [OF that] True by auto
    ultimately obtain C where "set seen \<union> set pending \<subseteq> C" "goal \<notin> C"
        "\<forall>a \<in> C. \<forall>b \<in> set (successors g a). b \<in> C"
      using 2(1) [OF n True _ _ 2(5)] by blast
    with True show ?thesis by (intro exI [of _ C]) auto
  next
    case False
    with 2(3) n have "\<not> reaches_from g goal (rev (successors g n) @ pending) (n # seen)" by simp
    moreover have "b \<in> set (n # seen) \<union> set (rev (successors g n) @ pending)"
      if "a \<in> set (n # seen)" "b \<in> set (successors g a)" for a b
      using 2(4) [of a b] that by auto
    moreover have "goal \<notin> set (n # seen)" using 2(5) n by simp
    ultimately obtain C where "set (n # seen) \<union> set (rev (successors g n) @ pending) \<subseteq> C" "goal \<notin> C"
        "\<forall>a \<in> C. \<forall>b \<in> set (successors g a). b \<in> C"
      using 2(2) [OF n False] by blast
    then show ?thesis by (intro exI [of _ C]) auto
  qed
qed

lemma closed_rtrancl:
  "(a, b) \<in> (succ_rel g)\<^sup>* \<Longrightarrow> a \<in> C \<Longrightarrow> \<forall>a \<in> C. \<forall>b \<in> set (successors g a). b \<in> C \<Longrightarrow> b \<in> C"
  by (induction rule: rtrancl_induct) (auto simp: succ_rel_def)

lemma reaches_iff: "reaches g start goal \<longleftrightarrow> (start, goal) \<in> (succ_rel g)\<^sup>*"
proof
  assume "reaches g start goal"
  then show "(start, goal) \<in> (succ_rel g)\<^sup>*"
    using reaches_from_sound [of g goal "[start]" "[]"] by (simp add: reaches_def)
next
  assume path: "(start, goal) \<in> (succ_rel g)\<^sup>*"
  show "reaches g start goal"
  proof (rule ccontr)
    assume "\<not> reaches g start goal"
    then obtain C where "start \<in> C" "goal \<notin> C" "\<forall>a \<in> C. \<forall>b \<in> set (successors g a). b \<in> C"
      using reaches_from_complete [of g goal "[start]" "[]"] by (auto simp: reaches_def)
    with closed_rtrancl [OF path] show False by blast
  qed
qed

section \<open>Review routes\<close>

text \<open>
  The second loop of \<^verbatim>\<open>_validate_graph\<close>: a review route may not lead back to its flow.
  An inherited route is checked along every path, an own one only for the direct return
  (longer ones are cycles).
\<close>

definition routed_graph :: "flows \<Rightarrow> (string, string list) dict" where
  "routed_graph flows = map (\<lambda>(n, f). (n, routed_targets f)) flows"

definition check_review_target ::
  "flows \<Rightarrow> place \<Rightarrow> string \<times> flow \<Rightarrow> located \<Rightarrow> (compile_error, unit) result" where
  "check_review_target flows here p l =
     (case (p, l) of ((name, f), (t, w, path)) \<Rightarrow>
        case tg_flow t of
          None \<Rightarrow> Inr ()
        | Some n \<Rightarrow>
            if fl_on_unresolved_inherited f
            then (if n = name \<or> reaches (routed_graph flows) n name
              then Inl (Refused ''invalid_default_review_route'' here) else Inr ())
            else if n = name then Inl (fail_at ''review_route_to_self'' w path) else Inr ())"

definition check_review_routes ::
  "flows \<Rightarrow> (string, flow_source) dict \<Rightarrow> place \<Rightarrow> (compile_error, unit list list) result" where
  "check_review_routes flows sources w =
     mapE (\<lambda>p. bindE (lookupE sources (fst p)) (\<lambda>src.
       mapE (check_review_target flows (review_place (snd p) src w) p)
         (snd (flow_located_targets (snd p) src w))))
       (filter (\<lambda>p. \<not> fl_callable (snd p)) flows)"

section \<open>The depth-first walk\<close>

text \<open>
  A pending entry enters a flow, over an edge of the flow that pushed it, or exits one.
  \<^verbatim>\<open>visited\<close> is a set, \<^verbatim>\<open>call_depths\<close> a dictionary in the order flows are finished.
\<close>

datatype task = Enter string "(edge \<times> string) option" | Exit string

record walk_state =
  wk_visited :: "string set"
  wk_stack :: "string list"
  wk_depths :: "(string, nat) dict"
  wk_pending :: "task list"

definition edge_depth :: "(string, nat) dict \<Rightarrow> edge \<Rightarrow> (compile_error, nat) result" where
  "edge_depth depths e = mapR (\<lambda>d. d + eg_weight e) (lookupE depths (eg_target e))"

definition exit_flow ::
  "graph \<Rightarrow> (string, flow_source) dict \<Rightarrow> walk_state \<Rightarrow> string \<Rightarrow> task list \<Rightarrow>
     (compile_error, walk_state) result" where
  "exit_flow g sources s n rest =
     bindE (lookupE g n) (\<lambda>es. bindE (mapE (edge_depth (wk_depths s)) es) (\<lambda>ds.
       let d = foldr max ds 0 in
       if MAX_COLLECTION_DEPTH < d
       then bindE (lookupE sources n) (\<lambda>src.
         Inl (fail_at ''collection_depth_exceeded'' (src_instance src) []))
       else case wk_stack s of
           [] \<Rightarrow> Inl Defect
         | _ # stack \<Rightarrow> Inr \<lparr>wk_visited = insert n (wk_visited s), wk_stack = stack,
             wk_depths = put n d (wk_depths s), wk_pending = rest\<rparr>))"

definition enter_node ::
  "graph \<Rightarrow> walk_state \<Rightarrow> string \<Rightarrow> (edge \<times> string) option \<Rightarrow> task list \<Rightarrow>
     (compile_error, walk_state) result" where
  "enter_node g s n via rest =
     (if n \<in> set (wk_stack s)
      then Inl (case via of
         Some (e, _) \<Rightarrow> fail_at ''workflow_cycle'' (eg_place e) (eg_path e)
       | None \<Rightarrow> Defect)
      else if n \<in> wk_visited s then Inr (s\<lparr>wk_pending := rest\<rparr>)
      else mapR (\<lambda>es. s\<lparr>wk_stack := n # wk_stack s,
          wk_pending := map (\<lambda>e. Enter (eg_target e) (Some (e, n))) es @ Exit n # rest\<rparr>)
        (lookupE g n))"

definition walk_step ::
  "graph \<Rightarrow> (string, flow_source) dict \<Rightarrow> walk_state \<Rightarrow> (compile_error, walk_state) result" where
  "walk_step g sources s =
     (case wk_pending s of
        [] \<Rightarrow> Inr s
      | Exit n # rest \<Rightarrow> exit_flow g sources s n rest
      | Enter n via # rest \<Rightarrow> enter_node g s n via rest)"

partial_function (option) walk ::
  "graph \<Rightarrow> (string, flow_source) dict \<Rightarrow> walk_state \<Rightarrow> (compile_error, walk_state) result option" where
  "walk g sources s =
     (if wk_pending s = [] then Some (Inr s)
      else case walk_step g sources s of
          Inl e \<Rightarrow> Some (Inl e)
        | Inr s' \<Rightarrow> walk g sources s')"

declare walk.simps [code]

definition walk_start :: "string list \<Rightarrow> walk_state" where
  "walk_start starts = \<lparr>wk_visited = {}, wk_stack = [], wk_depths = [],
     wk_pending = map (\<lambda>n. Enter n None) starts\<rparr>"

section \<open>What the walk decides\<close>

definition edges_of :: "graph \<Rightarrow> string \<Rightarrow> edge list" where
  "edges_of g n = (case get g n of Some es \<Rightarrow> es | None \<Rightarrow> [])"

definition edge_rel :: "graph \<Rightarrow> (string \<times> string) set" where
  "edge_rel g = {(a, b). b \<in> eg_target ` set (edges_of g a)}"

text \<open>Some chain of edges from a flow has this total nesting weight.\<close>

inductive nests :: "graph \<Rightarrow> string \<Rightarrow> nat \<Rightarrow> bool" for g where
  nests_end: "nests g n 0"
| nests_edge: "e \<in> set (edges_of g n) \<Longrightarrow> nests g (eg_target e) k \<Longrightarrow> nests g n (k + eg_weight e)"

definition graph_closed :: "graph \<Rightarrow> bool" where
  "graph_closed g \<longleftrightarrow> (\<forall>n es. get g n = Some es \<longrightarrow> eg_target ` set es \<subseteq> set (keys g))"

text \<open>
  The pending entries against the stack: an exit belongs to the top of the stack, whose
  successors are finished or entered above it; entries between two exits come from the flow
  whose exit follows.
\<close>

fun frames :: "graph \<Rightarrow> string set \<Rightarrow> task list \<Rightarrow> string list \<Rightarrow> bool" where
  "frames g A [] stk \<longleftrightarrow> stk = []"
| "frames g A (Enter n via # p) stk \<longleftrightarrow>
     (case via of
        None \<Rightarrow> stk = []
      | Some (e, m) \<Rightarrow> stk \<noteq> [] \<and> hd stk = m \<and> e \<in> set (edges_of g m) \<and> eg_target e = n)
     \<and> n \<in> set (keys g) \<and> frames g (insert n A) p stk"
| "frames g A (Exit n # p) stk \<longleftrightarrow> stk \<noteq> [] \<and> hd stk = n \<and> n \<in> set (keys g) \<and>
     eg_target ` set (edges_of g n) \<subseteq> A \<and> frames g (insert n A) p (tl stk)"

fun task_name :: "task \<Rightarrow> string" where
  "task_name (Enter n _) = n"
| "task_name (Exit n) = n"

lemma frames_more: "frames g A p stk \<Longrightarrow> frames g (A \<union> B) p stk"
  by (induction g A p stk rule: frames.induct) (auto split: option.splits)

lemma frames_mono: "frames g A p stk \<Longrightarrow> A \<subseteq> B \<Longrightarrow> frames g B p stk"
  using frames_more [of g A p stk B] by (simp add: sup_absorb2)

lemma frames_push:
  assumes "frames g (insert n A) p stk" "n \<in> set (keys g)"
    and "\<forall>e \<in> set es. e \<in> set (edges_of g n) \<and> eg_target e \<in> set (keys g)"
    and "eg_target ` set (edges_of g n) \<subseteq> eg_target ` set es \<union> A"
  shows "frames g A (map (\<lambda>e. Enter (eg_target e) (Some (e, n))) es @ Exit n # p) (n # stk)"
  using assms
proof (induction es arbitrary: A)
  case (Cons e es)
  have "frames g (insert n (insert (eg_target e) A)) p stk"
    using Cons.prems(1) by (rule frames_mono) auto
  from Cons.IH [OF this] Cons.prems show ?case by auto
qed simp

text \<open>A finishing order: the successors of every flow are finished before it.\<close>

definition finish_order :: "graph \<Rightarrow> string list \<Rightarrow> bool" where
  "finish_order g ns \<longleftrightarrow>
     (\<forall>ys n zs. ns = ys @ n # zs \<longrightarrow> eg_target ` set (edges_of g n) \<subseteq> set ys)"

lemma finish_order_snoc:
  assumes "finish_order g ns" "eg_target ` set (edges_of g n) \<subseteq> set ns"
  shows "finish_order g (ns @ [n])"
  unfolding finish_order_def
proof (intro allI impI)
  fix ys m zs
  assume eq: "ns @ [n] = ys @ m # zs"
  show "eg_target ` set (edges_of g m) \<subseteq> set ys"
  proof (cases zs rule: rev_cases)
    case Nil
    with eq assms(2) show ?thesis by simp
  next
    case (snoc zs' z)
    with eq have "ns = ys @ m # zs'" by simp
    with assms(1) show ?thesis by (auto simp: finish_order_def)
  qed
qed

definition depth_of :: "graph \<Rightarrow> string \<Rightarrow> nat \<Rightarrow> bool" where
  "depth_of g n d \<longleftrightarrow> nests g n d \<and> (\<forall>k. nests g n k \<longrightarrow> k \<le> d)"

definition walk_inv :: "graph \<Rightarrow> string list \<Rightarrow> walk_state \<Rightarrow> bool" where
  "walk_inv g starts s \<longleftrightarrow>
     frames g (wk_visited s) (wk_pending s) (wk_stack s) \<and>
     distinct (wk_stack s) \<and> set (wk_stack s) \<inter> wk_visited s = {} \<and>
     set (wk_stack s) \<subseteq> set (keys g) \<and> wk_visited s \<subseteq> set (keys g) \<and>
     successively (\<lambda>a b. (b, a) \<in> edge_rel g) (wk_stack s) \<and>
     wk_visited s = set (keys (wk_depths s)) \<and> finish_order g (keys (wk_depths s)) \<and>
     (\<forall>n d. get (wk_depths s) n = Some d \<longrightarrow> depth_of g n d \<and> d \<le> MAX_COLLECTION_DEPTH) \<and>
     set starts \<subseteq> wk_visited s \<union> task_name ` set (wk_pending s) \<and>
     wk_visited s \<union> task_name ` set (wk_pending s) \<subseteq> (edge_rel g)\<^sup>* `` set starts"

lemma frames_start: "set ns \<subseteq> set (keys g) \<Longrightarrow> frames g A (map (\<lambda>n. Enter n None) ns) []"
  by (induction ns arbitrary: A) auto

lemma walk_inv_start: "set starts \<subseteq> set (keys g) \<Longrightarrow> walk_inv g starts (walk_start starts)"
  by (auto simp: walk_inv_def walk_start_def frames_start finish_order_def image_image)


section \<open>The walk keeps its invariant\<close>

lemma edges_of_get: "get g n = Some es \<Longrightarrow> edges_of g n = es"
  by (simp add: edges_of_def)

lemma nests_max:
  assumes "list_all2 (\<lambda>e d. \<exists>k. depth_of g (eg_target e) k \<and> d = k + eg_weight e) (edges_of g n) ds"
  shows "depth_of g n (foldr max ds 0)"
proof -
  have ex: "\<exists>i < length ds. d = ds ! i" if "d \<in> set ds" for d
    using that by (auto simp: in_set_conv_nth)
  have len: "length (edges_of g n) = length ds" using assms by (rule list_all2_lengthD)
  have nth: "\<exists>k. depth_of g (eg_target (edges_of g n ! i)) k \<and> ds ! i = k + eg_weight (edges_of g n ! i)"
    if "i < length ds" for i using list_all2_nthD2 [OF assms that] .
  have in_max: "foldr max ds 0 = 0 \<or> foldr max ds 0 \<in> set ds"
    by (induction ds) (auto simp: max_def)
  have le_max: "d \<le> foldr max ds 0" if "d \<in> set ds" for d
    using that by (induction ds) (auto simp: le_max_iff_disj)
  have "nests g n (foldr max ds 0)"
  proof (cases "foldr max ds 0 \<in> set ds")
    case True
    with ex obtain i where i: "i < length ds" "foldr max ds 0 = ds ! i" by blast
    with nth [of i] len show ?thesis
      by (auto simp: depth_of_def intro!: nests_edge)
  next
    case False
    with in_max show ?thesis by (simp add: nests_end)
  qed
  moreover have "k \<le> foldr max ds 0" if "nests g n k" for k
    using that
  proof (cases rule: nests.cases)
    case (nests_edge e j)
    then obtain i where i: "i < length ds" "e = edges_of g n ! i"
      using len by (auto simp: in_set_conv_nth)
    with nth [of i] nests_edge have "k \<le> ds ! i" by (auto simp: depth_of_def)
    with le_max [of "ds ! i"] i show ?thesis by (meson le_trans nth_mem)
  qed simp
  ultimately show ?thesis by (simp add: depth_of_def)
qed

text \<open>The depths of the finished successors are all found.\<close>

lemma edge_depths_found:
  assumes "\<forall>e \<in> set es. eg_target e \<in> set (keys depths)"
  shows "\<exists>ds. mapE (edge_depth depths) es = Inr ds \<and>
    list_all2 (\<lambda>e d. \<exists>k. get depths (eg_target e) = Some k \<and> d = k + eg_weight e) es ds"
  using assms
proof (induction es)
  case (Cons e es)
  then obtain k where "get depths (eg_target e) = Some k"
    by (metis get_None_iff list.set_intros(1) not_Some_eq)
  with Cons show ?case by (auto simp: edge_depth_def lookupE_def)
qed simp

text \<open>A flow on the stack reaches the top of the stack.\<close>

lemma stack_path:
  assumes "successively (\<lambda>a b. (b, a) \<in> edge_rel g) stk" "n \<in> set stk"
  shows "(n, hd stk) \<in> (edge_rel g)\<^sup>*"
  using assms
proof (induction stk)
  case (Cons m stk)
  show ?case
  proof (cases "n = m")
    case False
    with Cons.prems have n: "n \<in> set stk" by simp
    then obtain k rest where stk: "stk = k # rest" by (cases stk) auto
    with Cons.prems have "(k, m) \<in> edge_rel g" by (simp add: successively_Cons)
    moreover have "(n, k) \<in> (edge_rel g)\<^sup>*"
      using Cons.IH [OF _ n] Cons.prems(1) stk by (simp add: successively_Cons)
    ultimately show ?thesis by simp
  qed simp
qed simp

text \<open>What a refusal of the walk says about the graph.\<close>

definition walk_refusal :: "graph \<Rightarrow> string list \<Rightarrow> compile_error \<Rightarrow> bool" where
  "walk_refusal g starts e = (case e of
     Refused code _ \<Rightarrow>
       (code = ''workflow_cycle'' \<and> (\<exists>n. (n, n) \<in> (edge_rel g)\<^sup>+)) \<or>
       (code = ''collection_depth_exceeded'' \<and> (\<exists>n \<in> (edge_rel g)\<^sup>* `` set starts.
          \<exists>k > MAX_COLLECTION_DEPTH. nests g n k))
   | Defect \<Rightarrow> False)"

lemma exit_flow_inv:
  assumes inv: "walk_inv g starts s" and p: "wk_pending s = Exit n # rest"
    and src: "set (keys g) \<subseteq> set (keys sources)"
  shows "case exit_flow g sources s n rest of
      Inl e \<Rightarrow> walk_refusal g starts e
    | Inr s' \<Rightarrow> walk_inv g starts s' \<and> wk_pending s' = rest \<and>
        wk_visited s' \<union> set (wk_stack s') = wk_visited s \<union> set (wk_stack s)"
proof -
  from inv p obtain stk where stk: "wk_stack s = n # stk" and n: "n \<in> set (keys g)"
    and t: "eg_target ` set (edges_of g n) \<subseteq> wk_visited s"
    and fr: "frames g (insert n (wk_visited s)) rest stk"
    by (cases "wk_stack s") (auto simp: walk_inv_def)
  from n obtain es where es: "get g n = Some es" by (metis get_None_iff not_Some_eq)
  have vis: "wk_visited s = set (keys (wk_depths s))" using inv by (simp add: walk_inv_def)
  from t es vis obtain ds where ds: "mapE (edge_depth (wk_depths s)) es = Inr ds"
    "list_all2 (\<lambda>e d. \<exists>k. get (wk_depths s) (eg_target e) = Some k \<and> d = k + eg_weight e) es ds"
    using edge_depths_found [of es "wk_depths s"] by (auto simp: edges_of_get)
  have depths: "\<And>m d. get (wk_depths s) m = Some d \<Longrightarrow> depth_of g m d \<and> d \<le> MAX_COLLECTION_DEPTH"
    using inv by (simp add: walk_inv_def)
  have "list_all2 (\<lambda>e d. \<exists>k. depth_of g (eg_target e) k \<and> d = k + eg_weight e) (edges_of g n) ds"
    using ds(2) unfolding edges_of_get [OF es] by (rule list_all2_mono) (use depths in blast)
  then have d: "depth_of g n (foldr max ds 0)" by (rule nests_max)
  have start: "n \<in> (edge_rel g)\<^sup>* `` set starts"
    using inv p by (auto simp: walk_inv_def)
  obtain src where "get sources n = Some src" using n src by (metis get_None_iff not_Some_eq subsetD)
  then have look: "lookupE sources n = Inr src" "lookupE g n = Inr es"
    using es by (simp_all add: lookupE_def)
  show ?thesis
  proof (cases "MAX_COLLECTION_DEPTH < foldr max ds 0")
    case True
    then show ?thesis using d start look ds
      by (auto simp: exit_flow_def fail_at_def walk_refusal_def Let_def depth_of_def)
  next
    case False
    have new: "n \<notin> wk_visited s" using inv stk by (auto simp: walk_inv_def)
    then have keys: "keys (put n (foldr max ds 0) (wk_depths s)) = keys (wk_depths s) @ [n]"
      using vis by (simp add: put_new)
    have "successively (\<lambda>a b. (b, a) \<in> edge_rel g) stk"
      using inv stk by (auto simp: walk_inv_def successively_Cons)
    moreover have "finish_order g (keys (wk_depths s) @ [n])"
      by (rule finish_order_snoc) (use inv t vis in \<open>auto simp: walk_inv_def\<close>)
    ultimately show ?thesis
      using inv p stk n t fr new d False look ds vis depths
      by (auto simp: exit_flow_def Let_def walk_inv_def keys get_put)
  qed
qed

lemma enter_node_inv:
  assumes inv: "walk_inv g starts s" and p: "wk_pending s = Enter n via # rest"
    and closed: "graph_closed g"
  shows "case enter_node g s n via rest of
      Inl e \<Rightarrow> walk_refusal g starts e
    | Inr s' \<Rightarrow> walk_inv g starts s' \<and>
        (wk_visited s' = wk_visited s \<and> wk_stack s' = wk_stack s \<and> wk_pending s' = rest \<or>
         n \<notin> wk_visited s \<union> set (wk_stack s) \<and> n \<in> set (keys g) \<and>
         wk_visited s' = wk_visited s \<and> wk_stack s' = n # wk_stack s)"
proof -
  from inv p have n: "n \<in> set (keys g)" and fr: "frames g (insert n (wk_visited s)) rest (wk_stack s)"
    and via: "case via of None \<Rightarrow> wk_stack s = []
      | Some (e, m) \<Rightarrow> wk_stack s \<noteq> [] \<and> hd (wk_stack s) = m \<and> e \<in> set (edges_of g m) \<and> eg_target e = n"
    and reach: "n \<in> (edge_rel g)\<^sup>* `` set starts"
    by (auto simp: walk_inv_def)
  show ?thesis
  proof (cases "n \<in> set (wk_stack s)")
    case True
    with via obtain e m where v: "via = Some (e, m)" "hd (wk_stack s) = m" "(m, n) \<in> edge_rel g"
      by (cases via) (auto simp: edge_rel_def)
    have "(n, m) \<in> (edge_rel g)\<^sup>*"
      using stack_path [of g "wk_stack s" n] inv True v(2) by (simp add: walk_inv_def)
    with v(3) have "(n, n) \<in> (edge_rel g)\<^sup>+" by simp
    with True v(1) show ?thesis by (auto simp: enter_node_def walk_refusal_def fail_at_def)
  next
    case False
    show ?thesis
    proof (cases "n \<in> wk_visited s")
      case True
      then have "insert n (wk_visited s) = wk_visited s" by auto
      with True False inv p fr show ?thesis by (auto simp: enter_node_def walk_inv_def)
    next
      case new: False
      from n obtain es where es: "get g n = Some es" by (metis get_None_iff not_Some_eq)
      have targets: "\<forall>e \<in> set es. e \<in> set (edges_of g n) \<and> eg_target e \<in> set (keys g)"
        using closed es unfolding graph_closed_def edges_of_get [OF es] by blast
      have frames: "frames g (wk_visited s)
          (map (\<lambda>e. Enter (eg_target e) (Some (e, n))) es @ Exit n # rest) (n # wk_stack s)"
        by (rule frames_push [OF fr n targets]) (simp add: edges_of_get [OF es])
      have chain: "successively (\<lambda>a b. (b, a) \<in> edge_rel g) (n # wk_stack s)"
        using inv via by (cases via; cases "wk_stack s") (auto simp: walk_inv_def edge_rel_def)
      have below: "eg_target e \<in> (edge_rel g)\<^sup>* `` set starts" if "e \<in> set es" for e
      proof -
        have "(n, eg_target e) \<in> edge_rel g" using that by (auto simp: edge_rel_def edges_of_get [OF es])
        with reach show ?thesis by (meson Image_iff rtrancl.rtrancl_into_rtrancl)
      qed
      show ?thesis using new False n inv p frames chain below reach es
        by (auto simp: enter_node_def lookupE_def walk_inv_def image_image)
    qed
  qed
qed

definition walk_measure :: "graph \<Rightarrow> walk_state \<Rightarrow> nat \<times> nat" where
  "walk_measure g s = (card (set (keys g) - (wk_visited s \<union> set (wk_stack s))), length (wk_pending s))"

lemma walk_step_inv:
  assumes "walk_inv g starts s" "wk_pending s \<noteq> []" "graph_closed g" "set (keys g) \<subseteq> set (keys sources)"
  shows "case walk_step g sources s of
      Inl e \<Rightarrow> walk_refusal g starts e
    | Inr s' \<Rightarrow> walk_inv g starts s' \<and> (walk_measure g s', walk_measure g s) \<in> less_than <*lex*> less_than"
proof -
  obtain t rest where p: "wk_pending s = t # rest" using assms(2) by (cases "wk_pending s") auto
  show ?thesis
  proof (cases t)
    case (Enter n via)
    with p have pe: "wk_pending s = Enter n via # rest" by simp
    have less: "(walk_measure g s', walk_measure g s) \<in> less_than <*lex*> less_than"
      if "n \<in> set (keys g)" "n \<notin> wk_visited s \<union> set (wk_stack s)"
        "wk_visited s' = wk_visited s" "wk_stack s' = n # wk_stack s" for s'
    proof -
      have "card (set (keys g) - (wk_visited s' \<union> set (wk_stack s')))
          < card (set (keys g) - (wk_visited s \<union> set (wk_stack s)))"
        by (rule psubset_card_mono) (use that in auto)
      then show ?thesis by (simp add: walk_measure_def)
    qed
    have same: "(walk_measure g s', walk_measure g s) \<in> less_than <*lex*> less_than"
      if "wk_visited s' = wk_visited s" "wk_stack s' = wk_stack s" "wk_pending s' = rest" for s'
      using that by (simp add: walk_measure_def pe)
    from enter_node_inv [OF assms(1) pe assms(3)] show ?thesis
      using less same by (simp add: walk_step_def pe split: sum.splits) blast
  next
    case (Exit n)
    with p have pe: "wk_pending s = Exit n # rest" by simp
    from exit_flow_inv [OF assms(1) pe assms(4)] show ?thesis
      by (auto simp: walk_step_def pe walk_measure_def split: sum.splits)
  qed
qed

lemma walk_returns:
  assumes "walk_inv g starts s" "graph_closed g" "set (keys g) \<subseteq> set (keys sources)"
  shows "\<exists>r. walk g sources s = Some r \<and> (case r of
      Inl e \<Rightarrow> walk_refusal g starts e | Inr s' \<Rightarrow> walk_inv g starts s' \<and> wk_pending s' = [])"
  using assms(1)
proof (induction s rule: wf_induct_rule [OF wf_inv_image [where f = "walk_measure g",
      OF wf_lex_prod [OF wf_less_than wf_less_than]]])
  case (1 s)
  show ?case
  proof (cases "wk_pending s = []")
    case True
    with 1(2) show ?thesis by (subst walk.simps) simp
  next
    case False
    show ?thesis
    proof (cases "walk_step g sources s")
      case (Inl e)
      with walk_step_inv [OF 1(2) False assms(2,3)] show ?thesis
        by (subst walk.simps) (simp add: False)
    next
      case (Inr s')
      with walk_step_inv [OF 1(2) False assms(2,3)] 1(1) [of s'] show ?thesis
        by (subst walk.simps) (simp add: False in_inv_image)
    qed
  qed
qed

section \<open>The verdict\<close>

text \<open>The check after the walk: a flow it did not visit is refused.\<close>

definition check_reached :: "graph \<Rightarrow> place \<Rightarrow> string set \<Rightarrow> (compile_error, unit) result" where
  "check_reached g w visited =
     (case List.find (\<lambda>n. n \<notin> visited) (keys g) of
        Some n \<Rightarrow> Inl (fail_at ''unreachable_flow'' w [Key ''flows'', Key n])
      | None \<Rightarrow> Inr ())"

definition check_walk ::
  "graph \<Rightarrow> (string, flow_source) dict \<Rightarrow> place \<Rightarrow> string list \<Rightarrow> (compile_error, unit) result option" where
  "check_walk g sources w starts =
     map_option (\<lambda>r. bindE r (\<lambda>s. check_reached g w (wk_visited s))) (walk g sources (walk_start starts))"

text \<open>What an accepted graph satisfies.\<close>

definition graph_ok :: "graph \<Rightarrow> string list \<Rightarrow> bool" where
  "graph_ok g starts \<longleftrightarrow>
     set (keys g) \<subseteq> (edge_rel g)\<^sup>* `` set starts \<and> acyclic (edge_rel g) \<and>
     (\<forall>n \<in> set (keys g). \<forall>k. nests g n k \<longrightarrow> k \<le> MAX_COLLECTION_DEPTH)"

lemma edge_rel_key: "(a, b) \<in> edge_rel g \<Longrightarrow> a \<in> set (keys g)"
  by (cases "get g a") (auto simp: edge_rel_def edges_of_def dest: get_Some_key)

lemma edge_rel_closed: "(a, b) \<in> edge_rel g \<Longrightarrow> graph_closed g \<Longrightarrow> b \<in> set (keys g)"
proof -
  assume ab: "(a, b) \<in> edge_rel g" and "graph_closed g"
  then obtain es where "get g a = Some es" "b \<in> eg_target ` set es"
    by (cases "get g a") (auto simp: edge_rel_def edges_of_def)
  with \<open>graph_closed g\<close> show ?thesis unfolding graph_closed_def by blast
qed

lemma find_member: "List.find P xs = Some x \<Longrightarrow> x \<in> set xs \<and> P x"
  by (induction xs) (auto split: if_splits)

lemma finish_order_acyclic:
  assumes "finish_order g ns" "set (keys g) \<subseteq> set ns"
  shows "acyclic (edge_rel g)"
proof (rule acyclicI_order [where f = "\<lambda>n. length (takeWhile (\<lambda>m. m \<noteq> n) ns)"])
  fix a b assume ab: "(a, b) \<in> edge_rel g"
  then have "a \<in> set (keys g)" by (rule edge_rel_key)
  then obtain ys zs where ns: "ns = ys @ a # zs" "a \<notin> set ys"
    using assms(2) by (metis split_list_first subsetD)
  then have "b \<in> set ys" using assms(1) ab by (auto simp: finish_order_def edge_rel_def)
  then obtain ps qs where "ys = ps @ b # qs" "b \<notin> set ps" by (metis split_list_first)
  then have "length (takeWhile (\<lambda>m. m \<noteq> b) ns) < length ys"
    unfolding ns(1) by (simp add: takeWhile_tail le_imp_less_Suc length_takeWhile_le trans_le_add1)
  moreover have "takeWhile (\<lambda>m. m \<noteq> a) ns = ys"
    unfolding ns(1) using ns(2) by (subst takeWhile_append2) auto
  ultimately show "length (takeWhile (\<lambda>m. m \<noteq> b) ns) < length (takeWhile (\<lambda>m. m \<noteq> a) ns)" by simp
qed

lemma walk_end:
  assumes "walk_inv g starts s" "wk_pending s = []"
  shows "wk_visited s = (edge_rel g)\<^sup>* `` set starts"
proof
  show "wk_visited s \<subseteq> (edge_rel g)\<^sup>* `` set starts" using assms by (auto simp: walk_inv_def)
  have "b \<in> wk_visited s" if a: "a \<in> wk_visited s" and ab: "(a, b) \<in> edge_rel g" for a b
  proof -
    from a obtain ys zs where "keys (wk_depths s) = ys @ a # zs"
      using assms(1) by (auto simp: walk_inv_def dest: split_list)
    moreover have "finish_order g (keys (wk_depths s))" "wk_visited s = set (keys (wk_depths s))"
      using assms(1) by (simp_all add: walk_inv_def)
    ultimately show ?thesis using ab unfolding finish_order_def edge_rel_def by auto
  qed
  then have closed: "edge_rel g `` wk_visited s \<subseteq> wk_visited s" by blast
  have "set starts \<subseteq> wk_visited s" using assms by (auto simp: walk_inv_def)
  then show "(edge_rel g)\<^sup>* `` set starts \<subseteq> wk_visited s"
    using Image_closed_trancl [OF closed] by blast
qed

lemma check_reached_iff: "check_reached g w V = Inr () \<longleftrightarrow> set (keys g) \<subseteq> V"
proof (cases "List.find (\<lambda>n. n \<notin> V) (keys g)")
  case None
  then have "\<not> (\<exists>n. n \<in> set (keys g) \<and> n \<notin> V)" unfolding find_None_iff by simp
  then show ?thesis unfolding check_reached_def None by auto
next
  case (Some n)
  then have "n \<in> set (keys g)" "n \<notin> V" using find_member by fast+
  then show ?thesis unfolding check_reached_def Some by auto
qed

text \<open>The walk returns, and accepts exactly the graphs that are as they should be.\<close>

lemma check_walk_decides:
  assumes "graph_closed g" "set starts \<subseteq> set (keys g)" "set (keys g) \<subseteq> set (keys sources)"
  shows "\<exists>r. check_walk g sources w starts = Some r \<and> (r = Inr () \<longleftrightarrow> graph_ok g starts) \<and> r \<noteq> Inl Defect"
proof -
  from walk_returns [OF walk_inv_start [OF assms(2)] assms(1,3)] obtain r where
    r: "walk g sources (walk_start starts) = Some r" and spec: "case r of
      Inl e \<Rightarrow> walk_refusal g starts e | Inr s' \<Rightarrow> walk_inv g starts s' \<and> wk_pending s' = []" by blast
  show ?thesis
  proof (cases r)
    case (Inl e)
    have reach: "n \<in> set (keys g)" if "n \<in> (edge_rel g)\<^sup>* `` set starts" for n
    proof -
      from that obtain a where "a \<in> set starts" "(a, n) \<in> (edge_rel g)\<^sup>*" by blast
      from this(2,1) show ?thesis
      proof (induction rule: rtrancl_induct)
        case (step b c)
        then show ?case using assms(1) edge_rel_closed by blast
      qed (use assms(2) in blast)
    qed
    from Inl spec have ref: "walk_refusal g starts e" by simp
    then have "\<not> graph_ok g starts"
      using reach by (fastforce simp: walk_refusal_def graph_ok_def acyclic_def split: compile_error.splits)
    moreover have "e \<noteq> Defect" using ref by (auto simp: walk_refusal_def)
    ultimately show ?thesis using r Inl by (simp add: check_walk_def)
  next
    case (Inr s)
    with spec have inv: "walk_inv g starts s" "wk_pending s = []" by simp_all
    have vis: "wk_visited s = (edge_rel g)\<^sup>* `` set starts" by (rule walk_end [OF inv])
    have "graph_ok g starts" if "set (keys g) \<subseteq> wk_visited s"
    proof -
      have keys: "set (keys g) \<subseteq> set (keys (wk_depths s))" using inv that by (simp add: walk_inv_def)
      with finish_order_acyclic [OF _ keys] inv have "acyclic (edge_rel g)" by (simp add: walk_inv_def)
      moreover have "k \<le> MAX_COLLECTION_DEPTH" if n: "n \<in> set (keys g)" and k: "nests g n k" for n k
      proof -
        from keys n obtain d where "get (wk_depths s) n = Some d"
          by (metis get_None_iff not_Some_eq subsetD)
        with inv k show ?thesis by (force simp: walk_inv_def depth_of_def)
      qed
      ultimately show ?thesis using that vis by (simp add: graph_ok_def)
    qed
    moreover have "check_reached g w (wk_visited s) \<noteq> Inl Defect"
      by (simp add: check_reached_def fail_at_def split: option.splits)
    moreover have "graph_ok g starts \<Longrightarrow> set (keys g) \<subseteq> wk_visited s"
      using vis by (simp add: graph_ok_def)
    ultimately show ?thesis using r Inr
      by (auto simp: check_walk_def check_reached_iff)
  qed
qed

end
