(* ===== verification/Dominators.thy ===== *)
theory Dominators imports Graph begin

text \<open>
  The second half of \<^verbatim>\<open>_validate_graph\<close> in \<^verbatim>\<open>compiler/compiler.py\<close>: predecessors with a
  virtual entry, the iteration for dominators, the ancestors of every routed flow, and the
  whole function. Python iterates over sets in an order the code does not control; the
  order is a parameter (\<^verbatim>\<open>listing\<close>), and no result depends on it.
\<close>

section \<open>Loops that may raise\<close>

fun foldE :: "('s \<Rightarrow> 'a \<Rightarrow> ('e, 's) result) \<Rightarrow> 's \<Rightarrow> 'a list \<Rightarrow> ('e, 's) result" where
  "foldE f s [] = Inr s"
| "foldE f s (x # xs) = bindE (f s x) (\<lambda>s'. foldE f s' xs)"

section \<open>Predecessors\<close>

definition routed_names :: "flows \<Rightarrow> string list" where
  "routed_names flows = map fst (filter (\<lambda>p. \<not> fl_callable (snd p)) flows)"

text \<open>The virtual root; it is never the name of a flow.\<close>

definition entry_node :: string where
  "entry_node = []"

type_synonym node_sets = "(string, string set) dict"

definition add_pred :: "string \<Rightarrow> node_sets \<Rightarrow> string \<Rightarrow> (compile_error, node_sets) result" where
  "add_pred name preds successor =
     mapR (\<lambda>ps. put successor (insert name ps) preds) (lookupE preds successor)"

definition predecessors ::
  "flows \<Rightarrow> string list \<Rightarrow> (compile_error, node_sets) result" where
  "predecessors flows starts =
     bindE (foldE (\<lambda>preds (name, targets). foldE (add_pred name) preds targets)
         (map (\<lambda>n. (n, {})) (routed_names flows)) (routed_graph flows))
      (\<lambda>preds. foldE (add_pred entry_node) preds starts)"

section \<open>Dominators\<close>

definition node_set :: "node_sets \<Rightarrow> string \<Rightarrow> string set" where
  "node_set d n = (case get d n of Some s \<Rightarrow> s | None \<Rightarrow> {})"

text \<open>The intersection over the parents (none gives the empty set), and the node itself.\<close>

definition dom_update :: "node_sets \<Rightarrow> node_sets \<Rightarrow> string \<Rightarrow> (compile_error, string set) result" where
  "dom_update preds dm n =
     bindE (lookupE preds n) (\<lambda>ps.
       if ps \<subseteq> set (keys dm)
       then Inr (insert n (if ps = {} then {} else \<Inter> (node_set dm ` ps)))
       else Inl Defect)"

text \<open>One pass over the nodes; the flag is \<^verbatim>\<open>changed\<close>.\<close>

fun dom_round ::
  "node_sets \<Rightarrow> string list \<Rightarrow> node_sets \<times> bool \<Rightarrow> (compile_error, node_sets \<times> bool) result" where
  "dom_round preds [] st = Inr st"
| "dom_round preds (n # ns) (dm, changed) =
     bindE (dom_update preds dm n) (\<lambda>u. bindE (lookupE dm n) (\<lambda>old.
       if u \<noteq> old then dom_round preds ns (put n u dm, True)
       else dom_round preds ns (dm, changed)))"

partial_function (option) dom_loop ::
  "node_sets \<Rightarrow> string list \<Rightarrow> node_sets \<Rightarrow> (compile_error, node_sets) result option" where
  "dom_loop preds order dm =
     (case dom_round preds order (dm, False) of
        Inl e \<Rightarrow> Some (Inl e)
      | Inr (dm', changed) \<Rightarrow> if changed then dom_loop preds order dm' else Some (Inr dm'))"

declare dom_loop.simps [code]

definition dom_start :: "string list \<Rightarrow> node_sets" where
  "dom_start routed =
     map (\<lambda>n. (n, insert entry_node (set routed))) routed @ [(entry_node, {entry_node})]"

section \<open>Ancestors\<close>

definition real_parents :: "(string set \<Rightarrow> string list) \<Rightarrow> string set \<Rightarrow> string list" where
  "real_parents listing ps = filter (\<lambda>p. p \<noteq> entry_node) (listing ps)"

function ancestors_from ::
  "(string set \<Rightarrow> string list) \<Rightarrow> node_sets \<Rightarrow> string list \<Rightarrow> string set \<Rightarrow>
     (compile_error, string set) result" where
  "ancestors_from listing preds [] seen = Inr seen"
| "ancestors_from listing preds (n # pending) seen =
     (if n \<in> seen then ancestors_from listing preds pending seen
      else bindE (lookupE preds n) (\<lambda>ps.
        ancestors_from listing preds (rev (real_parents listing ps) @ pending) (insert n seen)))"
  by pat_completeness auto
termination
proof (relation "inv_image (less_than <*lex*> less_than)
    (\<lambda>(_, preds, pending, seen). (card (set (keys preds) - seen), length pending))", goal_cases)
  case (3 listing preds n pending seen ps)
  then have "n \<in> set (keys preds)"
    by (auto simp: lookupE_def dest: get_Some_key split: option.splits)
  with 3 have "card (set (keys preds) - insert n seen) < card (set (keys preds) - seen)"
    by (intro psubset_card_mono) auto
  then show ?case by simp
qed auto

definition ancestors_of ::
  "(string set \<Rightarrow> string list) \<Rightarrow> node_sets \<Rightarrow> string \<Rightarrow> (compile_error, string \<times> string set) result" where
  "ancestors_of listing preds n =
     bindE (lookupE preds n) (\<lambda>ps.
       mapR (\<lambda>seen. (n, seen)) (ancestors_from listing preds (rev (real_parents listing ps)) {}))"

section \<open>The whole check\<close>

record graph_result =
  gr_dominators :: node_sets
  gr_ancestors :: node_sets
  gr_retry_of :: "(string, string) dict"
  gr_successors :: "(string, string list) dict"

definition retry_for :: "graph_result \<Rightarrow> string \<Rightarrow> string set" where
  "retry_for G name = fst ` {p \<in> set (gr_retry_of G). snd p = name}"

definition may_have_run :: "graph_result \<Rightarrow> string \<Rightarrow> string set" where
  "may_have_run G name =
     (let routed = insert name (node_set (gr_ancestors G) name)
      in routed \<union> \<Union> (retry_for G ` routed))"

definition routed_retries ::
  "flows \<Rightarrow> (string, string) dict \<Rightarrow> (compile_error, (string, string) dict) result" where
  "routed_retries flows retry_of =
     mapR (\<lambda>ps. map fst (filter (\<lambda>p. \<not> snd p) ps))
       (mapE (\<lambda>p. mapR (\<lambda>f. (p, fl_callable f)) (lookupE flows (snd p))) retry_of)"

text \<open>From the predecessors to the result: \<^verbatim>\<open>_Graph(...)\<close>.\<close>

definition routed_analysis ::
  "(string set \<Rightarrow> string list) \<Rightarrow> flows \<Rightarrow> (string, string) dict \<Rightarrow> string list \<Rightarrow>
     (compile_error, graph_result) result option" where
  "routed_analysis listing flows retry_of starts =
     (let routed = listing (set (routed_names flows)) in
      case predecessors flows starts of
        Inl e \<Rightarrow> Some (Inl e)
      | Inr preds \<Rightarrow>
          map_option (\<lambda>r. bindE r (\<lambda>dm.
              bindE (mapE (ancestors_of listing preds) routed) (\<lambda>anc.
              mapR (\<lambda>retries.
                 \<lparr>gr_dominators = map (\<lambda>n. (n, node_set dm n - {entry_node})) routed,
                  gr_ancestors = anc, gr_retry_of = retries,
                  gr_successors = filter (\<lambda>p. fst p \<in> set routed) (routed_graph flows)\<rparr>)
                (routed_retries flows retry_of))))
            (dom_loop preds routed (dom_start (routed_names flows))))"

text \<open>\<^verbatim>\<open>_validate_graph\<close>\<close>

definition checked_graph ::
  "flows \<Rightarrow> start_plan \<Rightarrow> (string, string) dict \<Rightarrow> (string, flow_source) dict \<Rightarrow> place \<Rightarrow>
     (compile_error, graph) result" where
  "checked_graph flows start retry_of sources w =
     bindE (check_starts flows w start) (\<lambda>_.
      bindE (build_graph flows retry_of sources w) (\<lambda>g.
       mapR (\<lambda>_. g) (check_review_routes flows sources w)))"

definition validate_graph ::
  "(string set \<Rightarrow> string list) \<Rightarrow> flows \<Rightarrow> start_plan \<Rightarrow> (string, string) dict \<Rightarrow>
     (string, flow_source) dict \<Rightarrow> place \<Rightarrow> (compile_error, graph_result) result option" where
  "validate_graph listing flows start retry_of sources w =
     (case checked_graph flows start retry_of sources w of
        Inl e \<Rightarrow> Some (Inl e)
      | Inr g \<Rightarrow>
         (case check_walk g sources w (start_names start) of
            None \<Rightarrow> None
          | Some (Inl e) \<Rightarrow> Some (Inl e)
          | Some (Inr _) \<Rightarrow> routed_analysis listing flows retry_of (start_names start)))"

section \<open>Paths and dominance\<close>

text \<open>
  A path over a relation: it begins at a start, and each node leads to the next. A node
  dominates another one if it lies on every path to it.
\<close>

definition path_to :: "(string \<times> string) set \<Rightarrow> string set \<Rightarrow> string list \<Rightarrow> string \<Rightarrow> bool" where
  "path_to R S ps n \<longleftrightarrow>
     ps \<noteq> [] \<and> hd ps \<in> S \<and> last ps = n \<and> successively (\<lambda>a b. (a, b) \<in> R) ps"

definition dominates :: "(string \<times> string) set \<Rightarrow> string set \<Rightarrow> string \<Rightarrow> string \<Rightarrow> bool" where
  "dominates R S d n \<longleftrightarrow> (\<forall>ps. path_to R S ps n \<longrightarrow> d \<in> set ps)"

lemma path_to_single: "n \<in> S \<Longrightarrow> path_to R S [n] n"
  by (simp add: path_to_def)

lemma path_to_snoc: "path_to R S ps a \<Longrightarrow> (a, b) \<in> R \<Longrightarrow> path_to R S (ps @ [b]) b"
  by (auto simp: path_to_def successively_append_iff)

lemma path_to_induct [consumes 1, case_names single snoc]:
  assumes "path_to R S ps n"
    and "\<And>n. n \<in> S \<Longrightarrow> P [n] n"
    and "\<And>ps a b. path_to R S ps a \<Longrightarrow> P ps a \<Longrightarrow> (a, b) \<in> R \<Longrightarrow> P (ps @ [b]) b"
  shows "P ps n"
  using assms(1)
proof (induction ps arbitrary: n rule: rev_induct)
  case (snoc b ps)
  show ?case
  proof (cases "ps = []")
    case True
    with snoc.prems assms(2) [of n] show ?thesis by (auto simp: path_to_def)
  next
    case False
    with snoc.prems have p: "path_to R S ps (last ps)" "(last ps, b) \<in> R" "n = b"
      by (auto simp: path_to_def successively_append_iff)
    from assms(3) [OF p(1) snoc.IH [OF p(1)] p(2)] p(3) show ?thesis by simp
  qed
qed (simp add: path_to_def)

lemma path_to_exists: "n \<in> R\<^sup>* `` S \<Longrightarrow> \<exists>ps. path_to R S ps n"
proof -
  assume "n \<in> R\<^sup>* `` S"
  then obtain a where "a \<in> S" "(a, n) \<in> R\<^sup>*" by blast
  from this(2,1) show ?thesis
    by (induction rule: rtrancl_induct) (blast intro: path_to_single path_to_snoc)+
qed

lemma path_to_reaches:
  assumes "path_to R S ps n" "a \<in> set ps"
  shows "(a, n) \<in> R\<^sup>*"
  using assms by (induction rule: path_to_induct) (auto intro: rtrancl_into_rtrancl)

section \<open>The equations of the iteration\<close>

text \<open>The predecessors as a relation with the virtual entry, and one step of the iteration.\<close>

definition parents_of :: "(string \<times> string) set \<Rightarrow> string set \<Rightarrow> string \<Rightarrow> string set" where
  "parents_of R S n = {a. (a, n) \<in> R} \<union> (if n \<in> S then {entry_node} else {})"

definition dom_eq :: "(string \<Rightarrow> string set) \<Rightarrow> (string \<Rightarrow> string set) \<Rightarrow> string \<Rightarrow> string set" where
  "dom_eq P D n = insert n (if P n = {} then {} else \<Inter> (D ` P n))"

lemma dom_eq_mono: "(\<And>m. D m \<subseteq> D' m) \<Longrightarrow> dom_eq P D n \<subseteq> dom_eq P D' n"
  by (auto simp: dom_eq_def)

text \<open>Dominators satisfy one step of the iteration wherever they were contained before.\<close>

lemma dominates_step:
  assumes "dominates R S d n" "parents_of R S n \<noteq> {}" "entry_node \<notin> Domain R"
    and "\<And>p. p \<in> parents_of R S n \<Longrightarrow> p \<noteq> entry_node \<Longrightarrow> dominates R S d p \<Longrightarrow> d \<in> D p"
  shows "d \<in> dom_eq (parents_of R S) D n"
proof (cases "d = n")
  case False
  have "d \<in> D p" if p: "p \<in> parents_of R S n" for p
  proof (cases "p = entry_node")
    case True
    with p assms(3) have "n \<in> S" by (auto simp: parents_of_def split: if_splits)
    with assms(1) False show ?thesis by (auto simp: dominates_def dest: path_to_single)
  next
    case neq: False
    with p have "(p, n) \<in> R" by (auto simp: parents_of_def split: if_splits)
    then have "dominates R S d p"
      using assms(1) False path_to_snoc [of R S _ p n] by (fastforce simp: dominates_def)
    with p neq assms(4) show ?thesis by blast
  qed
  with assms(2) show ?thesis by (auto simp: dom_eq_def)
qed (simp add: dom_eq_def)

text \<open>At a fixpoint every member other than the entry lies on every path.\<close>

lemma fixpoint_dominates:
  assumes step: "\<And>n. n \<in> N \<Longrightarrow> D n = dom_eq (parents_of R S) D n"
    and entry: "D entry_node = {entry_node}" and nodes: "S \<subseteq> N" "Range R \<subseteq> N"
    and "path_to R S ps n" "d \<in> D n" "d \<noteq> entry_node"
  shows "d \<in> set ps"
  using assms(5,6)
proof (induction rule: path_to_induct)
  case (single n)
  then have "entry_node \<in> parents_of R S n" "n \<in> N" using nodes by (auto simp: parents_of_def)
  with single step [of n] entry assms(7) show ?case by (auto simp: dom_eq_def split: if_splits)
next
  case (snoc ps a b)
  then have "a \<in> parents_of R S b" "b \<in> N" using nodes by (auto simp: parents_of_def)
  with snoc step [of b] have "d = b \<or> d \<in> D a" by (auto simp: dom_eq_def split: if_splits)
  with snoc.IH show ?case by auto
qed

section \<open>The iteration computes dominators\<close>

text \<open>The situation of the loop: \<^verbatim>\<open>N\<close> are the routed flows, each of which has a parent.\<close>

definition dom_setup ::
  "(string \<times> string) set \<Rightarrow> string set \<Rightarrow> string set \<Rightarrow> node_sets \<Rightarrow> bool" where
  "dom_setup R S N preds \<longleftrightarrow>
     finite N \<and> entry_node \<notin> N \<and> S \<subseteq> N \<and> R \<subseteq> N \<times> N \<and> N \<subseteq> R\<^sup>* `` S \<and>
     (\<forall>n \<in> N. get preds n = Some (parents_of R S n))"

definition dom_inv ::
  "(string \<times> string) set \<Rightarrow> string set \<Rightarrow> string set \<Rightarrow> node_sets \<Rightarrow> bool" where
  "dom_inv R S N dm \<longleftrightarrow>
     set (keys dm) = insert entry_node N \<and> node_set dm entry_node = {entry_node} \<and>
     (\<forall>n \<in> N. node_set dm n \<subseteq> insert entry_node N \<and>
        dom_eq (parents_of R S) (node_set dm) n \<subseteq> node_set dm n \<and>
        (\<forall>d. dominates R S d n \<longrightarrow> d \<in> node_set dm n))"

definition dom_size :: "string set \<Rightarrow> node_sets \<Rightarrow> nat" where
  "dom_size N dm = (\<Sum>n \<in> N. card (node_set dm n))"

lemma node_set_put [simp]: "node_set (put k v d) n = (if k = n then v else node_set d n)"
  by (simp add: node_set_def)

lemma setup_parent:
  assumes "dom_setup R S N preds" "n \<in> N"
  shows "parents_of R S n \<noteq> {} \<and> parents_of R S n \<subseteq> insert entry_node N"
proof -
  from assms obtain a where a: "a \<in> S" "(a, n) \<in> R\<^sup>*" by (auto simp: dom_setup_def)
  from a(2) have "a = n \<or> (\<exists>b. (b, n) \<in> R)" by (auto elim: rtranclE)
  with a(1) assms show ?thesis by (auto simp: dom_setup_def parents_of_def)
qed

lemma dom_update_eq:
  assumes "dom_setup R S N preds" "dom_inv R S N dm" "n \<in> N"
  shows "dom_update preds dm n = Inr (dom_eq (parents_of R S) (node_set dm) n)"
  using assms setup_parent [OF assms(1,3)]
  by (auto simp: dom_update_def lookupE_def dom_setup_def dom_inv_def dom_eq_def)

text \<open>One update keeps the invariant, and shrinks the sets if it changes anything.\<close>

lemma dom_put_inv:
  assumes "dom_setup R S N preds" "dom_inv R S N dm" "n \<in> N"
  defines "u \<equiv> dom_eq (parents_of R S) (node_set dm) n"
  shows "dom_inv R S N (put n u dm)" "u \<subseteq> node_set dm n"
proof -
  let ?P = "parents_of R S" and ?D = "node_set dm" and ?D' = "node_set (put n u dm)"
  from assms(2,3) show sub: "u \<subseteq> node_set dm n" by (simp add: dom_inv_def u_def)
  then have less: "?D' m \<subseteq> ?D m" for m by auto
  have ne: "n \<noteq> entry_node" using assms(1,3) by (auto simp: dom_setup_def)
  have R: "entry_node \<notin> Domain R" using assms(1) by (auto simp: dom_setup_def)
  have eq: "dom_eq ?P ?D' m \<subseteq> ?D' m" if "m \<in> N" for m
  proof (cases "m = n")
    case True
    with dom_eq_mono [of ?D' ?D, OF less] show ?thesis by (simp add: u_def)
  next
    case False
    have "dom_eq ?P ?D' m \<subseteq> dom_eq ?P ?D m" by (rule dom_eq_mono) (rule less)
    also have "\<dots> \<subseteq> ?D m" using assms(2) that by (simp add: dom_inv_def)
    finally show ?thesis using False by simp
  qed
  have dom: "d \<in> ?D' m" if "m \<in> N" "dominates R S d m" for d m
  proof (cases "m = n")
    case True
    have "d \<in> u" unfolding u_def
    proof (rule dominates_step [OF _ _ R])
      show "dominates R S d n" using that True by simp
      show "?P n \<noteq> {}" using setup_parent [OF assms(1,3)] by simp
      fix p assume p: "p \<in> ?P n" "p \<noteq> entry_node" "dominates R S d p"
      then have "p \<in> N" using setup_parent [OF assms(1,3)] by auto
      with p assms(2) show "d \<in> ?D p" by (simp add: dom_inv_def)
    qed
    with True show ?thesis by simp
  next
    case False
    with assms(2) that show ?thesis by (simp add: dom_inv_def)
  qed
  have keys: "set (keys (put n u dm)) = insert entry_node N"
    using assms(2,3) by (subst keys_put) (auto simp: dom_inv_def)
  have entry: "?D' entry_node = {entry_node}" using assms(2) ne by (simp add: dom_inv_def)
  have within: "?D' m \<subseteq> insert entry_node N" if "m \<in> N" for m
  proof -
    have "?D m \<subseteq> insert entry_node N" using assms(2) that by (simp add: dom_inv_def)
    with less [of m] show ?thesis by (rule subset_trans)
  qed
  show "dom_inv R S N (put n u dm)"
    unfolding dom_inv_def by (intro conjI ballI allI impI keys entry within eq dom)
qed

lemma dom_size_put:
  assumes "finite N" "n \<in> N" "u \<subset> node_set dm n" "finite (node_set dm n)"
  shows "dom_size N (put n u dm) < dom_size N dm"
  unfolding dom_size_def
proof (rule sum_strict_mono_ex1 [OF assms(1)])
  show "\<forall>m \<in> N. card (node_set (put n u dm) m) \<le> card (node_set dm m)"
    using assms(3,4) by (simp add: card_mono psubset_imp_subset)
  show "\<exists>m \<in> N. card (node_set (put n u dm) m) < card (node_set dm m)"
    using assms(2-4) by (intro bexI [of _ n]) (simp_all add: psubset_card_mono)
qed

lemma dom_round_inv:
  assumes "dom_setup R S N preds" "dom_inv R S N dm" "set ns \<subseteq> N"
  shows "\<exists>dm' ch'. dom_round preds ns (dm, ch) = Inr (dm', ch') \<and> dom_inv R S N dm' \<and>
    (ch \<longrightarrow> ch') \<and> dom_size N dm' \<le> dom_size N dm \<and>
    (ch' \<longrightarrow> ch \<or> dom_size N dm' < dom_size N dm) \<and>
    (\<not> ch' \<longrightarrow> dm' = dm \<and> (\<forall>n \<in> set ns. node_set dm n = dom_eq (parents_of R S) (node_set dm) n))"
  using assms(2,3)
proof (induction ns arbitrary: dm ch)
  case (Cons n ns)
  let ?u = "dom_eq (parents_of R S) (node_set dm) n"
  from Cons.prems have n: "n \<in> N" by simp
  note upd = dom_update_eq [OF assms(1) Cons.prems(1) n]
  have "n \<in> set (keys dm)" using Cons.prems(1) n by (simp add: dom_inv_def)
  then have old: "lookupE dm n = Inr (node_set dm n)"
    by (auto simp: lookupE_def node_set_def get_None_iff split: option.splits)
  show ?case
  proof (cases "?u = node_set dm n")
    case True
    then have go: "dom_round preds (n # ns) (dm, ch) = dom_round preds ns (dm, ch)"
      using upd old by simp
    have "set ns \<subseteq> N" using Cons.prems(2) by simp
    from Cons.IH [OF Cons.prems(1) this, of ch] obtain dm' ch' where
      "dom_round preds ns (dm, ch) = Inr (dm', ch')" "dom_inv R S N dm'" "ch \<longrightarrow> ch'"
      "dom_size N dm' \<le> dom_size N dm" "ch' \<longrightarrow> ch \<or> dom_size N dm' < dom_size N dm"
      "\<not> ch' \<longrightarrow> dm' = dm \<and> (\<forall>n \<in> set ns. node_set dm n = dom_eq (parents_of R S) (node_set dm) n)"
      by blast
    with go True show ?thesis by (intro exI [of _ dm'] exI [of _ ch']) simp
  next
    case False
    note put = dom_put_inv [OF assms(1) Cons.prems(1) n]
    have "node_set dm n \<subseteq> insert entry_node N" using Cons.prems(1) n by (simp add: dom_inv_def)
    then have "finite (node_set dm n)" using assms(1) by (auto simp: dom_setup_def intro: finite_subset)
    with dom_size_put [of N n ?u dm] put(2) False n assms(1)
    have less: "dom_size N (put n ?u dm) < dom_size N dm" by (auto simp: dom_setup_def)
    have "set ns \<subseteq> N" using Cons.prems(2) by simp
    from Cons.IH [OF put(1) this, of True] obtain dm' ch' where
      "dom_round preds ns (put n ?u dm, True) = Inr (dm', ch')" "dom_inv R S N dm'" "ch'"
      "dom_size N dm' \<le> dom_size N (put n ?u dm)" by blast
    with upd old False less show ?thesis by (intro exI [of _ dm'] exI [of _ ch']) simp
  qed
qed simp

lemma dom_loop_inv:
  assumes "dom_setup R S N preds" "dom_inv R S N dm" "set order = N"
  shows "\<exists>dm'. dom_loop preds order dm = Some (Inr dm') \<and> dom_inv R S N dm' \<and>
    (\<forall>n \<in> N. node_set dm' n = dom_eq (parents_of R S) (node_set dm') n)"
  using assms(2)
proof (induction "dom_size N dm" arbitrary: dm rule: less_induct)
  case less
  from dom_round_inv [OF assms(1) less.prems, of order False] assms(3) obtain dm' ch' where
    r: "dom_round preds order (dm, False) = Inr (dm', ch')" "dom_inv R S N dm'"
      "ch' \<Longrightarrow> dom_size N dm' < dom_size N dm"
      "\<not> ch' \<Longrightarrow> dm' = dm \<and> (\<forall>n \<in> N. node_set dm n = dom_eq (parents_of R S) (node_set dm) n)"
    by blast
  show ?case
  proof (cases ch')
    case True
    with less.hyps [OF r(3) r(2)] r(1) show ?thesis by (subst dom_loop.simps) simp
  next
    case False
    with r show ?thesis by (subst dom_loop.simps) simp
  qed
qed

text \<open>The loop returns the dominators, whatever the order of its passes.\<close>

lemma dom_loop_dominators:
  assumes "dom_setup R S N preds" "dom_inv R S N dm" "set order = N"
  shows "\<exists>dm'. dom_loop preds order dm = Some (Inr dm') \<and>
    (\<forall>n \<in> N. node_set dm' n - {entry_node} = {d. dominates R S d n})"
proof -
  from dom_loop_inv [OF assms] obtain dm' where dm': "dom_loop preds order dm = Some (Inr dm')"
    "dom_inv R S N dm'" "\<And>n. n \<in> N \<Longrightarrow> node_set dm' n = dom_eq (parents_of R S) (node_set dm') n"
    by blast
  have "node_set dm' n - {entry_node} = {d. dominates R S d n}" if n: "n \<in> N" for n
  proof (intro equalityI subsetI)
    fix d assume "d \<in> node_set dm' n - {entry_node}"
    moreover have "S \<subseteq> N" "Range R \<subseteq> N" using assms(1) by (auto simp: dom_setup_def)
    moreover have "node_set dm' entry_node = {entry_node}" using dm'(2) by (simp add: dom_inv_def)
    ultimately have "d \<in> set ps" if "path_to R S ps n" for ps
      using fixpoint_dominates [of N "node_set dm'" R S ps n d, OF dm'(3)] that by blast
    then show "d \<in> {d. dominates R S d n}" by (simp add: dominates_def)
  next
    fix d assume "d \<in> {d. dominates R S d n}"
    moreover obtain ps where ps: "path_to R S ps n"
      using path_to_exists [of n R S] n assms(1) unfolding dom_setup_def by blast
    have "set ps \<subseteq> N" using ps assms(1) by (induction rule: path_to_induct) (auto simp: dom_setup_def)
    ultimately have "d \<in> node_set dm' n" "d \<in> N" using ps dm'(2) n
      by (auto simp: dominates_def dom_inv_def)
    then show "d \<in> node_set dm' n - {entry_node}" using assms(1) by (auto simp: dom_setup_def)
  qed
  with dm'(1) show ?thesis by blast
qed

end
