(* ===== verification/GraphChecks.thy ===== *)
theory GraphChecks imports Dominators "HOL-Library.List_Lexorder" "HOL-Library.Char_ord" begin

text \<open>
  What the graph checks of the compiler guarantee: the calls between flows (routes, collection
  steps and retry flows) that \<^verbatim>\<open>_validate_graph\<close> turns into edges, the meaning of an accepted
  graph, and of the dominators and ancestors it returns.
\<close>

section \<open>Calls between flows\<close>

text \<open>
  Flow \<^verbatim>\<open>a\<close> leads to flow \<^verbatim>\<open>b\<close>: by a route of a routed flow, by a collection step (which
  nests one level), or as its retry flow.
\<close>

definition collection_flows :: "step \<Rightarrow> string list" where
  "collection_flows s = (case st_body s of CollectionStep cs \<Rightarrow> cs_flows cs | _ \<Rightarrow> [])"

definition routes_to :: "flows \<Rightarrow> string \<Rightarrow> string \<Rightarrow> bool" where
  "routes_to flows a b \<longleftrightarrow>
     (case get flows a of
        Some f \<Rightarrow> \<not> fl_callable f \<and> b \<in> set (target_flows (flow_targets f)) | None \<Rightarrow> False)"

definition collects :: "flows \<Rightarrow> string \<Rightarrow> string \<Rightarrow> bool" where
  "collects flows a b \<longleftrightarrow>
     (case get flows a of
        Some f \<Rightarrow> b \<in> set (concat (map collection_flows (fl_steps f))) | None \<Rightarrow> False)"

definition calls :: "flows \<Rightarrow> (string, string) dict \<Rightarrow> string \<Rightarrow> string \<Rightarrow> nat \<Rightarrow> bool" where
  "calls flows retry_of a b w \<longleftrightarrow>
     (w = 0 \<and> routes_to flows a b) \<or> (w = 1 \<and> collects flows a b) \<or>
     (w = 0 \<and> a \<in> set (keys flows) \<and> (b, a) \<in> set retry_of)"

lemma target_flows_iff: "n \<in> set (target_flows ts) \<longleftrightarrow> (\<exists>t \<in> set ts. tg_flow t = Some n)"
  by (force simp: target_flows_def List.map_filter_def)

lemma located_route_targets: "fst ` set (located_route es w) = re_target ` set es"
proof -
  have "map fst (located_route es w) = map re_target (map snd (enumerate 0 es))"
    unfolding located_route_def map_map by (simp add: split_def comp_def)
  then have "set (map fst (located_route es w)) = set (map re_target (map snd (enumerate 0 es)))"
    by (rule arg_cong)
  then show ?thesis by (simp only: map_snd_enumerate set_map)
qed

lemma located_transition_targets: "fst ` set (located_transition t w) = set (transition_targets t)"
  by (cases t) (force simp: located_plain_def located_match_def match_targets_def located_route_targets)+

lemma located_review_targets: "fst ` set (located_review r w) = set (review_targets r)"
  by (cases r) (force simp: located_plain_def located_issues_def unresolved_targets_def located_route_targets)+

lemma flow_located_all:
  "fst ` (set (fst (flow_located_targets f src w)) \<union> set (snd (flow_located_targets f src w))) = set (flow_targets f)"
  by (cases "fl_transition f"; cases "fl_on_unresolved f")
    (simp_all add: flow_located_targets_def flow_targets_def image_Un
      located_transition_targets located_review_targets)

section \<open>Edges\<close>

abbreviation edge_kind :: "edge \<Rightarrow> string \<times> nat" where
  "edge_kind e \<equiv> (eg_target e, eg_weight e)"

lemma route_edges_kinds:
  "route_edges flows ls = Inr es \<Longrightarrow>
     edge_kind ` set es = {(n, 0) | n. \<exists>l \<in> set ls. tg_flow (fst l) = Some n} \<and>
     (\<forall>e \<in> set es. is_routed flows (eg_target e))"
proof (induction flows ls arbitrary: es rule: route_edges.induct)
  case (2 flows t w path rest)
  show ?case
  proof (cases "tg_flow t")
    case None
    with 2 show ?thesis by auto
  next
    case (Some n)
    with 2(3) obtain g es' where g: "get flows n = Some g" "\<not> fl_callable g"
      and es': "route_edges flows rest = Inr es'"
      and es: "es = \<lparr>eg_target = n, eg_weight = 0, eg_place = w, eg_path = path\<rparr> # es'"
      by (auto simp: mapR_Inr_iff split: option.splits if_splits)
    from 2(2) [OF Some g es'] g Some show ?thesis unfolding es by (auto simp: is_routed_def)
  qed
qed simp

lemma allowlist_edges_kinds:
  assumes "mapE (allowlist_edge flows w) (enumerate k ns) = Inr es"
  shows "edge_kind ` set es = (\<lambda>n. (n, 1)) ` set ns \<and>
    (\<forall>n \<in> set ns. \<exists>g. get flows n = Some g \<and> fl_callable g)"
  using assms
proof (induction ns arbitrary: k es)
  case (Cons n ns)
  then obtain e es' where e: "allowlist_edge flows w (k, n) = Inr e"
    "mapE (allowlist_edge flows w) (enumerate (Suc k) ns) = Inr es'" "es = e # es'"
    by (auto simp: bindE_Inr_iff mapR_Inr_iff)
  from e(1) have "edge_kind e = (n, 1)" "\<exists>g. get flows n = Some g \<and> fl_callable g"
    by (auto simp: allowlist_edge_def split: option.splits if_splits)
  with Cons.IH [OF e(2)] e(3) show ?case by auto
qed simp

lemma step_edges_kinds:
  assumes "step_edges flows src s = Inr es"
  shows "edge_kind ` set es = (\<lambda>n. (n, 1)) ` set (collection_flows s) \<and>
    (\<forall>n \<in> set (collection_flows s). \<exists>g. get flows n = Some g \<and> fl_callable g)"
  using assms allowlist_edges_kinds
  by (fastforce simp: step_edges_def collection_flows_def bindE_Inr_iff split: step_body.splits)

lemma steps_edges_kinds:
  assumes "mapE (step_edges flows src) ss = Inr ess"
  shows "edge_kind ` set (concat ess) = (\<lambda>n. (n, 1)) ` set (concat (map collection_flows ss)) \<and>
    (\<forall>n \<in> set (concat (map collection_flows ss)). \<exists>g. get flows n = Some g \<and> fl_callable g)"
  using assms
proof (induction ss arbitrary: ess)
  case (Cons s ss)
  then obtain es ess' where e: "step_edges flows src s = Inr es"
    "mapE (step_edges flows src) ss = Inr ess'" "ess = es # ess'"
    by (auto simp: bindE_Inr_iff mapR_Inr_iff)
  from step_edges_kinds [OF e(1)] Cons.IH [OF e(2)] e(3) show ?case
    by (simp add: image_Un ball_Un)
qed simp

lemma add_edge_kinds:
  assumes "\<forall>(k, e) \<in> set d. k = edge_kind e"
  shows "\<forall>(k, e) \<in> set (add_edge d e'). k = edge_kind e"
    "set (keys (add_edge d e')) = insert (edge_kind e') (set (keys d))"
proof (atomize(full), cases "get d (edge_kind e')")
  case None
  then have "add_edge d e' = d @ [(edge_kind e', e')]"
    by (simp add: add_edge_def Let_def put_new get_None_iff)
  with assms show "(\<forall>(k, e) \<in> set (add_edge d e'). k = edge_kind e) \<and>
    set (keys (add_edge d e')) = insert (edge_kind e') (set (keys d))" by auto
next
  case (Some a)
  with assms get_Some_key [OF Some] show "(\<forall>(k, e) \<in> set (add_edge d e'). k = edge_kind e) \<and>
    set (keys (add_edge d e')) = insert (edge_kind e') (set (keys d))"
    by (auto simp: add_edge_def Let_def)
qed

lemma unique_edges_kinds: "edge_kind ` set (unique_edges es) = edge_kind ` set es"
proof -
  have "(\<forall>(k, e) \<in> set (foldl add_edge d es). k = edge_kind e) \<and>
      set (keys (foldl add_edge d es)) = set (keys d) \<union> edge_kind ` set es"
    if "\<forall>(k, e) \<in> set d. k = edge_kind e" for d
    using that
  proof (induction es arbitrary: d)
    case (Cons e es)
    from Cons.IH [OF add_edge_kinds(1) [OF Cons.prems, of e]] add_edge_kinds(2) [OF Cons.prems, of e]
    show ?case by simp
  qed simp
  from this [of "[]"] have d: "\<forall>(k, e) \<in> set (foldl add_edge [] es). k = edge_kind e"
    "set (keys (foldl add_edge [] es)) = edge_kind ` set es" by simp_all
  from d(1) have "edge_kind ` snd ` set (foldl add_edge [] es) = fst ` set (foldl add_edge [] es)"
    by force
  with d(2) show ?thesis by (simp add: unique_edges_def)
qed

lemma retry_edges_kinds: "edge_kind ` set (retry_edges retry_of src name) = {(r, 0) | r. (r, name) \<in> set retry_of}"
  by (auto simp: retry_edges_def image_iff)

text \<open>The edges of one flow are its calls, and lead to flows of the right role.\<close>

lemma flow_edges_kinds:
  assumes "flow_edges flows retry_of w src (name, f) = Inr es" "get flows name = Some f"
  shows "edge_kind ` set es = {(b, k). calls flows retry_of name b k}"
    "\<And>b. routes_to flows name b \<Longrightarrow> is_routed flows b"
    "\<And>b. collects flows name b \<Longrightarrow> b \<in> set (keys flows) \<and> \<not> is_routed flows b"
proof -
  let ?ls = "(if fl_callable f then [] else fst (flow_located_targets f src w)) @
    (if fl_callable f then [] else snd (flow_located_targets f src w))"
  from assms(1) obtain routes css where r: "route_edges flows ?ls = Inr routes"
    and c: "mapE (step_edges flows src) (fl_steps f) = Inr css"
    and es: "es = unique_edges (routes @ concat css @ retry_edges retry_of src name)"
    by (auto simp: flow_edges_def bindE_Inr_iff split_def Let_def split: if_splits)
  have ls: "(\<exists>l \<in> set ?ls. tg_flow (fst l) = Some b) \<longleftrightarrow> routes_to flows name b" for b
  proof (cases "fl_callable f")
    case False
    have "(\<exists>l \<in> set ?ls. tg_flow (fst l) = Some b) \<longleftrightarrow> (\<exists>t \<in> fst ` set ?ls. tg_flow t = Some b)" by auto
    also have "fst ` set ?ls = set (flow_targets f)"
      using False flow_located_all [of f src w] by (simp add: image_Un)
    finally show ?thesis using False assms(2) by (simp add: routes_to_def target_flows_iff)
  qed (simp add: routes_to_def assms(2))
  note routes = route_edges_kinds [OF r, unfolded ls]
  have collect: "collects flows name b \<longleftrightarrow> b \<in> set (concat (map collection_flows (fl_steps f)))" for b
    by (simp add: collects_def assms(2))
  note steps = steps_edges_kinds [OF c, folded collect]
  have name: "name \<in> set (keys flows)" using assms(2) by (rule get_Some_key)
  have "edge_kind ` set es = edge_kind ` set routes \<union> edge_kind ` set (concat css) \<union>
      edge_kind ` set (retry_edges retry_of src name)"
    unfolding es unique_edges_kinds by (simp add: image_Un Un_assoc)
  also have "\<dots> = {(b, k). calls flows retry_of name b k}"
    unfolding routes [THEN conjunct1] steps [THEN conjunct1] retry_edges_kinds
    using name collect by (auto simp: calls_def)
  finally show "edge_kind ` set es = {(b, k). calls flows retry_of name b k}" .
  show "is_routed flows b" if "routes_to flows name b" for b
  proof -
    have "(b, 0) \<in> edge_kind ` set routes" using routes that by blast
    then obtain e where "e \<in> set routes" "eg_target e = b" by auto
    with routes show ?thesis by blast
  qed
  show "b \<in> set (keys flows) \<and> \<not> is_routed flows b" if "collects flows name b" for b
  proof -
    from that have "b \<in> set (concat (map collection_flows (fl_steps f)))" using collect by simp
    with steps [THEN conjunct2] obtain g where "get flows b = Some g" "fl_callable g" by blast
    then show ?thesis by (auto simp: is_routed_def dest: get_Some_key)
  qed
qed

lemma build_graph_kinds:
  assumes "build_graph flows retry_of sources w = Inr g" "dict_wf flows"
  shows "keys g = keys flows"
    "edge_kind ` set (edges_of g n) = {(b, k). calls flows retry_of n b k}"
    "routes_to flows a b \<Longrightarrow> is_routed flows b"
    "collects flows a b \<Longrightarrow> b \<in> set (keys flows) \<and> \<not> is_routed flows b"
proof -
  let ?row = "\<lambda>p q. \<exists>src. fst q = fst p \<and> flow_edges flows retry_of w src p = Inr (snd q)"
  have all: "list_all2 ?row flows g"
    using assms(1) unfolding build_graph_def mapE_Inr_iff
    by (rule list_all2_mono) (auto simp: bindE_Inr_iff mapR_Inr_iff)
  then show keys: "keys g = keys flows"
    by (induction rule: list_all2_induct) auto
  have row: "\<exists>src es. get g m = Some es \<and> flow_edges flows retry_of w src (m, f) = Inr es"
    if "get flows m = Some f" for m f
  proof -
    from that obtain i where i: "i < length flows" "flows ! i = (m, f)"
      by (metis in_set_conv_nth map_of_SomeD)
    with list_all2_nthD [OF all i(1)] have "?row (m, f) (g ! i)" by simp
    then obtain src es where "g ! i = (m, es)" "flow_edges flows retry_of w src (m, f) = Inr es"
      by (cases "g ! i") auto
    moreover have "(m, es) \<in> set g"
      using nth_mem [of i g] calculation(1) i(1) list_all2_lengthD [OF all] by simp
    then have "get g m = Some es" by (rule map_of_is_SomeI [rotated]) (simp only: keys assms(2))
    ultimately show ?thesis by blast
  qed
  show "edge_kind ` set (edges_of g n) = {(b, k). calls flows retry_of n b k}"
  proof (cases "get flows n")
    case None
    then have "n \<notin> set (keys flows)" by (simp add: get_None_iff)
    moreover from this have "get g n = None" unfolding get_None_iff keys .
    ultimately show ?thesis using None
      by (simp add: edges_of_def calls_def routes_to_def collects_def)
  next
    case (Some f)
    from row [OF this] flow_edges_kinds(1) [OF _ Some] show ?thesis
      by (metis edges_of_get)
  qed
  show "is_routed flows b" if "routes_to flows a b" for b
  proof (cases "get flows a")
    case None
    with that show ?thesis by (simp add: routes_to_def)
  next
    case (Some f)
    from row [OF this] flow_edges_kinds(2) [OF _ Some that] show ?thesis by blast
  qed
  show "b \<in> set (keys flows) \<and> \<not> is_routed flows b" if "collects flows a b" for b
  proof (cases "get flows a")
    case None
    with that show ?thesis by (simp add: collects_def)
  next
    case (Some f)
    from row [OF this] flow_edges_kinds(3) [OF _ Some that] show ?thesis by blast
  qed
qed

section \<open>Retry flows\<close>

text \<open>What \<^verbatim>\<open>_validate_repeats\<close> establishes of the flows and of the owners it returns.\<close>

definition retry_ok :: "flows \<Rightarrow> (string \<times> flow) list \<Rightarrow> (string, string) dict \<Rightarrow> bool" where
  "retry_ok flows seen retry_of \<longleftrightarrow> dict_wf retry_of \<and>
     (\<forall>retry owner. (retry, owner) \<in> set retry_of \<longleftrightarrow>
        (\<exists>f rp. (owner, f) \<in> set seen \<and> fl_repeat f = Some rp \<and> rp_retry_flow rp = Some retry)) \<and>
     (\<forall>(retry, owner) \<in> set retry_of. retry \<noteq> owner \<and>
        (\<exists>g. get flows retry = Some g \<and> fl_callable g \<and> fl_repeat g = None))"

lemma validate_repeat_ok:
  assumes "validate_repeat flows w declared r name f = Inr r'" "retry_ok flows seen r"
  shows "retry_ok flows (seen @ [(name, f)]) r'"
proof (cases "fl_repeat f")
  case None
  with assms show ?thesis by (auto simp: validate_repeat_def retry_ok_def)
next
  case (Some rp)
  show ?thesis
  proof (cases "rp_retry_flow rp")
    case None
    with Some assms show ?thesis
      by (auto simp: validate_repeat_def retry_ok_def Let_def split: if_splits)
  next
    case retry: (Some n)
    from assms(1) Some retry have r': "r' = put n name r" and p: "\<not> retry_problem flows r name n"
      by (auto simp: validate_repeat_def Let_def split: if_splits)
    from p obtain g where g: "get flows n = Some g" "fl_callable g" "n \<noteq> name" "get r n = None"
      "fl_repeat g = None" by (auto simp: retry_problem_def split: option.splits)
    then have new: "r' = r @ [(n, name)]" "n \<notin> set (keys r)"
      using r' by (simp_all add: put_new get_None_iff)
    with g assms(2) Some retry show ?thesis unfolding retry_ok_def by auto
  qed
qed

lemma validate_repeats_ok:
  assumes "validate_repeats flows w declared = Inr retry_of"
  shows "retry_ok flows flows retry_of"
proof -
  have "retry_ok flows (seen @ fs) r'"
    if "validate_repeats_from flows w declared r fs = Inr r'" "retry_ok flows seen r" for fs r r' seen
    using that
  proof (induction fs arbitrary: r seen)
    case (Cons p fs)
    obtain n f where p: "p = (n, f)" by fastforce
    with Cons.prems(1) obtain q where "validate_repeat flows w declared r n f = Inr q"
      "validate_repeats_from flows w declared q fs = Inr r'" by (auto simp: bindE_Inr_iff)
    with Cons.IH [OF this(2) validate_repeat_ok [OF this(1) Cons.prems(2)]] p show ?case by simp
  qed simp
  from this [of "[]" flows retry_of "[]"] assms show ?thesis
    by (simp add: validate_repeats_def retry_ok_def)
qed

section \<open>Predecessors\<close>

lemma add_preds:
  assumes "set targets \<subseteq> set (keys preds)"
  shows "\<exists>preds'. foldE (add_pred name) preds targets = Inr preds' \<and> keys preds' = keys preds \<and>
    (\<forall>n. node_set preds' n = node_set preds n \<union> (if n \<in> set targets then {name} else {}))"
  using assms
proof (induction targets arbitrary: preds)
  case (Cons t targets)
  then have t: "t \<in> set (keys preds)" by simp
  then have "lookupE preds t = Inr (node_set preds t)"
    by (auto simp: lookupE_def node_set_def get_None_iff split: option.splits)
  then have step: "add_pred name preds t = Inr (put t (insert name (node_set preds t)) preds)"
    by (simp add: add_pred_def)
  have k: "keys (put t (insert name (node_set preds t)) preds) = keys preds"
    by (rule keys_put_old [OF t])
  from Cons.IH [of "put t (insert name (node_set preds t)) preds", unfolded k] Cons.prems obtain q where
    "foldE (add_pred name) (put t (insert name (node_set preds t)) preds) targets = Inr q"
    "keys q = keys preds" "\<forall>n. node_set q n = node_set (put t (insert name (node_set preds t)) preds) n \<union>
      (if n \<in> set targets then {name} else {})" by auto
  with step show ?case by auto
qed simp

lemma add_all_preds:
  assumes "\<forall>(n, ts) \<in> set rs. set ts \<subseteq> set (keys preds)"
  shows "\<exists>preds'. foldE (\<lambda>preds (name, targets). foldE (add_pred name) preds targets) preds rs = Inr preds' \<and>
    keys preds' = keys preds \<and>
    (\<forall>n. node_set preds' n = node_set preds n \<union> {a. \<exists>ts. (a, ts) \<in> set rs \<and> n \<in> set ts})"
  using assms
proof (induction rs arbitrary: preds)
  case (Cons p rs)
  obtain a ts where p: "p = (a, ts)" by fastforce
  with Cons.prems have "set ts \<subseteq> set (keys preds)" by simp
  from add_preds [OF this, of a] obtain q where q: "foldE (add_pred a) preds ts = Inr q"
    "keys q = keys preds" "\<And>n. node_set q n = node_set preds n \<union> (if n \<in> set ts then {a} else {})"
    by blast
  from Cons.IH [of q, unfolded q(2)] Cons.prems obtain r where
    "foldE (\<lambda>preds (name, targets). foldE (add_pred name) preds targets) q rs = Inr r"
    "keys r = keys preds" "\<forall>n. node_set r n = node_set q n \<union> {a. \<exists>ts. (a, ts) \<in> set rs \<and> n \<in> set ts}"
    by auto
  with q p show ?case by auto
qed simp

text \<open>
  The relation of the routed flows. A callable flow has no routes: its authored form has no
  field for them.
\<close>

definition callable_unrouted :: "flows \<Rightarrow> bool" where
  "callable_unrouted flows \<longleftrightarrow> list_all (\<lambda>(n, f). \<not> fl_callable f \<or> flow_targets f = []) flows"

definition route_rel :: "flows \<Rightarrow> (string \<times> string) set" where
  "route_rel flows = {(a, b). routes_to flows a b}"

lemma keys_dict_of: "set (keys (dict_of ps d)) = fst ` set ps \<union> set (keys d)"
  by (induction ps d rule: dict_of.induct) (auto simp: keys_put [unfolded set_map])

lemma set_routed_targets: "set (routed_targets f) = set (target_flows (flow_targets f))"
  using keys_dict_of [of "map (\<lambda>n. (n, ())) (target_flows (flow_targets f))" "[]"]
  by (simp add: routed_targets_def image_image)

lemma map_of_const: "map_of (map (\<lambda>n. (n, v)) ns) k = (if k \<in> set ns then Some v else None)"
  by (induction ns) auto

lemma set_routed_names: "dict_wf flows \<Longrightarrow> set (routed_names flows) = {n. is_routed flows n}"
proof -
  assume wf: "dict_wf flows"
  have "is_routed flows n \<longleftrightarrow> (\<exists>f. (n, f) \<in> set flows \<and> \<not> fl_callable f)" for n
    unfolding is_routed_def map_of_eq_Some_iff [OF wf, symmetric] by (auto split: option.splits)
  then show ?thesis by (force simp: routed_names_def)
qed

lemma routed_graph_rel:
  assumes "dict_wf flows" "callable_unrouted flows"
  shows "(\<exists>ts. (a, ts) \<in> set (routed_graph flows) \<and> b \<in> set ts) \<longleftrightarrow> (a, b) \<in> route_rel flows"
proof -
  have "(\<exists>ts. (a, ts) \<in> set (routed_graph flows) \<and> b \<in> set ts) \<longleftrightarrow>
      (\<exists>f. get flows a = Some f \<and> b \<in> set (target_flows (flow_targets f)))"
    using assms(1) by (force simp: routed_graph_def set_routed_targets)
  also have "\<dots> \<longleftrightarrow> (a, b) \<in> route_rel flows"
    using assms(2) by (force simp: route_rel_def routes_to_def callable_unrouted_def list_all_iff
      target_flows_def List.map_filter_def split: option.splits dest: map_of_SomeD)
  finally show ?thesis .
qed

lemma predecessors_ok:
  assumes wf: "dict_wf flows" and cu: "callable_unrouted flows"
    and routed: "\<forall>a b. routes_to flows a b \<longrightarrow> is_routed flows b" "\<forall>n \<in> set starts. is_routed flows n"
  shows "\<exists>preds. predecessors flows starts = Inr preds \<and>
    (\<forall>n. is_routed flows n \<longrightarrow> get preds n = Some (parents_of (route_rel flows) (set starts) n))"
proof -
  let ?N = "{n. is_routed flows n}"
  let ?init = "map (\<lambda>n. (n, {} :: string set)) (routed_names flows)"
  have init: "set (keys ?init) = ?N" using set_routed_names [OF wf] by (simp add: image_image)
  have empty: "node_set ?init n = {}" for n
    by (simp add: node_set_def map_of_const)
  have "\<forall>(n, ts) \<in> set (routed_graph flows). set ts \<subseteq> set (keys ?init)"
    unfolding init using routed_graph_rel [OF wf cu] routed(1) by (auto simp: route_rel_def)
  from add_all_preds [OF this] obtain q where
    q: "foldE (\<lambda>preds (name, targets). foldE (add_pred name) preds targets) ?init (routed_graph flows) = Inr q"
    and kq: "keys q = keys ?init"
    and nq: "\<And>n. node_set q n = node_set ?init n \<union> {a. \<exists>ts. (a, ts) \<in> set (routed_graph flows) \<and> n \<in> set ts}"
    by blast
  have "set starts \<subseteq> set (keys q)" unfolding kq init using routed(2) by auto
  from add_preds [OF this, of entry_node] obtain r where
    r: "foldE (add_pred entry_node) q starts = Inr r" and kr: "keys r = keys q"
    and nr: "\<And>n. node_set r n = node_set q n \<union> (if n \<in> set starts then {entry_node} else {})"
    by blast
  have "predecessors flows starts = Inr r" using q r by (simp add: predecessors_def)
  moreover have "get r n = Some (parents_of (route_rel flows) (set starts) n)" if "is_routed flows n" for n
  proof -
    have "n \<in> set (keys r)" unfolding kr kq init using that by simp
    then have "get r n = Some (node_set r n)"
      by (auto simp: node_set_def get_None_iff split: option.splits)
    also have "node_set r n = parents_of (route_rel flows) (set starts) n"
      unfolding nr nq empty routed_graph_rel [OF wf cu] by (simp add: parents_of_def)
    finally show ?thesis .
  qed
  ultimately show ?thesis by blast
qed

section \<open>Ancestors\<close>

definition listing_ok :: "(string set \<Rightarrow> string list) \<Rightarrow> bool" where
  "listing_ok listing \<longleftrightarrow> (\<forall>A. finite A \<longrightarrow> set (listing A) = A \<and> distinct (listing A))"

lemma ancestors_from_closure:
  assumes "listing_ok listing" "finite N"
    and "\<forall>n \<in> N. get preds n = Some (P n) \<and> P n \<subseteq> insert entry_node N"
    and "set pending \<subseteq> N"
  shows "\<exists>s. ancestors_from listing preds pending seen = Inr s \<and> seen \<union> set pending \<subseteq> s \<and>
    ((\<forall>a \<in> seen. P a - {entry_node} \<subseteq> seen \<union> set pending) \<longrightarrow> (\<forall>a \<in> s. P a - {entry_node} \<subseteq> s)) \<and>
    (\<forall>C. seen \<union> set pending \<subseteq> C \<longrightarrow> (\<forall>a \<in> C. P a - {entry_node} \<subseteq> C) \<longrightarrow> s \<subseteq> C)"
  using assms
proof (induction listing preds pending seen rule: ancestors_from.induct)
  case (2 listing preds n pending seen)
  show ?case
  proof (cases "n \<in> seen")
    case True
    with 2(1) [OF True 2(3-5)] 2(6) show ?thesis by (simp add: insert_absorb)
  next
    case False
    from 2(6) have n: "n \<in> N" by simp
    with 2(5) have look: "lookupE preds n = Inr (P n)" "P n \<subseteq> insert entry_node N"
      by (simp_all add: lookupE_def)
    have "finite (P n)" by (rule finite_subset [OF look(2)]) (use 2(4) in simp)
    then have parents: "set (real_parents listing (P n)) = P n - {entry_node}"
      using 2(3) by (auto simp: real_parents_def listing_ok_def)
    have sub: "set (rev (real_parents listing (P n)) @ pending) \<subseteq> N"
      using parents look(2) 2(6) by auto
    from 2(2) [OF False look(1) 2(3-5) sub] obtain s where
      s: "ancestors_from listing preds (rev (real_parents listing (P n)) @ pending) (insert n seen) = Inr s"
      and sup: "insert n seen \<union> ((P n - {entry_node}) \<union> set pending) \<subseteq> s"
      and closed: "(\<forall>a \<in> insert n seen. P a - {entry_node} \<subseteq> insert n seen \<union> ((P n - {entry_node}) \<union> set pending)) \<longrightarrow>
        (\<forall>a \<in> s. P a - {entry_node} \<subseteq> s)"
      and least: "\<forall>C. insert n seen \<union> ((P n - {entry_node}) \<union> set pending) \<subseteq> C \<longrightarrow>
        (\<forall>a \<in> C. P a - {entry_node} \<subseteq> C) \<longrightarrow> s \<subseteq> C"
      unfolding set_append set_rev parents by - (elim exE conjE, rule that)
    show ?thesis
    proof (intro exI [of _ s] conjI impI allI)
      show "ancestors_from listing preds (n # pending) seen = Inr s" using False look(1) s by simp
      show "seen \<union> set (n # pending) \<subseteq> s" using sup by auto
      show "\<forall>a \<in> s. P a - {entry_node} \<subseteq> s" if "\<forall>a \<in> seen. P a - {entry_node} \<subseteq> seen \<union> set (n # pending)"
        by (rule closed [THEN mp]) (use that in auto)
      show "s \<subseteq> C" if "seen \<union> set (n # pending) \<subseteq> C" "\<forall>a \<in> C. P a - {entry_node} \<subseteq> C" for C
        by (rule least [rule_format]) (use that in auto)
    qed
  qed
qed auto

lemma ancestors_of_trancl:
  assumes "dom_setup R S N preds" "listing_ok listing" "n \<in> N"
  shows "ancestors_of listing preds n = Inr (n, {a. (a, n) \<in> R\<^sup>+})"
proof -
  let ?P = "parents_of R S"
  have real: "?P m - {entry_node} = {a. (a, m) \<in> R}" for m
    using assms(1) by (auto simp: parents_of_def dom_setup_def)
  have N: "\<forall>m \<in> N. get preds m = Some (?P m) \<and> ?P m \<subseteq> insert entry_node N"
    using setup_parent [OF assms(1)] assms(1) by (simp add: dom_setup_def)
  have fin: "finite N" "finite (?P n)" using assms(1) N assms(3)
    by (auto simp: dom_setup_def intro: finite_subset)
  have parents: "set (rev (real_parents listing (?P n))) = {a. (a, n) \<in> R}"
    using fin(2) assms(2) real [of n] by (auto simp: real_parents_def listing_ok_def)
  have sub: "set (rev (real_parents listing (?P n))) \<subseteq> N"
    unfolding parents using assms(1) by (auto simp: dom_setup_def)
  from ancestors_from_closure [OF assms(2) fin(1) N sub, of "{}"] obtain s where
    s: "ancestors_from listing preds (rev (real_parents listing (?P n))) {} = Inr s"
    and sup: "{a. (a, n) \<in> R} \<subseteq> s" and closed: "\<And>a b. a \<in> s \<Longrightarrow> (b, a) \<in> R \<Longrightarrow> b \<in> s"
    and least: "\<And>C. {a. (a, n) \<in> R} \<subseteq> C \<Longrightarrow> (\<forall>a \<in> C. {b. (b, a) \<in> R} \<subseteq> C) \<Longrightarrow> s \<subseteq> C"
    unfolding parents real by auto
  have "s = {a. (a, n) \<in> R\<^sup>+}"
  proof
    show "s \<subseteq> {a. (a, n) \<in> R\<^sup>+}" by (rule least) (auto intro: trancl_into_trancl2)
    have "a \<in> s" if "(a, n) \<in> R\<^sup>+" for a
      using that by (induction rule: converse_trancl_induct) (use sup closed in auto)
    then show "{a. (a, n) \<in> R\<^sup>+} \<subseteq> s" by blast
  qed
  with s N assms(3) show ?thesis by (simp add: ancestors_of_def lookupE_def)
qed

section \<open>Accepted graphs\<close>

definition call_rel :: "flows \<Rightarrow> (string, string) dict \<Rightarrow> (string \<times> string) set" where
  "call_rel flows retry_of = {(a, b). \<exists>w. calls flows retry_of a b w}"

text \<open>The collection nesting below a flow, along some chain of calls.\<close>

inductive call_nesting :: "flows \<Rightarrow> (string, string) dict \<Rightarrow> string \<Rightarrow> nat \<Rightarrow> bool"
  for flows retry_of where
  nest_none: "call_nesting flows retry_of n 0"
| nest_call: "calls flows retry_of n m w \<Longrightarrow> call_nesting flows retry_of m k \<Longrightarrow>
    call_nesting flows retry_of n (k + w)"

lemma is_routed_key: "is_routed flows n \<Longrightarrow> n \<in> set (keys flows)"
  by (cases "get flows n") (auto simp: is_routed_def dest: get_Some_key)

lemma start_names_set: "set (start_names start) = fst ` set (start_paths start)"
  using keys_dict_of [of "map (\<lambda>(n, _). (n, ())) (start_paths start)" "[]"]
  by (simp add: start_names_def image_image split_def)

lemma check_starts_ok:
  assumes "check_starts flows w start = Inr ()"
  shows "\<forall>n \<in> set (start_names start). is_routed flows n"
proof -
  have "List.find (\<lambda>(n, _). \<not> is_routed flows n) (start_paths start) = None"
    using assms by (auto simp: check_starts_def split: option.splits)
  then show ?thesis by (auto simp: find_None_iff start_names_set)
qed

text \<open>What the first half of the check leaves: the graph of the calls.\<close>

lemma checked_graph_facts:
  assumes "checked_graph flows start retry_of sources w = Inr g" "dict_wf flows"
    "retry_ok flows flows retry_of"
  shows "keys g = keys flows" "edge_rel g = call_rel flows retry_of"
    "nests g n k \<longleftrightarrow> call_nesting flows retry_of n k" "graph_closed g"
    "set (keys g) \<subseteq> set (keys sources)" "\<forall>n \<in> set (start_names start). is_routed flows n"
    "routes_to flows a b \<Longrightarrow> is_routed flows b"
    "collects flows a b \<Longrightarrow> b \<in> set (keys flows) \<and> \<not> is_routed flows b"
proof -
  from assms(1) have st: "check_starts flows w start = Inr ()"
    and g: "build_graph flows retry_of sources w = Inr g"
    by (auto simp: checked_graph_def bindE_Inr_iff mapR_Inr_iff)
  note kinds = build_graph_kinds [OF g assms(2)]
  show keys: "keys g = keys flows" by (rule kinds(1))
  show "routes_to flows a b \<Longrightarrow> is_routed flows b" by (rule kinds(3))
  show "collects flows a b \<Longrightarrow> b \<in> set (keys flows) \<and> \<not> is_routed flows b" by (rule kinds(4))
  show "\<forall>n \<in> set (start_names start). is_routed flows n" by (rule check_starts_ok [OF st])
  have kind: "(\<exists>e \<in> set (edges_of g a). eg_target e = b \<and> eg_weight e = j) \<longleftrightarrow> calls flows retry_of a b j" for a b j
  proof -
    have "(b, j) \<in> edge_kind ` set (edges_of g a) \<longleftrightarrow> calls flows retry_of a b j"
      unfolding kinds(2) by simp
    then show ?thesis by (auto simp: image_iff)
  qed
  have "b \<in> eg_target ` set (edges_of g a) \<longleftrightarrow> (\<exists>j. calls flows retry_of a b j)" for a b
    using kind by (metis (no_types) imageE imageI)
  then show rel: "edge_rel g = call_rel flows retry_of"
    unfolding call_rel_def edge_rel_def by simp
  show "nests g n k \<longleftrightarrow> call_nesting flows retry_of n k"
  proof
    show "nests g n k \<Longrightarrow> call_nesting flows retry_of n k"
    proof (induction rule: nests.induct)
      case (nests_edge e n k)
      with kind [of n "eg_target e" "eg_weight e"] show ?case by (blast intro: nest_call)
    qed (rule nest_none)
    show "call_nesting flows retry_of n k \<Longrightarrow> nests g n k"
    proof (induction rule: call_nesting.induct)
      case (nest_call n m w k)
      with kind [of n m w] show ?case by (auto dest: nests_edge)
    qed (rule nests_end)
  qed
  have "b \<in> set (keys flows)" if "calls flows retry_of a b j" for a b j
    using that kinds(3,4) assms(3) unfolding calls_def retry_ok_def is_routed_def
    by (fastforce split: option.splits dest: get_Some_key)
  then show "graph_closed g"
    unfolding graph_closed_def keys using kind by (auto simp: edges_of_def split: option.splits) (metis edges_of_get)
  have "\<exists>src. get sources n = Some src" if "n \<in> set (keys flows)" for n
  proof -
    from that obtain f where "(n, f) \<in> set flows" by auto
    with g obtain src where "lookupE sources n = Inr src"
      by (fastforce simp: build_graph_def mapE_Inr_iff list_all2_conv_all_nth in_set_conv_nth bindE_Inr_iff)
    then show ?thesis by (auto simp: lookupE_def split: option.splits)
  qed
  then show "set (keys g) \<subseteq> set (keys sources)" unfolding keys by (metis get_Some_key subsetI)
qed

text \<open>Routed flows are reached by routes alone.\<close>

lemma routed_reach:
  assumes "(a, n) \<in> (call_rel flows retry_of)\<^sup>*" "is_routed flows n" "retry_ok flows flows retry_of"
    and "\<And>a b. collects flows a b \<Longrightarrow> \<not> is_routed flows b"
  shows "(a, n) \<in> (route_rel flows)\<^sup>*"
  using assms(1,2)
proof (induction rule: rtrancl_induct)
  case (step b c)
  then obtain k where "calls flows retry_of b c k" by (auto simp: call_rel_def)
  moreover have "\<not> is_routed flows c" if "(c, b) \<in> set retry_of"
    using assms(3) that unfolding retry_ok_def is_routed_def by fastforce
  ultimately have "routes_to flows b c" using step.prems assms(4) unfolding calls_def by blast
  moreover from this have "is_routed flows b"
    by (auto simp: routes_to_def is_routed_def split: option.splits)
  ultimately show ?case using step.IH by (auto simp: route_rel_def intro: rtrancl_into_rtrancl)
qed simp

section \<open>The analysis of the routed flows\<close>

lemma dom_start_inv:
  assumes "dom_setup R S N preds" "set routed = N"
  shows "dom_inv R S N (dom_start routed)"
proof -
  have N: "entry_node \<notin> N" "R \<subseteq> N \<times> N" "S \<subseteq> N" "N \<subseteq> R\<^sup>* `` S"
    using assms(1) by (simp_all add: dom_setup_def)
  have entry: "node_set (dom_start routed) entry_node = {entry_node}"
    using N(1) assms(2) by (simp add: node_set_def dom_start_def map_of_const map_add_def)
  have start: "node_set (dom_start routed) n = insert entry_node N" if "n \<in> N" for n
    using that N(1) assms(2) by (auto simp: node_set_def dom_start_def map_of_const map_add_def)
  have keys: "set (keys (dom_start routed)) = insert entry_node N"
    using assms(2) by (auto simp: dom_start_def)
  have sub: "dom_eq (parents_of R S) (node_set (dom_start routed)) n \<subseteq> insert entry_node N" if "n \<in> N" for n
  proof
    fix d assume d: "d \<in> dom_eq (parents_of R S) (node_set (dom_start routed)) n"
    show "d \<in> insert entry_node N"
    proof (cases "d = n")
      case False
      with d setup_parent [OF assms(1) that] obtain p where
        p: "p \<in> parents_of R S n" "p \<in> insert entry_node N" "d \<in> node_set (dom_start routed) p"
        unfolding dom_eq_def by (auto split: if_splits)
      with entry start show ?thesis by auto
    qed (use that in simp)
  qed
  have dom: "d \<in> insert entry_node N" if "n \<in> N" "dominates R S d n" for n d
  proof -
    from path_to_exists [of n R S] that(1) N(4) obtain ps where ps: "path_to R S ps n" by blast
    have "set ps \<subseteq> N" using ps by (induction rule: path_to_induct) (use N in auto)
    with ps that(2) show ?thesis by (auto simp: dominates_def)
  qed
  show ?thesis unfolding dom_inv_def using keys entry start sub dom by simp
qed

lemma map_of_pairs: "map_of (map (\<lambda>n. (n, f n)) ns) k = (if k \<in> set ns then Some (f k) else None)"
  by (induction ns) auto

text \<open>The analysis succeeds on a connected routed graph; its sets are the declared ones.\<close>

lemma routed_analysis_ok:
  assumes "dict_wf flows" "callable_unrouted flows" "listing_ok listing" "entry_node \<notin> set (keys flows)"
    and "\<forall>a b. routes_to flows a b \<longrightarrow> is_routed flows b" "\<forall>n \<in> set starts. is_routed flows n"
    and reach: "\<And>n. is_routed flows n \<Longrightarrow> n \<in> (route_rel flows)\<^sup>* `` set starts"
    and retry: "\<forall>(r, owner) \<in> set retry_of. owner \<in> set (keys flows)"
  shows "\<exists>G. routed_analysis listing flows retry_of starts = Some (Inr G) \<and>
    (\<forall>n. is_routed flows n \<longrightarrow>
       node_set (gr_dominators G) n = {d. dominates (route_rel flows) (set starts) d n} \<and>
       node_set (gr_ancestors G) n = {a. (a, n) \<in> (route_rel flows)\<^sup>+})"
proof -
  let ?R = "route_rel flows" and ?S = "set starts" and ?N = "{n. is_routed flows n}"
  let ?routed = "listing (set (routed_names flows))"
  from predecessors_ok [OF assms(1,2,5,6)] obtain preds where preds: "predecessors flows starts = Inr preds"
    and parents: "\<And>n. is_routed flows n \<Longrightarrow> get preds n = Some (parents_of ?R ?S n)" by blast
  have key: "n \<in> set (keys flows)" if "is_routed flows n" for n
    using that by (rule is_routed_key)
  have "?R \<subseteq> ?N \<times> ?N"
    using assms(5) by (auto simp: route_rel_def) (auto simp: routes_to_def is_routed_def split: option.splits)
  moreover have "finite ?N" by (rule finite_subset [of _ "set (keys flows)"]) (use key in auto)
  ultimately have dom_su: "dom_setup ?R ?S ?N preds"
    unfolding dom_setup_def using parents assms(6) key assms(4) reach by auto
  have order: "set ?routed = ?N"
    using assms(3) by (simp add: listing_ok_def set_routed_names [OF assms(1)] \<open>finite ?N\<close>)
  from dom_loop_dominators [OF dom_su dom_start_inv [OF dom_su set_routed_names [OF assms(1)]] order]
  obtain dm where dm: "dom_loop preds ?routed (dom_start (routed_names flows)) = Some (Inr dm)"
    "\<And>n. is_routed flows n \<Longrightarrow> node_set dm n - {entry_node} = {d. dominates ?R ?S d n}" by blast
  have anc: "mapE (ancestors_of listing preds) ?routed = Inr (map (\<lambda>n. (n, {a. (a, n) \<in> ?R\<^sup>+})) ?routed)"
    by (rule mapE_all_Inr) (use ancestors_of_trancl [OF dom_su assms(3)] order in blast)
  have "\<exists>rs. routed_retries flows retry_of = Inr rs"
  proof -
    have "mapE (\<lambda>p. mapR (\<lambda>f. (p, fl_callable f)) (lookupE flows (snd p))) retry_of =
        Inr (map (\<lambda>p. (p, fl_callable (the (get flows (snd p))))) retry_of)"
    proof (rule mapE_all_Inr)
      fix p assume "p \<in> set retry_of"
      with retry have "snd p \<in> set (keys flows)" by (cases p) fastforce
      then obtain f where "get flows (snd p) = Some f" by (metis get_None_iff not_Some_eq)
      then show "mapR (\<lambda>f. (p, fl_callable f)) (lookupE flows (snd p)) = Inr (p, fl_callable (the (get flows (snd p))))"
        by (simp add: lookupE_def)
    qed
    then show ?thesis by (simp add: routed_retries_def)
  qed
  then obtain rs where rs: "routed_retries flows retry_of = Inr rs" by blast
  show ?thesis
    unfolding routed_analysis_def Let_def
    by (simp add: preds dm(1) anc rs order node_set_def map_of_pairs dm(2) [unfolded node_set_def])
qed

text \<open>Everything together: the check of a program whose repeats were accepted.\<close>

lemma validate_graph_facts:
  assumes "dict_wf flows" "validate_repeats flows w declared = Inr retry_of"
    and "checked_graph flows start retry_of sources w = Inr g"
  shows "\<exists>r. check_walk g sources w (start_names start) = Some r \<and> r \<noteq> Inl Defect \<and>
    (r = Inr () \<longleftrightarrow> acyclic (call_rel flows retry_of) \<and>
      set (keys flows) \<subseteq> (call_rel flows retry_of)\<^sup>* `` set (start_names start) \<and>
      (\<forall>n \<in> set (keys flows). \<forall>k. call_nesting flows retry_of n k \<longrightarrow> k \<le> MAX_COLLECTION_DEPTH))"
proof -
  have retry: "retry_ok flows flows retry_of" by (rule validate_repeats_ok [OF assms(2)])
  note facts = checked_graph_facts [OF assms(3,1) retry]
  have "set (start_names start) \<subseteq> set (keys g)"
    unfolding facts(1) using facts(6) is_routed_key by blast
  from check_walk_decides [OF facts(4) this facts(5), of w] show ?thesis
    unfolding graph_ok_def facts(1,2,3) by blast
qed

lemma validate_graph_Inr:
  assumes "dict_wf flows" "validate_repeats flows w declared = Inr retry_of"
    and "validate_graph listing flows start retry_of sources w = Some (Inr G)"
  shows "\<exists>g. checked_graph flows start retry_of sources w = Inr g \<and>
    acyclic (call_rel flows retry_of) \<and>
    set (keys flows) \<subseteq> (call_rel flows retry_of)\<^sup>* `` set (start_names start) \<and>
    (\<forall>n \<in> set (keys flows). \<forall>k. call_nesting flows retry_of n k \<longrightarrow> k \<le> MAX_COLLECTION_DEPTH) \<and>
    routed_analysis listing flows retry_of (start_names start) = Some (Inr G)"
proof -
  from assms(3) obtain g where g: "checked_graph flows start retry_of sources w = Inr g"
    by (auto simp: validate_graph_def split: sum.splits)
  from validate_graph_facts [OF assms(1,2) g] assms(3) g show ?thesis
    by (auto simp: validate_graph_def split: sum.splits)
qed

text \<open>Routed flows are connected by routes as soon as all flows are reached by calls.\<close>

lemma routes_connected:
  assumes "checked_graph flows start retry_of sources w = Inr g" "dict_wf flows"
    "validate_repeats flows w declared = Inr retry_of"
    "set (keys flows) \<subseteq> (call_rel flows retry_of)\<^sup>* `` set (start_names start)" "is_routed flows n"
  shows "n \<in> (route_rel flows)\<^sup>* `` set (start_names start)"
proof -
  have retry: "retry_ok flows flows retry_of" by (rule validate_repeats_ok [OF assms(3)])
  note facts = checked_graph_facts [OF assms(1,2) retry]
  from is_routed_key [OF assms(5)] assms(4) obtain a where
    a: "a \<in> set (start_names start)" "(a, n) \<in> (call_rel flows retry_of)\<^sup>*" by blast
  have "(a, n) \<in> (route_rel flows)\<^sup>*"
    by (rule routed_reach [OF a(2) assms(5) retry]) (use facts(8) in blast)
  with a(1) show ?thesis by blast
qed

lemma analysis_of_checked:
  assumes "checked_graph flows start retry_of sources w = Inr g" "dict_wf flows"
    "validate_repeats flows w declared = Inr retry_of" "callable_unrouted flows" "listing_ok listing"
    "entry_node \<notin> set (keys flows)"
    "set (keys flows) \<subseteq> (call_rel flows retry_of)\<^sup>* `` set (start_names start)"
  shows "\<exists>G. routed_analysis listing flows retry_of (start_names start) = Some (Inr G) \<and>
    (\<forall>n. is_routed flows n \<longrightarrow>
       node_set (gr_dominators G) n = {d. dominates (route_rel flows) (set (start_names start)) d n} \<and>
       node_set (gr_ancestors G) n = {a. (a, n) \<in> (route_rel flows)\<^sup>+})"
proof -
  have retry: "retry_ok flows flows retry_of" by (rule validate_repeats_ok [OF assms(3)])
  note facts = checked_graph_facts [OF assms(1,2) retry]
  show ?thesis
  proof (rule routed_analysis_ok [OF assms(2,4,5,6)])
    show "\<forall>a b. routes_to flows a b \<longrightarrow> is_routed flows b" using facts(7) by blast
    show "\<forall>n \<in> set (start_names start). is_routed flows n" by (rule facts(6))
    show "n \<in> (route_rel flows)\<^sup>* `` set (start_names start)" if "is_routed flows n" for n
      by (rule routes_connected [OF assms(1-3) assms(7) that])
    show "\<forall>(r, owner) \<in> set retry_of. owner \<in> set (keys flows)"
      using retry unfolding retry_ok_def by force
  qed
qed

text \<open>Every flow has a source, and its collection steps have places.\<close>

definition sources_ok :: "flows \<Rightarrow> (string, flow_source) dict \<Rightarrow> bool" where
  "sources_ok flows sources \<longleftrightarrow> list_all (\<lambda>(n, f). case get sources n of
     Some src \<Rightarrow> list_all (\<lambda>s. st_name s \<in> set (keys (src_steps src))) (fl_steps f)
   | None \<Rightarrow> False) flows"

lemma mapE_not: "(\<And>x. x \<in> set xs \<Longrightarrow> f x \<noteq> Inl e) \<Longrightarrow> mapE f xs \<noteq> Inl e"
  by (induction xs) (auto simp: bindE_Inl_iff mapR_Inl_iff)

lemma route_edges_no_defect: "route_edges flows ls \<noteq> Inl Defect"
  by (induction flows ls rule: route_edges.induct)
    (auto simp: fail_at_def mapR_Inl_iff split: option.splits)

lemma flow_edges_no_defect:
  assumes "list_all (\<lambda>s. st_name s \<in> set (keys (src_steps src))) (fl_steps f)"
  shows "flow_edges flows retry_of w src (n, f) \<noteq> Inl Defect"
proof -
  have "step_edges flows src s \<noteq> Inl Defect" if "s \<in> set (fl_steps f)" for s
  proof -
    from assms that obtain p where "lookupE (src_steps src) (st_name s) = Inr p"
      by (metis (no_types, lifting) get_None_iff list_all_iff lookupE_def not_None_eq option.simps(5))
    moreover have "mapE (allowlist_edge flows p) ps \<noteq> Inl Defect" for ps
      by (rule mapE_not) (auto simp: allowlist_edge_def fail_at_def split: option.splits)
    ultimately show ?thesis by (auto simp: step_edges_def split: step_body.splits)
  qed
  then have "mapE (step_edges flows src) (fl_steps f) \<noteq> Inl Defect" by (rule mapE_not)
  moreover have "check_review ls \<noteq> Inl Defect" for ls
    by (auto simp: check_review_def fail_at_def split: option.splits)
  ultimately show ?thesis using route_edges_no_defect
    by (auto simp: flow_edges_def bindE_Inl_iff split_def Let_def)
qed

lemma checked_graph_no_defect:
  assumes "sources_ok flows sources"
  shows "checked_graph flows start retry_of sources w \<noteq> Inl Defect"
proof -
  have src: "\<exists>src. lookupE sources n = Inr src \<and> list_all (\<lambda>s. st_name s \<in> set (keys (src_steps src))) (fl_steps f)"
    if "(n, f) \<in> set flows" for n f
    using assms that by (force simp: sources_ok_def list_all_iff lookupE_def split: option.splits)
  have "build_graph flows retry_of sources w \<noteq> Inl Defect"
    unfolding build_graph_def
  proof (rule mapE_not)
    fix p assume "p \<in> set flows"
    then obtain n f where p: "p = (n, f)" "(n, f) \<in> set flows" by (metis surj_pair)
    with src [OF p(2)] flow_edges_no_defect show
      "bindE (lookupE sources (fst p)) (\<lambda>src. mapR (\<lambda>es. (fst p, es)) (flow_edges flows retry_of w src p)) \<noteq> Inl Defect"
      by (auto simp: mapR_Inl_iff)
  qed
  moreover have "check_review_routes flows sources w \<noteq> Inl Defect"
    unfolding check_review_routes_def
  proof (rule mapE_not)
    fix p assume "p \<in> set (filter (\<lambda>p. \<not> fl_callable (snd p)) flows)"
    then obtain n f where p: "p = (n, f)" "(n, f) \<in> set flows"
      by (metis filter_is_subset subsetD surj_pair)
    have "mapE (check_review_target flows pl p) ls \<noteq> Inl Defect" for pl ls
      by (rule mapE_not) (auto simp: check_review_target_def fail_at_def split: prod.splits option.splits if_splits)
    with src [OF p(2)] p show "bindE (lookupE sources (fst p)) (\<lambda>src.
        mapE (check_review_target flows (review_place (snd p) src w) p)
          (snd (flow_located_targets (snd p) src w))) \<noteq> Inl Defect" by auto
  qed
  moreover have "check_starts flows w start \<noteq> Inl Defect"
    by (auto simp: check_starts_def fail_at_def split: option.splits)
  ultimately show ?thesis by (auto simp: checked_graph_def bindE_Inl_iff mapR_Inl_iff)
qed

lemma dominators_of_accepted:
  assumes "dict_wf flows" "callable_unrouted flows" "entry_node \<notin> set (keys flows)" "listing_ok listing"
    and "validate_repeats flows w declared = Inr retry_of"
    and "validate_graph listing flows start retry_of sources w = Some (Inr G)" "is_routed flows n"
  shows "node_set (gr_dominators G) n = {d. dominates (route_rel flows) (set (start_names start)) d n} \<and>
    node_set (gr_ancestors G) n = {a. (a, n) \<in> (route_rel flows)\<^sup>+}"
proof -
  from validate_graph_Inr [OF assms(1,5,6)] obtain g where g: "checked_graph flows start retry_of sources w = Inr g"
    and reach: "set (keys flows) \<subseteq> (call_rel flows retry_of)\<^sup>* `` set (start_names start)"
    and G: "routed_analysis listing flows retry_of (start_names start) = Some (Inr G)" by blast
  from analysis_of_checked [OF g assms(1,5,2,4,3) reach] G assms(7) show ?thesis by auto
qed

section \<open>A sample\<close>

text \<open>
  Flow \<^verbatim>\<open>open\<close> leads to \<^verbatim>\<open>close\<close>, and over \<^verbatim>\<open>review\<close> if it needs review; \<^verbatim>\<open>close\<close> repeats
  with the retry flow \<^verbatim>\<open>again\<close>. Sets are listed in order.
\<close>

definition sample_route :: "string \<Rightarrow> target" where
  "sample_route n = \<lparr>tg_flow = Some n, tg_outcome = None\<rparr>"

definition graph_flow :: "string \<Rightarrow> transition option \<Rightarrow> review_route option \<Rightarrow> repeat_plan option \<Rightarrow> flow" where
  "graph_flow n t r rp = \<lparr>fl_name = n, fl_input = [], fl_steps = [], fl_input_schema_path = None,
     fl_input_schema = None, fl_output = None, fl_transition = t, fl_on_unresolved = r,
     fl_location = \<lparr>loc_path = ''workflow.yaml'', loc_line = 1, loc_column = 1\<rparr>,
     fl_callable = (t = None), fl_repeat = rp, fl_on_unresolved_inherited = False, fl_available_flows = []\<rparr>"

definition graph_flows :: flows where
  "graph_flows =
     [(''open'', graph_flow ''open'' (Some (TTarget (sample_route ''close'')))
        (Some (RTarget (sample_route ''review''))) None),
      (''review'', graph_flow ''review'' (Some (TTarget (sample_route ''close''))) None None),
      (''close'', graph_flow ''close'' (Some (TTarget \<lparr>tg_flow = None, tg_outcome = Some OutCompleted\<rparr>)) None
        (Some \<lparr>rp_max_attempts = 2, rp_until = All [], rp_retry_flow = Some ''again'',
          rp_retry_flow_input = [], rp_continue_when = None, rp_retry_input = []\<rparr>)),
      (''again'', graph_flow ''again'' None None None)]"

definition graph_place :: place where
  "graph_place = \<lparr>pl_file = ''workflow.yaml'', pl_prefix = []\<rparr>"

definition graph_sources :: "(string, flow_source) dict" where
  "graph_sources = map (\<lambda>(n, _). (n, \<lparr>src_instance = below graph_place [Key ''flows'', Key n],
     src_definition = graph_place, src_steps = [], src_entries = []\<rparr>)) graph_flows"

definition graph_sample :: graph_result where
  "graph_sample = \<lparr>
     gr_dominators = [(''close'', {''close'', ''open''}), (''open'', {''open''}), (''review'', {''open'', ''review''})],
     gr_ancestors = [(''close'', {''open'', ''review''}), (''open'', {}), (''review'', {''open''})],
     gr_retry_of = [(''again'', ''close'')],
     gr_successors = [(''open'', [''close'', ''review'']), (''review'', [''close'']), (''close'', [])]\<rparr>"

lemma sorted_listing: "listing_ok sorted_list_of_set"
  by (simp add: listing_ok_def)

lemma sample_repeats: "validate_repeats graph_flows graph_place (\<lambda>_. None) = Inr [(''again'', ''close'')]"
  by code_simp

lemma sample_validated:
  "validate_graph sorted_list_of_set graph_flows (StartFlow ''open'') [(''again'', ''close'')]
     graph_sources graph_place = Some (Inr graph_sample)"
  by code_simp

section \<open>Properties\<close>

text \<open>
  C4: A plan whose repeats and graph the compiler accepts has no cycle of routes,
  collections and retry flows, every flow is reached from a start candidate, collections
  nest at most as deep as the engine executes them, routes lead to routed flows and
  collections call callable ones.
\<close>

theorem accepted_graph:
  assumes "dict_wf flows" "validate_repeats flows w declared = Inr retry_of"
    and "validate_graph listing flows start retry_of sources w = Some (Inr G)"
  shows "acyclic (call_rel flows retry_of) \<and>
    set (keys flows) \<subseteq> (call_rel flows retry_of)\<^sup>* `` set (start_names start) \<and>
    {k. \<exists>n. n \<in> set (keys flows) \<and> call_nesting flows retry_of n k} \<subseteq> {..MAX_COLLECTION_DEPTH} \<and>
    snd ` route_rel flows \<subseteq> {n. is_routed flows n} \<and>
    {b. \<exists>a. collects flows a b} \<subseteq> {n. n \<in> set (keys flows) \<and> \<not> is_routed flows n}"
proof -
  from validate_graph_Inr [OF assms] obtain g where g: "checked_graph flows start retry_of sources w = Inr g"
    and ok: "acyclic (call_rel flows retry_of)"
      "set (keys flows) \<subseteq> (call_rel flows retry_of)\<^sup>* `` set (start_names start)"
      "\<forall>n \<in> set (keys flows). \<forall>k. call_nesting flows retry_of n k \<longrightarrow> k \<le> MAX_COLLECTION_DEPTH"
    by blast
  note facts = checked_graph_facts [OF g assms(1) validate_repeats_ok [OF assms(2)]]
  from ok facts(7,8) show ?thesis by (auto simp: route_rel_def)
qed

theorem accepted_graph_witness:
  "acyclic (call_rel graph_flows [(''again'', ''close'')]) \<and>
    set (keys graph_flows) \<subseteq> (call_rel graph_flows [(''again'', ''close'')])\<^sup>* `` set (start_names (StartFlow ''open'')) \<and>
    {k. \<exists>n. n \<in> set (keys graph_flows) \<and> call_nesting graph_flows [(''again'', ''close'')] n k}
      \<subseteq> {..MAX_COLLECTION_DEPTH} \<and>
    snd ` route_rel graph_flows \<subseteq> {n. is_routed graph_flows n} \<and>
    {b. \<exists>a. collects graph_flows a b} \<subseteq> {n. n \<in> set (keys graph_flows) \<and> \<not> is_routed graph_flows n}"
  by (rule accepted_graph [OF _ sample_repeats sample_validated]) (simp add: graph_flows_def)

text \<open>
  C5: The dominators the compiler uses to decide which results are available are exactly
  the flows on every path from a start candidate, and its ancestors exactly the flows on some
  path, whatever the order in which Python iterates over the sets.
\<close>

theorem dominators_correct:
  assumes "dict_wf flows" "callable_unrouted flows" "entry_node \<notin> set (keys flows)" "listing_ok listing"
    and "validate_repeats flows w declared = Inr retry_of"
    and "validate_graph listing flows start retry_of sources w = Some (Inr G)" "is_routed flows n"
  shows "node_set (gr_dominators G) n = {d. dominates (route_rel flows) (set (start_names start)) d n} \<and>
    node_set (gr_ancestors G) n = {a. (a, n) \<in> (route_rel flows)\<^sup>+}"
  by (rule dominators_of_accepted [OF assms])

theorem dominators_correct_witness:
  "{d. dominates (route_rel graph_flows) {''open''} d ''close''} = {''close'', ''open''} \<and>
   {a. (a, ''close'') \<in> (route_rel graph_flows)\<^sup>+} = {''open'', ''review''}"
  using dominators_correct [OF _ _ _ sorted_listing sample_repeats sample_validated, of "''close''"]
  by (simp add: graph_flows_def graph_flow_def callable_unrouted_def flow_targets_def entry_node_def
    is_routed_def node_set_def graph_sample_def start_names_set start_paths_def)

text \<open>
  C9: The graph check always returns, with a verdict: its loops end on every plan, cyclic
  ones included, and no lookup of it misses.
\<close>

theorem graph_check_returns:
  assumes "dict_wf flows" "callable_unrouted flows" "entry_node \<notin> set (keys flows)" "listing_ok listing"
    and "validate_repeats flows w declared = Inr retry_of" "sources_ok flows sources"
  shows "\<exists>r. validate_graph listing flows start retry_of sources w = Some r \<and> r \<noteq> Inl Defect"
proof (cases "checked_graph flows start retry_of sources w")
  case (Inl e)
  with checked_graph_no_defect [OF assms(6), of start retry_of w] show ?thesis
    by (simp add: validate_graph_def)
next
  case (Inr g)
  from validate_graph_facts [OF assms(1,5) Inr] obtain r where r:
    "check_walk g sources w (start_names start) = Some r" "r \<noteq> Inl Defect"
    "r = Inr () \<Longrightarrow> set (keys flows) \<subseteq> (call_rel flows retry_of)\<^sup>* `` set (start_names start)" by blast
  show ?thesis
  proof (cases r)
    case (Inl e)
    with r Inr show ?thesis by (simp add: validate_graph_def)
  next
    case ok: (Inr u)
    then have "r = Inr ()" by simp
    from analysis_of_checked [OF Inr assms(1,5,2,4,3) r(3) [OF this]] obtain G where
      "routed_analysis listing flows retry_of (start_names start) = Some (Inr G)" by blast
    with r(1) ok Inr show ?thesis by (simp add: validate_graph_def)
  qed
qed

theorem graph_check_returns_witness:
  "\<exists>r. validate_graph sorted_list_of_set graph_flows (StartFlow ''review'') [(''again'', ''close'')]
     graph_sources graph_place = Some r \<and> r \<noteq> Inl Defect"
  by (rule graph_check_returns [OF _ _ _ sorted_listing sample_repeats])
    (simp_all add: graph_flows_def graph_flow_def callable_unrouted_def flow_targets_def entry_node_def
      sources_ok_def graph_sources_def)

end
