(* ===== verification/CompiledRuns.thy ===== *)
theory CompiledRuns imports GraphChecks RunPath begin

text \<open>
  The engine on plans the compiler accepted: what the graph checks of the compiler promise
  holds of every run. The routes a run takes form a path of the routed graph, so no flow is
  entered twice, and when a flow is entered, all its dominators (whose results the compiler
  lets it read without a default) were entered before it.
\<close>

section \<open>Accepted plans\<close>

text \<open>The compiler keeps flows by name; the plan lists them in the same order.\<close>

definition plan_flows :: "workflow \<Rightarrow> flows" where
  "plan_flows w = map (\<lambda>f. (fl_name f, f)) (wf_flows w)"

text \<open>A plan both checks accepted, with the result of the graph check.\<close>

definition accepted ::
  "(string set \<Rightarrow> string list) \<Rightarrow> (flow \<Rightarrow> string list option) \<Rightarrow> (string, flow_source) dict \<Rightarrow> place \<Rightarrow>
     workflow \<Rightarrow> (string, string) dict \<Rightarrow> graph_result \<Rightarrow> bool" where
  "accepted listing declared sources place w retry_of G \<longleftrightarrow>
     dict_wf (plan_flows w) \<and> callable_unrouted (plan_flows w) \<and> entry_node \<notin> set (keys (plan_flows w)) \<and>
     validate_repeats (plan_flows w) place declared = Inr retry_of \<and>
     validate_graph listing (plan_flows w) (wf_start w) retry_of sources place = Some (Inr G)"

lemma plan_flows_get: "dict_wf (plan_flows w) \<Longrightarrow> get (plan_flows w) n = workflow_flow w n"
proof -
  have "get (map (\<lambda>f. (fl_name f, f)) fs) n = List.find (\<lambda>f. fl_name f = n) fs" for fs
    by (induction fs) auto
  then show ?thesis by (simp add: plan_flows_def workflow_flow_def)
qed

text \<open>An accepted plan satisfies the condition under which usage is bounded.\<close>

lemma accepted_apart:
  assumes "accepted listing declared sources place w retry_of G"
  shows "plan_apart w"
proof -
  from assms have ok: "retry_ok (plan_flows w) (plan_flows w) retry_of"
    by (auto simp: accepted_def intro: validate_repeats_ok)
  have "repeats_apart f" if "f \<in> set (wf_flows w)" for f
  proof (cases "fl_repeat f")
    case (Some rp)
    from that have f: "(fl_name f, f) \<in> set (plan_flows w)" by (auto simp: plan_flows_def)
    have "rp_retry_flow rp \<noteq> Some (fl_name f)"
    proof
      assume self: "rp_retry_flow rp = Some (fl_name f)"
      with f Some ok have "(fl_name f, fl_name f) \<in> set retry_of" unfolding retry_ok_def by blast
      with ok show False unfolding retry_ok_def by blast
    qed
    with Some show ?thesis by (simp add: repeats_apart_def)
  qed (simp add: repeats_apart_def)
  then show ?thesis by (simp add: plan_apart_def list_all_iff)
qed

section \<open>Entered flows\<close>

text \<open>The flows a run enters by its routes: the start and the flow of every transition.\<close>

definition entered :: "string \<Rightarrow> transition_record list \<Rightarrow> string list" where
  "entered start ts = start # List.map_filter tr_flow ts"

lemma path_routes:
  assumes "path start ts current" "list_all (planned w) ts" "dict_wf (plan_flows w)"
  shows "successively (\<lambda>a b. (a, b) \<in> route_rel (plan_flows w)) (entered start ts)"
  using assms(1,2)
proof (induction start ts current rule: path.induct)
  case (2 start t ts current)
  from 2(3) obtain f where f: "workflow_flow w (tr_source t) = Some f" "\<not> fl_callable f"
    "\<And>n. tr_flow t = Some n \<Longrightarrow> n \<in> set (target_flows (flow_targets f))"
    by (auto simp: planned_def)
  show ?case
  proof (cases "tr_flow t")
    case (Some n)
    with 2(2) have "tr_source t = start" "path n ts current" by simp_all
    with 2(1) [OF Some] 2(3) f Some show ?thesis
      by (simp add: entered_def List.map_filter_simps route_rel_def routes_to_def plan_flows_get [OF assms(3)])
  next
    case None
    with 2(2) show ?thesis by (simp add: entered_def List.map_filter_simps)
  qed
qed (simp add: entered_def List.map_filter_simps)

lemma prefix_path:
  assumes "successively (\<lambda>a b. (a, b) \<in> R) xs" "xs \<noteq> []" "hd xs \<in> S" "i < length xs"
  shows "path_to R S (take (Suc i) xs) (xs ! i)"
  unfolding path_to_def
proof (intro conjI)
  show "take (Suc i) xs \<noteq> []" "hd (take (Suc i) xs) \<in> S" using assms(2,3) by (cases xs; simp)+
  show "last (take (Suc i) xs) = xs ! i" using assms(4) by (simp add: take_Suc_conv_app_nth)
  show "successively (\<lambda>a b. (a, b) \<in> R) (take (Suc i) xs)"
    using assms(1) by (metis append_take_drop_id successively_append_iff)
qed

lemma acyclic_path_distinct:
  fixes R :: "(string \<times> string) set"
  assumes "successively (\<lambda>a b. (a, b) \<in> R) xs" "acyclic R"
  shows "distinct xs"
  using assms(1)
proof (induction xs)
  case (Cons x xs)
  have "x \<notin> set xs"
  proof
    assume x: "x \<in> set xs"
    then obtain y ys where xs: "xs = y # ys" by (cases xs) auto
    from Cons.prems xs have "(x, y) \<in> R" "successively (\<lambda>a b. (a, b) \<in> R) xs" by simp_all
    moreover obtain i where "i < length xs" "xs ! i = x" using x by (auto simp: in_set_conv_nth)
    with prefix_path [OF calculation(2), of "{y}" i] xs have "path_to R {y} (take (Suc i) xs) x" by simp
    from path_to_reaches [OF this, of y] xs have "(y, x) \<in> R\<^sup>*" by simp
    ultimately have "(x, x) \<in> R\<^sup>+" by (meson rtrancl_into_trancl2)
    with assms(2) show False by (simp add: acyclic_def)
  qed
  with Cons show ?case by (cases xs) auto
qed simp

definition visits_ok :: "graph_result \<Rightarrow> flows \<Rightarrow> string list \<Rightarrow> bool" where
  "visits_ok G flows ns \<longleftrightarrow> distinct ns \<and> list_all (is_routed flows) ns \<and>
     (\<forall>i < length ns. node_set (gr_dominators G) (ns ! i) \<subseteq> set (take (Suc i) ns))"

lemma result_visits:
  assumes "accepted listing declared sources place w retry_of G" "listing_ok listing"
    and "result_route w r" "rr_start r = Some st"
  shows "visits_ok G (plan_flows w) (entered (sa_flow st) (rr_transitions r))"
proof -
  let ?F = "plan_flows w" and ?ns = "entered (sa_flow st) (rr_transitions r)"
  let ?R = "route_rel ?F" and ?S = "set (start_names (wf_start w))"
  have acc: "dict_wf ?F" "callable_unrouted ?F" "entry_node \<notin> set (keys ?F)"
    "validate_repeats ?F place declared = Inr retry_of"
    "validate_graph listing ?F (wf_start w) retry_of sources place = Some (Inr G)"
    using assms(1) by (simp_all add: accepted_def)
  from validate_graph_Inr [OF acc(1,4,5)] obtain g where
    g: "checked_graph ?F (wf_start w) retry_of sources place = Inr g"
    and acyc: "acyclic (call_rel ?F retry_of)" by blast
  note facts = checked_graph_facts [OF g acc(1) validate_repeats_ok [OF acc(4)]]
  from assms(3,4) obtain current where start: "sa_flow st \<in> ?S"
    and p: "path (sa_flow st) (rr_transitions r) current" "list_all (planned w) (rr_transitions r)"
    by (auto simp: result_route_def route_done_def)
  have chain: "successively (\<lambda>a b. (a, b) \<in> ?R) ?ns" by (rule path_routes [OF p acc(1)])
  have ne: "?ns \<noteq> []" "hd ?ns \<in> ?S" using start by (simp_all add: entered_def)
  have "?R \<subseteq> call_rel ?F retry_of" by (auto simp: route_rel_def call_rel_def calls_def)
  with acyc have "acyclic ?R" by (rule acyclic_subset)
  with chain have dist: "distinct ?ns" by (rule acyclic_path_distinct)
  have routed: "is_routed ?F (?ns ! i)" if "i < length ?ns" for i
    using prefix_path [OF chain ne that]
  proof (induction rule: path_to_induct)
    case (single n)
    with facts(6) show ?case by blast
  next
    case (snoc ps a b)
    with facts(7) show ?case by (simp add: route_rel_def)
  qed
  have "node_set (gr_dominators G) (?ns ! i) \<subseteq> set (take (Suc i) ?ns)" if i: "i < length ?ns" for i
  proof -
    from dominators_of_accepted [OF acc(1-3) assms(2) acc(4,5) routed [OF i]]
      prefix_path [OF chain ne i] show ?thesis by (auto simp: dominates_def)
  qed
  with dist routed show ?thesis by (simp add: visits_ok_def list_all_length)
qed

section \<open>A sample\<close>

definition graph_plan :: workflow where
  "graph_plan = sample_plan\<lparr>wf_start := StartFlow ''open'', wf_flows := map snd graph_flows\<rparr>"

definition graph_env :: "nat run_env" where
  "graph_env = sample_env\<lparr>ev_plan := graph_plan\<rparr>"

lemma graph_plan_accepted:
  "accepted sorted_list_of_set (\<lambda>_. None) graph_sources graph_place (ev_plan graph_env) [(''again'', ''close'')] graph_sample"
proof -
  have "plan_flows graph_plan = graph_flows"
    by (simp add: plan_flows_def graph_plan_def graph_flows_def graph_flow_def)
  moreover have "wf_start graph_plan = StartFlow ''open''" by (simp add: graph_plan_def)
  ultimately show ?thesis
    using sample_repeats sample_validated
    by (simp add: accepted_def graph_env_def) (simp add: graph_flows_def graph_flow_def callable_unrouted_def
      flow_targets_def entry_node_def)
qed

section \<open>Properties\<close>

text \<open>
  C6: A run of a plan the compiler accepted enters no flow twice and only routed flows, and
  every flow it enters has all its dominators entered before it, whatever the steps, models
  and handlers answer.
\<close>

theorem compiled_run_dominated:
  assumes "accepted listing declared sources place (ev_plan env) retry_of G" "listing_ok listing"
  shows "case run_all env e d (new_run w) of
     (Inr r, s) \<Rightarrow> (case rr_start r of
        Some st \<Rightarrow> visits_ok G (plan_flows (ev_plan env)) (entered (sa_flow st) (rr_transitions r))
      | None \<Rightarrow> rr_transitions r = [])
   | (Inl x, s) \<Rightarrow> True"
proof (cases "run_all env e d (new_run w)")
  case (Pair a s)
  show ?thesis
  proof (cases a)
    case (Inr r)
    with run_all_route [of env e d w] Pair have "result_route (ev_plan env) r" by simp
    with result_visits [OF assms this] Pair Inr show ?thesis
      by (auto simp: result_route_def split: option.split)
  qed (simp add: Pair)
qed

theorem compiled_run_dominated_witness:
  "case run_all graph_env \<lparr>en_payload = JNull, en_metadata = []\<rparr> None (new_run 0) of
     (Inr r, s) \<Rightarrow> (case rr_start r of
        Some st \<Rightarrow> visits_ok graph_sample (plan_flows (ev_plan graph_env)) (entered (sa_flow st) (rr_transitions r))
      | None \<Rightarrow> rr_transitions r = [])
   | (Inl x, s) \<Rightarrow> True"
  by (rule compiled_run_dominated [OF graph_plan_accepted sorted_listing])

end
