(* ===== verification/Spending.thy ===== *)
theory Spending imports RunUsage begin

text \<open>
  How many steps the parts of the engine consume at most, whatever the step limit is. The
  bounds compose: a sequence adds them up, a loop multiplies. Everything but the entry into a
  step consumes nothing, which is the frame of \<^verbatim>\<open>RunFrames\<close> for the unchanged counter; what
  a flow, a repeat and a collection consume follows.
\<close>

section \<open>Costs\<close>

definition spends :: "('s \<Rightarrow> nat) \<Rightarrow> nat \<Rightarrow> ('s, 'a) eff \<Rightarrow> bool" where
  "spends c k m \<longleftrightarrow> (\<forall>s. c (snd (m s)) \<le> c s + k)"

named_theorems spending

lemma spendsI: "(\<And>s. c (snd (m s)) \<le> c s + k) \<Longrightarrow> spends c k m"
  by (simp add: spends_def)

lemma spends_mono: "spends c j m \<Longrightarrow> j \<le> k \<Longrightarrow> spends c k m"
  by (meson spends_def add_le_mono1 add_left_mono le_trans)

lemma spends_bindM: "spends c i m \<Longrightarrow> (\<And>a. spends c j (f a)) \<Longrightarrow> spends c (i + j) (bindM m f)"
proof (rule spendsI)
  fix s
  assume m: "spends c i m" and f: "\<And>a. spends c j (f a)"
  obtain r t where s: "m s = (r, t)" by fastforce
  have "c t \<le> c s + i" using m s by (metis spends_def snd_conv)
  moreover have "c (snd (f a t)) \<le> c t + j" for a using f by (simp add: spends_def)
  ultimately have "c (snd (f a t)) \<le> c s + (i + j)" for a by (metis add.assoc add_le_mono1 le_trans)
  with \<open>c t \<le> c s + i\<close> s show "c (snd (bindM m f s)) \<le> c s + (i + j)"
    by (cases r) (auto simp: bindM_def)
qed

text \<open>A continuation that depends on a value the first part guarantees.\<close>

lemma spends_bindM_if:
  assumes "spends c i m" "\<And>s a t. m s = (Inr a, t) \<Longrightarrow> Q a" "\<And>a. Q a \<Longrightarrow> spends c j (f a)"
  shows "spends c (i + j) (bindM m f)"
proof (rule spendsI)
  fix s
  obtain r t where s: "m s = (r, t)" by fastforce
  have t: "c t \<le> c s + i" using assms(1) s by (metis spends_def snd_conv)
  show "c (snd (bindM m f s)) \<le> c s + (i + j)"
  proof (cases r)
    case (Inl e)
    with s t show ?thesis by (simp add: bindM_def)
  next
    case (Inr a)
    with assms(2,3) s have "c (snd (f a t)) \<le> c t + j" by (simp add: spends_def)
    with s t Inr show ?thesis by (simp add: bindM_def)
  qed
qed

lemma spends_bind_left: "spends c k m \<Longrightarrow> (\<And>a. spends c 0 (f a)) \<Longrightarrow> spends c k (bindM m f)"
  using spends_bindM [of c k m 0 f] by simp

lemma spends_bind_right: "spends c 0 m \<Longrightarrow> (\<And>a. spends c k (f a)) \<Longrightarrow> spends c k (bindM m f)"
  using spends_bindM [of c 0 m k f] by simp

lemma spends_then_left: "spends c k m \<Longrightarrow> spends c 0 n \<Longrightarrow> spends c k (thenM m n)"
  unfolding thenM_def by (rule spends_bind_left)

lemma spends_then_right: "spends c 0 m \<Longrightarrow> spends c k n \<Longrightarrow> spends c k (thenM m n)"
  unfolding thenM_def by (rule spends_bind_right)

lemma spends_handleM: "spends c i m \<Longrightarrow> (\<And>e. spends c 0 (h e)) \<Longrightarrow> spends c i (handleM m h)"
proof (rule spendsI)
  fix s
  assume m: "spends c i m" and h: "\<And>e. spends c 0 (h e)"
  obtain r t where s: "m s = (r, t)" by fastforce
  have "c t \<le> c s + i" using m s by (metis spends_def snd_conv)
  moreover have "c (snd (h e t)) \<le> c t" for e using h by (metis add.right_neutral spends_def)
  ultimately show "c (snd (handleM m h s)) \<le> c s + i"
    using s by (cases r) (auto simp: handleM_def intro: le_trans)
qed

lemma spends_exceptM: "spends c i m \<Longrightarrow> (\<And>e. spends c 0 (h e)) \<Longrightarrow> spends c i (exceptM m h)"
  unfolding exceptM_def by (rule spends_handleM) (simp_all add: spends_def throw_def)

lemma spends_keeps: "keeps (\<lambda>s t. c t = c s) m \<Longrightarrow> spends c k m"
  by (simp add: keeps_def spends_def)

lemma spends_none: "spends c k (ret a)" "spends c k (throw e)" "spends c k (failM x)" "spends c k (pureM r)"
  "spends c k (getM f)"
  by (simp_all add: spends_def eff_defs)

lemma spends_if: "spends c k m \<Longrightarrow> spends c k n \<Longrightarrow> spends c k (if b then m else n)"
  by simp

lemma spends_if_cases:
  "(b \<Longrightarrow> spends c k m) \<Longrightarrow> (\<not> b \<Longrightarrow> spends c k n) \<Longrightarrow> spends c k (if b then m else n)"
  by simp

lemma spends_loopM: "(\<And>x. x \<in> set xs \<Longrightarrow> spends c (w x) (body x)) \<Longrightarrow> spends c (sum_list (map w xs)) (loopM body xs)"
proof (induction xs)
  case (Cons x xs)
  have "spends c (sum_list (map w xs)) (if b then loopM body xs else ret ())" for b
    using Cons by (simp add: spends_none)
  from spends_bindM [OF Cons.prems [of x] this] show ?case by simp
qed (simp add: spends_none)

abbreviation on_state :: "('s \<Rightarrow> nat) \<Rightarrow> 's \<times> 'l \<Rightarrow> nat" where
  "on_state c p \<equiv> c (fst p)"

lemma spends_withM: "spends (on_state c) k m \<Longrightarrow> spends c k (withM l m)"
  unfolding spends_def withM_def by (auto split: prod.split) (metis fst_conv snd_conv)

lemma spends_liftM: "spends c k m \<Longrightarrow> spends (on_state c) k (liftM m)"
  unfolding spends_def liftM_def by (auto split: prod.split) (metis snd_conv)

section \<open>What consumes nothing\<close>

abbreviation unspent :: "'w run_state \<Rightarrow> 'w run_state \<Rightarrow> bool" where
  "unspent s t \<equiv> rs_consumed t = rs_consumed s"

interpretation unspent: run_frame unspent 0
  by unfold_locales (auto simp: open_scope_def close_scope_def modM_def)

abbreviation steps :: "'w run_state \<Rightarrow> nat" where
  "steps \<equiv> rs_consumed"

lemma spends_free: "keeps unspent m \<Longrightarrow> spends steps k m"
  by (rule spends_keeps)

lemma spends_free_local: "keeps (on_fst unspent) m \<Longrightarrow> spends (on_state steps) k m"
  unfolding on_fst_def by (rule spends_keeps)

lemma spends_consume: "spends steps 1 (consume_step env)"
  by (simp add: spends_def consume_step_def failM_def)

lemma free_scopes:
  "keeps unspent (open_scope fl st ats)" "keeps unspent (set_outcome x y)" "keeps unspent close_scope"
  by (simp_all add: keeps_def open_scope_def close_scope_def set_outcome_def modM_def)

lemma spends_observe: "spends steps k body \<Longrightarrow> spends steps k (observe fl st ats body)"
  unfolding observe_at_def
  by (rule spends_then_right [OF spends_free [OF free_scopes(1)]], rule spends_bind_left, rule spends_handleM, assumption)
    (intro spends_then_right spends_none spends_free free_scopes)+

lemma spends_observe_local:
  "spends (on_state steps) k body \<Longrightarrow> spends (on_state steps) k (observe_local fl st ats body)"
  unfolding observe_at_def
  by (rule spends_then_right [OF spends_liftM [OF spends_free [OF free_scopes(1)]]], rule spends_bind_left,
      rule spends_handleM, assumption)
    (intro spends_then_right spends_none spends_liftM spends_free free_scopes)+

section \<open>Flows, repeats and collections\<close>

text \<open>
  A bound of every execution of a flow, and of every call of it with its repeat: all attempts,
  and a retry run between two of them.
\<close>

definition flow_bound :: "'w run_env \<Rightarrow> flow \<Rightarrow> nat \<Rightarrow> bool" where
  "flow_bound env f k \<longleftrightarrow> (\<forall>depth c. fc_flow c = f \<longrightarrow> spends steps k (execute_flow env depth c))"

definition retry_bound :: "'w run_env \<Rightarrow> flow \<Rightarrow> nat \<Rightarrow> bool" where
  "retry_bound env f r \<longleftrightarrow> (case fl_repeat f of
     None \<Rightarrow> True
   | Some rp \<Rightarrow> (case rp_retry_flow rp of
        None \<Rightarrow> True
      | Some n \<Rightarrow> (\<forall>g. workflow_flow (ev_plan env) n = Some g \<longrightarrow> flow_bound env g r)))"

definition attempt_cost :: "flow \<Rightarrow> nat \<Rightarrow> nat \<Rightarrow> nat \<Rightarrow> nat" where
  "attempt_cost f k r attempt = k + (case fl_repeat f of
     None \<Rightarrow> 0
   | Some rp \<Rightarrow> if attempt < rp_max_attempts rp \<and> rp_retry_flow rp \<noteq> None then r else 0)"

definition repeat_cost :: "flow \<Rightarrow> nat \<Rightarrow> nat \<Rightarrow> nat" where
  "repeat_cost f k r = (case fl_repeat f of
     None \<Rightarrow> k
   | Some rp \<Rightarrow> rp_max_attempts rp * k + (rp_max_attempts rp - 1) * (if rp_retry_flow rp = None then 0 else r))"

definition call_bound :: "'w run_env \<Rightarrow> flow \<Rightarrow> nat \<Rightarrow> bool" where
  "call_bound env f v \<longleftrightarrow> (\<exists>k r. flow_bound env f k \<and> retry_bound env f r \<and> repeat_cost f k r \<le> v)"

lemma attempts_cost: "sum_list (map (attempt_cost f k r) [1..<Suc (max_attempts_of f)]) = repeat_cost f k r"
proof (cases "fl_repeat f")
  case None
  then show ?thesis by (simp add: attempt_cost_def repeat_cost_def max_attempts_of_def)
next
  case (Some rp)
  let ?m = "rp_max_attempts rp" and ?r = "if rp_retry_flow rp = None then 0 else r"
  have "sum_list (map (\<lambda>n. k + (if n < ?m then ?r else 0)) [1..<Suc ?m]) = ?m * k + (?m - 1) * ?r"
  proof (cases ?m)
    case (Suc j)
    have "i \<le> j \<Longrightarrow> sum_list (map (\<lambda>n. k + (if n < Suc j then q else 0)) [1..<Suc i]) = i * k + i * q" for q i
      by (induction i) auto
    from this [of j] have "sum_list (map (\<lambda>n. k + (if n < Suc j then q else 0)) [1..<Suc j]) = j * k + j * q" for q
      by blast
    with Suc show ?thesis by simp
  qed simp
  moreover have "attempt_cost f k r = (\<lambda>n. k + (if n < ?m then ?r else 0))"
    using Some by (auto simp: attempt_cost_def)
  ultimately show ?thesis using Some by (simp add: repeat_cost_def max_attempts_of_def del: upt_Suc)
qed

text \<open>Nested executions stay within the bounds of flows.\<close>

definition child_within :: "'w run_env \<Rightarrow> 'w child \<Rightarrow> bool" where
  "child_within env child \<longleftrightarrow> (\<forall>c k. flow_bound env (fc_flow c) k \<longrightarrow> spends steps k (child c))"

lemma child_withinD: "child_within env child \<Longrightarrow> flow_bound env (fc_flow c) k \<Longrightarrow> spends steps k (child c)"
  by (simp add: child_within_def)

lemma child_levels:
  "child_within env (execute_flow env depth)" "child_within env (\<lambda>_. failM x)"
  by (auto simp: child_within_def flow_bound_def spends_none)

lemma free_local:
  "keeps (on_fst unspent) (record_flow n r)" "keeps unspent (observe_record rec)"
  by (auto simp: keeps_def on_fst_def record_flow_def observe_record_def set_outcome_def modM_def)

interpretation unspent_scope: scope_frame unspent 0 "on_fst unspent"
  by (rule unspent.on_fst_scope)

lemmas free_rules = unspent.keeps_base unspent.keeps_helpers unspent.keeps_parts free_local
  unspent.keeps_run_primitives

lemma spends_run_retry:
  assumes "child_within env child" "flow_bound env retry r"
  shows "spends (on_state steps) r (run_retry env child rp retry n issues e it runs inputs)"
  unfolding run_retry_def
proof (rule spends_bind_left, goal_cases)
  case 1
  show ?case
    by (rule spends_observe_local, rule spends_bind_right [OF spends_none(4)], rule spends_bind_left,
        rule spends_liftM, rule child_withinD [OF assms(1)])
      (use assms(2) in \<open>auto simp: retry_flow_call_def intro!: spends_free_local free_rules\<close>)
next
  case (2 a)
  show ?case
    by (rule spends_free_local) (intro free_rules)
qed

lemma spends_retry_phase:
  assumes "child_within env child" "fl_repeat f = Some rp" "retry_bound env f r"
  shows "spends (on_state steps) (if rp_retry_flow rp = None then 0 else r) (retry_phase env child rp n issues e it)"
proof (cases "rp_retry_flow rp")
  case None
  then show ?thesis by (simp add: retry_phase_def spends_none)
next
  case (Some m)
  show ?thesis
  proof (cases "workflow_flow (ev_plan env) m")
    case None
    with Some show ?thesis by (simp add: retry_phase_def spends_none)
  next
    case g: (Some g)
    have b: "flow_bound env g r" using assms(2,3) Some g by (simp add: retry_bound_def)
    show ?thesis
      unfolding retry_phase_def Some option.case g Let_def
      by (rule spends_bind_right [OF spends_none(5)], rule spends_bind_right)
        (auto intro!: spends_free_local free_rules spends_run_retry [OF assms(1) b] spends_none
          split: sum.split)
  qed
qed

lemma spends_repeat_step:
  assumes "child_within env child" "fl_repeat f = Some rp" "retry_bound env f r"
  shows "spends (on_state steps) (if n < rp_max_attempts rp \<and> rp_retry_flow rp \<noteq> None then r else 0)
    (repeat_step env child f rp rec n issues e it)"
proof -
  let ?k = "if n < rp_max_attempts rp \<and> rp_retry_flow rp \<noteq> None then r else 0"
  have next': "spends (on_state steps) 0 (case d of Some stop \<Rightarrow> ret stop | None \<Rightarrow> decide_next env f rp issues e it)" for d
    by (auto intro!: spends_none spends_free_local unspent_scope.keeps_decide_next split: option.split)
  have decide: "spends (on_state steps) ?k (if b then ret (stop_repeat StopUntil issues)
      else if rp_max_attempts rp \<le> n then ret (stop_repeat StopExhausted issues)
      else bindM (retry_phase env child rp n issues e it) (\<lambda>d.
        case d of Some stop \<Rightarrow> ret stop | None \<Rightarrow> decide_next env f rp issues e it))" for b
  proof (cases "b \<or> rp_max_attempts rp \<le> n")
    case False
    then have eq: "?k = (if rp_retry_flow rp = None then 0 else r)" and no: "\<not> b" "\<not> rp_max_attempts rp \<le> n"
      by auto
    show ?thesis
      unfolding eq by (simp only: no if_False) (rule spends_bind_left [OF spends_retry_phase [OF assms] next'])
  qed (auto simp: spends_none)
  have free: "keeps (on_fst unspent) (liftM (condition_holds env (rp_until rp) l x))" for l x
    by (intro free_rules)
  show ?thesis
    unfolding repeat_step_def
    by (intro spends_if spends_none spends_bind_right [OF spends_none(5)]
        spends_bind_right [OF spends_free_local [OF free]] decide)
qed

lemma spends_repeat_attempt:
  assumes "child_within env child" "fl_repeat f = Some rp" "retry_bound env f r"
  shows "spends (on_state steps) (if n < rp_max_attempts rp \<and> rp_retry_flow rp \<noteq> None then r else 0)
    (repeat_attempt env child f rp rec attempts n issues e it)"
  unfolding repeat_attempt_def
  by (rule spends_then_right [OF spends_free_local], intro free_rules, rule spends_bind_left,
      rule spends_repeat_step [OF assms]) (auto intro!: spends_free_local free_rules split: option.split)

lemma spends_item_attempt:
  assumes "child_within env child" "flow_bound env f k" "retry_bound env f r"
  shows "spends (on_state steps) (attempt_cost f k r n) (item_attempt env child f it metadata e n attempts inputs)"
proof -
  have rest: "spends (on_state steps) (attempt_cost f 0 r n) (case fl_repeat f of
      None \<Rightarrow> ret (Inr (rec, None, None))
    | Some rp \<Rightarrow>
       bindM (repeat_attempt env child f rp rec (attempts @ [rec]) n issues e (Some it))
        (\<lambda>d. case (rd_stop d, rd_inputs d) of
           (None, Some inputs') \<Rightarrow> ret (Inl (inputs', attempts @ [rec]))
         | (None, None) \<Rightarrow> throw OtherErr
         | (Some _, _) \<Rightarrow> bindM (getM snd) (\<lambda>records.
             case get records (fl_name f) of
               None \<Rightarrow> throw OtherErr
             | Some r \<Rightarrow> ret (Inr (r,
                 (case rp_retry_flow rp of Some n \<Rightarrow> get records n | None \<Rightarrow> None),
                 rd_failure d)))))" for rec issues
  proof (cases "fl_repeat f")
    case (Some rp)
    show ?thesis
      unfolding Some option.case attempt_cost_def add_0
      by (rule spends_bind_left [OF spends_repeat_attempt [OF assms(1) Some assms(3)]])
        (auto intro!: spends_none spends_bind_right [OF spends_none(5)] split: option.split)
  qed (simp add: spends_none)
  have cost: "attempt_cost f k r n = k + attempt_cost f 0 r n" by (simp add: attempt_cost_def)
  show ?thesis
    unfolding item_attempt_def cost
  proof (rule spends_observe_local, rule spends_bind_right [OF spends_none(4)], rule spends_bindM)
    show "spends (on_state steps) k (liftM (child (item_call f le n it)))" for le
      by (rule spends_liftM, rule child_withinD [OF assms(1)]) (simp add: item_call_def assms(2))
  next
    fix a :: "flow_record \<times> issue list"
    have "keeps (on_fst unspent) (liftM (observe_record (fst a)))" by (intro free_rules)
    from spends_then_right [OF spends_free_local [OF this] rest [of "fst a" "snd a"]]
    show "spends (on_state steps) (attempt_cost f 0 r n) (case a of (record, issues) \<Rightarrow>
      thenM (liftM (observe_record record)) (case fl_repeat f of
      None \<Rightarrow> ret (Inr (record, None, None))
    | Some rp \<Rightarrow>
       bindM (repeat_attempt env child f rp record (attempts @ [record]) n issues e (Some it))
        (\<lambda>d. case (rd_stop d, rd_inputs d) of
           (None, Some inputs') \<Rightarrow> ret (Inl (inputs', attempts @ [record]))
         | (None, None) \<Rightarrow> throw OtherErr
         | (Some _, _) \<Rightarrow> bindM (getM snd) (\<lambda>records.
             case get records (fl_name f) of
               None \<Rightarrow> throw OtherErr
             | Some r \<Rightarrow> ret (Inr (r,
                 (case rp_retry_flow rp of Some n \<Rightarrow> get records n | None \<Rightarrow> None),
                 rd_failure d))))))" by (simp only: prod.case_eq_if)
  qed
qed

lemma spends_item_attempts:
  assumes "child_within env child" "flow_bound env f k" "retry_bound env f r"
  shows "spends (on_state steps) (sum_list (map (attempt_cost f k r) ns))
    (item_attempts env child f it metadata e ns attempts inputs)"
proof (induction ns arbitrary: attempts inputs)
  case (Cons n ns)
  show ?case
    unfolding item_attempts.simps list.map sum_list.Cons
    by (rule spends_bindM [OF spends_item_attempt [OF assms]]) (auto intro: Cons.IH spends_none split: sum.split prod.split)
qed (simp add: spends_none)

lemma spends_run_item:
  assumes "child_within env child" "call_bound env f v"
  shows "spends steps v (run_item env child f it metadata)"
proof -
  from assms(2) obtain k r where "flow_bound env f k" "retry_bound env f r" "repeat_cost f k r \<le> v"
    by (auto simp: call_bound_def)
  with spends_item_attempts [OF assms(1) this(1,2), of "[1..<Suc (max_attempts_of f)]", unfolded attempts_cost]
  show ?thesis
    unfolding run_item_def
    by (intro spends_bind_right [OF spends_none(4)] spends_withM) (rule spends_mono)
qed

text \<open>The items of a validated batch are calls of allowlisted flows, not more than were given.\<close>

lemma validate_items_found:
  "validate_items env cs seen raws s = (Inr items, t) \<Longrightarrow>
     length items = length raws \<and>
     (\<forall>(i, f, p) \<in> set items. \<exists>n \<in> set (cs_flows cs). workflow_flow (ev_plan env) n = Some f)"
proof (induction raws arbitrary: seen s items t)
  case Nil
  then show ?case by (simp add: ret_def)
next
  case (Cons raw raws)
  from Cons.prems obtain s1 where s1: "check_deadline env s = (Inr (), s1)"
    by (auto simp: thenM_def bindM_def split: prod.splits sum.splits)
  show ?case
  proof (cases raw)
    case (JObj o')
    with Cons.prems s1 obtain i n payload f where found: "n \<in> set (cs_flows cs)" "workflow_flow (ev_plan env) n = Some f"
      and rest: "thenM (pureM (ev_validate_flow_input env n (JObj payload)))
        (bindM (validate_items env cs (i # seen) raws) (\<lambda>items. ret ((i, f, payload) # items))) s1 = (Inr items, t)"
      by (auto simp: thenM_def bindM_def failM_def raise_code_def split: if_splits option.splits json.splits)
    from rest obtain s2 items' where "validate_items env cs (i # seen) raws s2 = (Inr items', t)"
      "items = (i, f, payload) # items'"
      by (auto simp: thenM_def bindM_def pureM_def ret_def split: prod.splits sum.splits)
    with Cons.IH [OF this(1)] found show ?thesis by auto
  qed (use Cons.prems s1 in \<open>auto simp: thenM_def bindM_def failM_def raise_code_def\<close>)
qed

lemma spends_run_items:
  assumes "child_within env child" "\<forall>(i, f, p) \<in> set items. call_bound env f v"
  shows "spends steps (length items * v) (run_items env child metadata index u st items)"
  using assms(2)
proof (induction items arbitrary: index u st)
  case (Cons p items)
  obtain i f payload where p: "p = (i, f, payload)" by (cases p) auto
  from Cons.prems have b: "call_bound env f v" and rest: "\<forall>(i, f, p) \<in> set items. call_bound env f v"
    by (auto simp: p)
  have "spends steps (v + length items * v) (run_items env child metadata index u st (p # items))"
    unfolding p run_items.simps
    by (rule spends_bindM [OF spends_run_item [OF assms(1) b]])
      (auto simp: Let_def intro!: spends_none spends_if spends_bind_left [OF Cons.IH [OF rest]] split: prod.split)
  then show ?case by simp
qed (simp add: spends_none)

definition allowed_bound :: "'w run_env \<Rightarrow> collection_step \<Rightarrow> nat \<Rightarrow> bool" where
  "allowed_bound env cs v \<longleftrightarrow>
     (\<forall>n \<in> set (cs_flows cs). \<forall>f. workflow_flow (ev_plan env) n = Some f \<longrightarrow> call_bound env f v)"

lemma spends_execute_collection:
  assumes "child_within env child" "allowed_bound env cs v"
  shows "spends steps (cs_max_items cs * v) (execute_collection env child cs inputs metadata depth)"
proof -
  have free: "keeps unspent (now env)" "keeps unspent (validate_items env cs seen raw)" for seen raw
    by (intro free_rules unspent.keeps_validate_items)+
  have batch: "spends steps (cs_max_items cs * v) (bindM (validate_items env cs [] raw) (\<lambda>items.
           bindM (run_items env child metadata 0 usage_zero Completed items) (\<lambda>(records, u, st, failure).
            bindM (pureM (mapE (\<lambda>(p, r). item_entry p r) (zip items records))) (\<lambda>entries.
             bindM (now env) (\<lambda>finished.
              let ledger = [(''items'', JArr entries)] in
              ret \<lparr>sp_status = st, sp_result = (if st \<noteq> Failed then JObj ledger else JNull),
                sp_has_result = (st \<noteq> Failed), sp_error = failure,
                sp_elapsed = Some (finished - started), sp_usage = Some u, sp_selection = None,
                sp_partial = (if st = Failed then Some ledger else None),
                sp_collection = True\<rparr>)))))" if "length raw \<le> cs_max_items cs" for raw started
  proof -
    have "spends steps (0 + length raw * v) (bindM (validate_items env cs [] raw) (\<lambda>items.
           bindM (run_items env child metadata 0 usage_zero Completed items) (\<lambda>(records, u, st, failure).
            bindM (pureM (mapE (\<lambda>(p, r). item_entry p r) (zip items records))) (\<lambda>entries.
             bindM (now env) (\<lambda>finished.
              let ledger = [(''items'', JArr entries)] in
              ret \<lparr>sp_status = st, sp_result = (if st \<noteq> Failed then JObj ledger else JNull),
                sp_has_result = (st \<noteq> Failed), sp_error = failure,
                sp_elapsed = Some (finished - started), sp_usage = Some u, sp_selection = None,
                sp_partial = (if st = Failed then Some ledger else None),
                sp_collection = True\<rparr>)))))"
    proof (rule spends_bindM_if [where Q = "\<lambda>items. length items = length raw \<and> (\<forall>(i, f, p) \<in> set items. call_bound env f v)"])
      show "length items = length raw \<and> (\<forall>(i, f, p) \<in> set items. call_bound env f v)"
        if "validate_items env cs [] raw s = (Inr items, t)" for s items t
        using validate_items_found [OF that] assms(2) unfolding allowed_bound_def by blast
      show "spends steps (length raw * v) (bindM (run_items env child metadata 0 usage_zero Completed items) (\<lambda>(records, u, st, failure).
            bindM (pureM (mapE (\<lambda>(p, r). item_entry p r) (zip items records))) (\<lambda>entries.
             bindM (now env) (\<lambda>finished.
              let ledger = [(''items'', JArr entries)] in
              ret \<lparr>sp_status = st, sp_result = (if st \<noteq> Failed then JObj ledger else JNull),
                sp_has_result = (st \<noteq> Failed), sp_error = failure,
                sp_elapsed = Some (finished - started), sp_usage = Some u, sp_selection = None,
                sp_partial = (if st = Failed then Some ledger else None),
                sp_collection = True\<rparr>))))"
        if items: "length items = length raw \<and> (\<forall>(i, f, p) \<in> set items. call_bound env f v)" for items
      proof -
        have "spends steps (length items * v) (run_items env child metadata 0 usage_zero Completed items)"
          by (rule spends_run_items [OF assms(1)]) (use items in blast)
        then show ?thesis
          unfolding items [THEN conjunct1]
          by (rule spends_bind_left)
            (auto simp: Let_def intro!: spends_free unspent.keeps_intros free split: prod.split)
      qed
    qed (rule spends_free [OF free(2)])
    then show ?thesis by (rule spends_mono) (simp add: that)
  qed
  show ?thesis
    unfolding execute_collection_def
  proof (rule spends_bind_right [OF spends_free [OF free(1)]], rule spends_if, rule spends_none, goal_cases)
    case (1 started)
    show ?case
    proof (cases "get inputs ''items''")
      case (Some v)
      show ?thesis
      proof (cases v)
        case (JArr raw)
        show ?thesis
          unfolding Some JArr option.case json.case
          by (rule spends_if_cases, rule spends_none, rule batch) simp
      qed (simp_all add: Some spends_none)
    qed (simp add: spends_none)
  qed
qed

text \<open>One step of a flow: itself, and for a collection all its items.\<close>

definition step_bound :: "'w run_env \<Rightarrow> step \<Rightarrow> nat \<Rightarrow> bool" where
  "step_bound env s k \<longleftrightarrow> (case st_body s of
     CollectionStep cs \<Rightarrow> (\<exists>v. allowed_bound env cs v \<and> Suc (cs_max_items cs * v) \<le> k)
   | _ \<Rightarrow> 1 \<le> k)"

lemma spends_run_collection:
  assumes "child_within env child" "allowed_bound env cs v"
  shows "spends (on_state steps) (cs_max_items cs * v) (run_collection env child c depth step cs inputs)"
  unfolding run_collection_def
  by (rule spends_bind_left, rule spends_liftM, rule spends_execute_collection [OF assms])
    (auto simp: Let_def intro!: spends_free_local free_rules)

lemma spends_step_body:
  assumes "child_within env child" "step_bound env s k"
  shows "spends (on_state steps) k (run_step_body env child c depth s guard)"
proof -
  from assms(2) obtain j where j: "k = Suc j"
    by (cases k) (auto simp: step_bound_def split: step_body.splits)
  have body: "spends (on_state steps) j (case st_body s of
        CollectionStep cs \<Rightarrow> run_collection env child c depth s cs inputs
      | _ \<Rightarrow> run_operation env c s inputs)" for inputs
  proof (cases "st_body s")
    case (CollectionStep cs)
    with assms(2) j obtain v where "allowed_bound env cs v" "cs_max_items cs * v \<le> j"
      by (auto simp: step_bound_def)
    then show ?thesis
      unfolding CollectionStep step_body.case
      by (intro spends_mono [OF spends_run_collection [OF assms(1)]])
  qed (auto intro!: spends_free_local unspent.keeps_run_operation)
  have inputs: "keeps (on_fst unspent) (step_inputs c s)" by (rule unspent.keeps_step_inputs)
  have report: "keeps (on_fst unspent) (case guard of
      Some (b, ms) \<Rightarrow> liftM (report (step_location s) b ms) | None \<Rightarrow> ret ())"
    by (auto intro!: free_rules unspent.keeps_report split: option.split)
  have time: "keeps (on_fst unspent) (liftM (now env))" "keeps (on_fst unspent) (locally g)" for g
    by (intro free_rules)+
  have "spends (on_state steps) (1 + j) (run_step_body env child c depth s guard)"
    unfolding run_step_body_def thenM_def [of "liftM (consume_step env)"]
    by (rule spends_bindM, rule spends_liftM, rule spends_consume)
      (intro spends_bind_right [OF spends_free_local [OF time(1)]] spends_then_right [OF spends_free_local [OF time(2)]]
        spends_observe_local spends_then_right [OF spends_free_local [OF report]]
        spends_bind_right [OF spends_free_local [OF inputs]] body)
  with j show ?thesis by simp
qed

lemma spends_step_iteration:
  assumes "child_within env child" "step_bound env s k"
  shows "spends (on_state steps) k (step_iteration env child c depth s)"
proof -
  have free: "keeps (on_fst unspent) (liftM (suspend env))" "keeps (on_fst unspent) (liftM (check_deadline env))"
    "keeps (on_fst unspent) (step_guard env c s)" "keeps (on_fst unspent) (thenM (skip_step env c s ms) (ret b))" for ms b
    by (intro free_rules unspent.keeps_step_guard unspent.keeps_skip_step)+
  have "spends (on_state steps) k (case guard of
      Some (False, ms) \<Rightarrow> thenM (skip_step env c s ms) (ret True)
    | _ \<Rightarrow> run_step_body env child c depth s guard)" for guard
    using spends_step_body [OF assms] spends_free_local [OF free(4)]
    by (auto split: option.split bool.split)
  then show ?thesis
    unfolding step_iteration_def
    by (intro spends_then_right [OF spends_free_local [OF free(1)]] spends_then_right [OF spends_free_local [OF free(2)]]
        spends_bind_right [OF spends_free_local [OF free(3)]])
qed

text \<open>Executing a flow costs at most the sum of the costs of its steps.\<close>

lemma flow_bound_steps:
  assumes "list_all2 (step_bound env) (fl_steps f) ks"
  shows "flow_bound env f (sum_list ks)"
  unfolding flow_bound_def
proof (intro allI impI)
  fix depth and c :: flow_call
  assume c: "fc_flow c = f"
  define w where "w s = (LEAST k. step_bound env s k)" for s
  have w: "step_bound env s (w s) \<and> w s \<le> k" if "step_bound env s k" for s k
    using that unfolding w_def by (auto intro: LeastI Least_le)
  have bounded: "\<exists>k. step_bound env s k" if "s \<in> set (fl_steps f)" for s
    using assms that by (metis in_set_conv_nth list_all2_nthD)
  have sum: "sum_list (map w (fl_steps f)) \<le> sum_list ks"
    using assms by (induction rule: list_all2_induct) (auto dest: w intro: add_mono)
  have calls: "set (call_steps c) \<subseteq> set (fl_steps f)" by (auto simp: call_steps_def c)
  have "sum_list (map w (call_steps c)) \<le> sum_list (map w (fl_steps f))"
    by (simp add: call_steps_def c sum_list_filter_le_nat)
  with sum have total: "sum_list (map w (call_steps c)) \<le> sum_list ks" by simp
  have level: "spends steps (sum_list ks) (execute_level env child depth c)" if "child_within env child" for child
  proof -
    have loop: "spends (on_state steps) (sum_list (map w (call_steps c)))
        (loopM (step_iteration env child c depth) (call_steps c))"
      by (rule spends_loopM) (use spends_step_iteration [OF that] w bounded calls in blast)
    have free: "keeps (on_fst unspent) (flow_output c)" "keeps (on_fst unspent) (flow_failure env x)" for x
      unfolding flow_output_def flow_failure_def by (intro free_rules)+
    have time: "keeps unspent (now env)" by (intro free_rules)
    have "spends (on_state steps) (sum_list ks) (thenM (flow_steps env child c depth) (getM snd))"
      unfolding flow_steps_def
      by (rule spends_mono [OF _ total])
        (intro spends_then_left [OF _ spends_none(5)] spends_exceptM spends_then_left [OF loop]
          spends_free_local free)
    then show ?thesis
      unfolding execute_level_def
      by (intro spends_bind_right [OF spends_free [OF time]] spends_bind_left [OF spends_withM]
          spends_none)
  qed
  show "spends steps (sum_list ks) (execute_flow env depth c)"
    unfolding execute_flow.simps [of env depth c]
    by (rule level) (simp add: child_levels)
qed

end
