(* ===== verification/RunSteps.thy ===== *)
theory RunSteps imports Spending RunPath begin

text \<open>
  How many steps a whole run consumes at most: a routed flow with its repeat, the flows along a
  path of routes, the run. The cost of a path is given by a potential of the flows that
  pays for the flow itself and for every flow it routes to.
\<close>

section \<open>Potentials\<close>

text \<open>The steps consumed and the potential of the answer are covered by the bound.\<close>

definition pays :: "('s \<Rightarrow> nat) \<Rightarrow> nat \<Rightarrow> ('a \<Rightarrow> nat) \<Rightarrow> ('s, 'a) eff \<Rightarrow> bool" where
  "pays c k p m \<longleftrightarrow> (\<forall>s. case m s of
     (Inr a, t) \<Rightarrow> c t + p a \<le> c s + k | (Inl e, t) \<Rightarrow> c t \<le> c s + k)"

lemma pays_bindM: "pays c k p m \<Longrightarrow> (\<And>a. spends c (p a) (f a)) \<Longrightarrow> spends c k (bindM m f)"
proof (rule spendsI)
  fix s
  assume m: "pays c k p m" and f: "\<And>a. spends c (p a) (f a)"
  obtain r t where s: "m s = (r, t)" by fastforce
  show "c (snd (bindM m f s)) \<le> c s + k"
  proof (cases r)
    case (Inr a)
    from m s Inr have "c t + p a \<le> c s + k" by (auto simp: pays_def split: prod.splits sum.splits)
    moreover have "c (snd (f a t)) \<le> c t + p a" using f by (simp add: spends_def)
    ultimately show ?thesis using s Inr by (simp add: bindM_def)
  next
    case (Inl x)
    from m have "case m s of (Inr a, t) \<Rightarrow> c t + p a \<le> c s + k | (Inl e, t) \<Rightarrow> c t \<le> c s + k"
      unfolding pays_def by (rule spec)
    with s Inl show ?thesis by (simp add: bindM_def)
  qed
qed

lemma pays_yields:
  assumes "spends c v m" "yields m (\<lambda>a. v + p a \<le> k)" "v \<le> k"
  shows "pays c k p m"
  unfolding pays_def
proof (intro allI)
  fix s
  from assms(1) have "c (snd (m s)) \<le> c s + v" by (simp add: spends_def)
  with assms(2,3) show "case m s of (Inr a, t) \<Rightarrow> c t + p a \<le> c s + k | (Inl e, t) \<Rightarrow> c t \<le> c s + k"
    by (cases "m s") (fastforce simp: valid_def split: prod.splits sum.splits)
qed

lemma pays_bind_free:
  assumes "spends c 0 m" "yields m Q" "\<And>a. Q a \<Longrightarrow> pays c k p (f a)"
  shows "pays c k p (bindM m f)"
  unfolding pays_def
proof (intro allI)
  fix s
  obtain r t where s: "m s = (r, t)" by fastforce
  from assms(1) s have t: "c t \<le> c s" unfolding spends_def by (metis add.right_neutral snd_conv)
  show "case bindM m f s of (Inr a, t) \<Rightarrow> c t + p a \<le> c s + k | (Inl e, t) \<Rightarrow> c t \<le> c s + k"
  proof (cases r)
    case (Inr a)
    with assms(2) s have "Q a" by (auto simp: valid_def split: prod.splits sum.splits)
    from assms(3) [OF this] have "case f a t of (Inr a, u) \<Rightarrow> c u + p a \<le> c t + k | (Inl e, u) \<Rightarrow> c u \<le> c t + k"
      by (simp add: pays_def)
    with t s Inr show ?thesis by (auto simp: bindM_def split: prod.splits sum.splits)
  qed (use s t in \<open>simp add: bindM_def\<close>)
qed

lemma yields_liftM: "yields m Q \<Longrightarrow> yields (liftM m) Q"
  by (auto simp: valid_def liftM_def split: prod.splits sum.splits)

section \<open>Routed flows\<close>

lemma spends_sharedM: "spends (on_state steps) k m \<Longrightarrow> spends steps k (sharedM m)"
proof (rule spendsI)
  fix s :: "'a run_state"
  assume m: "spends (on_state steps) k m"
  obtain r t rec where t: "m (s, rs_records s) = (r, (t, rec))" by (cases "m (s, rs_records s)") auto
  from m have "on_state steps (snd (m (s, rs_records s))) \<le> on_state steps (s, rs_records s) + k"
    unfolding spends_def by blast
  with t show "steps (snd (sharedM m s)) \<le> steps s + k" by (simp add: sharedM_def)
qed

lemma spends_routed_boundary: "spends steps k (bindM (routed_boundary env f e issues x) (\<lambda>r. ret (Inr r)))"
  by (rule spends_free) (intro free_rules unspent.keeps_routed_boundary)

lemma free_shared:
  "keeps unspent (set_active a)" "keeps unspent (set_record n r)" "keeps unspent (observe_record r)"
  "keeps unspent (check_deadline env)" "keeps unspent (pureM q)" "keeps unspent (getM g)"
  by (intro free_rules)+

lemma spends_routed_attempt:
  assumes "flow_bound env f k" "retry_bound env f r"
  shows "spends steps (attempt_cost f k r n) (routed_attempt env f e n attempts inputs)"
proof -
  have rest: "spends steps (attempt_cost f 0 r n) (case fl_repeat f of
      None \<Rightarrow> thenM (set_record (fl_name f) rec)
        (bindM (routed_boundary env f e issues None) (\<lambda>r. ret (Inr r)))
    | Some rp \<Rightarrow>
        bindM (sharedM (repeat_attempt env (execute_flow env 0) f rp rec (attempts @ [rec]) n issues e None)) (\<lambda>d.
          case (rd_stop d, rd_inputs d) of
            (None, Some inputs') \<Rightarrow> ret (Inl (inputs', attempts @ [rec]))
          | (None, None) \<Rightarrow> throw OtherErr
          | (Some _, _) \<Rightarrow> bindM (routed_boundary env f e (rd_issues d) (rd_failure d)) (\<lambda>r. ret (Inr r))))"
    for rec issues
  proof (cases "fl_repeat f")
    case None
    then show ?thesis
      by (simp add: spends_then_right [OF spends_free [OF free_shared(2)]] spends_routed_boundary)
  next
    case (Some rp)
    show ?thesis
      unfolding Some option.case attempt_cost_def add_0
      by (rule spends_bind_left [OF spends_sharedM [OF spends_repeat_attempt [OF child_levels(1) Some assms(2)]]])
        (auto intro!: spends_none spends_routed_boundary split: option.split)
  qed
  have cost: "attempt_cost f k r n = k + attempt_cost f 0 r n" by (simp add: attempt_cost_def)
  have run: "spends steps k (execute_flow env 0 (routed_call f le n))" for le
    using assms(1) by (simp add: flow_bound_def routed_call_def)
  show ?thesis
    unfolding routed_attempt_def cost
    by (rule spends_then_right [OF spends_free [OF free_shared(1)]],
        rule spends_bind_right [OF spends_free [OF free_shared(5)]], rule spends_observe,
        rule spends_bindM [OF run])
      (simp add: split_def spends_then_right [OF spends_free [OF free_shared(3)] rest])
qed

lemma spends_routed_attempts:
  assumes "flow_bound env f k" "retry_bound env f r"
  shows "spends steps (sum_list (map (attempt_cost f k r) ns)) (routed_attempts env f e ns attempts inputs)"
proof (induction ns arbitrary: attempts inputs)
  case (Cons n ns)
  show ?case
    by (simp, rule spends_bindM [OF spends_routed_attempt [OF assms]])
      (auto intro: Cons.IH spends_none split: sum.split prod.split)
qed (simp add: spends_none)

lemma spends_run_routed:
  assumes "call_bound env f v"
  shows "spends steps v (run_routed env f e)"
proof -
  from assms obtain k r where b: "flow_bound env f k" "retry_bound env f r" "repeat_cost f k r \<le> v"
    by (auto simp: call_bound_def)
  have "spends steps v (routed_attempts env f e [1..<Suc (max_attempts_of f)] [] inputs)" for inputs
    by (rule spends_mono [OF spends_routed_attempts [OF b(1,2)]]) (unfold attempts_cost, rule b(3))
  then show ?thesis
    unfolding run_routed_def
    by (intro spends_then_right [OF spends_free [OF free_shared(4)]] spends_then_right [OF spends_free [OF free_shared(1)]]
      spends_bind_right [OF spends_free [OF free_shared(6)]] spends_bind_right [OF spends_free [OF free_shared(5)]])
qed

section \<open>Paths\<close>

text \<open>
  A potential of some routed flows, closed under routes: it pays for a call of each flow and
  for the flow it leads to.
\<close>

definition route_potential :: "'w run_env \<Rightarrow> (string \<rightharpoonup> nat) \<Rightarrow> bool" where
  "route_potential env B \<longleftrightarrow> (\<forall>n b f. B n = Some b \<longrightarrow> workflow_flow (ev_plan env) n = Some f \<longrightarrow>
     (\<exists>v. call_bound env f v \<and> v \<le> b \<and>
       (\<forall>t \<in> set (target_flows (flow_targets f)). \<exists>b'. B t = Some b' \<and> v + b' \<le> b)))"

definition next_cost :: "(string \<rightharpoonup> nat) \<Rightarrow> string option \<Rightarrow> nat" where
  "next_cost B current = (case current of None \<Rightarrow> 0 | Some n \<Rightarrow> (case B n of None \<Rightarrow> 0 | Some b \<Rightarrow> b))"

lemma pays_routed_iteration:
  assumes "route_potential env B" "B current = Some b"
  shows "pays (on_state steps) b (next_cost B) (routed_iteration env e visited current) \<and>
    yields (routed_iteration env e visited current) (\<lambda>n. case n of None \<Rightarrow> True | Some m \<Rightarrow> B m \<noteq> None)"
  (is "?pays \<and> yields _ ?known")
proof -
  let ?rest = "\<lambda>r. if fr_status (rt_record r) = Failed \<or> rt_failure r \<noteq> None
       then thenM (run_locally (\<lambda>l. l\<lparr>ru_status := Failed, ru_error :=
           (case rt_failure r of Some x \<Rightarrow> Some x | None \<Rightarrow> fr_error (rt_record r))\<rparr>)) (ret None)
       else case rt_target r of
         None \<Rightarrow> throw OtherErr
       | Some (t, tr) \<Rightarrow>
           thenM (run_locally (\<lambda>l. l\<lparr>ru_transitions := ru_transitions l @ [tr],
             ru_status := (case tg_outcome t of
                Some oc \<Rightarrow> terminal_status oc | None \<Rightarrow> ru_status l)\<rparr>))
           (ret (tg_flow t))"
  have rest_free: "spends (on_state steps) 0 (?rest r)" for r
    by (rule spends_free_local) (intro free_rules)
  have target: "yields (bindM (liftM (run_routed env f e)) ?rest)
      (\<lambda>n. \<forall>m. n = Some m \<longrightarrow> m \<in> set (target_flows (flow_targets f)))" for f
    by (rule yields_bindM [OF yields_liftM [OF run_routed_boundary]])
      (auto simp: routed_ok_def boundary_ok_def declared_target_def intro!: yields_thenM yields_simple split: option.split)
  have enter: "yields (liftM (enter_flow env visited current)) (\<lambda>f. workflow_flow (ev_plan env) current = Some f)"
    by (rule yields_liftM, rule yields_weaken [OF enter_flow_visited]) blast
  have body: "pays (on_state steps) b (next_cost B) (if fl_callable f then failM INVALID_CONFIGURATION
      else bindM (liftM (run_routed env f e)) ?rest) \<and>
    yields (if fl_callable f then failM INVALID_CONFIGURATION
      else bindM (liftM (run_routed env f e)) ?rest) ?known"
    if f: "workflow_flow (ev_plan env) current = Some f" for f
  proof -
    from assms f obtain v where v: "call_bound env f v" "v \<le> b"
      "\<forall>t \<in> set (target_flows (flow_targets f)). \<exists>b'. B t = Some b' \<and> v + b' \<le> b"
      unfolding route_potential_def by blast
    have "spends (on_state steps) v (bindM (liftM (run_routed env f e)) ?rest)"
      by (rule spends_bind_left [OF spends_liftM [OF spends_run_routed [OF v(1)]] rest_free])
    moreover have "yields (bindM (liftM (run_routed env f e)) ?rest) (\<lambda>n. v + next_cost B n \<le> b)"
      by (rule yields_weaken [OF target]) (use v in \<open>fastforce simp: next_cost_def split: option.splits\<close>)
    ultimately have "pays (on_state steps) b (next_cost B) (bindM (liftM (run_routed env f e)) ?rest)"
      using v(2) by (rule pays_yields)
    moreover have "yields (bindM (liftM (run_routed env f e)) ?rest) ?known"
      by (rule yields_weaken [OF target]) (use v(3) in \<open>fastforce split: option.splits\<close>)
    moreover have "pays (on_state steps) b (next_cost B)
        (failM INVALID_CONFIGURATION :: ('a run_state \<times> run_locals, string option) eff)"
      by (simp add: pays_def failM_def raise_code_def)
    ultimately show ?thesis by (simp add: yields_simple)
  qed
  have free: "spends (on_state steps) 0 (liftM (enter_flow env visited current))"
    by (rule spends_liftM, rule spends_free, rule unspent.keeps_enter_flow)
  show ?thesis
    unfolding routed_iteration_def
    by (rule conjI, rule pays_bind_free [OF free enter], simp only: body, rule yields_bindM [OF enter], simp only: body)
qed

lemma spends_bindM_pays:
  assumes "pays c k p m" "yields m Q" "\<And>a. Q a \<Longrightarrow> spends c (p a) (f a)"
  shows "spends c k (bindM m f)"
proof -
  have "bindM m f = bindM m (\<lambda>a. if Q a then f a else ret undefined)"
    using assms(2) by (fastforce simp: bindM_def valid_def split: prod.splits sum.splits)
  moreover have "spends c k (bindM m (\<lambda>a. if Q a then f a else ret undefined))"
    by (rule pays_bindM [OF assms(1)]) (use assms(3) in \<open>simp add: spends_none\<close>)
  ultimately show ?thesis by simp
qed

lemma spends_run_loop:
  "route_potential env B \<Longrightarrow> (case current of None \<Rightarrow> True | Some n \<Rightarrow> B n \<noteq> None) \<Longrightarrow>
     spends (on_state steps) (next_cost B current) (run_loop env e visited current)"
proof (induction env e visited current rule: run_loop.induct)
  case (1 env e visited)
  show ?case by (simp add: run_loop.simps spends_none)
next
  case (2 env e visited current)
  from 2(3) obtain b where b: "B current = Some b" by auto
  note it = pays_routed_iteration [OF 2(2) b, of e visited]
  have rest: "spends (on_state steps) (next_cost B n) (if length (wf_flows (ev_plan env)) \<le> length visited then ret ()
      else run_loop env e (visited @ [current]) n)"
    if "case n of None \<Rightarrow> True | Some m \<Rightarrow> B m \<noteq> None" for n
    using 2(1) [OF _ 2(2) that] by (simp add: spends_none)
  from spends_bindM_pays [OF it [THEN conjunct1] it [THEN conjunct2] rest] b
  show ?case unfolding run_loop.simps by (simp add: next_cost_def)
qed

section \<open>Runs\<close>

definition start_potential :: "'w run_env \<Rightarrow> (string \<rightharpoonup> nat) \<Rightarrow> nat \<Rightarrow> bool" where
  "start_potential env B m \<longleftrightarrow> route_potential env B \<and>
     (\<forall>n \<in> set (start_names (wf_start (ev_plan env))). \<exists>b. B n = Some b \<and> b \<le> m)"

lemma spends_run_workflow:
  assumes "start_potential env B m"
  shows "spends steps m (run_workflow env e None None)"
proof -
  have route: "spends (on_state steps) m (bindM (liftM (select_start env e)) (\<lambda>start.
           thenM (run_locally (\<lambda>l. l\<lparr>ru_start := Some start\<rparr>))
             (run_loop env e [] (Some (sa_flow start)))))"
  proof -
    have free: "spends (on_state steps) 0 (liftM (select_start env e))"
      "spends (on_state steps) 0 (run_locally g)" for g
      by (rule spends_liftM, rule spends_free, rule unspent.keeps_select_start)
        (rule spends_free_local, intro free_rules)
    have "spends (on_state steps) (0 + m) (bindM (liftM (select_start env e)) (\<lambda>start.
           thenM (run_locally (\<lambda>l. l\<lparr>ru_start := Some start\<rparr>))
             (run_loop env e [] (Some (sa_flow start)))))"
    proof (rule spends_bindM_if [OF free(1), where Q = "\<lambda>st. sa_flow st \<in> set (start_names (wf_start (ev_plan env)))"])
      show "sa_flow a \<in> set (start_names (wf_start (ev_plan env)))"
        if "liftM (select_start env e) s = (Inr a, t)" for s a t
        using select_start_declared [of env e] that
        by (auto simp: valid_def liftM_def split: prod.splits sum.splits)
      show "spends (on_state steps) m (thenM (run_locally (\<lambda>l. l\<lparr>ru_start := Some a\<rparr>))
             (run_loop env e [] (Some (sa_flow a))))"
        if a: "sa_flow a \<in> set (start_names (wf_start (ev_plan env)))" for a
      proof -
        from a assms obtain b where b: "B (sa_flow a) = Some b" "b \<le> m" "route_potential env B"
          by (auto simp: start_potential_def)
        have "spends (on_state steps) m (run_loop env e [] (Some (sa_flow a)))"
          by (rule spends_mono [OF spends_run_loop [OF b(3)]]) (use b in \<open>auto simp: next_cost_def\<close>)
        then show ?thesis by (rule spends_then_right [OF free(2)])
      qed
    qed
    then show ?thesis by simp
  qed
  have free: "keeps (on_fst unspent) (workflow_output env e None)" "keeps (on_fst unspent) (liftM (check_deadline env))"
    "keeps (on_fst unspent) (run_failure env e x)" for x
    unfolding workflow_output_def run_failure_def
    by (auto intro!: free_rules unspent.keeps_getM split: option.split)
  have "spends (on_state steps) m (run_body env e None None)"
    unfolding run_body_def option.case
    by (intro spends_then_left [OF route] spends_then_right [OF spends_free_local [OF free(1)]]
      spends_free_local [OF free(2)])
  then have body: "spends (on_state steps) m (thenM (exceptM (run_body env e None None) (run_failure env e)) (getM snd))"
    by (intro spends_then_left [OF _ spends_none(5)] spends_exceptM spends_free_local [OF free(3)])
  have set_records: "spends steps 0 (modM (\<lambda>s. s\<lparr>rs_records := r\<rparr>))" for r
    by (simp add: spends_def modM_def)
  show ?thesis
    unfolding run_workflow_def
    by (rule spends_then_right [OF set_records], rule spends_bind_left [OF spends_withM [OF body]])
      (intro spends_bind_right [OF spends_none(5)] spends_none)
qed

lemma spends_run_all:
  assumes "\<And>stop. \<exists>B. start_potential (env\<lparr>ev_deadline := stop\<rparr>) B m"
  shows "spends steps m (run_all env e d)"
proof -
  have free: "keeps unspent (now env')" "keeps unspent (pureM q)" "keeps unspent (admit_slot env')"
    "keeps unspent (release_slot env')" "keeps unspent (set_outcome x y)" "keeps unspent (read_carrier env')" for env' x y q
    by (intro free_rules)+
  have final: "spends c k (finallyM m' n)" if "spends c k m'" "spends c 0 n" for c k m' n
    using that unfolding spends_def finallyM_def
    by (auto split: prod.splits sum.splits) (metis add.right_neutral le_trans snd_conv)+
  have workflow: "spends steps m (run_workflow (env\<lparr>ev_deadline := stop\<rparr>) e None None)" for stop
    using assms [of stop] spends_run_workflow by blast
  show ?thesis
    unfolding run_all_def admit_def Let_def
    by (intro spends_bind_right [OF spends_free [OF free(1)]] spends_bind_right [OF spends_free [OF free(2)]]
        spends_then_right [OF spends_free [OF free(2)]] spends_then_right [OF spends_free [OF free(3)]]
        final spends_observe spends_bind_left [OF workflow]
        spends_free [OF free(4)] spends_then_right [OF spends_free [OF free(5)]]
        spends_bind_right [OF spends_free [OF free(6)]] spends_none)
qed

end
