(* ===== verification/StepBudgets.thy ===== *)
theory StepBudgets imports CompiledRuns RunSteps begin

text \<open>
  The step budgets of \<^verbatim>\<open>compiler/compiler.py\<close>: the worst number of steps of a flow with its
  repeat, its retry flow and its collections (\<^verbatim>\<open>_worst_steps\<close>, with the memo it threads), and
  the warnings of \<^verbatim>\<open>_validate_budgets\<close> for a limit, the most expensive routed path included. A
  warning is its code, its place, and the numbers and names of its message. The recursion has
  a depth: exceeding it is a \<^verbatim>\<open>RecursionError\<close>, and it is shown not to happen on
  accepted plans. A plan without warnings never exceeds the limit.
\<close>

section \<open>The worst case of a flow\<close>

type_synonym memo = "(string, nat) dict"

type_synonym worst = "memo \<Rightarrow> flow \<Rightarrow> (compile_error, nat \<times> memo) result"

text \<open>\<^verbatim>\<open>_own_worst_steps\<close>\<close>

definition own_worst_steps :: "flow \<Rightarrow> flows \<Rightarrow> (compile_error, nat) result" where
  "own_worst_steps f flows =
     (case fl_repeat f of
        None \<Rightarrow> Inr (length (fl_steps f))
      | Some rp \<Rightarrow>
          let total = (\<lambda>retry. rp_max_attempts rp * length (fl_steps f) + (rp_max_attempts rp - 1) * retry) in
          (case rp_retry_flow rp of
             None \<Rightarrow> Inr (total 0)
           | Some n \<Rightarrow> mapR (\<lambda>g. total (length (fl_steps g))) (lookupE flows n)))"

text \<open>The most expensive flow of an allowlist, and the steps of a flow themselves.\<close>

fun child_steps :: "worst \<Rightarrow> flows \<Rightarrow> memo \<Rightarrow> string list \<Rightarrow> (compile_error, nat \<times> memo) result" where
  "child_steps worst flows memo [] = Inr (0, memo)"
| "child_steps worst flows memo (t # ts) =
     bindE (lookupE flows t) (\<lambda>g.
      bindE (worst memo g) (\<lambda>(v, memo1).
       mapR (\<lambda>(best, memo2). (max v best, memo2)) (child_steps worst flows memo1 ts)))"

fun own_steps :: "worst \<Rightarrow> flows \<Rightarrow> memo \<Rightarrow> step list \<Rightarrow> (compile_error, nat \<times> memo) result" where
  "own_steps worst flows memo [] = Inr (0, memo)"
| "own_steps worst flows memo (s # ss) =
     bindE (case st_body s of
         CollectionStep cs \<Rightarrow>
           mapR (\<lambda>(child, memo1). (Suc (cs_max_items cs * child), memo1))
             (child_steps worst flows memo (cs_flows cs))
       | _ \<Rightarrow> Inr (1, memo))
      (\<lambda>(k, memo1). mapR (\<lambda>(rest, memo2). (k + rest, memo2)) (own_steps worst flows memo1 ss))"

text \<open>\<^verbatim>\<open>_worst_steps\<close>\<close>

primrec worst_steps :: "nat \<Rightarrow> flows \<Rightarrow> worst" where
  "worst_steps 0 flows = (\<lambda>memo f. Inl Defect)"
| "worst_steps (Suc depth) flows = (\<lambda>memo f.
     case get memo (fl_name f) of
       Some v \<Rightarrow> Inr (v, memo)
     | None \<Rightarrow>
        bindE (own_steps (worst_steps depth flows) flows memo (fl_steps f)) (\<lambda>(own, memo1).
         mapR (\<lambda>(total, memo2). (total, put (fl_name f) total memo2))
          (case fl_repeat f of
             None \<Rightarrow> Inr (own, memo1)
           | Some rp \<Rightarrow>
              mapR (\<lambda>(retry, memo2). (rp_max_attempts rp * own + (rp_max_attempts rp - 1) * retry, memo2))
               (case rp_retry_flow rp of
                  None \<Rightarrow> Inr (0, memo1)
                | Some n \<Rightarrow> bindE (lookupE flows n) (worst_steps depth flows memo1)))))"

abbreviation flow_depth :: "flows \<Rightarrow> nat" where
  "flow_depth flows \<equiv> Suc (length flows)"

section \<open>Warnings\<close>

datatype warning = Warning string place "nat list" "string list"

text \<open>\<^verbatim>\<open>Diagnostics.add\<close> keeps one of equal diagnostics.\<close>

definition add_warning :: "warning \<Rightarrow> warning list \<Rightarrow> warning list" where
  "add_warning w ws = (if w \<in> set ws then ws else ws @ [w])"

text \<open>The loop over the steps of one flow, and over the flows.\<close>

fun collection_budgets ::
  "flows \<Rightarrow> (string, flow_source) dict \<Rightarrow> nat \<Rightarrow> string \<Rightarrow> step list \<Rightarrow> memo \<times> warning list \<Rightarrow>
     (compile_error, memo \<times> warning list) result" where
  "collection_budgets flows sources m name [] st = Inr st"
| "collection_budgets flows sources m name (s # ss) (memo, ws) =
     (case st_body s of
        CollectionStep cs \<Rightarrow>
          bindE (child_steps (worst_steps (flow_depth flows) flows) flows memo (cs_flows cs)) (\<lambda>(child, memo1).
            if m < cs_max_items cs * child
            then bindE (lookupE sources name) (\<lambda>src.
                 bindE (lookupE (src_steps src) (st_name s)) (\<lambda>w.
                  collection_budgets flows sources m name ss (memo1,
                    add_warning (Warning ''collection_budget'' (below w [Key ''max_items''])
                      [cs_max_items cs * child, cs_max_items cs, child, m] [st_name s]) ws)))
            else collection_budgets flows sources m name ss (memo1, ws))
      | _ \<Rightarrow> collection_budgets flows sources m name ss (memo, ws))"

definition repeat_budget :: "flows \<Rightarrow> (string, flow_source) dict \<Rightarrow> nat \<Rightarrow> string \<Rightarrow> flow \<Rightarrow> (compile_error, unit) result" where
  "repeat_budget flows sources m name f =
     (if fl_repeat f = None then Inr ()
      else bindE (own_worst_steps f flows) (\<lambda>worst.
        if worst \<le> m then Inr ()
        else bindE (lookupE sources name) (\<lambda>src.
          Inl (fail_at ''repeat_budget'' (src_instance src) [Key ''repeat'', Key ''max_attempts'']))))"

fun flow_budgets ::
  "flows \<Rightarrow> (string, flow_source) dict \<Rightarrow> nat \<Rightarrow> (string \<times> flow) list \<Rightarrow> memo \<times> warning list \<Rightarrow>
     (compile_error, memo \<times> warning list) result" where
  "flow_budgets flows sources m [] st = Inr st"
| "flow_budgets flows sources m ((name, f) # rest) st =
     bindE (repeat_budget flows sources m name f) (\<lambda>_.
      bindE (collection_budgets flows sources m name (fl_steps f) st)
       (flow_budgets flows sources m rest))"

section \<open>The most expensive path\<close>

type_synonym path_cost = "nat \<times> string list"

type_synonym costs = "memo \<times> (string, path_cost) dict"

text \<open>\<^verbatim>\<open>max\<close> with a key keeps the first of equal candidates.\<close>

fun first_max :: "path_cost \<Rightarrow> path_cost list \<Rightarrow> path_cost" where
  "first_max best [] = best"
| "first_max best (c # cs) = first_max (if fst best < fst c then c else best) cs"

definition max_cost :: "path_cost list \<Rightarrow> path_cost" where
  "max_cost cs = (case cs of [] \<Rightarrow> (0, []) | c # rest \<Rightarrow> first_max c rest)"

fun all_costs ::
  "(costs \<Rightarrow> string \<Rightarrow> (compile_error, path_cost \<times> costs) result) \<Rightarrow> costs \<Rightarrow> string list \<Rightarrow>
     (compile_error, path_cost list \<times> costs) result" where
  "all_costs cost st [] = Inr ([], st)"
| "all_costs cost st (n # ns) =
     bindE (cost st n) (\<lambda>(c, st1). mapR (\<lambda>(cs, st2). (c # cs, st2)) (all_costs cost st1 ns))"

text \<open>The local function \<^verbatim>\<open>cost\<close> of \<^verbatim>\<open>_validate_budgets\<close>\<close>

primrec path_costs ::
  "nat \<Rightarrow> flows \<Rightarrow> (string, string list) dict \<Rightarrow> costs \<Rightarrow> string \<Rightarrow> (compile_error, path_cost \<times> costs) result" where
  "path_costs 0 flows succs = (\<lambda>st name. Inl Defect)"
| "path_costs (Suc depth) flows succs = (\<lambda>st name.
     case get (snd st) name of
       Some c \<Rightarrow> Inr (c, st)
     | None \<Rightarrow>
        bindE (all_costs (path_costs depth flows succs) st
            (case get succs name of Some ts \<Rightarrow> ts | None \<Rightarrow> [])) (\<lambda>(tails, st1).
         bindE (lookupE flows name) (\<lambda>f.
          mapR (\<lambda>(v, memo). let c = (v + fst (max_cost tails), name # snd (max_cost tails)) in
              (c, (memo, put name c (snd st1))))
            (worst_steps (flow_depth flows) flows (fst st1) f))))"

text \<open>The first flow of the path at which the limit is crossed.\<close>

fun crossing :: "flows \<Rightarrow> nat \<Rightarrow> memo \<Rightarrow> nat \<Rightarrow> string \<Rightarrow> string list \<Rightarrow> (compile_error, string) result" where
  "crossing flows m memo running final [] = Inr final"
| "crossing flows m memo running final (n # ns) =
     bindE (lookupE flows n) (\<lambda>f.
      bindE (worst_steps (flow_depth flows) flows memo f) (\<lambda>(v, memo1).
       if m < running + v then Inr n else crossing flows m memo1 (running + v) final ns))"

text \<open>\<^verbatim>\<open>_validate_budgets\<close>\<close>

definition run_budget ::
  "flows \<Rightarrow> graph_result \<Rightarrow> start_plan \<Rightarrow> nat \<Rightarrow> place \<Rightarrow> memo \<Rightarrow> (compile_error, warning list) result" where
  "run_budget flows G start m w memo =
     bindE (all_costs (path_costs (flow_depth flows) flows (gr_successors G)) (memo, []) (map fst (start_paths start)))
      (\<lambda>(cs, st).
        if cs = [] then Inl Defect
        else let (total, path) = max_cost cs in
          if total \<le> m then Inr []
          else mapR (\<lambda>x. [Warning ''run_budget'' (below w [Key ''flows'', Key x]) [total, m] (path @ [x])])
            (crossing flows m (fst st) 0 (last path) path))"

definition validate_budgets ::
  "flows \<Rightarrow> graph_result \<Rightarrow> start_plan \<Rightarrow> nat option \<Rightarrow> place \<Rightarrow> (string, flow_source) dict \<Rightarrow>
     (compile_error, warning list) result" where
  "validate_budgets flows G start max_steps w sources =
     (case max_steps of
        None \<Rightarrow> Inr []
      | Some m \<Rightarrow>
          bindE (flow_budgets flows sources m flows ([], [])) (\<lambda>(memo, ws).
            if ws \<noteq> [] then Inr ws else run_budget flows G start m w memo))"

section \<open>The worst case bounds every call\<close>

text \<open>
  The compiler's flows are those of the plan, and a retry flow has no repeat. A memo is right
  if it bounds the calls of the flows it names.
\<close>

definition flows_of_plan :: "'w run_env \<Rightarrow> flows \<Rightarrow> bool" where
  "flows_of_plan env flows \<longleftrightarrow> (\<forall>n. get flows n = workflow_flow (ev_plan env) n) \<and>
     (\<forall>n f rp r g. get flows n = Some f \<longrightarrow> fl_repeat f = Some rp \<longrightarrow> rp_retry_flow rp = Some r \<longrightarrow>
        get flows r = Some g \<longrightarrow> fl_repeat g = None)"

definition memo_ok :: "'w run_env \<Rightarrow> flows \<Rightarrow> memo \<Rightarrow> bool" where
  "memo_ok env flows memo \<longleftrightarrow>
     (\<forall>n v. get memo n = Some v \<longrightarrow> (\<exists>f. get flows n = Some f \<and> call_bound env f v))"

definition worst_ok :: "'w run_env \<Rightarrow> flows \<Rightarrow> worst \<Rightarrow> bool" where
  "worst_ok env flows worst \<longleftrightarrow> (\<forall>memo f v memo'. worst memo f = Inr (v, memo') \<longrightarrow> memo_ok env flows memo \<longrightarrow>
     get flows (fl_name f) = Some f \<longrightarrow> call_bound env f v \<and> memo_ok env flows memo')"

lemma worst_okD:
  "worst_ok env flows worst \<Longrightarrow> worst memo f = Inr (v, memo') \<Longrightarrow> memo_ok env flows memo \<Longrightarrow>
     get flows (fl_name f) = Some f \<Longrightarrow> call_bound env f v \<and> memo_ok env flows memo'"
  by (auto simp: worst_ok_def)

lemma plan_flow:
  assumes "flows_of_plan env flows" "get flows n = Some f"
  shows "fl_name f = n" "get flows (fl_name f) = Some f" "workflow_flow (ev_plan env) n = Some f"
  using assms workflow_flow_Some [of "ev_plan env" n f] by (auto simp: flows_of_plan_def)

lemma call_bound_mono: "call_bound env f v \<Longrightarrow> v \<le> v' \<Longrightarrow> call_bound env f v'"
  by (auto simp: call_bound_def intro: le_trans)

lemma lookupE_Inr [simp]: "lookupE d k = Inr v \<longleftrightarrow> get d k = Some v"
  by (simp add: lookupE_def split: option.split)

lemma lookupE_get [simp]: "get d k = Some v \<Longrightarrow> lookupE d k = Inr v"
  by simp

lemma list_all2_partner: "list_all2 P xs ys \<Longrightarrow> x \<in> set xs \<Longrightarrow> \<exists>y \<in> set ys. P x y"
  by (induction rule: list_all2_induct) auto

lemma child_steps_bound:
  "child_steps worst flows memo ts = Inr (v, memo') \<Longrightarrow> flows_of_plan env flows \<Longrightarrow> worst_ok env flows worst \<Longrightarrow>
     memo_ok env flows memo \<Longrightarrow>
     memo_ok env flows memo' \<and> (\<forall>t \<in> set ts. \<forall>f. workflow_flow (ev_plan env) t = Some f \<longrightarrow> call_bound env f v)"
proof (induction worst flows memo ts arbitrary: v memo' rule: child_steps.induct)
  case (2 worst flows memo t ts)
  from 2(2) obtain g k memo1 best where g: "get flows t = Some g" and k: "worst memo g = Inr (k, memo1)"
    and rest: "child_steps worst flows memo1 ts = Inr (best, memo')" and v: "v = max k best"
    by (auto simp: bindE_Inr_iff mapR_Inr_iff)
  note here = worst_okD [OF 2(4) k 2(5) plan_flow(2) [OF 2(3) g]]
  have "lookupE flows t = Inr g" using g by simp
  from 2(1) [OF this k refl rest 2(3,4)] here
  have later: "memo_ok env flows memo' \<and> (\<forall>t \<in> set ts. \<forall>f. workflow_flow (ev_plan env) t = Some f \<longrightarrow> call_bound env f best)"
    by blast
  have "call_bound env f v" if "workflow_flow (ev_plan env) t = Some f" for f
    using that here plan_flow(3) [OF 2(3) g] v by (auto intro: call_bound_mono)
  moreover have "best \<le> v" using v by simp
  ultimately show ?case using later call_bound_mono by (metis set_ConsD)
qed simp

lemma own_steps_bound:
  "own_steps worst flows memo ss = Inr (v, memo') \<Longrightarrow> flows_of_plan env flows \<Longrightarrow> worst_ok env flows worst \<Longrightarrow>
     memo_ok env flows memo \<Longrightarrow>
     memo_ok env flows memo' \<and> (\<exists>ks. list_all2 (step_bound env) ss ks \<and> sum_list ks = v)"
proof (induction ss arbitrary: memo v)
  case (Cons s ss)
  from Cons.prems(1) obtain k memo1 rest where
    head: "(case st_body s of
         CollectionStep cs \<Rightarrow>
           mapR (\<lambda>(child, memo1). (Suc (cs_max_items cs * child), memo1))
             (child_steps worst flows memo (cs_flows cs))
       | _ \<Rightarrow> Inr (1, memo)) = Inr (k, memo1)"
    and tail: "own_steps worst flows memo1 ss = Inr (rest, memo')" and v: "v = k + rest"
    by (auto simp: bindE_Inr_iff mapR_Inr_iff)
  have "memo_ok env flows memo1 \<and> step_bound env s k"
  proof (cases "st_body s")
    case (CollectionStep cs)
    with head obtain child where c: "child_steps worst flows memo (cs_flows cs) = Inr (child, memo1)"
      "k = Suc (cs_max_items cs * child)" by (auto simp: mapR_Inr_iff)
    from child_steps_bound [OF c(1) Cons.prems(2-4)] c(2) CollectionStep
    show ?thesis by (auto simp: step_bound_def allowed_bound_def)
  qed (use head Cons.prems(4) in \<open>auto simp: step_bound_def\<close>)
  moreover from Cons.IH [OF tail Cons.prems(2,3)] calculation obtain ks where
    "memo_ok env flows memo'" "list_all2 (step_bound env) ss ks" "sum_list ks = rest" by blast
  ultimately show ?case using v by (auto intro!: exI [of _ "k # ks"])
qed simp

lemma memo_ok_put:
  "memo_ok env flows memo \<Longrightarrow> get flows n = Some f \<Longrightarrow> call_bound env f v \<Longrightarrow> memo_ok env flows (put n v memo)"
  by (auto simp: memo_ok_def split: if_splits)

lemma worst_steps_bound:
  assumes "flows_of_plan env flows"
  shows "worst_ok env flows (worst_steps depth flows)"
proof (induction depth)
  case 0
  show ?case by (simp add: worst_ok_def)
next
  case (Suc depth)
  let ?worst = "worst_steps depth flows"
  show ?case unfolding worst_ok_def
  proof (intro allI impI)
    fix memo f v memo'
    assume run: "worst_steps (Suc depth) flows memo f = Inr (v, memo')" and memo: "memo_ok env flows memo"
      and f: "get flows (fl_name f) = Some f"
    show "call_bound env f v \<and> memo_ok env flows memo'"
    proof (cases "get memo (fl_name f)")
      case (Some k)
      with run memo f show ?thesis by (fastforce simp: memo_ok_def)
    next
      case None
      with run obtain own memo1 total memo2 where
        own: "own_steps ?worst flows memo (fl_steps f) = Inr (own, memo1)" and
        total: "(case fl_repeat f of
             None \<Rightarrow> Inr (own, memo1)
           | Some rp \<Rightarrow>
              mapR (\<lambda>(retry, memo2). (rp_max_attempts rp * own + (rp_max_attempts rp - 1) * retry, memo2))
               (case rp_retry_flow rp of
                  None \<Rightarrow> Inr (0, memo1)
                | Some n \<Rightarrow> bindE (lookupE flows n) (?worst memo1))) = Inr (total, memo2)"
        and res: "v = total" "memo' = put (fl_name f) total memo2"
        by (auto simp: bindE_Inr_iff mapR_Inr_iff)
      from own_steps_bound [OF own assms Suc.IH memo] have memo1: "memo_ok env flows memo1"
        and steps: "flow_bound env f own" by (auto dest: flow_bound_steps)
      have "call_bound env f total \<and> memo_ok env flows memo2"
      proof (cases "fl_repeat f")
        case None
        with total steps memo1 show ?thesis
          by (auto simp: call_bound_def retry_bound_def repeat_cost_def)
      next
        case rp: (Some rp)
        show ?thesis
        proof (cases "rp_retry_flow rp")
          case None
          with rp total steps memo1 show ?thesis
            by (auto simp: call_bound_def retry_bound_def repeat_cost_def)
        next
          case (Some n)
          with rp total obtain g r where g: "get flows n = Some g" and r: "?worst memo1 g = Inr (r, memo2)"
            and t: "total = rp_max_attempts rp * own + (rp_max_attempts rp - 1) * r"
            by (auto simp: bindE_Inr_iff mapR_Inr_iff)
          from worst_okD [OF Suc.IH r memo1 plan_flow(2) [OF assms g]]
          have r_ok: "call_bound env g r" "memo_ok env flows memo2" by auto
          have "fl_repeat g = None" using assms f rp Some g unfolding flows_of_plan_def by blast
          with r_ok(1) have "flow_bound env g r"
            by (auto simp: call_bound_def repeat_cost_def flow_bound_def intro: spends_mono)
          with plan_flow(3) [OF assms g] rp Some have "retry_bound env f r" by (simp add: retry_bound_def)
          with steps rp Some t r_ok(2) show ?thesis by (auto simp: call_bound_def repeat_cost_def)
        qed
      qed
      with res f show ?thesis by (auto intro: memo_ok_put)
    qed
  qed
qed

section \<open>The most expensive path bounds every path\<close>

definition potential_of :: "(string, path_cost) dict \<Rightarrow> string \<Rightarrow> nat option" where
  "potential_of longest n = map_option fst (get longest n)"

definition costs_ok :: "'w run_env \<Rightarrow> flows \<Rightarrow> costs \<Rightarrow> bool" where
  "costs_ok env flows st \<longleftrightarrow> memo_ok env flows (fst st) \<and> route_potential env (potential_of (snd st))"

text \<open>Entries of the table are only added.\<close>

definition extends :: "(string, path_cost) dict \<Rightarrow> (string, path_cost) dict \<Rightarrow> bool" where
  "extends d d' \<longleftrightarrow> (\<forall>n c. get d n = Some c \<longrightarrow> get d' n = Some c)"

lemma extends_refl [intro]: "extends d d" by (simp add: extends_def)

lemma extends_trans: "extends d d' \<Longrightarrow> extends d' d'' \<Longrightarrow> extends d d''"
  by (auto simp: extends_def)

lemma first_max_ge: "fst best \<le> fst (first_max best cs) \<and> (\<forall>c \<in> set cs. fst c \<le> fst (first_max best cs))"
  by (induction best cs rule: first_max.induct) (auto split: if_splits intro: le_trans)

lemma max_cost_ge: "c \<in> set cs \<Longrightarrow> fst c \<le> fst (max_cost cs)"
  using first_max_ge by (cases cs) (auto simp: max_cost_def)

text \<open>The successors as a relation; a call of the local function adds what its flow reaches.\<close>

definition successor_rel :: "(string, string list) dict \<Rightarrow> (string \<times> string) set" where
  "successor_rel succs = {(n, t). \<exists>ts. get succs n = Some ts \<and> t \<in> set ts}"

definition adds :: "(string \<times> string) set \<Rightarrow> string set \<Rightarrow> (string, path_cost) dict \<Rightarrow> (string, path_cost) dict \<Rightarrow> bool" where
  "adds R N d d' \<longleftrightarrow> extends d d' \<and> (\<forall>m. get d m = None \<longrightarrow> get d' m \<noteq> None \<longrightarrow> m \<in> R\<^sup>* `` N)"

lemma adds_trans: "adds R N d d' \<Longrightarrow> adds R N' d' d'' \<Longrightarrow> adds R (N \<union> N') d d''"
  unfolding adds_def by (metis (no_types, lifting) Image_Un Un_iff extends_trans)

definition cost_ok ::
  "'w run_env \<Rightarrow> flows \<Rightarrow> (string \<times> string) set \<Rightarrow>
     (costs \<Rightarrow> string \<Rightarrow> (compile_error, path_cost \<times> costs) result) \<Rightarrow> bool" where
  "cost_ok env flows R cost \<longleftrightarrow> (\<forall>st n c st'. cost st n = Inr (c, st') \<longrightarrow> costs_ok env flows st \<longrightarrow>
     costs_ok env flows st' \<and> adds R {n} (snd st) (snd st') \<and> get (snd st') n = Some c)"

lemma all_costs_bound:
  "all_costs cost st ns = Inr (cs, st') \<Longrightarrow> cost_ok env flows R cost \<Longrightarrow> costs_ok env flows st \<Longrightarrow>
     costs_ok env flows st' \<and> adds R (set ns) (snd st) (snd st') \<and> list_all2 (\<lambda>n c. get (snd st') n = Some c) ns cs"
proof (induction ns arbitrary: st cs)
  case (Cons n ns)
  from Cons.prems(1) obtain c st1 cs1 where c: "cost st n = Inr (c, st1)"
    "all_costs cost st1 ns = Inr (cs1, st')" "cs = c # cs1" by (auto simp: bindE_Inr_iff mapR_Inr_iff)
  from c(1) Cons.prems(2,3) have here: "costs_ok env flows st1" "adds R {n} (snd st) (snd st1)" "get (snd st1) n = Some c"
    unfolding cost_ok_def by blast+
  note rest = Cons.IH [OF c(2) Cons.prems(2) here(1)]
  have "get (snd st') n = Some c" using rest here(3) unfolding adds_def extends_def by blast
  with rest c(3) adds_trans [OF here(2), of "set ns" "snd st'"] show ?case by auto
qed (auto simp: adds_def)

text \<open>A new entry pays for its flow and for its successors.\<close>

lemma route_potential_put:
  assumes "route_potential env (potential_of d)" "get d n = None" "call_bound env f v"
    and "workflow_flow (ev_plan env) n = Some f"
    and "\<And>t. t \<in> set (target_flows (flow_targets f)) \<Longrightarrow> \<exists>c. get d t = Some c \<and> fst c \<le> k"
  shows "route_potential env (potential_of (put n (v + k, p) d))"
  unfolding route_potential_def
proof (intro allI impI)
  fix m b g
  assume m: "potential_of (put n (v + k, p) d) m = Some b" "workflow_flow (ev_plan env) m = Some g"
  have keep: "potential_of (put n (v + k, p) d) t = potential_of d t" if "get d t \<noteq> None" for t
    using that assms(2) by (auto simp: potential_of_def)
  show "\<exists>v'. call_bound env g v' \<and> v' \<le> b \<and> (\<forall>t \<in> set (target_flows (flow_targets g)).
      \<exists>b'. potential_of (put n (v + k, p) d) t = Some b' \<and> v' + b' \<le> b)"
  proof (cases "m = n")
    case True
    with m assms(3,4) have "g = f" "b = v + k" by (auto simp: potential_of_def)
    moreover have "\<exists>b'. potential_of (put n (v + k, p) d) t = Some b' \<and> v + b' \<le> v + k"
      if t: "t \<in> set (target_flows (flow_targets f))" for t
    proof -
      from assms(5) [OF t] obtain c where "get d t = Some c" "fst c \<le> k" by blast
      with keep [of t] show ?thesis by (intro exI [of _ "fst c"]) (simp add: potential_of_def)
    qed
    ultimately show ?thesis using assms(3) by (intro exI [of _ v]) simp
  next
    case False
    with m have "potential_of d m = Some b" by (auto simp: potential_of_def)
    with assms(1) m(2) obtain v' where v': "call_bound env g v'" "v' \<le> b"
      "\<forall>t \<in> set (target_flows (flow_targets g)). \<exists>b'. potential_of d t = Some b' \<and> v' + b' \<le> b"
      unfolding route_potential_def by blast
    have "\<exists>b'. potential_of (put n (v + k, p) d) t = Some b' \<and> v' + b' \<le> b"
      if t: "t \<in> set (target_flows (flow_targets g))" for t
    proof -
      from v'(3) t obtain b' where b': "potential_of d t = Some b'" "v' + b' \<le> b" by blast
      with keep [of t] show ?thesis by (auto simp: potential_of_def)
    qed
    with v' show ?thesis by blast
  qed
qed

lemma path_costs_bound:
  assumes "flows_of_plan env flows" "acyclic (successor_rel succs)"
    and "\<And>n f. workflow_flow (ev_plan env) n = Some f \<Longrightarrow>
      set (target_flows (flow_targets f)) \<subseteq> set (case get succs n of Some ts \<Rightarrow> ts | None \<Rightarrow> [])"
  shows "cost_ok env flows (successor_rel succs) (path_costs depth flows succs)"
proof (induction depth)
  case 0
  show ?case by (simp add: cost_ok_def)
next
  case (Suc depth)
  let ?R = "successor_rel succs"
  show ?case unfolding cost_ok_def
  proof (intro allI impI)
    fix st n c st'
    assume run: "path_costs (Suc depth) flows succs st n = Inr (c, st')" and st: "costs_ok env flows st"
    let ?ts = "case get succs n of Some ts \<Rightarrow> ts | None \<Rightarrow> []"
    show "costs_ok env flows st' \<and> adds ?R {n} (snd st) (snd st') \<and> get (snd st') n = Some c"
    proof (cases "get (snd st) n")
      case (Some k)
      with run st show ?thesis by (auto simp: adds_def)
    next
      case None
      with run obtain tails st1 f v memo where
        tails: "all_costs (path_costs depth flows succs) st ?ts = Inr (tails, st1)"
        and f: "get flows n = Some f" and v: "worst_steps (flow_depth flows) flows (fst st1) f = Inr (v, memo)"
        and c: "c = (v + fst (max_cost tails), n # snd (max_cost tails))" and st': "st' = (memo, put n c (snd st1))"
        by (auto simp: bindE_Inr_iff mapR_Inr_iff Let_def)
      from all_costs_bound [OF tails Suc.IH st] have st1: "costs_ok env flows st1" "adds ?R (set ?ts) (snd st) (snd st1)"
        "list_all2 (\<lambda>n c. get (snd st1) n = Some c) ?ts tails" by auto
      have memo1: "memo_ok env flows (fst st1)" using st1(1) by (simp add: costs_ok_def)
      from worst_okD [OF worst_steps_bound [OF assms(1)] v memo1 plan_flow(2) [OF assms(1) f]]
      have v_ok: "call_bound env f v" "memo_ok env flows memo" by auto
      have succ: "(n, t) \<in> ?R" if "t \<in> set ?ts" for t
        using that by (cases "get succs n") (auto simp: successor_rel_def)
      have new: "get (snd st1) n = None"
      proof (rule ccontr)
        assume "get (snd st1) n \<noteq> None"
        with None st1(2) obtain t where "t \<in> set ?ts" "(t, n) \<in> ?R\<^sup>*" unfolding adds_def by blast
        with succ have "(n, n) \<in> ?R\<^sup>+" by (meson rtrancl_into_trancl2)
        with assms(2) show False by (simp add: acyclic_def)
      qed
      have reach: "?R\<^sup>* `` set ?ts \<subseteq> ?R\<^sup>* `` {n}" using succ by (auto intro: converse_rtrancl_into_rtrancl)
      have "adds ?R {n} (snd st) (put n c (snd st1))"
        unfolding adds_def
      proof (intro conjI allI impI)
        show "extends (snd st) (put n c (snd st1))" using st1(2) new by (auto simp: adds_def extends_def)
        fix m assume m: "get (snd st) m = None" "get (put n c (snd st1)) m \<noteq> None"
        show "m \<in> ?R\<^sup>* `` {n}"
        proof (cases "m = n")
          case False
          with m st1(2) have "m \<in> ?R\<^sup>* `` set ?ts" unfolding adds_def by (metis get_put)
          with reach show ?thesis by blast
        qed simp
      qed
      moreover have "route_potential env (potential_of (put n c (snd st1)))"
        unfolding c
      proof (rule route_potential_put [OF _ new v_ok(1) plan_flow(3) [OF assms(1) f]])
        show "route_potential env (potential_of (snd st1))" using st1(1) by (simp add: costs_ok_def)
        fix t assume "t \<in> set (target_flows (flow_targets f))"
        then have "t \<in> set ?ts" using assms(3) [OF plan_flow(3) [OF assms(1) f]] by blast
        with list_all2_partner [OF st1(3)] obtain d where "d \<in> set tails" "get (snd st1) t = Some d" by blast
        then show "\<exists>d. get (snd st1) t = Some d \<and> fst d \<le> fst (max_cost tails)" using max_cost_ge by blast
      qed
      ultimately show ?thesis using v_ok(2) st' by (simp add: costs_ok_def)
    qed
  qed
qed

lemma run_budget_bound:
  assumes "flows_of_plan env flows" "acyclic (successor_rel (gr_successors G))" "memo_ok env flows memo"
    and "\<And>n f. workflow_flow (ev_plan env) n = Some f \<Longrightarrow>
      set (target_flows (flow_targets f)) \<subseteq> set (case get (gr_successors G) n of Some ts \<Rightarrow> ts | None \<Rightarrow> [])"
    and "run_budget flows G (wf_start (ev_plan env)) m w memo = Inr []"
  shows "\<exists>B. start_potential env B m"
proof -
  let ?start = "wf_start (ev_plan env)" and ?R = "successor_rel (gr_successors G)"
  from assms(5) obtain cs st where cs: "all_costs (path_costs (flow_depth flows) flows (gr_successors G)) (memo, [])
      (map fst (start_paths ?start)) = Inr (cs, st)" and small: "fst (max_cost cs) \<le> m"
  proof -
    from assms(5) obtain cs st where cs: "all_costs (path_costs (flow_depth flows) flows (gr_successors G)) (memo, [])
        (map fst (start_paths ?start)) = Inr (cs, st)"
      and rest: "(if cs = [] then Inl Defect
        else let (total, path) = max_cost cs in
          if total \<le> m then Inr []
          else mapR (\<lambda>x. [Warning ''run_budget'' (below w [Key ''flows'', Key x]) [total, m] (path @ [x])])
            (crossing flows m (fst st) 0 (last path) path)) = Inr []"
      unfolding run_budget_def bindE_Inr_iff by (clarsimp split del: if_split)
    obtain total path where p: "max_cost cs = (total, path)" by fastforce
    from rest p have "total \<le> m" by (auto simp: mapR_Inr_iff split: if_splits)
    with cs p that show thesis by simp
  qed
  have empty: "costs_ok env flows (memo, [])"
    using assms(3) by (simp add: costs_ok_def route_potential_def potential_of_def)
  from all_costs_bound [OF cs path_costs_bound [OF assms(1,2,4)] empty]
  have ok: "route_potential env (potential_of (snd st))"
    and each: "list_all2 (\<lambda>n c. get (snd st) n = Some c) (map fst (start_paths ?start)) cs"
    by (auto simp: costs_ok_def)
  have "\<exists>b. potential_of (snd st) n = Some b \<and> b \<le> m" if "n \<in> set (start_names ?start)" for n
  proof -
    from that have "n \<in> set (map fst (start_paths ?start))" by (simp add: start_names_set)
    with list_all2_partner [OF each] obtain c where "c \<in> set cs" "get (snd st) n = Some c" by blast
    with max_cost_ge [of c cs] small show ?thesis by (auto simp: potential_of_def)
  qed
  with ok have "start_potential env (potential_of (snd st)) m" by (simp add: start_potential_def)
  then show ?thesis by blast
qed

lemma collection_budgets_memo:
  "collection_budgets flows sources m name ss st = Inr st' \<Longrightarrow> flows_of_plan env flows \<Longrightarrow>
     memo_ok env flows (fst st) \<Longrightarrow> memo_ok env flows (fst st')"
proof (induction ss arbitrary: st)
  case (Cons s ss)
  obtain memo ws where st: "st = (memo, ws)" by fastforce
  show ?case
  proof (cases "st_body s")
    case (CollectionStep cs)
    with Cons.prems(1) st obtain child memo1 ws1 where
      "child_steps (worst_steps (flow_depth flows) flows) flows memo (cs_flows cs) = Inr (child, memo1)"
      "collection_budgets flows sources m name ss (memo1, ws1) = Inr st'"
      by (auto simp: bindE_Inr_iff split: if_splits)
    with child_steps_bound [OF this(1) Cons.prems(2) worst_steps_bound [OF Cons.prems(2)]]
      Cons.IH [OF this(2) Cons.prems(2)] Cons.prems(3) st show ?thesis by simp
  qed (use Cons st in auto)
qed simp

lemma flow_budgets_memo:
  "flow_budgets flows sources m fs st = Inr st' \<Longrightarrow> flows_of_plan env flows \<Longrightarrow>
     memo_ok env flows (fst st) \<Longrightarrow> memo_ok env flows (fst st')"
proof (induction fs arbitrary: st)
  case (Cons p fs)
  obtain n f where p: "p = (n, f)" by fastforce
  with Cons.prems(1) obtain st1 where "collection_budgets flows sources m n (fl_steps f) st = Inr st1"
    "flow_budgets flows sources m fs st1 = Inr st'" by (auto simp: bindE_Inr_iff)
  with Cons.IH [OF this(2) Cons.prems(2)] collection_budgets_memo [OF this(1) Cons.prems(2,3)] show ?case by blast
qed simp

section \<open>Accepted plans\<close>

lemma analysis_successors:
  assumes "routed_analysis listing flows retry_of starts = Some (Inr G)"
  shows "gr_successors G = filter (\<lambda>p. fst p \<in> set (listing (set (routed_names flows)))) (routed_graph flows)"
  using assms by (auto simp: routed_analysis_def Let_def bindE_Inr_iff mapR_Inr_iff split: sum.splits)

lemma accepted_facts:
  assumes "accepted listing declared sources place (ev_plan env) retry_of G" "listing_ok listing"
  defines "flows \<equiv> plan_flows (ev_plan env)"
  shows "flows_of_plan env flows" "acyclic (call_rel flows retry_of)"
    "successor_rel (gr_successors G) = route_rel flows"
    "workflow_flow (ev_plan env) n = Some f \<Longrightarrow>
      set (target_flows (flow_targets f)) \<subseteq> set (case get (gr_successors G) n of Some ts \<Rightarrow> ts | None \<Rightarrow> [])"
    "\<exists>g. checked_graph flows (wf_start (ev_plan env)) retry_of sources place = Inr g"
proof -
  have acc: "dict_wf flows" "callable_unrouted flows" "validate_repeats flows place declared = Inr retry_of"
    "validate_graph listing flows (wf_start (ev_plan env)) retry_of sources place = Some (Inr G)"
    using assms(1) by (simp_all add: accepted_def flows_def)
  have retry: "retry_ok flows flows retry_of" by (rule validate_repeats_ok [OF acc(3)])
  show plan: "flows_of_plan env flows" unfolding flows_of_plan_def
  proof (intro conjI allI impI)
    show "get flows n = workflow_flow (ev_plan env) n" for n
      using acc(1) unfolding flows_def by (rule plan_flows_get)
    fix n f rp r g
    assume f: "get flows n = Some f" "fl_repeat f = Some rp" "rp_retry_flow rp = Some r" "get flows r = Some g"
    then have "(r, n) \<in> set retry_of" using retry unfolding retry_ok_def by (meson map_of_SomeD)
    with retry f(4) show "fl_repeat g = None" unfolding retry_ok_def by fastforce
  qed
  from validate_graph_Inr [OF acc(1,3,4)] obtain g where
    g: "checked_graph flows (wf_start (ev_plan env)) retry_of sources place = Inr g"
    and acyc: "acyclic (call_rel flows retry_of)"
    and G: "routed_analysis listing flows retry_of (start_names (wf_start (ev_plan env))) = Some (Inr G)" by blast
  show "acyclic (call_rel flows retry_of)" by (rule acyc)
  show "\<exists>g. checked_graph flows (wf_start (ev_plan env)) retry_of sources place = Inr g" using g by blast
  have finite: "finite (set (routed_names flows))" by simp
  have succs: "gr_successors G = filter (\<lambda>p. is_routed flows (fst p)) (routed_graph flows)"
    using analysis_successors [OF G] assms(2) set_routed_names [OF acc(1)] finite by (simp add: listing_ok_def)
  have "keys (routed_graph flows) = keys flows" by (simp add: routed_graph_def split_def comp_def)
  with acc(1) have wf: "dict_wf (gr_successors G)" unfolding succs by (simp add: distinct_map_filter)
  have routed: "is_routed flows a" if "routes_to flows a b" for a b
    using that by (auto simp: routes_to_def is_routed_def split: option.splits)
  show "successor_rel (gr_successors G) = route_rel flows"
  proof (rule set_eqI, clarify)
    fix a b
    have "(a, b) \<in> successor_rel (gr_successors G) \<longleftrightarrow> (\<exists>ts. (a, ts) \<in> set (gr_successors G) \<and> b \<in> set ts)"
      by (simp add: successor_rel_def map_of_eq_Some_iff [OF wf])
    also have "\<dots> \<longleftrightarrow> is_routed flows a \<and> (a, b) \<in> route_rel flows"
      unfolding routed_graph_rel [OF acc(1,2), symmetric] succs by auto
    also have "\<dots> \<longleftrightarrow> (a, b) \<in> route_rel flows" using routed by (auto simp: route_rel_def)
    finally show "(a, b) \<in> successor_rel (gr_successors G) \<longleftrightarrow> (a, b) \<in> route_rel flows" .
  qed
  assume f: "workflow_flow (ev_plan env) n = Some f"
  then have get: "get flows n = Some f" using plan by (simp add: flows_of_plan_def)
  show "set (target_flows (flow_targets f)) \<subseteq> set (case get (gr_successors G) n of Some ts \<Rightarrow> ts | None \<Rightarrow> [])"
  proof (cases "fl_callable f")
    case True
    with acc(2) get have "flow_targets f = []"
      by (fastforce simp: callable_unrouted_def list_all_iff dest: map_of_SomeD)
    then show ?thesis by (simp add: target_flows_def List.map_filter_simps)
  next
    case False
    with get have "is_routed flows n" by (simp add: is_routed_def)
    moreover from get have "(n, f) \<in> set flows" by (rule map_of_SomeD)
    ultimately have "(n, routed_targets f) \<in> set (gr_successors G)" by (force simp: succs routed_graph_def)
    then have "get (gr_successors G) n = Some (routed_targets f)" using wf by simp
    then show ?thesis by (simp add: set_routed_targets)
  qed
qed

lemma route_rel_calls: "route_rel flows \<subseteq> call_rel flows retry_of"
  by (auto simp: route_rel_def call_rel_def calls_def)

section \<open>The recursion ends\<close>

text \<open>Each nested call moves down the acyclic calls, so the depth is not exceeded.\<close>

definition callees :: "flows \<Rightarrow> (string \<times> string) set \<Rightarrow> string \<Rightarrow> string set" where
  "callees flows R n = {b \<in> set (keys flows). (n, b) \<in> R\<^sup>+}"

lemma callees_less:
  assumes "acyclic R" "(a, b) \<in> R" "b \<in> set (keys flows)"
  shows "card (callees flows R b) < card (callees flows R a)"
proof (rule psubset_card_mono)
  have "b \<in> callees flows R a" using assms(2,3) by (auto simp: callees_def)
  moreover have "b \<notin> callees flows R b" using assms(1) by (simp add: callees_def acyclic_def)
  moreover have "callees flows R b \<subseteq> callees flows R a"
    using assms(2) by (auto simp: callees_def intro: trancl_into_trancl2)
  ultimately show "callees flows R b \<subset> callees flows R a" by blast
qed (simp add: callees_def)

lemma callees_depth: "card (callees flows R n) < flow_depth flows"
proof -
  have "card (callees flows R n) \<le> card (set (keys flows))" by (rule card_mono) (auto simp: callees_def)
  also have "\<dots> \<le> length (keys flows)" by (rule card_length)
  finally show ?thesis by simp
qed

abbreviation answers :: "worst \<Rightarrow> flow \<Rightarrow> bool" where
  "answers worst f \<equiv> \<forall>memo. \<exists>r. worst memo f = Inr r"

lemma child_steps_answers:
  "\<forall>t \<in> set ts. \<exists>g. get flows t = Some g \<and> answers worst g \<Longrightarrow> \<exists>r. child_steps worst flows memo ts = Inr r"
proof (induction ts arbitrary: memo)
  case (Cons t ts)
  then obtain g where g: "lookupE flows t = Inr g" "answers worst g" by auto
  then obtain v memo1 where "worst memo g = Inr (v, memo1)" by (metis surj_pair)
  with g Cons.IH [of memo1] Cons.prems show ?case by auto
qed simp

lemma own_steps_answers:
  "\<forall>s \<in> set ss. \<forall>t \<in> set (collection_flows s). \<exists>g. get flows t = Some g \<and> answers worst g \<Longrightarrow>
     \<exists>r. own_steps worst flows memo ss = Inr r"
proof (induction ss arbitrary: memo)
  case (Cons s ss)
  let ?head = "case st_body s of
         CollectionStep cs \<Rightarrow>
           mapR (\<lambda>(child, memo1). (Suc (cs_max_items cs * child), memo1))
             (child_steps worst flows memo (cs_flows cs))
       | _ \<Rightarrow> Inr (1, memo)"
  have "\<exists>p. ?head = Inr p"
  proof (cases "st_body s")
    case (CollectionStep cs)
    then have "\<forall>t \<in> set (cs_flows cs). \<exists>g. get flows t = Some g \<and> answers worst g"
      using Cons.prems by (simp add: collection_flows_def)
    from child_steps_answers [OF this, of memo] obtain q where
      "child_steps worst flows memo (cs_flows cs) = Inr q" by blast
    with CollectionStep show ?thesis by simp
  qed simp_all
  then obtain p where p: "?head = Inr p" by blast
  have "\<exists>r. own_steps worst flows (snd p) ss = Inr r" by (rule Cons.IH) (use Cons.prems in simp)
  then obtain r where "own_steps worst flows (snd p) ss = Inr r" by blast
  with p show ?case by (simp add: split_def)
qed simp

text \<open>What the graph check guarantees of the flows.\<close>

definition calls_known :: "flows \<Rightarrow> (string \<times> string) set \<Rightarrow> bool" where
  "calls_known flows R \<longleftrightarrow> acyclic R \<and>
     (\<forall>n f. get flows n = Some f \<longrightarrow> fl_name f = n \<and>
        (\<forall>s \<in> set (fl_steps f). \<forall>t \<in> set (collection_flows s). t \<in> set (keys flows) \<and> (n, t) \<in> R) \<and>
        (\<forall>rp r. fl_repeat f = Some rp \<longrightarrow> rp_retry_flow rp = Some r \<longrightarrow> r \<in> set (keys flows) \<and> (n, r) \<in> R))"

lemma key_get: "n \<in> fst ` set d \<Longrightarrow> \<exists>v. get d n = Some v"
  using get_None_iff [of d n] by (cases "get d n") auto

lemma worst_steps_answers:
  "calls_known flows R \<Longrightarrow> get flows n = Some f \<Longrightarrow> card (callees flows R n) < depth \<Longrightarrow>
     answers (worst_steps depth flows) f"
proof (induction depth arbitrary: n f)
  case (Suc depth)
  from Suc.prems(1) have acyc: "acyclic R" by (simp add: calls_known_def)
  have below: "\<exists>g. get flows t = Some g \<and> answers (worst_steps depth flows) g"
    if "t \<in> set (keys flows)" "(n, t) \<in> R" for t
  proof -
    have "\<exists>g. get flows t = Some g" by (rule key_get) (use that(1) in simp)
    then obtain g where g: "get flows t = Some g" by blast
    with Suc.IH [OF Suc.prems(1) g] callees_less [OF acyc that(2,1)] Suc.prems(3) show ?thesis by auto
  qed
  show ?case
  proof
    fix memo
    show "\<exists>r. worst_steps (Suc depth) flows memo f = Inr r"
    proof (cases "get memo (fl_name f)")
      case None
      have "\<forall>s \<in> set (fl_steps f). \<forall>t \<in> set (collection_flows s).
          \<exists>g. get flows t = Some g \<and> answers (worst_steps depth flows) g"
        using Suc.prems(1,2) below unfolding calls_known_def by blast
      from own_steps_answers [OF this, of memo] obtain own memo1 where
        own: "own_steps (worst_steps depth flows) flows memo (fl_steps f) = Inr (own, memo1)" by auto
      have "\<exists>r memo2. bindE (lookupE flows t) (worst_steps depth flows memo1) = Inr (r, memo2)"
        if "fl_repeat f = Some rp" "rp_retry_flow rp = Some t" for rp t
      proof -
        from that Suc.prems(1,2) have "t \<in> set (keys flows)" "(n, t) \<in> R" unfolding calls_known_def by blast+
        from below [OF this] obtain g where "lookupE flows t = Inr g" "answers (worst_steps depth flows) g" by auto
        then show ?thesis by (metis bindE_simps(2) surj_pair)
      qed
      with own None show ?thesis by (fastforce split: option.split)
    qed simp
  qed
qed simp

lemma worst_steps_known:
  "calls_known flows R \<Longrightarrow> get flows n = Some f \<Longrightarrow> answers (worst_steps (flow_depth flows) flows) f"
  by (rule worst_steps_answers [OF _ _ callees_depth])

text \<open>The table of path costs lists flows of the plan.\<close>

definition paths_known :: "flows \<Rightarrow> (string, path_cost) dict \<Rightarrow> bool" where
  "paths_known flows d \<longleftrightarrow> (\<forall>n c. get d n = Some c \<longrightarrow> set (snd c) \<subseteq> set (keys flows) \<and> snd c \<noteq> [])"

definition cost_answers ::
  "flows \<Rightarrow> (costs \<Rightarrow> string \<Rightarrow> (compile_error, path_cost \<times> costs) result) \<Rightarrow> string \<Rightarrow> bool" where
  "cost_answers flows cost n \<longleftrightarrow> (\<forall>st. paths_known flows (snd st) \<longrightarrow>
     (\<exists>c st'. cost st n = Inr (c, st') \<and> paths_known flows (snd st') \<and> set (snd c) \<subseteq> set (keys flows) \<and> snd c \<noteq> []))"

lemma all_costs_answers:
  "\<forall>n \<in> set ns. cost_answers flows cost n \<Longrightarrow> paths_known flows (snd st) \<Longrightarrow>
     \<exists>cs st'. all_costs cost st ns = Inr (cs, st') \<and> paths_known flows (snd st') \<and> length cs = length ns \<and>
       (\<forall>c \<in> set cs. set (snd c) \<subseteq> set (keys flows) \<and> snd c \<noteq> [])"
proof (induction ns arbitrary: st)
  case (Cons n ns)
  from Cons.prems have "cost_answers flows cost n" by simp
  with Cons.prems(2) obtain c st1 where c: "cost st n = Inr (c, st1)" "paths_known flows (snd st1)"
    "set (snd c) \<subseteq> set (keys flows) \<and> snd c \<noteq> []" unfolding cost_answers_def by blast
  have "\<forall>n \<in> set ns. cost_answers flows cost n" using Cons.prems(1) by simp
  from Cons.IH [OF this c(2)] obtain cs st' where "all_costs cost st1 ns = Inr (cs, st')"
    "paths_known flows (snd st')" "length cs = length ns"
    "\<forall>c \<in> set cs. set (snd c) \<subseteq> set (keys flows) \<and> snd c \<noteq> []" by blast
  with c show ?case by simp
qed simp

lemma max_cost_in: "cs \<noteq> [] \<Longrightarrow> max_cost cs \<in> set cs"
proof -
  have "first_max b cs \<in> insert b (set cs)" for b cs by (induction b cs rule: first_max.induct) auto
  then show "cs \<noteq> [] \<Longrightarrow> max_cost cs \<in> set cs" by (cases cs) (auto simp: max_cost_def)
qed

lemma path_costs_answers:
  "calls_known flows R \<Longrightarrow> successor_rel succs \<subseteq> R \<Longrightarrow> Range (successor_rel succs) \<subseteq> set (keys flows) \<Longrightarrow>
     n \<in> set (keys flows) \<Longrightarrow> card (callees flows R n) < depth \<Longrightarrow> cost_answers flows (path_costs depth flows succs) n"
proof (induction depth arbitrary: n)
  case (Suc depth)
  from Suc.prems(1) have acyc: "acyclic R" by (simp add: calls_known_def)
  let ?ts = "case get succs n of Some ts \<Rightarrow> ts | None \<Rightarrow> []"
  have below: "cost_answers flows (path_costs depth flows succs) t" if "t \<in> set ?ts" for t
  proof -
    from that have rel: "(n, t) \<in> successor_rel succs" by (cases "get succs n") (auto simp: successor_rel_def)
    then have t: "t \<in> set (keys flows)" "(n, t) \<in> R" using Suc.prems(2,3) by auto
    with callees_less [OF acyc t(2,1)] Suc.prems(5) show ?thesis by (intro Suc.IH [OF Suc.prems(1-3)]) auto
  qed
  show ?case unfolding cost_answers_def
  proof (intro allI impI)
    fix st :: costs
    assume st: "paths_known flows (snd st)"
    show "\<exists>c st'. path_costs (Suc depth) flows succs st n = Inr (c, st') \<and> paths_known flows (snd st') \<and>
      set (snd c) \<subseteq> set (keys flows) \<and> snd c \<noteq> []"
    proof (cases "get (snd st) n")
      case (Some c)
      with st have "set (snd c) \<subseteq> set (keys flows) \<and> snd c \<noteq> []" unfolding paths_known_def by blast
      with Some st show ?thesis by simp
    next
      case None
      from all_costs_answers [OF _ st, of ?ts] below obtain tails st1 where
        tails: "all_costs (path_costs depth flows succs) st ?ts = Inr (tails, st1)"
        and st1: "paths_known flows (snd st1)" "\<forall>c \<in> set tails. set (snd c) \<subseteq> set (keys flows) \<and> snd c \<noteq> []" by blast
      obtain f where f: "get flows n = Some f" using key_get [of n flows] Suc.prems(4) unfolding set_map by blast
      from worst_steps_known [OF Suc.prems(1) f] obtain v memo where
        v: "worst_steps (flow_depth flows) flows (fst st1) f = Inr (v, memo)" by (metis surj_pair)
      have "set (snd (max_cost tails)) \<subseteq> set (keys flows)"
        using st1(2) max_cost_in [of tails] by (cases "tails = []") (auto simp: max_cost_def)
      with Suc.prems(4) st1(1) tails v f None show ?thesis
        by (auto simp: Let_def paths_known_def)
    qed
  qed
qed simp

lemma crossing_answers:
  "calls_known flows R \<Longrightarrow> set ns \<subseteq> set (keys flows) \<Longrightarrow> \<exists>x. crossing flows m memo running final ns = Inr x"
proof (induction ns arbitrary: memo running)
  case (Cons n ns)
  from Cons.prems(2) obtain f where f: "get flows n = Some f" using key_get [of n flows] by auto
  from worst_steps_known [OF Cons.prems(1) f] obtain v memo1 where
    "worst_steps (flow_depth flows) flows memo f = Inr (v, memo1)" by (metis surj_pair)
  with f Cons.IH [OF Cons.prems(1), of memo1 "running + v"] Cons.prems(2) show ?case by simp
qed simp

lemma run_budget_answers:
  assumes "calls_known flows R" "successor_rel (gr_successors G) \<subseteq> R"
    "Range (successor_rel (gr_successors G)) \<subseteq> set (keys flows)"
    "set (start_names start) \<subseteq> set (keys flows)" "start_names start \<noteq> []"
  shows "\<exists>ws. run_budget flows G start m w memo = Inr ws"
proof -
  let ?ns = "map fst (start_paths start)" and ?cost = "path_costs (flow_depth flows) flows (gr_successors G)"
  have ns: "set ?ns \<subseteq> set (keys flows)" using assms(4) by (auto simp: start_names_set)
  have "set (start_names start) \<noteq> {}" using assms(5) by simp
  then have ne: "?ns \<noteq> []" by (auto simp: start_names_set)
  have "\<forall>n \<in> set ?ns. cost_answers flows ?cost n"
    using path_costs_answers [OF assms(1-3) _ callees_depth] ns by blast
  from all_costs_answers [OF this, of "(memo, [])"] obtain cs st where
    cs: "all_costs ?cost (memo, []) ?ns = Inr (cs, st)" "length cs = length ?ns"
    "\<forall>c \<in> set cs. set (snd c) \<subseteq> set (keys flows) \<and> snd c \<noteq> []" by (auto simp: paths_known_def)
  obtain total path where p: "max_cost cs = (total, path)" by fastforce
  have "cs \<noteq> []" using cs(2) ne by auto
  with p cs(3) max_cost_in [of cs] have path: "set path \<subseteq> set (keys flows)" by force
  obtain x where "crossing flows m (fst st) 0 (last path) path = Inr x"
    using crossing_answers [OF assms(1) path] by blast
  with cs(1) p \<open>cs \<noteq> []\<close> show ?thesis unfolding run_budget_def by simp
qed

lemma collection_budgets_answers:
  assumes "calls_known flows R" "get flows n = Some f" "get sources n = Some src"
  shows "set ss \<subseteq> set (fl_steps f) \<Longrightarrow> list_all (\<lambda>s. st_name s \<in> set (keys (src_steps src))) ss \<Longrightarrow>
    \<exists>st'. collection_budgets flows sources m n ss st = Inr st'"
proof (induction ss arbitrary: st)
  case (Cons s ss)
  obtain memo ws where st: "st = (memo, ws)" by fastforce
  have "\<exists>p. get (src_steps src) (st_name s) = Some p" by (rule key_get) (use Cons.prems(2) in simp)
  then obtain p where p: "get (src_steps src) (st_name s) = Some p" by blast
  have rest: "\<exists>st'. collection_budgets flows sources m n ss st1 = Inr st'" for st1
    by (rule Cons.IH) (use Cons.prems in auto)
  show ?case
  proof (cases "st_body s")
    case (CollectionStep cs)
    have "\<forall>t \<in> set (cs_flows cs). \<exists>g. get flows t = Some g \<and> answers (worst_steps (flow_depth flows) flows) g"
    proof
      fix t assume "t \<in> set (cs_flows cs)"
      with CollectionStep Cons.prems(1) assms(1,2) have "t \<in> fst ` set flows"
        by (force simp: calls_known_def collection_flows_def)
      from key_get [OF this] obtain g where "get flows t = Some g" by blast
      with worst_steps_known [OF assms(1) this]
      show "\<exists>g. get flows t = Some g \<and> answers (worst_steps (flow_depth flows) flows) g" by blast
    qed
    from child_steps_answers [OF this, of memo] obtain child memo1 where
      "child_steps (worst_steps (flow_depth flows) flows) flows memo (cs_flows cs) = Inr (child, memo1)"
      by (metis surj_pair)
    with rest CollectionStep st assms(3) p show ?thesis by simp
  qed (use rest st in auto)
qed simp

lemma flow_budgets_no_defect:
  assumes "calls_known flows R" "dict_wf flows" "sources_ok flows sources"
  shows "set fs \<subseteq> set flows \<Longrightarrow> flow_budgets flows sources m fs st \<noteq> Inl Defect"
proof (induction fs arbitrary: st)
  case (Cons p fs)
  obtain n f where p: "p = (n, f)" by fastforce
  with Cons.prems have nf: "(n, f) \<in> set flows" by simp
  with assms(2) have f: "get flows n = Some f" by simp
  from assms(3) nf obtain src where src: "get sources n = Some src"
    "list_all (\<lambda>s. st_name s \<in> set (keys (src_steps src))) (fl_steps f)"
    by (force simp: sources_ok_def list_all_iff split: option.splits)
  obtain st1 where "collection_budgets flows sources m n (fl_steps f) st = Inr st1"
    using collection_budgets_answers [OF assms(1) f src(1) subset_refl src(2)] by blast
  moreover have "repeat_budget flows sources m n f \<noteq> Inl Defect"
  proof (cases "fl_repeat f")
    case (Some rp)
    have "\<exists>v. own_worst_steps f flows = Inr v"
    proof (cases "rp_retry_flow rp")
      case retry: (Some r)
      with Some f assms(1) have "r \<in> fst ` set flows" unfolding calls_known_def by (metis set_map)
      from key_get [OF this] obtain g where "get flows r = Some g" by blast
      with Some retry show ?thesis by (simp add: own_worst_steps_def Let_def)
    qed (simp add: Some own_worst_steps_def Let_def)
    then obtain v where "own_worst_steps f flows = Inr v" ..
    with src(1) Some show ?thesis by (simp add: repeat_budget_def fail_at_def)
  qed (simp add: repeat_budget_def)
  ultimately show ?case using Cons p by (cases "repeat_budget flows sources m n f") auto
qed simp

lemma accepted_known:
  assumes "accepted listing declared sources place (ev_plan (env :: 'w run_env)) retry_of G" "listing_ok listing"
  defines "flows \<equiv> plan_flows (ev_plan env)"
  shows "calls_known flows (call_rel flows retry_of)" "Range (route_rel flows) \<subseteq> set (keys flows)"
    "set (start_names (wf_start (ev_plan env))) \<subseteq> set (keys flows)"
proof -
  note facts = accepted_facts [OF assms(1,2), folded flows_def]
  have acc: "dict_wf flows" "validate_repeats flows place declared = Inr retry_of"
    using assms(1) by (simp_all add: accepted_def flows_def)
  have retry: "retry_ok flows flows retry_of" by (rule validate_repeats_ok [OF acc(2)])
  from facts(5) obtain g where "checked_graph flows (wf_start (ev_plan env)) retry_of sources place = Inr g" ..
  note graph = checked_graph_facts [OF this acc(1) retry]
  show "Range (route_rel flows) \<subseteq> set (keys flows)"
    using graph(7) is_routed_key by (auto simp: route_rel_def)
  show "set (start_names (wf_start (ev_plan env))) \<subseteq> set (keys flows)"
    using graph(6) is_routed_key by blast
  show "calls_known flows (call_rel flows retry_of)"
    unfolding calls_known_def
  proof (intro conjI allI impI ballI)
    show "acyclic (call_rel flows retry_of)" by (rule facts(2))
    fix n f assume f: "get flows n = Some f"
    show "fl_name f = n" by (rule plan_flow(1) [OF facts(1) f])
    {
      fix s t assume "s \<in> set (fl_steps f)" "t \<in> set (collection_flows s)"
      with f have c: "collects flows n t" by (auto simp: collects_def)
      with graph(8) show "t \<in> set (keys flows)" by blast
      from c show "(n, t) \<in> call_rel flows retry_of" by (auto simp: call_rel_def calls_def)
    }
    fix rp r assume r: "fl_repeat f = Some rp" "rp_retry_flow rp = Some r"
    from f have nf: "(n, f) \<in> set flows" by (rule map_of_SomeD)
    with r retry have "(r, n) \<in> set retry_of" unfolding retry_ok_def by blast
    with retry obtain g where g: "get flows r = Some g" unfolding retry_ok_def by blast
    then show "r \<in> set (keys flows)" by (rule get_Some_key)
    from f have "n \<in> set (keys flows)" by (rule get_Some_key)
    with \<open>(r, n) \<in> set retry_of\<close> show "(n, r) \<in> call_rel flows retry_of" unfolding call_rel_def calls_def by blast
  qed
qed

section \<open>A sample\<close>

text \<open>A collection of up to three items, a review, and a repeat with a retry flow.\<close>

definition budget_step :: "string \<Rightarrow> step_body \<Rightarrow> step" where
  "budget_step n b = \<lparr>st_name = n, st_type = ''handler'',
     st_location = \<lparr>loc_path = ''workflow.yaml'', loc_line = 1, loc_column = 1\<rparr>, st_when = None, st_body = b\<rparr>"

definition budget_plan :: workflow where
  "budget_plan = graph_plan\<lparr>wf_flows :=
     map (\<lambda>f. f\<lparr>fl_steps := [budget_step ''work''
         (if fl_name f = ''open''
          then CollectionStep \<lparr>cs_items = literal_binding (JArr []), cs_flows = [''item''], cs_max_items = 3\<rparr>
          else HandlerStep \<lparr>hs_handler = ''work'', hs_input = []\<rparr>)]\<rparr>)
       (wf_flows graph_plan @ [graph_flow ''item'' None None None])\<rparr>"

definition budget_env :: "nat run_env" where
  "budget_env = graph_env\<lparr>ev_plan := budget_plan\<rparr>"

definition budget_sources :: "(string, flow_source) dict" where
  "budget_sources = map (\<lambda>(n, _). (n, \<lparr>src_instance = below graph_place [Key ''flows'', Key n],
     src_definition = graph_place, src_steps = [(''work'', graph_place)], src_entries = []\<rparr>)) (plan_flows budget_plan)"

lemma budget_plan_accepted:
  "accepted sorted_list_of_set (\<lambda>_. None) budget_sources graph_place budget_plan [(''again'', ''close'')] graph_sample"
proof -
  have "dict_wf (plan_flows budget_plan)" "callable_unrouted (plan_flows budget_plan)"
    "entry_node \<notin> set (keys (plan_flows budget_plan))" by code_simp+
  moreover have "validate_repeats (plan_flows budget_plan) graph_place (\<lambda>_. None) = Inr [(''again'', ''close'')]"
    by code_simp
  moreover have "validate_graph sorted_list_of_set (plan_flows budget_plan) (wf_start budget_plan) [(''again'', ''close'')]
      budget_sources graph_place = Some (Inr graph_sample)"
    by code_simp
  ultimately show ?thesis unfolding accepted_def by blast
qed

lemma budget_sample:
  "validate_budgets (plan_flows budget_plan) graph_sample (wf_start budget_plan) (Some 8) graph_place budget_sources = Inr []"
  "validate_budgets (plan_flows budget_plan) graph_sample (wf_start budget_plan) (Some 7) graph_place budget_sources =
     Inr [Warning ''run_budget'' (below graph_place [Key ''flows'', Key ''close'']) [8, 7]
       [''open'', ''review'', ''close'', ''close'']]"
  by code_simp+

section \<open>Properties\<close>

text \<open>
  C7: A plan the compiler accepts without a budget warning for a limit never visits more
  steps than the limit, whatever the limit of the engine, the payload, and what models and
  handlers answer: the worst case of the compiler covers every attempt, retry and item.
\<close>

theorem budget_sound:
  assumes "accepted listing declared sources place (ev_plan env) retry_of G" "listing_ok listing"
    and "validate_budgets (plan_flows (ev_plan env)) G (wf_start (ev_plan env)) (Some m) place sources = Inr []"
  shows "rs_consumed (snd (run_all env e d (new_run w))) \<le> m"
proof -
  let ?flows = "plan_flows (ev_plan env)"
  from assms(3) obtain memo where memo: "flow_budgets ?flows sources m ?flows ([], []) = Inr (memo, [])"
    and run: "run_budget ?flows G (wf_start (ev_plan env)) m place memo = Inr []"
    by (auto simp: validate_budgets_def bindE_Inr_iff split: if_splits)
  have "\<exists>B. start_potential (env\<lparr>ev_deadline := stop\<rparr>) B m" for stop
  proof -
    let ?env = "env\<lparr>ev_deadline := stop\<rparr>"
    have acc: "accepted listing declared sources place (ev_plan ?env) retry_of G" using assms(1) by simp
    note facts = accepted_facts [OF acc assms(2), simplified]
    have "memo_ok ?env ?flows (fst (memo, [] :: warning list))"
      by (rule flow_budgets_memo [OF memo facts(1)]) (simp add: memo_ok_def)
    moreover have "acyclic (successor_rel (gr_successors G))"
      unfolding facts(3) by (rule acyclic_subset [OF facts(2) route_rel_calls])
    ultimately show ?thesis using run_budget_bound [of ?env ?flows G memo m place] facts(1,4) run by simp
  qed
  from spends_run_all [OF this, of e d] show ?thesis by (auto simp: spends_def new_run_def dest: spec [of _ "new_run w"])
qed

theorem budget_sound_witness:
  "rs_consumed (snd (run_all budget_env \<lparr>en_payload = JNull, en_metadata = []\<rparr> None (new_run 0))) \<le> 8"
  using budget_sound [of sorted_list_of_set "\<lambda>_. None" budget_sources graph_place budget_env "[(''again'', ''close'')]"
    graph_sample 8] budget_plan_accepted sorted_listing budget_sample(1) by (simp add: budget_env_def)

text \<open>
  C8: The budget check returns on every accepted plan, with warnings or with the refusal of
  a repeat: the recursion over flows and the one over paths end, and no lookup misses.
\<close>

theorem budget_check_returns:
  assumes "accepted listing declared sources place (ev_plan (env :: 'w run_env)) retry_of G" "listing_ok listing"
    and "sources_ok (plan_flows (ev_plan env)) sources" "start_names (wf_start (ev_plan env)) \<noteq> []"
  shows "validate_budgets (plan_flows (ev_plan env)) G (wf_start (ev_plan env)) limit place sources \<noteq> Inl Defect"
proof (cases limit)
  case (Some m)
  let ?flows = "plan_flows (ev_plan env)"
  note facts = accepted_facts [OF assms(1,2)] and known = accepted_known [OF assms(1,2)]
  have wf: "dict_wf ?flows" using assms(1) by (simp add: accepted_def)
  have "flow_budgets ?flows sources m ?flows ([], []) \<noteq> Inl Defect"
    by (rule flow_budgets_no_defect [OF known(1) wf assms(3) subset_refl])
  moreover have "\<exists>ws. run_budget ?flows G (wf_start (ev_plan env)) m place memo = Inr ws" for memo
    by (rule run_budget_answers [OF known(1) _ _ known(3) assms(4)])
      (use facts(3) route_rel_calls known(2) in auto)
  then have "run_budget ?flows G (wf_start (ev_plan env)) m place memo \<noteq> Inl Defect" for memo by (metis sum.distinct(1))
  ultimately show ?thesis using Some by (auto simp: validate_budgets_def bindE_Inl_iff split: if_splits)
qed (simp add: validate_budgets_def)

theorem budget_check_returns_witness:
  "validate_budgets (plan_flows budget_plan) graph_sample (wf_start budget_plan) (Some 1) graph_place budget_sources \<noteq> Inl Defect"
proof -
  have "sources_ok (plan_flows budget_plan) budget_sources" "start_names (wf_start budget_plan) \<noteq> []" by code_simp+
  with budget_check_returns [of sorted_list_of_set "\<lambda>_. None" budget_sources graph_place budget_env "[(''again'', ''close'')]"
    graph_sample "Some 1"] budget_plan_accepted sorted_listing show ?thesis by (simp add: budget_env_def)
qed

end
