(* ===== verification/StaticSchema.thy ===== *)
theory StaticSchema imports Routes "HOL-Library.List_Lexorder" "HOL-Library.Char_ord" begin

text \<open>
  \<^verbatim>\<open>compiler/static_schema.py\<close> and the part of \<^verbatim>\<open>compiler/schema_helpers.py\<close> it uses: a view of a
  node of a JSON Schema with its reference context, the resolution of \<^verbatim>\<open>$ref\<close>, the selection of
  one pointer token, and JSON types. The decoding of percent escapes (\<^verbatim>\<open>urllib\<close>) is the
  parameter \<^verbatim>\<open>unq\<close>. A schema node is a JSON value; two nodes of one file with
  the same value behave alike, so the loop check compares values where the code compares
  object identities.
\<close>

section \<open>Paths of schema files\<close>

text \<open>The root of a POSIX path: two leading slashes are kept, more are one.\<close>

definition path_root :: "string \<Rightarrow> string" where
  "path_root p = (case takeWhile (\<lambda>c. c = CHR ''/'') p of
     [] \<Rightarrow> [] | [_] \<Rightarrow> ''/'' | [_, _] \<Rightarrow> ''//'' | _ \<Rightarrow> ''/'')"

definition path_parts :: "string \<Rightarrow> string list" where
  "path_parts p = filter (\<lambda>s. s \<noteq> [] \<and> s \<noteq> ''.'') (split_on (CHR ''/'') p)"

text \<open>\<^verbatim>\<open>posixpath.normpath\<close>: the components kept so far, innermost first.\<close>

fun norm_parts :: "bool \<Rightarrow> string list \<Rightarrow> string list \<Rightarrow> string list" where
  "norm_parts rooted acc [] = rev acc"
| "norm_parts rooted acc (p # ps) =
     (if p \<noteq> ''..'' \<or> (\<not> rooted \<and> acc = []) \<or> (acc \<noteq> [] \<and> hd acc = ''..'')
      then norm_parts rooted (p # acc) ps
      else norm_parts rooted (tl acc) ps)"

definition path_text :: "string \<Rightarrow> string list \<Rightarrow> string" where
  "path_text lead ps = (if lead = [] \<and> ps = [] then ''.'' else lead @ join ''/'' ps)"

definition norm_path :: "string \<Rightarrow> string" where
  "norm_path p = path_text (path_root p) (norm_parts (path_root p \<noteq> []) [] (path_parts p))"

text \<open>\<^verbatim>\<open>normpath(str(PurePosixPath(base).parent / relative))\<close>\<close>

definition referenced_path :: "string \<Rightarrow> string \<Rightarrow> string" where
  "referenced_path base relative = norm_path
     (if path_root relative \<noteq> [] then path_text (path_root relative) (path_parts relative)
      else path_text (path_root base) (butlast (path_parts base) @ path_parts relative))"

text \<open>A normal path is its own normal form.\<close>

definition plain_part :: "string \<Rightarrow> bool" where
  "plain_part p \<longleftrightarrow> p \<noteq> [] \<and> p \<noteq> ''.'' \<and> CHR ''/'' \<notin> set p"

definition lead_ok :: "string \<Rightarrow> bool" where
  "lead_ok lead \<longleftrightarrow> lead = [] \<or> lead = ''/'' \<or> lead = ''//''"

lemma path_root_ok: "lead_ok (path_root p)"
  by (simp add: path_root_def lead_ok_def split: list.split)

lemma split_on_no_sep: "p \<in> set (split_on c s) \<Longrightarrow> c \<notin> set p"
  by (induction s arbitrary: p) (auto split: list.splits if_splits)

lemma path_parts_plain: "list_all plain_part (path_parts p)"
  using split_on_no_sep by (auto simp: path_parts_def list_all_iff plain_part_def)

lemma split_join_parts:
  "list_all plain_part ps \<Longrightarrow> ps \<noteq> [] \<Longrightarrow> split_on (CHR ''/'') (join ''/'' ps) = ps"
proof (induction ps)
  case (Cons p ps)
  then show ?case by (cases ps) (simp_all add: plain_part_def split_on_prefix split_on_whole)
qed simp

lemma takeWhile_join: "list_all plain_part ps \<Longrightarrow> takeWhile (\<lambda>c. c = CHR ''/'') (join ''/'' ps) = []"
  by (cases ps; cases "tl ps"; cases "hd ps") (auto simp: plain_part_def)

lemma path_text_parse:
  assumes "list_all plain_part ps" "lead_ok lead"
  shows "path_root (path_text lead ps) = lead" "path_parts (path_text lead ps) = ps"
proof -
  have filter: "filter (\<lambda>s. s \<noteq> [] \<and> s \<noteq> ''.'') ps = ps"
    using assms(1) by (simp add: filter_id_conv list_all_iff plain_part_def)
  show "path_root (path_text lead ps) = lead"
    using assms(2) takeWhile_join [OF assms(1)]
    by (auto simp: path_text_def path_root_def lead_ok_def)
  show "path_parts (path_text lead ps) = ps"
    using assms filter split_join_parts [OF assms(1)]
    by (cases "ps = []") (auto simp: path_text_def path_parts_def lead_ok_def)
qed

fun norm_ok :: "bool \<Rightarrow> string list \<Rightarrow> bool" where
  "norm_ok rooted [] = True"
| "norm_ok rooted (p # acc) = ((if p = ''..'' then \<not> rooted \<and> set acc \<subseteq> {''..''} else True) \<and> norm_ok rooted acc)"

lemma norm_parts_ok: "norm_ok rooted acc \<Longrightarrow> norm_ok rooted (rev (norm_parts rooted acc ps))"
proof (induction rooted acc ps rule: norm_parts.induct)
  case (2 rooted acc p ps)
  have "norm_ok rooted (p # acc)" if "p \<noteq> ''..'' \<or> (\<not> rooted \<and> acc = []) \<or> (acc \<noteq> [] \<and> hd acc = ''..'')"
    using that 2(3) by (cases acc) (auto split: if_splits)
  moreover have "norm_ok rooted (tl acc)" using 2(3) by (cases acc) auto
  ultimately show ?case
    unfolding norm_parts.simps using 2(1,2)
    by (cases "p \<noteq> ''..'' \<or> (\<not> rooted \<and> acc = []) \<or> (acc \<noteq> [] \<and> hd acc = ''..'')") (simp_all only: if_P if_not_P not_False_eq_True)
qed simp

lemma norm_parts_plain: "list_all plain_part acc \<Longrightarrow> list_all plain_part ps \<Longrightarrow> list_all plain_part (norm_parts rooted acc ps)"
proof (induction rooted acc ps rule: norm_parts.induct)
  case (2 rooted acc p ps)
  have "list_all plain_part (tl acc)" using 2(3) by (cases acc) auto
  with 2 show ?case by simp
qed (simp add: list_all_iff)

lemma norm_parts_id: "norm_ok rooted (rev ps @ acc) \<Longrightarrow> norm_parts rooted acc ps = rev acc @ ps"
proof (induction ps arbitrary: acc)
  case (Cons p ps)
  have ok: "norm_ok rooted (p # acc)" if "norm_ok rooted (qs @ p # acc)" for qs
    using that by (induction qs) auto
  from Cons.prems have "norm_ok rooted (p # acc)" by (intro ok [of "rev ps"]) simp
  then have "p \<noteq> ''..'' \<or> (\<not> rooted \<and> acc = []) \<or> (acc \<noteq> [] \<and> hd acc = ''..'')"
    by (cases acc) (auto split: if_splits)
  with Cons show ?case by simp
qed simp

lemma norm_path_idem [simp]: "norm_path (norm_path p) = norm_path p"
proof -
  let ?r = "path_root p \<noteq> []" and ?ps = "norm_parts (path_root p \<noteq> []) [] (path_parts p)"
  have "list_all plain_part ?ps" by (rule norm_parts_plain [OF _ path_parts_plain]) simp
  note parse = path_text_parse [OF this path_root_ok [of p]]
  have "norm_parts ?r [] ?ps = ?ps" using norm_parts_id [of ?r ?ps "[]"] norm_parts_ok [of ?r "[]" "path_parts p"] by simp
  with parse show ?thesis by (simp add: norm_path_def)
qed

section \<open>Fragments\<close>

definition MAX_SCHEMA_DEPTH :: nat where "MAX_SCHEMA_DEPTH = 64"
definition MAX_SCHEMA_NODES :: nat where "MAX_SCHEMA_NODES = 10000"

text \<open>The default limit of Python on the digits it converts.\<close>

definition MAX_INT_DIGITS :: nat where "MAX_INT_DIGITS = 4300"

definition is_object :: "json \<Rightarrow> bool" where
  "is_object v \<longleftrightarrow> (case v of JObj _ \<Rightarrow> True | _ \<Rightarrow> False)"

definition object_of :: "json \<Rightarrow> jobj" where
  "object_of v = (case v of JObj ps \<Rightarrow> ps | _ \<Rightarrow> [])"

definition object_values :: "json option \<Rightarrow> json list" where
  "object_values v = (case v of Some (JObj ps) \<Rightarrow> filter is_object (map snd ps) | _ \<Rightarrow> [])"

definition single_object :: "json option \<Rightarrow> json list" where
  "single_object v = (case v of Some (JObj ps) \<Rightarrow> [JObj ps] | _ \<Rightarrow> [])"

definition array_objects :: "json option \<Rightarrow> json list" where
  "array_objects v = (case v of Some (JArr xs) \<Rightarrow> filter is_object xs | _ \<Rightarrow> [])"

definition SCHEMA_MAP_KEYWORDS :: "string list" where
  "SCHEMA_MAP_KEYWORDS = [''$defs'', ''definitions'', ''properties'', ''patternProperties'', ''dependentSchemas'']"

definition SCHEMA_SINGLE_KEYWORDS :: "string list" where
  "SCHEMA_SINGLE_KEYWORDS = [''additionalProperties'', ''unevaluatedProperties'', ''propertyNames'',
     ''contains'', ''not'', ''if'', ''then'', ''else'', ''additionalItems'', ''unevaluatedItems'', ''contentSchema'']"

definition SCHEMA_ARRAY_KEYWORDS :: "string list" where
  "SCHEMA_ARRAY_KEYWORDS = [''allOf'', ''anyOf'', ''oneOf'', ''prefixItems'']"

text \<open>
  The children of one schema. The keyword sets have no order in Python; it only matters for
  the choice among equal anchors.
\<close>

definition schema_children :: "jobj \<Rightarrow> json list" where
  "schema_children s =
     concat (map (\<lambda>k. object_values (get s k)) SCHEMA_MAP_KEYWORDS)
     @ object_values (get s ''dependencies'')
     @ concat (map (\<lambda>k. single_object (get s k)) SCHEMA_SINGLE_KEYWORDS)
     @ single_object (get s ''items'') @ array_objects (get s ''items'')
     @ concat (map (\<lambda>k. array_objects (get s k)) SCHEMA_ARRAY_KEYWORDS)"

text \<open>\<^verbatim>\<open>walk_schema_nodes\<close>: the stack has its top in front; \<^term>\<open>None\<close> is the \<^verbatim>\<open>ValueError\<close>.\<close>

function walk_nodes :: "jobj list \<Rightarrow> (jobj \<times> nat) list \<Rightarrow> jobj list option" where
  "walk_nodes found [] = Some found"
| "walk_nodes found ((s, depth) # pending) =
     (if MAX_SCHEMA_DEPTH < depth \<or> MAX_SCHEMA_NODES \<le> length found then None
      else walk_nodes (found @ [s])
        (rev (map (\<lambda>c. (object_of c, Suc depth)) (schema_children s)) @ pending))"
  by pat_completeness auto
termination by (relation "measure (\<lambda>(found, _). MAX_SCHEMA_NODES - length found)") auto

definition walk_schema_nodes :: "jobj \<Rightarrow> jobj list option" where
  "walk_schema_nodes s = walk_nodes [] [(s, 0)]"

text \<open>Removal of a two-character text.\<close>

fun remove2 :: "char \<Rightarrow> char \<Rightarrow> string \<Rightarrow> string" where
  "remove2 a b (x # y # s) = (if x = a \<and> y = b then remove2 a b s else x # remove2 a b (y # s))"
| "remove2 a b s = s"

definition bad_token :: "string \<Rightarrow> bool" where
  "bad_token raw \<longleftrightarrow>
     CHR ''~'' \<in> set (remove2 (CHR ''~'') (CHR ''1'') (remove2 (CHR ''~'') (CHR ''0'') raw))"

text \<open>A token of a fragment: leading zeros are digits, too.\<close>

definition fragment_token :: "string \<Rightarrow> json \<Rightarrow> json option" where
  "fragment_token t v = (case v of
     JObj ps \<Rightarrow> get ps t
   | JArr xs \<Rightarrow>
       if t \<noteq> [] \<and> list_all ascii_digit t \<and> length t \<le> MAX_INT_DIGITS \<and> parse_nat t < length xs
       then Some (xs ! parse_nat t) else None
   | _ \<Rightarrow> None)"

fun fragment_parts :: "string list \<Rightarrow> json \<Rightarrow> json option" where
  "fragment_parts [] v = Some v"
| "fragment_parts (raw # rest) v =
     (if bad_token raw then None
      else (case fragment_token (unescape raw) v of None \<Rightarrow> None | Some w \<Rightarrow> fragment_parts rest w))"

definition anchored :: "string \<Rightarrow> jobj \<Rightarrow> bool" where
  "anchored a s \<longleftrightarrow> get s ''$anchor'' = Some (JStr a) \<or> get s ''$dynamicAnchor'' = Some (JStr a)"

text \<open>\<^verbatim>\<open>resolve_schema_fragment\<close>\<close>

definition resolve_fragment :: "(string \<Rightarrow> string) \<Rightarrow> jobj \<Rightarrow> string \<Rightarrow> json option" where
  "resolve_fragment unq resource fragment =
     (case unq fragment of
        [] \<Rightarrow> Some (JObj resource)
      | c # rest \<Rightarrow>
          if c = CHR ''/'' then fragment_parts (split_on (CHR ''/'') rest) (JObj resource)
          else (case walk_schema_nodes resource of
             None \<Rightarrow> None
           | Some nodes \<Rightarrow> map_option JObj (List.find (anchored (c # rest)) nodes)))"

section \<open>Views\<close>

record schema_view =
  vw_node :: json
  vw_root :: jobj
  vw_path :: string
  vw_resources :: "(string, jobj) dict"

definition view_at :: "schema_view \<Rightarrow> json \<Rightarrow> schema_view" where
  "view_at w node = w\<lparr>vw_node := node\<rparr>"

definition view_unknown :: "schema_view \<Rightarrow> schema_view" where
  "view_unknown w = view_at w (JObj [])"

text \<open>The target of a reference: the part before the first hash names a file.\<close>

definition ref_target :: "(string \<Rightarrow> string) \<Rightarrow> schema_view \<Rightarrow> string \<Rightarrow> schema_view option" where
  "ref_target unq w reference =
     (let relative = takeWhile (\<lambda>c. c \<noteq> CHR ''#'') reference;
          fragment = drop (Suc (length relative)) reference;
          path = (if relative \<noteq> [] then referenced_path (vw_path w) relative
                  else norm_path (vw_path w))
      in case (if relative \<noteq> [] then get (vw_resources w) path else Some (vw_root w)) of
           None \<Rightarrow> None
         | Some file \<Rightarrow> map_option (\<lambda>node. \<lparr>vw_node = node, vw_root = file, vw_path = path,
               vw_resources = vw_resources w\<rparr>) (resolve_fragment unq file fragment))"

definition node_ref :: "json \<Rightarrow> string option" where
  "node_ref node = (case node of
     JObj ps \<Rightarrow> (case get ps ''$ref'' of Some (JStr r) \<Rightarrow> Some r | _ \<Rightarrow> None) | _ \<Rightarrow> None)"

text \<open>
  All values inside a value: the resolution only moves between the values of the files at hand,
  so it ends.
\<close>

fun inner_values :: "json \<Rightarrow> json list" where
  "inner_values (JArr xs) = JArr xs # concat (map inner_values xs)"
| "inner_values (JObj ps) = JObj ps # concat (map (\<lambda>p. inner_values (snd p)) ps)"
| "inner_values v = [v]"

lemma inner_self [simp]: "v \<in> set (inner_values v)"
  by (cases v) auto

lemma inner_trans: "u \<in> set (inner_values v) \<Longrightarrow> v \<in> set (inner_values w) \<Longrightarrow> u \<in> set (inner_values w)"
proof (induction w rule: inner_values.induct)
  case (2 ps)
  then show ?case by (auto simp del: split_paired_Ex)
qed auto

lemma inner_child:
  "get ps k = Some v \<Longrightarrow> v \<in> set (inner_values (JObj ps))" "i < length xs \<Longrightarrow> xs ! i \<in> set (inner_values (JArr xs))"
  by (auto dest!: map_of_SomeD intro!: bexI [of _ "(k, v)"] bexI [of _ "xs ! i"])

lemma fragment_inner: "fragment_parts ts v = Some w \<Longrightarrow> w \<in> set (inner_values v)"
proof (induction ts v rule: fragment_parts.induct)
  case (2 raw rest v)
  then obtain u where u: "\<not> bad_token raw" "fragment_token (unescape raw) v = Some u" "fragment_parts rest u = Some w"
    by (auto split: if_splits option.splits)
  from u(2) have "u \<in> set (inner_values v)"
    by (auto simp: fragment_token_def split: json.splits if_splits simp del: inner_values.simps intro: inner_child)
  with 2 u show ?case by (blast intro: inner_trans)
qed simp

lemma inner_step: "get s k = Some v \<Longrightarrow> u \<in> set (inner_values v) \<Longrightarrow> u \<in> set (inner_values (JObj s))"
  by (rule inner_trans [OF _ inner_child(1)])

lemma array_inner: "u \<in> set xs \<Longrightarrow> u \<in> set (inner_values (JArr xs))"
  by (auto intro: bexI [of _ u])

lemma field_inner: "u \<in> snd ` set qs \<Longrightarrow> u \<in> set (inner_values (JObj qs))"
  by (auto intro: bexI [of _ "(k, u)" for k])

lemma keyword_inner:
  "c \<in> set (object_values (get s k)) \<Longrightarrow> is_object c \<and> c \<in> set (inner_values (JObj s))"
  "c \<in> set (single_object (get s k)) \<Longrightarrow> is_object c \<and> c \<in> set (inner_values (JObj s))"
  "c \<in> set (array_objects (get s k)) \<Longrightarrow> is_object c \<and> c \<in> set (inner_values (JObj s))"
proof -
  have "is_object c \<and> c \<in> set (inner_values (JObj s))"
    if "c \<in> set (object_values (get s k)) \<or> c \<in> set (single_object (get s k)) \<or> c \<in> set (array_objects (get s k))"
  proof (cases "get s k")
    case None
    with that show ?thesis by (simp add: object_values_def single_object_def array_objects_def)
  next
    case (Some v)
    note step = inner_step [OF Some]
    show ?thesis
    proof (cases v)
      case (JObj qs)
      with that Some have "is_object c \<and> (c = v \<or> c \<in> snd ` set qs)"
        by (auto simp: object_values_def single_object_def array_objects_def is_object_def)
      with step field_inner JObj inner_self show ?thesis by blast
    next
      case (JArr xs)
      with that Some have "is_object c" "c \<in> set xs"
        by (auto simp: object_values_def single_object_def array_objects_def)
      with step array_inner JArr show ?thesis by blast
    qed (use that Some in \<open>simp_all add: object_values_def single_object_def array_objects_def\<close>)
  qed
  then show "c \<in> set (object_values (get s k)) \<Longrightarrow> is_object c \<and> c \<in> set (inner_values (JObj s))"
    "c \<in> set (single_object (get s k)) \<Longrightarrow> is_object c \<and> c \<in> set (inner_values (JObj s))"
    "c \<in> set (array_objects (get s k)) \<Longrightarrow> is_object c \<and> c \<in> set (inner_values (JObj s))" by blast+
qed

lemma children_inner: "c \<in> set (schema_children s) \<Longrightarrow> is_object c \<and> c \<in> set (inner_values (JObj s))"
  unfolding schema_children_def using keyword_inner [of c s] by (auto simp del: inner_values.simps)

lemma walk_inner:
  "walk_nodes found pending = Some nodes \<Longrightarrow>
     \<forall>s \<in> set found \<union> fst ` set pending. JObj s \<in> set (inner_values v) \<Longrightarrow>
     \<forall>s \<in> set nodes. JObj s \<in> set (inner_values v)"
proof (induction found pending rule: walk_nodes.induct)
  case (2 found s depth pending)
  have "JObj (object_of c) \<in> set (inner_values v)" if "c \<in> set (schema_children s)" for c
    using children_inner [OF that] 2(3) inner_trans [of c "JObj s" v]
    by (auto simp: is_object_def object_of_def split: json.splits)
  then have "\<forall>s' \<in> set (found @ [s]) \<union> fst ` set (rev (map (\<lambda>c. (object_of c, Suc depth)) (schema_children s)) @ pending).
      JObj s' \<in> set (inner_values v)" using 2(3) by auto
  with 2(1,2) show ?case by (simp split: if_splits)
qed simp

lemma resolve_inner: "resolve_fragment unq file fragment = Some w \<Longrightarrow> w \<in> set (inner_values (JObj file))"
proof -
  assume r: "resolve_fragment unq file fragment = Some w"
  have "JObj n \<in> set (inner_values (JObj file))"
    if "walk_schema_nodes file = Some nodes" "n \<in> set nodes" for n nodes
    using walk_inner [of "[]" "[(file, 0)]" nodes "JObj file"] that
    by (simp add: walk_schema_nodes_def del: inner_values.simps)
  with r show ?thesis
    by (auto simp: resolve_fragment_def find_Some_iff simp del: inner_values.simps
        split: list.splits if_splits option.splits dest: fragment_inner)
qed

definition reachable_nodes :: "schema_view \<Rightarrow> (string \<times> json) set" where
  "reachable_nodes w = ({vw_path w, norm_path (vw_path w)} \<union> set (keys (vw_resources w))) \<times>
     (set (inner_values (vw_node w)) \<union> (\<Union>file \<in> insert (vw_root w) (snd ` set (vw_resources w)). set (inner_values (JObj file))))"

lemma finite_reachable: "finite (reachable_nodes w)"
  by (auto simp: reachable_nodes_def)

lemma ref_target_reachable: "ref_target unq w r = Some w' \<Longrightarrow> reachable_nodes w' \<subseteq> reachable_nodes w"
proof -
  assume t: "ref_target unq w r = Some w'"
  let ?rel = "takeWhile (\<lambda>c. c \<noteq> CHR ''#'') r"
  define path where "path = (if ?rel \<noteq> [] then referenced_path (vw_path w) ?rel else norm_path (vw_path w))"
  from t obtain res where found: "(if ?rel \<noteq> [] then get (vw_resources w) path else Some (vw_root w)) = Some res"
    and node: "resolve_fragment unq res (drop (Suc (length ?rel)) r) = Some (vw_node w')"
    and w': "vw_root w' = res" "vw_path w' = path" "vw_resources w' = vw_resources w"
  proof (cases "if ?rel \<noteq> [] then get (vw_resources w) path else Some (vw_root w)")
    case (Some res)
    from t have "map_option (\<lambda>node. \<lparr>vw_node = node, vw_root = res, vw_path = path, vw_resources = vw_resources w\<rparr>)
        (resolve_fragment unq res (drop (Suc (length ?rel)) r)) = Some w'"
      unfolding ref_target_def Let_def path_def [symmetric] Some by simp
    with Some that [of res] show thesis by auto
  next
    case None
    from t have False unfolding ref_target_def Let_def path_def [symmetric] None by simp
    then show thesis ..
  qed
  have paths: "{vw_path w', norm_path (vw_path w')} \<subseteq> {norm_path (vw_path w)} \<union> set (keys (vw_resources w))"
    using found unfolding w' path_def by (auto simp: referenced_path_def dest: get_Some_key split: if_splits)
  have files: "res \<in> insert (vw_root w) (snd ` set (vw_resources w))"
  proof (cases "?rel = []")
    case False
    with found have "(path, res) \<in> set (vw_resources w)" by (simp add: map_of_SomeD)
    then have "res \<in> snd ` set (vw_resources w)" by (rule image_eqI [rotated]) simp
    then show ?thesis by blast
  qed (use found in simp)
  have "set (inner_values (vw_node w')) \<subseteq> set (inner_values (JObj res))" using resolve_inner [OF node] inner_trans by blast
  with files have "set (inner_values (vw_node w')) \<union> (\<Union>f \<in> insert (vw_root w') (snd ` set (vw_resources w')). set (inner_values (JObj f))) \<subseteq>
      set (inner_values (vw_node w)) \<union> (\<Union>f \<in> insert (vw_root w) (snd ` set (vw_resources w)). set (inner_values (JObj f)))"
    unfolding w' by blast
  moreover have "{vw_path w', norm_path (vw_path w')} \<union> set (keys (vw_resources w')) \<subseteq>
      {vw_path w, norm_path (vw_path w)} \<union> set (keys (vw_resources w))" using paths unfolding w' by blast
  ultimately show ?thesis unfolding reachable_nodes_def by (intro Sigma_mono)
qed

text \<open>\<^verbatim>\<open>SchemaView.resolved\<close>\<close>

function resolved_from :: "(string \<Rightarrow> string) \<Rightarrow> (string \<times> json) list \<Rightarrow> schema_view \<Rightarrow> schema_view" where
  "resolved_from unq seen w =
     (if \<not> is_object (vw_node w) then w
      else if (vw_path w, vw_node w) \<in> set seen then view_unknown w
      else case node_ref (vw_node w) of
          None \<Rightarrow> w
        | Some r \<Rightarrow> (case ref_target unq w r of
             None \<Rightarrow> view_unknown w
           | Some w' \<Rightarrow> resolved_from unq ((vw_path w, vw_node w) # seen) w'))"
  by pat_completeness auto
termination
proof (relation "measure (\<lambda>(unq, seen, w). card (reachable_nodes w - set seen))", goal_cases)
  case (2 unq seen w r w')
  let ?p = "(vw_path w, vw_node w)"
  have "?p \<in> reachable_nodes w" by (simp add: reachable_nodes_def)
  with ref_target_reachable [OF 2(4)] 2(2)
  have "reachable_nodes w' - set (?p # seen) \<subset> reachable_nodes w - set seen" by auto
  with finite_reachable [of w] have "card (reachable_nodes w' - set (?p # seen)) < card (reachable_nodes w - set seen)"
    by (intro psubset_card_mono) auto
  then show ?case by (simp only: in_measure split)
qed simp

declare resolved_from.simps [simp del]

definition view_resolved :: "(string \<Rightarrow> string) \<Rightarrow> schema_view \<Rightarrow> schema_view" where
  "view_resolved unq w = resolved_from unq [] w"

section \<open>Types\<close>

fun json_type :: "json \<Rightarrow> string" where
  "json_type JNull = ''null''"
| "json_type (JBool _) = ''boolean''"
| "json_type (JStr _) = ''string''"
| "json_type (JInt _) = ''integer''"
| "json_type (JFloat _) = ''number''"
| "json_type (JObj _) = ''object''"
| "json_type (JArr _) = ''array''"

definition string_items :: "json list \<Rightarrow> string list" where
  "string_items xs = List.map_filter (\<lambda>x. case x of JStr s \<Rightarrow> Some s | _ \<Rightarrow> None) xs"

text \<open>\<^verbatim>\<open>schema_types\<close> of a resolved node: \<^term>\<open>None\<close> is unknown.\<close>

definition node_types :: "json \<Rightarrow> string set option" where
  "node_types node = (case node of
     JObj ps \<Rightarrow>
       (case get ps ''type'' of
          Some (JStr t) \<Rightarrow> Some {t}
        | Some (JArr ts) \<Rightarrow> Some (set (string_items ts))
        | _ \<Rightarrow>
           (case get ps ''const'' of
              Some c \<Rightarrow> Some {json_type c}
            | None \<Rightarrow>
               (case get ps ''enum'' of
                  Some (JArr es) \<Rightarrow> Some (json_type ` set es)
                | _ \<Rightarrow> None)))
   | _ \<Rightarrow> None)"

definition schema_types :: "(string \<Rightarrow> string) \<Rightarrow> schema_view \<Rightarrow> string set option" where
  "schema_types unq w = node_types (vw_node (view_resolved unq w))"

definition with_integer :: "string set \<Rightarrow> string set" where
  "with_integer T = (if ''number'' \<in> T then insert ''integer'' T else T)"

definition incompatible_types :: "string set option \<Rightarrow> string set option \<Rightarrow> bool" where
  "incompatible_types source target = (case (source, target) of
     (Some S, Some T) \<Rightarrow> with_integer S \<inter> with_integer T = {}
   | _ \<Rightarrow> False)"

section \<open>One token\<close>

definition as_int :: "json option \<Rightarrow> int option" where
  "as_int v = (case v of Some (JInt i) \<Rightarrow> Some i | Some (JBool b) \<Rightarrow> Some (if b then 1 else 0) | _ \<Rightarrow> None)"

text \<open>Python's truth of an optional value, as \<^verbatim>\<open>node.get(key)\<close> is tested.\<close>

fun truthy :: "json option \<Rightarrow> bool" where
  "truthy None = False"
| "truthy (Some JNull) = False"
| "truthy (Some (JBool b)) = b"
| "truthy (Some (JInt i)) = (i \<noteq> 0)"
| "truthy (Some (JFloat x)) = (\<not> pf_eq x (Fin 0))"
| "truthy (Some (JStr s)) = (s \<noteq> [])"
| "truthy (Some (JArr xs)) = (xs \<noteq> [])"
| "truthy (Some (JObj ps)) = (ps \<noteq> [])"

definition APPLICATORS :: "string list" where
  "APPLICATORS = [''allOf'', ''anyOf'', ''oneOf'', ''if'', ''then'', ''else'', ''not'']"

definition MAX_INDEX_DIGITS :: nat where "MAX_INDEX_DIGITS = 18"

definition keyword_or :: "jobj \<Rightarrow> string \<Rightarrow> json \<Rightarrow> json" where
  "keyword_or ps k d = (case get ps k of Some v \<Rightarrow> v | None \<Rightarrow> d)"

text \<open>The schema of one item; \<^term>\<open>None\<close> is a path that is statically impossible.\<close>

definition item_schema :: "jobj \<Rightarrow> string \<Rightarrow> json option" where
  "item_schema ps token =
     (if \<not> index_ok token \<or> MAX_INDEX_DIGITS < length token then None
      else let index = int (parse_nat token) in
        if (case as_int (get ps ''maxItems'') of Some m \<Rightarrow> m \<le> index | None \<Rightarrow> False) then None
        else Some (case get ps ''prefixItems'' of
            Some (JArr prefix) \<Rightarrow> (if index < int (length prefix) then prefix ! parse_nat token
              else keyword_or ps ''items'' (JObj []))
          | _ \<Rightarrow> keyword_or ps ''items'' (JObj [])))"

text \<open>\<^verbatim>\<open>SchemaView.child\<close>\<close>

definition view_child :: "(string \<Rightarrow> string) \<Rightarrow> schema_view \<Rightarrow> string \<Rightarrow> schema_view option" where
  "view_child unq w0 token =
     (let w = view_resolved unq w0; types = node_types (vw_node w);
          found = (\<lambda>child. if child = JBool False then None else Some (view_at w child)) in
      case vw_node w of
        JBool False \<Rightarrow> None
      | JObj ps \<Rightarrow>
          if \<exists>k \<in> set APPLICATORS. get ps k \<noteq> None then Some (view_unknown w)
          else if (case types of Some T \<Rightarrow> T \<inter> {''object'', ''array''} = {} | None \<Rightarrow> False) then None
          else if index_ok token \<and> types \<noteq> Some {''array''} \<and>
            (case types of Some T \<Rightarrow> ''array'' \<in> T | None \<Rightarrow> True) then Some (view_unknown w)
          else if types = Some {''array''}
          then (case item_schema ps token of None \<Rightarrow> None | Some child \<Rightarrow> found child)
          else (case keyword_or ps ''properties'' (JObj []) of
              JObj qs \<Rightarrow>
                (case get qs token of
                   Some child \<Rightarrow> found child
                 | None \<Rightarrow>
                     if truthy (get ps ''patternProperties'') \<or> (types \<noteq> None \<and> types \<noteq> Some {''object''})
                     then Some (view_unknown w)
                     else found (keyword_or ps ''additionalProperties'' (JObj [])))
            | _ \<Rightarrow>
                if truthy (get ps ''patternProperties'') \<or> (types \<noteq> None \<and> types \<noteq> Some {''object''})
                then Some (view_unknown w)
                else found (keyword_or ps ''additionalProperties'' (JObj [])))
      | _ \<Rightarrow> Some (view_unknown w))"

text \<open>\<^verbatim>\<open>SchemaView.pointer\<close>\<close>

fun view_pointer :: "(string \<Rightarrow> string) \<Rightarrow> schema_view option \<Rightarrow> string list \<Rightarrow> schema_view option" where
  "view_pointer unq None ts = None"
| "view_pointer unq (Some w) [] = Some w"
| "view_pointer unq (Some w) (t # ts) = view_pointer unq (view_child unq w t) ts"

section \<open>The validator\<close>

text \<open>The JSON types of a value; an integral float is an integer to a schema.\<close>

definition has_type :: "string \<Rightarrow> json \<Rightarrow> bool" where
  "has_type t v \<longleftrightarrow> (case v of
     JInt _ \<Rightarrow> t = ''integer'' \<or> t = ''number''
   | JFloat x \<Rightarrow> t = ''number'' \<or> (t = ''integer'' \<and> (case x of Fin q \<Rightarrow> q \<in> \<int> | _ \<Rightarrow> False))
   | _ \<Rightarrow> t = json_type v)"

text \<open>
  The assertions of one node about a value, over the validity of other nodes: the keywords
  the static analysis reads, as JSON Schema documents them. \<^verbatim>\<open>properties\<close>,
  \<^verbatim>\<open>additionalProperties\<close>, \<^verbatim>\<open>prefixItems\<close> and \<^verbatim>\<open>items\<close> constrain the children that exist.
\<close>

definition asserts_type :: "jobj \<Rightarrow> json \<Rightarrow> bool" where
  "asserts_type ps v \<longleftrightarrow>
     (\<forall>t. get ps ''type'' = Some (JStr t) \<longrightarrow> has_type t v) \<and>
     (\<forall>ts. get ps ''type'' = Some (JArr ts) \<longrightarrow> (\<exists>t \<in> set (string_items ts). has_type t v)) \<and>
     (\<forall>c. get ps ''const'' = Some c \<longrightarrow> json_equal v c) \<and>
     (\<forall>es. get ps ''enum'' = Some (JArr es) \<longrightarrow> (\<exists>e \<in> set es. json_equal v e)) \<and>
     (\<forall>m p q. get ps ''minimum'' = Some m \<longrightarrow> number_of m = Some (Fin p) \<longrightarrow> number_of v = Some (Fin q) \<longrightarrow> p \<le> q)"

definition asserts_branch :: "(json \<Rightarrow> json \<Rightarrow> bool) \<Rightarrow> jobj \<Rightarrow> json \<Rightarrow> bool" where
  "asserts_branch valid ps v \<longleftrightarrow>
     (\<forall>bs. get ps ''anyOf'' = Some (JArr bs) \<longrightarrow> (\<exists>b \<in> set bs. valid b v)) \<and>
     (\<forall>bs. get ps ''oneOf'' = Some (JArr bs) \<longrightarrow> (\<exists>b \<in> set bs. valid b v))"

definition property_names :: "jobj \<Rightarrow> string list" where
  "property_names ps = (case get ps ''properties'' of Some (JObj qs) \<Rightarrow> keys qs | _ \<Rightarrow> [])"

definition asserts_properties :: "(json \<Rightarrow> json \<Rightarrow> bool) \<Rightarrow> jobj \<Rightarrow> jobj \<Rightarrow> bool" where
  "asserts_properties valid ps os \<longleftrightarrow>
     (\<forall>k x. get os k = Some x \<longrightarrow>
        (\<forall>qs s. get ps ''properties'' = Some (JObj qs) \<longrightarrow> get qs k = Some s \<longrightarrow> valid s x) \<and>
        (\<forall>s. get ps ''additionalProperties'' = Some s \<longrightarrow> k \<notin> set (property_names ps) \<longrightarrow>
           \<not> truthy (get ps ''patternProperties'') \<longrightarrow> valid s x)) \<and>
     (\<forall>ts. get ps ''required'' = Some (JArr ts) \<longrightarrow> (\<forall>t \<in> set (string_items ts). get os t \<noteq> None))"

definition asserts_items :: "(json \<Rightarrow> json \<Rightarrow> bool) \<Rightarrow> jobj \<Rightarrow> json list \<Rightarrow> bool" where
  "asserts_items valid ps xs \<longleftrightarrow>
     (\<forall>m. as_int (get ps ''maxItems'') = Some m \<longrightarrow> int (length xs) \<le> m) \<and>
     (\<forall>i < length xs. case get ps ''prefixItems'' of
        Some (JArr prefix) \<Rightarrow>
          (if i < length prefix then valid (prefix ! i) (xs ! i)
           else (\<forall>s. get ps ''items'' = Some s \<longrightarrow> valid s (xs ! i)))
      | _ \<Rightarrow> (\<forall>s. get ps ''items'' = Some s \<longrightarrow> valid s (xs ! i)))"

definition asserts :: "(json \<Rightarrow> json \<Rightarrow> bool) \<Rightarrow> jobj \<Rightarrow> json \<Rightarrow> bool" where
  "asserts valid ps v \<longleftrightarrow> asserts_type ps v \<and> asserts_branch valid ps v \<and>
     (case v of JObj os \<Rightarrow> asserts_properties valid ps os | JArr xs \<Rightarrow> asserts_items valid ps xs | _ \<Rightarrow> True)"

text \<open>
  What the compiler relies on of the JSON Schema validator of the engine: schemas are JSON
  documents, \<^verbatim>\<open>false\<close> accepts nothing, a reference implies its target, a valid value satisfies
  the assertions of its node, and a node of these keywords alone asserts nothing else.
\<close>

definition PLAIN_KEYWORDS :: "string list" where
  "PLAIN_KEYWORDS = [''type'', ''const'', ''enum'', ''anyOf'', ''properties'', ''additionalProperties'', ''items'',
     ''minimum'', ''required'']"

locale schema_validator =
  fixes unq :: "string \<Rightarrow> string" and valid :: "schema_view \<Rightarrow> json \<Rightarrow> bool"
  assumes document: "valid w v \<Longrightarrow> json_wf (vw_node w)"
    and false_schema: "vw_node w = JBool False \<Longrightarrow> \<not> valid w v"
    and reference: "valid w v \<Longrightarrow> node_ref (vw_node w) = Some r \<Longrightarrow> ref_target unq w r = Some w' \<Longrightarrow> valid w' v"
    and assertions: "valid w v \<Longrightarrow> vw_node w = JObj ps \<Longrightarrow> asserts (\<lambda>node. valid (view_at w node)) ps v"
    and complete: "vw_node w = JObj ps \<Longrightarrow> json_wf (JObj ps) \<Longrightarrow> set (keys ps) \<subseteq> set PLAIN_KEYWORDS \<Longrightarrow>
      asserts (\<lambda>node. valid (view_at w node)) ps v \<Longrightarrow> valid w v"
begin

lemma empty_schema: "vw_node w = JObj [] \<Longrightarrow> valid w v"
  by (rule complete [of w "[]"])
    (auto simp: asserts_def asserts_type_def asserts_branch_def asserts_properties_def asserts_items_def as_int_def
      split: json.split)

lemma valid_unknown: "valid (view_unknown w) v"
  by (rule empty_schema) (simp add: view_unknown_def view_at_def)

lemma valid_resolved: "valid w v \<Longrightarrow> valid (view_resolved unq w) v"
proof -
  have "u = unq \<Longrightarrow> valid w v \<Longrightarrow> valid (resolved_from u seen w) v" for u seen
  proof (induction u seen w rule: resolved_from.induct)
    case (1 u seen w)
    show ?case
    proof (cases "is_object (vw_node w) \<and> (vw_path w, vw_node w) \<notin> set seen \<and> node_ref (vw_node w) \<noteq> None")
      case True
      then obtain r where r: "node_ref (vw_node w) = Some r" by blast
      show ?thesis
      proof (cases "ref_target u w r")
        case None
        with True r show ?thesis by (subst resolved_from.simps) (simp add: valid_unknown)
      next
        case (Some w')
        with reference [OF 1(3) r] 1(2) have "valid w' v" by simp
        with 1(1) [OF _ _ r Some 1(2)] True r Some show ?thesis by (subst resolved_from.simps) simp
      qed
    qed (subst resolved_from.simps, use 1(3) in \<open>auto simp: valid_unknown split: option.split\<close>)
  qed
  then show "valid w v \<Longrightarrow> valid (view_resolved unq w) v" by (simp add: view_resolved_def)
qed

end

section \<open>Soundness of types\<close>

text \<open>A value whose type is listed; numbers of either kind count as each other.\<close>

definition type_in :: "string set \<Rightarrow> json \<Rightarrow> bool" where
  "type_in T v \<longleftrightarrow> json_type v \<in> T \<or>
     (json_type v \<in> {''integer'', ''number''} \<and> T \<inter> {''integer'', ''number''} \<noteq> {})"

lemma has_type_in: "has_type t v \<Longrightarrow> t \<in> T \<Longrightarrow> type_in T v"
  by (cases v) (auto simp: has_type_def type_in_def)

lemma json_equal_type: "json_equal v c \<Longrightarrow> json_type c \<in> T \<Longrightarrow> type_in T v"
  by (cases v; cases c) (auto simp: type_in_def)

context schema_validator
begin

lemma node_types_sound:
  assumes "valid w v" "node_types (vw_node w) = Some T"
  shows "type_in T v"
proof -
  from assms(2) obtain ps where ps: "vw_node w = JObj ps" by (auto simp: node_types_def split: json.splits)
  have a: "asserts_type ps v" using assertions [OF assms(1) ps] by (simp add: asserts_def)
  have type: "type_in T v" if "get ps ''type'' = Some (JStr t)" for t
    using a that assms(2) ps has_type_in [of t v T] by (auto simp: asserts_type_def node_types_def)
  have types: "type_in T v" if "get ps ''type'' = Some (JArr ts)" for ts
    using a that assms(2) ps has_type_in [of _ v T] by (auto simp: asserts_type_def node_types_def)
  have const: "type_in T v" if "get ps ''const'' = Some c" "T = {json_type c}" for c
    using a that json_equal_type [of v c T] by (simp add: asserts_type_def)
  have enum: "type_in T v" if "get ps ''enum'' = Some (JArr es)" "T = json_type ` set es" for es
    using a that json_equal_type [of v _ T] by (auto simp: asserts_type_def)
  show ?thesis
    using assms(2) ps type types const enum
    by (auto simp: node_types_def split: option.splits json.splits)
qed

lemma schema_types_sound: "valid w v \<Longrightarrow> schema_types unq w = Some T \<Longrightarrow> type_in T v"
  unfolding schema_types_def by (rule node_types_sound [OF valid_resolved])

end

section \<open>Soundness of selection\<close>

text \<open>Arrays have fewer elements than an index of the maximal length can name.\<close>

definition MAX_ARRAY :: nat where "MAX_ARRAY = 10 ^ 18"

definition short_array :: "json \<Rightarrow> bool" where
  "short_array v \<longleftrightarrow> (case v of JArr xs \<Rightarrow> length xs < MAX_ARRAY | _ \<Rightarrow> True)"

lemma digits_rev_length: "n < 10 ^ Suc k \<Longrightarrow> length (digits_rev n) \<le> Suc k"
proof (induction k arbitrary: n)
  case 0
  then show ?case by (simp add: digits_rev.simps)
next
  case (Suc k)
  have "n div 10 < 10 ^ Suc k" using Suc.prems by (simp add: less_mult_imp_div_less mult.commute)
  from Suc.IH [OF this] show ?case by (subst digits_rev.simps) simp
qed

lemma short_index:
  assumes "index_ok t" "parse_nat t < n" "n < MAX_ARRAY"
  shows "length t \<le> MAX_INDEX_DIGITS"
proof -
  have "length t = length (nat_text (parse_nat t))" by (simp add: index_text [OF assms(1)])
  moreover have "length (nat_text m) \<le> 18" if "m < MAX_ARRAY" for m
    using digits_rev_length [of m 17] that by (simp add: nat_text_def MAX_ARRAY_def)
  ultimately show ?thesis using assms(2,3) by (simp add: MAX_INDEX_DIGITS_def)
qed

context schema_validator
begin

lemma property_sound:
  assumes "asserts_properties (\<lambda>node. valid (view_at w node)) ps os" "get os t = Some x"
    and "vw_node w = JObj ps"
  shows "get ps ''properties'' = Some (JObj qs) \<Longrightarrow> get qs t = Some s \<Longrightarrow> valid (view_at w s) x"
    and "t \<notin> set (property_names ps) \<Longrightarrow> \<not> truthy (get ps ''patternProperties'') \<Longrightarrow>
      valid (view_at w (keyword_or ps ''additionalProperties'' (JObj []))) x"
proof -
  note a = assms(1) [unfolded asserts_properties_def, THEN conjunct1, rule_format, OF assms(2)]
  show "get ps ''properties'' = Some (JObj qs) \<Longrightarrow> get qs t = Some s \<Longrightarrow> valid (view_at w s) x"
    using a by blast
  show "valid (view_at w (keyword_or ps ''additionalProperties'' (JObj []))) x"
    if "t \<notin> set (property_names ps)" "\<not> truthy (get ps ''patternProperties'')"
    using a that by (auto simp: keyword_or_def view_at_def intro: empty_schema split: option.split)
qed

lemma item_sound:
  assumes "asserts_items (\<lambda>node. valid (view_at w node)) ps xs" "length xs < MAX_ARRAY"
    and "index_ok t" "parse_nat t < length xs"
  shows "\<exists>s. item_schema ps t = Some s \<and> valid (view_at w s) (xs ! parse_nat t)"
proof -
  have short: "length t \<le> MAX_INDEX_DIGITS" by (rule short_index [OF assms(3,4,2)])
  have max: "m > int (parse_nat t)" if "as_int (get ps ''maxItems'') = Some m" for m
    using assms(1,4) that unfolding asserts_items_def by fastforce
  have items: "valid (view_at w (keyword_or ps ''items'' (JObj []))) (xs ! parse_nat t)"
    if "\<forall>s. get ps ''items'' = Some s \<longrightarrow> valid (view_at w s) (xs ! parse_nat t)"
    using that by (auto simp: keyword_or_def view_at_def intro: empty_schema split: option.split)
  have "case get ps ''prefixItems'' of
        Some (JArr prefix) \<Rightarrow>
          (if parse_nat t < length prefix then valid (view_at w (prefix ! parse_nat t)) (xs ! parse_nat t)
           else (\<forall>s. get ps ''items'' = Some s \<longrightarrow> valid (view_at w s) (xs ! parse_nat t)))
      | _ \<Rightarrow> (\<forall>s. get ps ''items'' = Some s \<longrightarrow> valid (view_at w s) (xs ! parse_nat t))"
    using assms(1,4) unfolding asserts_items_def by blast
  with short max items assms(3) show ?thesis
    unfolding item_schema_def Let_def
    by (auto split: option.splits json.splits if_splits dest: max)
qed

lemma found_valid:
  "valid (view_at w s) x \<Longrightarrow>
     \<exists>w'. (if s = JBool False then None else Some (view_at w s)) = Some w' \<and> valid w' x"
  using false_schema [of "view_at w (JBool False)" x] by (auto simp: view_at_def)

text \<open>A child that exists is described by the view the analysis selects for it.\<close>

lemma child_sound:
  assumes v: "valid w0 v" and x: "lookup_token t v = Some x" and short: "short_array v"
  shows "\<exists>w'. view_child unq w0 t = Some w' \<and> valid w' x"
proof -
  define w where "w = view_resolved unq w0"
  have valid: "valid w v" unfolding w_def by (rule valid_resolved [OF v])
  have type: "type_in T v" if "node_types (vw_node w) = Some T" for T
    by (rule node_types_sound [OF valid that])
  have container: "json_type v = ''object'' \<or> json_type v = ''array''"
    using x by (auto simp: lookup_token_def split: json.splits)
  have unknown: "\<exists>w'. Some (view_unknown w) = Some w' \<and> valid w' x" using valid_unknown by blast
  show ?thesis
  proof (cases "vw_node w")
    case (JBool b)
    with valid false_schema have b by (cases b) auto
    with JBool unknown show ?thesis by (simp add: view_child_def w_def Let_def)
  next
    case (JObj ps)
    let ?types = "node_types (vw_node w)"
    have a: "asserts (\<lambda>node. valid (view_at w node)) ps v" by (rule assertions [OF valid JObj])
    show ?thesis
    proof (cases "(\<exists>k \<in> set APPLICATORS. get ps k \<noteq> None) \<or>
        (index_ok t \<and> ?types \<noteq> Some {''array''} \<and> (case ?types of Some T \<Rightarrow> ''array'' \<in> T | None \<Rightarrow> True))")
      case True
      have "\<not> (case ?types of Some T \<Rightarrow> T \<inter> {''object'', ''array''} = {} | None \<Rightarrow> False)"
        using type container by (auto simp: type_in_def split: option.split)
      with True JObj unknown show ?thesis unfolding view_child_def w_def [symmetric] Let_def by auto
    next
      case False
      have some: "\<not> (case ?types of Some T \<Rightarrow> T \<inter> {''object'', ''array''} = {} | None \<Rightarrow> False)"
        using type container by (auto simp: type_in_def split: option.split)
      show ?thesis
      proof (cases v)
        case (JArr xs)
        with x have t: "index_ok t" "parse_nat t < length xs" "x = xs ! parse_nat t"
          by (auto simp: lookup_token_def split: if_splits)
        have "case ?types of Some T \<Rightarrow> ''array'' \<in> T | None \<Rightarrow> True"
          using type JArr by (auto simp: type_in_def split: option.split)
        with False t(1) have arr: "?types = Some {''array''}" by auto
        have "asserts_items (\<lambda>node. valid (view_at w node)) ps xs" using a JArr by (simp add: asserts_def)
        from item_sound [OF this _ t(1,2)] short JArr obtain s where
          s: "item_schema ps t = Some s" "valid (view_at w s) x" by (auto simp: short_array_def t(3))
        from found_valid [OF s(2)] s(1) arr JObj False show ?thesis
          unfolding view_child_def w_def [symmetric] Let_def by (auto simp: APPLICATORS_def)
      next
        case (JObj os)
        with x have os: "get os t = Some x" by (simp add: lookup_token_def)
        have "''object'' \<in> T" if "?types = Some T" for T
          using type [OF that] JObj by (simp add: type_in_def)
        then have not_array: "?types \<noteq> Some {''array''}" by fastforce
        have props: "asserts_properties (\<lambda>node. valid (view_at w node)) ps os" using a JObj by (simp add: asserts_def)
        note property = property_sound [OF props os \<open>vw_node w = JObj ps\<close>]
        let ?rest = "if truthy (get ps ''patternProperties'') \<or> (?types \<noteq> None \<and> ?types \<noteq> Some {''object''})
             then Some (view_unknown w)
             else (if keyword_or ps ''additionalProperties'' (JObj []) = JBool False then None
               else Some (view_at w (keyword_or ps ''additionalProperties'' (JObj []))))"
        have rest: "\<exists>w'. ?rest = Some w' \<and> valid w' x" if "t \<notin> set (property_names ps)"
          using found_valid [OF property(2) [OF that]] unknown by auto
        have "view_child unq w0 t = (case keyword_or ps ''properties'' (JObj []) of
              JObj qs \<Rightarrow> (case get qs t of
                   Some s \<Rightarrow> (if s = JBool False then None else Some (view_at w s))
                 | None \<Rightarrow> ?rest)
            | _ \<Rightarrow> ?rest)"
          using False some not_array \<open>vw_node w = JObj ps\<close>
          unfolding view_child_def w_def [symmetric] Let_def by (simp split del: if_split) auto
        moreover have "\<exists>w'. (case keyword_or ps ''properties'' (JObj []) of
              JObj qs \<Rightarrow> (case get qs t of
                   Some s \<Rightarrow> (if s = JBool False then None else Some (view_at w s))
                 | None \<Rightarrow> ?rest)
            | _ \<Rightarrow> ?rest) = Some w' \<and> valid w' x"
        proof (cases "get ps ''properties''")
          case None
          then have "t \<notin> set (property_names ps)" by (simp add: property_names_def)
          from rest [OF this] None show ?thesis by (simp add: keyword_or_def split del: if_split)
        next
          case (Some pv)
          show ?thesis
          proof (cases pv)
            case (JObj qs)
            show ?thesis
            proof (cases "get qs t")
              case None
              then have "t \<notin> set (property_names ps)" using Some JObj by (simp add: property_names_def get_None_iff)
              from rest [OF this] None Some JObj show ?thesis by (simp add: keyword_or_def split del: if_split)
            next
              case s: (Some s)
              from found_valid [OF property(1) [OF Some [unfolded JObj] s]] Some JObj s
              show ?thesis by (simp add: keyword_or_def split del: if_split)
            qed
          qed (use rest Some in \<open>simp_all add: keyword_or_def property_names_def split del: if_split\<close>)
        qed
        ultimately show ?thesis by simp
      qed (use x in \<open>simp_all add: lookup_token_def\<close>)
    qed
  qed (use unknown in \<open>simp_all add: view_child_def w_def Let_def\<close>)
qed

end

section \<open>A validator of the keywords\<close>

text \<open>
  The keywords above define a validator: the greatest predicate that satisfies them. It
  shows that the interface can be implemented, recursive schemas included.
\<close>

lemma asserts_mono [mono]:
  "(\<And>node v. V node v \<longrightarrow> V' node v) \<Longrightarrow> asserts V ps v \<longrightarrow> asserts V' ps v"
proof
  assume V: "\<And>node v. V node v \<longrightarrow> V' node v" and a: "asserts V ps v"
  have "asserts_branch V' ps v" using a V unfolding asserts_def asserts_branch_def by blast
  moreover have "asserts_properties V' ps os" if "asserts_properties V ps os" for os
    using that V unfolding asserts_properties_def by blast
  moreover have "asserts_items V' ps xs" if "asserts_items V ps xs" for xs
  proof (cases "get ps ''prefixItems''")
    case (Some pv)
    with that V show ?thesis unfolding asserts_items_def by (cases pv) auto
  qed (use that V in \<open>auto simp: asserts_items_def\<close>)
  ultimately show "asserts V' ps v" using a by (auto simp: asserts_def split: json.splits)
qed

coinductive keyword_valid :: "(string \<Rightarrow> string) \<Rightarrow> schema_view \<Rightarrow> json \<Rightarrow> bool" for unq where
  keyword_validI: "json_wf (vw_node w) \<Longrightarrow> vw_node w \<noteq> JBool False \<Longrightarrow>
    (\<And>r w'. node_ref (vw_node w) = Some r \<Longrightarrow> ref_target unq w r = Some w' \<Longrightarrow> keyword_valid unq w' v) \<Longrightarrow>
    (\<And>ps. vw_node w = JObj ps \<Longrightarrow> asserts (\<lambda>node v. keyword_valid unq (view_at w node) v) ps v) \<Longrightarrow>
    keyword_valid unq w v"

interpretation by_keywords: schema_validator unq "keyword_valid unq" for unq
proof (unfold_locales, goal_cases)
  case (5 w ps v)
  have "''$ref'' \<notin> set (keys ps)" using 5(3) by (auto simp: PLAIN_KEYWORDS_def)
  then have "get ps ''$ref'' = None" by (simp add: get_None_iff)
  with 5(1) have no_ref: "node_ref (vw_node w) = None" by (simp add: node_ref_def)
  show ?case
  proof (rule keyword_validI)
    show "json_wf (vw_node w)" "vw_node w \<noteq> JBool False" using 5(1,2) by simp_all
    show "asserts (\<lambda>node v. keyword_valid unq (view_at w node) v) qs v" if "vw_node w = JObj qs" for qs
      using 5(1,4) that by simp
  qed (simp add: no_ref)
qed (auto elim: keyword_valid.cases)

end
