(* ===== verification/StaticValues.thy ===== *)
theory StaticValues imports StaticSchema begin

text \<open>
  \<^verbatim>\<open>compiler/static_values.py\<close>: the values a pointer may select at run time as a union of
  schema nodes, authored constants, projected objects and arrays; the selection of tokens, the
  types, and the enumerable values under their canonical keys. The concretization \<^verbatim>\<open>admits\<close>
  says which values a static value stands for, over any validator of schemas; the operations
  are sound for it.
\<close>

section \<open>Canonical keys\<close>

text \<open>
  \<^verbatim>\<open>_key\<close>: the text of \<^verbatim>\<open>json.dumps\<close> with sorted keys determines its value and is determined
  by it, so the canonical value with sorted keys stands for the text.
\<close>

fun json_key :: "json \<Rightarrow> json" where
  "json_key (JFloat x) = (case x of
     Fin q \<Rightarrow> if q \<in> \<int> then JInt \<lfloor>q\<rfloor> else JFloat x | _ \<Rightarrow> JFloat x)"
| "json_key (JArr xs) = JArr (map json_key xs)"
| "json_key (JObj ps) = JObj (sort_key fst (map (\<lambda>p. (fst p, json_key (snd p))) ps))"
| "json_key v = v"

lemma sorted_dict_eq:
  fixes ps qs :: "(string \<times> 'a) list"
  assumes "sorted (keys ps)" "sorted (keys qs)" "dict_wf ps" "dict_wf qs" "map_of ps = map_of qs"
  shows "ps = qs"
proof -
  have "set (keys ps) = set (keys qs)"
    using assms(5) by (metis dom_map_of_conv_image_fst set_map)
  with assms(1-4) have k: "keys ps = keys qs" by (metis sorted_distinct_set_unique)
  show ?thesis
  proof (rule nth_equalityI)
    show "length ps = length qs" using k by (metis length_map)
    fix i assume i: "i < length ps"
    with k have i': "i < length qs" by (metis length_map)
    have "fst (ps ! i) = fst (qs ! i)" using k i i' by (metis nth_map)
    moreover have "get ps (fst (ps ! i)) = Some (snd (ps ! i))" "get qs (fst (qs ! i)) = Some (snd (qs ! i))"
      using assms(3,4) i i' by simp_all
    ultimately show "ps ! i = qs ! i" using assms(5) by (metis option.inject prod.collapse)
  qed
qed

lemma dict_wf_sort: "dict_wf ps \<Longrightarrow> dict_wf (sort_key fst ps)"
  for ps :: "(string \<times> 'a) list"
  by (simp add: distinct_map)

lemma get_sorted_dict: "dict_wf ps \<Longrightarrow> get (sort_key fst ps) k = get ps k"
  for ps :: "(string \<times> 'a) list"
  using map_of_eq_Some_iff [of "sort_key fst ps"] map_of_eq_Some_iff [of ps] dict_wf_sort [of ps]
  by (metis option.exhaust set_sort)

lemma sort_key_dict_eq:
  fixes ps qs :: "(string \<times> 'a) list"
  assumes "dict_wf ps" "dict_wf qs"
  shows "sort_key fst ps = sort_key fst qs \<longleftrightarrow> (\<forall>k. get ps k = get qs k)"
proof
  show "sort_key fst ps = sort_key fst qs \<Longrightarrow> \<forall>k. get ps k = get qs k"
    using get_sorted_dict assms by metis
  show "sort_key fst ps = sort_key fst qs" if "\<forall>k. get ps k = get qs k"
    by (rule sorted_dict_eq) (use that assms in \<open>simp_all add: dict_wf_sort get_sorted_dict fun_eq_iff\<close>)
qed

lemma get_map_values: "get (map (\<lambda>p. (fst p, g (snd p))) ps) k = map_option g (get ps k)"
  by (induction ps) auto

definition number_key :: "pfloat \<Rightarrow> json" where
  "number_key x = json_key (JFloat x)"

lemma json_key_int: "JInt i = number_key (Fin (of_int i))"
  by (simp add: number_key_def)

lemma number_key_eq: "number_key (Fin p) = number_key (Fin q) \<longleftrightarrow> p = q"
  by (auto simp: number_key_def elim!: Ints_cases split: if_splits)

lemma number_keys: "number_of v = Some (Fin q) \<Longrightarrow> json_key v = number_key (Fin q)"
  by (cases v) (auto simp: number_key_def)

text \<open>The key of a number is a number.\<close>

lemma json_key_number: "number_of (json_key v) = None \<longleftrightarrow> number_of v = None"
  by (cases v) (auto split: pfloat.split)

lemma number_wf: "json_wf v \<Longrightarrow> number_of v = Some x \<Longrightarrow> \<exists>q. x = Fin q"
  by (cases v) (auto split: pfloat.splits)

lemma json_key_equal: "json_wf a \<Longrightarrow> json_wf b \<Longrightarrow> json_key a = json_key b \<longleftrightarrow> json_equal a b"
proof (induction a arbitrary: b)
  have num: "json_key a = json_key b \<longleftrightarrow> json_equal a b"
    if "number_of a = Some (Fin p)" "json_wf b" for a b p
  proof (cases "number_of b")
    case None
    with that json_key_number [of b] json_key_number [of a] have "json_key a \<noteq> json_key b" by auto
    moreover have "\<not> json_equal a b" using that None by (cases a) auto
    ultimately show ?thesis by simp
  next
    case (Some y)
    with that(2) number_wf obtain q where q: "number_of b = Some (Fin q)" by blast
    have "json_equal a b \<longleftrightarrow> p = q" using that q by (cases a) auto
    with number_keys [OF that(1)] number_keys [OF q] number_key_eq show ?thesis by simp
  qed
  {
    case (JInt i)
    with num [of "JInt i"] show ?case by simp
  next
    case (JFloat x)
    then obtain q where "x = Fin q" by (auto split: pfloat.splits)
    with num [of "JFloat x" q] JFloat(2) show ?case by simp
  next
    case (JArr xs)
    show ?case
    proof (cases b)
      case b: (JArr ys)
      have each: "json_key (xs ! i) = json_key (ys ! i) \<longleftrightarrow> json_equal (xs ! i) (ys ! i)"
        if "i < length xs" "length xs = length ys" for i
        using JArr that b by (auto simp: list_all_length)
      have "json_key (JArr xs) = json_key b \<longleftrightarrow> length xs = length ys \<and> (\<forall>i < length xs. json_key (xs ! i) = json_key (ys ! i))"
        unfolding b by (auto simp: list_eq_iff_nth_eq)
      with each show ?thesis unfolding b json_equal_arr_iff by metis
    qed (auto split: pfloat.split)
  next
    case (JObj ps)
    show ?case
    proof (cases b)
      case b: (JObj qs)
      let ?k = "\<lambda>ps. map (\<lambda>p. (fst p, json_key (snd p))) ps"
      have wf: "dict_wf ps" "dict_wf qs" using JObj.prems b by simp_all
      have each: "json_key x = json_key y \<longleftrightarrow> json_equal x y" if "get ps k = Some x" "get qs k = Some y" for k x y
      proof -
        from that have "(k, x) \<in> set ps" "(k, y) \<in> set qs" by (simp_all add: map_of_SomeD)
        with JObj.prems b have "json_wf x" "json_wf y" by (auto simp: list_all_iff)
        with JObj.IH [of "(k, x)" x y] \<open>(k, x) \<in> set ps\<close> show ?thesis by (simp add: snds.simps)
      qed
      have "json_key (JObj ps) = json_key b \<longleftrightarrow> (\<forall>k. get (?k ps) k = get (?k qs) k)"
        unfolding b using sort_key_dict_eq [of "?k ps" "?k qs"] wf by (simp add: comp_def)
      also have "\<dots> \<longleftrightarrow> (\<forall>k. map_option json_key (get ps k) = map_option json_key (get qs k))"
        by (simp add: get_map_values)
      also have "\<dots> \<longleftrightarrow> (\<forall>k. (get ps k = None) = (get qs k = None) \<and>
          (\<forall>x y. get ps k = Some x \<longrightarrow> get qs k = Some y \<longrightarrow> json_equal x y))"
      proof (rule all_cong1)
        fix k
        show "map_option json_key (get ps k) = map_option json_key (get qs k) \<longleftrightarrow>
            (get ps k = None) = (get qs k = None) \<and> (\<forall>x y. get ps k = Some x \<longrightarrow> get qs k = Some y \<longrightarrow> json_equal x y)"
          using each [of k] by (cases "get ps k"; cases "get qs k") auto
      qed
      also have "\<dots> \<longleftrightarrow> json_equal (JObj ps) b"
      proof -
        have "set (keys ps) = set (keys qs) \<longleftrightarrow> (\<forall>k. (get ps k = None) = (get qs k = None))"
          by (auto simp: get_None_iff)
        moreover have "(\<forall>p \<in> set ps. \<exists>w. get qs (fst p) = Some w \<and> json_equal (snd p) w) \<longleftrightarrow>
            (\<forall>k x y. get ps k = Some x \<longrightarrow> get qs k = Some y \<longrightarrow> json_equal x y)"
          if "\<forall>k. (get ps k = None) = (get qs k = None)"
        proof
          assume all: "\<forall>p \<in> set ps. \<exists>w. get qs (fst p) = Some w \<and> json_equal (snd p) w"
          show "\<forall>k x y. get ps k = Some x \<longrightarrow> get qs k = Some y \<longrightarrow> json_equal x y"
            using all by (fastforce dest: map_of_SomeD)
        next
          assume all: "\<forall>k x y. get ps k = Some x \<longrightarrow> get qs k = Some y \<longrightarrow> json_equal x y"
          show "\<forall>p \<in> set ps. \<exists>w. get qs (fst p) = Some w \<and> json_equal (snd p) w"
          proof
            fix p assume "p \<in> set ps"
            with wf(1) have "get ps (fst p) = Some (snd p)" by simp
            with all that show "\<exists>w. get qs (fst p) = Some w \<and> json_equal (snd p) w" by (metis not_None_eq)
          qed
        qed
        ultimately show ?thesis unfolding b json_equal_obj_iff by blast
      qed
      finally show ?thesis .
    qed (auto split: pfloat.split)
  }
qed (auto split: pfloat.splits json.splits)

section \<open>Static values\<close>

datatype static = Static
  (sv_alternatives: "alternative list")
  (sv_absent: bool)
  (sv_missing: bool)
and alternative =
    SchemaAlt schema_view
  | Const json
  | ObjAlt "(string \<times> static) list"
  | ArrAlt static

definition impossible :: "static \<Rightarrow> bool" where
  "impossible s \<longleftrightarrow> sv_alternatives s = []"

definition static_of :: "alternative list \<Rightarrow> static" where
  "static_of alts = Static alts False False"

text \<open>\<^verbatim>\<open>union\<close>, with the overriding \<^verbatim>\<open>absent\<close>\<close>

definition static_union :: "static list \<Rightarrow> bool option \<Rightarrow> static" where
  "static_union items absent = Static (concat (map sv_alternatives items))
     (case absent of Some b \<Rightarrow> b | None \<Rightarrow> list_ex sv_absent items) (list_ex sv_missing items)"

definition plain_view :: "json \<Rightarrow> string \<Rightarrow> (string, jobj) dict \<Rightarrow> schema_view" where
  "plain_view schema path resources =
     \<lparr>vw_node = schema, vw_root = object_of schema, vw_path = path, vw_resources = resources\<rparr>"

text \<open>\<^verbatim>\<open>_expand\<close>: the branches of \<^verbatim>\<open>anyOf\<close> and \<^verbatim>\<open>oneOf\<close>, to a bounded depth.\<close>

definition MAX_EXPANSION :: nat where "MAX_EXPANSION = 8"

definition branches :: "json \<Rightarrow> json list" where
  "branches node = (case node of
     JObj ps \<Rightarrow>
       (case (case get ps ''anyOf'' of Some b \<Rightarrow> Some b | None \<Rightarrow> get ps ''oneOf'') of
          Some (JArr bs) \<Rightarrow>
            if \<exists>k \<in> set [''properties'', ''items'', ''allOf'', ''not'', ''if'']. get ps k \<noteq> None then [] else bs
        | _ \<Rightarrow> [])
   | _ \<Rightarrow> [])"

fun expand :: "(string \<Rightarrow> string) \<Rightarrow> nat \<Rightarrow> schema_view \<Rightarrow> schema_view list" where
  "expand unq 0 w = [view_resolved unq w]"
| "expand unq (Suc n) w =
     (let r = view_resolved unq w in
      case branches (vw_node r) of
        [] \<Rightarrow> [r]
      | b # bs \<Rightarrow> concat (map (\<lambda>node. expand unq n (view_at r node)) (b # bs)))"

fun expand_alternative :: "(string \<Rightarrow> string) \<Rightarrow> alternative \<Rightarrow> alternative list" where
  "expand_alternative unq (SchemaAlt w) = map SchemaAlt (expand unq MAX_EXPANSION w)"
| "expand_alternative unq a = [a]"

definition alternatives_of :: "(string \<Rightarrow> string) \<Rightarrow> static \<Rightarrow> alternative list" where
  "alternatives_of unq s = concat (map (expand_alternative unq) (sv_alternatives s))"

text \<open>One alternative of \<^verbatim>\<open>child\<close>; a constant list is indexed like a value.\<close>

definition nothing :: "bool \<Rightarrow> static" where
  "nothing missing = Static [] True missing"

definition constant_child :: "json \<Rightarrow> string \<Rightarrow> json option" where
  "constant_child v token = (case v of
     JObj ps \<Rightarrow> get ps token
   | JArr xs \<Rightarrow> if index_ok token \<and> parse_nat token < length xs then Some (xs ! parse_nat token) else None
   | _ \<Rightarrow> None)"

fun alternative_child :: "(string \<Rightarrow> string) \<Rightarrow> alternative \<Rightarrow> string \<Rightarrow> static" where
  "alternative_child unq (SchemaAlt w) token =
     (case view_child unq w token of None \<Rightarrow> nothing False | Some c \<Rightarrow> static_of [SchemaAlt c])"
| "alternative_child unq (Const v) token =
     (case constant_child v token of None \<Rightarrow> nothing True | Some c \<Rightarrow> static_of [Const c])"
| "alternative_child unq (ObjAlt fs) token =
     (case get fs token of None \<Rightarrow> nothing True | Some s \<Rightarrow> s)"
| "alternative_child unq (ArrAlt items) token =
     (if index_ok token then Static (sv_alternatives items) True (token \<noteq> ''0'' \<or> sv_missing items)
      else nothing True)"

definition static_child :: "(string \<Rightarrow> string) \<Rightarrow> static \<Rightarrow> string \<Rightarrow> static" where
  "static_child unq s token =
     (let parts = map (\<lambda>a. alternative_child unq a token) (alternatives_of unq s) in
      Static (concat (map sv_alternatives parts))
        (sv_absent s \<or> list_ex sv_absent parts) (sv_missing s \<or> list_ex sv_missing parts))"

definition static_pointer :: "(string \<Rightarrow> string) \<Rightarrow> static \<Rightarrow> string list \<Rightarrow> static" where
  "static_pointer unq s ts = foldl (static_child unq) s ts"

text \<open>\<^verbatim>\<open>types\<close> and \<^verbatim>\<open>values\<close>: \<^term>\<open>None\<close> is unknown, or not enumerable.\<close>

fun alternative_types :: "(string \<Rightarrow> string) \<Rightarrow> alternative \<Rightarrow> string set option" where
  "alternative_types unq (SchemaAlt w) = schema_types unq w"
| "alternative_types unq (Const v) = Some {json_type v}"
| "alternative_types unq (ObjAlt fs) = Some {''object''}"
| "alternative_types unq (ArrAlt s) = Some {''array''}"

definition all_known :: "'a option list \<Rightarrow> 'a list option" where
  "all_known xs = (if None \<in> set xs then None else Some (map the xs))"

definition static_types :: "(string \<Rightarrow> string) \<Rightarrow> static \<Rightarrow> string set option" where
  "static_types unq s = map_option (\<lambda>Ts. \<Union> (set Ts))
     (all_known (map (alternative_types unq) (alternatives_of unq s)))"

type_synonym keyed = "(json, json) dict"

definition node_values :: "json \<Rightarrow> json list option" where
  "node_values node = (case node of
     JObj ps \<Rightarrow>
       (case get ps ''const'' of
          Some c \<Rightarrow> Some [c]
        | None \<Rightarrow>
           (case get ps ''enum'' of
              Some (JArr es) \<Rightarrow> Some es
            | _ \<Rightarrow>
               (if get ps ''type'' = Some (JStr ''boolean'') then Some [JBool True, JBool False]
                else if get ps ''type'' = Some (JStr ''null'') then Some [JNull]
                else None)))
   | _ \<Rightarrow> None)"

fun alternative_values :: "(string \<Rightarrow> string) \<Rightarrow> alternative \<Rightarrow> json list option" where
  "alternative_values unq (SchemaAlt w) = node_values (vw_node (view_resolved unq w))"
| "alternative_values unq (Const v) = Some [v]"
| "alternative_values unq _ = None"

definition static_values :: "(string \<Rightarrow> string) \<Rightarrow> static \<Rightarrow> keyed option" where
  "static_values unq s = map_option (\<lambda>vs. dict_of (map (\<lambda>v. (json_key v, v)) (concat vs)) [])
     (all_known (map (alternative_values unq) (alternatives_of unq s)))"

text \<open>\<^verbatim>\<open>allows_empty_string\<close>\<close>

definition node_allows_empty :: "string set option \<Rightarrow> json \<Rightarrow> bool" where
  "node_allows_empty types node = (case node of
     JObj ps \<Rightarrow> (case types of Some T \<Rightarrow> ''string'' \<in> T | None \<Rightarrow> False) \<and>
       (\<forall>k \<in> set [''const'', ''enum'', ''pattern'', ''format'']. get ps k = None) \<and>
       (case as_int (get ps ''minLength'') of Some m \<Rightarrow> m < 1 | None \<Rightarrow> True)
   | _ \<Rightarrow> False)"

definition allows_empty_string :: "(string \<Rightarrow> string) \<Rightarrow> static \<Rightarrow> bool" where
  "allows_empty_string unq s \<longleftrightarrow> (\<exists>a \<in> set (alternatives_of unq s). case a of
     Const v \<Rightarrow> v = JStr []
   | SchemaAlt w \<Rightarrow> node_allows_empty (schema_types unq w) (vw_node (view_resolved unq w))
   | _ \<Rightarrow> False)"

section \<open>Concretization\<close>

text \<open>The values a static value stands for: those of one of its alternatives.\<close>

function admits :: "(schema_view \<Rightarrow> json \<Rightarrow> bool) \<Rightarrow> static \<Rightarrow> json \<Rightarrow> bool"
  and admits_alternative :: "(schema_view \<Rightarrow> json \<Rightarrow> bool) \<Rightarrow> alternative \<Rightarrow> json \<Rightarrow> bool"
where
  "admits valid (Static alts absent missing) v = (\<exists>a \<in> set alts. admits_alternative valid a v)"
| "admits_alternative valid (SchemaAlt w) v = valid w v"
| "admits_alternative valid (Const c) v = (v = c)"
| "admits_alternative valid (ObjAlt fs) v = (case v of
     JObj ps \<Rightarrow> (\<forall>k x. get ps k = Some x \<longrightarrow> (\<exists>s \<in> snd ` set fs. get fs k = Some s \<and> admits valid s x))
   | _ \<Rightarrow> False)"
| "admits_alternative valid (ArrAlt s) v = (case v of
     JArr xs \<Rightarrow> (\<forall>x \<in> set xs. admits valid s x)
   | _ \<Rightarrow> False)"
  by pat_completeness auto
termination
proof (relation "measure (case_sum (\<lambda>(_, s, _). size s) (\<lambda>(_, a, _). size a))", goal_cases)
  case (2 valid alts absent missing v a)
  then show ?case by (auto dest: size_list_estimation' [where f = size, OF _ order_refl])
next
  case (3 valid fs v ps k x s)
  then obtain n where "(n, s) \<in> set fs" by auto
  then have "size_prod (\<lambda>_. 0) size (n, s) \<le> size_list (size_prod (\<lambda>_. 0) size) fs"
    by (rule size_list_estimation') simp
  then show ?case by simp
qed auto

lemma admits_iff: "admits valid s v \<longleftrightarrow> (\<exists>a \<in> set (sv_alternatives s). admits_alternative valid a v)"
  by (cases s) simp

lemma admits_object:
  "admits_alternative valid (ObjAlt fs) (JObj ps) \<longleftrightarrow>
     (\<forall>k x. get ps k = Some x \<longrightarrow> (\<exists>s. get fs k = Some s \<and> admits valid s x))"
  by (auto simp: image_iff dest: map_of_SomeD) (metis map_of_SomeD snd_conv)

declare admits.simps [simp del] admits_alternative.simps(3) [simp del]

lemma admits_union: "admits valid (static_union items absent) v \<longleftrightarrow> (\<exists>s \<in> set items. admits valid s v)"
  by (auto simp: admits_iff static_union_def)

lemma all_known_Some: "all_known xs = Some ys \<longleftrightarrow> xs = map Some ys"
proof -
  have "None \<notin> set xs \<Longrightarrow> map (\<lambda>x. Some (the x)) xs = xs" by (induction xs) auto
  then show ?thesis by (auto simp: all_known_def comp_def)
qed

section \<open>Soundness\<close>

context schema_validator
begin

lemma branches_valid:
  assumes "valid w v" "branches (vw_node w) \<noteq> []"
  shows "\<exists>b \<in> set (branches (vw_node w)). valid (view_at w b) v"
proof -
  from assms(2) obtain ps where ps: "vw_node w = JObj ps" by (auto simp: branches_def split: json.splits)
  have a: "asserts_branch (\<lambda>node. valid (view_at w node)) ps v"
    using assertions [OF assms(1) ps] by (simp add: asserts_def)
  from assms(2) ps obtain bs where "get ps ''anyOf'' = Some (JArr bs) \<or> get ps ''oneOf'' = Some (JArr bs)"
    "branches (vw_node w) = bs"
    by (auto simp: branches_def split: option.splits json.splits if_splits)
  with a show ?thesis unfolding asserts_branch_def by blast
qed

lemma expand_sound: "valid w v \<Longrightarrow> \<exists>r \<in> set (expand unq n w). valid r v"
proof (induction n arbitrary: w)
  case 0
  then show ?case by (simp add: valid_resolved)
next
  case (Suc n)
  have r: "valid (view_resolved unq w) v" by (rule valid_resolved [OF Suc.prems])
  show ?case
  proof (cases "branches (vw_node (view_resolved unq w))")
    case Nil
    with r show ?thesis by (simp add: Let_def)
  next
    case (Cons b bs)
    with branches_valid [OF r] obtain node where "node \<in> set (b # bs)" "valid (view_at (view_resolved unq w) node) v"
      by auto
    with Suc.IH [OF this(2)] Cons show ?thesis by (auto simp: Let_def)
  qed
qed

lemma alternatives_sound:
  "admits valid s v \<Longrightarrow> \<exists>a \<in> set (alternatives_of unq s). admits_alternative valid a v"
proof -
  have "\<exists>b \<in> set (expand_alternative unq a). admits_alternative valid b v" if "admits_alternative valid a v" for a
    using that expand_sound [of _ v MAX_EXPANSION] by (cases a) auto
  then show "admits valid s v \<Longrightarrow> ?thesis" unfolding admits_iff alternatives_of_def by fastforce
qed

lemma alternative_child_sound:
  assumes "admits_alternative valid a v" "lookup_token t v = Some x" "short_array v"
  shows "admits valid (alternative_child unq a t) x"
proof (cases a)
  case (SchemaAlt w)
  with assms child_sound [of w v t x] show ?thesis by (auto simp: admits_iff static_of_def)
next
  case (Const c)
  with assms(1) have "v = c" by (simp add: admits_alternative.simps)
  with assms(2) have "constant_child c t = Some x"
    by (auto simp: lookup_token_def constant_child_def split: json.splits if_splits)
  with Const show ?thesis by (simp add: admits_iff static_of_def admits_alternative.simps)
next
  case (ObjAlt fs)
  with assms(1) obtain ps where ps: "v = JObj ps" by (auto simp: admits_alternative.simps(3) split: json.splits)
  with assms(2) have "get ps t = Some x" by (simp add: lookup_token_def)
  with assms(1) ps ObjAlt admits_object obtain s where "get fs t = Some s" "admits valid s x" by blast
  with ObjAlt show ?thesis by simp
next
  case (ArrAlt s)
  with assms(1) obtain xs where xs: "v = JArr xs" "\<forall>x \<in> set xs. admits valid s x" by (auto split: json.splits)
  with assms(2) have "index_ok t" "x \<in> set xs" by (auto simp: lookup_token_def split: if_splits)
  with xs ArrAlt show ?thesis by (simp add: admits_iff)
qed

lemma static_child_sound:
  assumes "admits valid s v" "lookup_token t v = Some x" "short_array v"
  shows "admits valid (static_child unq s t) x"
proof -
  from alternatives_sound [OF assms(1)] obtain a where a: "a \<in> set (alternatives_of unq s)"
    "admits_alternative valid a v" by blast
  from alternative_child_sound [OF a(2) assms(2,3)] a(1) show ?thesis
    by (auto simp: static_child_def Let_def admits_iff)
qed

lemma static_types_sound:
  assumes "admits valid s v" "static_types unq s = Some T"
  shows "type_in T v"
proof -
  from alternatives_sound [OF assms(1)] obtain a where a: "a \<in> set (alternatives_of unq s)"
    "admits_alternative valid a v" by blast
  from assms(2) obtain Ts where Ts: "map (alternative_types unq) (alternatives_of unq s) = map Some Ts" "T = \<Union> (set Ts)"
    by (auto simp: static_types_def all_known_Some)
  from Ts(1) a(1) obtain U where U: "alternative_types unq a = Some U" "U \<in> set Ts"
    by (metis (no_types, lifting) image_iff list.set_map)
  have "type_in U v"
    using a(2) U(1) schema_types_sound [of _ v U]
    by (cases a) (auto simp: type_in_def admits_alternative.simps(3) split: json.splits)
  with U(2) Ts(2) show ?thesis by (auto simp: type_in_def)
qed

lemma node_values_sound:
  assumes "valid w v" "node_values (vw_node w) = Some vs" "json_wf v"
  shows "\<exists>c \<in> set vs. json_key v = json_key c"
proof -
  from assms(2) obtain ps where ps: "vw_node w = JObj ps" by (auto simp: node_values_def split: json.splits)
  have a: "asserts_type ps v" using assertions [OF assms(1) ps] by (simp add: asserts_def)
  have bool: "v = JBool True \<or> v = JBool False" if "get ps ''type'' = Some (JStr ''boolean'')"
    using a that by (cases v) (auto simp: asserts_type_def has_type_def)
  have null: "v = JNull" if "get ps ''type'' = Some (JStr ''null'')"
    using a that by (cases v) (auto simp: asserts_type_def has_type_def)
  have "json_wf (JObj ps)" using document [OF assms(1)] ps by simp
  then have wf: "json_wf c" if "get ps k = Some c" for k c
    using that by (auto simp: list_all_iff dest: map_of_SomeD)
  have const: "json_key v = json_key c" if "get ps ''const'' = Some c" for c
    using a that json_key_equal [OF assms(3) wf [OF that]] by (simp add: asserts_type_def)
  have enum: "\<exists>c \<in> set es. json_key v = json_key c" if "get ps ''enum'' = Some (JArr es)" for es
    using a that json_key_equal [OF assms(3)] wf [OF that] by (auto simp: asserts_type_def list_all_iff)
  show ?thesis
    using assms(2) ps const enum bool null
    by (auto simp: node_values_def split: option.splits json.splits if_splits)
qed

text \<open>An enumerated static value lists the key of every value it admits.\<close>

lemma keys_dict_of_pairs: "set (keys (dict_of ps d)) = fst ` set ps \<union> set (keys d)"
  by (induction ps d rule: dict_of.induct) (auto simp: keys_put [unfolded set_map])

lemma static_values_sound:
  assumes "admits valid s v" "json_wf v" "static_values unq s = Some d"
  shows "json_key v \<in> set (keys d)"
proof -
  from alternatives_sound [OF assms(1)] obtain a where a: "a \<in> set (alternatives_of unq s)"
    "admits_alternative valid a v" by blast
  from assms(3) obtain vs where vs: "map (alternative_values unq) (alternatives_of unq s) = map Some vs"
    "d = dict_of (map (\<lambda>v. (json_key v, v)) (concat vs)) []"
    by (auto simp: static_values_def all_known_Some)
  from vs(1) a(1) obtain us where us: "alternative_values unq a = Some us" "us \<in> set vs"
    by (metis (no_types, lifting) image_iff list.set_map)
  have "\<exists>c \<in> set us. json_key v = json_key c"
  proof (cases a)
    case (SchemaAlt w)
    with a(2) us(1) node_values_sound [OF valid_resolved _ assms(2)] show ?thesis by simp
  qed (use a(2) us(1) in auto)
  with us(2) have "json_key v \<in> set (map (\<lambda>v. json_key v) (concat vs))" by auto
  then show ?thesis unfolding vs(2) keys_dict_of_pairs by (force simp: image_image)
qed

end

end
