(* ===== verification/Scopes.thy ===== *)
theory Scopes imports StaticValues RunBase begin

text \<open>
  \<^verbatim>\<open>compiler/scopes.py\<close>: the static values of bindings and of pointers, inside a flow and at
  the boundary of a workflow. They are sound for the binding contexts of the engine: what a
  pointer selects in the context of a running flow, and what a binding resolves to, is admitted
  by the static value the compiler computed.
\<close>

section \<open>Bindings\<close>

text \<open>\<^verbatim>\<open>binding_static\<close>\<close>

definition may_select_null :: "(string \<Rightarrow> string) \<Rightarrow> static \<Rightarrow> bool" where
  "may_select_null unq s \<longleftrightarrow> sv_absent s \<or>
     (case static_types unq s of None \<Rightarrow> True | Some T \<Rightarrow> ''null'' \<in> T)"

definition with_default :: "binding \<Rightarrow> static \<Rightarrow> static" where
  "with_default b s =
     (if bk_has_default b then Static (sv_alternatives s @ [Const (bk_default b)]) False False else s)"

fun binding_static :: "(string \<Rightarrow> string) \<Rightarrow> (string \<Rightarrow> static) \<Rightarrow> binding \<Rightarrow> static" where
  "binding_static unq resolve (Binding kind pointer literal has_default dflt members flds) =
     (case kind of
        KLiteral \<Rightarrow> static_of [Const literal]
      | KFields \<Rightarrow> static_of [ObjAlt (dict_of (map (\<lambda>(n, b). (n, binding_static unq resolve b)) flds) [])]
      | KFirstOf \<Rightarrow>
          with_default (Binding kind pointer literal has_default dflt members flds)
            (static_union (map resolve members) (Some (list_all (\<lambda>m. may_select_null unq (resolve m)) members)))
      | KPointer \<Rightarrow>
          with_default (Binding kind pointer literal has_default dflt members flds)
            (resolve (case pointer of Some p \<Rightarrow> p | None \<Rightarrow> [])))"

text \<open>\<^verbatim>\<open>_binding_value\<close>: without the default, which an impossible path has to declare.\<close>

definition without_default :: "binding \<Rightarrow> binding" where
  "without_default b = (case b of Binding kind pointer literal has_default dflt members flds \<Rightarrow>
     Binding kind pointer literal False JNull members flds)"

fun binding_value ::
  "(string \<Rightarrow> string) \<Rightarrow> (string \<Rightarrow> static) \<Rightarrow> place \<Rightarrow> binding \<Rightarrow> (compile_error, static) result" where
  "binding_value unq resolve w (Binding kind pointer literal has_default dflt members flds) =
     (if kind = KFields
      then mapR (\<lambda>fs. static_of [ObjAlt (dict_of fs [])])
        (mapE (\<lambda>(n, b). mapR (\<lambda>s. (n, s)) (binding_value unq resolve w b)) flds)
      else let base = binding_static unq resolve
             (without_default (Binding kind pointer literal has_default dflt members flds)) in
        if \<not> impossible base then Inr base
        else if has_default then Inr (static_of [Const dflt])
        else Inl (fail_at ''dangling_pointer'' w []))"

text \<open>\<^verbatim>\<open>_may_be_missing\<close>\<close>

fun may_be_missing :: "(string \<Rightarrow> static) \<Rightarrow> binding \<Rightarrow> bool" where
  "may_be_missing resolve (Binding kind pointer literal has_default dflt members flds) =
     (if kind = KLiteral \<or> has_default then False
      else if kind = KFields then list_ex (\<lambda>(_, b). may_be_missing resolve b) flds
      else list_all (\<lambda>p. sv_missing (resolve p))
        (binding_pointers (Binding kind pointer literal has_default dflt members flds)))"

text \<open>\<^verbatim>\<open>_check_default_type\<close>\<close>

definition check_default_type :: "binding \<Rightarrow> string set option \<Rightarrow> place \<Rightarrow> (compile_error, unit) result" where
  "check_default_type b target w =
     (if bk_kind b \<noteq> KFields \<and> bk_has_default b \<and> incompatible_types (Some {json_type (bk_default b)}) target
      then Inl (fail_at ''incompatible_binding_type'' w []) else Inr ())"

section \<open>Schemas of results\<close>

definition type_schema :: "string \<Rightarrow> json" where
  "type_schema t = JObj [(''type'', JStr t)]"

definition strings :: "string list \<Rightarrow> json" where
  "strings ss = JArr (map JStr ss)"

definition enum_schema :: "string list \<Rightarrow> json" where
  "enum_schema ss = JObj [(''type'', JStr ''string''), (''enum'', strings ss)]"

definition const_schema :: "string \<Rightarrow> json" where
  "const_schema s = JObj [(''type'', JStr ''string''), (''const'', JStr s)]"

definition object_schema :: "jobj \<Rightarrow> json" where
  "object_schema ps = JObj [(''type'', JStr ''object''), (''properties'', JObj ps)]"

definition closed_schema :: "jobj \<Rightarrow> json" where
  "closed_schema ps = JObj [(''type'', JStr ''object''), (''properties'', JObj ps),
     (''additionalProperties'', JBool False)]"

definition array_schema :: "json \<Rightarrow> json" where
  "array_schema items = JObj [(''type'', JStr ''array''), (''items'', items)]"

definition nullable_schema :: "json \<Rightarrow> json" where
  "nullable_schema s = JObj [(''anyOf'', JArr [type_schema ''null'', s])]"

definition ISSUES :: "string list" where
  "ISSUES = [''no_supported_answer'', ''conflicting_information'', ''multiple_valid_options'']"

definition STATUSES :: "string list" where
  "STATUSES = [''completed'', ''needs_review'', ''failed'', ''cancelled'', ''skipped'']"

definition ERROR_SCHEMA :: json where
  "ERROR_SCHEMA = closed_schema [(''code'', type_schema ''string''), (''message'', type_schema ''string''),
     (''retryable'', type_schema ''boolean'')]"

text \<open>\<^verbatim>\<open>collection_result_schema\<close>\<close>

definition collection_result_schema :: json where
  "collection_result_schema = JObj [(''type'', JStr ''object''), (''required'', strings [''items'']),
     (''additionalProperties'', JBool False),
     (''properties'', JObj [(''items'', array_schema (closed_schema
        [(''id'', type_schema ''string''), (''flow'', type_schema ''string''),
         (''status'', type_schema ''string''), (''steps'', type_schema ''object''), (''result'', JObj []),
         (''usage'', type_schema ''object''), (''elapsed_seconds'', type_schema ''number''),
         (''error'', type_schema ''object''), (''attempt_count'', type_schema ''integer''),
         (''attempts'', type_schema ''array''), (''attempts_usage'', type_schema ''object''),
         (''attempts_elapsed_seconds'', type_schema ''number''),
         (''repeat'', object_schema [(''stopped_by'', enum_schema
            [''until'', ''exhausted'', ''continue_when'', ''review'', ''failure''])]),
         (''retry'', type_schema ''object'')]))])]"

text \<open>\<^verbatim>\<open>_question_schema\<close> and \<^verbatim>\<open>decision_result_schema\<close>\<close>

fun question_type_text :: "question_type \<Rightarrow> string" where
  "question_type_text QChoice = ''choice''"
| "question_type_text QMultiselect = ''multiselect''"
| "question_type_text QPredicate = ''predicate''"
| "question_type_text QOrdinal = ''ordinal''"
| "question_type_text QRequestUnits = ''request_units''"

definition answer_schema :: "decision_question \<Rightarrow> json" where
  "answer_schema q = (let opts = map do_id (dq_options q) in
     case dq_type q of
       QChoice \<Rightarrow> nullable_schema (object_schema [(''optionId'', enum_schema opts)])
     | QMultiselect \<Rightarrow> nullable_schema (object_schema [(''optionIds'', array_schema (enum_schema opts))])
     | QPredicate \<Rightarrow> object_schema [(''value'', enum_schema [''true'', ''false'', ''unknown''])]
     | QOrdinal \<Rightarrow> nullable_schema (object_schema [(''levelId'', enum_schema opts)])
     | QRequestUnits \<Rightarrow> nullable_schema (object_schema
         [(''units'', type_schema ''array''), (''relations'', type_schema ''array'')]))"

definition question_schema :: "decision_question \<Rightarrow> json" where
  "question_schema q = object_schema
     [(''questionId'', const_schema (dq_id q)), (''type'', const_schema (question_type_text (dq_type q))),
      (''answer'', answer_schema q),
      (''answerability'', object_schema
         [(''status'', enum_schema [''answerable'', ''not_answerable'', ''undetermined'']),
          (''issues'', array_schema (enum_schema ISSUES))]),
      (''reason'', type_schema ''string''),
      (''evidence_strength'', JObj [(''enum'', JArr [JStr ''limited'', JStr ''strong'', JNull])])]"

definition decision_result_schema :: "decision_step \<Rightarrow> json" where
  "decision_result_schema d = (case ds_question_mode d of
     ModeSingle \<Rightarrow> (case ds_questions d of q # _ \<Rightarrow> question_schema q | [] \<Rightarrow> JObj [])
   | ModeMultiple \<Rightarrow> object_schema [(''results'', array_schema
       (JObj [(''anyOf'', JArr (map question_schema (ds_questions d)))]))])"

text \<open>\<^verbatim>\<open>_selection_schema\<close> and \<^verbatim>\<open>_record_schema\<close>\<close>

definition single_choice :: "decision_step \<Rightarrow> bool" where
  "single_choice d \<longleftrightarrow> ds_question_mode d = ModeSingle \<and>
     (case ds_questions d of q # _ \<Rightarrow> dq_type q = QChoice | [] \<Rightarrow> False)"

definition category_ids :: "step_body \<Rightarrow> string list option" where
  "category_ids body = (case body of
     DecisionStep d \<Rightarrow>
       (if single_choice d
        then Some (map do_id (dq_options (hd (ds_questions d)))
          @ (case ds_fallback d of Some f \<Rightarrow> [ct_id (fb_category f)] | None \<Rightarrow> []))
        else None)
   | _ \<Rightarrow> None)"

definition selection_schema :: "step_body \<Rightarrow> json" where
  "selection_schema body = closed_schema
     [(''origin'', enum_schema [''model'', ''fallback'']),
      (''category'', closed_schema
         [(''id'', case category_ids body of Some ids \<Rightarrow> enum_schema ids | None \<Rightarrow> type_schema ''string''),
          (''description'', type_schema ''string'')])]"

definition has_selection :: "step_body \<Rightarrow> bool" where
  "has_selection body \<longleftrightarrow> (case body of
     HandlerStep _ \<Rightarrow> True | DecisionStep d \<Rightarrow> single_choice d | _ \<Rightarrow> False)"

definition record_schema :: "step_body \<Rightarrow> json" where
  "record_schema body = closed_schema
     ([(''status'', enum_schema STATUSES), (''result'', JObj [])]
      @ entry_if (is_collection body) ''kind'' (JObj [(''const'', JStr ''flow_collection'')])
      @ entry_if (has_selection body) ''selection'' (selection_schema body))"

section \<open>Scopes\<close>

text \<open>
  \<^verbatim>\<open>FlowScope\<close>; the catalogs and handler contracts are the schemas they declare. A step
  record is found by its name.
\<close>

record flow_scope =
  fs_steps :: "(string, step) dict"
  fs_input_path :: "string option"
  fs_schemas :: "(string, jobj) dict"
  fs_tool_output :: "string \<Rightarrow> string \<Rightarrow> jobj"
  fs_handler_output :: "string \<Rightarrow> jobj option"

definition schema_at :: "(string, jobj) dict \<Rightarrow> string \<Rightarrow> static" where
  "schema_at schemas path = (case get schemas path of
     Some s \<Rightarrow> static_of [SchemaAlt (plain_view (JObj s) path schemas)]
   | None \<Rightarrow> static_of [])"

definition inline_schema :: "(string, jobj) dict \<Rightarrow> json \<Rightarrow> static" where
  "inline_schema schemas s = static_of [SchemaAlt (plain_view s [] schemas)]"

definition payload_static :: "string option \<Rightarrow> (string, jobj) dict \<Rightarrow> static" where
  "payload_static path schemas = (case path of
     Some p \<Rightarrow> schema_at schemas p | None \<Rightarrow> inline_schema schemas (JObj []))"

definition step_result_static :: "flow_scope \<Rightarrow> step \<Rightarrow> static" where
  "step_result_static S s = (case st_body s of
     CollectionStep c \<Rightarrow> inline_schema (fs_schemas S) collection_result_schema
   | LlmStep l \<Rightarrow> (case ls_output_schema_path l of
        Some p \<Rightarrow> schema_at (fs_schemas S) p
      | None \<Rightarrow> inline_schema (fs_schemas S) (type_schema ''string''))
   | McpStep m \<Rightarrow> inline_schema (fs_schemas S) (JObj (fs_tool_output S (ms_server m) (ms_tool m)))
   | HandlerStep h \<Rightarrow> (case fs_handler_output S (hs_handler h) of
        Some s \<Rightarrow> inline_schema (fs_schemas S) (JObj s)
      | None \<Rightarrow> inline_schema (fs_schemas S) (JObj []))
   | DecisionStep d \<Rightarrow> inline_schema (fs_schemas S) (decision_result_schema d))"

text \<open>\<^verbatim>\<open>FlowScope.__call__\<close>\<close>

definition flow_static :: "(string \<Rightarrow> string) \<Rightarrow> flow_scope \<Rightarrow> string \<Rightarrow> static" where
  "flow_static unq S pointer = (case tokens pointer of
     [] \<Rightarrow> inline_schema (fs_schemas S) (type_schema ''object'')
   | a # rest \<Rightarrow>
       if a = ''payload'' then static_pointer unq (payload_static (fs_input_path S) (fs_schemas S)) rest
       else if a = ''metadata''
       then static_pointer unq (inline_schema (fs_schemas S) (type_schema ''object'')) rest
       else if a = ''steps'' then
         (case rest of
            [] \<Rightarrow> inline_schema (fs_schemas S) (type_schema ''object'')
          | n # path \<Rightarrow>
              (case get (fs_steps S) n of
                 None \<Rightarrow> Static [] True False
               | Some s \<Rightarrow>
                   if path \<noteq> [] \<and> hd path = ''result''
                   then static_pointer unq (step_result_static S s) (tl path)
                   else static_pointer unq (inline_schema (fs_schemas S) (record_schema (st_body s))) path))
       else inline_schema (fs_schemas S) (JObj []))"

text \<open>\<^verbatim>\<open>completion_binding\<close>\<close>

fun completion_binding :: "string list \<Rightarrow> binding \<Rightarrow> binding" where
  "completion_binding conditional (Binding kind pointer literal has_default dflt members flds) =
     (if kind = KFields
      then Binding kind pointer literal has_default dflt members
        (map (\<lambda>(n, b). (n, completion_binding conditional b)) flds)
      else if kind \<noteq> KPointer \<or> \<not> has_default
      then Binding kind pointer literal has_default dflt members flds
      else (case pointer of
         None \<Rightarrow> Binding kind pointer literal has_default dflt members flds
       | Some p \<Rightarrow>
           (case tokens p of
              a # n # _ \<Rightarrow>
                if a = ''steps'' \<and> n \<notin> set conditional
                then Binding kind pointer literal False JNull members flds
                else Binding kind pointer literal has_default dflt members flds
            | _ \<Rightarrow> Binding kind pointer literal has_default dflt members flds)))"

text \<open>\<^verbatim>\<open>WorkflowScope\<close>\<close>

record workflow_scope =
  ws_flows :: flows
  ws_flow_scopes :: "(string, flow_scope) dict"
  ws_input_path :: "string option"
  ws_schemas :: "(string, jobj) dict"
  ws_completed :: "string list"

definition completed_at :: "workflow_scope \<Rightarrow> string list \<Rightarrow> workflow_scope" where
  "completed_at S names = S\<lparr>ws_completed := names\<rparr>"

definition conditional_steps :: "flow \<Rightarrow> string list" where
  "conditional_steps f = map st_name (filter (\<lambda>s. st_when s \<noteq> None) (fl_steps f))"

definition flow_result_static :: "(string \<Rightarrow> string) \<Rightarrow> workflow_scope \<Rightarrow> string \<Rightarrow> flow \<Rightarrow> static" where
  "flow_result_static unq S name f = (case fl_output f of
     None \<Rightarrow> (case fl_input_schema_path f of
        Some p \<Rightarrow> schema_at (ws_schemas S) p
      | None \<Rightarrow> inline_schema (ws_schemas S) (type_schema ''object''))
   | Some output \<Rightarrow>
       let output' = (if name \<in> set (ws_completed S) then completion_binding (conditional_steps f) output
         else output)
       in (case get (ws_flow_scopes S) name of
             Some F \<Rightarrow> binding_static unq (flow_static unq F) output' | None \<Rightarrow> static_of []))"

definition attempt_static :: "(string \<Rightarrow> string) \<Rightarrow> workflow_scope \<Rightarrow> static \<Rightarrow> static" where
  "attempt_static unq S r = static_of [ObjAlt
     [(''attempt'', inline_schema (ws_schemas S) (JObj [(''type'', JStr ''integer''), (''minimum'', JInt 1)])),
      (''status'', inline_schema (ws_schemas S) (enum_schema STATUSES)),
      (''result'', Static (sv_alternatives r) True False),
      (''error'', Static [SchemaAlt (plain_view ERROR_SCHEMA [] (ws_schemas S))] True True)]]"

definition attempts_static :: "(string \<Rightarrow> string) \<Rightarrow> workflow_scope \<Rightarrow> string \<Rightarrow> flow \<Rightarrow> static" where
  "attempts_static unq S name f =
     static_of [ArrAlt (attempt_static unq S (flow_result_static unq S name f))]"

text \<open>\<^verbatim>\<open>WorkflowScope.__call__\<close>\<close>

definition workflow_static :: "(string \<Rightarrow> string) \<Rightarrow> workflow_scope \<Rightarrow> string \<Rightarrow> static" where
  "workflow_static unq S pointer = (case tokens pointer of
     [] \<Rightarrow> inline_schema (ws_schemas S) (type_schema ''object'')
   | a # rest \<Rightarrow>
       if a = ''payload'' then static_pointer unq (payload_static (ws_input_path S) (ws_schemas S)) rest
       else if a = ''metadata''
       then static_pointer unq (inline_schema (ws_schemas S) (type_schema ''object'')) rest
       else (case rest of
          n # kind # path \<Rightarrow>
            (case (if a = ''flows'' then get (ws_flows S) n else None) of
               Some f \<Rightarrow>
                 if kind = ''result'' then static_pointer unq (flow_result_static unq S n f) path
                 else if kind = ''attempts'' then static_pointer unq (attempts_static unq S n f) path
                 else inline_schema (ws_schemas S) (JObj [])
             | None \<Rightarrow> inline_schema (ws_schemas S) (JObj []))
        | _ \<Rightarrow> inline_schema (ws_schemas S) (JObj [])))"

section \<open>What the contexts of a run look like\<close>

text \<open>
  A record a later binding can read: it belongs to a declared step, a failure has stopped
  the flow before, a result was validated by the executor, and a selection names a category
  of the question.
\<close>

definition selection_fits :: "step_body \<Rightarrow> selection option \<Rightarrow> bool" where
  "selection_fits body sel \<longleftrightarrow> (case sel of None \<Rightarrow> True
     | Some s \<Rightarrow> has_selection body \<and>
        (case category_ids body of None \<Rightarrow> True | Some ids \<Rightarrow> ct_id (sl_category s) \<in> set ids))"

definition step_fits :: "(schema_view \<Rightarrow> json \<Rightarrow> bool) \<Rightarrow> flow_scope \<Rightarrow> string \<Rightarrow> step_record \<Rightarrow> bool" where
  "step_fits V S n r \<longleftrightarrow> (case get (fs_steps S) n of None \<Rightarrow> False
     | Some s \<Rightarrow> sp_error r = None \<and> sp_partial r = None \<and>
         (sp_collection r \<longrightarrow> is_collection (st_body s)) \<and> selection_fits (st_body s) (sp_selection r) \<and>
         (sp_has_result r \<longrightarrow> admits V (step_result_static S s) (sp_result r)))"

definition short_arrays :: "json \<Rightarrow> bool" where
  "short_arrays v \<longleftrightarrow> list_all short_array (inner_values v)"

definition flow_context_fits ::
  "(schema_view \<Rightarrow> json \<Rightarrow> bool) \<Rightarrow> flow_scope \<Rightarrow> envelope \<Rightarrow> (string, step_record) dict \<Rightarrow> bool" where
  "flow_context_fits V S e records \<longleftrightarrow>
     admits V (payload_static (fs_input_path S) (fs_schemas S)) (en_payload e) \<and>
     list_all (\<lambda>(n, r). step_fits V S n r) records \<and>
     json_wf (binding_context e records) \<and> short_arrays (binding_context e records)"

section \<open>Pointers\<close>

lemma lookup_token_inner: "lookup_token t v = Some w \<Longrightarrow> w \<in> set (inner_values v)"
  by (auto simp: lookup_token_def split: json.splits if_splits simp del: inner_values.simps intro: inner_child)

lemma short_arrays_token: "lookup_token t v = Some w \<Longrightarrow> short_arrays v \<Longrightarrow> short_arrays w"
  using lookup_token_inner inner_trans unfolding short_arrays_def list_all_iff by blast

lemma short_arrays_self: "short_arrays v \<Longrightarrow> short_array v"
  by (simp add: short_arrays_def list_all_iff)

lemma get_map_pairs: "get (map (\<lambda>(n, r). (n, f r)) d) n = map_option f (get d n)"
  by (induction d) auto

text \<open>A pointer that selects a value selects it along its tokens.\<close>

lemma lookup_parts_path: "lookup_parts ps v = lookup_path (map unescape ps) v"
  by (induction ps arbitrary: v) (auto split: option.splits)

lemma lookup_pointer_path: "lookup_pointer p v = Inr (Some x) \<Longrightarrow> lookup_path (tokens p) v = Some x"
proof (cases p)
  case (Cons c q)
  assume "lookup_pointer p v = Inr (Some x)"
  with Cons have c: "c = CHR ''/''" and x: "lookup_parts (split_on CHR ''/'' q) v = Some x"
    by (auto simp: lookup_pointer_def Let_def raise_code_def split: if_splits)
  from c Cons have "tokens p = map unescape (split_on CHR ''/'' q)" by (simp add: tokens_def)
  with x show ?thesis by (simp add: lookup_parts_path)
qed (simp add: lookup_pointer_def tokens_def raise_code_def split: if_splits)

context schema_validator
begin

lemma static_pointer_sound:
  "admits valid s v \<Longrightarrow> lookup_path ts v = Some x \<Longrightarrow> short_arrays v \<Longrightarrow> admits valid (static_pointer unq s ts) x"
proof (induction ts arbitrary: s v)
  case (Cons t ts)
  then obtain w where w: "lookup_token t v = Some w" "lookup_path ts w = Some x" by (auto split: option.splits)
  have "admits valid (static_child unq s t) w"
    by (rule static_child_sound [OF Cons.prems(1) w(1) short_arrays_self [OF Cons.prems(3)]])
  from Cons.IH [OF this w(2) short_arrays_token [OF w(1) Cons.prems(3)]] show ?case
    by (simp add: static_pointer_def)
qed (simp add: static_pointer_def)

section \<open>Schemas the compiler writes\<close>

lemma plain_valid:
  assumes "vw_node w = JObj ps" "json_wf (JObj ps)" "set (keys ps) \<subseteq> set PLAIN_KEYWORDS"
    "asserts_type ps v" "asserts_branch (\<lambda>node. valid (view_at w node)) ps v"
    "\<And>os. v = JObj os \<Longrightarrow> asserts_properties (\<lambda>node. valid (view_at w node)) ps os"
    "\<And>xs. v = JArr xs \<Longrightarrow> asserts_items (\<lambda>node. valid (view_at w node)) ps xs"
  shows "valid w v"
  by (rule complete [OF assms(1-3)]) (use assms(4-) in \<open>auto simp: asserts_def split: json.split\<close>)

lemmas keyword_defs = asserts_type_def asserts_branch_def asserts_properties_def asserts_items_def
  as_int_def PLAIN_KEYWORDS_def

lemma type_valid: "vw_node w = type_schema t \<Longrightarrow> has_type t v \<Longrightarrow> valid w v"
  by (rule plain_valid [OF _ _ _]) (auto simp: type_schema_def keyword_defs)

lemma enum_valid: "vw_node w = enum_schema ss \<Longrightarrow> s \<in> set ss \<Longrightarrow> valid w (JStr s)"
  by (rule plain_valid [OF _ _ _]) (auto simp: enum_schema_def strings_def keyword_defs has_type_def list_all_iff)

lemma closed_valid:
  assumes "vw_node w = closed_schema ps" "json_wf (JObj ps)"
    "\<And>k x. get os k = Some x \<Longrightarrow> \<exists>s. get ps k = Some s \<and> valid (view_at w s) x"
  shows "valid w (JObj os)"
proof (rule plain_valid [OF assms(1) [unfolded closed_schema_def]])
  fix os'
  assume os: "JObj os = JObj os'"
  have "\<exists>s. get ps k = Some s \<and> valid (view_at w s) x \<and> k \<in> set (keys ps)" if "get os' k = Some x" for k x
    using assms(3) [of k x] os that by (metis get_None_iff json.inject(6) option.distinct(1))
  then show "asserts_properties (\<lambda>node. valid (view_at w node))
      [(''type'', JStr ''object''), (''properties'', JObj ps), (''additionalProperties'', JBool False)] os'"
    by (fastforce simp: asserts_properties_def property_names_def)
qed (use assms(2) in \<open>auto simp: keyword_defs has_type_def\<close>)

lemma const_valid: "vw_node w = JObj [(''const'', JStr s)] \<Longrightarrow> valid w (JStr s)"
  by (rule plain_valid [OF _ _ _]) (auto simp: keyword_defs)

end

section \<open>Contexts of a running flow\<close>

lemma schema_wf [simp]:
  "json_wf (type_schema t)" "json_wf (enum_schema ss)" "json_wf (const_schema t)"
  "json_wf (closed_schema ps) = json_wf (JObj ps)" "json_wf (object_schema ps) = json_wf (JObj ps)"
  "json_wf (array_schema s) = json_wf s" "json_wf (nullable_schema s) = json_wf s"
  by (auto simp: type_schema_def enum_schema_def const_schema_def closed_schema_def object_schema_def
    array_schema_def nullable_schema_def strings_def list_all_iff)

lemma selection_schema_wf [simp]: "json_wf (selection_schema body)"
  by (auto simp: selection_schema_def split: option.split)

lemma record_schema_wf [simp]: "json_wf (record_schema body)"
  by (auto simp: record_schema_def entry_if_def)

context schema_validator
begin

lemma selection_valid:
  assumes "vw_node w = selection_schema body" "selection_fits body (Some sel)"
  shows "valid w (selection_json sel)"
  unfolding selection_json_def
proof (rule closed_valid [OF assms(1) [unfolded selection_schema_def]], goal_cases)
  case (2 k x)
  have id: "valid (view_at u (case category_ids body of Some ids \<Rightarrow> enum_schema ids | None \<Rightarrow> type_schema ''string''))
      (JStr (ct_id (sl_category sel)))" for u
    using assms(2)
    by (auto simp: selection_fits_def view_at_def has_type_def intro: enum_valid type_valid split: option.splits)
  have descr: "valid (view_at u (type_schema ''string'')) (JStr d)" for u d
    by (rule type_valid [of _ "''string''"]) (auto simp: view_at_def has_type_def)
  have "valid (view_at w (closed_schema
         [(''id'', case category_ids body of Some ids \<Rightarrow> enum_schema ids | None \<Rightarrow> type_schema ''string''),
          (''description'', type_schema ''string'')]))
      (JObj ([(''id'', JStr (ct_id (sl_category sel)))]
        @ entry_opt ''description'' JStr (ct_description (sl_category sel))))"
    by (rule closed_valid) (auto simp: view_at_def entry_opt_def intro: id [unfolded view_at_def] descr [unfolded view_at_def]
      split: option.splits if_splits)
  moreover have "valid (view_at w (enum_schema [''model'', ''fallback'']))
      (JStr (case sl_origin sel of FromModel \<Rightarrow> ''model'' | FromFallback \<Rightarrow> ''fallback''))"
    by (rule enum_valid) (auto simp: view_at_def split: origin.split)
  ultimately show ?case using 2 by (auto split: if_splits)
qed (auto split: option.split)

lemma record_valid:
  assumes "vw_node w = record_schema (st_body s)" "step_fits valid S n r" "get (fs_steps S) n = Some s"
  shows "valid w (step_data r)"
  unfolding step_data_def
proof (rule closed_valid [OF assms(1) [unfolded record_schema_def]], goal_cases)
  case (2 k x)
  have status: "valid (view_at w (enum_schema STATUSES)) (JStr (status_text st))" for st
    by (rule enum_valid; cases st) (auto simp: view_at_def STATUSES_def)
  have result: "valid (view_at w (JObj [])) y" for y by (rule empty_schema) (simp add: view_at_def)
  have kind: "valid (view_at w (JObj [(''const'', JStr ''flow_collection'')])) (JStr ''flow_collection'')"
    by (rule const_valid) (simp add: view_at_def)
  have sel: "has_selection (st_body s) \<and> valid (view_at w (selection_schema (st_body s))) (selection_json y)"
    if "sp_selection r = Some y" for y
    using selection_valid [of "view_at w (selection_schema (st_body s))" "st_body s" y] assms(2,3) that
    by (auto simp: step_fits_def view_at_def selection_fits_def)
  have none: "sp_error r = None" "sp_partial r = None" and coll: "sp_collection r \<Longrightarrow> is_collection (st_body s)"
    using assms(2,3) by (simp_all add: step_fits_def)
  from map_of_SomeD [OF 2] have "(k, x) \<in> set ([(''status'', JStr (status_text (sp_status r)))]
      @ entry_if (sp_has_result r) ''result'' (sp_result r)
      @ entry_if (sp_collection r) ''kind'' (JStr ''flow_collection'')
      @ entry_opt ''selection'' selection_json (sp_selection r))"
    by (simp add: none)
  then consider "k = ''status''" "x = JStr (status_text (sp_status r))" | "k = ''result''"
    | "k = ''kind''" "x = JStr ''flow_collection''" "is_collection (st_body s)"
    | y where "k = ''selection''" "x = selection_json y" "sp_selection r = Some y"
    using coll by (cases "sp_selection r") (auto simp: entry_if_def split: if_splits)
  then show ?case
  proof cases
    case 4
    with sel [OF 4(3)] show ?thesis by (cases "is_collection (st_body s)") simp_all
  qed (simp_all add: status result kind)
qed (simp add: entry_if_def)

lemma inline_any: "admits valid (inline_schema schemas (JObj [])) x"
  by (auto simp: admits_iff inline_schema_def static_of_def plain_view_def intro: empty_schema)

lemma inline_object: "admits valid (inline_schema schemas (type_schema ''object'')) (JObj ps)"
  by (auto simp: admits_iff inline_schema_def static_of_def plain_view_def has_type_def intro: type_valid)

text \<open>What a pointer selects in the context of a flow is admitted by its static value.\<close>

lemma flow_static_sound:
  assumes fits: "flow_context_fits valid S e records"
    and found: "lookup_pointer p (binding_context e records) = Inr (Some v)"
  shows "admits valid (flow_static unq S p) v"
proof -
  let ?c = "binding_context e records"
  have short: "short_arrays ?c" and payload: "admits valid (payload_static (fs_input_path S) (fs_schemas S)) (en_payload e)"
    and steps: "\<And>n r. get records n = Some r \<Longrightarrow> step_fits valid S n r"
    using fits by (auto simp: flow_context_fits_def list_all_iff dest: map_of_SomeD)
  have path: "lookup_path (tokens p) ?c = Some v" by (rule lookup_pointer_path [OF found])
  note object = inline_object
  show ?thesis
  proof (cases "tokens p")
    case Nil
    with path object show ?thesis by (auto simp: flow_static_def binding_context_def)
  next
    case (Cons a rest)
    with path obtain u where u: "lookup_token a ?c = Some u" "lookup_path rest u = Some v" by (auto split: option.splits)
    have shorts: "short_arrays u" by (rule short_arrays_token [OF u(1) short])
    consider "a = ''payload''" "u = en_payload e" | "a = ''metadata''" "u = JObj (en_metadata e)"
      | "a = ''steps''" "u = JObj (map (\<lambda>(n, r). (n, step_data r)) records)"
      using u(1) by (auto simp: lookup_token_def binding_context_def split: if_splits)
    then show ?thesis
    proof cases
      case 1
      with static_pointer_sound [OF payload, of rest v] u(2) shorts Cons show ?thesis by (simp add: flow_static_def)
    next
      case 2
      with static_pointer_sound [OF object [of "fs_schemas S" "en_metadata e"], of rest v] u(2) shorts Cons
      show ?thesis by (simp add: flow_static_def)
    next
      case 3
      show ?thesis
      proof (cases rest)
        case Nil
        with 3 \<open>tokens p = a # rest\<close> u(2) object show ?thesis by (auto simp: flow_static_def)
      next
        case (Cons n path)
        with u(2) 3 obtain r where r: "get records n = Some r" "lookup_path path (step_data r) = Some v"
          "lookup_token n u = Some (step_data r)"
          by (auto simp: lookup_token_def get_map_pairs split: option.splits)
        have fit: "step_fits valid S n r" by (rule steps [OF r(1)])
        then obtain s where s: "get (fs_steps S) n = Some s" by (auto simp: step_fits_def split: option.splits)
        have shortd: "short_arrays (step_data r)" by (rule short_arrays_token [OF r(3) shorts])
        have whole: "admits valid (inline_schema (fs_schemas S) (record_schema (st_body s))) (step_data r)"
          using record_valid [OF _ fit s] by (simp add: admits_iff inline_schema_def static_of_def plain_view_def)
        show ?thesis
        proof (cases "path \<noteq> [] \<and> hd path = ''result''")
          case True
          then obtain path' where p': "path = ''result'' # path'" by (cases path) auto
          with r(2) obtain y where y: "lookup_token ''result'' (step_data r) = Some y" "lookup_path path' y = Some v"
            by (auto split: option.splits)
          have res: "sp_has_result r" "y = sp_result r"
            using y(1) by (auto simp: lookup_token_def step_data_def entry_if_def entry_opt_def split: if_splits option.splits)
          have "admits valid (step_result_static S s) y" using fit s res by (simp add: step_fits_def)
          from static_pointer_sound [OF this y(2) short_arrays_token [OF y(1) shortd]] p' s 3 \<open>tokens p = a # rest\<close> Cons
          show ?thesis by (simp add: flow_static_def)
        next
          case False
          with static_pointer_sound [OF whole r(2) shortd] s 3 \<open>tokens p = a # rest\<close> Cons
          show ?thesis by (auto simp: flow_static_def)
        qed
      qed
    qed
  qed
qed

end

section \<open>Resolved bindings\<close>

lemma admits_fields:
  "admits V (static_of [ObjAlt fs]) (JObj ps) \<longleftrightarrow> (\<forall>k x. get ps k = Some x \<longrightarrow> (\<exists>s. get fs k = Some s \<and> admits V s x))"
  by (simp add: static_of_def admits_iff [of _ "Static _ _ _"] admits_object)

text \<open>A compiled binding: its literals and defaults are frozen documents.\<close>

definition frozen_document :: "json \<Rightarrow> bool" where
  "frozen_document v \<longleftrightarrow> json_wf v \<and> json_depth v \<le> MAX_JSON_DEPTH"

fun binding_frozen :: "binding \<Rightarrow> bool" where
  "binding_frozen (Binding kind pointer literal has_default dflt members flds) \<longleftrightarrow>
     (kind = KLiteral \<longrightarrow> frozen_document literal) \<and> (has_default \<longrightarrow> frozen_document dflt) \<and>
     list_all (\<lambda>(_, b). binding_frozen b) flds"

lemma freeze_document: "frozen_document v \<Longrightarrow> freeze_json (frozen_obj v) = Inr v"
  by (simp add: frozen_document_def freeze_json_def freeze_frozen)

lemma resolve_default:
  "default_or_missing b = Inr v \<Longrightarrow> bk_has_default b \<Longrightarrow> frozen_document (bk_default b) \<Longrightarrow> v = bk_default b"
  "default_or_missing b = Inr v \<Longrightarrow> bk_has_default b"
  by (auto simp: default_or_missing_def freeze_document raise_code_def split: if_splits)

lemma dict_of_mono: "k \<notin> set (keys ps) \<Longrightarrow> get (dict_of ps d) k = get d k"
  by (induction ps d rule: dict_of.induct) auto

text \<open>The names of resolved fields are distinct, and each value is resolved.\<close>

lemma resolved_fields:
  "resolve_bindings_from acc flds c = Inr os \<Longrightarrow> get os k = Some x \<Longrightarrow>
     get acc k = Some x \<or> (\<exists>b. (k, b) \<in> set flds \<and> resolve_binding b c = Inr x \<and>
       get (dict_of (map (\<lambda>(n, b). (n, f b)) flds) d) k = Some (f b))"
  "resolve_bindings_from acc flds c = Inr os \<Longrightarrow> get acc k \<noteq> None \<Longrightarrow> k \<notin> set (keys flds)"
proof (induction flds arbitrary: acc d k x)
  case (Cons p flds)
  obtain name b where p: "p = (name, b)" by fastforce
  {
    case 1
    with p obtain v where v: "name \<notin> set (keys acc)" "resolve_binding b c = Inr v"
      "resolve_bindings_from (put name v acc) flds c = Inr os"
      by (auto simp: bindE_Inr_iff raise_code_def split: if_splits)
    from Cons.IH(1) [OF v(3) 1(2), where d = "put name (f b) d"] show ?case
    proof
      assume "get (put name v acc) k = Some x"
      then show ?thesis
      proof (cases "k = name")
        case True
        from Cons.IH(2) [OF v(3), of name] have "name \<notin> set (keys flds)" by simp
        then have "get (dict_of (map (\<lambda>(n, b). (n, f b)) flds) (put name (f b) d)) name = Some (f b)"
          by (subst dict_of_mono) (auto simp: image_iff)
        with True p v(2) \<open>get (put name v acc) k = Some x\<close> show ?thesis by auto
      qed simp
    qed (auto simp: p)
  next
    case 2
    with p obtain v where v: "name \<notin> set (keys acc)" "resolve_binding b c = Inr v"
      "resolve_bindings_from (put name v acc) flds c = Inr os"
      by (auto simp: bindE_Inr_iff raise_code_def split: if_splits)
    have "get (put name v acc) k \<noteq> None" using 2(2) by (simp add: get_put)
    from Cons.IH(2) [OF v(3) this] 2(2) v(1) show ?case by (auto simp: p get_None_iff)
  }
qed auto

context schema_validator
begin

lemma binding_static_sound:
  assumes resolve: "\<forall>p v. lookup_pointer p c = Inr (Some v) \<longrightarrow> admits valid (resolve p) v"
  shows "resolve_binding b c = Inr v \<Longrightarrow> binding_frozen b \<Longrightarrow> admits valid (binding_static unq resolve b) v"
proof (induction b arbitrary: v)
  case (Binding kind pointer literal has_default dflt members flds)
  let ?b = "Binding kind pointer literal has_default dflt members flds"
  have chosen: "admits valid (with_default ?b s) v" if "admits valid s v \<or> default_or_missing ?b = Inr v" for s
    using that resolve_default [of ?b v] Binding.prems(2)
    by (auto simp: with_default_def admits_iff admits_alternative.simps)
  show ?case
  proof (cases kind)
    case KPointer
    with Binding.prems(1) obtain p found where p: "pointer = Some p" "lookup_pointer p c = Inr found"
      "(case found of Some v \<Rightarrow> Inr v | None \<Rightarrow> default_or_missing ?b) = Inr v"
      by (auto simp: bindE_Inr_iff raise_code_def split: option.splits if_splits)
    with resolve have "admits valid (resolve p) v \<or> default_or_missing ?b = Inr v"
      by (cases found) auto
    from chosen [OF this] KPointer p(1) show ?thesis by simp
  next
    case KLiteral
    with Binding.prems show ?thesis
      by (simp add: freeze_document static_of_def admits_iff admits_alternative.simps)
  next
    case KFirstOf
    with Binding.prems(1) obtain cs where cs: "mapE (\<lambda>m. lookup_pointer m c) members = Inr cs"
      "(case first_present cs of Some v \<Rightarrow> Inr v | None \<Rightarrow> default_or_missing ?b) = Inr v"
      by (auto simp: bindE_Inr_iff raise_code_def split: if_splits)
    have "\<exists>m \<in> set members. lookup_pointer m c = Inr (Some v)" if "first_present cs = Some v"
      using first_present_Some [OF that] cs(1)
      by (fastforce simp: mapE_Inr_iff list_all2_conv_all_nth in_set_conv_nth)
    with resolve have "admits valid (static_union (map resolve members) a) v" if "first_present cs = Some v" for a
      using that by (auto simp: admits_union)
    with cs(2) chosen KFirstOf show ?thesis by (cases "first_present cs") auto
  next
    case KFields
    with Binding.prems(1) obtain os where os: "resolve_bindings_from [] flds c = Inr os" "v = JObj os"
      by (auto simp: mapR_Inr_iff raise_code_def split: if_splits)
    have "\<exists>s. get (dict_of (map (\<lambda>(n, b). (n, binding_static unq resolve b)) flds) []) k = Some s \<and> admits valid s x"
      if "get os k = Some x" for k x
    proof -
      from resolved_fields(1) [OF os(1) that, of "binding_static unq resolve" "[]"] obtain b where
        b: "(k, b) \<in> set flds" "resolve_binding b c = Inr x"
        "get (dict_of (map (\<lambda>(n, b). (n, binding_static unq resolve b)) flds) []) k = Some (binding_static unq resolve b)"
        by auto
      have "binding_frozen b" using Binding.prems(2) b(1) by (auto simp: list_all_iff)
      with Binding.IH [OF b(1) _ b(2)] b(3) show ?thesis by (simp add: snds.simps)
    qed
    with KFields os(2) show ?thesis
      by (simp add: admits_fields)
  qed
qed

lemma mapE_Inl: "mapE f xs = Inl e \<Longrightarrow> \<exists>x \<in> set xs. f x = Inl e"
  by (induction xs) (auto simp: bindE_Inl_iff mapR_Inl_iff)

text \<open>Without its default a binding still describes what it selected.\<close>

lemma resolve_without_default:
  "resolve_binding b c = Inr v \<Longrightarrow> bk_kind b \<noteq> KFields \<Longrightarrow>
     resolve_binding (without_default b) c = Inr v \<or> bk_has_default b \<and> default_or_missing b = Inr v"
  by (cases b) (auto simp: without_default_def bindE_Inr_iff default_or_missing_def raise_code_def
    split: binding_kind.splits option.splits if_splits)

lemma without_default_frozen: "binding_frozen b \<Longrightarrow> binding_frozen (without_default b)"
  by (cases b) (simp add: without_default_def)

lemma binding_value_sound:
  assumes resolve: "\<forall>p v. lookup_pointer p c = Inr (Some v) \<longrightarrow> admits valid (resolve p) v"
    and s: "binding_value unq resolve w b = Inr s" and v: "resolve_binding b c = Inr v"
    and b: "binding_frozen b" "bk_kind b \<noteq> KFields"
  shows "admits valid s v \<or> bk_has_default b \<and> v = bk_default b"
proof -
  from resolve_without_default [OF v b(2)] show ?thesis
  proof
    assume "resolve_binding (without_default b) c = Inr v"
    from binding_static_sound [OF resolve this without_default_frozen [OF b(1)]]
    have a: "admits valid (binding_static unq resolve (without_default b)) v" .
    then have "\<not> impossible (binding_static unq resolve (without_default b))"
      by (auto simp: impossible_def admits_iff)
    with s b(2) a show ?thesis by (cases b) (simp add: Let_def)
  qed (use b in \<open>cases b, auto simp: default_or_missing_def freeze_document raise_code_def split: if_splits\<close>)
qed

lemma resolved_field:
  "resolve_bindings_from acc flds c = Inr os \<Longrightarrow> (k, b) \<in> set flds \<Longrightarrow> \<exists>x. resolve_binding b c = Inr x"
  by (induction flds arbitrary: acc) (auto simp: bindE_Inr_iff raise_code_def split: if_splits)

text \<open>A binding that is rejected as dangling never resolves.\<close>

lemma binding_value_dangling:
  assumes resolve: "\<forall>p v. lookup_pointer p c = Inr (Some v) \<longrightarrow> admits valid (resolve p) v"
  shows "binding_value unq resolve w b = Inl e \<Longrightarrow> binding_frozen b \<Longrightarrow> resolve_binding b c \<noteq> Inr v"
proof (induction b arbitrary: v)
  case (Binding kind pointer literal has_default dflt members flds)
  let ?b = "Binding kind pointer literal has_default dflt members flds"
  show ?case
  proof (cases "kind = KFields")
    case True
    with Binding.prems(1) obtain k b where b: "(k, b) \<in> set flds" "binding_value unq resolve w b = Inl e"
      by (auto simp: mapR_Inl_iff dest!: mapE_Inl)
    have "binding_frozen b" using Binding.prems(2) b(1) by (auto simp: list_all_iff)
    with Binding.IH [OF b(1) _ b(2)] have "resolve_binding b c \<noteq> Inr x" for x by (simp add: snds.simps)
    with resolved_field [OF _ b(1)] True show ?thesis
      by (auto simp: mapR_Inr_iff raise_code_def split: if_splits)
  next
    case False
    with Binding.prems(1) have none: "impossible (binding_static unq resolve (without_default ?b))" "\<not> has_default"
      by (auto simp: Let_def split: if_splits)
    have "without_default ?b = Binding kind pointer literal False JNull members flds" by (simp add: without_default_def)
    show ?thesis
    proof
      assume "resolve_binding ?b c = Inr v"
      with resolve_without_default [of ?b c v] False none(2) have "resolve_binding (without_default ?b) c = Inr v" by simp
      from binding_static_sound [OF resolve this without_default_frozen [OF Binding.prems(2)]] none(1)
      show False by (auto simp: impossible_def admits_iff)
    qed
  qed
qed

end

section \<open>Contexts at the boundary of a workflow\<close>

text \<open>A record a boundary binding can read: a failure has stopped the run before.\<close>

definition result_fits :: "(schema_view \<Rightarrow> json \<Rightarrow> bool) \<Rightarrow> static \<Rightarrow> flow_record \<Rightarrow> bool" where
  "result_fits V s r \<longleftrightarrow> fr_error r = None \<and> (fr_has_result r \<longrightarrow> admits V s (fr_result r))"

definition flow_fits ::
  "(schema_view \<Rightarrow> json \<Rightarrow> bool) \<Rightarrow> (string \<Rightarrow> string) \<Rightarrow> workflow_scope \<Rightarrow> string \<Rightarrow> flow_record \<Rightarrow> bool" where
  "flow_fits V unq S n r \<longleftrightarrow> (case get (ws_flows S) n of None \<Rightarrow> False
     | Some f \<Rightarrow> result_fits V (flow_result_static unq S n f) r \<and>
         list_all (result_fits V (flow_result_static unq S n f)) (fr_attempts r))"

definition workflow_context_fits ::
  "(schema_view \<Rightarrow> json \<Rightarrow> bool) \<Rightarrow> (string \<Rightarrow> string) \<Rightarrow> workflow_scope \<Rightarrow> envelope \<Rightarrow> (string, flow_record) dict \<Rightarrow> bool"
  where
  "workflow_context_fits V unq S e records \<longleftrightarrow>
     admits V (payload_static (ws_input_path S) (ws_schemas S)) (en_payload e) \<and>
     list_all (\<lambda>(n, r). flow_fits V unq S n r) records \<and>
     json_wf (workflow_context e records) \<and> short_arrays (workflow_context e records)"

context schema_validator
begin

lemma positive_valid:
  "vw_node w = JObj [(''type'', JStr ''integer''), (''minimum'', JInt 1)] \<Longrightarrow> 1 \<le> i \<Longrightarrow> valid w (JInt i)"
  by (rule plain_valid [OF _ _ _]) (auto simp: keyword_defs has_type_def)

lemma attempts_data_sound:
  assumes "list_all (result_fits valid r) as" "1 \<le> i" "x \<in> set (attempts_data i as)"
  shows "admits valid (attempt_static unq S r) x"
  using assms
proof (induction i as rule: attempts_data.induct)
  case (2 i a as)
  let ?ps = "[(''attempt'', JInt (of_nat i)), (''status'', JStr (status_text (fr_status a)))]
      @ entry_if (fr_has_result a) ''result'' (fr_result a)"
  have fit: "fr_error a = None" "fr_has_result a \<Longrightarrow> admits valid r (fr_result a)"
    using 2(2) by (auto simp: result_fits_def)
  have "admits valid (attempt_static unq S r) (JObj ?ps)"
    unfolding attempt_static_def admits_fields
  proof (intro allI impI)
    fix k x assume "get ?ps k = Some x"
    then consider "k = ''attempt''" "x = JInt (of_nat i)" | "k = ''status''" "x = JStr (status_text (fr_status a))"
      | "k = ''result''" "x = fr_result a" "fr_has_result a"
      by (auto simp: entry_if_def split: if_splits)
    then show "\<exists>s. get [(''attempt'', inline_schema (ws_schemas S) (JObj [(''type'', JStr ''integer''), (''minimum'', JInt 1)])),
      (''status'', inline_schema (ws_schemas S) (enum_schema STATUSES)),
      (''result'', Static (sv_alternatives r) True False),
      (''error'', Static [SchemaAlt (plain_view ERROR_SCHEMA [] (ws_schemas S))] True True)] k = Some s \<and> admits valid s x"
    proof cases
      case 1
      with 2(3) show ?thesis
        by (auto simp: admits_iff inline_schema_def static_of_def plain_view_def intro: positive_valid)
    next
      case 2
      then show ?thesis
        by (cases "fr_status a") (auto simp: admits_iff inline_schema_def static_of_def plain_view_def STATUSES_def
          intro: enum_valid)
    next
      case 3
      with fit(2) show ?thesis by (simp add: admits_iff)
    qed
  qed
  with 2 fit(1) show ?case by auto
qed simp

text \<open>What a pointer selects at a boundary is admitted by its static value.\<close>

lemma workflow_static_sound:
  assumes fits: "workflow_context_fits valid unq S e records"
    and found: "lookup_pointer p (workflow_context e records) = Inr (Some v)"
  shows "admits valid (workflow_static unq S p) v"
proof -
  let ?c = "workflow_context e records"
  have short: "short_arrays ?c" and payload: "admits valid (payload_static (ws_input_path S) (ws_schemas S)) (en_payload e)"
    and fit: "\<And>n r. get records n = Some r \<Longrightarrow> flow_fits valid unq S n r"
    using fits by (auto simp: workflow_context_fits_def list_all_iff dest: map_of_SomeD)
  have path: "lookup_path (tokens p) ?c = Some v" by (rule lookup_pointer_path [OF found])
  show ?thesis
  proof (cases "tokens p")
    case Nil
    with path inline_object show ?thesis by (auto simp: workflow_static_def workflow_context_def)
  next
    case (Cons a rest)
    with path obtain u where u: "lookup_token a ?c = Some u" "lookup_path rest u = Some v" by (auto split: option.splits)
    have shorts: "short_arrays u" by (rule short_arrays_token [OF u(1) short])
    consider "a = ''payload''" "u = en_payload e" | "a = ''metadata''" "u = JObj (en_metadata e)"
      | "a = ''flows''" "u = JObj (map (\<lambda>(n, r). (n, flow_data r)) records)"
      using u(1) by (auto simp: lookup_token_def workflow_context_def split: if_splits)
    then show ?thesis
    proof cases
      case 1
      with static_pointer_sound [OF payload, of rest v] u(2) shorts Cons show ?thesis by (simp add: workflow_static_def)
    next
      case 2
      with static_pointer_sound [OF inline_object [of "ws_schemas S" "en_metadata e"], of rest v] u(2) shorts Cons
      show ?thesis by (simp add: workflow_static_def)
    next
      case 3
      show ?thesis
      proof (cases "\<exists>n kind path f. rest = n # kind # path \<and> get (ws_flows S) n = Some f \<and>
          (kind = ''result'' \<or> kind = ''attempts'')")
        case False
        then have "workflow_static unq S p = inline_schema (ws_schemas S) (JObj [])"
          using Cons 3(1) by (auto simp: workflow_static_def split: list.split option.split)
        then show ?thesis using inline_any by simp
      next
        case True
        then obtain n kind path f where rest: "rest = n # kind # path" and f: "get (ws_flows S) n = Some f"
          and kind: "kind = ''result'' \<or> kind = ''attempts''" by blast
        from u(2) 3(2) rest obtain r y where r: "get records n = Some r" "lookup_token n u = Some (flow_data r)"
          "lookup_token kind (flow_data r) = Some y" "lookup_path path y = Some v"
          by (auto simp: lookup_token_def get_map_pairs split: option.splits)
        have fits: "result_fits valid (flow_result_static unq S n f) r"
          "list_all (result_fits valid (flow_result_static unq S n f)) (fr_attempts r)"
          using fit [OF r(1)] f by (simp_all add: flow_fits_def)
        have shorty: "short_arrays y" by (intro short_arrays_token [OF r(3)] short_arrays_token [OF r(2)] shorts)
        show ?thesis
        proof (cases "kind = ''result''")
          case True
          with r(3) have "fr_has_result r" "y = fr_result r"
            by (auto simp: lookup_token_def flow_data_def entry_if_def entry_opt_def split: if_splits option.splits)
          with fits(1) have "admits valid (flow_result_static unq S n f) y" by (simp add: result_fits_def)
          from static_pointer_sound [OF this r(4) shorty] Cons rest 3(1) f True show ?thesis
            by (simp add: workflow_static_def)
        next
          case False
          with kind have kind: "kind = ''attempts''" by simp
          with r(3) have "y = JArr (attempts_data 1 (fr_attempts r))"
            by (auto simp: lookup_token_def flow_data_def entry_if_def entry_opt_def split: if_splits option.splits)
          with attempts_data_sound [OF fits(2) order_refl]
          have "admits valid (attempts_static unq S n f) y"
            by (simp add: attempts_static_def static_of_def admits_iff [of _ "Static _ _ _"])
          from static_pointer_sound [OF this r(4) shorty] Cons rest 3(1) f kind show ?thesis
            by (simp add: workflow_static_def)
        qed
      qed
    qed
  qed
qed

text \<open>The result a flow projects is admitted at the boundary.\<close>

lemma flow_result_sound:
  assumes "flow_context_fits valid F e records" "get (ws_flow_scopes S) n = Some F" "n \<notin> set (ws_completed S)"
    and "fl_output f = Some b" "binding_frozen b" "resolve_binding b (binding_context e records) = Inr v"
  shows "admits valid (flow_result_static unq S n f) v"
proof -
  have "\<forall>p v. lookup_pointer p (binding_context e records) = Inr (Some v) \<longrightarrow> admits valid (flow_static unq F p) v"
    using flow_static_sound [OF assms(1)] by blast
  from binding_static_sound [OF this assms(6,5)] assms(2-4) show ?thesis by (simp add: flow_result_static_def)
qed

end

text \<open>
  The default of a pointer below the result of an unconditional step can apply although the
  step completed: an object without the selected key. \<^verbatim>\<open>completion_binding\<close> drops it.
\<close>

lemma completed_default_applies:
  fixes e :: envelope
  defines "b \<equiv> Binding KPointer (Some ''/steps/a/result/k'') JNull True (JObj []) [] []"
    and "c \<equiv> binding_context e [(''a'', \<lparr>sp_status = Completed, sp_result = JObj [], sp_has_result = True,
      sp_error = None, sp_elapsed = None, sp_usage = None, sp_selection = None, sp_partial = None, sp_collection = False\<rparr>)]"
  shows "resolve_binding b c = Inr (JObj [])" "\<not> bk_has_default (completion_binding [] b)"
proof -
  have "lookup_pointer ''/steps/a/result/k'' c = Inr None"
    by (simp add: c_def lookup_pointer_def binding_context_def step_data_def lookup_token_def unescape_def
      MAX_JSON_DEPTH_def Let_def)
  moreover have "freeze_json (frozen_obj (JObj [])) = Inr (JObj [])"
    by (rule freeze_document) (simp add: frozen_document_def MAX_JSON_DEPTH_def)
  ultimately show "resolve_binding b c = Inr (JObj [])" by (simp add: b_def default_or_missing_def)
  show "\<not> bk_has_default (completion_binding [] b)"
    by (simp add: b_def tokens_def unescape_def)
qed

end
