(* ===== verification/StaticResults.thy ===== *)
theory StaticResults imports Scopes Runner begin

text \<open>
  The results the engine produces itself conform to the schemas the compiler derives for them:
  the ledger of a collection step.
\<close>

section \<open>Ledgers of collections\<close>

definition ledger_fields :: jobj where
  "ledger_fields =
     [(''id'', type_schema ''string''), (''flow'', type_schema ''string''),
      (''status'', type_schema ''string''), (''steps'', type_schema ''object''), (''result'', JObj []),
      (''usage'', type_schema ''object''), (''elapsed_seconds'', type_schema ''number''),
      (''error'', type_schema ''object''), (''attempt_count'', type_schema ''integer''),
      (''attempts'', type_schema ''array''), (''attempts_usage'', type_schema ''object''),
      (''attempts_elapsed_seconds'', type_schema ''number''),
      (''repeat'', object_schema [(''stopped_by'', enum_schema
         [''until'', ''exhausted'', ''continue_when'', ''review'', ''failure''])]),
      (''retry'', type_schema ''object'')]"

lemma ledger_fields_wf: "json_wf (JObj ledger_fields)"
  by (simp add: ledger_fields_def)

text \<open>An entry of the public flow record, with its declared type.\<close>

fun ledger_entry :: "string \<times> json \<Rightarrow> bool" where
  "ledger_entry (k, v) \<longleftrightarrow> (case get ledger_fields k of
     None \<Rightarrow> False
   | Some s \<Rightarrow>
       (case get (object_of s) ''type'' of Some (JStr t) \<Rightarrow> has_type t v | _ \<Rightarrow> True) \<and>
       (k = ''repeat'' \<longrightarrow> (\<exists>stop. v = JObj [(''stopped_by'', JStr (stop_text stop))])))"

lemma usage_value_object: "has_type ''object'' (usage_value u)"
  by (simp add: usage_value_def has_type_def)

lemmas ledger_simps = ledger_fields_def object_of_def type_schema_def object_schema_def has_type_def

lemma entry_opt_all: "list_all P (entry_opt k f x) \<longleftrightarrow> (\<forall>a. x = Some a \<longrightarrow> P (k, f a))"
  by (cases x) auto

lemma entry_if_all: "list_all P (entry_if b k v) \<longleftrightarrow> (b \<longrightarrow> P (k, v))"
  by (cases b) auto

lemma record_value_entries:
  "record_value st result has us elapsed error = Inr v \<Longrightarrow> list_all ledger_entry v"
  by (auto simp: record_value_def raise_code_def entry_opt_all entry_if_all ledger_simps usage_value_def
    split: if_splits)

lemma flow_record_entries: "flow_record_value r = Inr v \<Longrightarrow> list_all ledger_entry v"
  by (auto simp: flow_record_value_def flow_value_def bindE_Inr_iff mapR_Inr_iff entry_opt_all
    usage_value_def ledger_simps dest!: record_value_entries split: if_splits)

lemma dict_of_all: "list_all P ps \<Longrightarrow> list_all P d \<Longrightarrow> list_all P (dict_of ps d)"
proof (induction ps d rule: dict_of.induct)
  case (2 k v ps d)
  have "list_all P (put k v d)" using 2(3) 2(2) by (induction d) auto
  with 2 show ?case by simp
qed simp

lemma item_entry_entries:
  assumes "item_entry p r = Inr v"
  shows "\<exists>os. v = JObj os \<and> list_all ledger_entry os"
proof -
  obtain i f payload where p: "p = (i, f, payload)" by (cases p)
  have base: "list_all ledger_entry (dict_of u [(''id'', JStr i), (''flow'', JStr (fl_name f))])"
    if "flow_record_value q = Inr u" for q u
    using flow_record_entries [OF that] by (intro dict_of_all) (simp_all add: ledger_simps)
  have retry: "list_all ledger_entry (put ''retry'' (JObj w) d)" if "list_all ledger_entry d" for w d
    using that dict_of_all [of ledger_entry "[(''retry'', JObj w)]" d] by (simp add: ledger_simps)
  show ?thesis
    using assms base retry
    by (auto simp: item_entry_def p bindE_Inr_iff mapR_Inr_iff Let_def split: option.splits)
qed

context schema_validator
begin

lemma open_valid:
  assumes "vw_node w = object_schema ps" "json_wf (JObj ps)"
    and "\<And>k x s. get os k = Some x \<Longrightarrow> get ps k = Some s \<Longrightarrow> valid (view_at w s) x"
  shows "valid w (JObj os)"
  by (rule plain_valid [OF assms(1) [unfolded object_schema_def]])
    (use assms(2,3) in \<open>auto simp: keyword_defs has_type_def\<close>)

lemma array_valid:
  assumes "vw_node w = array_schema s" "json_wf s" "\<And>x. x \<in> set xs \<Longrightarrow> valid (view_at w s) x"
  shows "valid w (JArr xs)"
  by (rule plain_valid [OF assms(1) [unfolded array_schema_def]])
    (use assms(2,3) in \<open>auto simp: keyword_defs has_type_def\<close>)

lemma ledger_field_valid:
  assumes "ledger_entry (k, x)"
  shows "\<exists>s. get ledger_fields k = Some s \<and> valid (view_at w s) x"
proof -
  from assms obtain s where s: "get ledger_fields k = Some s"
    and t: "case get (object_of s) ''type'' of Some (JStr t) \<Rightarrow> has_type t x | _ \<Rightarrow> True"
    and stop: "k = ''repeat'' \<Longrightarrow> \<exists>stop. x = JObj [(''stopped_by'', JStr (stop_text stop))]"
    by (auto split: option.splits)
  from s consider "k = ''repeat''" | "s = JObj []" | t where "s = type_schema t"
    by (auto simp: ledger_fields_def split: if_splits)
  then have "valid (view_at w s) x"
  proof cases
    case 1
    then obtain r where r: "x = JObj [(''stopped_by'', JStr (stop_text r))]" using stop by blast
    have "valid (view_at u (enum_schema [''until'', ''exhausted'', ''continue_when'', ''review'', ''failure'']))
        (JStr (stop_text r))" for u
      by (rule enum_valid; cases r) (auto simp: view_at_def)
    then show ?thesis using 1 s unfolding r
      by (intro open_valid [of _ "[(''stopped_by'', enum_schema
            [''until'', ''exhausted'', ''continue_when'', ''review'', ''failure''])]"])
        (auto simp: ledger_fields_def view_at_def split: if_splits)
  next
    case 2
    then show ?thesis by (intro empty_schema) (simp add: view_at_def)
  next
    case 3
    with t show ?thesis by (intro type_valid [of _ t]) (auto simp: view_at_def type_schema_def object_of_def)
  qed
  with s show ?thesis by blast
qed

lemma ledger_valid:
  assumes "vw_node w = collection_result_schema" "list_all (\<lambda>v. \<exists>os. v = JObj os \<and> list_all ledger_entry os) entries"
  shows "valid w (JObj [(''items'', JArr entries)])"
proof -
  have item: "valid (view_at u (closed_schema ledger_fields)) v" if v: "v \<in> set entries" for u v
  proof -
    from assms(2) v obtain os where os: "v = JObj os" "list_all ledger_entry os" by (auto simp: list_all_iff)
    show ?thesis unfolding os(1)
    proof (rule closed_valid [OF _ ledger_fields_wf], goal_cases)
      case (2 k x)
      with os(2) have "ledger_entry (k, x)" by (auto simp: list_all_iff simp del: ledger_entry.simps dest!: map_of_SomeD)
      then show ?case by (rule ledger_field_valid)
    qed (simp add: view_at_def)
  qed
  have "valid (view_at w (array_schema (closed_schema ledger_fields))) (JArr entries)"
    using item ledger_fields_wf by (intro array_valid) (auto simp: view_at_def)
  then show ?thesis using ledger_fields_wf
    by (intro plain_valid [OF assms(1) [unfolded collection_result_schema_def]])
      (auto simp: keyword_defs has_type_def ledger_fields_def [symmetric] property_names_def strings_def
        string_items_def)
qed

end

text \<open>The result of a collection step that did not fail is a ledger of its items.\<close>

lemma item_entries: "mapE (\<lambda>(p, r). item_entry p r) zs = Inr es \<Longrightarrow> list_all (\<lambda>v. \<exists>os. v = JObj os \<and> list_all ledger_entry os) es"
  by (induction zs arbitrary: es) (auto simp: bindE_Inr_iff mapR_Inr_iff dest!: item_entry_entries)

lemma bindM_Inr_iff: "bindM m f s = (Inr b, s') \<longleftrightarrow> (\<exists>a t. m s = (Inr a, t) \<and> f a t = (Inr b, s'))"
  by (auto simp: bindM_def split: prod.splits sum.splits)

lemma pureM_Inr_iff: "pureM r s = (Inr b, s') \<longleftrightarrow> r = Inr b \<and> s' = s"
  by (auto simp: pureM_def)

lemma not_array_case:
  "\<nexists>xs. v = Some (JArr xs) \<Longrightarrow> (case v of Some (JArr xs) \<Rightarrow> f xs | _ \<Rightarrow> z) = z"
  by (auto split: option.split json.split)

definition collection_record ::
  "rat \<Rightarrow> rat \<Rightarrow> status \<Rightarrow> usage \<Rightarrow> failure option \<Rightarrow> json list \<Rightarrow> ('w, step_record) run" where
  "collection_record started finished st u failure entries =
     (let ledger = [(''items'', JArr entries)] in
      ret \<lparr>sp_status = st, sp_result = (if st \<noteq> Failed then JObj ledger else JNull),
        sp_has_result = (st \<noteq> Failed), sp_error = failure,
        sp_elapsed = Some (finished - started), sp_usage = Some u, sp_selection = None,
        sp_partial = (if st = Failed then Some ledger else None), sp_collection = True\<rparr>)"

lemma execute_collection_record_eq:
  "execute_collection env child cs inputs metadata depth = bindM (now env) (\<lambda>started.
     (if MAX_COLLECTION_DEPTH \<le> depth then failM INVALID_CONFIGURATION
      else (case get inputs ''items'' of
        Some (JArr raw) \<Rightarrow>
          if set (keys inputs) \<noteq> {''items''} \<or> cs_max_items cs < length raw then failM INVALID_INPUT
          else bindM (validate_items env cs [] raw) (\<lambda>items.
           bindM (run_items env child metadata 0 usage_zero Completed items) (\<lambda>(records, u, st, failure).
            bindM (pureM (mapE (\<lambda>(p, r). item_entry p r) (zip items records))) (\<lambda>entries.
             bindM (now env) (\<lambda>finished. collection_record started finished st u failure entries))))
      | _ \<Rightarrow> failM INVALID_INPUT)))"
  by (simp only: execute_collection_def collection_record_def)

lemma collection_ledger:
  assumes "execute_collection env child cs inputs metadata depth s = (Inr record, s')" "sp_has_result record"
  shows "\<exists>entries. sp_result record = JObj [(''items'', JArr entries)] \<and>
    list_all (\<lambda>v. \<exists>os. v = JObj os \<and> list_all ledger_entry os) entries"
proof -
  have fail: "failM c t \<noteq> (Inr record, s')" for c t by (simp add: failM_def raise_code_def)
  note t = assms(1) [unfolded execute_collection_record_eq bindM_Inr_iff [of "now env"]]
  then obtain started t where t: "(if MAX_COLLECTION_DEPTH \<le> depth then failM INVALID_CONFIGURATION
      else (case get inputs ''items'' of
        Some (JArr raw) \<Rightarrow>
          if set (keys inputs) \<noteq> {''items''} \<or> cs_max_items cs < length raw then failM INVALID_INPUT
          else bindM (validate_items env cs [] raw) (\<lambda>items.
           bindM (run_items env child metadata 0 usage_zero Completed items) (\<lambda>(records, u, st, failure).
            bindM (pureM (mapE (\<lambda>(p, r). item_entry p r) (zip items records))) (\<lambda>entries.
             bindM (now env) (\<lambda>finished. collection_record started finished st u failure entries))))
      | _ \<Rightarrow> failM INVALID_INPUT)) t = (Inr record, s')"
    by (elim exE conjE) (rule that)
  have "\<not> MAX_COLLECTION_DEPTH \<le> depth"
  proof (rule notI)
    assume a: "MAX_COLLECTION_DEPTH \<le> depth"
    show False by (rule notE [OF fail t [unfolded if_P [OF a]]])
  qed
  note t = t [unfolded if_not_P [OF this]]
  have "\<exists>raw. get inputs ''items'' = Some (JArr raw)"
  proof (rule ccontr)
    assume a: "\<nexists>raw. get inputs ''items'' = Some (JArr raw)"
    show False by (rule notE [OF fail t [unfolded not_array_case [OF a]]])
  qed
  then obtain raw where raw: "get inputs ''items'' = Some (JArr raw)" ..
  note t = t [unfolded raw option.case json.case]
  have "\<not> (set (keys inputs) \<noteq> {''items''} \<or> cs_max_items cs < length raw)"
  proof (rule notI)
    assume a: "set (keys inputs) \<noteq> {''items''} \<or> cs_max_items cs < length raw"
    show False by (rule notE [OF fail t [unfolded if_P [OF a]]])
  qed
  note t = t [unfolded if_not_P [OF this]]
  then obtain items r t' where "(case r of (records, u, st, failure) \<Rightarrow>
      bindM (pureM (mapE (\<lambda>(p, r). item_entry p r) (zip items records))) (\<lambda>entries.
        bindM (now env) (\<lambda>finished. collection_record started finished st u failure entries))) t' = (Inr record, s')"
    unfolding bindM_Inr_iff [of "validate_items env cs [] raw"]
      bindM_Inr_iff [of "run_items env child metadata 0 usage_zero Completed _"] by (elim exE conjE) (rule that)
  then obtain zs entries where "mapE (\<lambda>(p, r). item_entry p r) zs = Inr entries"
    "sp_result record = (if sp_has_result record then JObj [(''items'', JArr entries)] else JNull)"
    by (auto simp: bindM_Inr_iff pureM_Inr_iff collection_record_def ret_def Let_def split: prod.splits)
  with assms(2) item_entries show ?thesis by auto
qed

context schema_validator
begin

lemma collection_result_admitted:
  assumes "execute_collection env child cs inputs metadata depth s = (Inr record, s')" "sp_has_result record"
  shows "admits valid (inline_schema schemas collection_result_schema) (sp_result record)"
  using collection_ledger [OF assms] ledger_valid
  by (auto simp: admits_iff inline_schema_def static_of_def plain_view_def)

end

end
