(* ===== verification/StaticConditions.thy ===== *)
theory StaticConditions imports StaticResults StepBudgets begin

text \<open>
  \<^verbatim>\<open>compiler/conditions.py\<close>: the check of a compiled condition against static values. It refuses
  impossible pointers and incompatible types, warns about constant leaves, and returns the
  static truth of the condition. A static truth is the result of every evaluation.
\<close>

section \<open>Leaves\<close>

text \<open>\<^verbatim>\<open>condition_pointers\<close> and \<^verbatim>\<open>_source\<close>\<close>

definition leaf_pointers :: "leaf \<Rightarrow> string list" where
  "leaf_pointers lf =
     (case (bk_kind (lf_source lf), bk_pointer (lf_source lf)) of (KPointer, Some p) \<Rightarrow> [p] | _ \<Rightarrow> [])
     @ bk_members (lf_source lf)"

definition condition_pointers :: "condition \<Rightarrow> string list" where
  "condition_pointers c = concat (map leaf_pointers (condition_leaves c))"

definition source_static :: "(string \<Rightarrow> static) \<Rightarrow> leaf \<Rightarrow> static" where
  "source_static resolve lf = (let b = lf_source lf in
     if bk_kind b = KLiteral then static_of [Const (bk_literal b)]
     else if bk_kind b = KFirstOf then static_union (map resolve (bk_members b)) (Some True)
     else resolve (case bk_pointer b of Some p \<Rightarrow> p | None \<Rightarrow> []))"

definition equality :: "operator \<Rightarrow> bool" where
  "equality op \<longleftrightarrow> op \<in> {OpEquals, OpNotEquals, OpIn, OpNotIn}"

definition membership :: "operator \<Rightarrow> bool" where
  "membership op \<longleftrightarrow> op \<in> {OpIn, OpNotIn}"

text \<open>\<^verbatim>\<open>_verdict\<close>: the truth for every present value, and whether it holds for an absent one.\<close>

definition static_verdict ::
  "(string \<Rightarrow> string) \<Rightarrow> leaf \<Rightarrow> static \<Rightarrow> (compile_error, bool option \<times> bool) result" where
  "static_verdict unq lf s =
     (case static_values unq s of
        None \<Rightarrow> Inr (None, False)
      | Some allowed \<Rightarrow>
          if allowed = [] \<or> \<not> equality (lf_operator lf) then Inr (None, False)
          else bindE (if membership (lf_operator lf)
                      then (case lf_operand lf of JArr xs \<Rightarrow> Inr xs | _ \<Rightarrow> Inl Defect)
                      else Inr [lf_operand lf]) (\<lambda>operands.
            if JNull \<in> set operands then Inr (None, False)
            else let ks = set (map json_key operands);
                     positive = (lf_operator lf = OpEquals \<or> lf_operator lf = OpIn)
              in if ks \<inter> set (keys allowed) = {} then Inr (Some (\<not> positive), True)
                 else if set (keys allowed) \<subseteq> ks then Inr (Some positive, False)
                 else Inr (None, False)))"

text \<open>\<^verbatim>\<open>_combine\<close>: the verdict of a leaf only depends on the leaf.\<close>

fun combine_truth :: "(leaf \<Rightarrow> bool option) \<Rightarrow> condition \<Rightarrow> bool option" where
  "combine_truth truth (Leaf lf) = truth lf"
| "combine_truth truth (Not c) = map_option HOL.Not (combine_truth truth c)"
| "combine_truth truth (All cs) =
     (if Some False \<in> set (map (combine_truth truth) cs) then Some False
      else if set (map (combine_truth truth) cs) \<subseteq> {Some True} then Some True else None)"
| "combine_truth truth (Any cs) =
     (if Some True \<in> set (map (combine_truth truth) cs) then Some True
      else if set (map (combine_truth truth) cs) \<subseteq> {Some False} then Some False else None)"

definition strict_truth :: "(string \<Rightarrow> string) \<Rightarrow> (string \<Rightarrow> static) \<Rightarrow> leaf \<Rightarrow> bool option" where
  "strict_truth unq resolve lf =
     (case static_verdict unq lf (source_static resolve lf) of
        Inr (v, strict) \<Rightarrow> (if strict then v else None) | Inl _ \<Rightarrow> None)"

section \<open>The check\<close>

text \<open>The types an operator compares, and the types of the compared operands.\<close>

definition operator_types :: "operator \<Rightarrow> string set option" where
  "operator_types op =
     (if op \<in> {OpGt, OpGte, OpLt, OpLte} then Some {''number''}
      else if op = OpMatches then Some {''string''}
      else if op = OpLength then Some {''string'', ''array'', ''object''}
      else None)"

definition operand_items :: "leaf \<Rightarrow> json list" where
  "operand_items lf = (if equality (lf_operator lf)
     then (case lf_operand lf of JArr xs \<Rightarrow> xs | v \<Rightarrow> [v]) else [])"

definition mismatched_types :: "(string \<Rightarrow> string) \<Rightarrow> static \<Rightarrow> leaf \<Rightarrow> bool" where
  "mismatched_types unq s lf \<longleftrightarrow>
     (case operator_types (lf_operator lf) of
        Some expected \<Rightarrow> incompatible_types (static_types unq s) (Some expected) | None \<Rightarrow> False) \<or>
     (\<exists>item \<in> set (operand_items lf). item \<noteq> JNull \<and>
        incompatible_types (static_types unq s) (Some {json_type item}))"

definition leaf_text :: "leaf \<Rightarrow> string list" where
  "leaf_text lf = [case bk_pointer (lf_source lf) of
       Some (c # cs) \<Rightarrow> c # cs
     | _ \<Rightarrow> (if join '', '' (bk_members (lf_source lf)) \<noteq> [] then join '', '' (bk_members (lf_source lf)) else ''literal''),
     operator_name (lf_operator lf)]"

text \<open>The message of a warning says whether only presence changes the result.\<close>

definition leaf_warning :: "place \<Rightarrow> leaf \<Rightarrow> bool option \<times> bool \<Rightarrow> warning list \<Rightarrow> warning list" where
  "leaf_warning w lf r ws = (case r of
     (None, strict) \<Rightarrow> ws
   | (Some b, strict) \<Rightarrow>
       add_warning (Warning (if b then ''condition_always_true'' else ''condition_always_false'') w
         [if strict then 1 else 0] (leaf_text lf)) ws)"

definition check_leaf ::
  "(string \<Rightarrow> string) \<Rightarrow> (string \<Rightarrow> static) \<Rightarrow> place \<Rightarrow> leaf \<Rightarrow> warning list \<Rightarrow> (compile_error, warning list) result" where
  "check_leaf unq resolve w lf ws =
     (let s = source_static resolve lf in
      if bk_kind (lf_source lf) \<noteq> KLiteral \<and> impossible s then Inl (Refused ''dangling_pointer'' w)
      else if mismatched_types unq s lf then Inl (Refused ''condition_type_mismatch'' w)
      else mapR (\<lambda>r. leaf_warning w lf r ws) (static_verdict unq lf s))"

fun check_leaves ::
  "(string \<Rightarrow> string) \<Rightarrow> (string \<Rightarrow> static) \<Rightarrow> place \<Rightarrow> leaf list \<Rightarrow> warning list \<Rightarrow> (compile_error, warning list) result" where
  "check_leaves unq resolve w [] ws = Inr ws"
| "check_leaves unq resolve w (lf # lfs) ws =
     bindE (check_leaf unq resolve w lf ws) (check_leaves unq resolve w lfs)"

definition check_condition ::
  "(string \<Rightarrow> string) \<Rightarrow> (string \<Rightarrow> static) \<Rightarrow> place \<Rightarrow> condition \<Rightarrow> warning list \<Rightarrow>
     (compile_error, bool option \<times> warning list) result" where
  "check_condition unq resolve w c ws =
     mapR (\<lambda>ws'. (combine_truth (strict_truth unq resolve) c, ws'))
       (check_leaves unq resolve w (condition_leaves c) ws)"

section \<open>Soundness\<close>

text \<open>The operands of a compiled leaf are documents.\<close>

definition leaf_frozen :: "leaf \<Rightarrow> bool" where
  "leaf_frozen lf \<longleftrightarrow> json_wf (lf_operand lf) \<and> binding_frozen (lf_source lf)"

text \<open>Combined truths agree with the evaluation once those of the leaves do.\<close>

lemma combine_sound:
  assumes "\<forall>lf b r. lf \<in> set (condition_leaves c) \<longrightarrow> truth lf = Some b \<longrightarrow> eval_leaf fm lf ctx = Inr r \<longrightarrow> fst r = b"
  shows "combine_truth truth c = Some b \<Longrightarrow> evaluate_condition fm c ctx = Inr r \<Longrightarrow> fst r = b"
  using assms
proof (induction c arbitrary: b r)
  case (All cs)
  have all: "evaluate_all fm ds ctx = Inr r \<Longrightarrow> set ds \<subseteq> set cs \<Longrightarrow>
      (fst r \<longrightarrow> Some False \<notin> set (map (combine_truth truth) ds)) \<and>
      (set (map (combine_truth truth) ds) \<subseteq> {Some True} \<longrightarrow> fst r)" for ds r
  proof (induction ds arbitrary: r)
    case (Cons d ds)
    then obtain a t where p: "evaluate_condition fm d ctx = Inr (a, t)"
      "(if a then mapR (\<lambda>(r, u). (r, t @ u)) (evaluate_all fm ds ctx) else Inr (False, t)) = Inr r"
      by (auto simp: bindE_Inr_iff)
    have d: "combine_truth truth d = Some b \<Longrightarrow> a = b" for b
      using All.IH [of d b "(a, t)"] All.prems(3) Cons.prems(2) p(1) by (auto simp: subset_iff)
    show ?case
    proof (cases a)
      case True
      with p(2) obtain q where "evaluate_all fm ds ctx = Inr q" "fst r = fst q" by (auto simp: mapR_Inr_iff)
      with Cons.IH [of q] Cons.prems(2) d [of True] d [of False] True show ?thesis by auto
    next
      case False
      with p(2) d [of True] d [of False] show ?thesis by auto
    qed
  qed auto
  from All.prems(2) have "evaluate_all fm cs ctx = Inr r" by (auto simp: raise_code_def split: if_splits)
  from all [OF this] All.prems(1) show ?case by (auto split: if_splits)
next
  case (Any cs)
  have any: "evaluate_any fm ds ctx = Inr r \<Longrightarrow> set ds \<subseteq> set cs \<Longrightarrow>
      (\<not> fst r \<longrightarrow> Some True \<notin> set (map (combine_truth truth) ds)) \<and>
      (set (map (combine_truth truth) ds) \<subseteq> {Some False} \<longrightarrow> \<not> fst r)" for ds r
  proof (induction ds arbitrary: r)
    case (Cons d ds)
    then obtain a t where p: "evaluate_condition fm d ctx = Inr (a, t)"
      "(if a then Inr (True, t) else mapR (\<lambda>(r, u). (r, t @ u)) (evaluate_any fm ds ctx)) = Inr r"
      by (auto simp: bindE_Inr_iff)
    have d: "combine_truth truth d = Some b \<Longrightarrow> a = b" for b
      using Any.IH [of d b "(a, t)"] Any.prems(3) Cons.prems(2) p(1) by (auto simp: subset_iff)
    show ?case
    proof (cases a)
      case False
      with p(2) obtain q where "evaluate_any fm ds ctx = Inr q" "fst r = fst q" by (auto simp: mapR_Inr_iff)
      with Cons.IH [of q] Cons.prems(2) d [of True] d [of False] False show ?thesis by auto
    next
      case True
      with p(2) d [of True] d [of False] show ?thesis by auto
    qed
  qed auto
  from Any.prems(2) have "evaluate_any fm cs ctx = Inr r" by (auto simp: raise_code_def split: if_splits)
  from any [OF this] Any.prems(1) show ?case by (auto split: if_splits)
next
  case (Not c)
  then show ?case by (fastforce simp: mapR_Inr_iff)
qed auto

context schema_validator
begin

text \<open>A present source is admitted by its static value.\<close>

lemma source_sound:
  assumes resolve: "\<forall>p v. lookup_pointer p ctx = Inr (Some v) \<longrightarrow> admits valid (resolve p) v"
    and ctx: "json_wf ctx" and frozen: "leaf_frozen lf"
    and v: "resolve_source (lf_source lf) ctx = Inr (Some v)"
  shows "admits valid (source_static resolve lf) v \<and> json_wf v"
proof (cases "bk_kind (lf_source lf) = KLiteral")
  case True
  with frozen have "frozen_document (bk_literal (lf_source lf))"
    by (cases "lf_source lf") (simp add: leaf_frozen_def)
  with True v freeze_document [of "bk_literal (lf_source lf)"] show ?thesis
    by (auto simp: resolve_source_def source_static_def present_value_def static_of_def admits_iff
      admits_alternative.simps frozen_document_def split: if_splits)
next
  case False
  let ?b = "lf_source lf"
  let ?ps = "if bk_kind ?b = KPointer then [bk_pointer ?b] else map Some (bk_members ?b)"
  from v False obtain cs where cs: "mapE (\<lambda>p. lookup_pointer p ctx) (map the ?ps) = Inr cs" "first_present cs = Some v"
    and some: "None \<notin> set ?ps" and kind: "bk_kind ?b = KPointer \<or> bk_kind ?b = KFirstOf"
    by (auto simp: resolve_source_def Let_def raise_code_def mapR_Inr_iff split: if_splits)
  from first_present_Some [OF cs(2)] cs(1) obtain p where p: "p \<in> set (map the ?ps)" "lookup_pointer p ctx = Inr (Some v)"
    by (fastforce simp: mapE_Inr_iff list_all2_conv_all_nth in_set_conv_nth simp del: set_map)
  with resolve have "admits valid (resolve p) v" by blast
  moreover have "json_wf v" by (rule lookup_pointer_wf [OF p(2) ctx])
  ultimately show ?thesis using kind some p(1)
    by (auto simp: source_static_def Let_def admits_union split: if_splits option.splits)
qed

lemma strict_truth_sound:
  assumes resolve: "\<forall>p v. lookup_pointer p ctx = Inr (Some v) \<longrightarrow> admits valid (resolve p) v"
    and ctx: "json_wf ctx" and frozen: "leaf_frozen lf"
    and truth: "strict_truth unq resolve lf = Some b" and r: "eval_leaf fm lf ctx = Inr r"
  shows "fst r = b"
proof -
  let ?op = "lf_operator lf" and ?s = "source_static resolve lf"
  from truth obtain allowed where vals: "static_values unq ?s = Some allowed"
    and verdict: "static_verdict unq lf ?s = Inr (Some b, True)"
    by (auto simp: strict_truth_def static_verdict_def split: sum.splits option.splits if_splits prod.splits)
  from verdict vals obtain operands where op: "equality ?op"
    and operands: "if membership ?op then lf_operand lf = JArr operands else operands = [lf_operand lf]"
    and nonnull: "JNull \<notin> set operands" and apart: "json_key ` set operands \<inter> set (keys allowed) = {}"
    and b: "b = (\<not> (?op = OpEquals \<or> ?op = OpIn))"
    by (auto simp: static_verdict_def bindE_Inr_iff Let_def split: if_splits json.splits)
  from r obtain src where src: "resolve_source (lf_source lf) ctx = Inr src" "leaf_verdict fm lf src = Inr r"
    by (auto simp: eval_leaf_def bindE_Inr_iff)
  let ?read = "case src of Some v \<Rightarrow> v | None \<Rightarrow> JNull"
  have wf: "json_wf x" if "x \<in> set operands" for x
    using frozen operands that by (auto simp: leaf_frozen_def list_all_iff split: if_splits)
  have "\<not> json_equal ?read x" if x: "x \<in> set operands" for x
  proof (cases src)
    case None
    moreover from x nonnull have "x \<noteq> JNull" by auto
    ultimately show ?thesis by (cases x) simp_all
  next
    case (Some v)
    from source_sound [OF resolve ctx frozen] src(1) Some have v: "admits valid ?s v" "json_wf v" by auto
    from static_values_sound [OF v vals] have "json_key v \<in> set (keys allowed)" .
    with apart x have "json_key v \<noteq> json_key x" by (auto simp del: set_map)
    with json_key_equal [OF v(2) wf [OF x]] Some show ?thesis by simp
  qed
  with src(2) operands op b show ?thesis
    by (auto simp: leaf_verdict_def Let_def equality_def membership_def raise_code_def list_ex_iff
      split: json.splits list.splits)
qed

text \<open>The static truth of a checked condition is the result of every evaluation.\<close>

lemma check_condition_sound:
  assumes "\<forall>p v. lookup_pointer p ctx = Inr (Some v) \<longrightarrow> admits valid (resolve p) v" "json_wf ctx"
    and "\<forall>lf \<in> set (condition_leaves c). leaf_frozen lf"
    and "check_condition unq resolve w c ws = Inr (Some b, ws')" "evaluate_condition fm c ctx = Inr (a, t)"
  shows "a = b"
proof -
  from assms(4) have "combine_truth (strict_truth unq resolve) c = Some b"
    by (auto simp: check_condition_def mapR_Inr_iff)
  moreover have "\<forall>lf b r. lf \<in> set (condition_leaves c) \<longrightarrow> strict_truth unq resolve lf = Some b \<longrightarrow>
      eval_leaf fm lf ctx = Inr r \<longrightarrow> fst r = b"
    using strict_truth_sound [OF assms(1,2)] assms(3) by blast
  ultimately show ?thesis using combine_sound [OF _ _ assms(5)] by simp
qed

end

end
