(* ===== verification/Patterns.thy ===== *)
theory Patterns imports Conditions begin

text \<open>
  \<^verbatim>\<open>compiler/patterns.py\<close>: the estimate of the backtracking of a \<^verbatim>\<open>matches\<close> pattern, over the
  parse tree of the standard library. The parser, the width of an item that is not a group, a
  repeat or a literal, and case folding are parameters. The estimate bounds the ways in which a
  pattern can match a prefix of a bounded subject, for patterns that do not repeat an unbounded
  part a bounded number of times; for those it does not.
\<close>

section \<open>Parse trees\<close>

text \<open>
  One item of a parsed pattern. \<^verbatim>\<open>PItem\<close> is every operation the check does not look into:
  a character class, an anchor, a back reference.
\<close>

datatype pat =
    PLiteral nat
  | PRepeat nat nat "pat list"
  | PPossessive nat nat "pat list"
  | PGroup "pat list"
  | PBranch "pat list list"
  | PAtomic "pat list"
  | PLook bool "pat list"
  | PCond nat "pat list" "pat list option"
  | PItem nat

definition MAXREPEAT :: nat where "MAXREPEAT = 4294967295"
definition MAXWIDTH :: nat where "MAXWIDTH = 2 ^ 64"

definition MAX_PATTERN_WORK :: nat where "MAX_PATTERN_WORK = (MAX_MATCH_LENGTH + 1) ^ 3"

text \<open>\<^verbatim>\<open>SubPattern.getwidth\<close> of the standard library\<close>

definition cap_width :: "(nat \<times> nat) list \<Rightarrow> nat \<times> nat" where
  "cap_width ws = (min (sum_list (map fst ws)) MAXWIDTH, min (sum_list (map snd ws)) MAXWIDTH)"

definition choice_width :: "(nat \<times> nat) list \<Rightarrow> nat \<times> nat" where
  "choice_width ws = (foldr min (map fst ws) MAXWIDTH, foldr max (map snd ws) 0)"

definition repeat_width :: "nat \<Rightarrow> nat \<Rightarrow> nat \<times> nat \<Rightarrow> nat \<times> nat" where
  "repeat_width lo hi w =
     (fst w * lo, if hi = MAXREPEAT \<and> snd w \<noteq> 0 then MAXWIDTH else snd w * hi)"

fun item_width :: "(nat \<Rightarrow> nat \<times> nat) \<Rightarrow> pat \<Rightarrow> nat \<times> nat" where
  "item_width other (PLiteral c) = (1, 1)"
| "item_width other (PRepeat lo hi body) = repeat_width lo hi (cap_width (map (item_width other) body))"
| "item_width other (PPossessive lo hi body) = repeat_width lo hi (cap_width (map (item_width other) body))"
| "item_width other (PGroup body) = cap_width (map (item_width other) body)"
| "item_width other (PBranch alts) = choice_width (map (\<lambda>a. cap_width (map (item_width other) a)) alts)"
| "item_width other (PAtomic body) = cap_width (map (item_width other) body)"
| "item_width other (PLook ahead body) = (0, 0)"
| "item_width other (PCond g yes no) =
     (let y = cap_width (map (item_width other) yes) in
      case no of
        None \<Rightarrow> (0, snd y)
      | Some n \<Rightarrow> choice_width [y, cap_width (map (item_width other) n)])"
| "item_width other (PItem k) = other k"

definition getwidth :: "(nat \<Rightarrow> nat \<times> nat) \<Rightarrow> pat list \<Rightarrow> nat \<times> nat" where
  "getwidth other items = cap_width (map (item_width other) items)"

section \<open>Shapes\<close>

record shape =
  sh_work :: nat
  sh_ambiguous :: bool
  sh_unbounded :: bool
  sh_alternation :: bool

definition FIXED :: shape where
  "FIXED = \<lparr>sh_work = 1, sh_ambiguous = False, sh_unbounded = False, sh_alternation = False\<rparr>"

text \<open>\<^verbatim>\<open>UnsafePatternError\<close> with its text\<close>

type_synonym 'a unsafe = "(string, 'a) result"

definition cap :: "nat \<Rightarrow> nat" where
  "cap n = min n (MAX_PATTERN_WORK + 1)"

fun power_from :: "nat \<Rightarrow> nat \<Rightarrow> nat \<Rightarrow> nat" where
  "power_from result base 0 = result"
| "power_from result base (Suc n) =
     (let r = cap (result * base) in if r > MAX_PATTERN_WORK then r else power_from r base n)"

definition power_capped :: "nat \<Rightarrow> nat \<Rightarrow> nat" where
  "power_capped base exponent = power_from 1 base exponent"

text \<open>\<^verbatim>\<open>_sequence\<close>, on the shapes of the items\<close>

definition then_shape :: "shape \<Rightarrow> shape \<Rightarrow> shape" where
  "then_shape a b = \<lparr>sh_work = cap (sh_work a * sh_work b),
     sh_ambiguous = (sh_ambiguous a \<or> sh_ambiguous b), sh_unbounded = (sh_unbounded a \<or> sh_unbounded b),
     sh_alternation = (sh_alternation a \<or> sh_alternation b)\<rparr>"

definition sequence_shape :: "shape list \<Rightarrow> shape" where
  "sequence_shape shapes = foldl then_shape FIXED shapes"

text \<open>\<^verbatim>\<open>_deterministic\<close>: literals are compared by \<^verbatim>\<open>casefold\<close>.\<close>

definition first_literal :: "pat list \<Rightarrow> nat option" where
  "first_literal items = (case items of PLiteral c # _ \<Rightarrow> Some c | _ \<Rightarrow> None)"

definition deterministic :: "(nat \<Rightarrow> nat \<times> nat) \<Rightarrow> (nat \<Rightarrow> string) \<Rightarrow> pat list list \<Rightarrow> bool" where
  "deterministic other casefold alts \<longleftrightarrow>
     list_all (\<lambda>a. fst (getwidth other a) = snd (getwidth other a) \<and> first_literal a \<noteq> None) alts \<and>
     card (set (map (getwidth other) alts)) = 1 \<and>
     distinct (map (\<lambda>a. casefold (the (first_literal a))) alts)"

text \<open>\<^verbatim>\<open>_branches\<close>\<close>

definition branches_shape :: "bool \<Rightarrow> shape list \<Rightarrow> shape" where
  "branches_shape det shapes =
     (let overlapping = (1 < length shapes \<and> \<not> det) in
      \<lparr>sh_work = cap (sum_list (map sh_work shapes)),
       sh_ambiguous = (overlapping \<or> list_ex sh_ambiguous shapes),
       sh_unbounded = list_ex sh_unbounded shapes,
       sh_alternation = (overlapping \<or> list_ex sh_alternation shapes)\<rparr>)"

text \<open>\<^verbatim>\<open>_repeat\<close>\<close>

definition repeat_shape :: "nat \<Rightarrow> nat \<Rightarrow> shape \<Rightarrow> shape unsafe" where
  "repeat_shape lo hi body =
     (if hi = MAXREPEAT \<and> sh_unbounded body then Inl ''nested unbounded quantifier''
      else if hi = MAXREPEAT \<and> (sh_alternation body \<or> sh_ambiguous body)
      then Inl ''unbounded ambiguous repetition''
      else let iterations = min hi MAX_MATCH_LENGTH;
               counts = (iterations - lo) + 1;
               work = (if sh_ambiguous body \<and> \<not> sh_unbounded body
                 then power_capped (sh_work body) iterations * counts else counts * sh_work body)
        in Inr \<lparr>sh_work = cap work, sh_ambiguous = (sh_ambiguous body \<or> 1 < counts),
             sh_unbounded = (hi = MAXREPEAT \<or> sh_unbounded body), sh_alternation = sh_alternation body\<rparr>)"

definition committed :: "shape \<Rightarrow> shape" where
  "committed s = FIXED\<lparr>sh_work := sh_work s\<rparr>"

text \<open>\<^verbatim>\<open>_item\<close>\<close>

fun item_shape :: "(nat \<Rightarrow> nat \<times> nat) \<Rightarrow> (nat \<Rightarrow> string) \<Rightarrow> pat \<Rightarrow> shape unsafe" where
  "item_shape w cf (PLiteral c) = Inr FIXED"
| "item_shape w cf (PRepeat lo hi body) = bindE (mapR sequence_shape (mapE (item_shape w cf) body)) (repeat_shape lo hi)"
| "item_shape w cf (PPossessive lo hi body) = mapR (\<lambda>s. committed (sequence_shape s)) (mapE (item_shape w cf) body)"
| "item_shape w cf (PGroup body) = mapR sequence_shape (mapE (item_shape w cf) body)"
| "item_shape w cf (PBranch alts) =
     mapR (branches_shape (deterministic w cf alts)) (mapE (\<lambda>a. mapR sequence_shape (mapE (item_shape w cf) a)) alts)"
| "item_shape w cf (PAtomic body) = mapR (\<lambda>s. committed (sequence_shape s)) (mapE (item_shape w cf) body)"
| "item_shape w cf (PLook ahead body) = mapR (\<lambda>s. committed (sequence_shape s)) (mapE (item_shape w cf) body)"
| "item_shape w cf (PCond g yes no) =
     (case no of
        None \<Rightarrow> mapR (\<lambda>y. branches_shape True [sequence_shape y]) (mapE (item_shape w cf) yes)
      | Some n \<Rightarrow> bindE (mapE (item_shape w cf) yes) (\<lambda>y.
          mapR (\<lambda>m. branches_shape (deterministic w cf [yes, n]) [sequence_shape y, sequence_shape m])
            (mapE (item_shape w cf) n)))"
| "item_shape w cf (PItem k) = Inr FIXED"

definition items_shape :: "(nat \<Rightarrow> nat \<times> nat) \<Rightarrow> (nat \<Rightarrow> string) \<Rightarrow> pat list \<Rightarrow> shape unsafe" where
  "items_shape w cf items = mapR sequence_shape (mapE (item_shape w cf) items)"

text \<open>\<^verbatim>\<open>check_pattern\<close>; \<^verbatim>\<open>parse\<close> is the parser of the standard library.\<close>

definition check_pattern ::
  "(string \<Rightarrow> pat list option) \<Rightarrow> (nat \<Rightarrow> nat \<times> nat) \<Rightarrow> (nat \<Rightarrow> string) \<Rightarrow> string \<Rightarrow> unit unsafe" where
  "check_pattern parse w cf pattern =
     (case parse pattern of
        None \<Rightarrow> Inl ''invalid pattern''
      | Some items \<Rightarrow> bindE (items_shape w cf items) (\<lambda>s.
          if sh_work s > MAX_PATTERN_WORK then Inl ''backtracking work exceeds the bound'' else Inr ()))"

section \<open>Ways to match\<close>

text \<open>
  A subject: its length, which literals match at a position, where any other item ends, and
  which groups are set there.
\<close>

record subject =
  su_length :: nat
  su_literal :: "nat \<Rightarrow> nat \<Rightarrow> bool"
  su_other :: "nat \<Rightarrow> nat \<Rightarrow> nat option"
  su_group :: "nat \<Rightarrow> nat \<Rightarrow> bool"

text \<open>
  The ends of the matches that start at a position, one per way of matching: what a
  backtracking matcher may have to try. An iteration beyond the required ones consumes text.
\<close>

definition sequence_ends :: "(nat \<Rightarrow> nat list) list \<Rightarrow> nat \<Rightarrow> nat list" where
  "sequence_ends fs i = foldl (\<lambda>js f. concat (map f js)) [i] fs"

fun times :: "nat \<Rightarrow> (nat \<Rightarrow> nat list) \<Rightarrow> nat \<Rightarrow> nat list" where
  "times 0 f i = [i]"
| "times (Suc n) f i = concat (map (times n f) (f i))"

fun further :: "nat \<Rightarrow> (nat \<Rightarrow> nat list) \<Rightarrow> nat \<Rightarrow> nat list" where
  "further 0 f i = [i]"
| "further (Suc n) f i = i # concat (map (further n f) (filter (\<lambda>j. i < j) (f i)))"

definition repeat_ends :: "subject \<Rightarrow> nat \<Rightarrow> nat \<Rightarrow> (nat \<Rightarrow> nat list) \<Rightarrow> nat \<Rightarrow> nat list" where
  "repeat_ends su lo hi f i = concat (map (further (min (hi - lo) (su_length su)) f) (times lo f i))"

fun ends :: "subject \<Rightarrow> pat \<Rightarrow> nat \<Rightarrow> nat list" where
  "ends su (PLiteral c) i = (if i < su_length su \<and> su_literal su c i then [Suc i] else [])"
| "ends su (PRepeat lo hi body) i = repeat_ends su lo hi (\<lambda>j. sequence_ends (map (ends su) body) j) i"
| "ends su (PPossessive lo hi body) i = take 1 (repeat_ends su lo hi (\<lambda>j. sequence_ends (map (ends su) body) j) i)"
| "ends su (PGroup body) i = sequence_ends (map (ends su) body) i"
| "ends su (PBranch alts) i = concat (map (\<lambda>a. sequence_ends (map (ends su) a) i) alts)"
| "ends su (PAtomic body) i = take 1 (sequence_ends (map (ends su) body) i)"
| "ends su (PLook ahead body) i = (if (sequence_ends (map (ends su) body) i \<noteq> []) = ahead then [i] else [])"
| "ends su (PCond g yes no) i =
     (if su_group su g i then sequence_ends (map (ends su) yes) i
      else (case no of None \<Rightarrow> [i] | Some n \<Rightarrow> sequence_ends (map (ends su) n) i))"
| "ends su (PItem k) i = (case su_other su k i of None \<Rightarrow> [] | Some j \<Rightarrow> [j])"

definition matches_from :: "subject \<Rightarrow> pat list \<Rightarrow> nat \<Rightarrow> nat list" where
  "matches_from su items = sequence_ends (map (ends su) items)"

section \<open>Counting the ways\<close>

lemma length_concat_map: "(\<And>x. x \<in> set xs \<Longrightarrow> length (f x) \<le> k) \<Longrightarrow> length (concat (map f xs)) \<le> length xs * k"
proof (induction xs)
  case (Cons x xs)
  have "length (f x) \<le> k" "length (concat (map f xs)) \<le> length xs * k" using Cons by auto
  then show ?case by simp
qed simp

text \<open>A matcher moves forward within the subject.\<close>

definition forward :: "nat \<Rightarrow> (nat \<Rightarrow> nat list) \<Rightarrow> bool" where
  "forward n f \<longleftrightarrow> (\<forall>i \<le> n. \<forall>j \<in> set (f i). i \<le> j \<and> j \<le> n)"

definition at_most :: "nat \<Rightarrow> nat \<Rightarrow> (nat \<Rightarrow> nat list) \<Rightarrow> bool" where
  "at_most n k f \<longleftrightarrow> (\<forall>i \<le> n. length (f i) \<le> k)"

lemma at_most_mono: "at_most n k f \<Longrightarrow> k \<le> m \<Longrightarrow> at_most n m f"
  by (auto simp: at_most_def intro: le_trans)

lemma forward_ends: "forward n f \<Longrightarrow> i \<le> n \<Longrightarrow> j \<in> set (f i) \<Longrightarrow> i \<le> j \<and> j \<le> n"
  unfolding forward_def by blast

lemma forwardI: "(\<And>i j. i \<le> n \<Longrightarrow> j \<in> set (f i) \<Longrightarrow> i \<le> j \<and> j \<le> n) \<Longrightarrow> forward n f"
  unfolding forward_def by blast

lemma forward_bind:
  assumes "forward n f" "forward n g"
  shows "forward n (\<lambda>i. concat (map g (f i)))"
proof (rule forwardI)
  fix i j assume i: "i \<le> n" and j: "j \<in> set (concat (map g (f i)))"
  then obtain k where k: "k \<in> set (f i)" "j \<in> set (g k)" by auto
  from forward_ends [OF assms(1) i k(1)] have "i \<le> k" "k \<le> n" by auto
  with forward_ends [OF assms(2) this(2) k(2)] show "i \<le> j \<and> j \<le> n" by simp
qed

lemma forward_ret: "forward n (\<lambda>i. [i])"
  by (rule forwardI) simp

lemma forward_append: "forward n f \<Longrightarrow> forward n g \<Longrightarrow> forward n (\<lambda>i. f i @ g i)"
  by (rule forwardI) (metis Un_iff forward_ends set_append)

lemma forward_subset: "forward n f \<Longrightarrow> (\<And>i. set (g i) \<subseteq> set (f i)) \<Longrightarrow> forward n g"
  by (rule forwardI) (meson forward_ends subsetD)

lemma sequence_ends_snoc: "sequence_ends (fs @ [f]) = (\<lambda>i. concat (map f (sequence_ends fs i)))"
  by (simp add: sequence_ends_def fun_eq_iff)

lemma sequence_ends_Nil: "sequence_ends [] = (\<lambda>i. [i])"
  by (simp add: sequence_ends_def fun_eq_iff)

lemma sequence_forward: "(\<And>f. f \<in> set fs \<Longrightarrow> forward n f) \<Longrightarrow> forward n (sequence_ends fs)"
  by (induction fs rule: rev_induct) (simp_all add: sequence_ends_snoc sequence_ends_Nil forward_ret forward_bind)

lemma times_forward: "forward n f \<Longrightarrow> forward n (times m f)"
proof (induction m)
  case (Suc m)
  have "times (Suc m) f = (\<lambda>i. concat (map (times m f) (f i)))" by (simp add: fun_eq_iff)
  with Suc forward_bind show ?case by metis
next
  case 0
  have "times 0 f = (\<lambda>i. [i])" by (simp add: fun_eq_iff)
  then show ?case using forward_ret by simp
qed

lemma further_forward: "forward n f \<Longrightarrow> forward n (further m f)"
proof (induction m)
  case (Suc m)
  have "forward n (\<lambda>i. filter (\<lambda>j. i < j) (f i))" by (rule forward_subset [OF Suc.prems]) auto
  from forward_append [OF forward_ret forward_bind [OF this Suc.IH [OF Suc.prems]]]
  show ?case by (rule forward_subset) simp_all
next
  case 0
  have "further 0 f = (\<lambda>i. [i])" by (simp add: fun_eq_iff)
  then show ?case using forward_ret by simp
qed

lemma repeat_forward: "forward (su_length su) f \<Longrightarrow> forward (su_length su) (repeat_ends su lo hi f)"
  using forward_bind [OF times_forward further_forward, of "su_length su" f f] by (simp add: repeat_ends_def [abs_def])

lemma times_at_most: "forward n f \<Longrightarrow> at_most n k f \<Longrightarrow> at_most n (k ^ m) (times m f)"
proof (induction m)
  case (Suc m)
  have "length (concat (map (times m f) (f i))) \<le> k * k ^ m" if i: "i \<le> n" for i
  proof -
    have "length (concat (map (times m f) (f i))) \<le> length (f i) * k ^ m"
      using Suc forward_ends [OF Suc.prems(1) i] by (intro length_concat_map) (simp add: at_most_def)
    also have "\<dots> \<le> k * k ^ m" using Suc.prems(2) i by (simp add: at_most_def mult_right_mono)
    finally show ?thesis .
  qed
  then show ?case by (simp add: at_most_def)
qed (simp add: at_most_def)

lemma further_at_most: "forward n f \<Longrightarrow> at_most n k f \<Longrightarrow> 1 \<le> k \<Longrightarrow> at_most n (Suc m * k ^ m) (further m f)"
proof (induction m)
  case (Suc m)
  have "length (further (Suc m) f i) \<le> Suc (Suc m) * k ^ Suc m" if i: "i \<le> n" for i
  proof -
    let ?js = "filter (\<lambda>j. i < j) (f i)"
    have "length (concat (map (further m f) ?js)) \<le> length ?js * (Suc m * k ^ m)"
      using Suc forward_ends [OF Suc.prems(1) i] by (intro length_concat_map) (simp add: at_most_def)
    also have "\<dots> \<le> k * (Suc m * k ^ m)"
      using Suc.prems(2) i by (intro mult_right_mono) (auto simp: at_most_def intro: le_trans [OF length_filter_le])
    finally have "length (concat (map (further m f) ?js)) \<le> Suc m * k ^ Suc m" by (simp add: ac_simps)
    moreover have "1 \<le> k ^ Suc m" using Suc.prems(3) by (metis one_le_power)
    moreover have "length (further (Suc m) f i) = Suc (length (concat (map (further m f) ?js)))" by simp
    moreover have "Suc (Suc m) * k ^ Suc m = Suc m * k ^ Suc m + k ^ Suc m" by (simp only: mult_Suc add.commute)
    ultimately show ?thesis by linarith
  qed
  then show ?case unfolding at_most_def by blast
qed (simp add: at_most_def)

text \<open>Every way a repeat can match, when an iteration has at most \<^verbatim>\<open>k\<close> ways.\<close>

lemma repeat_at_most:
  assumes f: "forward (su_length su) f" "at_most (su_length su) k f" and k: "1 \<le> k" and lo: "lo \<le> hi"
  shows "at_most (su_length su) (k ^ hi * (hi - lo + 1)) (repeat_ends su lo hi f)"
proof -
  let ?n = "su_length su" and ?m = "min (hi - lo) (su_length su)"
  have "length (repeat_ends su lo hi f i) \<le> k ^ hi * (hi - lo + 1)" if i: "i \<le> ?n" for i
  proof -
    have "length (further ?m f j) \<le> Suc ?m * k ^ ?m" if "j \<in> set (times lo f i)" for j
      using further_at_most [OF f k] forward_ends [OF times_forward [OF f(1)] i that] by (simp add: at_most_def)
    from length_concat_map [OF this]
    have "length (repeat_ends su lo hi f i) \<le> length (times lo f i) * (Suc ?m * k ^ ?m)"
      unfolding repeat_ends_def by simp
    also have "\<dots> \<le> k ^ lo * (Suc ?m * k ^ ?m)"
      using times_at_most [OF f] i by (intro mult_right_mono) (simp_all add: at_most_def)
    also have "\<dots> = Suc ?m * k ^ (lo + ?m)" by (simp only: power_add ac_simps)
    also have "\<dots> \<le> (hi - lo + 1) * k ^ hi" using k lo by (intro mult_mono power_increasing) auto
    finally show ?thesis by (simp add: ac_simps)
  qed
  then show ?thesis by (simp add: at_most_def)
qed

text \<open>
  When an iteration has at most one way, the required iterations consume text or stay where
  they are.
\<close>

lemma times_one:
  assumes f: "forward n f" "at_most n 1 f"
  shows "i \<le> n \<Longrightarrow> times m f i = [] \<or> (\<exists>j. times m f i = [j] \<and> (i + m \<le> j \<or> f j = [j]))"
proof (induction m arbitrary: i)
  case (Suc m)
  from f(2) Suc.prems have "length (f i) \<le> 1" by (simp add: at_most_def)
  then consider "f i = []" | k where "f i = [k]" by (cases "f i") auto
  then show ?case
  proof cases
    case 2
    with forward_ends [OF f(1) Suc.prems] have k: "i \<le> k" "k \<le> n" by auto
    show ?thesis
    proof (cases "k = i")
      case True
      then have "times m f i = [i]" using 2 by (induction m) auto
      with 2 True show ?thesis by simp
    next
      case False
      with Suc.IH [OF k(2)] 2 k(1) show ?thesis by auto
    qed
  qed simp
qed simp

lemma further_one:
  assumes f: "forward n f" "at_most n 1 f"
  shows "i \<le> n \<Longrightarrow> length (further m f i) \<le> Suc m \<and> length (further m f i) \<le> Suc (n - i)"
proof (induction m arbitrary: i)
  case (Suc m)
  from f(2) Suc.prems have "length (f i) \<le> 1" by (simp add: at_most_def)
  then consider "filter (\<lambda>j. i < j) (f i) = []" | k where "filter (\<lambda>j. i < j) (f i) = [k]" "k \<in> set (f i)" "i < k"
    by (cases "f i"; cases "i < hd (f i)") auto
  then show ?case
  proof cases
    case 2
    with forward_ends [OF f(1) Suc.prems] have k: "k \<le> n" by auto
    from Suc.IH [OF k] 2 k show ?thesis by auto
  qed auto
qed simp

lemma repeat_one:
  assumes f: "forward (su_length su) f" "at_most (su_length su) 1 f" and len: "su_length su \<le> MAX_MATCH_LENGTH"
  shows "at_most (su_length su) (min hi MAX_MATCH_LENGTH - lo + 1) (repeat_ends su lo hi f)"
proof -
  let ?n = "su_length su" and ?m = "min (hi - lo) (su_length su)"
  have "length (repeat_ends su lo hi f i) \<le> min hi MAX_MATCH_LENGTH - lo + 1" if i: "i \<le> ?n" for i
    using times_one [OF f i, of lo]
  proof
    assume "\<exists>j. times lo f i = [j] \<and> (i + lo \<le> j \<or> f j = [j])"
    then obtain j where j: "times lo f i = [j]" "i + lo \<le> j \<or> f j = [j]" by blast
    with forward_ends [OF times_forward [OF f(1)] i, of j lo] have jn: "j \<le> ?n" by simp
    have ends: "repeat_ends su lo hi f i = further ?m f j" by (simp add: repeat_ends_def j(1))
    from j(2) show ?thesis
    proof
      assume "i + lo \<le> j"
      with further_one [OF f jn, of ?m] len jn show ?thesis unfolding ends by linarith
    next
      assume "f j = [j]"
      then have "further ?m f j = [j]" by (cases ?m) simp_all
      then show ?thesis unfolding ends by simp
    qed
  qed (simp add: repeat_ends_def)
  then show ?thesis by (simp add: at_most_def)
qed

section \<open>Shapes bound the ways\<close>

text \<open>What the parser and the matcher of the standard library provide.\<close>

fun parsed :: "pat \<Rightarrow> bool" where
  "parsed (PRepeat lo hi body) \<longleftrightarrow> lo \<le> hi \<and> list_all parsed body"
| "parsed (PPossessive lo hi body) \<longleftrightarrow> lo \<le> hi \<and> list_all parsed body"
| "parsed (PGroup body) \<longleftrightarrow> list_all parsed body"
| "parsed (PBranch alts) \<longleftrightarrow> alts \<noteq> [] \<and> list_all (list_all parsed) alts"
| "parsed (PAtomic body) \<longleftrightarrow> list_all parsed body"
| "parsed (PLook ahead body) \<longleftrightarrow> list_all parsed body"
| "parsed (PCond g yes no) \<longleftrightarrow> list_all parsed yes \<and> (case no of None \<Rightarrow> True | Some n \<Rightarrow> list_all parsed n)"
| "parsed _ \<longleftrightarrow> True"

definition subject_ok :: "(nat \<Rightarrow> string) \<Rightarrow> subject \<Rightarrow> bool" where
  "subject_ok cf su \<longleftrightarrow> su_length su \<le> MAX_MATCH_LENGTH \<and>
     (\<forall>k i j. i \<le> su_length su \<longrightarrow> su_other su k i = Some j \<longrightarrow> i \<le> j \<and> j \<le> su_length su) \<and>
     (\<forall>c d i. su_literal su c i \<longrightarrow> su_literal su d i \<longrightarrow> cf c = cf d)"

text \<open>No part without bound is repeated a bounded number of times.\<close>

fun plain :: "(nat \<Rightarrow> nat \<times> nat) \<Rightarrow> (nat \<Rightarrow> string) \<Rightarrow> pat \<Rightarrow> bool" where
  "plain w cf (PRepeat lo hi body) \<longleftrightarrow> list_all (plain w cf) body \<and>
     (hi = MAXREPEAT \<or> hi \<le> 1 \<or> (case items_shape w cf body of Inr s \<Rightarrow> \<not> sh_unbounded s | Inl _ \<Rightarrow> True))"
| "plain w cf (PGroup body) \<longleftrightarrow> list_all (plain w cf) body"
| "plain w cf (PBranch alts) \<longleftrightarrow> list_all (list_all (plain w cf)) alts"
| "plain w cf (PCond g yes no) \<longleftrightarrow> list_all (plain w cf) yes \<and>
     (case no of None \<Rightarrow> True | Some n \<Rightarrow> list_all (plain w cf) n)"
| "plain w cf _ \<longleftrightarrow> True"

definition shape_fits :: "subject \<Rightarrow> shape \<Rightarrow> (nat \<Rightarrow> nat list) \<Rightarrow> bool" where
  "shape_fits su s f \<longleftrightarrow> 1 \<le> sh_work s \<and> forward (su_length su) f \<and>
     (sh_work s \<le> MAX_PATTERN_WORK \<longrightarrow> at_most (su_length su) (sh_work s) f) \<and>
     (\<not> sh_ambiguous s \<longrightarrow> at_most (su_length su) 1 f)"

lemma cap_le: "cap n \<le> MAX_PATTERN_WORK \<longleftrightarrow> n \<le> MAX_PATTERN_WORK" "cap n \<le> n"
  by (auto simp: cap_def)

lemma cap_small: "n \<le> MAX_PATTERN_WORK \<Longrightarrow> cap n = n"
  by (simp add: cap_def)

lemma cap_pos: "1 \<le> n \<Longrightarrow> 1 \<le> cap n"
  by (simp add: cap_def)

lemma power_from_pos: "1 \<le> r \<Longrightarrow> 1 \<le> b \<Longrightarrow> 1 \<le> power_from r b n"
proof (induction r b n rule: power_from.induct)
  case (2 r b n)
  then have "1 \<le> cap (r * b)" by (intro cap_pos) simp
  with 2 show ?case by (simp add: Let_def)
qed simp

text \<open>A power that does not exceed the bound is exact.\<close>

lemma power_from_small: "power_from r b n \<le> MAX_PATTERN_WORK \<Longrightarrow> power_from r b n = r * b ^ n"
proof (induction r b n rule: power_from.induct)
  case (2 r b n)
  show ?case
  proof (cases "cap (r * b) > MAX_PATTERN_WORK")
    case True
    with 2(2) show ?thesis by (simp add: Let_def)
  next
    case False
    then have "cap (r * b) = r * b" by (auto simp: cap_def)
    with 2 False show ?thesis by (simp add: Let_def ac_simps)
  qed
qed simp

lemma power_capped_small: "power_capped b n \<le> MAX_PATTERN_WORK \<Longrightarrow> power_capped b n = b ^ n"
  unfolding power_capped_def using power_from_small [of 1 b n] by simp

lemma MAX_PATTERN_WORK_val: "MAX_PATTERN_WORK = 1076890625"
  by (simp add: MAX_PATTERN_WORK_def MAX_MATCH_LENGTH_def)

lemma fits_fixed: "forward (su_length su) f \<Longrightarrow> at_most (su_length su) 1 f \<Longrightarrow> shape_fits su FIXED f"
  by (simp add: shape_fits_def FIXED_def)

lemma fits_committed:
  assumes "forward (su_length su) f" "at_most (su_length su) 1 f" "1 \<le> sh_work s"
  shows "shape_fits su (committed s) f"
  using assms at_most_mono [OF assms(2,3)] by (simp add: shape_fits_def committed_def FIXED_def)

lemma at_most_bind:
  assumes "forward n f" "at_most n k f" "at_most n m g"
  shows "at_most n (k * m) (\<lambda>i. concat (map g (f i)))"
  unfolding at_most_def
proof (intro allI impI)
  fix i assume i: "i \<le> n"
  have "length (concat (map g (f i))) \<le> length (f i) * m"
    using forward_ends [OF assms(1) i] assms(3) by (intro length_concat_map) (simp add: at_most_def)
  also have "\<dots> \<le> k * m" using assms(2) i by (simp add: at_most_def)
  finally show "length (concat (map g (f i))) \<le> k * m" .
qed

lemma fits_then:
  assumes "shape_fits su a f" "shape_fits su b g"
  shows "shape_fits su (then_shape a b) (\<lambda>i. concat (map g (f i)))"
proof -
  let ?n = "su_length su"
  have pos: "1 \<le> sh_work a" "1 \<le> sh_work b" and fw: "forward ?n f" "forward ?n g"
    using assms by (simp_all add: shape_fits_def)
  have le: "sh_work a \<le> sh_work a * sh_work b" "sh_work b \<le> sh_work a * sh_work b" using pos by simp_all
  have "at_most ?n (sh_work a * sh_work b) (\<lambda>i. concat (map g (f i)))"
    if "sh_work a * sh_work b \<le> MAX_PATTERN_WORK"
    using assms le that by (intro at_most_bind [OF fw(1)]) (auto simp: shape_fits_def)
  moreover have "at_most ?n 1 (\<lambda>i. concat (map g (f i)))" if "\<not> sh_ambiguous a" "\<not> sh_ambiguous b"
    using at_most_bind [OF fw(1), of 1 1 g] assms that by (simp add: shape_fits_def)
  moreover have "1 \<le> cap (sh_work a * sh_work b)" using pos by (intro cap_pos) simp
  ultimately show ?thesis
    using forward_bind [OF fw] by (simp add: shape_fits_def then_shape_def cap_le cap_small)
qed

lemma fits_sequence: "list_all2 (shape_fits su) ss fs \<Longrightarrow> shape_fits su (sequence_shape ss) (sequence_ends fs)"
proof (induction fs arbitrary: ss rule: rev_induct)
  case Nil
  then show ?case
    by (simp add: sequence_shape_def sequence_ends_Nil fits_fixed forward_ret at_most_def)
next
  case (snoc f fs)
  then obtain ts s where ss: "ss = ts @ [s]" "list_all2 (shape_fits su) ts fs" "shape_fits su s f"
    by (auto simp: list_all2_append2 list_all2_Cons2)
  from fits_then [OF snoc.IH [OF ss(2)] ss(3)] show ?case
    by (simp add: ss(1) sequence_shape_def sequence_ends_snoc)
qed

lemma fits_repeat:
  assumes s: "repeat_shape lo hi b = Inr s" and f: "shape_fits su b f" and lo: "lo \<le> hi"
    and len: "su_length su \<le> MAX_MATCH_LENGTH"
    and flat: "hi = MAXREPEAT \<or> hi \<le> 1 \<or> \<not> sh_unbounded b"
  shows "shape_fits su s (repeat_ends su lo hi f)"
proof -
  let ?n = "su_length su" and ?it = "min hi MAX_MATCH_LENGTH" and ?r = "repeat_ends su lo hi f"
  let ?counts = "?it - lo + 1" and ?W = "sh_work b"
  have W: "1 \<le> ?W" and fw: "forward ?n f" and small: "?W \<le> MAX_PATTERN_WORK \<Longrightarrow> at_most ?n ?W f"
    and one: "\<not> sh_ambiguous b \<Longrightarrow> at_most ?n 1 f" using f by (auto simp: shape_fits_def)
  have unb: "\<not> (hi = MAXREPEAT \<and> (sh_unbounded b \<or> sh_alternation b \<or> sh_ambiguous b))"
    and work: "sh_work s = cap (if sh_ambiguous b \<and> \<not> sh_unbounded b
      then power_capped ?W ?it * ?counts else ?counts * ?W)"
    and amb: "sh_ambiguous s \<longleftrightarrow> sh_ambiguous b \<or> 1 < ?counts"
    using s by (auto simp: repeat_shape_def Let_def split: if_splits)
  have det: "at_most ?n ?counts ?r" if "at_most ?n 1 f" by (rule repeat_one [OF fw that len])
  have power: "1 \<le> power_capped ?W ?it" unfolding power_capped_def using W by (intro power_from_pos) simp_all
  have pos: "1 \<le> sh_work s" unfolding work using W power by (simp add: cap_def)
  have bound: "at_most ?n (sh_work s) ?r" if le: "sh_work s \<le> MAX_PATTERN_WORK"
  proof (cases "sh_ambiguous b")
    case False
    with le work have "sh_work s = ?counts * ?W" by (simp add: cap_le cap_small)
    moreover have "?counts * 1 \<le> ?counts * ?W" using W by (rule mult_le_mono2)
    ultimately show ?thesis using at_most_mono [OF det [OF one [OF False]], of "?counts * ?W"] by simp
  next
    case True
    show ?thesis
    proof (cases "sh_unbounded b")
      case unbounded: True
      with flat unb True have hi: "hi \<le> 1" by auto
      then have it: "?it = hi" by (simp add: MAX_MATCH_LENGTH_def)
      from le work unbounded have w: "sh_work s = (hi - lo + 1) * ?W" by (simp add: cap_le cap_small it)
      have "?W \<le> (hi - lo + 1) * ?W" by simp
      with le w have "?W \<le> MAX_PATTERN_WORK" by linarith
      from repeat_at_most [OF fw small [OF this] W lo] have r: "at_most ?n (?W ^ hi * (hi - lo + 1)) ?r" .
      have "?W ^ hi \<le> ?W" using hi W by (cases hi) simp_all
      then have "?W ^ hi * (hi - lo + 1) \<le> sh_work s" unfolding w by (metis mult.commute mult_le_mono2)
      with at_most_mono [OF r] show ?thesis by blast
    next
      case bounded: False
      with le work True have p: "sh_work s = power_capped ?W ?it * ?counts" by (simp add: cap_le cap_small)
      have "power_capped ?W ?it * 1 \<le> power_capped ?W ?it * ?counts" by (intro mult_le_mono2) simp
      with le p have "power_capped ?W ?it \<le> MAX_PATTERN_WORK" by linarith
      then have pw: "power_capped ?W ?it = ?W ^ ?it" "?W ^ ?it \<le> MAX_PATTERN_WORK" using power_capped_small by metis+
      show ?thesis
      proof (cases "?it = 0")
        case True
        with lo have "hi = 0" "lo = 0" by (simp_all add: MAX_MATCH_LENGTH_def)
        then have "?r = (\<lambda>i. [i])" by (simp add: repeat_ends_def fun_eq_iff)
        with pos show ?thesis by (simp add: at_most_def)
      next
        case False
        have "?W ^ 1 \<le> ?W ^ ?it" using W False by (intro power_increasing) simp_all
        with pw have Wsmall: "at_most ?n ?W f" by (intro small) simp
        show ?thesis
        proof (cases "?W = 1")
          case True
          with Wsmall det p pw(1) show ?thesis by simp
        next
          case False
          have "?it < 31"
          proof (rule ccontr)
            assume "\<not> ?it < 31"
            then have "31 \<le> ?it" by linarith
            then have "(2::nat) ^ 31 \<le> 2 ^ ?it" by (rule power_increasing) simp
            also have "\<dots> \<le> ?W ^ ?it" using W False by (intro power_mono) simp_all
            finally show False using pw(2) by (simp add: MAX_PATTERN_WORK_val)
          qed
          then have it: "?it = hi" by (simp add: MAX_MATCH_LENGTH_def)
          from repeat_at_most [OF fw Wsmall W lo] show ?thesis unfolding p pw(1) unfolding it .
        qed
      qed
    qed
  qed
  have "at_most ?n 1 ?r" if "\<not> sh_ambiguous s"
    using that amb at_most_mono [OF det [OF one]] by auto
  with pos bound repeat_forward [OF fw] show ?thesis by (simp add: shape_fits_def)
qed

lemma concat_one:
  "(\<And>f. f \<in> set fs \<Longrightarrow> length (f i) \<le> 1) \<Longrightarrow>
   (\<And>k m. k < length fs \<Longrightarrow> m < length fs \<Longrightarrow> (fs ! k) i \<noteq> [] \<Longrightarrow> (fs ! m) i \<noteq> [] \<Longrightarrow> k = m) \<Longrightarrow>
   length (concat (map (\<lambda>f. f i) fs)) \<le> 1"
proof (induction fs)
  case (Cons f fs)
  show ?case
  proof (cases "f i = []")
    case True
    have "length (concat (map (\<lambda>f. f i) fs)) \<le> 1"
    proof (rule Cons.IH)
      show "k = m" if "k < length fs" "m < length fs" "(fs ! k) i \<noteq> []" "(fs ! m) i \<noteq> []" for k m
        using Cons.prems(2) [of "Suc k" "Suc m"] that by simp
    qed (use Cons.prems(1) in auto)
    with True show ?thesis by simp
  next
    case False
    have "g i = []" if "g \<in> set fs" for g
    proof -
      from that obtain k where "k < length fs" "fs ! k = g" by (auto simp: in_set_conv_nth)
      with Cons.prems(2) [of 0 "Suc k"] False show ?thesis by auto
    qed
    then have "length (concat (map (\<lambda>f. f i) fs)) = 0" by simp
    moreover have "length (concat (map (\<lambda>f. f i) (f # fs))) = length (f i) + length (concat (map (\<lambda>f. f i) fs))" by simp
    moreover have "length (f i) \<le> 1" using Cons.prems(1) by simp
    ultimately show ?thesis by linarith
  qed
qed simp

text \<open>Alternatives whose first literals differ exclude each other.\<close>

definition exclusive :: "nat \<Rightarrow> (nat \<Rightarrow> nat list) list \<Rightarrow> bool" where
  "exclusive n fs \<longleftrightarrow> (\<forall>i \<le> n. \<forall>k < length fs. \<forall>m < length fs. (fs ! k) i \<noteq> [] \<longrightarrow> (fs ! m) i \<noteq> [] \<longrightarrow> k = m)"

lemma sum_list_at_most:
  "list_all2 (\<lambda>s f. sh_work s \<le> m \<longrightarrow> length (f i) \<le> sh_work s) ss fs \<Longrightarrow> sum_list (map sh_work ss) \<le> m \<Longrightarrow>
     length (concat (map (\<lambda>f. f i) fs)) \<le> sum_list (map sh_work ss)"
proof (induction ss fs rule: list_all2_induct)
  case (Cons s ss f fs)
  then have "length (f i) \<le> sh_work s" "length (concat (map (\<lambda>f. f i) fs)) \<le> sum_list (map sh_work ss)" by auto
  then show ?case by simp
qed simp

lemma fits_branches:
  assumes "list_all2 (shape_fits su) ss fs" "ss \<noteq> []" "det \<Longrightarrow> exclusive (su_length su) fs"
  shows "shape_fits su (branches_shape det ss) (\<lambda>i. concat (map (\<lambda>f. f i) fs))"
proof -
  let ?n = "su_length su" and ?f = "\<lambda>i. concat (map (\<lambda>f. f i) fs)"
  have fw: "forward ?n f" if "f \<in> set fs" for f
    using assms(1) that by (auto simp: list_all2_conv_all_nth in_set_conv_nth shape_fits_def)
  have forward: "forward ?n ?f"
    by (rule forwardI) (auto dest: fw forward_ends)
  obtain s rest where ss: "ss = s # rest" using assms(2) by (cases ss) auto
  with assms(1) have "1 \<le> sh_work s" by (auto simp: list_all2_Cons1 shape_fits_def)
  with ss have "1 \<le> sum_list (map sh_work ss)" by simp
  moreover have "at_most ?n (sum_list (map sh_work ss)) ?f" if "sum_list (map sh_work ss) \<le> MAX_PATTERN_WORK"
  proof -
    have "length (?f i) \<le> sum_list (map sh_work ss)" if i: "i \<le> ?n" for i
      using sum_list_at_most [OF list_all2_mono [OF assms(1)] \<open>sum_list (map sh_work ss) \<le> MAX_PATTERN_WORK\<close>, of i] i
      by (auto simp: shape_fits_def at_most_def)
    then show ?thesis by (simp add: at_most_def)
  qed
  moreover have "at_most ?n 1 ?f" if amb: "\<not> sh_ambiguous (branches_shape det ss)"
  proof -
    have "\<forall>s \<in> set ss. \<not> sh_ambiguous s" using amb by (auto simp: branches_shape_def Let_def list_ex_iff)
    then have each: "at_most ?n 1 f" if "f \<in> set fs" for f
      using assms(1) that by (fastforce simp: list_all2_conv_all_nth in_set_conv_nth shape_fits_def)
    have len: "length fs = length ss" using assms(1) by (simp add: list_all2_lengthD)
    have "length (?f i) \<le> 1" if i: "i \<le> ?n" for i
    proof (rule concat_one)
      show "k = m" if "k < length fs" "m < length fs" "(fs ! k) i \<noteq> []" "(fs ! m) i \<noteq> []" for k m
      proof (cases "1 < length ss")
        case True
        with amb have det by (auto simp: branches_shape_def Let_def)
        from assms(3) [OF this] i that show ?thesis unfolding exclusive_def by blast
      qed (use that len in linarith)
    qed (use each i in \<open>auto simp: at_most_def\<close>)
    then show ?thesis by (simp add: at_most_def)
  qed
  moreover have "1 \<le> cap (sum_list (map sh_work ss))" by (rule cap_pos) fact
  ultimately show ?thesis
    using forward by (simp add: shape_fits_def branches_shape_def Let_def cap_le cap_small)
qed

lemma sequence_ends_Cons: "f i = [] \<Longrightarrow> sequence_ends (f # fs) i = []"
proof -
  have "foldl (\<lambda>js f. concat (map f js)) [] fs = []" by (induction fs) simp_all
  then show "f i = [] \<Longrightarrow> ?thesis" by (simp add: sequence_ends_def)
qed

lemma deterministic_exclusive:
  assumes "deterministic w cf alts" "subject_ok cf su"
  shows "exclusive (su_length su) (map (\<lambda>a. sequence_ends (map (ends su) a)) alts)"
proof -
  have lit: "\<exists>c. first_literal a = Some c \<and> su_literal su c i"
    if "a \<in> set alts" "sequence_ends (map (ends su) a) i \<noteq> []" for a i
  proof -
    from assms(1) that(1) obtain c where c: "first_literal a = Some c"
      by (auto simp: deterministic_def list_all_iff)
    then obtain rest where a: "a = PLiteral c # rest"
      by (auto simp: first_literal_def split: list.splits pat.splits)
    with that(2) sequence_ends_Cons [of "ends su (PLiteral c)" i "map (ends su) rest"]
    have "ends su (PLiteral c) i \<noteq> []" by (auto simp del: ends.simps)
    with c show ?thesis by (auto split: if_splits)
  qed
  show ?thesis unfolding exclusive_def length_map
  proof (intro allI impI)
    fix i k m
    assume km: "k < length alts" "m < length alts"
      and "(map (\<lambda>a. sequence_ends (map (ends su) a)) alts ! k) i \<noteq> []"
        "(map (\<lambda>a. sequence_ends (map (ends su) a)) alts ! m) i \<noteq> []"
    then have ends: "sequence_ends (map (ends su) (alts ! k)) i \<noteq> []" "sequence_ends (map (ends su) (alts ! m)) i \<noteq> []"
      by simp_all
    from lit [OF nth_mem [OF km(1)] ends(1)] lit [OF nth_mem [OF km(2)] ends(2)] obtain c d where
      "first_literal (alts ! k) = Some c" "first_literal (alts ! m) = Some d" "su_literal su c i" "su_literal su d i" by blast
    moreover have "cf c = cf d" using assms(2) calculation(3,4) unfolding subject_ok_def by blast
    ultimately have "cf (the (first_literal (alts ! k))) = cf (the (first_literal (alts ! m)))" by simp
    moreover have "distinct (map (\<lambda>a. cf (the (first_literal a))) alts)" using assms(1) by (simp add: deterministic_def)
    ultimately show "k = m"
      using km nth_eq_iff_index_eq [of "map (\<lambda>a. cf (the (first_literal a))) alts" k m] by simp
  qed
qed

section \<open>The estimate is sound\<close>

lemma ends_forward:
  assumes su: "subject_ok cf su"
  shows "forward (su_length su) (ends su p)"
proof (induction p rule: pat.induct)
  have seq: "forward (su_length su) (sequence_ends (map (ends su) body))"
    if "\<And>q. q \<in> set body \<Longrightarrow> forward (su_length su) (ends su q)" for body
    using that by (intro sequence_forward) auto
  have first: "forward (su_length su) (\<lambda>i. take 1 (f i))" if "forward (su_length su) f" for f
    by (rule forward_subset [OF that]) (rule set_take_subset)
  {
    case (PLiteral c)
    show ?case by (rule forwardI) (auto split: if_splits)
  next
    case (PRepeat lo hi body)
    from repeat_forward [OF seq [of body, OF PRepeat], where lo = lo and hi = hi] show ?case by (rule forward_subset) simp_all
  next
    case (PPossessive lo hi body)
    from first [OF repeat_forward [OF seq [of body, OF PPossessive], where lo = lo and hi = hi]] show ?case by (rule forward_subset) simp_all
  next
    case (PGroup body)
    from seq [of body, OF PGroup] show ?case by (rule forward_subset) simp_all
  next
    case (PBranch alts)
    show ?case
    proof (rule forwardI)
      fix i j assume i: "i \<le> su_length su" and "j \<in> set (ends su (PBranch alts) i)"
      then obtain a where a: "a \<in> set alts" "j \<in> set (sequence_ends (map (ends su) a) i)" by auto
      from forward_ends [OF seq [OF PBranch [OF a(1)]] i a(2)] show "i \<le> j \<and> j \<le> su_length su" .
    qed
  next
    case (PAtomic body)
    from first [OF seq [of body, OF PAtomic]] show ?case by (rule forward_subset) simp_all
  next
    case (PLook ahead body)
    show ?case by (rule forward_subset [OF forward_ret]) auto
  next
    case (PCond g yes no)
    have "forward (su_length su) (\<lambda>i. case no of None \<Rightarrow> [i] | Some n \<Rightarrow> sequence_ends (map (ends su) n) i)"
      using PCond(2) seq forward_ret by (cases no) auto
    from forward_append [OF seq [OF PCond(1)] this] show ?case by (rule forward_subset) auto
  next
    case (PItem k)
    show ?case
    proof (rule forwardI)
      fix i j assume i: "i \<le> su_length su" and "j \<in> set (ends su (PItem k) i)"
      then have "su_other su k i = Some j" by (simp split: option.splits)
      with su i show "i \<le> j \<and> j \<le> su_length su" unfolding subject_ok_def by blast
    qed
  }
qed

lemma take_at_most: "at_most n 1 (\<lambda>i. take 1 (f i))"
  by (simp add: at_most_def)

text \<open>The work of a shape is positive; that of a committed part still counts.\<close>

lemma then_pos: "1 \<le> sh_work a \<Longrightarrow> 1 \<le> sh_work b \<Longrightarrow> 1 \<le> sh_work (then_shape a b)"
  by (simp add: then_shape_def cap_def)

lemma sequence_pos: "list_all (\<lambda>s. 1 \<le> sh_work s) ss \<Longrightarrow> 1 \<le> sh_work (sequence_shape ss)"
proof (induction ss rule: rev_induct)
  case (snoc s ss)
  then show ?case using then_pos [of "sequence_shape ss" s] by (simp add: sequence_shape_def)
qed (simp add: sequence_shape_def FIXED_def)

lemma branches_pos: "list_all (\<lambda>s. 1 \<le> sh_work s) ss \<Longrightarrow> ss \<noteq> [] \<Longrightarrow> 1 \<le> sh_work (branches_shape det ss)"
  by (cases ss) (simp_all add: branches_shape_def cap_def Let_def)

lemma repeat_pos: "repeat_shape lo hi b = Inr s \<Longrightarrow> 1 \<le> sh_work b \<Longrightarrow> 1 \<le> sh_work s"
  using power_from_pos [of 1 "sh_work b" "min hi MAX_MATCH_LENGTH"]
  by (auto simp: repeat_shape_def Let_def cap_def power_capped_def split: if_splits)

lemma mapE_list_all: "mapE f xs = Inr ys \<Longrightarrow> \<forall>x \<in> set xs. \<forall>y. f x = Inr y \<longrightarrow> P y \<Longrightarrow> list_all P ys"
  unfolding mapE_Inr_iff list_all2_conv_all_nth list_all_length by (metis nth_mem)

lemma shape_pos: "item_shape w cf p = Inr s \<Longrightarrow> parsed p \<Longrightarrow> 1 \<le> sh_work s"
proof (induction p arbitrary: s rule: pat.induct)
  have seq: "1 \<le> sh_work (sequence_shape ss)" if "mapE (item_shape w cf) body = Inr ss" "list_all parsed body"
    "\<And>q s. q \<in> set body \<Longrightarrow> item_shape w cf q = Inr s \<Longrightarrow> parsed q \<Longrightarrow> 1 \<le> sh_work s" for body ss
    using that by (intro sequence_pos mapE_list_all [OF that(1)]) (auto simp: list_all_iff)
  note seq = seq [unfolded One_nat_def]
  {
    case (PRepeat lo hi body)
    then obtain ss where ss: "mapE (item_shape w cf) body = Inr ss" "repeat_shape lo hi (sequence_shape ss) = Inr s"
      by (auto simp: bindE_Inr_iff mapR_Inr_iff)
    with seq [OF ss(1)] PRepeat repeat_pos show ?case by auto
  next
    case (PPossessive lo hi body)
    then obtain ss where ss: "mapE (item_shape w cf) body = Inr ss" "s = committed (sequence_shape ss)"
      by (auto simp: mapR_Inr_iff)
    with seq [OF ss(1)] PPossessive show ?case by (auto simp: committed_def)
  next
    case (PGroup body)
    then show ?case by (auto simp: mapR_Inr_iff intro: seq)
  next
    case (PBranch alts)
    then obtain ss where ss: "mapE (\<lambda>a. mapR sequence_shape (mapE (item_shape w cf) a)) alts = Inr ss"
      "s = branches_shape (deterministic w cf alts) ss" by (auto simp: mapR_Inr_iff)
    have "list_all (\<lambda>s. 1 \<le> sh_work s) ss"
      by (rule mapE_list_all [OF ss(1)]) (use PBranch in \<open>auto simp: mapR_Inr_iff list_all_iff intro!: seq\<close>)
    moreover have "ss \<noteq> []" using mapE_length [OF ss(1)] PBranch.prems(2) by auto
    ultimately show ?case using ss(2) branches_pos by simp
  next
    case (PAtomic body)
    then obtain ss where ss: "mapE (item_shape w cf) body = Inr ss" "s = committed (sequence_shape ss)"
      by (auto simp: mapR_Inr_iff)
    with seq [OF ss(1)] PAtomic show ?case by (auto simp: committed_def)
  next
    case (PLook ahead body)
    then obtain ss where ss: "mapE (item_shape w cf) body = Inr ss" "s = committed (sequence_shape ss)"
      by (auto simp: mapR_Inr_iff)
    with seq [OF ss(1)] PLook show ?case by (auto simp: committed_def)
  next
    case (PCond g yes no)
    have y: "1 \<le> sh_work (sequence_shape y)" if "mapE (item_shape w cf) yes = Inr y" for y
      using seq [OF that] PCond by auto
    show ?case
    proof (cases no)
      case None
      with PCond.prems(1) obtain y where "mapE (item_shape w cf) yes = Inr y"
        "s = branches_shape True [sequence_shape y]" by (auto simp: mapR_Inr_iff)
      with y [OF this(1)] show ?thesis by (simp add: branches_pos [unfolded One_nat_def])
    next
      case (Some n)
      with PCond.prems(1) obtain y m where m: "mapE (item_shape w cf) yes = Inr y" "mapE (item_shape w cf) n = Inr m"
        "s = branches_shape (deterministic w cf [yes, n]) [sequence_shape y, sequence_shape m]"
        by (auto simp: mapR_Inr_iff bindE_Inr_iff)
      have "1 \<le> sh_work (sequence_shape m)" using seq [OF m(2)] PCond Some by auto
      with y [OF m(1)] m(3) show ?thesis by (simp add: branches_pos [unfolded One_nat_def])
    qed
  }
qed (auto simp: FIXED_def)

text \<open>One of several matchers, or none: as alternatives that exclude each other.\<close>

lemma fits_either:
  assumes "forward (su_length su) h" "list_all2 (shape_fits su) ss fs" "ss \<noteq> []"
    and h: "\<And>i. h i = [i] \<or> (\<exists>f \<in> set fs. h i = f i)"
  shows "shape_fits su (branches_shape det ss) h"
proof -
  have pos: "list_all (\<lambda>s. 1 \<le> sh_work s) ss"
    using assms(2) by (auto simp: list_all2_conv_all_nth list_all_length shape_fits_def)
  have one: "1 \<le> sum_list (map sh_work ss)" using pos assms(3) by (cases ss) auto
  have each: "at_most (su_length su) (sum_list (map sh_work ss)) f"
    if f: "f \<in> set fs" and small: "sum_list (map sh_work ss) \<le> MAX_PATTERN_WORK" for f
  proof -
    from assms(2) f obtain s where s: "s \<in> set ss" "shape_fits su s f"
      by (metis in_set_conv_nth list_all2_conv_all_nth)
    have "sh_work s \<le> sum_list (map sh_work ss)" using s(1) by (simp add: member_le_sum_list)
    with s(2) small at_most_mono show ?thesis unfolding shape_fits_def by (meson le_trans)
  qed
  have "at_most (su_length su) (sum_list (map sh_work ss)) h" if "sum_list (map sh_work ss) \<le> MAX_PATTERN_WORK"
    unfolding at_most_def
  proof (intro allI impI)
    fix i assume "i \<le> su_length su"
    with h [of i] each [OF _ that] one show "length (h i) \<le> sum_list (map sh_work ss)" by (auto simp: at_most_def)
  qed
  moreover have "at_most (su_length su) 1 h" if amb: "\<not> sh_ambiguous (branches_shape det ss)"
    unfolding at_most_def
  proof (intro allI impI)
    fix i assume i: "i \<le> su_length su"
    have "\<forall>s \<in> set ss. \<not> sh_ambiguous s" using amb by (auto simp: branches_shape_def Let_def list_ex_iff)
    then have "\<forall>f \<in> set fs. length (f i) \<le> 1"
      using assms(2) i by (fastforce simp: list_all2_conv_all_nth in_set_conv_nth shape_fits_def at_most_def)
    with h [of i] show "length (h i) \<le> 1" by auto
  qed
  moreover have "1 \<le> sh_work (branches_shape det ss)" by (rule branches_pos [OF pos assms(3)])
  moreover have "sh_work (branches_shape det ss) = cap (sum_list (map sh_work ss))"
    by (simp add: branches_shape_def Let_def)
  ultimately show ?thesis using assms(1) by (simp add: shape_fits_def cap_le cap_small)
qed

lemma ends_fun:
  "ends su (PRepeat lo hi body) = repeat_ends su lo hi (sequence_ends (map (ends su) body))"
  "ends su (PGroup body) = sequence_ends (map (ends su) body)"
  "ends su (PBranch alts) = (\<lambda>i. concat (map (\<lambda>f. f i) (map (\<lambda>a. sequence_ends (map (ends su) a)) alts)))"
  by (rule ext, simp add: comp_def)+

text \<open>Every accepted shape bounds the ways of its item.\<close>

lemma item_fits:
  assumes su: "subject_ok cf su"
  shows "item_shape w cf p = Inr s \<Longrightarrow> parsed p \<Longrightarrow> plain w cf p \<Longrightarrow> shape_fits su s (ends su p)"
proof (induction p arbitrary: s rule: pat.induct)
  have len: "su_length su \<le> MAX_MATCH_LENGTH" using su by (simp add: subject_ok_def)
  have seq: "shape_fits su (sequence_shape ss) (sequence_ends (map (ends su) body))"
    if "mapE (item_shape w cf) body = Inr ss" "list_all parsed body" "list_all (plain w cf) body"
      "\<And>q s. q \<in> set body \<Longrightarrow> item_shape w cf q = Inr s \<Longrightarrow> parsed q \<Longrightarrow> plain w cf q \<Longrightarrow> shape_fits su s (ends su q)"
    for body ss
  proof (rule fits_sequence)
    from that show "list_all2 (shape_fits su) ss (map (ends su) body)"
      by (auto simp: mapE_Inr_iff list_all2_conv_all_nth list_all_length)
  qed
  have commit: "shape_fits su s (ends su p)"
    if "s = committed t" "item_shape w cf p = Inr s" "parsed p" "\<And>i. length (ends su p i) \<le> 1" for s t p
  proof -
    have "at_most (su_length su) 1 (ends su p)" using that(4) by (simp add: at_most_def)
    moreover have "1 \<le> sh_work t" using shape_pos [OF that(2,3)] that(1) by (simp add: committed_def)
    ultimately show ?thesis unfolding that(1) by (rule fits_committed [OF ends_forward [OF su]])
  qed
  have single: "shape_fits su s (ends su p)" if "s = FIXED" "\<And>i. length (ends su p i) \<le> 1" for s p
    unfolding that(1) using that(2) by (intro fits_fixed [OF ends_forward [OF su]]) (simp add: at_most_def)
  {
    case (PLiteral c)
    then show ?case by (intro single) simp_all
  next
    case (PRepeat lo hi body)
    then obtain ss where ss: "mapE (item_shape w cf) body = Inr ss" "repeat_shape lo hi (sequence_shape ss) = Inr s"
      by (auto simp: bindE_Inr_iff mapR_Inr_iff)
    have f: "shape_fits su (sequence_shape ss) (sequence_ends (map (ends su) body))"
      using seq [OF ss(1)] PRepeat by auto
    have "hi = MAXREPEAT \<or> hi \<le> 1 \<or> \<not> sh_unbounded (sequence_shape ss)"
      using PRepeat.prems(3) ss(1) by (auto simp: items_shape_def)
    from fits_repeat [OF ss(2) f _ len this] PRepeat.prems(2) show ?case unfolding ends_fun by simp
  next
    case (PPossessive lo hi body)
    then obtain ss where "s = committed (sequence_shape ss)" by (auto simp: mapR_Inr_iff)
    then show ?case by (rule commit [OF _ PPossessive.prems(1,2)]) simp
  next
    case (PGroup body)
    then obtain ss where ss: "mapE (item_shape w cf) body = Inr ss" "s = sequence_shape ss"
      by (auto simp: mapR_Inr_iff)
    with seq [OF ss(1)] PGroup show ?case unfolding ends_fun by simp
  next
    case (PBranch alts)
    then obtain ss where ss: "mapE (\<lambda>a. mapR sequence_shape (mapE (item_shape w cf) a)) alts = Inr ss"
      "s = branches_shape (deterministic w cf alts) ss" by (auto simp: mapR_Inr_iff)
    let ?fs = "map (\<lambda>a. sequence_ends (map (ends su) a)) alts"
    have alt: "list_all2 (\<lambda>a t. \<exists>ts. mapE (item_shape w cf) a = Inr ts \<and> t = sequence_shape ts) alts ss"
      using ss(1) [unfolded mapE_Inr_iff [of "\<lambda>a. mapR sequence_shape (mapE (item_shape w cf) a)"]]
      by (rule list_all2_mono) (auto simp: mapR_Inr_iff)
    have "shape_fits su (ss ! k) (sequence_ends (map (ends su) (alts ! k)))" if k: "k < length alts" for k
    proof -
      from alt k obtain ts where ts: "mapE (item_shape w cf) (alts ! k) = Inr ts" "ss ! k = sequence_shape ts"
        by (auto simp: list_all2_conv_all_nth)
      have mem: "alts ! k \<in> set alts" using k by simp
      show ?thesis unfolding ts(2)
        by (rule seq [OF ts(1)]) (use PBranch mem in \<open>auto simp: list_all_iff\<close>)
    qed
    then have "list_all2 (shape_fits su) ss ?fs"
      using list_all2_lengthD [OF alt] by (simp add: list_all2_conv_all_nth)
    moreover have "ss \<noteq> []" using mapE_length [OF ss(1)] PBranch.prems(2) by auto
    ultimately show ?case
      unfolding ss(2) ends_fun by (rule fits_branches) (rule deterministic_exclusive [OF _ su])
  next
    case (PAtomic body)
    then obtain ss where "s = committed (sequence_shape ss)" by (auto simp: mapR_Inr_iff)
    then show ?case by (rule commit [OF _ PAtomic.prems(1,2)]) simp
  next
    case (PLook ahead body)
    then obtain ss where "s = committed (sequence_shape ss)" by (auto simp: mapR_Inr_iff)
    then show ?case by (rule commit [OF _ PLook.prems(1,2)]) simp
  next
    case (PCond g yes no)
    have f: "shape_fits su (sequence_shape y) (sequence_ends (map (ends su) yes))"
      if "mapE (item_shape w cf) yes = Inr y" for y
      using seq [OF that] PCond by auto
    show ?case
    proof (cases no)
      case None
      with PCond.prems(1) obtain y where y: "mapE (item_shape w cf) yes = Inr y"
        "s = branches_shape True [sequence_shape y]" by (auto simp: mapR_Inr_iff)
      show ?thesis unfolding y(2)
        by (rule fits_either [OF ends_forward [OF su], where fs = "[sequence_ends (map (ends su) yes)]"])
          (use f [OF y(1)] None in simp_all)
    next
      case (Some n)
      with PCond.prems(1) obtain y m where m: "mapE (item_shape w cf) yes = Inr y" "mapE (item_shape w cf) n = Inr m"
        "s = branches_shape (deterministic w cf [yes, n]) [sequence_shape y, sequence_shape m]"
        by (auto simp: mapR_Inr_iff bindE_Inr_iff)
      have "shape_fits su (sequence_shape m) (sequence_ends (map (ends su) n))" using seq [OF m(2)] PCond Some by auto
      with f [OF m(1)] show ?thesis unfolding m(3)
        by (intro fits_either [OF ends_forward [OF su],
            where fs = "[sequence_ends (map (ends su) yes), sequence_ends (map (ends su) n)]"])
          (simp_all add: Some)
    qed
  next
    case (PItem k)
    then show ?case by (intro single) (simp_all split: option.split)
  }
qed

text \<open>
  An accepted pattern without such repeats has a bounded number of ways to match from any
  position of a bounded subject.
\<close>

lemma accepted_bounded:
  assumes "check_pattern parse w cf pattern = Inr ()" "parse pattern = Some items"
    and "list_all parsed items" "list_all (plain w cf) items" "subject_ok cf su" "i \<le> su_length su"
  shows "length (matches_from su items i) \<le> MAX_PATTERN_WORK"
proof -
  from assms(1,2) obtain ss where ss: "mapE (item_shape w cf) items = Inr ss"
    "sh_work (sequence_shape ss) \<le> MAX_PATTERN_WORK"
    by (auto simp: check_pattern_def items_shape_def bindE_Inr_iff mapR_Inr_iff split: if_splits)
  have "list_all2 (shape_fits su) ss (map (ends su) items)"
    using ss(1) assms(3-5) item_fits [OF assms(5)]
    by (auto simp: mapE_Inr_iff list_all2_conv_all_nth list_all_length)
  from fits_sequence [OF this] ss(2) have "at_most (su_length su) (sh_work (sequence_shape ss)) (matches_from su items)"
    by (simp add: shape_fits_def matches_from_def)
  with ss(2) assms(6) show ?thesis by (auto simp: at_most_def intro: le_trans)
qed

section \<open>Where the estimate falls short\<close>

text \<open>
  A bounded number of repeats of an unbounded part is estimated by the number of counts times
  the inner work: \<^verbatim>\<open>(?:a*){4}\<close> costs as much as \<^verbatim>\<open>a*\<close>, although it matches like
  \<^verbatim>\<open>a*a*a*a*\<close>, which is rejected.
\<close>

definition star_a :: pat where
  "star_a = PRepeat 0 MAXREPEAT [PLiteral 97]"

definition all_a :: subject where
  "all_a = \<lparr>su_length = 1024, su_literal = \<lambda>c i. c = 97, su_other = \<lambda>k i. None, su_group = \<lambda>g i. False\<rparr>"

lemma further_run:
  assumes "\<And>j. f j = (if j < n then [Suc j] else [])"
  shows "i \<le> n \<Longrightarrow> n - i \<le> m \<Longrightarrow> further m f i = [i..<Suc n]"
proof (induction m arbitrary: i)
  case (Suc m)
  show ?case
  proof (cases "i = n")
    case False
    with Suc have "further m f (Suc i) = [Suc i..<Suc n]" by simp
    moreover have "f i = [Suc i]" using assms [of i] False Suc.prems by simp
    moreover have "[i..<Suc n] = i # [Suc i..<Suc n]" using Suc.prems by (simp add: upt_conv_Cons del: upt_Suc)
    ultimately show ?thesis by simp
  next
    case True
    then show ?thesis using assms [of i] by simp
  qed
qed simp

lemma star_a_ends: "i \<le> 1024 \<Longrightarrow> ends all_a star_a i = [i..<Suc 1024]"
  unfolding star_a_def ends.simps repeat_ends_def
  by (simp add: further_run [where n = 1024] all_a_def MAXREPEAT_def sequence_ends_def del: upt_Suc)

lemma sum_list_upt_choose: "i \<le> n \<Longrightarrow> sum_list (map (\<lambda>j. (k + (n - j)) choose (n - j)) [i..<Suc n]) = (Suc k + (n - i)) choose (n - i)"
proof (induction "n - i" arbitrary: i)
  case (Suc d)
  then have e: "n - i = Suc (n - Suc i)" and "[i..<Suc n] = i # [Suc i..<Suc n]"
    by (simp_all add: upt_conv_Cons del: upt_Suc)
  moreover have "((Suc k + (n - Suc i)) choose (n - Suc i)) + ((k + (n - i)) choose (n - i)) = (Suc k + (n - i)) choose (n - i)"
    using binomial_Suc_Suc [of "Suc k + (n - Suc i)" "n - Suc i"] unfolding e by simp
  moreover have "sum_list (map (\<lambda>j. (k + (n - j)) choose (n - j)) [Suc i..<Suc n]) = (Suc k + (n - Suc i)) choose (n - Suc i)"
    using Suc by simp
  ultimately show ?case by simp
qed simp

lemma times_star: "i \<le> 1024 \<Longrightarrow> length (times k (ends all_a star_a) i) = (k + (1024 - i)) choose (1024 - i)"
proof (induction k arbitrary: i)
  case (Suc k)
  have "length (times (Suc k) (ends all_a star_a) i) = sum_list (map (\<lambda>j. length (times k (ends all_a star_a) j)) [i..<Suc 1024])"
    using Suc.prems by (simp add: star_a_ends length_concat comp_def del: upt_Suc)
  also have "map (\<lambda>j. length (times k (ends all_a star_a) j)) [i..<Suc 1024]
      = map (\<lambda>j. (k + (1024 - j)) choose (1024 - j)) [i..<Suc 1024]"
    by (rule map_cong) (use Suc.IH in auto)
  also have "sum_list \<dots> = (Suc k + (1024 - i)) choose (1024 - i)" by (rule sum_list_upt_choose [OF Suc.prems])
  finally show ?case .
qed simp

lemma nested_repeat_accepted:
  defines "p \<equiv> [PRepeat 4 4 [star_a]]"
  assumes "parse pattern = Some p"
  shows "check_pattern parse w cf pattern = Inr ()"
    and "length (matches_from all_a p 0) > MAX_PATTERN_WORK"
proof -
  show "check_pattern parse w cf pattern = Inr ()"
    using assms(2)
    by (simp add: check_pattern_def p_def items_shape_def star_a_def repeat_shape_def sequence_shape_def
      then_shape_def FIXED_def MAXREPEAT_def MAX_MATCH_LENGTH_def cap_def MAX_PATTERN_WORK_val Let_def)
  have two: "(1026::nat) choose 2 = 525825" by (simp add: choose_two)
  have "length (matches_from all_a p 0) = length (times 4 (ends all_a star_a) 0)"
  proof -
    have "sequence_ends [f] = f" for f by (simp add: sequence_ends_def fun_eq_iff)
    moreover have "further 0 f = (\<lambda>i. [i])" for f by (simp add: fun_eq_iff)
    ultimately show ?thesis by (simp add: matches_from_def p_def repeat_ends_def)
  qed
  also have "\<dots> = 1028 choose 4"
    using times_star [of 0 4] binomial_symmetric [of 4 1028] by simp
  finally show "length (matches_from all_a p 0) > MAX_PATTERN_WORK"
    using Suc_times_binomial [of 2 1026] Suc_times_binomial [of 3 1027] two by (simp add: MAX_PATTERN_WORK_val)
qed

lemma four_stars_rejected:
  "parse pattern = Some [star_a, star_a, star_a, star_a] \<Longrightarrow>
     check_pattern parse w cf pattern = Inl ''backtracking work exceeds the bound''"
  by (simp add: check_pattern_def items_shape_def star_a_def repeat_shape_def sequence_shape_def
    then_shape_def FIXED_def MAXREPEAT_def MAX_MATCH_LENGTH_def cap_def MAX_PATTERN_WORK_val Let_def)

end
