(* ===== verification/ConditionPlans.thy ===== *)
theory ConditionPlans imports StaticConditions Patterns begin

text \<open>
  The authored conditions of \<^verbatim>\<open>contracts/conditions.py\<close> after their validation, and their
  compilation (\<^verbatim>\<open>compile_condition\<close>). A compiled condition is well-formed, so it always
  evaluates, up to the length of its pointers, which neither bounds.
\<close>

section \<open>Authored conditions\<close>

definition MAX_CONDITION_DEPTH :: nat where "MAX_CONDITION_DEPTH = 8"
definition MAX_CONDITION_OPERANDS :: nat where "MAX_CONDITION_OPERANDS = 32"
definition MAX_IN_VALUES :: nat where "MAX_IN_VALUES = 64"
definition MAX_PATTERN_LENGTH :: nat where "MAX_PATTERN_LENGTH = 256"

datatype authored_source = FromLiteral pyobj | FromPointer string | FromFirst "string list"

text \<open>
  \<^verbatim>\<open>operand\<close> is the authored value of the one operator; for \<^verbatim>\<open>length\<close> it is the count of the
  one comparison.
\<close>

record authored_leaf =
  al_source :: authored_source
  al_operator :: operator
  al_operand :: pyobj
  al_comparison :: "comparison option"

datatype authored =
    AuthoredLeaf authored_leaf
  | AuthoredAll "authored list"
  | AuthoredAny "authored list"
  | AuthoredNot authored

text \<open>\<^verbatim>\<open>JsonPointer\<close>\<close>

definition json_pointer :: "string \<Rightarrow> bool" where
  "json_pointer p \<longleftrightarrow> (p = [] \<or> hd p = CHR ''/'') \<and> \<not> invalid_escape p"

definition source_authored :: "authored_source \<Rightarrow> bool" where
  "source_authored s \<longleftrightarrow> (case s of
     FromLiteral v \<Rightarrow> True
   | FromPointer p \<Rightarrow> json_pointer p
   | FromFirst ps \<Rightarrow> 1 \<le> length ps \<and> length ps \<le> 16 \<and> list_all json_pointer ps)"

definition operand_authored :: "authored_leaf \<Rightarrow> bool" where
  "operand_authored lf \<longleftrightarrow> (case al_operator lf of
     OpPresent \<Rightarrow> (case al_operand lf of PBool b \<Rightarrow> True | _ \<Rightarrow> False)
   | OpEmpty \<Rightarrow> (case al_operand lf of PBool b \<Rightarrow> True | _ \<Rightarrow> False)
   | OpEquals \<Rightarrow> True
   | OpNotEquals \<Rightarrow> True
   | OpIn \<Rightarrow> (case al_operand lf of PList xs \<Rightarrow> 1 \<le> length xs \<and> length xs \<le> MAX_IN_VALUES | _ \<Rightarrow> False)
   | OpNotIn \<Rightarrow> (case al_operand lf of PList xs \<Rightarrow> 1 \<le> length xs \<and> length xs \<le> MAX_IN_VALUES | _ \<Rightarrow> False)
   | OpMatches \<Rightarrow> (case al_operand lf of PStr s \<Rightarrow> 1 \<le> length s \<and> length s \<le> MAX_PATTERN_LENGTH | _ \<Rightarrow> False)
   | OpLength \<Rightarrow> al_comparison lf \<noteq> None \<and>
       (case al_operand lf of PInt i \<Rightarrow> 0 \<le> i \<and> i < 2 ^ 31 | _ \<Rightarrow> False)
   | _ \<Rightarrow> (case al_operand lf of PInt i \<Rightarrow> True | PFloat x \<Rightarrow> True | _ \<Rightarrow> False))"

fun authored_depth :: "authored \<Rightarrow> nat" where
  "authored_depth (AuthoredLeaf lf) = 1"
| "authored_depth (AuthoredAll cs) = 1 + foldr max (map authored_depth cs) 0"
| "authored_depth (AuthoredAny cs) = 1 + foldr max (map authored_depth cs) 0"
| "authored_depth (AuthoredNot c) = 1 + authored_depth c"

fun authored_ok :: "authored \<Rightarrow> bool" where
  "authored_ok (AuthoredLeaf lf) \<longleftrightarrow> source_authored (al_source lf) \<and> operand_authored lf"
| "authored_ok (AuthoredAll cs) \<longleftrightarrow> 1 \<le> length cs \<and> length cs \<le> MAX_CONDITION_OPERANDS \<and>
     list_all authored_ok cs \<and> authored_depth (AuthoredAll cs) \<le> MAX_CONDITION_DEPTH"
| "authored_ok (AuthoredAny cs) \<longleftrightarrow> 1 \<le> length cs \<and> length cs \<le> MAX_CONDITION_OPERANDS \<and>
     list_all authored_ok cs \<and> authored_depth (AuthoredAny cs) \<le> MAX_CONDITION_DEPTH"
| "authored_ok (AuthoredNot c) \<longleftrightarrow> authored_ok c \<and> authored_depth (AuthoredNot c) \<le> MAX_CONDITION_DEPTH"

section \<open>Compilation\<close>

datatype condition_error = Unfrozen exn | Unsafe string

text \<open>\<^verbatim>\<open>_compile\<close>: the operand of a pattern is checked after it is frozen.\<close>

definition compile_source :: "authored_source \<Rightarrow> (condition_error, binding) result" where
  "compile_source s = (case s of
     FromLiteral v \<Rightarrow> (case freeze_json v of
        Inl e \<Rightarrow> Inl (Unfrozen e)
      | Inr j \<Rightarrow> Inr (Binding KLiteral None j False JNull [] []))
   | FromFirst ps \<Rightarrow> Inr (Binding KFirstOf None JNull False JNull ps [])
   | FromPointer p \<Rightarrow> Inr (Binding KPointer (Some p) JNull False JNull [] []))"

definition compile_operand ::
  "(string \<Rightarrow> pat list option) \<Rightarrow> (nat \<Rightarrow> nat \<times> nat) \<Rightarrow> (nat \<Rightarrow> string) \<Rightarrow> authored_leaf \<Rightarrow> binding \<Rightarrow>
     (condition_error, leaf) result" where
  "compile_operand parse w cf lf source =
     (case freeze_json (al_operand lf) of
        Inl e \<Rightarrow> Inl (Unfrozen e)
      | Inr operand \<Rightarrow>
          let plan = \<lparr>lf_source = source, lf_operator = al_operator lf, lf_operand = operand,
            lf_comparison = None, lf_pattern = None\<rparr>
          in if al_operator lf = OpLength then Inr (plan\<lparr>lf_comparison := al_comparison lf\<rparr>)
          else if al_operator lf = OpMatches
          then (case al_operand lf of
             PStr s \<Rightarrow> (case check_pattern parse w cf s of
                Inl r \<Rightarrow> Inl (Unsafe r) | Inr _ \<Rightarrow> Inr (plan\<lparr>lf_pattern := Some s\<rparr>))
           | _ \<Rightarrow> Inl (Unfrozen OtherErr))
          else Inr plan)"

fun compile_authored ::
  "(string \<Rightarrow> pat list option) \<Rightarrow> (nat \<Rightarrow> nat \<times> nat) \<Rightarrow> (nat \<Rightarrow> string) \<Rightarrow> authored \<Rightarrow>
     (condition_error, condition) result" where
  "compile_authored parse w cf (AuthoredLeaf lf) =
     bindE (compile_source (al_source lf)) (\<lambda>source. mapR Leaf (compile_operand parse w cf lf source))"
| "compile_authored parse w cf (AuthoredAll cs) = mapR All (mapE (compile_authored parse w cf) cs)"
| "compile_authored parse w cf (AuthoredAny cs) = mapR Any (mapE (compile_authored parse w cf) cs)"
| "compile_authored parse w cf (AuthoredNot c) = mapR Not (compile_authored parse w cf c)"

text \<open>\<^verbatim>\<open>compile_condition\<close>\<close>

definition compile_condition ::
  "(string \<Rightarrow> pat list option) \<Rightarrow> (nat \<Rightarrow> nat \<times> nat) \<Rightarrow> (nat \<Rightarrow> string) \<Rightarrow> place \<Rightarrow> authored \<Rightarrow>
     (compile_error, condition) result" where
  "compile_condition parse width cf w c = (case compile_authored parse width cf c of
     Inr plan \<Rightarrow> Inr plan
   | Inl (Unsafe r) \<Rightarrow> Inl (Refused ''unsafe_pattern'' w)
   | Inl (Unfrozen e) \<Rightarrow> Inl (if as_service e \<noteq> None then Refused ''invalid_condition'' w else Defect))"

section \<open>Compiled conditions are well-formed\<close>

definition short_pointer :: "string \<Rightarrow> bool" where
  "short_pointer p \<longleftrightarrow> p = [] \<or> length (split_on CHR ''/'' (tl p)) \<le> MAX_JSON_DEPTH"

lemma short_json_pointer: "json_pointer p \<Longrightarrow> short_pointer p \<Longrightarrow> pointer_ok p"
  by (auto simp: json_pointer_def short_pointer_def pointer_ok_def)

lemma freeze_frozen_document: "freeze_json v = Inr j \<Longrightarrow> frozen_document j"
  using freeze_json_sound by (simp add: frozen_document_def)

lemma freeze_shape:
  "freeze_json v = Inr j \<Longrightarrow> (case v of
     PBool b \<Rightarrow> j = JBool b | PInt i \<Rightarrow> j = JInt i | PStr s \<Rightarrow> j = JStr s
   | PFloat x \<Rightarrow> (\<exists>q. j = JFloat (Fin q)) | PList xs \<Rightarrow> (\<exists>js. j = JArr js \<and> length js = length xs) | _ \<Rightarrow> True)"
proof -
  have items: "visit_list m d xs = Inr js \<Longrightarrow> length js = length xs" for m d xs js
    by (induction xs arbitrary: js) (auto simp: bindE_Inr_iff mapR_Inr_iff)
  show "freeze_json v = Inr j \<Longrightarrow> ?thesis"
    by (auto simp: freeze_json_def freeze_json_depth_def mapR_Inr_iff split: pyobj.split pfloat.splits if_splits)
      (use items in blast)
qed

text \<open>What the compiler guarantees of a condition.\<close>

definition compiled_ok :: "condition \<Rightarrow> bool" where
  "compiled_ok c \<longleftrightarrow> condition_ok c \<and> (\<forall>lf \<in> set (condition_leaves c). leaf_frozen lf)"

definition short_pointers :: "condition \<Rightarrow> bool" where
  "short_pointers c \<longleftrightarrow> list_all short_pointer (condition_pointers c)"

lemma short_pointers_simps [simp]:
  "short_pointers (Leaf lf) \<longleftrightarrow> list_all short_pointer (leaf_pointers lf)"
  "short_pointers (All cs) \<longleftrightarrow> list_all short_pointers cs"
  "short_pointers (Any cs) \<longleftrightarrow> list_all short_pointers cs"
  "short_pointers (Not c) \<longleftrightarrow> short_pointers c"
  by (auto simp: short_pointers_def condition_pointers_def list_all_iff)

lemma compiled_ok_simps [simp]:
  "compiled_ok (All cs) \<longleftrightarrow> cs \<noteq> [] \<and> list_all compiled_ok cs"
  "compiled_ok (Any cs) \<longleftrightarrow> cs \<noteq> [] \<and> list_all compiled_ok cs"
  "compiled_ok (Not c) \<longleftrightarrow> compiled_ok c"
  by (auto simp: compiled_ok_def list_all_iff)

lemma compile_leaf_ok:
  assumes "source_authored (al_source lf)" "operand_authored lf"
    and c: "compile_authored parse w cf (AuthoredLeaf lf) = Inr c"
    and short: "short_pointers c"
  shows "compiled_ok c"
proof -
  from c obtain b l where b: "compile_source (al_source lf) = Inr b" "compile_operand parse w cf lf b = Inr l"
    and cl: "c = Leaf l" by (auto simp: bindE_Inr_iff mapR_Inr_iff)
  from b(2) obtain v where v: "freeze_json (al_operand lf) = Inr v"
    and l: "lf_source l = b" "lf_operator l = al_operator lf" "lf_operand l = v"
      "al_operator lf = OpLength \<Longrightarrow> lf_comparison l = al_comparison lf"
      "al_operator lf = OpMatches \<Longrightarrow> lf_pattern l \<noteq> None"
    by (auto simp: compile_operand_def Let_def split: sum.splits if_splits pyobj.splits)
  have "operand_ok l"
    using assms(2) freeze_shape [OF v] l
    by (cases "al_operator lf"; cases "al_operand lf")
      (auto simp: operand_authored_def operand_ok_def Suc_le_length_iff split: list.splits)
  moreover have "source_ok b \<and> binding_frozen b \<and> list_all pointer_ok (source_pointers b)"
  proof (cases "al_source lf")
    case (FromLiteral u)
    with b(1) obtain j where "freeze_json u = Inr j" "b = Binding KLiteral None j False JNull [] []"
      by (auto simp: compile_source_def split: sum.splits)
    with freeze_frozen_document [of u j] show ?thesis
      by (simp add: source_ok_def frozen_document_def source_pointers_def)
  next
    case (FromPointer p)
    with b(1) have "b = Binding KPointer (Some p) JNull False JNull [] []" by (simp add: compile_source_def)
    with FromPointer assms(1) short cl l(1) show ?thesis
      by (simp add: source_ok_def source_pointers_def source_authored_def leaf_pointers_def
        short_json_pointer)
  next
    case (FromFirst ps)
    with b(1) have "b = Binding KFirstOf None JNull False JNull ps []" by (simp add: compile_source_def)
    with FromFirst assms(1) short cl l(1) show ?thesis
      by (auto simp: source_ok_def source_pointers_def source_authored_def leaf_pointers_def
        short_json_pointer list_all_iff)
  qed
  moreover have "json_wf v" using freeze_json_sound [OF v] by simp
  ultimately show ?thesis using l(1,3) by (simp add: cl compiled_ok_def leaf_frozen_def)
qed

lemma compile_ok:
  "compile_authored parse w cf a = Inr c \<Longrightarrow> authored_ok a \<Longrightarrow> short_pointers c \<Longrightarrow> compiled_ok c"
proof (induction a arbitrary: c)
  have each: "cs \<noteq> [] \<and> list_all compiled_ok cs"
    if cs: "mapE (compile_authored parse w cf) as = Inr cs" and as: "list_all authored_ok as" "1 \<le> length as"
      and short: "list_all short_pointers cs"
      and IH: "\<And>a c. a \<in> set as \<Longrightarrow> compile_authored parse w cf a = Inr c \<Longrightarrow> authored_ok a \<Longrightarrow> short_pointers c \<Longrightarrow> compiled_ok c"
    for as cs
  proof
    show "cs \<noteq> []" using mapE_length [OF cs] as(2) by auto
    have "compiled_ok (cs ! i)" if "i < length cs" for i
      using cs as(1) short that IH [of "as ! i" "cs ! i"]
      by (auto simp: mapE_Inr_iff list_all2_conv_all_nth list_all_length)
    then show "list_all compiled_ok cs" by (simp add: list_all_length)
  qed
  {
    case (AuthoredLeaf lf)
    then show ?case by (intro compile_leaf_ok) auto
  next
    case (AuthoredAll as)
    then obtain cs where cs: "mapE (compile_authored parse w cf) as = Inr cs" "c = All cs" by (auto simp: mapR_Inr_iff)
    from each [OF cs(1)] AuthoredAll cs(2) show ?case by simp
  next
    case (AuthoredAny as)
    then obtain cs where cs: "mapE (compile_authored parse w cf) as = Inr cs" "c = Any cs" by (auto simp: mapR_Inr_iff)
    from each [OF cs(1)] AuthoredAny cs(2) show ?case by simp
  next
    case (AuthoredNot a)
    then show ?case by (auto simp: mapR_Inr_iff)
  }
qed

section \<open>Long pointers\<close>

text \<open>
  Nothing bounds the tokens of an authored pointer, but the engine refuses to follow a pointer
  of more than 64: such a condition compiles and fails whenever it is evaluated.
\<close>

definition deep_pointer :: string where
  "deep_pointer = concat (replicate 65 ''/a'')"

lemma deep_pointer_compiles_and_fails:
  defines "a \<equiv> AuthoredLeaf \<lparr>al_source = FromPointer deep_pointer, al_operator = OpPresent,
      al_operand = PBool True, al_comparison = None\<rparr>"
  shows "authored_ok a"
    and "\<exists>c. compile_condition parse width cf w a = Inr c \<and>
      evaluate_condition fm c ctx = raise_code INVALID_CONFIGURATION"
proof -
  have p: "json_pointer deep_pointer" by code_simp
  show "authored_ok a" using p by (simp add: a_def source_authored_def operand_authored_def)
  have "length (split_on CHR ''/'' (tl deep_pointer)) = 65" by code_simp
  then have "lookup_pointer deep_pointer ctx = raise_code INVALID_CONFIGURATION"
    by (simp add: lookup_pointer_def MAX_JSON_DEPTH_def Let_def deep_pointer_def)
  then show "\<exists>c. compile_condition parse width cf w a = Inr c \<and>
      evaluate_condition fm c ctx = raise_code INVALID_CONFIGURATION"
    by (simp add: a_def compile_condition_def compile_source_def compile_operand_def freeze_json_def
      freeze_json_depth_def eval_leaf_def resolve_source_def Let_def)
qed

end
