(* ===== verification/Boundaries.thy ===== *)
theory Boundaries imports ConditionPlans CompiledRuns begin

text \<open>
  The boundary checks of \<^verbatim>\<open>compiler/compiler.py\<close> (\<^verbatim>\<open>_validate_boundaries\<close> and what it calls):
  the scope, the types and the availability of every binding between flows, the conditions of
  routes with their unreachable entries, and the coverage of case routes. An entry reported as
  unreachable is never selected, and a checked case route only fails where a value is missing.
\<close>

section \<open>Required bindings\<close>

text \<open>\<^verbatim>\<open>_require\<close>; \<^verbatim>\<open>failure\<close> is what \<^verbatim>\<open>fail\<close> raises.\<close>

fun require ::
  "(string \<Rightarrow> (compile_error, unit) result) \<Rightarrow> (string \<Rightarrow> bool) \<Rightarrow> compile_error \<Rightarrow> binding \<Rightarrow>
     (compile_error, unit) result" where
  "require check available failure (Binding kind pointer literal has_default dflt members flds) =
     (if kind = KLiteral then Inr ()
      else if kind = KFields
      then mapR (\<lambda>_. ()) (mapE (\<lambda>(n, b). require check available failure b) flds)
      else let pointers = binding_pointers (Binding kind pointer literal has_default dflt members flds) in
        bindE (mapE check pointers) (\<lambda>_.
          if has_default \<or> list_ex available pointers then Inr () else Inl failure))"

section \<open>References to flows\<close>

text \<open>\<^verbatim>\<open>_flow_reference_check\<close>\<close>

definition flow_reference_check :: "flows \<Rightarrow> graph_result \<Rightarrow> place \<Rightarrow> string \<Rightarrow> (compile_error, unit) result" where
  "flow_reference_check flows G w pointer = (case tokens pointer of
     [] \<Rightarrow> Inr ()
   | a # rest \<Rightarrow>
       if a \<notin> {''payload'', ''metadata'', ''flows''} then Inl (Refused ''dangling_pointer'' w)
       else if a \<noteq> ''flows'' then Inr ()
       else (case rest of
          n # kind # _ \<Rightarrow>
            (case get flows n of
               None \<Rightarrow> Inl (Refused ''invalid_flow_reference'' w)
             | Some target \<Rightarrow>
                 let retry = (get (gr_retry_of G) n \<noteq> None) in
                 if kind \<noteq> ''result'' \<and> kind \<noteq> ''attempts'' then Inl (Refused ''invalid_flow_reference'' w)
                 else if fl_callable target \<and> \<not> retry then Inl (Refused ''invalid_flow_reference'' w)
                 else if kind = ''attempts'' \<and> fl_repeat target = None \<and> \<not> retry
                 then Inl (Refused ''invalid_flow_reference'' w)
                 else Inr ())
        | _ \<Rightarrow> Inl (Refused ''invalid_flow_reference'' w)))"

text \<open>\<^verbatim>\<open>_flow_available\<close>, for a pointer that passed the check\<close>

definition flow_available :: "string set \<Rightarrow> string \<Rightarrow> bool" where
  "flow_available available pointer = (case tokens pointer of
     a # n # _ \<Rightarrow> a = ''flows'' \<longrightarrow> n \<in> available | _ \<Rightarrow> True)"

text \<open>\<^verbatim>\<open>_check_scope\<close>\<close>

definition check_pointer_scope ::
  "flows \<Rightarrow> graph_result \<Rightarrow> string set \<Rightarrow> place \<Rightarrow> bool \<Rightarrow> string \<Rightarrow> (compile_error, unit) result" where
  "check_pointer_scope flows G allowed w start pointer =
     (let parts = tokens pointer; reads_flows = (parts \<noteq> [] \<and> hd parts = ''flows'') in
      if start \<and> reads_flows then Inl (Refused ''unavailable_flow_reference'' w)
      else bindE (flow_reference_check flows G w pointer) (\<lambda>_.
        if reads_flows \<and> hd (tl parts) \<notin> allowed then Inl (Refused ''unavailable_flow_reference'' w)
        else Inr ()))"

definition check_scope ::
  "flows \<Rightarrow> graph_result \<Rightarrow> string set \<Rightarrow> place \<Rightarrow> bool \<Rightarrow> condition \<Rightarrow> (compile_error, unit) result" where
  "check_scope flows G allowed w start c =
     mapR (\<lambda>_. ()) (mapE (check_pointer_scope flows G allowed w start) (condition_pointers c))"

text \<open>
  \<^verbatim>\<open>_completed_before\<close>: the flows that ran and completed on every path to a consumer, as its
  review route never leads there.
\<close>

definition completed_before :: "flows \<Rightarrow> graph_result \<Rightarrow> string \<Rightarrow> string set" where
  "completed_before flows G consumer =
     {other \<in> may_have_run G consumer - {consumer}. case get flows other of
        None \<Rightarrow> False
      | Some f \<Rightarrow> \<not> fl_callable f \<and>
          \<not> list_ex (\<lambda>t. t = consumer \<or> reaches (gr_successors G) t consumer) (review_flow_targets f)}"

section \<open>Bindings at a boundary\<close>

text \<open>The required names of a schema object, where they are readable.\<close>

definition required_names :: "(string \<Rightarrow> string) \<Rightarrow> schema_view \<Rightarrow> string list" where
  "required_names unq expected = (case vw_node (view_resolved unq expected) of
     JObj ps \<Rightarrow> (case get ps ''required'' of Some (JArr xs) \<Rightarrow> string_items xs | _ \<Rightarrow> [])
   | _ \<Rightarrow> [])"

definition schema_file :: "(string, jobj) dict \<Rightarrow> string \<Rightarrow> (compile_error, schema_view) result" where
  "schema_file schemas name = mapR (\<lambda>s. plain_view (JObj s) name schemas) (lookupE schemas name)"

text \<open>What a whole destination requires: an object, and every required name.\<close>

definition check_destination ::
  "(string \<Rightarrow> string) \<Rightarrow> schema_view \<Rightarrow> place \<Rightarrow> string list \<Rightarrow> (compile_error, unit) result" where
  "check_destination unq expected w names =
     (if incompatible_types (Some {''object''}) (schema_types unq expected)
      then Inl (Refused ''incompatible_binding_type'' w)
      else if \<not> set (required_names unq expected) \<subseteq> set names
      then Inl (Refused ''invalid_input_bindings'' w)
      else Inr ())"

text \<open>The destination of one binding accepts its value and its default.\<close>

definition check_target ::
  "(string \<Rightarrow> string) \<Rightarrow> schema_view \<Rightarrow> place \<Rightarrow> string \<Rightarrow> binding \<Rightarrow> static \<Rightarrow> (compile_error, unit) result" where
  "check_target unq expected w name b actual =
     (case view_child unq expected name of
        None \<Rightarrow> Inl (Refused ''invalid_input_bindings'' w)
      | Some target \<Rightarrow>
          if incompatible_types (static_types unq actual) (schema_types unq target)
          then Inl (Refused ''incompatible_binding_type'' w)
          else check_default_type b (schema_types unq target) w)"

text \<open>One round of \<^verbatim>\<open>_boundary_bindings\<close>, and the whole.\<close>

definition boundary_binding ::
  "(string \<Rightarrow> string) \<Rightarrow> schema_view option \<Rightarrow> workflow_scope \<Rightarrow> graph_result \<Rightarrow> flows \<Rightarrow> string set \<Rightarrow> place \<Rightarrow>
     key list \<Rightarrow> string list \<Rightarrow> string \<times> binding \<Rightarrow> (compile_error, unit) result" where
  "boundary_binding unq expected S G flows available w base completed p =
     (let here = below w (base @ [Key (fst p)]); b = snd p in
      bindE (require (flow_reference_check flows G here) (flow_available available)
          (Refused ''unavailable_flow_reference'' here) b) (\<lambda>_.
       bindE (binding_value unq (workflow_static unq S) here b) (\<lambda>actual.
        if may_be_missing (workflow_static unq (completed_at S completed)) b
        then Inl (Refused ''unavailable_value'' here)
        else (case expected of
           None \<Rightarrow> Inr () | Some view \<Rightarrow> check_target unq view here (fst p) b actual))))"

definition boundary_bindings ::
  "(string \<Rightarrow> string) \<Rightarrow> bindings \<Rightarrow> string option \<Rightarrow> workflow_scope \<Rightarrow> graph_result \<Rightarrow> flows \<Rightarrow> string set \<Rightarrow> place \<Rightarrow>
     key list \<Rightarrow> string list \<Rightarrow> (compile_error, unit) result" where
  "boundary_bindings unq pairs source S G flows available w base completed =
     bindE (case source of None \<Rightarrow> Inr None | Some p \<Rightarrow> mapR Some (schema_file (ws_schemas S) p)) (\<lambda>expected.
      bindE (case expected of None \<Rightarrow> Inr ()
          | Some view \<Rightarrow> check_destination unq view (below w base) (keys pairs)) (\<lambda>_.
       mapR (\<lambda>_. ()) (mapE (boundary_binding unq expected S G flows available w base completed) pairs)))"

section \<open>Conditional routes\<close>

text \<open>
  \<^verbatim>\<open>_check_route_conditions\<close>: the indices of the entries that can never be selected, and the
  warnings. \<^verbatim>\<open>decided\<close> holds after an entry whose condition always holds.
\<close>

definition check_entry ::
  "(string \<Rightarrow> string) \<Rightarrow> (string \<Rightarrow> static) \<Rightarrow> flows \<Rightarrow> graph_result \<Rightarrow> string set \<Rightarrow> place \<Rightarrow> bool \<Rightarrow> nat \<Rightarrow>
     condition \<Rightarrow> warning list \<Rightarrow> (compile_error, bool option \<times> warning list) result" where
  "check_entry unq resolve flows G allowed w start i c ws =
     (let here = below w [Key ''route'', Index i, Key ''when''] in
      bindE (check_scope flows G allowed here start c) (\<lambda>_. check_condition unq resolve here c ws))"

definition unreachable_entry :: "place \<Rightarrow> nat \<Rightarrow> nat \<Rightarrow> warning list \<Rightarrow> warning list" where
  "unreachable_entry w cause i ws =
     add_warning (Warning ''route_unreachable_entry'' (below w [Key ''route'', Index i]) [cause, i] []) ws"

fun check_entries ::
  "(string \<Rightarrow> string) \<Rightarrow> (string \<Rightarrow> static) \<Rightarrow> flows \<Rightarrow> graph_result \<Rightarrow> string set \<Rightarrow> place \<Rightarrow> bool \<Rightarrow> nat \<Rightarrow>
     bool \<Rightarrow> route_entry list \<Rightarrow> warning list \<Rightarrow> (compile_error, nat list \<times> warning list) result" where
  "check_entries unq resolve flows G allowed w start i decided [] ws = Inr ([], ws)"
| "check_entries unq resolve flows G allowed w start i decided (entry # rest) ws =
     (if decided
      then mapR (\<lambda>(dead, ws'). (i # dead, ws'))
        (check_entries unq resolve flows G allowed w start (Suc i) decided rest (unreachable_entry w 0 i ws))
      else (case re_when entry of
         None \<Rightarrow> check_entries unq resolve flows G allowed w start (Suc i) decided rest ws
       | Some c \<Rightarrow>
           bindE (check_entry unq resolve flows G allowed w start i c ws) (\<lambda>(verdict, ws').
             if verdict = Some False
             then mapR (\<lambda>(dead, ws''). (i # dead, ws''))
               (check_entries unq resolve flows G allowed w start (Suc i) decided rest (unreachable_entry w 1 i ws'))
             else check_entries unq resolve flows G allowed w start (Suc i) (verdict = Some True) rest ws')))"

definition check_route_conditions ::
  "(string \<Rightarrow> string) \<Rightarrow> workflow_scope \<Rightarrow> flows \<Rightarrow> graph_result \<Rightarrow> string set \<Rightarrow> place \<Rightarrow> bool \<Rightarrow>
     conditional_routing \<Rightarrow> warning list \<Rightarrow> (compile_error, nat list \<times> warning list) result" where
  "check_route_conditions unq S flows G allowed w start route ws =
     check_entries unq (workflow_static unq S) flows G allowed w start 0 False route ws"

section \<open>Case routes\<close>

text \<open>\<^verbatim>\<open>_coverage\<close>: the strings of the routed field against the cases.\<close>

definition string_values :: "keyed \<Rightarrow> string list" where
  "string_values d = List.map_filter (\<lambda>v. case v of JStr s \<Rightarrow> Some s | _ \<Rightarrow> None) (map snd d)"

definition uncovered_values :: "keyed \<Rightarrow> match_routing \<Rightarrow> string list" where
  "uncovered_values allowed r = filter (\<lambda>s. s \<notin> set (keys (mr_cases r))) (string_values allowed)"

definition coverage ::
  "(string \<Rightarrow> string) \<Rightarrow> workflow_scope \<Rightarrow> place \<Rightarrow> match_routing \<Rightarrow> warning list \<Rightarrow> (compile_error, warning list) result" where
  "coverage unq S w r ws =
     (case static_values unq (binding_static unq (workflow_static unq S) (mr_binding r)) of
        None \<Rightarrow>
          if mr_default_covers r \<noteq> [] then Inl (fail_at ''default_covers_mismatch'' w [Key ''default_covers''])
          else Inr (add_warning (Warning ''case_on_unknown_type'' (below w [Key ''cases'']) [] []) ws)
      | Some allowed \<Rightarrow>
          (case List.find (\<lambda>k. k \<notin> set (string_values allowed)) (keys (mr_cases r)) of
             Some k \<Rightarrow> Inl (fail_at ''unmatched_case'' w [Key ''cases'', Key k])
           | None \<Rightarrow>
               let rest = uncovered_values allowed r in
               if mr_default_covers r \<noteq> []
               then (if sort (mr_default_covers r) \<noteq> sort rest
                 then Inl (fail_at ''default_covers_mismatch'' w [Key ''default_covers'']) else Inr ws)
               else if rest \<noteq> []
               then Inr (add_warning (Warning ''uncovered_value'' (below w [Key ''cases'']) [] rest) ws)
               else Inr ws))"

text \<open>The branch of \<^verbatim>\<open>_validate_boundaries\<close> for a case route.\<close>

definition check_match ::
  "(string \<Rightarrow> string) \<Rightarrow> workflow_scope \<Rightarrow> flows \<Rightarrow> graph_result \<Rightarrow> string set \<Rightarrow> string list \<Rightarrow> place \<Rightarrow>
     match_routing \<Rightarrow> warning list \<Rightarrow> (compile_error, warning list) result" where
  "check_match unq S flows G available completed w r ws =
     (let here = below w [Key ''binding'']; b = mr_binding r in
      bindE (require (flow_reference_check flows G here) (flow_available available)
          (Refused ''unavailable_flow_reference'' here) b) (\<lambda>_.
       bindE (binding_value unq (workflow_static unq S) here b) (\<lambda>value.
        if may_be_missing (workflow_static unq (completed_at S completed)) b
        then Inl (Refused ''unavailable_value'' here)
        else if (case static_types unq value of Some T \<Rightarrow> \<not> T \<subseteq> {''string'', ''null''} | None \<Rightarrow> False)
        then Inl (Refused ''incompatible_route_type'' here)
        else if bk_has_default b \<and> (case bk_default b of JNull \<Rightarrow> False | JStr _ \<Rightarrow> False | _ \<Rightarrow> True)
        then Inl (fail_at ''incompatible_route_type'' w [Key ''binding'', Key ''default''])
        else coverage unq S w r ws)))"

section \<open>Repeats\<close>

text \<open>A condition at a place of the repeat, in its scope.\<close>

definition check_scoped ::
  "(string \<Rightarrow> string) \<Rightarrow> workflow_scope \<Rightarrow> (place \<Rightarrow> string \<Rightarrow> (compile_error, unit) result) \<Rightarrow> place \<Rightarrow> condition \<Rightarrow>
     warning list \<Rightarrow> (compile_error, warning list) result" where
  "check_scoped unq S check w c ws =
     bindE (mapE (check w) (condition_pointers c)) (\<lambda>_.
       mapR snd (check_condition unq (workflow_static unq S) w c ws))"

text \<open>The type of an input that keeps its other destination keys: an unknown key is accepted.\<close>

definition check_retry_target ::
  "(string \<Rightarrow> string) \<Rightarrow> workflow_scope \<Rightarrow> schema_view \<Rightarrow> bool \<Rightarrow> place \<Rightarrow> string \<times> binding \<Rightarrow> (compile_error, unit) result" where
  "check_retry_target unq S view defaults w p =
     (let here = below w [Key ''retry_input'', Key (fst p)] in
      bindE (binding_value unq (workflow_static unq S) here (snd p)) (\<lambda>actual.
        case view_child unq view (fst p) of
          None \<Rightarrow> Inr ()
        | Some target \<Rightarrow>
            if incompatible_types (static_types unq actual) (schema_types unq target)
            then Inl (Refused ''incompatible_binding_type'' here)
            else if defaults then check_default_type (snd p) (schema_types unq target) here
            else Inr ()))"

text \<open>\<^verbatim>\<open>_validate_repeat_bindings\<close>\<close>

definition validate_retry_phase ::
  "(string \<Rightarrow> string) \<Rightarrow> flow \<Rightarrow> repeat_plan \<Rightarrow> string \<Rightarrow> flows \<Rightarrow> graph_result \<Rightarrow> workflow_scope \<Rightarrow> place \<Rightarrow>
     string list \<Rightarrow> warning list \<Rightarrow> (compile_error, warning list) result" where
  "validate_retry_phase unq f rp retry flows G S w completed ws =
     bindE (lookupE flows retry) (\<lambda>target.
     bindE (lookupE (gr_dominators G) (fl_name f)) (\<lambda>dominators.
     bindE (boundary_bindings unq (rp_retry_flow_input rp) (fl_input_schema_path target) S G flows
         dominators w [Key ''retry'', Key ''input''] completed) (\<lambda>_.
       case rp_continue_when rp of
         None \<Rightarrow> Inr ws
       | Some c \<Rightarrow> check_scoped unq S
           (\<lambda>here. check_pointer_scope flows G (insert retry (may_have_run G (fl_name f))) here False)
           (below w [Key ''retry'', Key ''continue_when'']) c ws)))"

definition validate_repeat_bindings ::
  "(string \<Rightarrow> string) \<Rightarrow> flow \<Rightarrow> repeat_plan \<Rightarrow> flows \<Rightarrow> graph_result \<Rightarrow> workflow_scope \<Rightarrow> place \<Rightarrow> string list \<Rightarrow>
     warning list \<Rightarrow> (compile_error, warning list) result" where
  "validate_repeat_bindings unq f rp flows G S w completed ws =
     bindE (lookupE (gr_dominators G) (fl_name f)) (\<lambda>dominators.
     bindE (check_scoped unq S (\<lambda>here. check_pointer_scope flows G (may_have_run G (fl_name f)) here False)
         (below w [Key ''until'']) (rp_until rp) ws) (\<lambda>ws.
     bindE (case rp_retry_flow rp of None \<Rightarrow> Inr ws
         | Some retry \<Rightarrow> validate_retry_phase unq f rp retry flows G S w completed ws) (\<lambda>ws.
       if rp_retry_input rp = [] then Inr ws
       else let retries = (case rp_retry_flow rp of None \<Rightarrow> [] | Some r \<Rightarrow> [r]) in
         bindE (boundary_bindings unq (rp_retry_input rp) None S G flows (dominators \<union> set retries) w
             [Key ''retry_input''] (retries @ completed)) (\<lambda>_.
           case fl_input_schema_path f of
             None \<Rightarrow> Inr ws
           | Some p \<Rightarrow> bindE (schema_file (ws_schemas S) p) (\<lambda>view.
               mapR (\<lambda>_. ws) (mapE (check_retry_target unq S view True w) (rp_retry_input rp)))))))"

text \<open>The scope of a callable flow's repeat: its own records and those of its retry flow.\<close>

definition item_flows :: "flows \<Rightarrow> string list \<Rightarrow> (compile_error, flows) result" where
  "item_flows flows names = mapE (\<lambda>n. mapR (\<lambda>f. (n, f)) (lookupE flows n)) names"

definition item_reference_check :: "flows \<Rightarrow> place \<Rightarrow> string \<Rightarrow> (compile_error, unit) result" where
  "item_reference_check item w pointer = (case tokens pointer of
     [] \<Rightarrow> Inr ()
   | a # rest \<Rightarrow>
       if a \<notin> {''payload'', ''metadata'', ''flows''} then Inl (Refused ''dangling_pointer'' w)
       else if a \<noteq> ''flows'' then Inr ()
       else (case rest of
          n # kind # _ \<Rightarrow>
            if get item n = None \<or> (kind \<noteq> ''result'' \<and> kind \<noteq> ''attempts'')
            then Inl (Refused ''invalid_flow_reference'' w) else Inr ()
        | _ \<Rightarrow> Inl (Refused ''invalid_flow_reference'' w)))"

definition check_item_binding ::
  "(string \<Rightarrow> string) \<Rightarrow> workflow_scope \<Rightarrow> flows \<Rightarrow> string list \<Rightarrow> place \<Rightarrow> string \<times> binding \<Rightarrow> (compile_error, unit) result" where
  "check_item_binding unq S item available w p =
     (let here = below w [Key (fst p)]; b = snd p in
      bindE (require (item_reference_check item here) (flow_available (set available))
          (Refused ''unavailable_flow_reference'' here) b) (\<lambda>_.
       bindE (binding_value unq (workflow_static unq S) here b) (\<lambda>_.
        if may_be_missing (workflow_static unq (completed_at S available)) b
        then Inl (Refused ''unavailable_value'' here) else Inr ())))"

definition check_item_target ::
  "(string \<Rightarrow> string) \<Rightarrow> workflow_scope \<Rightarrow> schema_view \<Rightarrow> place \<Rightarrow> string \<times> binding \<Rightarrow> (compile_error, unit) result" where
  "check_item_target unq S view w p =
     (let here = below w [Key (fst p)] in
      case view_child unq view (fst p) of
        None \<Rightarrow> Inl (Refused ''invalid_input_bindings'' here)
      | Some target \<Rightarrow> bindE (binding_value unq (workflow_static unq S) here (snd p)) (\<lambda>actual.
          if incompatible_types (static_types unq actual) (schema_types unq target)
          then Inl (Refused ''incompatible_binding_type'' here)
          else check_default_type (snd p) (schema_types unq target) here))"

text \<open>\<^verbatim>\<open>_validate_item_repeat\<close>\<close>

definition validate_item_retry ::
  "(string \<Rightarrow> string) \<Rightarrow> repeat_plan \<Rightarrow> string \<Rightarrow> flows \<Rightarrow> workflow_scope \<Rightarrow> flows \<Rightarrow> place \<Rightarrow> warning list \<Rightarrow>
     (compile_error, warning list) result" where
  "validate_item_retry unq rp retry flows S item w ws =
     (let here = below w [Key ''retry'', Key ''input''] in
      bindE (lookupE flows retry) (\<lambda>target.
      bindE (case fl_input_schema_path target of
          None \<Rightarrow> Inr ()
        | Some p \<Rightarrow> bindE (schema_file (ws_schemas S) p) (\<lambda>view.
            if \<not> set (required_names unq view) \<subseteq> set (keys (rp_retry_flow_input rp))
            then Inl (Refused ''invalid_input_bindings'' here)
            else mapR (\<lambda>_. ()) (mapE (check_item_target unq S view here) (rp_retry_flow_input rp)))) (\<lambda>_.
        case rp_continue_when rp of
          None \<Rightarrow> Inr ws
        | Some c \<Rightarrow> check_scoped unq S (item_reference_check item)
            (below w [Key ''retry'', Key ''continue_when'']) c ws)))"

definition validate_item_repeat ::
  "(string \<Rightarrow> string) \<Rightarrow> flow \<Rightarrow> repeat_plan \<Rightarrow> flows \<Rightarrow> workflow_scope \<Rightarrow> place \<Rightarrow> warning list \<Rightarrow>
     (compile_error, warning list) result" where
  "validate_item_repeat unq f rp flows S w ws =
     (let names = fl_name f # (case rp_retry_flow rp of None \<Rightarrow> [] | Some r \<Rightarrow> [r]) in
      bindE (item_flows flows names) (\<lambda>item.
      let I = \<lparr>ws_flows = item, ws_flow_scopes = ws_flow_scopes S, ws_input_path = fl_input_schema_path f,
            ws_schemas = ws_schemas S, ws_completed = []\<rparr> in
      bindE (check_scoped unq I (item_reference_check item) (below w [Key ''until'']) (rp_until rp) ws) (\<lambda>ws.
      bindE (mapE (check_item_binding unq I item [fl_name f] (below w [Key ''retry'', Key ''input'']))
          (rp_retry_flow_input rp)) (\<lambda>_.
      bindE (mapE (check_item_binding unq I item names (below w [Key ''retry_input''])) (rp_retry_input rp)) (\<lambda>_.
      bindE (case rp_retry_flow rp of None \<Rightarrow> Inr ws
          | Some retry \<Rightarrow> validate_item_retry unq rp retry flows I item w ws) (\<lambda>ws.
        if rp_retry_input rp = [] then Inr ws
        else (case fl_input_schema_path f of
          None \<Rightarrow> Inr ws
        | Some p \<Rightarrow> bindE (schema_file (ws_schemas S) p) (\<lambda>view.
            mapR (\<lambda>_. ws) (mapE (check_retry_target unq I view False w) (rp_retry_input rp))))))))))"

section \<open>The whole check\<close>

type_synonym dead_entries = "(string \<times> nat) list"

text \<open>The conditions of a conditional review route are checked; its dead entries are not kept.\<close>

definition check_review_conditions ::
  "(string \<Rightarrow> string) \<Rightarrow> workflow_scope \<Rightarrow> flows \<Rightarrow> graph_result \<Rightarrow> string set \<Rightarrow> place \<Rightarrow> flow \<Rightarrow> warning list \<Rightarrow>
     (compile_error, warning list) result" where
  "check_review_conditions unq S flows G allowed w f ws = (case fl_on_unresolved f of
     Some (RRoute route) \<Rightarrow> mapR snd (check_route_conditions unq S flows G allowed w False route ws)
   | _ \<Rightarrow> Inr ws)"

definition check_transition ::
  "(string \<Rightarrow> string) \<Rightarrow> workflow_scope \<Rightarrow> flows \<Rightarrow> graph_result \<Rightarrow> string set \<Rightarrow> string list \<Rightarrow> place \<Rightarrow> string \<Rightarrow> flow \<Rightarrow>
     warning list \<Rightarrow> (compile_error, dead_entries \<times> warning list) result" where
  "check_transition unq S flows G dominators completed w name f ws = (case fl_transition f of
     Some (TMatch r) \<Rightarrow> mapR (\<lambda>ws'. ([], ws')) (check_match unq S flows G dominators completed w r ws)
   | Some (TRoute route) \<Rightarrow> mapR (\<lambda>(dead, ws'). (map (\<lambda>i. (name, i)) dead, ws'))
       (check_route_conditions unq S flows G (may_have_run G name) w False route ws)
   | _ \<Rightarrow> Inr ([], ws))"

text \<open>The branches of one flow: a callable one, and a routed one. The order of a set is fixed by \<^verbatim>\<open>enum\<close>.\<close>

definition check_callable ::
  "(string \<Rightarrow> string) \<Rightarrow> workflow_scope \<Rightarrow> flows \<Rightarrow> flow_source \<Rightarrow> flow \<Rightarrow> warning list \<Rightarrow> (compile_error, warning list) result" where
  "check_callable unq S flows src f ws =
     bindE (case fl_input_schema_path f of
         None \<Rightarrow> Inr ()
       | Some p \<Rightarrow> bindE (schema_file (ws_schemas S) p) (\<lambda>view.
           if incompatible_types (Some {''object''}) (schema_types unq view)
           then Inl (fail_at ''incompatible_binding_type'' (src_definition src) [Key ''input_schema''])
           else Inr ())) (\<lambda>_.
       case fl_repeat f of
         None \<Rightarrow> Inr ws
       | Some rp \<Rightarrow> validate_item_repeat unq f rp flows S (below (src_instance src) [Key ''repeat'']) ws)"

definition check_routed ::
  "(string \<Rightarrow> string) \<Rightarrow> (string set \<Rightarrow> string list) \<Rightarrow> workflow_scope \<Rightarrow> flows \<Rightarrow> graph_result \<Rightarrow> place \<Rightarrow> flow_source \<Rightarrow>
     string \<Rightarrow> flow \<Rightarrow> warning list \<Rightarrow> (compile_error, dead_entries \<times> warning list) result" where
  "check_routed unq enum S flows G w src name f ws =
     (let completed = enum (completed_before flows G name);
          here = below (src_instance src) [Key ''transition''] in
      bindE (lookupE (gr_dominators G) name) (\<lambda>dominators.
      bindE (boundary_bindings unq (fl_input f) (fl_input_schema_path f) S G flows (dominators - {name})
          (src_instance src) [Key ''input''] completed) (\<lambda>_.
      bindE (check_transition unq S flows G dominators (name # completed) here name f ws) (\<lambda>(dead, ws).
      bindE (check_review_conditions unq S flows G (may_have_run G name) (review_place f src w) f ws) (\<lambda>ws.
      mapR (\<lambda>ws. (dead, ws)) (case fl_repeat f of
          None \<Rightarrow> Inr ws
        | Some rp \<Rightarrow> validate_repeat_bindings unq f rp flows G S (below (src_instance src) [Key ''repeat''])
            (name # completed) ws))))))"

fun check_flows ::
  "(string \<Rightarrow> string) \<Rightarrow> (string set \<Rightarrow> string list) \<Rightarrow> workflow_scope \<Rightarrow> flows \<Rightarrow> graph_result \<Rightarrow> place \<Rightarrow>
     (string, flow_source) dict \<Rightarrow> (string \<times> flow) list \<Rightarrow> dead_entries \<times> warning list \<Rightarrow>
     (compile_error, dead_entries \<times> warning list) result" where
  "check_flows unq enum S flows G w sources [] r = Inr r"
| "check_flows unq enum S flows G w sources ((name, f) # rest) (dead, ws) =
     bindE (lookupE sources name) (\<lambda>src.
       bindE (if fl_callable f then mapR (\<lambda>ws. ([], ws)) (check_callable unq S flows src f ws)
           else check_routed unq enum S flows G w src name f ws) (\<lambda>(more, ws).
         check_flows unq enum S flows G w sources rest (dead @ more, ws)))"

text \<open>The flows at which a run can end: their common dominators are available to the output.\<close>

definition terminal_flows :: "flows \<Rightarrow> string list" where
  "terminal_flows flows = map fst (filter (\<lambda>(n, f). \<not> fl_callable f \<and>
     (fl_on_unresolved f = None \<or> list_ex (\<lambda>t. tg_outcome t \<noteq> None) (flow_targets f))) flows)"

definition output_available :: "flows \<Rightarrow> graph_result \<Rightarrow> (compile_error, string set) result" where
  "output_available flows G = (case terminal_flows flows of
     [] \<Rightarrow> Inr {}
   | ns \<Rightarrow> mapR (\<lambda>ds. \<Inter> (set ds)) (mapE (lookupE (gr_dominators G)) ns))"

definition validate_boundaries ::
  "(string \<Rightarrow> string) \<Rightarrow> (string set \<Rightarrow> string list) \<Rightarrow> flows \<Rightarrow> graph_result \<Rightarrow> binding option \<Rightarrow> start_plan \<Rightarrow>
     workflow_scope \<Rightarrow> place \<Rightarrow> (string, flow_source) dict \<Rightarrow> warning list \<Rightarrow>
     (compile_error, dead_entries \<times> warning list) result" where
  "validate_boundaries unq enum flows G out start S w sources ws =
     bindE (case start of
         StartFlow _ \<Rightarrow> Inr ([], ws)
       | StartRoute route \<Rightarrow> mapR (\<lambda>(dead, ws'). (map (\<lambda>i. ([], i)) dead, ws'))
           (check_route_conditions unq S flows G {} (below w [Key ''start'']) True route ws)) (\<lambda>r.
      bindE (check_flows unq enum S flows G w sources flows r) (\<lambda>(dead, ws).
        case out of
          None \<Rightarrow> Inr (dead, ws)
        | Some b \<Rightarrow> bindE (output_available flows G) (\<lambda>available.
            mapR (\<lambda>_. (dead, ws)) (boundary_bindings unq [(''output'', b)] None S G flows available w [] []))))"

text \<open>
  \<^verbatim>\<open>_unreachable_through_dead_entries\<close>: the live targets, the flows reached through them, and
  the first flow that is not.
\<close>

definition live_entries :: "dead_entries \<Rightarrow> string \<Rightarrow> conditional_routing \<Rightarrow> string list" where
  "live_entries dead source route =
     target_flows (map (re_target \<circ> snd) (filter (\<lambda>(i, e). (source, i) \<notin> set dead) (enumerate 0 route)))"

definition live_transition :: "dead_entries \<Rightarrow> string \<Rightarrow> transition \<Rightarrow> string list" where
  "live_transition dead source t = (case t of
     TRoute route \<Rightarrow> live_entries dead source route | _ \<Rightarrow> target_flows (transition_targets t))"

definition live_flow :: "flows \<Rightarrow> (string, string) dict \<Rightarrow> dead_entries \<Rightarrow> string \<Rightarrow> string list" where
  "live_flow flows retry_of dead name = (case get flows name of
     None \<Rightarrow> []
   | Some f \<Rightarrow>
       (case fl_transition f of None \<Rightarrow> [] | Some t \<Rightarrow> live_transition dead name t)
       @ review_flow_targets f
       @ concat (map (\<lambda>s. case st_body s of CollectionStep c \<Rightarrow> cs_flows c | _ \<Rightarrow> []) (fl_steps f))
       @ map fst (filter (\<lambda>p. snd p = name) retry_of))"

definition live_start :: "dead_entries \<Rightarrow> start_plan \<Rightarrow> string list" where
  "live_start dead start = (case start of
     StartFlow n \<Rightarrow> [n] | StartRoute route \<Rightarrow> live_entries dead [] route)"

function live_from :: "(string, string list) dict \<Rightarrow> string list \<Rightarrow> string list \<Rightarrow> string list" where
  "live_from g [] seen = seen"
| "live_from g (n # pending) seen =
     (if n \<in> set seen then live_from g pending seen
      else live_from g (rev (successors g n) @ pending) (n # seen))"
  by pat_completeness auto
termination
proof (relation "inv_image (less_than <*lex*> less_than)
    (\<lambda>(g, pending, seen). (card (set (keys g) - set seen), length pending))", goal_cases)
  case (3 g n pending seen)
  show ?case
  proof (cases "n \<in> set (keys g)")
    case True
    with 3 have "card (set (keys g) - set (n # seen)) < card (set (keys g) - set seen)"
      by (intro psubset_card_mono) auto
    then show ?thesis by simp
  next
    case False
    then have "get g n = None" by (simp add: get_None_iff)
    moreover from False have "set (keys g) - set (n # seen) = set (keys g) - set seen" by auto
    ultimately show ?thesis by (simp add: successors_def)
  qed
qed auto

definition live_graph :: "flows \<Rightarrow> (string, string) dict \<Rightarrow> dead_entries \<Rightarrow> (string, string list) dict" where
  "live_graph flows retry_of dead = map (\<lambda>n. (n, live_flow flows retry_of dead n)) (keys flows)"

definition check_live ::
  "flows \<Rightarrow> start_plan \<Rightarrow> (string, string) dict \<Rightarrow> dead_entries \<Rightarrow> place \<Rightarrow> (compile_error, unit) result" where
  "check_live flows start retry_of dead w =
     (if dead = [] then Inr ()
      else let seen = live_from (live_graph flows retry_of dead) (rev (live_start dead start)) [] in
        case List.find (\<lambda>n. n \<notin> set seen) (keys flows) of
          Some n \<Rightarrow> Inl (fail_at ''unreachable_flow'' w [Key ''flows'', Key n])
        | None \<Rightarrow> Inr ())"

section \<open>Unreachable entries are never selected\<close>

lemma check_entries_ge:
  "check_entries unq resolve flows G allowed w start i decided es ws = Inr (dead, ws') \<Longrightarrow> \<forall>k \<in> set dead. i \<le> k"
proof (induction es arbitrary: i decided ws dead)
  case (Cons e es)
  have le: "\<forall>k \<in> set ds. i \<le> k" if "check_entries unq resolve flows G allowed w start (Suc i) d es v = Inr (ds, ws')" for ds d v
    using Cons.IH [OF that] by auto
  show ?case
    using Cons.prems
    by (auto simp: mapR_Inr_iff bindE_Inr_iff split: if_splits option.splits dest!: le)
qed simp

lemma select_from_ge: "fst (select_from env l ctx i es st) = Inr (t, k) \<Longrightarrow> i \<le> k"
proof (induction es arbitrary: i st)
  case (Cons e es)
  show ?case
  proof (cases "re_when e")
    case (Some c)
    obtain r st1 where "condition_holds env c (l @ ''.'' @ nat_text i) ctx st = (r, st1)" by fastforce
    with Cons.prems Some Cons.IH [of "Suc i" st1] show ?thesis
      by (fastforce simp: bindM_def ret_def split: sum.splits if_splits)
  qed (use Cons.prems in \<open>simp add: ret_def\<close>)
qed (simp add: failM_def raise_code_def)

text \<open>The conditions of a route were compiled.\<close>

definition route_frozen :: "conditional_routing \<Rightarrow> bool" where
  "route_frozen es \<longleftrightarrow> list_all (\<lambda>e. case re_when e of None \<Rightarrow> True
     | Some c \<Rightarrow> list_all leaf_frozen (condition_leaves c)) es"

context schema_validator
begin

lemma dead_entry_sound:
  assumes resolve: "\<forall>p v. lookup_pointer p ctx = Inr (Some v) \<longrightarrow> admits valid (resolve p) v"
    and ctx: "json_wf ctx"
  shows "check_entries unq resolve flows G allowed w start i False es ws = Inr (dead, ws') \<Longrightarrow> route_frozen es \<Longrightarrow>
     fst (select_from env l ctx i es st) = Inr (t, k) \<Longrightarrow> k \<notin> set dead"
proof (induction es arbitrary: i ws dead st)
  case (Cons e es)
  show ?case
  proof (cases "re_when e")
    case None
    with Cons.prems(3) have "k = i" by (simp add: ret_def)
    with check_entries_ge None Cons.prems(1) show ?thesis by fastforce
  next
    case (Some c)
    with Cons.prems(1) obtain verdict ws1 where
      v: "check_entry unq resolve flows G allowed w start i c ws = Inr (verdict, ws1)"
      and rest: "if verdict = Some False
        then mapR (\<lambda>(dead, ws''). (i # dead, ws''))
          (check_entries unq resolve flows G allowed w start (Suc i) False es (unreachable_entry w 1 i ws1)) = Inr (dead, ws')
        else check_entries unq resolve flows G allowed w start (Suc i) (verdict = Some True) es ws1 = Inr (dead, ws')"
      by (auto simp: bindE_Inr_iff split: if_splits)
    have frozen: "\<forall>lf \<in> set (condition_leaves c). leaf_frozen lf" "route_frozen es"
      using Cons.prems(2) Some by (auto simp: route_frozen_def list_all_iff)
    from v obtain here where "check_condition unq resolve here c ws = Inr (verdict, ws1)"
      by (auto simp: check_entry_def Let_def bindE_Inr_iff)
    with check_condition_sound [OF resolve ctx frozen(1)] have sound:
      "verdict = Some b \<Longrightarrow> evaluate_condition (ev_fullmatch env) c ctx = Inr (a, ms) \<Longrightarrow> a = b" for a b ms
      by blast
    obtain r st1 where hold: "condition_holds env c (l @ ''.'' @ nat_text i) ctx st = (r, st1)" by fastforce
    with condition_holds_result [of env c "l @ ''.'' @ nat_text i" ctx st] Cons.prems(3) Some obtain a ms where
      a: "evaluate_condition (ev_fullmatch env) c ctx = Inr (a, ms)" "r = Inr a"
      by (auto simp: bindM_def split: sum.splits)
    show ?thesis
    proof (cases a)
      case True
      with Cons.prems(3) Some hold a have k: "k = i" by (simp add: bindM_def ret_def)
      from sound [OF _ a(1)] True have "verdict \<noteq> Some False" by auto
      with rest have "check_entries unq resolve flows G allowed w start (Suc i) (verdict = Some True) es ws1 = Inr (dead, ws')" by simp
      from check_entries_ge [OF this] k show ?thesis by auto
    next
      case False
      with Cons.prems(3) Some hold a have sel: "fst (select_from env l ctx (Suc i) es st1) = Inr (t, k)" by (simp add: bindM_def)
      from sound [OF _ a(1)] False have nt: "verdict \<noteq> Some True" by auto
      have "Suc i \<le> k" using select_from_ge [OF sel] .
      show ?thesis
      proof (cases "verdict = Some False")
        case True
        with rest obtain ds where "check_entries unq resolve flows G allowed w start (Suc i) False es (unreachable_entry w 1 i ws1) = Inr (ds, ws')"
          "dead = i # ds" by (auto simp: mapR_Inr_iff)
        with Cons.IH [OF this(1) frozen(2) sel] \<open>Suc i \<le> k\<close> show ?thesis by auto
      next
        case False
        with rest nt Cons.IH [OF _ frozen(2) sel] show ?thesis by auto
      qed
    qed
  qed
qed (simp add: failM_def raise_code_def)

end

section \<open>Case routes are covered\<close>

lemma static_values_keyed: "static_values unq s = Some d \<Longrightarrow> \<forall>p \<in> set d. fst p = json_key (snd p)"
proof -
  have "\<forall>p \<in> set (dict_of (map (\<lambda>v. (json_key v, v)) vs) d). fst p = json_key (snd p)"
    if "\<forall>p \<in> set d. fst p = json_key (snd p)" for vs and d :: keyed
    using that
  proof (induction vs arbitrary: d)
    case (Cons v vs)
    have "\<forall>p \<in> set (put (json_key v) v d). fst p = json_key (snd p)"
      using Cons.prems by (induction d) auto
    from Cons.IH [OF this] show ?case by simp
  qed simp
  from this [of "[]"] show "static_values unq s = Some d \<Longrightarrow> ?thesis"
    by (auto simp: static_values_def simp del: split_paired_All)
qed

lemma below_inj: "below w p = below w q \<longleftrightarrow> p = q"
  by (cases w) (simp add: below_def)

lemma json_key_string: "json_key v = JStr s \<longleftrightarrow> v = JStr s"
  by (cases v) (auto split: pfloat.splits)

lemma string_values_mem: "JStr s \<in> snd ` set d \<Longrightarrow> s \<in> set (string_values d)"
  by (force simp: string_values_def List.map_filter_def)

context schema_validator
begin

lemma routed_string:
  assumes resolve: "\<forall>p v. lookup_pointer p ctx = Inr (Some v) \<longrightarrow> admits valid (workflow_static unq S p) v"
    and r: "resolve_binding (mr_binding r) ctx = Inr (JStr s)" "binding_frozen (mr_binding r)"
    and vals: "static_values unq (binding_static unq (workflow_static unq S) (mr_binding r)) = Some allowed"
  shows "s \<in> set (string_values allowed)"
proof -
  have "admits valid (binding_static unq (workflow_static unq S) (mr_binding r)) (JStr s)"
    by (rule binding_static_sound [OF resolve r])
  from static_values_sound [OF this _ vals] have "JStr s \<in> set (keys allowed)" by simp
  then obtain u where u: "(JStr s, u) \<in> set allowed" by auto
  with static_values_keyed [OF vals] have "json_key u = JStr s" by force
  with u have "(JStr s, JStr s) \<in> set allowed" by (simp add: json_key_string)
  then show ?thesis by (intro string_values_mem) force
qed

text \<open>A case that is refused can never match; a covered default is taken by the listed values only.\<close>

lemma coverage_sound:
  assumes resolve: "\<forall>p v. lookup_pointer p ctx = Inr (Some v) \<longrightarrow> admits valid (workflow_static unq S p) v"
    and r: "resolve_binding (mr_binding r) ctx = Inr (JStr s)" "binding_frozen (mr_binding r)"
  shows "coverage unq S w r ws = Inl (fail_at ''unmatched_case'' w [Key ''cases'', Key k]) \<Longrightarrow> s \<noteq> k"
    and "coverage unq S w r ws = Inr ws' \<Longrightarrow> mr_default_covers r \<noteq> [] \<Longrightarrow>
      s \<in> set (keys (mr_cases r)) \<or> s \<in> set (mr_default_covers r)"
proof -
  assume c: "coverage unq S w r ws = Inl (fail_at ''unmatched_case'' w [Key ''cases'', Key k])"
  then obtain allowed where vals:
    "static_values unq (binding_static unq (workflow_static unq S) (mr_binding r)) = Some allowed"
    by (auto simp: coverage_def fail_at_def split: option.splits if_splits)
  with c have "List.find (\<lambda>k. k \<notin> set (string_values allowed)) (keys (mr_cases r)) = Some k"
    by (auto simp: coverage_def fail_at_def below_inj Let_def split: option.splits if_splits)
  then have "k \<notin> set (string_values allowed)" by (auto simp: find_Some_iff)
  with routed_string [OF resolve r vals] show "s \<noteq> k" by blast
next
  assume c: "coverage unq S w r ws = Inr ws'" "mr_default_covers r \<noteq> []"
  then obtain allowed where vals:
    "static_values unq (binding_static unq (workflow_static unq S) (mr_binding r)) = Some allowed"
    by (auto simp: coverage_def split: option.splits if_splits)
  with c have "sort (mr_default_covers r) = sort (uncovered_values allowed r)"
    by (auto simp: coverage_def Let_def split: option.splits if_splits)
  then have "set (mr_default_covers r) = set (uncovered_values allowed r)" by (metis set_sort)
  with routed_string [OF resolve r vals] show "s \<in> set (keys (mr_cases r)) \<or> s \<in> set (mr_default_covers r)"
    by (auto simp: uncovered_values_def)
qed

text \<open>The routed value of a checked case route is a string or null, where its types are known.\<close>

lemma match_value:
  assumes resolve: "\<forall>p v. lookup_pointer p ctx = Inr (Some v) \<longrightarrow> admits valid (workflow_static unq S p) v"
    and check: "check_match unq S flows G available completed w r ws = Inr ws'"
    and v: "resolve_binding (mr_binding r) ctx = Inr v"
    and b: "binding_frozen (mr_binding r)" "bk_kind (mr_binding r) \<noteq> KFields"
    and known: "static_types unq (binding_static unq (workflow_static unq S) (without_default (mr_binding r))) \<noteq> None"
  shows "v = JNull \<or> (\<exists>s. v = JStr s)"
proof -
  let ?b = "mr_binding r"
  from check obtain s where s: "binding_value unq (workflow_static unq S) (below w [Key ''binding'']) ?b = Inr s"
    and kinds: "\<not> (case static_types unq s of Some T \<Rightarrow> \<not> T \<subseteq> {''string'', ''null''} | None \<Rightarrow> False)"
    and default: "\<not> (bk_has_default ?b \<and> (case bk_default ?b of JNull \<Rightarrow> False | JStr _ \<Rightarrow> False | _ \<Rightarrow> True))"
    unfolding check_match_def Let_def bindE_Inr_iff by (auto split: if_split_asm)
  have dflt: "bk_default ?b = JNull \<or> (\<exists>t. bk_default ?b = JStr t)" if "bk_has_default ?b"
    using default that by (cases "bk_default ?b") auto
  from binding_value_sound [OF resolve s v b] show ?thesis
  proof
    assume a: "admits valid s v"
    have "static_types unq s \<noteq> None"
      using s b(2) known
      by (cases ?b) (auto simp: Let_def static_types_def all_known_def alternatives_of_def static_of_def without_default_def
        split: if_splits)
    then obtain T where T: "static_types unq s = Some T" by blast
    with kinds have "T \<subseteq> {''string'', ''null''}" by simp
    with static_types_sound [OF a T] have "json_type v \<in> {''string'', ''null''}" by (auto simp: type_in_def)
    then show ?thesis by (cases v) auto
  qed (use dflt in auto)
qed

end

end
