(* ===== verification/StaticChecks.thy ===== *)
theory StaticChecks imports Boundaries begin

text \<open>
  What the static checks of the compiler mean for the engine: the static values of bindings,
  conditions, conditional routes, case routes and collection results against what a run does with
  the same bindings, conditions and routes, in every context whose records fit their schemas.
  The JSON Schema validator is any function with the laws of \<^verbatim>\<open>schema_validator\<close>; the witnesses use
  \<^verbatim>\<open>keyword_valid\<close>, which has them.
\<close>

section \<open>Samples\<close>

text \<open>A flow whose only step answers with one of two words, and a workflow that routes the answer.\<close>

definition answer_file :: jobj where
  "answer_file = [(''type'', JStr ''string''), (''enum'', strings [''yes'', ''no''])]"

definition answer_step :: step where
  "answer_step = \<lparr>st_name = ''ask'', st_type = ''llm'',
     st_location = \<lparr>loc_path = ''triage.yaml'', loc_line = 3, loc_column = 1\<rparr>, st_when = None,
     st_body = LlmStep \<lparr>ls_model = ''m'', ls_input = [], ls_instructions = ''Answer.'', ls_output_kind = OutSchema,
       ls_output_schema_path = Some ''answer.json'', ls_output_schema = Some answer_file, ls_tools = None,
       ls_prompt = None, ls_max_iterations = 1\<rparr>\<rparr>"

definition answer_scope :: flow_scope where
  "answer_scope = \<lparr>fs_steps = [(''ask'', answer_step)], fs_input_path = None,
     fs_schemas = [(''answer.json'', answer_file)], fs_tool_output = \<lambda>_ _. [], fs_handler_output = \<lambda>_. None\<rparr>"

definition answer_record :: step_record where
  "answer_record = \<lparr>sp_status = Completed, sp_result = JStr ''yes'', sp_has_result = True, sp_error = None,
     sp_elapsed = None, sp_usage = None, sp_selection = None, sp_partial = None, sp_collection = False\<rparr>"

definition answer_envelope :: envelope where
  "answer_envelope = \<lparr>en_payload = JObj [], en_metadata = []\<rparr>"

definition answer_flow :: flow where
  "answer_flow = \<lparr>fl_name = ''triage'', fl_input = [], fl_steps = [answer_step],
     fl_input_schema_path = None, fl_input_schema = None, fl_output = Some (pointer_binding ''/steps/ask/result''),
     fl_transition = Some (TMatch \<lparr>mr_binding = pointer_binding ''/flows/triage/result'',
       mr_cases = [(''yes'', \<lparr>tg_flow = None, tg_outcome = Some OutCompleted\<rparr>)],
       mr_default = \<lparr>tg_flow = None, tg_outcome = Some OutNeedsReview\<rparr>, mr_default_covers = [''no'']\<rparr>),
     fl_on_unresolved = None, fl_location = \<lparr>loc_path = ''workflow.yaml'', loc_line = 2, loc_column = 1\<rparr>,
     fl_callable = False, fl_repeat = None, fl_on_unresolved_inherited = False, fl_available_flows = []\<rparr>"

definition answer_workflow :: workflow_scope where
  "answer_workflow = \<lparr>ws_flows = [(''triage'', answer_flow)], ws_flow_scopes = [(''triage'', answer_scope)],
     ws_input_path = None, ws_schemas = [(''answer.json'', answer_file)], ws_completed = []\<rparr>"

lemma answer_schema_valid: "s \<in> {''yes'', ''no''} \<Longrightarrow>
    admits (keyword_valid unq) (schema_at [(''answer.json'', answer_file)] ''answer.json'') (JStr s)"
  by (auto simp: admits_iff schema_at_def static_of_def plain_view_def answer_file_def enum_schema_def
      intro!: by_keywords.enum_valid)

lemma answer_context_fits:
  "flow_context_fits (keyword_valid unq) answer_scope answer_envelope [(''ask'', answer_record)]"
proof -
  have "step_fits (keyword_valid unq) answer_scope ''ask'' answer_record"
    using answer_schema_valid [of "''yes''" unq]
    by (simp add: step_fits_def answer_scope_def answer_step_def answer_record_def selection_fits_def
        step_result_static_def)
  moreover have "admits (keyword_valid unq) (payload_static None schemas) v" for schemas v
    using by_keywords.inline_any by (simp add: payload_static_def)
  moreover have "json_wf (binding_context answer_envelope [(''ask'', answer_record)])"
    "short_arrays (binding_context answer_envelope [(''ask'', answer_record)])"
    by code_simp+
  ultimately show ?thesis by (simp add: flow_context_fits_def answer_scope_def)
qed

definition answer_records :: "(string, flow_record) dict" where
  "answer_records = [(''triage'', FlowRecord Completed [(''ask'', answer_record)] (JStr ''yes'') True None None None [] None)]"

lemma answer_workflow_fits:
  "workflow_context_fits (keyword_valid unq) unq answer_workflow answer_envelope answer_records"
proof -
  have "flow_static unq answer_scope ''/steps/ask/result'' = schema_at [(''answer.json'', answer_file)] ''answer.json''"
    by (simp add: flow_static_def answer_scope_def answer_step_def step_result_static_def static_pointer_def tokens_def
        unescape_def)
  then have "flow_result_static unq answer_workflow ''triage'' answer_flow =
      schema_at [(''answer.json'', answer_file)] ''answer.json''"
    by (simp add: flow_result_static_def answer_workflow_def answer_flow_def with_default_def)
  with answer_schema_valid [of "''yes''" unq]
  have "flow_fits (keyword_valid unq) unq answer_workflow ''triage'' (snd (hd answer_records))"
    by (simp add: flow_fits_def answer_records_def) (simp add: answer_workflow_def result_fits_def)
  moreover have "admits (keyword_valid unq) (payload_static None schemas) v" for schemas v
    using by_keywords.inline_any by (simp add: payload_static_def)
  moreover have "json_wf (workflow_context answer_envelope answer_records)"
    "short_arrays (workflow_context answer_envelope answer_records)"
    by code_simp+
  ultimately show ?thesis
    by (simp add: workflow_context_fits_def answer_records_def) (simp add: answer_workflow_def)
qed

section \<open>Bindings of a flow\<close>

text \<open>
  C14: In a flow whose payload and step records fit their schemas, whatever a binding resolves to
  is admitted by the static value the compiler computes for it, and has one of its static types.
\<close>

theorem flow_binding_admitted:
  assumes "schema_validator unq V" "flow_context_fits V S e records"
    and "binding_frozen b" "resolve_binding b (binding_context e records) = Inr v"
  shows "admits V (binding_static unq (flow_static unq S) b) v \<and>
    (case static_types unq (binding_static unq (flow_static unq S) b) of None \<Rightarrow> True | Some T \<Rightarrow> type_in T v)"
proof -
  have "admits V (binding_static unq (flow_static unq S) b) v"
    by (rule schema_validator.binding_static_sound [OF assms(1) _ assms(4,3)])
      (use schema_validator.flow_static_sound [OF assms(1,2)] in blast)
  with schema_validator.static_types_sound [OF assms(1) this] show ?thesis by (auto split: option.split)
qed

theorem flow_binding_admitted_witness:
  "admits (keyword_valid id) (binding_static id (flow_static id answer_scope) (pointer_binding ''/steps/ask/result'')) (JStr ''yes'') \<and>
   (case static_types id (binding_static id (flow_static id answer_scope) (pointer_binding ''/steps/ask/result'')) of
      None \<Rightarrow> True | Some T \<Rightarrow> type_in T (JStr ''yes''))"
proof (rule flow_binding_admitted [OF by_keywords.schema_validator_axioms answer_context_fits])
  show "binding_frozen (pointer_binding ''/steps/ask/result'')" by simp
  show "resolve_binding (pointer_binding ''/steps/ask/result'')
      (binding_context answer_envelope [(''ask'', answer_record)]) = Inr (JStr ''yes'')"
    by code_simp
qed



section \<open>Conditions and routes\<close>


definition answer_condition :: "string \<Rightarrow> authored" where
  "answer_condition s = AuthoredLeaf \<lparr>al_source = FromPointer ''/flows/triage/result'', al_operator = OpEquals,
     al_operand = PStr s, al_comparison = None\<rparr>"

definition answer_leaf :: "string \<Rightarrow> leaf" where
  "answer_leaf s = \<lparr>lf_source = pointer_binding ''/flows/triage/result'', lf_operator = OpEquals,
     lf_operand = JStr s, lf_comparison = None, lf_pattern = None\<rparr>"

lemma answer_static:
  "workflow_static unq answer_workflow ''/flows/triage/result'' =
     schema_at [(''answer.json'', answer_file)] ''answer.json''"
  by (simp add: workflow_static_def tokens_def unescape_def answer_workflow_def flow_result_static_def
      answer_flow_def with_default_def flow_static_def answer_scope_def answer_step_def
      step_result_static_def static_pointer_def)

lemma answer_compiled:
  "compile_condition (\<lambda>_. None) (\<lambda>_. (0, 0)) (\<lambda>_. []) w (answer_condition s) = Inr (Leaf (answer_leaf s))"
  by (simp add: compile_condition_def answer_condition_def answer_leaf_def compile_source_def compile_operand_def
      freeze_json_def freeze_json_depth_def Let_def MAX_JSON_DEPTH_def)

definition answer_place :: place where
  "answer_place = \<lparr>pl_file = ''workflow.yaml'', pl_prefix = [Key ''flows'', Key ''triage'', Key ''transition'']\<rparr>"

lemma answer_verdict:
  "\<exists>ws. check_condition id (workflow_static id answer_workflow) answer_place (Leaf (answer_leaf ''maybe'')) [] =
     Inr (Some False, ws)"
proof -
  have "case check_condition id (workflow_static id answer_workflow) answer_place (Leaf (answer_leaf ''maybe'')) [] of
      Inr (v, _) \<Rightarrow> v = Some False | Inl _ \<Rightarrow> False"
    by code_simp
  then show ?thesis by (auto split: sum.splits prod.splits)
qed


text \<open>
  C16: An entry of a conditional route that the compiler reports as unreachable is never selected:
  in every workflow context whose records fit their schemas, the selection of a target ends at an
  entry that was not reported.
\<close>

theorem unreachable_never_selected:
  assumes "schema_validator unq V" "workflow_context_fits V unq S e records" "route_frozen route"
    and "check_route_conditions unq S flows G allowed w start route ws = Inr (dead, ws')"
    and "select_route env route l (workflow_context e records) st = (Inr (t, k), st')"
  shows "k \<notin> set dead"
proof -
  have wf: "json_wf (workflow_context e records)" using assms(2) by (simp add: workflow_context_fits_def)
  have r: "\<forall>p v. lookup_pointer p (workflow_context e records) = Inr (Some v) \<longrightarrow>
      admits V (workflow_static unq S p) v"
    using schema_validator.workflow_static_sound [OF assms(1,2)] by blast
  have "fst (select_from env l (workflow_context e records) 0 route st) = Inr (t, k)"
    using assms(5) by (simp add: select_route_def)
  with schema_validator.dead_entry_sound [OF assms(1) r wf assms(4) [unfolded check_route_conditions_def] assms(3)]
  show ?thesis by blast
qed

definition answer_route :: conditional_routing where
  "answer_route = [\<lparr>re_target = \<lparr>tg_flow = None, tg_outcome = Some OutNeedsReview\<rparr>, re_when = Some (Leaf (answer_leaf ''maybe''))\<rparr>,
     \<lparr>re_target = \<lparr>tg_flow = None, tg_outcome = Some OutCompleted\<rparr>, re_when = Some (Leaf (answer_leaf ''yes''))\<rparr>,
     \<lparr>re_target = \<lparr>tg_flow = None, tg_outcome = Some OutNeedsReview\<rparr>, re_when = None\<rparr>]"

definition answer_graph :: graph_result where
  "answer_graph = \<lparr>gr_dominators = [(''triage'', {''triage''})], gr_ancestors = [(''triage'', {''triage''})],
     gr_retry_of = [], gr_successors = [(''triage'', [])]\<rparr>"

theorem unreachable_never_selected_witness:
  "\<exists>t st. select_route sample_env answer_route ''transition.route'' (workflow_context answer_envelope answer_records) (new_run 0) =
     (Inr (t, 1), st) \<and> (1::nat) \<notin> set [0]"
proof -
  have "case check_route_conditions id answer_workflow [(''triage'', answer_flow)] answer_graph {''triage''} answer_place
      False answer_route [] of Inr (dead, _) \<Rightarrow> dead = [0] | Inl _ \<Rightarrow> False"
    by code_simp
  then obtain ws where dead: "check_route_conditions id answer_workflow [(''triage'', answer_flow)] answer_graph
      {''triage''} answer_place False answer_route [] = Inr ([0], ws)"
    by (auto split: sum.splits prod.splits)
  have "case select_route sample_env answer_route ''transition.route'' (workflow_context answer_envelope answer_records)
      (new_run 0) of (Inr (t, k), st) \<Rightarrow> k = 1 | _ \<Rightarrow> False"
    by code_simp
  then obtain t st where sel: "select_route sample_env answer_route ''transition.route''
      (workflow_context answer_envelope answer_records) (new_run 0) = (Inr (t, 1), st)"
    by (auto split: sum.splits prod.splits)
  have "route_frozen answer_route" by code_simp
  from unreachable_never_selected [OF by_keywords.schema_validator_axioms answer_workflow_fits this dead sel] sel
  show ?thesis by blast
qed

text \<open>
  C17: The coverage check of a case route is right about the engine, in every workflow context whose
  records fit their schemas: a case it refuses as unmatched is never taken, and where it accepts a
  covered default, the engine takes the default only for null or for a listed value.
\<close>

theorem case_route_covered:
  assumes "schema_validator unq V" "workflow_context_fits V unq S e records" "binding_frozen (mr_binding r)"
    and "fl_transition f = Some (TMatch r)"
    and "completed_target env f (workflow_context e records) st = (Inr (t, kind, i, c), st')"
  shows "case coverage unq S w r ws of
      Inl err \<Rightarrow> \<forall>k. err = fail_at ''unmatched_case'' w [Key ''cases'', Key k] \<longrightarrow> c \<noteq> Some k
    | Inr ws' \<Rightarrow> mr_default_covers r \<noteq> [] \<longrightarrow> c = None \<longrightarrow>
        (\<exists>v \<in> insert JNull (JStr ` set (mr_default_covers r)).
           resolve_binding (mr_binding r) (workflow_context e records) = Inr v \<and> t = mr_default r)"
proof -
  let ?ctx = "workflow_context e records"
  have valued: "\<forall>p v. lookup_pointer p ?ctx = Inr (Some v) \<longrightarrow> admits V (workflow_static unq S p) v"
    using schema_validator.workflow_static_sound [OF assms(1,2)] by blast
  from assms(4,5) obtain v where v: "resolve_binding (mr_binding r) ?ctx = Inr v"
    by (auto simp: completed_target_def bindM_Inr_iff pureM_Inr_iff)
  with assms(4,5) have target: "v = JNull \<and> c = None \<and> t = mr_default r \<or>
      (\<exists>s. v = JStr s \<and> (c = Some s \<or> (c = None \<and> t = mr_default r \<and> s \<notin> set (keys (mr_cases r)))))"
    using by_keywords.keys_dict_of_pairs [of "mr_cases r" "[]"]
    by (cases v) (auto simp: completed_target_def bindM_Inr_iff pureM_Inr_iff ret_def failM_def raise_code_def
        get_None_iff split: option.splits)
  show ?thesis
  proof (cases "coverage unq S w r ws")
    case (Inl err)
    have "c \<noteq> Some k" if "err = fail_at ''unmatched_case'' w [Key ''cases'', Key k]" for k
      using schema_validator.coverage_sound(1) [OF assms(1) valued _ assms(3) Inl [unfolded that]] v target by auto
    with Inl show ?thesis by simp
  next
    case (Inr ws')
    have "\<exists>v \<in> insert JNull (JStr ` set (mr_default_covers r)). resolve_binding (mr_binding r) ?ctx = Inr v \<and> t = mr_default r"
      if covers: "mr_default_covers r \<noteq> []" and c: "c = None"
    proof -
      consider "v = JNull" "t = mr_default r" | s where "v = JStr s" "t = mr_default r" "s \<notin> set (keys (mr_cases r))"
        using target c by auto
      then show ?thesis
      proof cases
        case 1
        with v show ?thesis by simp
      next
        case 2
        with schema_validator.coverage_sound(2) [OF assms(1) valued _ assms(3) Inr covers] v
        have "s \<in> set (mr_default_covers r)" by blast
        with 2 v show ?thesis by blast
      qed
    qed
    with Inr show ?thesis by simp
  qed
qed

definition answer_cases :: match_routing where
  "answer_cases = \<lparr>mr_binding = pointer_binding ''/flows/triage/result'',
     mr_cases = [(''yes'', \<lparr>tg_flow = None, tg_outcome = Some OutCompleted\<rparr>)],
     mr_default = \<lparr>tg_flow = None, tg_outcome = Some OutNeedsReview\<rparr>, mr_default_covers = [''no'']\<rparr>"

theorem case_route_covered_witness:
  "\<exists>t kind i c st. completed_target sample_env answer_flow (workflow_context answer_envelope answer_records) (new_run 0) =
      (Inr (t, kind, i, c), st) \<and>
    (case coverage id answer_workflow answer_place answer_cases [] of
      Inl err \<Rightarrow> \<forall>k. err = fail_at ''unmatched_case'' answer_place [Key ''cases'', Key k] \<longrightarrow> c \<noteq> Some k
    | Inr ws' \<Rightarrow> mr_default_covers answer_cases \<noteq> [] \<longrightarrow> c = None \<longrightarrow>
        (\<exists>v \<in> insert JNull (JStr ` set (mr_default_covers answer_cases)).
           resolve_binding (mr_binding answer_cases) (workflow_context answer_envelope answer_records) = Inr v \<and>
           t = mr_default answer_cases))"
proof -
  have "case completed_target sample_env answer_flow (workflow_context answer_envelope answer_records) (new_run 0) of
      (Inr r, _) \<Rightarrow> True | _ \<Rightarrow> False"
    by code_simp
  then obtain t kind i c st where run: "completed_target sample_env answer_flow
      (workflow_context answer_envelope answer_records) (new_run 0) = (Inr (t, kind, i, c), st)"
    by (auto split: sum.splits prod.splits)
  have "fl_transition answer_flow = Some (TMatch answer_cases)" by (simp add: answer_flow_def answer_cases_def)
  moreover have "binding_frozen (mr_binding answer_cases)" by (simp add: answer_cases_def)
  ultimately show ?thesis
    using case_route_covered [OF by_keywords.schema_validator_axioms answer_workflow_fits _ _ run] run by blast
qed

section \<open>Collections\<close>

text \<open>
  C21: The result of a collection step that the engine runs is admitted by the schema the compiler
  derives for it, whatever the flows it runs answer.
\<close>

theorem collection_result_conforms:
  assumes "schema_validator unq V"
    and "execute_collection env child cs inputs metadata depth s = (Inr record, s')" "sp_has_result record"
  shows "admits V (inline_schema schemas collection_result_schema) (sp_result record)"
  by (rule schema_validator.collection_result_admitted [OF assms])

definition answer_child :: "nat child" where
  "answer_child c = ret (FlowRecord Completed [(''ask'', answer_record)] (JStr ''yes'') True (Some usage_zero) (Some 0) None [] None, [])"

definition answer_items :: jobj where
  "answer_items = [(''items'', JArr [JObj [(''id'', JStr ''a''), (''flow'', JStr ''again''), (''input'', JObj [])]])]"

theorem collection_result_conforms_witness:
  "\<exists>record s. execute_collection (sample_env\<lparr>ev_deadline := 100\<rparr>) answer_child
      \<lparr>cs_items = pointer_binding ''/payload'', cs_flows = [''again''], cs_max_items = 2\<rparr> answer_items [] 0 (new_run 0) =
      (Inr record, s) \<and>
    admits (keyword_valid id) (inline_schema [] collection_result_schema) (sp_result record)"
proof -
  have "case execute_collection (sample_env\<lparr>ev_deadline := 100\<rparr>) answer_child
      \<lparr>cs_items = pointer_binding ''/payload'', cs_flows = [''again''], cs_max_items = 2\<rparr> answer_items [] 0 (new_run 0) of
      (Inr record, s) \<Rightarrow> sp_has_result record | _ \<Rightarrow> False"
    by code_simp
  then obtain "record" s where run: "execute_collection (sample_env\<lparr>ev_deadline := 100\<rparr>) answer_child
      \<lparr>cs_items = pointer_binding ''/payload'', cs_flows = [''again''], cs_max_items = 2\<rparr> answer_items [] 0 (new_run 0) =
      (Inr record, s)" "sp_has_result record"
    by (auto split: sum.splits prod.splits)
  from collection_result_conforms [OF by_keywords.schema_validator_axioms run] run(1) show ?thesis by blast
qed

section \<open>Patterns\<close>



section \<open>Keys of values\<close>

text \<open>
  The canonical text by which the compiler compares authored values with allowed ones agrees
  with the equality that conditions use at run time: numbers by value, objects in any order.
\<close>

theorem json_key_faithful:
  assumes "json_wf a" "json_wf b"
  shows "json_key a = json_key b \<longleftrightarrow> json_equal a b"
  by (rule json_key_equal [OF assms])

theorem json_key_faithful_witness:
  "json_key (JArr [JInt 1, JNull]) = json_key (JArr [JFloat (Fin 1), JNull]) \<longleftrightarrow>
     json_equal (JArr [JInt 1, JNull]) (JArr [JFloat (Fin 1), JNull])"
  by (rule json_key_faithful) simp_all

end
