(* ===== verification/StepChecks.thy ===== *)
theory StepChecks imports Boundaries begin

text \<open>
  The checks of the steps of one flow in \<^verbatim>\<open>compiler/compiler.py\<close>: which steps a binding may
  require (\<^verbatim>\<open>_validate_bindings\<close>, \<^verbatim>\<open>_validate_output\<close>), the types of step inputs
  (\<^verbatim>\<open>_validate_schema_bindings\<close>), and the notes on flows without a review route
  (\<^verbatim>\<open>_flow_diagnostics\<close>). A required reference to the record of an earlier step never fails
  when the step runs.
\<close>

section \<open>References to decl\<close>

text \<open>\<^verbatim>\<open>_named_bindings\<close>\<close>

definition named_bindings :: "step \<Rightarrow> (key list \<times> binding) list" where
  "named_bindings s = (case st_body s of
     DecisionStep d \<Rightarrow> map (\<lambda>(k, b). ([Key ''sources'', Key k], b)) (ds_sources d)
   | LlmStep l \<Rightarrow> map (\<lambda>(k, b). ([Key ''input'', Key k], b)) (ls_input l)
   | McpStep m \<Rightarrow> map (\<lambda>(k, b). ([Key ''arguments'', Key k], b)) (ms_arguments m)
   | CollectionStep c \<Rightarrow> [([Key ''items''], cs_items c)]
   | HandlerStep h \<Rightarrow> map (\<lambda>(k, b). ([Key ''input'', Key k], b)) (hs_input h))"

text \<open>\<^verbatim>\<open>_step_reference\<close>: the second part is compared before it is unescaped.\<close>

definition step_reference :: "string \<Rightarrow> string option" where
  "step_reference pointer = (case split_on CHR ''/'' pointer of
     _ # a # n # _ \<Rightarrow> if a = ''steps'' then Some (unescape n) else None
   | _ \<Rightarrow> None)"

definition optional_record_field :: "string \<Rightarrow> (string, step) dict \<Rightarrow> bool" where
  "optional_record_field pointer decl = (case tokens pointer of
     _ # n # f # _ \<Rightarrow> f = ''selection'' \<and>
       (case get decl n of
          Some s \<Rightarrow> (case st_body s of HandlerStep _ \<Rightarrow> True | _ \<Rightarrow> False)
        | None \<Rightarrow> False)
   | _ \<Rightarrow> False)"

definition step_available ::
  "string set \<Rightarrow> string set \<Rightarrow> (string, step) dict \<Rightarrow> string \<Rightarrow> bool" where
  "step_available prior conditional decl pointer = (case step_reference pointer of
     None \<Rightarrow> True
   | Some n \<Rightarrow>
       if n \<notin> prior then False
       else if n \<in> conditional
       then length (tokens pointer) = 2 \<or> (length (tokens pointer) = 3 \<and> tokens pointer ! 2 = ''status'')
       else \<not> optional_record_field pointer decl)"

text \<open>\<^verbatim>\<open>_flow_pointer_check\<close>; \<^verbatim>\<open>reason\<close> is the refusal of a pointer outside the flow.\<close>

definition pointer_in_flow :: "string \<Rightarrow> bool" where
  "pointer_in_flow pointer \<longleftrightarrow> pointer = [] \<or> (case split_on CHR ''/'' pointer of
     _ # a # _ \<Rightarrow> a \<in> {''payload'', ''metadata'', ''steps''} | _ \<Rightarrow> False)"

definition step_pointer_check ::
  "string \<Rightarrow> (string, step) dict \<Rightarrow> place \<Rightarrow> string \<Rightarrow> (compile_error, unit) result" where
  "step_pointer_check reason decl w pointer =
     (if \<not> pointer_in_flow pointer then Inl (Refused reason w)
      else (case step_reference pointer of
         Some n \<Rightarrow> if get decl n = None then Inl (Refused ''dangling_pointer'' w) else Inr ()
       | None \<Rightarrow> Inr ()))"

definition flow_pointer_check :: "(string, step) dict \<Rightarrow> place \<Rightarrow> string \<Rightarrow> (compile_error, unit) result" where
  "flow_pointer_check = step_pointer_check ''dangling_pointer''"

section \<open>Availability\<close>

text \<open>One binding of a step, and one pointer of its guard, after the steps \<^verbatim>\<open>prior\<close>.\<close>

definition check_step_binding ::
  "(string, step) dict \<Rightarrow> string set \<Rightarrow> string set \<Rightarrow> place \<Rightarrow> key list \<times> binding \<Rightarrow> (compile_error, unit) result" where
  "check_step_binding decl conditional prior w p =
     (let here = below w (fst p) in
      require (flow_pointer_check decl here) (step_available prior conditional decl)
        (Refused ''unavailable_step_reference'' here) (snd p))"

definition check_guard_pointer ::
  "(string, step) dict \<Rightarrow> string set \<Rightarrow> place \<Rightarrow> string \<Rightarrow> (compile_error, unit) result" where
  "check_guard_pointer decl prior w pointer =
     bindE (flow_pointer_check decl w pointer) (\<lambda>_.
       case step_reference pointer of
         Some n \<Rightarrow> if n \<notin> prior then Inl (Refused ''unavailable_step_reference'' w) else Inr ()
       | None \<Rightarrow> Inr ())"

definition check_guard ::
  "(string, step) dict \<Rightarrow> string set \<Rightarrow> (string, place) dict \<Rightarrow> string \<Rightarrow> step \<Rightarrow> (compile_error, unit) result" where
  "check_guard decl prior entries name s = (case st_when s of
     None \<Rightarrow> Inr ()
   | Some c \<Rightarrow> bindE (lookupE entries name) (\<lambda>w.
       mapR (\<lambda>_. ()) (mapE (check_guard_pointer decl prior (below w [Key ''when''])) (condition_pointers c))))"

text \<open>\<^verbatim>\<open>_validate_bindings\<close>: the loop over the steps.\<close>

fun check_steps ::
  "(string, step) dict \<Rightarrow> string set \<Rightarrow> (string, place) dict \<Rightarrow> (string, place) dict \<Rightarrow> string set \<Rightarrow>
     (string \<times> step) list \<Rightarrow> (compile_error, unit) result" where
  "check_steps decl conditional wheres entries prior [] = Inr ()"
| "check_steps decl conditional wheres entries prior ((name, s) # rest) =
     bindE (lookupE wheres name) (\<lambda>w.
     bindE (mapE (check_step_binding decl conditional prior w) (named_bindings s)) (\<lambda>_.
     bindE (check_guard decl prior entries name s) (\<lambda>_.
       check_steps decl conditional wheres entries (insert name prior) rest)))"

definition validate_bindings ::
  "(string, step) dict \<Rightarrow> string set \<Rightarrow> (string, place) dict \<Rightarrow> (string, place) dict \<Rightarrow> (compile_error, unit) result" where
  "validate_bindings decl conditional wheres entries = check_steps decl conditional wheres entries {} decl"

text \<open>\<^verbatim>\<open>_validate_output\<close>: the output is also projected when a step stops for review.\<close>

definition output_field_available :: "string \<Rightarrow> string set \<Rightarrow> string \<Rightarrow> bool" where
  "output_field_available first conditional pointer = (case step_reference pointer of
     None \<Rightarrow> True
   | Some n \<Rightarrow> n = first \<and> n \<notin> conditional \<and>
       \<not> (2 < length (tokens pointer) \<and> tokens pointer ! 2 = ''selection''))"

definition validate_output ::
  "binding option \<Rightarrow> (string, step) dict \<Rightarrow> string set \<Rightarrow> place \<Rightarrow> (compile_error, unit) result" where
  "validate_output out decl conditional w = (case out of
     None \<Rightarrow> Inr ()
   | Some b \<Rightarrow>
       (case decl of
          [] \<Rightarrow> Inl Defect
        | (first, _) # _ \<Rightarrow>
            let here = below w [Key ''output''] in
            require (step_pointer_check ''incompatible_output_binding'' decl here)
              (output_field_available first conditional) (Refused ''incompatible_output_binding'' here) b))"

section \<open>Types of step inputs\<close>

text \<open>
  The parts of \<^verbatim>\<open>_validate_schema_bindings\<close>. \<^verbatim>\<open>tool_in\<close> and \<^verbatim>\<open>handler_in\<close> are the input schemas
  of the tool catalogs and of the handler contracts.
\<close>

definition step_field :: "step_body \<Rightarrow> string" where
  "step_field body = (case body of
     DecisionStep _ \<Rightarrow> ''sources'' | McpStep _ \<Rightarrow> ''arguments'' | _ \<Rightarrow> ''input'')"

definition input_path :: "step_body \<Rightarrow> string \<Rightarrow> key list" where
  "input_path body k = (if is_collection body then [Key ''items''] else [Key (step_field body), Key k])"

definition step_input_schema ::
  "(string \<Rightarrow> string \<Rightarrow> jobj) \<Rightarrow> (string \<Rightarrow> jobj option) \<Rightarrow> flow_scope \<Rightarrow> step_body \<Rightarrow> schema_view option" where
  "step_input_schema tool_in handler_in S body = (case body of
     McpStep m \<Rightarrow> Some (plain_view (JObj (tool_in (ms_server m) (ms_tool m))) [] (fs_schemas S))
   | CollectionStep _ \<Rightarrow> Some (plain_view (object_schema [(''items'', type_schema ''array'')]) [] (fs_schemas S))
   | HandlerStep h \<Rightarrow> map_option (\<lambda>s. plain_view (JObj s) [] (fs_schemas S)) (handler_in (hs_handler h))
   | _ \<Rightarrow> None)"

definition check_required ::
  "(string \<Rightarrow> string) \<Rightarrow> schema_view \<Rightarrow> place \<Rightarrow> string list \<Rightarrow> (compile_error, unit) result" where
  "check_required unq view w names =
     (if \<not> is_object (vw_node (view_resolved unq view)) then Inr ()
      else if \<not> set (required_names unq view) \<subseteq> set names then Inl (Refused ''invalid_input_bindings'' w)
      else if incompatible_types (Some {''object''}) (schema_types unq view)
      then Inl (Refused ''incompatible_binding_type'' w)
      else Inr ())"

text \<open>A decision source that is sent as text.\<close>

definition text_source :: "step_body \<Rightarrow> string \<Rightarrow> bool" where
  "text_source body k \<longleftrightarrow> (case body of
     DecisionStep d \<Rightarrow> (case get (dict_of (ds_source_formats d) []) k of Some FJson \<Rightarrow> False | _ \<Rightarrow> True)
   | _ \<Rightarrow> False)"

definition check_text_source ::
  "(string \<Rightarrow> string) \<Rightarrow> string \<Rightarrow> place \<Rightarrow> string \<Rightarrow> binding \<Rightarrow> static \<Rightarrow> warning list \<Rightarrow> (compile_error, warning list) result" where
  "check_text_source unq name w k b actual ws =
     (if incompatible_types (static_types unq actual) (Some {''string''})
      then Inl (Refused ''incompatible_binding_type'' w)
      else if bk_has_default b \<and> (case bk_default b of JStr _ \<Rightarrow> False | _ \<Rightarrow> True)
      then Inl (fail_at ''incompatible_binding_type'' w [Key ''default''])
      else if allows_empty_string unq actual \<or> bk_default b = JStr []
      then Inr (add_warning (Warning ''empty_text_source'' w [] [k, name]) ws)
      else Inr ws)"

definition check_step_target ::
  "(string \<Rightarrow> string) \<Rightarrow> schema_view option \<Rightarrow> place \<Rightarrow> string \<Rightarrow> binding \<Rightarrow> static \<Rightarrow> (compile_error, unit) result" where
  "check_step_target unq expected w k b actual = (case expected of
     None \<Rightarrow> Inr ()
   | Some view \<Rightarrow>
       (case view_child unq view k of
          None \<Rightarrow> Inl (Refused ''invalid_input_bindings'' w)
        | Some target \<Rightarrow>
            if incompatible_types (static_types unq actual) (schema_types unq target)
            then Inl (Refused ''incompatible_binding_type'' w)
            else check_default_type b (schema_types unq target) (below w [Key ''default''])))"

fun check_inputs ::
  "(string \<Rightarrow> string) \<Rightarrow> flow_scope \<Rightarrow> schema_view option \<Rightarrow> place \<Rightarrow> step \<Rightarrow> bindings \<Rightarrow> warning list \<Rightarrow>
     (compile_error, warning list) result" where
  "check_inputs unq S expected w s [] ws = Inr ws"
| "check_inputs unq S expected w s ((k, b) # rest) ws =
     (let here = below w (input_path (st_body s) k) in
      bindE (binding_value unq (flow_static unq S) here b) (\<lambda>actual.
      bindE (if text_source (st_body s) k then check_text_source unq (st_name s) here k b actual ws else Inr ws) (\<lambda>ws.
      bindE (check_step_target unq expected here k b actual) (\<lambda>_.
        check_inputs unq S expected w s rest ws))))"

definition unused_inputs :: "step \<Rightarrow> string list" where
  "unused_inputs s = (case st_body s of
     LlmStep l \<Rightarrow> (case ls_prompt l of
        Some t \<Rightarrow> sort (filter (\<lambda>k. k \<notin> set (prompt_inputs t)) (remdups (keys (ls_input l))))
      | None \<Rightarrow> [])
   | _ \<Rightarrow> [])"

definition note_unused :: "place \<Rightarrow> step \<Rightarrow> warning list \<Rightarrow> warning list" where
  "note_unused w s ws = (case unused_inputs s of
     [] \<Rightarrow> ws
   | k # ks \<Rightarrow> add_warning (Warning ''unused_llm_input'' (below w [Key ''input'', Key k]) [] (st_name s # k # ks)) ws)"

definition check_when ::
  "(string \<Rightarrow> string) \<Rightarrow> flow_scope \<Rightarrow> (string, place) dict \<Rightarrow> step \<Rightarrow> warning list \<Rightarrow> (compile_error, warning list) result" where
  "check_when unq S entries s ws = (case st_when s of
     None \<Rightarrow> Inr ws
   | Some c \<Rightarrow> bindE (lookupE entries (st_name s)) (\<lambda>w.
       mapR snd (check_condition unq (flow_static unq S) (below w [Key ''when'']) c ws)))"

text \<open>One step, the loop, and the output of the flow.\<close>

definition check_step_schema ::
  "(string \<Rightarrow> string) \<Rightarrow> (string \<Rightarrow> string \<Rightarrow> jobj) \<Rightarrow> (string \<Rightarrow> jobj option) \<Rightarrow> flow_scope \<Rightarrow> (string, place) dict \<Rightarrow>
     (string, place) dict \<Rightarrow> step \<Rightarrow> warning list \<Rightarrow> (compile_error, warning list) result" where
  "check_step_schema unq tool_in handler_in S wheres entries s ws =
     bindE (lookupE wheres (st_name s)) (\<lambda>w.
      let expected = step_input_schema tool_in handler_in S (st_body s); pairs = step_bindings s in
      bindE (case expected of None \<Rightarrow> Inr ()
          | Some view \<Rightarrow> check_required unq view (below w [Key (step_field (st_body s))]) (keys pairs)) (\<lambda>_.
      bindE (check_inputs unq S expected w s pairs ws) (\<lambda>ws.
        check_when unq S entries s (note_unused w s ws))))"

fun check_step_schemas ::
  "(string \<Rightarrow> string) \<Rightarrow> (string \<Rightarrow> string \<Rightarrow> jobj) \<Rightarrow> (string \<Rightarrow> jobj option) \<Rightarrow> flow_scope \<Rightarrow> (string, place) dict \<Rightarrow>
     (string, place) dict \<Rightarrow> step list \<Rightarrow> warning list \<Rightarrow> (compile_error, warning list) result" where
  "check_step_schemas unq tool_in handler_in S wheres entries [] ws = Inr ws"
| "check_step_schemas unq tool_in handler_in S wheres entries (s # rest) ws =
     bindE (check_step_schema unq tool_in handler_in S wheres entries s ws)
       (check_step_schemas unq tool_in handler_in S wheres entries rest)"

definition validate_schema_bindings ::
  "(string \<Rightarrow> string) \<Rightarrow> (string \<Rightarrow> string \<Rightarrow> jobj) \<Rightarrow> (string \<Rightarrow> jobj option) \<Rightarrow> flow_scope \<Rightarrow> binding option \<Rightarrow> place \<Rightarrow>
     (string, place) dict \<Rightarrow> (string, place) dict \<Rightarrow> warning list \<Rightarrow> (compile_error, warning list) result" where
  "validate_schema_bindings unq tool_in handler_in S out w wheres entries ws =
     bindE (check_step_schemas unq tool_in handler_in S wheres entries (map snd (fs_steps S)) ws) (\<lambda>ws.
       case out of
         None \<Rightarrow> Inr ws
       | Some b \<Rightarrow> mapR (\<lambda>_. ws) (binding_value unq (flow_static unq S) (below w [Key ''output'']) b))"

section \<open>Flows without a review route\<close>

text \<open>\<^verbatim>\<open>_returns_own_result\<close>: the first candidate that can be present is the result of the flow.\<close>

fun own_result_first :: "string \<Rightarrow> string set \<Rightarrow> string list \<Rightarrow> bool" where
  "own_result_first name before [] = False"
| "own_result_first name before (p # ps) = (case tokens p of
     a # n # rest \<Rightarrow>
       if a \<noteq> ''flows'' then False
       else if n = name \<and> rest \<noteq> [] \<and> hd rest = ''result'' then True
       else if n \<in> before then False
       else own_result_first name before ps
   | [a] \<Rightarrow> a = ''flows'' \<and> own_result_first name before ps
   | [] \<Rightarrow> False)"

definition returns_own_result :: "binding option \<Rightarrow> string \<Rightarrow> string set \<Rightarrow> bool" where
  "returns_own_result out name before = (case out of
     None \<Rightarrow> False
   | Some b \<Rightarrow> (bk_kind b = KPointer \<or> bk_kind b = KFirstOf) \<and> own_result_first name before (binding_pointers b))"

definition runs_model :: "step \<Rightarrow> bool" where
  "runs_model s \<longleftrightarrow> (case st_body s of DecisionStep _ \<Rightarrow> True | LlmStep _ \<Rightarrow> True | _ \<Rightarrow> False)"

text \<open>The notes on one flow; the level of \<^verbatim>\<open>review_ends_run\<close> is info (1) or warning (0).\<close>

definition note_repeat :: "place \<Rightarrow> string \<Rightarrow> flow \<Rightarrow> warning list \<Rightarrow> warning list" where
  "note_repeat w name f ws = (case fl_repeat f of
     Some rp \<Rightarrow>
       if rp_retry_flow rp = None \<and> list_ex runs_model (fl_steps f)
       then add_warning (Warning ''repeat_without_retry'' (below w [Key ''flows'', Key name, Key ''repeat'']) [] [name]) ws
       else ws
   | None \<Rightarrow> ws)"

definition note_review ::
  "binding option \<Rightarrow> graph_result \<Rightarrow> place \<Rightarrow> string \<Rightarrow> flow \<Rightarrow> warning list \<Rightarrow> warning list" where
  "note_review out G w name f ws =
     (if fl_callable f \<or> fl_on_unresolved f \<noteq> None then ws
      else add_warning (Warning ''review_ends_run'' (below w [Key ''flows'', Key name])
        [if returns_own_result out name (may_have_run G name - {name}) then 1 else 0] [name]) ws)"

definition flow_diagnostics ::
  "flows \<Rightarrow> binding option \<Rightarrow> graph_result \<Rightarrow> place \<Rightarrow> warning list \<Rightarrow> warning list" where
  "flow_diagnostics flows out G w ws =
     fold (\<lambda>(name, f) ws. note_review out G w name f (note_repeat w name f ws)) flows ws"

end
