(* ===== verification/StepRuns.thy ===== *)
theory StepRuns imports StepChecks RunShape begin

text \<open>
  The step checks against the engine: the steps of a flow that went through have their results
  recorded when the next step runs, so a reference that \<^verbatim>\<open>_validate_bindings\<close> accepted without a
  default resolves.
\<close>

section \<open>Results of the steps so far\<close>

text \<open>The steps in a set have a result on record.\<close>

definition has_results :: "string set \<Rightarrow> flow_locals \<Rightarrow> bool" where
  "has_results D l \<longleftrightarrow> (\<forall>n \<in> D. \<exists>r. get (lo_records l) n = Some r \<and> sp_has_result r)"

definition same_records :: "'w run_state \<times> flow_locals \<Rightarrow> 'w run_state \<times> flow_locals \<Rightarrow> bool" where
  "same_records p q \<longleftrightarrow> lo_records (snd q) = lo_records (snd p)"

interpretation same_records: frame same_records
  by unfold_locales (auto simp: same_records_def)

lemma same_liftM: "keeps same_records (liftM m)"
  by (simp add: keeps_def same_records_def liftM_def split: prod.split)

lemma same_locally: "(\<And>l. lo_records (f l) = lo_records l) \<Longrightarrow> keeps same_records (locally f)"
  by (simp add: keeps_def same_records_def locally_def modM_def)

lemmas same_intros = same_records.keeps_intros same_liftM

lemma same_results: "keeps same_records m \<Longrightarrow> lvalid (\<lambda>_. has_results D) m (\<lambda>_ _. has_results D) (\<lambda>_ _. True)"
  by (rule lvalid_conseq [OF lvalid_keeps [where P = "\<lambda>_. has_results D" and R = same_records]])
    (simp_all add: same_records_def has_results_def)

lemma locally_put:
  assumes "\<And>l. \<exists>r. sp_has_result r \<and> lo_records (f l) = put n r (lo_records l)"
  shows "lvalid (\<lambda>_. has_results D) (locally f) (\<lambda>_ _. has_results (insert n D)) (\<lambda>_ _. True)"
  unfolding locally_def
proof (rule lvalid_modM)
  fix l assume "has_results D l"
  with assms [of l] show "has_results (insert n D) (f l)" by (auto simp: has_results_def)
qed

lemma record_outcome_results:
  "lvalid (\<lambda>_. has_results D) (record_outcome env c step ck v) (\<lambda>_ _. has_results (insert (st_name step) D)) (\<lambda>_ _. True)"
proof -
  have rest: "keeps same_records (if ck_needs_review ck
         then thenM (locally (\<lambda>l. l\<lparr>lo_status := NeedsReview, lo_issues := ck_issues ck\<rparr>))
           (thenM (liftM (whenM b e)) (ret False))
         else ret True)" for b e
    by (intro same_intros same_locally) simp
  show ?thesis
    unfolding record_outcome_def
    by (rule lvalid_thenM [OF same_results [OF same_liftM]], rule lvalid_bindM [OF same_results [OF same_liftM]],
        rule lvalid_thenM [OF locally_put same_results [OF rest]])
      (rule exI, rule conjI [rotated], simp, simp)
qed

lemma run_operation_results:
  "lvalid (\<lambda>_. has_results D) (run_operation env c step inputs)
     (\<lambda>_ _. has_results (insert (st_name step) D)) (\<lambda>_ _. True)"
proof -
  have usage: "keeps same_records (account_usage u)" for u
    unfolding account_usage_def by (intro same_intros same_locally) simp
  have run: "keeps same_records (finallyM (liftM m) (account_usage b))" for m b
    by (intro same_intros usage)
  have pure: "lvalid (\<lambda>_. has_results D) (pureM r) (\<lambda>_ _. has_results D) (\<lambda>_ _. True)" for r D
    by (rule lvalid_pureM) simp_all
  show ?thesis
    unfolding run_operation_def
    by (rule lvalid_bindM [OF same_results [OF same_liftM]], rule lvalid_bindM [OF same_results [OF same_liftM]])
      (auto intro!: lvalid_bindM [OF same_results [OF run]] lvalid_thenM [OF same_results [OF same_liftM]]
        lvalid_bindM [OF pure] record_outcome_results split: prod.split)
qed

lemma collection_has_result:
  "yields (execute_collection env child cs inputs metadata depth) (\<lambda>r. sp_status r \<noteq> Failed \<longrightarrow> sp_has_result r)"
    (is "yields _ ?Q")
proof -
  have last: "yields (bindM (pureM r) (\<lambda>entries. bindM (now env) (\<lambda>finished.
      collection_record started finished st u failure entries))) ?Q" for r started st u failure
    by (rule yields_bind_any, rule yields_bind_any) (simp add: collection_record_def Let_def yields_simple)
  have items: "yields (bindM (validate_items env cs [] raw) (\<lambda>items.
           bindM (run_items env child metadata 0 usage_zero Completed items) (\<lambda>(records, u, st, failure).
            bindM (pureM (mapE (\<lambda>(p, r). item_entry p r) (zip items records))) (\<lambda>entries.
             bindM (now env) (\<lambda>finished. collection_record started finished st u failure entries))))) ?Q" for raw started
    by (rule yields_bind_any, rule yields_bind_any) (simp add: last split: prod.split)
  show ?thesis
    unfolding execute_collection_record_eq
    by (rule yields_bind_any) (auto simp: yields_simple items split: option.split json.split)
qed

text \<open>What holds after a step of name \<^verbatim>\<open>n\<close> if the loop goes on.\<close>

definition went_on :: "string set \<Rightarrow> bool \<Rightarrow> nat \<Rightarrow> flow_locals \<Rightarrow> bool" where
  "went_on D continue k l \<longleftrightarrow> (continue \<longrightarrow> has_results D l)"

lemma lvalid_any: "lvalid P m (\<lambda>_ _ _. True) (\<lambda>_ _. True)"
  by (simp add: lvalid_def valid_def split: prod.split sum.split)

lemma run_collection_results:
  "lvalid (\<lambda>_. has_results D) (run_collection env child c depth step cs inputs)
     (went_on (insert (st_name step) D)) (\<lambda>_ _. True)"
proof -
  let ?P = "\<lambda>r _ l. has_results D l \<and> (sp_status r \<noteq> Failed \<longrightarrow> sp_has_result r)"
  have call: "lvalid (\<lambda>_. has_results D)
      (liftM (execute_collection env child cs inputs (en_metadata (fc_envelope c)) depth)) ?P (\<lambda>_ _. True)"
    unfolding lvalid_def
  proof (rule valid_liftM)
    fix l
    show "valid (\<lambda>s. has_results D (snd (s, l)))
       (execute_collection env child cs inputs (en_metadata (fc_envelope c)) depth)
       (\<lambda>r s. has_results D (snd (s, l)) \<and> (sp_status r \<noteq> Failed \<longrightarrow> sp_has_result r)) (\<lambda>_ s. True)"
      by (rule valid_conseq [OF valid_conj [OF collection_has_result valid_const [of "has_results D l"]]]) auto
  qed
  have failed: "lvalid P (thenM m (ret False)) (went_on D') (\<lambda>_ _. True)" for P D' and m :: "('w, unit) flow_run"
    by (rule lvalid_thenM [OF lvalid_any]) (auto intro: lvalid_ret simp: went_on_def)
  have goes: "lvalid (\<lambda>_. has_results D') (thenM (locally (\<lambda>l. l\<lparr>lo_result := f l\<rparr>))
       (if b then thenM (locally (\<lambda>l. l\<lparr>lo_status := NeedsReview\<rparr>)) (ret False) else ret True))
      (went_on D') (\<lambda>_ _. True)" for f b D'
    by (rule lvalid_thenM [OF same_results [OF same_locally]]) (auto intro: failed lvalid_ret simp: went_on_def)
  show ?thesis
    unfolding run_collection_def
  proof (rule lvalid_bindM [OF call])
    fix r :: step_record
    let ?u = "case sp_usage r of Some u \<Rightarrow> u | None \<Rightarrow> usage_zero"
    let ?put = "locally (\<lambda>l. l\<lparr>lo_records := put (st_name step) r (lo_records l),
          lo_step_usage := ?u, lo_usage := usage_plus (lo_usage l) ?u, lo_active := None\<rparr>) :: ('w, unit) flow_run"
    let ?rest = "if sp_status r = Failed
         then thenM (locally (\<lambda>l. l\<lparr>lo_status := Failed, lo_error := sp_error r, lo_result := JNull\<rparr>)) (ret False)
         else thenM (locally (\<lambda>l. l\<lparr>lo_result := (if fc_step_id c \<noteq> None then sp_result r else lo_result l)\<rparr>))
           (if sp_status r = NeedsReview
            then thenM (locally (\<lambda>l. l\<lparr>lo_status := NeedsReview\<rparr>)) (ret False)
            else ret True)"
    have "lvalid (?P r) (thenM ?put (thenM (liftM m) ?rest))
       (went_on (insert (st_name step) D)) (\<lambda>_ _. True)" for m
    proof (cases "sp_status r = Failed")
      case True
      show ?thesis
        unfolding if_P [OF True]
        by (rule lvalid_thenM [OF lvalid_any], rule lvalid_thenM [OF lvalid_any], rule failed)
    next
      case False
      have put: "lvalid (?P r) ?put (\<lambda>_ _. has_results (insert (st_name step) D)) (\<lambda>_ _. True)"
      proof (cases "sp_has_result r")
        case True
        show ?thesis
          by (rule lvalid_conseq [OF locally_put [where D = D and n = "st_name step"]])
            (rule exI, rule conjI [rotated], simp, rule True, simp_all)
      next
        case no: False
        show ?thesis unfolding lvalid_def by (rule valid_vacuous) (use no False in simp)
      qed
      show ?thesis
        unfolding if_not_P [OF False]
        by (rule lvalid_thenM [OF put], rule lvalid_thenM [OF same_results [OF same_liftM]], rule goes)
    qed
    then show "lvalid (?P r) (let u = ?u in thenM (locally (\<lambda>l. l\<lparr>lo_records := put (st_name step) r (lo_records l),
          lo_step_usage := u, lo_usage := usage_plus (lo_usage l) u, lo_active := None\<rparr>))
       (thenM (liftM (set_outcome (observed (sp_status r)) (map_option fa_code (sp_error r)))) ?rest))
       (went_on (insert (st_name step) D)) (\<lambda>_ _. True)"
      by (simp only: Let_def)
  qed
qed

definition ran_after :: "step \<Rightarrow> string set \<Rightarrow> string set" where
  "ran_after step D = (if st_when step = None then insert (st_name step) D else D)"

lemma went_on_after: "went_on (insert (st_name step) D) b k l \<Longrightarrow> went_on (ran_after step D) b k l"
  by (auto simp: went_on_def ran_after_def has_results_def)

lemma step_iteration_results:
  "lvalid (\<lambda>_. has_results D) (step_iteration env child c depth step) (went_on (ran_after step D)) (\<lambda>_ _. True)"
proof -
  let ?n = "insert (st_name step) D"
  have op: "lvalid (\<lambda>_. has_results D) (run_operation env c step inputs) (went_on ?n) (\<lambda>_ _. True)" for inputs
    by (rule lvalid_conseq [OF run_operation_results]) (auto simp: went_on_def)
  have call: "lvalid (\<lambda>_. has_results D) (case st_body step of
         CollectionStep cs \<Rightarrow> run_collection env child c depth step cs inputs
       | _ \<Rightarrow> run_operation env c step inputs) (went_on ?n) (\<lambda>_ _. True)" for inputs
    by (cases "st_body step") (simp_all add: op run_collection_results)
  have inputs: "keeps same_records (step_inputs c step)"
    unfolding step_inputs_def by (auto intro!: same_intros split: json.split)
  have reported: "keeps same_records (case g of
          Some (b, ms) \<Rightarrow> liftM (report (step_location step) b ms) | None \<Rightarrow> ret ())" for g
    by (auto intro!: same_intros split: option.split)
  have active: "keeps same_records (locally (\<lambda>l. l\<lparr>lo_active := x, lo_step_started := t, lo_step_usage := u\<rparr>))" for x t u
    by (rule same_locally) simp
  have body: "lvalid (\<lambda>_. has_results D) (run_step_body env child c depth step g) (went_on ?n) (\<lambda>_ _. True)" for g
    unfolding run_step_body_def
    by (intro lvalid_thenM [OF same_results [OF same_liftM]] lvalid_bindM [OF same_results [OF same_liftM]]
        lvalid_thenM [OF same_results [OF active]] lvalid_observe
        lvalid_thenM [OF same_results [OF reported]] lvalid_bindM [OF same_results [OF inputs]] call)
  have skip: "lvalid (\<lambda>_. has_results D) (thenM (skip_step env c step ms) (ret True)) (went_on D) (\<lambda>_ _. True)" for ms
  proof (rule lvalid_thenM [where R = "\<lambda>_. has_results D"])
    show "lvalid (\<lambda>_. has_results D) (skip_step env c step ms) (\<lambda>_ _. has_results D) (\<lambda>_ _. True)"
      unfolding skip_step_def by (rule lvalid_observe, rule same_results) (intro same_intros)
  qed (simp add: lvalid_ret went_on_def)
  have guarded: "lvalid (\<lambda>_. has_results D) (step_guard env c step)
      (\<lambda>g _ l. has_results D l \<and> (g \<noteq> None \<longrightarrow> st_when step \<noteq> None)) (\<lambda>_ _. True)"
  proof (cases "st_when step")
    case (Some w)
    have "keeps same_records (step_guard env c step)"
      unfolding step_guard_def by (auto intro!: same_intros split: option.split)
    from same_results [OF this] show ?thesis by (rule lvalid_conseq) (simp_all add: Some)
  qed (simp add: step_guard_def lvalid_ret)
  have branch: "lvalid (\<lambda>_ l. has_results D l \<and> (g \<noteq> None \<longrightarrow> st_when step \<noteq> None)) (case g of
           Some (False, ms) \<Rightarrow> thenM (skip_step env c step ms) (ret True)
         | _ \<Rightarrow> run_step_body env child c depth step g) (went_on (ran_after step D)) (\<lambda>_ _. True)" for g
  proof (cases "\<exists>ms. g = Some (False, ms)")
    case True
    then obtain ms where g: "g = Some (False, ms)" ..
    show ?thesis
    proof (cases "st_when step")
      case None
      show ?thesis unfolding lvalid_def by (rule valid_vacuous) (simp add: g None)
    next
      case (Some w)
      then have "ran_after step D = D" by (simp add: ran_after_def)
      show ?thesis by (simp add: g \<open>ran_after step D = D\<close>) (rule lvalid_conseq [OF skip], simp_all)
    qed
  next
    case False
    then have "(case g of Some (False, ms) \<Rightarrow> thenM (skip_step env c step ms) (ret True)
         | _ \<Rightarrow> run_step_body env child c depth step g) = run_step_body env child c depth step g"
      by (auto split: option.split prod.split bool.split)
    then show ?thesis by (simp only:) (rule lvalid_conseq [OF body], simp_all add: went_on_after)
  qed
  show ?thesis
    unfolding step_iteration_def
    by (intro lvalid_thenM [OF same_results [OF same_liftM]] lvalid_bindM [OF guarded] branch)
qed

text \<open>The loop of a flow went through the steps of a list and is about to start the next one.\<close>

fun goes_through :: "('a \<Rightarrow> ('s, bool) eff) \<Rightarrow> 'a list \<Rightarrow> 's \<Rightarrow> 's \<Rightarrow> bool" where
  "goes_through body [] s t = (t = s)"
| "goes_through body (x # xs) s t = (\<exists>u. body x s = (Inr True, u) \<and> goes_through body xs u t)"

lemma loop_goes_through:
  "goes_through body xs s t \<Longrightarrow> loopM body (xs @ ys) s = loopM body ys t"
  by (induction xs arbitrary: s) (auto simp: bindM_def)

lemma lvalid_at:
  "lvalid P m Q E \<Longrightarrow> m p = (Inr a, q) \<Longrightarrow> P (rs_consumed (fst p)) (snd p) \<Longrightarrow>
     Q a (rs_consumed (fst q)) (snd q)"
  by (cases p) (force simp: lvalid_def valid_def)

lemma goes_through_results:
  "goes_through (step_iteration env child c depth) ss p q \<Longrightarrow> has_results D (snd p) \<Longrightarrow>
     has_results (fold ran_after ss D) (snd q)"
proof (induction ss arbitrary: p D)
  case (Cons s ss)
  then obtain u where u: "step_iteration env child c depth s p = (Inr True, u)"
    "goes_through (step_iteration env child c depth) ss u q" by auto
  have "went_on (ran_after s D) True (rs_consumed (fst u)) (snd u)"
    by (rule lvalid_at [OF step_iteration_results u(1)]) (rule Cons.prems(2))
  with Cons.IH [OF u(2)] show ?case by (simp add: went_on_def)
qed simp

section \<open>Accepted references\<close>

definition step_dict :: "flow \<Rightarrow> (string, step) dict" where
  "step_dict f = map (\<lambda>s. (st_name s, s)) (fl_steps f)"

lemma check_steps_at:
  "check_steps decl conditional wheres entries prior (xs @ (n, s) # ys) = Inr () \<Longrightarrow> p \<in> set (named_bindings s) \<Longrightarrow>
     \<exists>w. check_step_binding decl conditional (prior \<union> set (keys xs)) w p = Inr ()"
proof (induction xs arbitrary: prior)
  case Nil
  then obtain w rs where "mapE (check_step_binding decl conditional prior w) (named_bindings s) = Inr rs"
    by (auto simp: bindE_Inr_iff)
  with Nil(2) have "\<exists>r. check_step_binding decl conditional prior w p = Inr r"
    by (auto simp: mapE_Inr_iff list_all2_conv_all_nth in_set_conv_nth)
  then show ?case by auto
next
  case (Cons x xs)
  obtain m u where x: "x = (m, u)" by fastforce
  from Cons.prems(1) have "check_steps decl conditional wheres entries (insert m prior) (xs @ (n, s) # ys) = Inr ()"
    by (auto simp: x bindE_Inr_iff)
  from Cons.IH [OF this Cons.prems(2)] show ?case by (simp add: x)
qed

lemma pointer_of_parts:
  "split_on CHR ''/'' (pointer_of (t # ts)) = [] # map escape_token (t # ts)"
  "tokens (pointer_of (t # ts)) = t # ts"
proof -
  have "pointer_of (t # ts) = CHR ''/'' # tl (pointer_of (t # ts))" by (simp add: pointer_of_def)
  then show "split_on CHR ''/'' (pointer_of (t # ts)) = [] # map escape_token (t # ts)"
    using split_pointer_of [of t ts] by (metis split_on.simps(2))
  then show "tokens (pointer_of (t # ts)) = t # ts" by (simp add: tokens_def unescape_escape comp_def)
qed

lemma reference_of: "step_reference (pointer_of (''steps'' # n # rest)) = Some n"
  by (simp add: step_reference_def pointer_of_parts escape_token_def [of "''steps''"])

lemma fold_ran_after: "fold ran_after ss D = D \<union> {st_name s | s. s \<in> set ss \<and> st_when s = None}"
  by (induction ss arbitrary: D) (auto simp: ran_after_def)

lemma goes_through_keys:
  assumes "goes_through (step_iteration env child c depth) ss p q" "running names (snd p)"
    and "\<forall>s \<in> set ss. st_name s \<in> set names"
  shows "running names (snd q)"
  using assms
proof (induction ss arbitrary: p)
  case (Cons s ss)
  then obtain u where u: "step_iteration env child c depth s p = (Inr True, u)"
    "goes_through (step_iteration env child c depth) ss u q" by auto
  from Cons.prems(3) have "st_name s \<in> set names" by simp
  from lvalid_at [OF step_iteration_halts [OF this] u(1) Cons.prems(2)] have "running names (snd u)" by simp
  with Cons u(2) show ?case by simp
qed simp

lemma lookup_record:
  "get records n = Some r \<Longrightarrow> lookup_path [''steps'', n] (binding_context e records) = Some (step_data r)"
  by (simp add: binding_context_def lookup_token_def get_map_pairs)

lemma lookup_record_fields:
  "lookup_path [''status''] (step_data r) = Some (JStr (status_text (sp_status r)))"
  "sp_has_result r \<Longrightarrow> lookup_path [''result''] (step_data r) = Some (sp_result r)"
  by (simp_all add: step_data_def lookup_token_def entry_if_def)

text \<open>What availability means for a pointer to a whole record, its status or its result.\<close>

lemma record_resolves:
  assumes "rest \<in> {[], [''status''], [''result'']}" "get records n = Some r" "rest = [''result''] \<longrightarrow> sp_has_result r"
  shows "\<exists>v. lookup_pointer (pointer_of (''steps'' # n # rest)) (binding_context e records) = Inr (Some v)"
proof -
  have "lookup_pointer (pointer_of (''steps'' # n # rest)) (binding_context e records) =
      Inr (lookup_path (''steps'' # n # rest) (binding_context e records))"
    by (rule lookup_pointer_of) (use assms(1) in \<open>auto simp: MAX_JSON_DEPTH_def\<close>)
  moreover have "lookup_path (''steps'' # n # rest) (binding_context e records) = lookup_path rest (step_data r)"
    using lookup_path_append [of "[''steps'', n]" rest] lookup_record [OF assms(2)] by simp
  ultimately show ?thesis using assms(1,3) lookup_record_fields [of r] by auto
qed

text \<open>
  C20: A reference without a default to the record, the status or the result of an earlier step, once
  the compiler accepted the bindings of the flow, resolves whenever the engine comes to the step
  that declares it: the run does not fail with a missing binding there.
\<close>

theorem required_reference_resolves:
  assumes "fc_step_id c = None" "fl_steps (fc_flow c) = before @ s # after" "distinct (map st_name (fl_steps (fc_flow c)))"
    and "validate_bindings (step_dict (fc_flow c)) (set (conditional_steps (fc_flow c))) wheres entries = Inr ()"
    and "(place, pointer_binding (pointer_of (''steps'' # n # rest))) \<in> set (named_bindings s)"
    and "rest \<in> {[], [''status''], [''result'']}"
    and "goes_through (step_iteration env child c depth) before (st, initial_locals c started) (st', l)"
  shows "\<exists>v. resolve_binding (pointer_binding (pointer_of (''steps'' # n # rest)))
    (binding_context (fc_envelope c) (lo_records l)) = Inr v"
proof -
  let ?p = "pointer_of (''steps'' # n # rest)" and ?D = "set (conditional_steps (fc_flow c))"
  have "step_dict (fc_flow c) = map (\<lambda>s. (st_name s, s)) before @ (st_name s, s) # map (\<lambda>s. (st_name s, s)) after"
    by (simp add: step_dict_def assms(2))
  with assms(4) check_steps_at [OF _ assms(5), of "step_dict (fc_flow c)" ?D wheres entries "{}"] obtain w where
    "check_step_binding (step_dict (fc_flow c)) ?D (st_name ` set before) w (place, pointer_binding ?p) = Inr ()"
    by (fastforce simp: validate_bindings_def)
  then have "step_available (st_name ` set before) ?D (step_dict (fc_flow c)) ?p"
    by (auto simp: check_step_binding_def Let_def bindE_Inr_iff split: if_splits)
  then have prior: "n \<in> st_name ` set before" "n \<in> ?D \<Longrightarrow> rest \<noteq> [''result'']"
    using assms(6) by (auto simp: step_available_def reference_of pointer_of_parts split: if_splits)
  have calls: "call_steps c = fl_steps (fc_flow c)" using assms(1) by (simp add: call_steps_def)
  have names: "step_names c = map st_name (fl_steps (fc_flow c))"
    using step_names_distinct [of c] assms(3) by (simp add: calls)
  have "running (step_names c) (snd (st', l))"
  proof (rule goes_through_keys [OF assms(7)])
    show "running (step_names c) (snd (st, initial_locals c started))" using initial_locals_running by simp
  qed (simp add: names assms(2))
  then have "keys (lo_records l) = step_names c" by (simp add: running_def steps_ok_def)
  then have "n \<in> set (keys (lo_records l))" using prior(1) by (auto simp: names assms(2))
  then obtain r where r: "get (lo_records l) n = Some r" by (metis get_None_iff option.exhaust)
  have done': "has_results (fold ran_after before {}) l"
    using goes_through_results [OF assms(7), of "{}"] by (simp add: has_results_def)
  have "sp_has_result r" if "rest = [''result'']"
  proof -
    from prior obtain t where t: "t \<in> set before" "n = st_name t" by auto
    with prior(2) that have "n \<notin> ?D" by blast
    with t assms(2) have "st_when t = None" by (auto simp: conditional_steps_def)
    with t done' r show ?thesis by (auto simp: fold_ran_after has_results_def)
  qed
  with record_resolves [OF assms(6) r] obtain v where
    "lookup_pointer ?p (binding_context (fc_envelope c) (lo_records l)) = Inr (Some v)" by blast
  then show ?thesis by simp
qed

text \<open>A flow of two steps: the second one takes the result of the first.\<close>

definition chain_flow :: flow where
  "chain_flow = (sample_flow ''main'' False None)\<lparr>fl_steps := [sample_step ''ask'', (sample_step ''use'')
     \<lparr>st_body := HandlerStep \<lparr>hs_handler = ''echo'', hs_input = [(''x'', pointer_binding ''/steps/ask/result'')]\<rparr>\<rparr>]\<rparr>"

definition chain_call :: flow_call where
  "chain_call = \<lparr>fc_flow = chain_flow, fc_envelope = \<lparr>en_payload = JObj [], en_metadata = []\<rparr>, fc_step_id = None,
     fc_attempt = 1, fc_role = RoleRouted, fc_item = None\<rparr>"

definition chain_env :: "nat run_env" where
  "chain_env = sample_env\<lparr>ev_deadline := 100\<rparr>"

theorem required_reference_resolves_witness:
  "\<exists>st l. goes_through (step_iteration chain_env (\<lambda>_. failM INVALID_CONFIGURATION) chain_call 0) [sample_step ''ask'']
      (new_run 0, initial_locals chain_call 0) (st, l) \<and>
    (\<exists>v. resolve_binding (pointer_binding (pointer_of [''steps'', ''ask'', ''result'']))
      (binding_context (fc_envelope chain_call) (lo_records l)) = Inr v)"
proof -
  let ?w = "\<lparr>pl_file = ''flow.yaml'', pl_prefix = []\<rparr>"
  have "case step_iteration chain_env (\<lambda>_. failM INVALID_CONFIGURATION) chain_call 0 (sample_step ''ask'')
      (new_run 0, initial_locals chain_call 0) of (Inr b, _) \<Rightarrow> b | _ \<Rightarrow> False"
    by code_simp
  then obtain st l where run: "goes_through (step_iteration chain_env (\<lambda>_. failM INVALID_CONFIGURATION) chain_call 0)
      [sample_step ''ask''] (new_run 0, initial_locals chain_call 0) (st, l)"
    by (auto split: sum.splits prod.splits)
  have "pointer_of [''steps'', ''ask'', ''result''] = ''/steps/ask/result''" by code_simp
  then have b: "([Key ''input'', Key ''x''], pointer_binding (pointer_of (''steps'' # ''ask'' # [''result''])))
      \<in> set (named_bindings (hd (tl (fl_steps chain_flow))))"
    by (simp add: named_bindings_def chain_flow_def)
  have ok: "validate_bindings (step_dict (fc_flow chain_call)) (set (conditional_steps (fc_flow chain_call)))
      [(''ask'', ?w), (''use'', ?w)] [] = Inr ()"
    by code_simp
  have "\<exists>v. resolve_binding (pointer_binding (pointer_of (''steps'' # ''ask'' # [''result''])))
      (binding_context (fc_envelope chain_call) (lo_records l)) = Inr v"
    by (rule required_reference_resolves [OF _ _ _ ok b _ run, where after = "[]"])
      (simp_all add: chain_call_def chain_flow_def sample_step_def)
  with run show ?thesis by blast
qed

end
