(* ===== verification/Comparisons.thy ===== *)
theory Comparisons imports StaticValues Boundary begin

text \<open>
  \<^verbatim>\<open>evaluation/comparisons.py\<close>, \<^verbatim>\<open>evaluation/spans.py\<close> and the assertions, cases and suites of
  \<^verbatim>\<open>evaluation/contracts.py\<close>: how an observed value is compared with authored gold, and what
  the constructors of gold refuse. A \<^verbatim>\<open>ValueError\<close> (and a \<^verbatim>\<open>TypeError\<close> or a failed
  assertion) is \<^term>\<open>OtherErr\<close>; its message is not modelled.
\<close>

abbreviation value_error :: "(exn, 'a) result" where
  "value_error \<equiv> Inl OtherErr"

section \<open>Text\<close>

text \<open>
  \<^verbatim>\<open>str.casefold\<close> on code points below 256. The micro sign folds to a code point above them;
  as nothing else below 256 folds there, it stands for itself.
\<close>

definition fold_char :: "char \<Rightarrow> string" where
  "fold_char c = (let n = of_char c :: nat in
     if (65 \<le> n \<and> n \<le> 90) \<or> (192 \<le> n \<and> n \<le> 222 \<and> n \<noteq> 215) then [char_of (n + 32)]
     else if n = 223 then ''ss'' else [c])"

definition casefold :: "string \<Rightarrow> string" where
  "casefold s = concat (map fold_char s)"

text \<open>\<^verbatim>\<open>str.split()\<close>: the maximal runs without whitespace.\<close>

fun split_space :: "string \<Rightarrow> string list" where
  "split_space [] = [[]]"
| "split_space (c # s) =
     (if py_space c then [] # split_space s
      else (case split_space s of [] \<Rightarrow> [[c]] | p # ps \<Rightarrow> (c # p) # ps))"

definition words :: "string \<Rightarrow> string list" where
  "words s = filter (\<lambda>w. w \<noteq> []) (split_space s)"

fun join_space :: "string list \<Rightarrow> string" where
  "join_space [] = []"
| "join_space [w] = w"
| "join_space (w # ws) = w @ CHR '' '' # join_space ws"

definition normalized_text :: "string \<Rightarrow> string" where
  "normalized_text v = join_space (words (casefold v))"

text \<open>The substring test \<^verbatim>\<open>p in s\<close>.\<close>

fun infix_of :: "string \<Rightarrow> string \<Rightarrow> bool" where
  "infix_of p [] = (p = [])"
| "infix_of p (c # s) = (take (length p) (c # s) = p \<or> infix_of p s)"

section \<open>Canonical values and projections\<close>

text \<open>
  \<^verbatim>\<open>canonical\<close> is only ever compared for equality. The text of \<^verbatim>\<open>json.dumps\<close> with sorted keys
  is a function of the value with sorted keys and determines it, number types included, so that
  value stands for the text.
\<close>

fun canonical :: "json \<Rightarrow> json" where
  "canonical (JArr xs) = JArr (map canonical xs)"
| "canonical (JObj ps) = JObj (sort_key fst (map (\<lambda>p. (fst p, canonical (snd p))) ps))"
| "canonical v = v"

definition EXECUTED_STATUSES :: "string list" where
  "EXECUTED_STATUSES = [''completed'', ''needs_review'']"

text \<open>\<^term>\<open>None\<close> is \<^verbatim>\<open>ProjectionError\<close>.\<close>

definition project :: "json \<Rightarrow> string \<Rightarrow> json option" where
  "project actual each = (case actual of
     JArr xs \<Rightarrow> (case mapE (resolve_binding (pointer_binding each)) xs of
         Inr ys \<Rightarrow> Some (JArr ys) | Inl _ \<Rightarrow> None)
   | _ \<Rightarrow> None)"

section \<open>Source spans\<close>

text \<open>A pointer as the evaluation accepts it: RFC 6901 syntax and a bounded number of tokens.\<close>

definition is_pointer :: "string \<Rightarrow> bool" where
  "is_pointer s \<longleftrightarrow> (s = [] \<or> hd s = CHR ''/'') \<and> \<not> invalid_escape s
     \<and> length (split_on (CHR ''/'') s) \<le> MAX_JSON_DEPTH + 1"

record source_span =
  ss_input_path :: string
  ss_required :: "nat \<times> nat"
  ss_allowed :: "nat \<times> nat"

definition span_range :: "json option \<Rightarrow> (exn, nat \<times> nat) result" where
  "span_range v = (case v of
     Some (JArr [JInt a, JInt b]) \<Rightarrow> if a < 0 \<or> b \<le> a then value_error else Inr (nat a, nat b)
   | _ \<Rightarrow> value_error)"

definition source_span_of :: "json \<Rightarrow> (exn, source_span) result" where
  "source_span_of expected = (case expected of
     JObj ps \<Rightarrow>
       if set (keys ps) \<noteq> {''input_path'', ''required'', ''allowed''} then value_error
       else (case get ps ''input_path'' of
          Some (JStr path) \<Rightarrow>
            if \<not> is_pointer path then value_error
            else bindE (span_range (get ps ''required'')) (\<lambda>required.
              bindE (span_range (get ps ''allowed'')) (\<lambda>allowed.
                if fst allowed \<le> fst required \<and> fst required < snd required
                   \<and> snd required \<le> snd allowed
                then Inr \<lparr>ss_input_path = path, ss_required = required, ss_allowed = allowed\<rparr>
                else value_error))
        | _ \<Rightarrow> value_error)
   | _ \<Rightarrow> value_error)"

definition source_span_source :: "json \<Rightarrow> json \<Rightarrow> (exn, source_span \<times> string) result" where
  "source_span_source expected case_input =
     bindE (source_span_of expected) (\<lambda>spec.
       case resolve_binding (pointer_binding (ss_input_path spec)) case_input of
         Inr (JStr s) \<Rightarrow> if snd (ss_allowed spec) > length s then value_error else Inr (spec, s)
       | _ \<Rightarrow> value_error)"

text \<open>\<^verbatim>\<open>str.find\<close> between two indices; \<^term>\<open>None\<close> is -1.\<close>

definition str_find :: "string \<Rightarrow> string \<Rightarrow> nat \<Rightarrow> nat \<Rightarrow> nat option" where
  "str_find s sub start stop =
     find (\<lambda>i. take (length sub) (drop i s) = sub) [start..<Suc (min stop (length s)) - length sub]"

lemma str_find_Some:
  assumes "str_find s sub start stop = Some i"
  shows "start \<le> i" "i + length sub \<le> stop" "i + length sub \<le> length s"
    "take (length sub) (drop i s) = sub"
    and "\<And>j. start \<le> j \<Longrightarrow> j < i \<Longrightarrow> take (length sub) (drop j s) \<noteq> sub"
proof -
  let ?n = "Suc (min stop (length s)) - length sub"
  from assms obtain k where k: "k < length [start..<?n]" "[start..<?n] ! k = i"
    "take (length sub) (drop i s) = sub"
    "\<forall>l < k. take (length sub) (drop ([start..<?n] ! l) s) \<noteq> sub"
    by (auto simp: str_find_def find_Some_iff simp del: upt_Suc)
  then have i: "i = start + k" "i < ?n" by (auto simp del: upt_Suc)
  then show "start \<le> i" "i + length sub \<le> stop" "i + length sub \<le> length s" by linarith+
  show "take (length sub) (drop i s) = sub" using k(3) .
  show "take (length sub) (drop j s) \<noteq> sub" if "start \<le> j" "j < i" for j
  proof -
    have "j - start < k" using that i by linarith
    with k(4) have "take (length sub) (drop ([start..<?n] ! (j - start)) s) \<noteq> sub" by blast
    moreover have "[start..<?n] ! (j - start) = j" using that i by (simp del: upt_Suc)
    ultimately show ?thesis by simp
  qed
qed

lemma str_find_None:
  "str_find s sub start stop = None \<longleftrightarrow>
   (\<forall>i. start \<le> i \<and> i + length sub \<le> min stop (length s) \<longrightarrow> take (length sub) (drop i s) \<noteq> sub)"
proof -
  have "i \<in> set [start..<Suc (min stop (length s)) - length sub]
      \<longleftrightarrow> start \<le> i \<and> i + length sub \<le> min stop (length s)" for i
    by (auto simp del: upt_Suc)
  then show ?thesis unfolding str_find_def find_None_iff by blast
qed

function span_loop :: "string \<Rightarrow> string \<Rightarrow> nat \<times> nat \<Rightarrow> nat \<Rightarrow> nat option \<Rightarrow> bool" where
  "span_loop source actual required stop found = (case found of
     None \<Rightarrow> False
   | Some occurrence \<Rightarrow>
       if occurrence \<le> fst required \<and> occurrence + length actual \<ge> snd required then True
       else span_loop source actual required stop (str_find source actual (Suc occurrence) stop))"
  by pat_completeness auto
termination
proof (relation "measure (\<lambda>(source, actual, required, stop, found).
    case found of None \<Rightarrow> 0 | Some i \<Rightarrow> Suc (length source - i))", goal_cases)
  case 1
  then show ?case by simp
next
  case (2 source actual required stop found i)
  have "length source - j < length source - i" if "str_find source actual (Suc i) stop = Some j" for j
    using str_find_Some(1,3) [OF that] by linarith
  with 2 show ?case by (auto split: option.split)
qed

declare span_loop.simps [simp del]

definition matches_source_span :: "json \<Rightarrow> json \<Rightarrow> json \<Rightarrow> (exn, bool) result" where
  "matches_source_span actual expected case_input =
     bindE (source_span_source expected case_input) (\<lambda>(spec, source).
       case actual of
         JStr a \<Rightarrow>
           if a = [] then Inr False
           else Inr (span_loop source a (ss_required spec) (snd (ss_allowed spec))
                       (str_find source a (fst (ss_allowed spec)) (snd (ss_allowed spec))))
       | _ \<Rightarrow> Inr False)"

section \<open>Assertions\<close>

datatype gold_comparison =
  Exact | SetOf | OneOf | TextEqual | TextContains | SourceSpan | Custom

record expectation =
  ex_name :: string
  ex_path :: string
  ex_expected :: json
  ex_comparison :: gold_comparison
  ex_scorer :: "string option"
  ex_each :: "string option"
  ex_absent_as_null :: bool

text \<open>Iteration over a frozen value; a scalar raises \<^verbatim>\<open>TypeError\<close>.\<close>

fun iterate :: "json \<Rightarrow> (exn, json list) result" where
  "iterate (JArr xs) = Inr xs"
| "iterate (JStr s) = Inr (map (\<lambda>c. JStr [c]) s)"
| "iterate (JObj ps) = Inr (map (\<lambda>p. JStr (fst p)) ps)"
| "iterate _ = Inl OtherErr"

text \<open>\<^verbatim>\<open>casefold\<close> is a method of strings only.\<close>

fun text_of :: "json \<Rightarrow> (exn, string) result" where
  "text_of (JStr s) = Inr (normalized_text s)"
| "text_of _ = Inl OtherErr"

definition matches :: "expectation \<Rightarrow> json \<Rightarrow> json \<Rightarrow> (exn, bool) result" where
  "matches e actual case_input = (let expected = ex_expected e in
     case ex_comparison e of
       SourceSpan \<Rightarrow> matches_source_span actual expected case_input
     | SetOf \<Rightarrow>
         (case actual of
            JArr xs \<Rightarrow> mapR (\<lambda>ys. canonical ` set xs = canonical ` set ys) (iterate expected)
          | _ \<Rightarrow> Inr False)
     | OneOf \<Rightarrow> mapR (\<lambda>ys. canonical actual \<in> canonical ` set ys) (iterate expected)
     | TextEqual \<Rightarrow>
         (case actual of JStr a \<Rightarrow> mapR (\<lambda>t. normalized_text a = t) (text_of expected)
          | _ \<Rightarrow> Inr False)
     | TextContains \<Rightarrow>
         (case actual of JStr a \<Rightarrow> mapR (\<lambda>t. infix_of t (normalized_text a)) (text_of expected)
          | _ \<Rightarrow> Inr False)
     | Custom \<Rightarrow> value_error
     | Exact \<Rightarrow> Inr (canonical actual = canonical expected))"

text \<open>\<^verbatim>\<open>_identifier\<close>: a string that is not blank, of at most 512 characters.\<close>

definition identifier_ok :: "string \<Rightarrow> bool" where
  "identifier_ok s \<longleftrightarrow> \<not> list_all py_space s \<and> length s \<le> 512"

definition check_identifier :: "string \<Rightarrow> (exn, unit) result" where
  "check_identifier s = (if identifier_ok s then Inr () else value_error)"

definition relative_pointer :: "string \<Rightarrow> bool" where
  "relative_pointer s \<longleftrightarrow> s \<noteq> [] \<and> hd s = CHR ''/'' \<and> \<not> invalid_escape s
     \<and> length (split_on (CHR ''/'') s) \<le> MAX_JSON_DEPTH + 1"

text \<open>The checks of \<^verbatim>\<open>__post_init__\<close> on the gold value, in their order.\<close>

definition gold_ok :: "gold_comparison \<Rightarrow> json \<Rightarrow> bool" where
  "gold_ok c v = (case c of
     SetOf \<Rightarrow> (case v of JArr _ \<Rightarrow> True | _ \<Rightarrow> False)
   | OneOf \<Rightarrow> (case v of JArr xs \<Rightarrow> xs \<noteq> [] \<and> distinct (map canonical xs) | _ \<Rightarrow> False)
   | TextEqual \<Rightarrow> (case v of JStr _ \<Rightarrow> True | _ \<Rightarrow> False)
   | TextContains \<Rightarrow> (case v of JStr s \<Rightarrow> normalized_text s \<noteq> [] | _ \<Rightarrow> False)
   | _ \<Rightarrow> True)"

definition each_ok :: "gold_comparison \<Rightarrow> string option \<Rightarrow> bool" where
  "each_ok c e = (case e of None \<Rightarrow> True
   | Some p \<Rightarrow> relative_pointer p \<and> c \<in> {Exact, SetOf, OneOf, Custom})"

definition scorer_ok :: "gold_comparison \<Rightarrow> string option \<Rightarrow> bool" where
  "scorer_ok c scorer =
     (if c = Custom then (case scorer of None \<Rightarrow> False | Some s \<Rightarrow> identifier_ok s)
      else scorer = None)"

definition Expectation ::
  "string \<Rightarrow> string \<Rightarrow> pyobj \<Rightarrow> gold_comparison \<Rightarrow> string option \<Rightarrow> string option \<Rightarrow> bool
   \<Rightarrow> (exn, expectation) result" where
  "Expectation name path expected comparison scorer each absent_as_null =
     bindE (check_identifier name) (\<lambda>_.
       if \<not> is_pointer path then value_error
       else bindE (freeze_json expected) (\<lambda>gold.
         if \<not> gold_ok comparison gold \<or> \<not> each_ok comparison each then value_error
         else bindE (if comparison = SourceSpan then mapR (\<lambda>_. ()) (source_span_of gold) else Inr ())
           (\<lambda>_.
             if \<not> scorer_ok comparison scorer then value_error
             else Inr \<lparr>ex_name = name, ex_path = path, ex_expected = gold,
               ex_comparison = comparison, ex_scorer = scorer, ex_each = each,
               ex_absent_as_null = absent_as_null\<rparr>)))"

fun comparison_text :: "gold_comparison \<Rightarrow> string" where
  "comparison_text Exact = ''exact''"
| "comparison_text SetOf = ''set''"
| "comparison_text OneOf = ''one_of''"
| "comparison_text TextEqual = ''text''"
| "comparison_text TextContains = ''contains''"
| "comparison_text SourceSpan = ''source_span''"
| "comparison_text Custom = ''custom''"

definition opt_str :: "string option \<Rightarrow> json" where
  "opt_str x = (case x of Some s \<Rightarrow> JStr s | None \<Rightarrow> JNull)"

definition expectation_identity :: "expectation \<Rightarrow> json" where
  "expectation_identity e = JObj (
     [(''name'', JStr (ex_name e)), (''path'', JStr (ex_path e)), (''expected'', ex_expected e),
      (''comparison'', JStr (comparison_text (ex_comparison e))), (''scorer'', opt_str (ex_scorer e))]
     @ entry_opt ''each'' JStr (ex_each e)
     @ (if ex_absent_as_null e then [(''absent_as_null'', JBool True)] else []))"

section \<open>Cases and suites\<close>

record eval_case =
  ec_id :: string
  ec_input :: envelope
  ec_expectations :: "expectation list"

text \<open>\<^verbatim>\<open>payload\<close> and \<^verbatim>\<open>metadata\<close> are the dump of the envelope the case snapshots.\<close>

definition case_document :: "pyobj \<Rightarrow> pyobj \<Rightarrow> pyobj" where
  "case_document payload metadata =
     PMap [(PStr ''payload'', payload), (PStr ''metadata'', metadata)]"

fun all_checked :: "('a \<Rightarrow> (exn, 'b) result) \<Rightarrow> 'a list \<Rightarrow> (exn, unit) result" where
  "all_checked f [] = Inr ()"
| "all_checked f (x # xs) = bindE (f x) (\<lambda>_. all_checked f xs)"

definition EvaluationCase ::
  "string \<Rightarrow> pyobj \<Rightarrow> pyobj \<Rightarrow> expectation list \<Rightarrow> (exn, eval_case) result" where
  "EvaluationCase cid payload metadata checks =
     bindE (check_identifier cid) (\<lambda>_.
       if checks = [] \<or> \<not> distinct (map ex_name checks) then value_error
       else bindE (freeze_json_depth (MAX_JSON_DEPTH + 1) (case_document payload metadata))
         (\<lambda>case_input.
           bindE (all_checked (\<lambda>e. source_span_source (ex_expected e) case_input)
                    (filter (\<lambda>e. ex_comparison e = SourceSpan) checks)) (\<lambda>_.
             mapR (\<lambda>envelope. \<lparr>ec_id = cid, ec_input = envelope, ec_expectations = checks\<rparr>)
               (AcceptedEnvelope payload metadata))))"

record eval_suite =
  es_name :: string
  es_revision :: string
  es_cases :: "eval_case list"

definition EvaluationSuite ::
  "string \<Rightarrow> string \<Rightarrow> eval_case list \<Rightarrow> (exn, eval_suite) result" where
  "EvaluationSuite name revision cases =
     bindE (check_identifier name) (\<lambda>_. bindE (check_identifier revision) (\<lambda>_.
       if cases = [] \<or> \<not> distinct (map ec_id cases) then value_error
       else Inr \<lparr>es_name = name, es_revision = revision, es_cases = cases\<rparr>))"

text \<open>The content of a suite; the fingerprint is the digest of its canonical text.\<close>

definition case_content :: "eval_case \<Rightarrow> json" where
  "case_content c = JObj [(''id'', JStr (ec_id c)), (''payload'', en_payload (ec_input c)),
     (''metadata'', JObj (en_metadata (ec_input c))),
     (''expectations'', JArr (map expectation_identity (ec_expectations c)))]"

definition suite_content :: "eval_suite \<Rightarrow> json" where
  "suite_content s = JObj [(''name'', JStr (es_name s)), (''revision'', JStr (es_revision s)),
     (''cases'', JArr (map case_content (es_cases s)))]"

definition compute_fingerprint :: "(json \<Rightarrow> string) \<Rightarrow> eval_suite \<Rightarrow> string" where
  "compute_fingerprint sha256 s = sha256 (canonical (suite_content s))"

section \<open>Variants and scorers\<close>

record variant =
  va_name :: string
  va_revision :: string
  va_configuration :: string
  va_step :: "string option"
  va_flow :: "string option"
  va_workflow :: "string option"

definition check_opt_identifier :: "string option \<Rightarrow> (exn, unit) result" where
  "check_opt_identifier v = (case v of None \<Rightarrow> Inr () | Some s \<Rightarrow> check_identifier s)"

definition EvaluationVariant :: "variant \<Rightarrow> (exn, variant) result" where
  "EvaluationVariant v =
     bindE (all_checked check_identifier [va_name v, va_revision v, va_configuration v]) (\<lambda>_.
       bindE (check_opt_identifier (va_step v)) (\<lambda>_.
         if va_step v \<noteq> None \<and> va_flow v = None then value_error
         else bindE (check_opt_identifier (va_flow v)) (\<lambda>_.
           bindE (check_opt_identifier (va_workflow v)) (\<lambda>_. Inr v))))"

text \<open>What a checkpointed attempt must share with an evaluation.\<close>

definition checkpoint_identity :: "string \<Rightarrow> variant \<Rightarrow> json" where
  "checkpoint_identity suite v = JObj [(''suite'', JStr suite), (''variant'', JStr (va_name v)),
     (''variant_revision'', JStr (va_revision v)),
     (''configuration_revision'', JStr (va_configuration v)),
     (''workflow'', opt_str (va_workflow v)), (''flow'', opt_str (va_flow v)),
     (''step'', opt_str (va_step v))]"


section \<open>Facts about text\<close>

lemma fold_char_fixed: "d \<in> set (fold_char c) \<Longrightarrow> fold_char d = [d]"
proof -
  define n where "n = (of_char c :: nat)"
  have c: "c = char_of n" "n < 256" by (simp_all add: n_def)
  have "n < 256 \<Longrightarrow> d \<in> set (fold_char (char_of n)) \<Longrightarrow> fold_char d = [d]"
    by (auto simp: fold_char_def Let_def split: if_splits)
  with c show "d \<in> set (fold_char c) \<Longrightarrow> fold_char d = [d]" by simp
qed

lemma casefold_append: "casefold (s @ t) = casefold s @ casefold t"
  by (simp add: casefold_def)

lemma casefold_fixed: "(\<And>c. c \<in> set s \<Longrightarrow> fold_char c = [c]) \<Longrightarrow> casefold s = s"
  by (induction s) (simp_all add: casefold_def)

lemma split_space_nonempty [simp]: "split_space s \<noteq> []"
  by (induction s) (auto split: list.splits)

lemma split_space_set: "\<Union> (set ` set (split_space s)) = {c \<in> set s. \<not> py_space c}"
proof (induction s)
  case Nil
  then show ?case by simp
next
  case (Cons c s)
  obtain p ps where "split_space s = p # ps" using split_space_nonempty by (metis neq_Nil_conv)
  with Cons show ?case by auto
qed

lemma split_space_chars: "w \<in> set (split_space s) \<Longrightarrow> c \<in> set w \<Longrightarrow> c \<in> set s \<and> \<not> py_space c"
  using split_space_set [of s] by blast

lemma split_space_word: "list_all (\<lambda>c. \<not> py_space c) w \<Longrightarrow> split_space w = [w]"
  by (induction w) auto

lemma split_space_append:
  "list_all (\<lambda>c. \<not> py_space c) w \<Longrightarrow> split_space (w @ CHR '' '' # s) = w # split_space s"
  by (induction w) (simp_all add: py_space_def)

lemma words_of_joined:
  "list_all (\<lambda>w. w \<noteq> [] \<and> list_all (\<lambda>c. \<not> py_space c) w) ws \<Longrightarrow> words (join_space ws) = ws"
  by (induction ws rule: join_space.induct)
     (simp_all add: words_def split_space_word split_space_append)

lemma words_ok: "list_all (\<lambda>w. w \<noteq> [] \<and> list_all (\<lambda>c. \<not> py_space c) w) (words s)"
  using split_space_chars by (fastforce simp: words_def list_all_iff)

lemma casefold_join: "casefold (join_space ws) = join_space (map casefold ws)"
  by (induction ws rule: join_space.induct) (simp_all add: casefold_def fold_char_def)

lemma normalized_text_idem: "normalized_text (normalized_text v) = normalized_text v"
proof -
  have "casefold w = w" if "w \<in> set (words (casefold v))" for w
  proof (rule casefold_fixed)
    fix c assume "c \<in> set w"
    with that have "c \<in> set (casefold v)" using split_space_chars by (fastforce simp: words_def)
    then show "fold_char c = [c]" using fold_char_fixed by (auto simp: casefold_def)
  qed
  then have "map casefold (words (casefold v)) = words (casefold v)" by (simp add: map_idI)
  then have "words (casefold (normalized_text v)) = words (casefold v)"
    unfolding normalized_text_def casefold_join using words_of_joined [OF words_ok] by metis
  then show ?thesis by (simp add: normalized_text_def)
qed

lemma infix_of_iff: "infix_of p s \<longleftrightarrow> (\<exists>u v. s = u @ p @ v)"
proof (induction s)
  case Nil
  then show ?case by auto
next
  case (Cons c s)
  have "take (length p) (c # s) = p \<longleftrightarrow> (\<exists>v. c # s = p @ v)"
    by (metis append_eq_conv_conj append_take_drop_id)
  moreover have "(\<exists>u v. c # s = u @ p @ v) \<longleftrightarrow> (\<exists>v. c # s = p @ v) \<or> (\<exists>u v. s = u @ p @ v)"
    by (metis Cons_eq_append_conv append_Cons append_Nil)
  ultimately show ?case using Cons by simp
qed

section \<open>Facts about canonical values\<close>

lemma json_key_canonical: "json_wf v \<Longrightarrow> json_key (canonical v) = json_key v"
proof (induction v rule: canonical.induct)
  case (2 ps)
  let ?c = "\<lambda>ps. map (\<lambda>p. (fst p, canonical (snd p))) ps"
  let ?k = "\<lambda>ps. map (\<lambda>p. (fst p, json_key (snd p))) ps"
  have wf: "dict_wf ps" using 2 by simp
  then have d: "dict_wf (?c ps)" "dict_wf (?k ps)" by (simp_all add: comp_def)
  have "json_key (canonical (snd p)) = json_key (snd p)" if "p \<in> set ps" for p
    using 2 that by (auto simp: list_all_iff)
  then have same: "?k (?c ps) = ?k ps" by simp
  have ds: "dict_wf (?k (sort_key fst (?c ps)))"
    using dict_wf_sort [OF d(1)] by (simp add: comp_def)
  have "get (?k (sort_key fst (?c ps))) k = get (?k ps) k" for k
  proof -
    have "get (?k (sort_key fst (?c ps))) k = map_option json_key (get (?c ps) k)"
      by (simp only: get_map_values get_sorted_dict [OF d(1)])
    also have "\<dots> = get (?k (?c ps)) k" by (simp only: get_map_values)
    finally show ?thesis by (simp only: same)
  qed
  then have "sort_key fst (?k (sort_key fst (?c ps))) = sort_key fst (?k ps)"
    using sort_key_dict_eq [OF ds d(2)] by simp
  then show ?case by simp
qed (auto simp: list_all_iff)

lemma canonical_equal: "json_wf a \<Longrightarrow> json_wf b \<Longrightarrow> canonical a = canonical b \<Longrightarrow> json_equal a b"
  by (metis json_key_canonical json_key_equal)

lemma canonical_object_iff:
  assumes "dict_wf ps" "dict_wf qs"
  shows "canonical (JObj ps) = canonical (JObj qs)
    \<longleftrightarrow> (\<forall>k. map_option canonical (get ps k) = map_option canonical (get qs k))"
  using assms sort_key_dict_eq [of "map (\<lambda>p. (fst p, canonical (snd p))) ps" "map (\<lambda>p. (fst p, canonical (snd p))) qs"]
  by (simp add: comp_def get_map_values)

lemma canonical_array_iff: "canonical (JArr xs) = canonical (JArr ys) \<longleftrightarrow> map canonical xs = map canonical ys"
  by simp

section \<open>Facts about source spans\<close>

definition span_at :: "string \<Rightarrow> string \<Rightarrow> nat \<times> nat \<Rightarrow> nat \<Rightarrow> nat \<Rightarrow> bool" where
  "span_at source actual required stop i \<longleftrightarrow> take (length actual) (drop i source) = actual \<and>
     i + length actual \<le> min stop (length source) \<and> i \<le> fst required \<and> snd required \<le> i + length actual"

lemma span_loop_iff:
  "found = str_find source actual start stop \<Longrightarrow>
   span_loop source actual required stop found \<longleftrightarrow> (\<exists>i\<ge>start. span_at source actual required stop i)"
proof (induction source actual required stop found arbitrary: start rule: span_loop.induct)
  case (1 source actual required stop found)
  show ?case
  proof (cases found)
    case None
    with 1(2) str_find_None [of source actual start stop] show ?thesis
      by (subst span_loop.simps) (auto simp: span_at_def)
  next
    case (Some j)
    note j = str_find_Some [OF 1(2) [symmetric, unfolded Some]]
    show ?thesis
    proof (cases "j \<le> fst required \<and> snd required \<le> j + length actual")
      case True
      with Some j show ?thesis by (subst span_loop.simps) (auto simp: span_at_def intro!: exI [of _ j])
    next
      case False
      have "span_loop source actual required stop found
          \<longleftrightarrow> span_loop source actual required stop (str_find source actual (Suc j) stop)"
        using Some False by (subst span_loop.simps) auto
      also have "\<dots> \<longleftrightarrow> (\<exists>i\<ge>Suc j. span_at source actual required stop i)"
        by (rule 1(1) [OF Some False refl])
      also have "\<dots> \<longleftrightarrow> (\<exists>i\<ge>start. span_at source actual required stop i)"
      proof -
        have "Suc j \<le> i" if "start \<le> i" "span_at source actual required stop i" for i
        proof -
          have "\<not> i < j" "i \<noteq> j" using j(5) that False by (auto simp: span_at_def)
          then show ?thesis by simp
        qed
        with j(1) show ?thesis by (meson Suc_leD order_trans)
      qed
      finally show ?thesis .
    qed
  qed
qed

section \<open>Equal gold\<close>

text \<open>Assertions, cases and suites up to the order of object members.\<close>

definition assertion_same :: "expectation \<Rightarrow> expectation \<Rightarrow> bool" where
  "assertion_same a b \<longleftrightarrow> ex_name a = ex_name b \<and> ex_path a = ex_path b
     \<and> canonical (ex_expected a) = canonical (ex_expected b) \<and> ex_comparison a = ex_comparison b
     \<and> ex_scorer a = ex_scorer b \<and> ex_each a = ex_each b
     \<and> ex_absent_as_null a = ex_absent_as_null b"

lemma comparison_text_inj: "comparison_text a = comparison_text b \<longleftrightarrow> a = b"
  by (cases a; cases b) simp_all

lemma opt_str_canonical [simp]: "canonical (opt_str x) = opt_str x" "opt_str x = opt_str y \<longleftrightarrow> x = y"
  by (auto simp: opt_str_def split: option.splits)

lemma identity_canonical:
  "canonical (expectation_identity a) = canonical (expectation_identity b) \<longleftrightarrow> assertion_same a b"
proof -
  define ps where "ps = (\<lambda>e :: expectation. [(''name'', JStr (ex_name e)), (''path'', JStr (ex_path e)),
     (''expected'', ex_expected e), (''comparison'', JStr (comparison_text (ex_comparison e))),
     (''scorer'', opt_str (ex_scorer e))] @ entry_opt ''each'' JStr (ex_each e)
     @ (if ex_absent_as_null e then [(''absent_as_null'', JBool True)] else []))"
  have wf: "dict_wf (ps e)" for e
    by (simp add: ps_def entry_opt_def split: option.split)
  have id: "expectation_identity e = JObj (ps e)" for e
    by (simp add: ps_def expectation_identity_def)
  have members: "get (ps e) ''name'' = Some (JStr (ex_name e))" "get (ps e) ''path'' = Some (JStr (ex_path e))"
    "get (ps e) ''expected'' = Some (ex_expected e)"
    "get (ps e) ''comparison'' = Some (JStr (comparison_text (ex_comparison e)))"
    "get (ps e) ''scorer'' = Some (opt_str (ex_scorer e))"
    "get (ps e) ''each'' = map_option JStr (ex_each e)"
    "get (ps e) ''absent_as_null'' = (if ex_absent_as_null e then Some (JBool True) else None)" for e
    by (simp_all add: ps_def entry_opt_def split: option.split)
  have others: "get (ps e) k = None" if "k \<notin> {''name'', ''path'', ''expected'', ''comparison'', ''scorer'', ''each'', ''absent_as_null''}" for e k
    using that by (auto simp: ps_def entry_opt_def split: option.split)
  let ?same = "\<lambda>k. map_option canonical (get (ps a) k) = map_option canonical (get (ps b) k)"
  have "canonical (expectation_identity a) = canonical (expectation_identity b) \<longleftrightarrow> (\<forall>k. ?same k)"
    unfolding id by (rule canonical_object_iff [OF wf wf])
  also have "\<dots> \<longleftrightarrow> (\<forall>k \<in> {''name'', ''path'', ''expected'', ''comparison'', ''scorer'', ''each'', ''absent_as_null''}. ?same k)"
    using others by metis
  also have "\<dots> \<longleftrightarrow> assertion_same a b"
    by (auto simp: members assertion_same_def comparison_text_inj option.map_comp comp_def split: if_splits option.splits)
       (auto simp: option.map_comp comp_def map_option_case split: option.splits)
  finally show ?thesis .
qed


definition case_same :: "eval_case \<Rightarrow> eval_case \<Rightarrow> bool" where
  "case_same a b \<longleftrightarrow> ec_id a = ec_id b
     \<and> canonical (en_payload (ec_input a)) = canonical (en_payload (ec_input b))
     \<and> canonical (JObj (en_metadata (ec_input a))) = canonical (JObj (en_metadata (ec_input b)))
     \<and> list_all2 assertion_same (ec_expectations a) (ec_expectations b)"

definition suite_same :: "eval_suite \<Rightarrow> eval_suite \<Rightarrow> bool" where
  "suite_same s t \<longleftrightarrow> es_name s = es_name t \<and> es_revision s = es_revision t
     \<and> list_all2 case_same (es_cases s) (es_cases t)"

lemma canonical_map: "map canonical (map f xs) = map canonical (map g ys)
    \<longleftrightarrow> list_all2 (\<lambda>x y. canonical (f x) = canonical (g y)) xs ys"
  by (auto simp: list_all2_conv_all_nth list_eq_iff_nth_eq)

lemma object_canonical:
  assumes "dict_wf ps" "keys ps = keys qs"
  shows "canonical (JObj ps) = canonical (JObj qs) \<longleftrightarrow> map (canonical \<circ> snd) ps = map (canonical \<circ> snd) qs"
proof -
  have wf: "dict_wf qs" using assms by simp
  let ?c = "\<lambda>ps. map (\<lambda>p. (fst p, canonical (snd p))) ps"
  have "canonical (JObj ps) = canonical (JObj qs) \<longleftrightarrow> (\<forall>k. get (?c ps) k = get (?c qs) k)"
    using canonical_object_iff [OF assms(1) wf] by (simp add: get_map_values)
  also have "\<dots> \<longleftrightarrow> ?c ps = ?c qs"
  proof
    assume same: "\<forall>k. get (?c ps) k = get (?c qs) k"
    show "?c ps = ?c qs"
    proof (rule nth_equalityI)
      show "length (?c ps) = length (?c qs)" using assms(2) by (metis length_map)
      fix i assume "i < length (?c ps)"
      then have i: "i < length ps" "i < length qs" using assms(2) by (simp, metis length_map)
      have f: "fst (ps ! i) = fst (qs ! i)" using assms(2) i by (metis nth_map)
      have "get ps (fst (ps ! i)) = Some (snd (ps ! i))" "get qs (fst (qs ! i)) = Some (snd (qs ! i))"
        using assms(1) wf i by simp_all
      with same [rule_format, of "fst (ps ! i)"] f i show "?c ps ! i = ?c qs ! i"
        by (simp add: get_map_values)
    qed
  qed simp
  also have "\<dots> \<longleftrightarrow> map (canonical \<circ> snd) ps = map (canonical \<circ> snd) qs"
    using assms(2) by (auto simp: list_eq_iff_nth_eq)
  finally show ?thesis .
qed

lemma case_content_canonical: "canonical (case_content a) = canonical (case_content b) \<longleftrightarrow> case_same a b"
  unfolding case_content_def case_same_def
  by (subst object_canonical) (simp_all add: canonical_map identity_canonical del: canonical.simps(2) map_map)

lemma span_range_canonical: "span_range (map_option canonical v) = span_range v"
proof (cases v)
  case (Some w)
  have int: "canonical u = JInt i \<longleftrightarrow> u = JInt i" for u i by (cases u) simp_all
  show ?thesis
  proof (cases "\<exists>a b. w = JArr [JInt a, JInt b]")
    case True
    with Some show ?thesis by (auto simp: span_range_def)
  next
    case False
    then have "\<nexists>a b. canonical w = JArr [JInt a, JInt b]"
      by (cases w) (auto simp: int Cons_eq_map_conv map_eq_Cons_conv)
    with False Some show ?thesis
      by (auto simp: span_range_def split: json.splits list.splits)
  qed
qed (simp add: span_range_def)

lemma source_span_canonical:
  assumes "json_wf v" shows "source_span_of (canonical v) = source_span_of v"
proof (cases v)
  case (JObj ps)
  let ?c = "sort_key fst (map (\<lambda>p. (fst p, canonical (snd p))) ps)"
  have "dict_wf ps" using assms JObj by simp
  then have wf: "dict_wf (map (\<lambda>p. (fst p, canonical (snd p))) ps)" by (simp add: comp_def)
  have g: "get ?c k = map_option canonical (get ps k)" for k
    by (simp only: get_sorted_dict [OF wf] get_map_values)
  have k: "set (keys ?c) = set (keys ps)" by (force simp: image_iff)
  have str: "(case map_option canonical u of Some (JStr p) \<Rightarrow> f p | _ \<Rightarrow> value_error)
      = (case u of Some (JStr p) \<Rightarrow> f p | _ \<Rightarrow> value_error)" for u and f :: "string \<Rightarrow> (exn, source_span) result"
    by (auto split: option.split json.split elim: canonical.elims)
  show ?thesis
    unfolding JObj source_span_of_def
    by (simp only: canonical.simps json.case k g span_range_canonical str)
qed (simp_all add: source_span_of_def)

lemma iterate_canonical:
  assumes "canonical v = canonical w"
  shows "mapR (\<lambda>ys. canonical ` set ys) (iterate v) = mapR (\<lambda>ys. canonical ` set ys) (iterate w)"
proof (cases v)
  case (JArr xs)
  with assms obtain ys where "w = JArr ys" "map canonical xs = map canonical ys" by (cases w) simp_all
  then show ?thesis using JArr by (metis iterate.simps(1) list.set_map mapR_simps(2))
next
  case (JObj ps)
  with assms obtain qs where qs: "w = JObj qs" by (cases w) simp_all
  let ?s = "\<lambda>ps :: jobj. sort_key fst (map (\<lambda>p. (fst p, canonical (snd p))) ps)"
  have "fst ` set (?s ps) = fst ` set (?s qs)" using assms JObj qs by simp
  then have "fst ` set ps = fst ` set qs" by (simp add: image_image)
  then have "(\<lambda>p. JStr (fst p)) ` set ps = (\<lambda>p. JStr (fst p)) ` set qs"
    by (metis image_image)
  then show ?thesis unfolding JObj qs by (simp add: image_image)
qed (use assms in \<open>cases w; simp\<close>)+

lemma text_of_canonical: "canonical v = canonical w \<Longrightarrow> text_of v = text_of w"
  by (cases v; cases w) simp_all

lemma mapR_image:
  "mapR f r = mapR f s \<Longrightarrow> mapR (\<lambda>y. g (f y)) r = mapR (\<lambda>y. g (f y)) s"
  by (cases r; cases s) auto

lemma same_gold_same_outcome:
  assumes "assertion_same a b" and wf: "json_wf (ex_expected a)" "json_wf (ex_expected b)"
  shows "matches a actual case_input = matches b actual case_input"
proof -
  from assms have c: "ex_comparison a = ex_comparison b"
    and can: "canonical (ex_expected a) = canonical (ex_expected b)" by (simp_all add: assertion_same_def)
  have "source_span_of (ex_expected a) = source_span_of (ex_expected b)"
    using source_span_canonical wf can by metis
  moreover note text_of_canonical [OF can]
    mapR_image [OF iterate_canonical [OF can], of "\<lambda>y. canonical actual \<in> y"]
    mapR_image [OF iterate_canonical [OF can], of "\<lambda>y. canonical ` set xs = y" for xs]
  ultimately show ?thesis
    by (simp add: matches_def c can matches_source_span_def source_span_source_def Let_def
        split: gold_comparison.split json.split)
qed

section \<open>Properties\<close>

text \<open>
  C27: A source span matches exactly when the observed text is not empty and occurs in the
  source at a place that lies within the allowed range and covers the required range: the
  loop over occurrences neither stops before such a place nor accepts another.
\<close>

theorem source_span_match:
  assumes "source_span_source expected case_input = Inr (spec, source)"
  shows "matches_source_span (JStr actual) expected case_input =
    Inr (actual \<noteq> [] \<and> (\<exists>before after. source = before @ actual @ after
      \<and> fst (ss_allowed spec) \<le> length before \<and> length before \<le> fst (ss_required spec)
      \<and> snd (ss_required spec) \<le> length (before @ actual)
      \<and> length (before @ actual) \<le> snd (ss_allowed spec)))"
proof -
  have "(\<exists>i\<ge>a. span_at source actual required stop i) \<longleftrightarrow>
      (\<exists>before after. source = before @ actual @ after \<and> a \<le> length before
        \<and> length before \<le> fst required \<and> snd required \<le> length (before @ actual)
        \<and> length (before @ actual) \<le> stop)" (is "?L \<longleftrightarrow> ?R") for a required stop
  proof
    assume ?L
    then obtain i where i: "a \<le> i" "span_at source actual required stop i" by blast
    then have "source = take i source @ actual @ drop (length actual) (drop i source)"
      by (metis append_take_drop_id span_at_def)
    with i show ?R by (intro exI [of _ "take i source"] exI) (auto simp: span_at_def)
  next
    assume ?R
    then obtain u v where "source = u @ actual @ v" "a \<le> length u" "length u \<le> fst required"
      "snd required \<le> length (u @ actual)" "length (u @ actual) \<le> stop" by blast
    then show ?L by (intro exI [of _ "length u"]) (simp add: span_at_def)
  qed
  with assms span_loop_iff [OF refl] show ?thesis by (simp add: matches_source_span_def)
qed

theorem source_span_match_witness:
  "matches_source_span (JStr ''cd'') (JObj [(''input_path'', JStr ''/t''), (''required'', JArr [JInt 3, JInt 4]),
      (''allowed'', JArr [JInt 0, JInt 5])]) (JObj [(''t'', JStr ''abcdef'')]) = Inr True"
proof -
  let ?e = "JObj [(''input_path'', JStr ''/t''), (''required'', JArr [JInt 3, JInt 4]), (''allowed'', JArr [JInt 0, JInt 5])]"
  let ?i = "JObj [(''t'', JStr ''abcdef'')]"
  have "source_span_source ?e ?i = Inr (\<lparr>ss_input_path = ''/t'', ss_required = (3, 4), ss_allowed = (0, 5)\<rparr>, ''abcdef'')"
    by code_simp
  note m = source_span_match [OF this, of "''cd''"]
  show ?thesis unfolding m
    by (simp, rule exI [of _ "''ab''"], simp)
qed

text \<open>
  Barring a collision of the digest on the two suites, equal fingerprints mean the same
  name and revision and, in order, cases with the same identifier, input and assertions, up
  to the order of object members; number types, projections and absence rules count.
\<close>

theorem fingerprint_identifies:
  assumes "sha256 (canonical (suite_content s)) = sha256 (canonical (suite_content t))
    \<Longrightarrow> canonical (suite_content s) = canonical (suite_content t)"
  shows "compute_fingerprint sha256 s = compute_fingerprint sha256 t \<longleftrightarrow> suite_same s t"
proof -
  have "canonical (suite_content s) = canonical (suite_content t) \<longleftrightarrow> suite_same s t"
    unfolding suite_content_def suite_same_def
    by (subst object_canonical)
       (simp_all add: canonical_map case_content_canonical del: canonical.simps(2) map_map)
  with assms show ?thesis by (auto simp: compute_fingerprint_def)
qed

theorem fingerprint_identifies_witness:
  "compute_fingerprint (\<lambda>j. case j of JObj (_ # (_, JStr n) # _) \<Rightarrow> n | _ \<Rightarrow> '''')
     \<lparr>es_name = ''a'', es_revision = ''1'', es_cases = []\<rparr>
   = compute_fingerprint (\<lambda>j. case j of JObj (_ # (_, JStr n) # _) \<Rightarrow> n | _ \<Rightarrow> '''')
     \<lparr>es_name = ''b'', es_revision = ''1'', es_cases = []\<rparr>
   \<longleftrightarrow> suite_same \<lparr>es_name = ''a'', es_revision = ''1'', es_cases = []\<rparr>
        \<lparr>es_name = ''b'', es_revision = ''1'', es_cases = []\<rparr>"
proof (rule fingerprint_identifies)
  let ?d = "\<lambda>j. case j of JObj (_ # (_, JStr n) # _) \<Rightarrow> n | _ \<Rightarrow> ''''"
  have "?d (canonical (suite_content \<lparr>es_name = ''a'', es_revision = ''1'', es_cases = []\<rparr>)) = ''a''"
    "?d (canonical (suite_content \<lparr>es_name = ''b'', es_revision = ''1'', es_cases = []\<rparr>)) = ''b''"
    by code_simp+
  moreover assume "?d (canonical (suite_content \<lparr>es_name = ''a'', es_revision = ''1'', es_cases = []\<rparr>))
    = ?d (canonical (suite_content \<lparr>es_name = ''b'', es_revision = ''1'', es_cases = []\<rparr>))"
  ultimately show "canonical (suite_content \<lparr>es_name = ''a'', es_revision = ''1'', es_cases = []\<rparr>)
    = canonical (suite_content \<lparr>es_name = ''b'', es_revision = ''1'', es_cases = []\<rparr>)" by simp
qed

end
