(* ===== verification/Metrics.thy ===== *)
theory Metrics imports Comparisons begin

text \<open>
  \<^verbatim>\<open>evaluation/metrics.py\<close> and \<^verbatim>\<open>document_path_status\<close> of \<^verbatim>\<open>evaluation/records.py\<close>: metric
  specifications, the observation of one attempt and the report over all attempts. A
  \<^verbatim>\<open>frozenset\<close> of labels is the list of its elements, compared as a set; a float quotient is the
  exact rational it rounds.
\<close>

section \<open>Specifications\<close>

datatype metric_kind = Classification | Multilabel | Fields

datatype observation_state =
  Observed | Excluded | Abstained | MissingValue | SkippedOwner | ErrorState | InvalidValue

datatype field_outcome =
  CorrectValue | CorrectNull | Hallucinated | Missed | WrongValue | Unavailable

text \<open>A label is a string or null.\<close>

type_synonym label = "string option"

text \<open>The pointer of one field below a \<^verbatim>\<open>fields\<close> metric path.\<close>

definition field_path :: "string \<Rightarrow> string \<Rightarrow> string" where
  "field_path path field = path @ CHR ''/'' # escape_token field"

record metric_spec =
  ms_name :: string
  ms_path :: string
  ms_kind :: metric_kind
  ms_labels :: "label list"
  ms_each :: "string option"
  ms_expectation :: "string option"

definition label_ok :: "metric_kind \<Rightarrow> label \<Rightarrow> bool" where
  "label_ok kind label = (case label of
     None \<Rightarrow> kind = Classification | Some s \<Rightarrow> \<not> list_all py_space s)"

definition MetricSpec :: "metric_spec \<Rightarrow> (exn, metric_spec) result" where
  "MetricSpec s =
     (if \<not> identifier_ok (ms_name s) \<or> \<not> is_pointer (ms_path s) then value_error
      else if (case ms_each s of None \<Rightarrow> False
               | Some e \<Rightarrow> e = [] \<or> \<not> is_pointer e \<or> ms_kind s = Fields) then value_error
      else if (case ms_expectation s of None \<Rightarrow> False
               | Some e \<Rightarrow> list_all py_space e \<or> ms_kind s = Fields) then value_error
      else if ms_labels s = [] \<or> \<not> list_all (label_ok (ms_kind s)) (ms_labels s)
              \<or> \<not> distinct (ms_labels s) then value_error
      else Inr s)"

section \<open>Rates and counts\<close>

record rate_summary =
  rs_precision :: "rat option"
  rs_recall :: "rat option"
  rs_f1 :: "rat option"

definition quotient :: "nat \<Rightarrow> nat \<Rightarrow> rat option" where
  "quotient n d = (if d = 0 then None else Some (of_nat n / of_nat d))"

definition rates_of :: "nat \<Rightarrow> nat \<Rightarrow> nat \<Rightarrow> rate_summary" where
  "rates_of tp fp fn =
     \<lparr>rs_precision = quotient tp (tp + fp), rs_recall = quotient tp (tp + fn),
      rs_f1 = quotient (2 * tp) (2 * tp + fp + fn)\<rparr>"

record label_counts =
  lc_label :: label
  lc_true_positive :: nat
  lc_false_positive :: nat
  lc_false_negative :: nat
  lc_true_negative :: nat
  lc_rates :: rate_summary

definition LabelCounts :: "label \<Rightarrow> nat \<Rightarrow> nat \<Rightarrow> nat \<Rightarrow> nat \<Rightarrow> label_counts" where
  "LabelCounts label tp fp fn tn =
     \<lparr>lc_label = label, lc_true_positive = tp, lc_false_positive = fp, lc_false_negative = fn,
      lc_true_negative = tn, lc_rates = rates_of tp fp fn\<rparr>"

record field_counts =
  fc_label :: "string option"
  fc_value_support :: nat
  fc_null_support :: nat
  fc_correct_value :: nat
  fc_correct_null :: nat
  fc_hallucinated :: nat
  fc_missed :: nat
  fc_wrong_value :: nat
  fc_unavailable :: nat
  fc_support :: nat
  fc_accuracy :: "rat option"
  fc_hallucination_rate :: "rat option"
  fc_miss_rate :: "rat option"

definition FieldCounts ::
  "string option \<Rightarrow> nat \<Rightarrow> nat \<Rightarrow> nat \<Rightarrow> nat \<Rightarrow> nat \<Rightarrow> nat \<Rightarrow> nat \<Rightarrow> nat \<Rightarrow> field_counts" where
  "FieldCounts label value_support null_support correct_value correct_null hallucinated missed
       wrong_value unavailable =
     (let support = value_support + null_support; correct = correct_value + correct_null in
     \<lparr>fc_label = label, fc_value_support = value_support, fc_null_support = null_support,
      fc_correct_value = correct_value, fc_correct_null = correct_null,
      fc_hallucinated = hallucinated, fc_missed = missed, fc_wrong_value = wrong_value,
      fc_unavailable = unavailable, fc_support = support,
      fc_accuracy = quotient correct support,
      fc_hallucination_rate = quotient hallucinated null_support,
      fc_miss_rate = quotient missed value_support\<rparr>)"

record metric_report =
  mr_spec :: metric_spec
  mr_support :: nat
  mr_excluded :: nat
  mr_observed :: nat
  mr_abstained :: nat
  mr_missing :: nat
  mr_skipped :: nat
  mr_errors :: nat
  mr_invalid :: nat
  mr_correct :: nat
  mr_accuracy :: "rat option"
  mr_coverage :: "rat option"
  mr_confusion :: "nat list list"
  mr_per_label :: "label_counts list"
  mr_micro :: rate_summary
  mr_macro :: rate_summary
  mr_source_support :: nat
  mr_source_excluded :: nat
  mr_repeat :: nat
  mr_per_field :: "field_counts list"
  mr_field_totals :: "field_counts option"
  mr_field_accuracy :: "rat option"
  mr_macro_field_accuracy :: "rat option"

record metric_observation =
  mo_state :: observation_state
  mo_expected :: "label list"
  mo_actual :: "label list"
  mo_fields :: "(string \<times> field_outcome \<times> bool) list"

definition MetricObservation ::
  "observation_state \<Rightarrow> label list \<Rightarrow> label list \<Rightarrow> metric_observation" where
  "MetricObservation state expected actual =
     \<lparr>mo_state = state, mo_expected = expected, mo_actual = actual, mo_fields = []\<rparr>"

section \<open>Gold\<close>

text \<open>The labels a value names; \<^term>\<open>None\<close> when it is not of the catalog.\<close>

fun string_label :: "json \<Rightarrow> label option" where
  "string_label (JStr s) = Some (Some s)"
| "string_label _ = None"

definition labels_of :: "metric_spec \<Rightarrow> json \<Rightarrow> label list option" where
  "labels_of spec v =
     (if ms_kind spec = Classification then
        (case v of
           JStr s \<Rightarrow> if Some s \<in> set (ms_labels spec) then Some [Some s] else None
         | JNull \<Rightarrow> if None \<in> set (ms_labels spec) then Some [None] else None
         | _ \<Rightarrow> None)
      else
        (case v of
           JArr xs \<Rightarrow> (case all_some (map string_label xs) of
               Some ls \<Rightarrow> if set ls \<subseteq> set (ms_labels spec) then Some (remdups ls) else None
             | None \<Rightarrow> None)
         | _ \<Rightarrow> None))"

definition gold_labels :: "metric_spec \<Rightarrow> expectation \<Rightarrow> label list option" where
  "gold_labels spec check =
     (if ex_comparison check \<noteq> OneOf then labels_of spec (ex_expected check)
      else if ms_kind spec \<noteq> Classification then None
      else (case ex_expected check of
          JArr xs \<Rightarrow> map_option (\<lambda>ls. remdups (concat ls)) (all_some (map (labels_of spec) xs))
        | _ \<Rightarrow> None))"

text \<open>\<^verbatim>\<open>_primary\<close>: the first of an array of alternatives, or the value itself.\<close>

definition primary_label :: "expectation \<Rightarrow> (exn, label) result" where
  "primary_label check =
     (let v = (case ex_expected check of JArr (x # xs) \<Rightarrow> Some x | JArr [] \<Rightarrow> None | w \<Rightarrow> Some w) in
      case v of Some (JStr s) \<Rightarrow> Inr (Some s) | Some JNull \<Rightarrow> Inr None | _ \<Rightarrow> Inl OtherErr)"

definition matching :: "metric_spec \<Rightarrow> eval_case \<Rightarrow> expectation list" where
  "matching spec c = filter (\<lambda>check. ex_path check = ms_path spec \<and> ex_each check = ms_each spec
     \<and> (ms_expectation spec = None \<or> Some (ex_name check) = ms_expectation spec)) (ec_expectations c)"

definition field_checks :: "metric_spec \<Rightarrow> string \<Rightarrow> eval_case \<Rightarrow> expectation list" where
  "field_checks spec label c =
     filter (\<lambda>check. ex_path check = field_path (ms_path spec) label) (ec_expectations c)"

text \<open>A null label in a field catalog fails the assertion.\<close>

fun field_gold_from :: "metric_spec \<Rightarrow> eval_case \<Rightarrow> label list \<Rightarrow> (exn, (string \<times> expectation) list) result" where
  "field_gold_from spec c [] = Inr []"
| "field_gold_from spec c (None # ls) = Inl OtherErr"
| "field_gold_from spec c (Some l # ls) =
     mapR (\<lambda>gold. (case field_checks spec l c of [] \<Rightarrow> gold | check # _ \<Rightarrow> (l, check) # gold))
       (field_gold_from spec c ls)"

definition field_gold :: "metric_spec \<Rightarrow> eval_case \<Rightarrow> (exn, (string \<times> expectation) list) result" where
  "field_gold spec c = field_gold_from spec c (ms_labels spec)"

definition field_case_ok :: "metric_spec \<Rightarrow> eval_case \<Rightarrow> bool" where
  "field_case_ok spec c = list_all (\<lambda>label. (case label of None \<Rightarrow> False
     | Some l \<Rightarrow> (let checks = field_checks spec l c in
         length checks \<le> 1 \<and> list_all (\<lambda>check. ex_comparison check \<notin> {Custom, SourceSpan}
           \<and> ex_each check = None) checks))) (ms_labels spec)"

definition label_case_ok :: "metric_spec \<Rightarrow> eval_case \<Rightarrow> bool" where
  "label_case_ok spec c = (case matching spec c of
     [] \<Rightarrow> True | [check] \<Rightarrow> gold_labels spec check \<noteq> None | _ \<Rightarrow> False)"

definition metric_ok :: "eval_case list \<Rightarrow> metric_spec \<Rightarrow> bool" where
  "metric_ok cases spec =
     (if ms_kind spec = Fields
      then None \<notin> set (ms_labels spec) \<and> list_all (field_case_ok spec) cases
      else list_all (label_case_ok spec) cases)"

definition validate_metrics :: "eval_suite \<Rightarrow> metric_spec list \<Rightarrow> (exn, unit) result" where
  "validate_metrics suite specs =
     (if distinct (map ms_name specs) \<and> list_all (metric_ok (es_cases suite)) specs
      then Inr () else value_error)"

section \<open>Owners\<close>

text \<open>
  \<^verbatim>\<open>document_path_status\<close>: the status of the innermost flow or step record that owns a path of
  the result document. The walk descends from a flow into one of its steps, and from a marked
  collection into one of its child flows; \<open>parts\<close> are the tokens after the flow.
\<close>

definition item_index :: "string \<Rightarrow> nat \<Rightarrow> nat option" where
  "item_index token n =
     (if token \<noteq> [] \<and> list_all ascii_digit token \<and> length token \<le> 4
         \<and> (length token > 1 \<longrightarrow> hd token \<noteq> CHR ''0'') \<and> parse_nat token < n
      then Some (parse_nat token) else None)"

fun record_status :: "json option \<Rightarrow> json \<Rightarrow> string list \<Rightarrow> json option" where
  "record_status status (JObj flow) parts = (let status = get flow ''status'' in
     (case parts of
        steps_token # name # rest \<Rightarrow>
          if steps_token \<noteq> ''steps'' then status
          else (case get flow ''steps'' of
             Some (JObj steps) \<Rightarrow>
               (case get steps name of
                  Some (JObj step) \<Rightarrow> (let status = get step ''status'' in
                    (case rest of
                       member # items_token # token # rest \<Rightarrow>
                         if get step ''kind'' \<noteq> Some (JStr ''flow_collection'')
                            \<or> member \<notin> {''result'', ''partial_result''} \<or> items_token \<noteq> ''items''
                         then status
                         else (case get step member of
                            Some (JObj ledger) \<Rightarrow>
                              (case get ledger ''items'' of
                                 Some (JArr items) \<Rightarrow>
                                   (case item_index token (length items) of
                                      Some i \<Rightarrow> record_status status (items ! i) rest
                                    | None \<Rightarrow> status)
                               | _ \<Rightarrow> status)
                          | _ \<Rightarrow> status)
                     | _ \<Rightarrow> status))
                | _ \<Rightarrow> status)
           | _ \<Rightarrow> status)
      | _ \<Rightarrow> status))"
| "record_status status _ parts = status"

definition document_path_status :: "string \<Rightarrow> json \<Rightarrow> string option" where
  "document_path_status path document =
     (case document of
        JObj members \<Rightarrow>
          (case map unescape (tl (split_on (CHR ''/'') path)) of
             first # name # parts \<Rightarrow>
               if first \<noteq> ''flows'' then None
               else (case get members ''flows'' of
                  Some (JObj roots) \<Rightarrow>
                    (case get roots name of
                       Some flow \<Rightarrow>
                         (case record_status None flow parts of Some (JStr s) \<Rightarrow> Some s | _ \<Rightarrow> None)
                     | None \<Rightarrow> None)
                | _ \<Rightarrow> None)
           | _ \<Rightarrow> None)
      | _ \<Rightarrow> None)"

section \<open>Observation of one attempt\<close>

definition FAILED_STATUSES :: "string list" where
  "FAILED_STATUSES = [''failed'', ''cancelled'', ''error'']"

definition owner_executed :: "string \<Rightarrow> string option \<Rightarrow> string \<Rightarrow> bool" where
  "owner_executed path owner_status status =
     (case owner_status of
        Some s \<Rightarrow> s \<in> set EXECUTED_STATUSES
      | None \<Rightarrow> if take 7 path = ''/flows/'' then False else status \<in> set EXECUTED_STATUSES)"

text \<open>\<^verbatim>\<open>_resolve\<close>: \<^term>\<open>None\<close> is \<^verbatim>\<open>(False, None)\<close>.\<close>

definition resolve_observed ::
  "string \<Rightarrow> json \<Rightarrow> bool \<Rightarrow> string option \<Rightarrow> string \<Rightarrow> json option" where
  "resolve_observed path document absent_as_null owner_status status =
     (case resolve_binding (pointer_binding path) document of
        Inr v \<Rightarrow> Some v
      | Inl _ \<Rightarrow> if absent_as_null \<and> owner_executed path owner_status status then Some JNull else None)"

text \<open>Why an attempt cannot be observed at a path, from the status of the owner and of the run.\<close>

definition unavailable_state :: "string \<Rightarrow> string option \<Rightarrow> observation_state option" where
  "unavailable_state status owner_status =
     (if owner_status = Some ''skipped'' then Some SkippedOwner
      else if status \<in> set FAILED_STATUSES \<or> owner_status \<in> {Some ''failed'', Some ''cancelled''}
      then Some ErrorState else None)"

definition field_outcome_of :: "expectation \<Rightarrow> json option \<Rightarrow> (exn, field_outcome) result" where
  "field_outcome_of check observed = (case observed of
     None \<Rightarrow> Inr Unavailable
   | Some actual \<Rightarrow>
       if ex_expected check = JNull
       then Inr (if actual = JNull then CorrectNull else Hallucinated)
       else if actual = JNull then Inr Missed
       else mapR (\<lambda>b. if b then CorrectValue else WrongValue) (matches check actual JNull))"

definition field_entry ::
  "metric_spec \<Rightarrow> json \<Rightarrow> string option \<Rightarrow> string \<Rightarrow> string \<times> expectation
   \<Rightarrow> (exn, string \<times> field_outcome \<times> bool) result" where
  "field_entry spec document owner_status status entry = (case entry of (label, check) \<Rightarrow>
     (let null_gold = (ex_expected check = JNull) in
      if unavailable_state status owner_status \<noteq> None then Inr (label, Unavailable, null_gold)
      else mapR (\<lambda>outcome. (label, outcome, null_gold))
        (field_outcome_of check
          (resolve_observed (field_path (ms_path spec) label) document True owner_status status))))"

definition fields_state ::
  "observation_state option \<Rightarrow> (string \<times> field_outcome \<times> bool) list \<Rightarrow> observation_state" where
  "fields_state unavailable outcomes = (case unavailable of
     Some st \<Rightarrow> st
   | None \<Rightarrow> if list_all (\<lambda>(_, outcome, _). outcome = Unavailable) outcomes
             then MissingValue else Observed)"

definition observe_fields ::
  "metric_spec \<Rightarrow> eval_case \<Rightarrow> json \<Rightarrow> string \<Rightarrow> (exn, metric_observation) result" where
  "observe_fields spec c document status =
     bindE (field_gold spec c) (\<lambda>gold.
       if gold = [] then Inr (MetricObservation Excluded [] [])
       else (let owner_status = document_path_status (ms_path spec) document in
         mapR (\<lambda>outcomes. (MetricObservation (fields_state (unavailable_state status owner_status) outcomes) [] [])
                 \<lparr>mo_fields := outcomes\<rparr>)
           (mapE (field_entry spec document owner_status status) gold)))"

text \<open>An accepted alternative counts as that label, otherwise the primary gold.\<close>

definition observe_value ::
  "metric_spec \<Rightarrow> expectation \<Rightarrow> label list \<Rightarrow> label list \<Rightarrow> json option \<Rightarrow> metric_observation" where
  "observe_value spec check acceptable expected observed = (case observed of
     None \<Rightarrow> MetricObservation MissingValue expected []
   | Some found \<Rightarrow>
       (case (case ms_each spec of None \<Rightarrow> Some found | Some each \<Rightarrow> project found each) of
          None \<Rightarrow> MetricObservation InvalidValue expected []
        | Some actual \<Rightarrow>
            (let parsed = labels_of spec actual;
                 expected = (case parsed of
                   Some ls \<Rightarrow> if ex_comparison check = OneOf \<and> set ls \<subseteq> set acceptable then ls else expected
                 | None \<Rightarrow> expected) in
             case parsed of
               Some ls \<Rightarrow> MetricObservation Observed expected ls
             | None \<Rightarrow> MetricObservation (if actual = JNull then Abstained else InvalidValue) expected [])))"

definition observe_labels ::
  "metric_spec \<Rightarrow> eval_case \<Rightarrow> json \<Rightarrow> string \<Rightarrow> (exn, metric_observation) result" where
  "observe_labels spec c document status =
     (case matching spec c of
        [] \<Rightarrow> Inr (MetricObservation Excluded [] [])
      | check # _ \<Rightarrow>
          (case gold_labels spec check of
             None \<Rightarrow> Inl OtherErr
           | Some acceptable \<Rightarrow>
               bindE (if ex_comparison check = OneOf then mapR (\<lambda>l. [l]) (primary_label check)
                      else Inr acceptable) (\<lambda>expected.
                 let owner_status = document_path_status (ms_path spec) document in
                 Inr (case unavailable_state status owner_status of
                   Some st \<Rightarrow> MetricObservation st expected []
                 | None \<Rightarrow> observe_value spec check acceptable expected
                     (resolve_observed (ms_path spec) document (ex_absent_as_null check) owner_status status)))))"

definition observe_metric ::
  "eval_case \<Rightarrow> json \<Rightarrow> string \<Rightarrow> metric_spec \<Rightarrow> (exn, metric_observation) result" where
  "observe_metric c document status spec =
     (if ms_kind spec = Fields then observe_fields spec c document status
      else observe_labels spec c document status)"

definition observe_metrics ::
  "metric_spec list \<Rightarrow> eval_case \<Rightarrow> json \<Rightarrow> string \<Rightarrow> (exn, metric_observation list) result" where
  "observe_metrics specs c document status = mapE (observe_metric c document status) specs"

section \<open>Reports\<close>

abbreviation count :: "('a \<Rightarrow> bool) \<Rightarrow> 'a list \<Rightarrow> nat" where
  "count P xs \<equiv> length (filter P xs)"

definition outcome_counts :: "string option \<Rightarrow> (field_outcome \<times> bool) list \<Rightarrow> field_counts" where
  "outcome_counts label outcomes =
     (let n = (\<lambda>out. count (\<lambda>p. fst p = out) outcomes) in
      FieldCounts label (count (\<lambda>p. \<not> snd p) outcomes) (count snd outcomes)
        (n CorrectValue) (n CorrectNull) (n Hallucinated) (n Missed) (n WrongValue) (n Unavailable))"

definition correct_outcome :: "field_outcome \<Rightarrow> bool" where
  "correct_outcome x \<longleftrightarrow> x \<in> {CorrectValue, CorrectNull}"

text \<open>Rates left out of a report, as the defaults of its class.\<close>

definition no_rates :: rate_summary where
  "no_rates = \<lparr>rs_precision = None, rs_recall = None, rs_f1 = None\<rparr>"

abbreviation state_count :: "observation_state \<Rightarrow> metric_observation list \<Rightarrow> nat" where
  "state_count st vs \<equiv> count (\<lambda>v. mo_state v = st) vs"

definition entries_of :: "metric_observation list \<Rightarrow> (string \<times> field_outcome \<times> bool) list" where
  "entries_of vs = concat (map mo_fields vs)"

definition mean_known :: "rat option list \<Rightarrow> rat option" where
  "mean_known xs = (let known = map the (filter (\<lambda>x. x \<noteq> None) xs) in
     if known = [] then None else Some (sum_list known / of_nat (length known)))"

definition summarize_fields ::
  "metric_spec \<Rightarrow> metric_observation list \<Rightarrow> nat \<Rightarrow> metric_report" where
  "summarize_fields spec vs repeat =
     (let excluded = state_count Excluded vs;
          support = length vs - excluded;
          included = filter (\<lambda>v. mo_state v \<noteq> Excluded) vs;
          per_field = map (\<lambda>label. outcome_counts label
            (map snd (filter (\<lambda>e. Some (fst e) = label) (entries_of included)))) (ms_labels spec);
          totals = outcome_counts None (map snd (entries_of included));
          correct = count (\<lambda>v. mo_state v = Observed
            \<and> list_all (\<lambda>(_, out, _). correct_outcome out) (mo_fields v)) included;
          observed = state_count Observed included in
      \<lparr>mr_spec = spec, mr_support = support, mr_excluded = excluded, mr_observed = observed,
       mr_abstained = 0, mr_missing = state_count MissingValue vs,
       mr_skipped = state_count SkippedOwner vs, mr_errors = state_count ErrorState vs,
       mr_invalid = 0, mr_correct = correct, mr_accuracy = quotient correct support,
       mr_coverage = quotient observed support, mr_confusion = [], mr_per_label = [],
       mr_micro = no_rates, mr_macro = no_rates, mr_source_support = support div repeat,
       mr_source_excluded = excluded div repeat, mr_repeat = repeat, mr_per_field = per_field,
       mr_field_totals = Some totals, mr_field_accuracy = fc_accuracy totals,
       mr_macro_field_accuracy = mean_known (map fc_accuracy per_field)\<rparr>)"

definition label_counts_of :: "metric_observation list \<Rightarrow> label \<Rightarrow> label_counts" where
  "label_counts_of observed label = LabelCounts label
     (count (\<lambda>v. label \<in> set (mo_actual v) \<and> label \<in> set (mo_expected v)) observed)
     (count (\<lambda>v. label \<in> set (mo_actual v) \<and> label \<notin> set (mo_expected v)) observed)
     (count (\<lambda>v. label \<notin> set (mo_actual v) \<and> label \<in> set (mo_expected v)) observed)
     (count (\<lambda>v. label \<notin> set (mo_actual v) \<and> label \<notin> set (mo_expected v)) observed)"

text \<open>\<^verbatim>\<open>next(iter(...))\<close> of the singletons of a classification.\<close>

definition confusion_of :: "metric_spec \<Rightarrow> metric_observation list \<Rightarrow> nat list list" where
  "confusion_of spec observed =
     (if ms_kind spec = Classification
      then map (\<lambda>gold. map (\<lambda>pred. count (\<lambda>v. hd (mo_expected v) = gold \<and> hd (mo_actual v) = pred) observed)
             (ms_labels spec)) (ms_labels spec)
      else [])"

text \<open>The mean over the whole catalog, undefined when one label's rate is.\<close>

definition macro_rate :: "rat option list \<Rightarrow> rat option" where
  "macro_rate xs = (if None \<in> set xs then None
     else Some (sum_list (map the xs) / of_nat (length xs)))"

definition summarize_labels ::
  "metric_spec \<Rightarrow> metric_observation list \<Rightarrow> nat \<Rightarrow> metric_report" where
  "summarize_labels spec vs repeat =
     (let observed = filter (\<lambda>v. mo_state v = Observed) vs;
          excluded = state_count Excluded vs;
          support = length vs - excluded;
          correct = count (\<lambda>v. set (mo_actual v) = set (mo_expected v)) observed;
          per_label = map (label_counts_of observed) (ms_labels spec);
          micro = rates_of (sum_list (map lc_true_positive per_label))
                    (sum_list (map lc_false_positive per_label))
                    (sum_list (map lc_false_negative per_label));
          macro = \<lparr>rs_precision = macro_rate (map (rs_precision \<circ> lc_rates) per_label),
                   rs_recall = macro_rate (map (rs_recall \<circ> lc_rates) per_label),
                   rs_f1 = macro_rate (map (rs_f1 \<circ> lc_rates) per_label)\<rparr> in
      \<lparr>mr_spec = spec, mr_support = support, mr_excluded = excluded,
       mr_observed = length observed, mr_abstained = state_count Abstained vs,
       mr_missing = state_count MissingValue vs, mr_skipped = state_count SkippedOwner vs,
       mr_errors = state_count ErrorState vs, mr_invalid = state_count InvalidValue vs,
       mr_correct = correct, mr_accuracy = quotient correct support,
       mr_coverage = quotient (length observed) support, mr_confusion = confusion_of spec observed,
       mr_per_label = per_label, mr_micro = micro, mr_macro = macro,
       mr_source_support = support div repeat, mr_source_excluded = excluded div repeat,
       mr_repeat = repeat, mr_per_field = [], mr_field_totals = None, mr_field_accuracy = None,
       mr_macro_field_accuracy = None\<rparr>)"

text \<open>One column of observations per specification; the rows are results of \<^const>\<open>observe_metrics\<close>.\<close>

definition summarize_metric ::
  "metric_observation list list \<Rightarrow> nat \<Rightarrow> nat \<Rightarrow> metric_spec \<Rightarrow> metric_report" where
  "summarize_metric rows repeat index spec =
     (let vs = map (\<lambda>row. row ! index) rows in
      if ms_kind spec = Fields then summarize_fields spec vs repeat
      else summarize_labels spec vs repeat)"

definition summarize_metrics ::
  "metric_spec list \<Rightarrow> metric_observation list list \<Rightarrow> nat \<Rightarrow> metric_report list" where
  "summarize_metrics specs rows repeat =
     map (\<lambda>index. summarize_metric rows repeat index (specs ! index)) [0..<length specs]"

end
