(* ===== verification/MetricReports.thy ===== *)
theory MetricReports imports Metrics begin

text \<open>
  What the reports of \<^verbatim>\<open>evaluation/metrics.py\<close> mean: validated specifications never fail on an
  attempt of the suite, every attempt is counted once, the counts add up as the class
  documents, and the source counts do not depend on repetition.
\<close>

section \<open>Counting\<close>

lemma count_split: "count P xs = count (\<lambda>x. P x \<and> Q x) xs + count (\<lambda>x. P x \<and> \<not> Q x) xs"
  by (induction xs) auto

lemma sum_list_count: "distinct ls \<Longrightarrow> (\<Sum>l\<leftarrow>ls. if y = l then Suc (g l) else g l)
    = (if y \<in> set ls then 1 else 0) + (\<Sum>l\<leftarrow>ls. (g l :: nat))"
  by (induction ls) auto

lemma count_by_key:
  assumes "distinct ls" and "\<And>x. x \<in> set xs \<Longrightarrow> f x \<in> set ls"
  shows "(\<Sum>l\<leftarrow>ls. count (\<lambda>x. f x = l) xs) = length xs"
  using assms(2)
proof (induction xs)
  case Nil
  then show ?case by simp
next
  case (Cons x xs)
  have "(\<Sum>l\<leftarrow>ls. count (\<lambda>x. f x = l) (x # xs))
      = (\<Sum>l\<leftarrow>ls. if f x = l then Suc (count (\<lambda>x. f x = l) xs) else count (\<lambda>x. f x = l) xs)"
    by (rule arg_cong [of _ _ sum_list]) (simp cong: map_cong)
  also have "\<dots> = 1 + (\<Sum>l\<leftarrow>ls. count (\<lambda>x. f x = l) xs)"
    using sum_list_count [OF assms(1), of "f x"] Cons.prems by simp
  finally show ?case using Cons by simp
qed

lemma count_by_key_filtered:
  assumes "distinct ls" and "\<And>x. x \<in> set xs \<Longrightarrow> f x \<in> set ls"
  shows "(\<Sum>l\<leftarrow>ls. count (\<lambda>x. P x \<and> f x = l) xs) = count P xs"
proof -
  have "count (\<lambda>x. P x \<and> f x = l) xs = count (\<lambda>x. f x = l) (filter P xs)" for l
    by (simp add: conj_commute)
  then show ?thesis using count_by_key [OF assms(1), of "filter P xs" f] assms(2) by simp
qed

lemma state_counts:
  "length vs = state_count Excluded vs + state_count Observed vs + state_count Abstained vs
     + state_count MissingValue vs + state_count SkippedOwner vs + state_count ErrorState vs
     + state_count InvalidValue vs"
proof (induction vs)
  case Nil
  then show ?case by simp
next
  case (Cons v vs)
  then show ?case by (cases "mo_state v") simp_all
qed

lemma outcome_sum:
  "length xs = count (\<lambda>p. fst p = CorrectValue) xs + count (\<lambda>p. fst p = CorrectNull) xs
     + count (\<lambda>p. fst p = Hallucinated) xs + count (\<lambda>p. fst p = Missed) xs
     + count (\<lambda>p. fst p = WrongValue) xs + count (\<lambda>p. fst p = Unavailable) xs"
proof (induction xs)
  case Nil
  then show ?case by simp
next
  case (Cons p xs)
  then show ?case by (cases "fst p") simp_all
qed

section \<open>Observations of a validated metric\<close>

text \<open>What an observation of one attempt looks like, for each kind of metric.\<close>

definition entry_ok :: "string \<times> field_outcome \<times> bool \<Rightarrow> bool" where
  "entry_ok e = (case e of (_, outcome, null_gold) \<Rightarrow>
     (outcome \<in> {CorrectNull, Hallucinated} \<longrightarrow> null_gold)
     \<and> (outcome \<in> {CorrectValue, Missed, WrongValue} \<longrightarrow> \<not> null_gold))"

definition fields_ok :: "metric_spec \<Rightarrow> metric_observation \<Rightarrow> bool" where
  "fields_ok spec v \<longleftrightarrow> mo_state v \<in> {Excluded, SkippedOwner, ErrorState, MissingValue, Observed}
     \<and> (mo_state v = Excluded \<longleftrightarrow> mo_fields v = [])
     \<and> list_all entry_ok (mo_fields v) \<and> Some ` fst ` set (mo_fields v) \<subseteq> set (ms_labels spec)
     \<and> (mo_state v \<noteq> Observed \<longrightarrow> list_all (\<lambda>e. fst (snd e) = Unavailable) (mo_fields v))"

definition labels_ok :: "metric_spec \<Rightarrow> metric_observation \<Rightarrow> bool" where
  "labels_ok spec v \<longleftrightarrow> mo_fields v = [] \<and> (mo_state v = Observed \<longrightarrow>
     set (mo_expected v) \<subseteq> set (ms_labels spec) \<and> set (mo_actual v) \<subseteq> set (ms_labels spec)
     \<and> (ms_kind spec = Classification \<longrightarrow> length (mo_expected v) = 1 \<and> length (mo_actual v) = 1))"

definition observation_ok :: "metric_spec \<Rightarrow> metric_observation \<Rightarrow> bool" where
  "observation_ok spec v = (if ms_kind spec = Fields then fields_ok spec v else labels_ok spec v)"

text \<open>The attempts of the case that have no gold for the metric.\<close>

definition measured :: "metric_spec \<Rightarrow> eval_case \<Rightarrow> bool" where
  "measured spec c = (if ms_kind spec = Fields
     then \<exists>l. Some l \<in> set (ms_labels spec) \<and> field_checks spec l c \<noteq> []
     else matching spec c \<noteq> [])"

lemma Expectation_gold: "Expectation n p e c s each a = Inr x \<Longrightarrow> gold_ok (ex_comparison x) (ex_expected x)"
  by (auto simp: Expectation_def bindE_Inr_iff split: if_splits)

lemma labels_of_subset: "labels_of spec v = Some ls \<Longrightarrow> set ls \<subseteq> set (ms_labels spec)"
  by (auto simp: labels_of_def split: if_splits json.splits option.splits)

lemma labels_of_single:
  "labels_of spec v = Some ls \<Longrightarrow> ms_kind spec = Classification \<Longrightarrow> length ls = 1"
  by (auto simp: labels_of_def split: if_splits json.splits)

lemma labels_of_scalar:
  "labels_of spec v = Some ls \<Longrightarrow> ms_kind spec = Classification \<Longrightarrow>
   (\<exists>s. v = JStr s \<and> ls = [Some s]) \<or> (v = JNull \<and> ls = [None])"
  by (auto simp: labels_of_def split: if_splits json.splits)

lemma gold_labels_one_of:
  assumes "gold_labels spec check = Some ls" "ex_comparison check = OneOf"
    and "gold_ok (ex_comparison check) (ex_expected check)"
  shows "ms_kind spec = Classification \<and> (\<exists>l. primary_label check = Inr l \<and> l \<in> set (ms_labels spec))"
proof -
  from assms obtain xs lss where xs: "ex_expected check = JArr xs"
      "all_some (map (labels_of spec) xs) = Some lss" and k: "ms_kind spec = Classification"
    by (auto simp: gold_labels_def split: if_splits json.splits)
  from assms xs have "xs \<noteq> []" by (simp add: gold_ok_def)
  then obtain y ys where y: "xs = y # ys" by (cases xs) auto
  with xs obtain l where l: "labels_of spec y = Some l"
    by (auto split: option.splits simp: all_some.simps)
  from labels_of_scalar [OF l k] labels_of_subset [OF l] k xs y show ?thesis
    by (auto simp: primary_label_def)
qed

lemma observe_labels_ok:
  assumes "ms_kind spec \<noteq> Fields" "label_case_ok spec c"
    and gold: "\<And>e. e \<in> set (ec_expectations c) \<Longrightarrow> gold_ok (ex_comparison e) (ex_expected e)"
  shows "\<exists>v. observe_labels spec c document status = Inr v \<and> labels_ok spec v
    \<and> (mo_state v = Excluded \<longleftrightarrow> matching spec c = [])"
proof (cases "matching spec c")
  case Nil
  then show ?thesis by (simp add: observe_labels_def labels_ok_def MetricObservation_def)
next
  case (Cons check rest)
  with assms(2) obtain acceptable where rest: "rest = []" and acc: "gold_labels spec check = Some acceptable"
    by (auto simp: label_case_ok_def split: list.splits)
  have "check \<in> set (ec_expectations c)" 
  proof -
    have "check \<in> set (matching spec c)" using Cons by simp
    then show ?thesis by (simp add: matching_def)
  qed
  note ok = gold [OF this]
  obtain expected where e: "(if ex_comparison check = OneOf then mapR (\<lambda>l. [l]) (primary_label check)
        else Inr acceptable) = Inr expected"
    and sub: "set expected \<subseteq> set (ms_labels spec)"
    and one: "ms_kind spec = Classification \<Longrightarrow> length expected = 1"
  proof (cases "ex_comparison check = OneOf")
    case True
    with gold_labels_one_of [OF acc True ok] that show ?thesis by fastforce
  next
    case False
    then have "labels_of spec (ex_expected check) = Some acceptable" using acc by (simp add: gold_labels_def)
    with that False labels_of_subset labels_of_single show ?thesis by fastforce
  qed
  have val: "labels_ok spec (observe_value spec check acceptable expected obs)
      \<and> mo_state (observe_value spec check acceptable expected obs) \<noteq> Excluded" for obs
    using sub one labels_of_subset [of spec] labels_of_single [of spec]
    by (auto simp: observe_value_def labels_ok_def MetricObservation_def Let_def split: option.splits)
  have una: "labels_ok spec (MetricObservation st expected []) \<and> st \<noteq> Excluded"
    if "unavailable_state status os = Some st" for st os
    using that by (auto simp: unavailable_state_def labels_ok_def MetricObservation_def split: if_splits)
  show ?thesis
    using Cons acc e val una
    by (auto simp: observe_labels_def Let_def MetricObservation_def split: option.split)
qed

lemma field_gold_ok:
  assumes "None \<notin> set labels"
  shows "\<exists>gold. field_gold_from spec c labels = Inr gold
    \<and> (\<forall>(l, check) \<in> set gold. Some l \<in> set labels \<and> check \<in> set (field_checks spec l c))
    \<and> (gold = [] \<longleftrightarrow> (\<forall>l. Some l \<in> set labels \<longrightarrow> field_checks spec l c = []))"
  using assms
proof (induction labels)
  case Nil
  then show ?case by simp
next
  case (Cons x xs)
  from Cons.prems obtain l where x: "x = Some l" by (cases x) auto
  from Cons.prems have "None \<notin> set xs" by simp
  from Cons.IH [OF this] obtain gold where g: "field_gold_from spec c xs = Inr gold"
    "\<forall>(l, check) \<in> set gold. Some l \<in> set xs \<and> check \<in> set (field_checks spec l c)"
    "gold = [] \<longleftrightarrow> (\<forall>l. Some l \<in> set xs \<longrightarrow> field_checks spec l c = [])" by blast
  show ?case
  proof (cases "field_checks spec l c")
    case Nil
    with g x show ?thesis by auto
  next
    case (Cons check cs)
    with g x show ?thesis by fastforce
  qed
qed

lemma matches_builtin:
  assumes "gold_ok (ex_comparison e) (ex_expected e)" "ex_comparison e \<notin> {Custom, SourceSpan}"
  shows "\<exists>b. matches e actual case_input = Inr b"
  using assms
  by (auto simp: matches_def gold_ok_def Let_def split: gold_comparison.splits json.splits)

lemma field_entry_ok:
  assumes "gold_ok (ex_comparison check) (ex_expected check)" "ex_comparison check \<notin> {Custom, SourceSpan}"
  shows "\<exists>e. field_entry spec document owner status (l, check) = Inr e \<and> fst e = l \<and> entry_ok e
    \<and> (unavailable_state status owner \<noteq> None \<longrightarrow> fst (snd e) = Unavailable)"
proof -
  have "\<forall>actual. \<exists>b. matches check actual JNull = Inr b" using matches_builtin [OF assms] by blast
  then obtain b where "\<And>actual. matches check actual JNull = Inr (b actual)" by metis
  then show ?thesis
    by (auto simp: field_entry_def field_outcome_of_def entry_ok_def Let_def split: option.split)
qed

lemma observe_fields_ok:
  assumes "ms_kind spec = Fields" "None \<notin> set (ms_labels spec)" "field_case_ok spec c"
    and gold: "\<And>e. e \<in> set (ec_expectations c) \<Longrightarrow> gold_ok (ex_comparison e) (ex_expected e)"
  shows "\<exists>v. observe_fields spec c document status = Inr v \<and> fields_ok spec v
    \<and> (mo_state v = Excluded \<longleftrightarrow> (\<forall>l. Some l \<in> set (ms_labels spec) \<longrightarrow> field_checks spec l c = []))"
proof -
  obtain entries where g: "field_gold spec c = Inr entries"
    "\<forall>(l, check) \<in> set entries. Some l \<in> set (ms_labels spec) \<and> check \<in> set (field_checks spec l c)"
    "entries = [] \<longleftrightarrow> (\<forall>l. Some l \<in> set (ms_labels spec) \<longrightarrow> field_checks spec l c = [])"
    using field_gold_ok [OF assms(2), of spec c] unfolding field_gold_def by (elim exE conjE)
  show ?thesis
  proof (cases "entries = []")
    case True
    with g show ?thesis by (simp add: observe_fields_def fields_ok_def MetricObservation_def)
  next
    case False
    define owner where "owner = document_path_status (ms_path spec) document"
    have each: "\<exists>e. field_entry spec document owner status x = Inr e \<and> fst e = fst x \<and> entry_ok e
        \<and> (unavailable_state status owner \<noteq> None \<longrightarrow> fst (snd e) = Unavailable)" if "x \<in> set entries" for x
    proof -
      obtain l check where x: "x = (l, check)" by (cases x)
      with that g(2) have l: "Some l \<in> set (ms_labels spec)" "check \<in> set (field_checks spec l c)" by auto
      then have "ex_comparison check \<notin> {Custom, SourceSpan}"
        using assms(3) by (fastforce simp: field_case_ok_def list_all_iff Let_def)
      moreover have "check \<in> set (ec_expectations c)" using l(2) by (simp add: field_checks_def)
      ultimately show ?thesis using field_entry_ok gold x by (metis fst_conv)
    qed
    then obtain f where f: "\<And>x. x \<in> set entries \<Longrightarrow> field_entry spec document owner status x = Inr (f x)
        \<and> fst (f x) = fst x \<and> entry_ok (f x)
        \<and> (unavailable_state status owner \<noteq> None \<longrightarrow> fst (snd (f x)) = Unavailable)" by metis
    define out where "out = map f entries"
    have m: "mapE (field_entry spec document owner status) entries = Inr out"
      unfolding out_def by (rule mapE_all_Inr) (use f in blast)
    have "list_all entry_ok out" "Some ` fst ` set out \<subseteq> set (ms_labels spec)" "out \<noteq> []"
      "unavailable_state status owner \<noteq> None \<Longrightarrow> list_all (\<lambda>e. fst (snd e) = Unavailable) out"
      using f g(2) False by (auto simp: out_def list_all_iff)
    moreover have "st \<in> {SkippedOwner, ErrorState}" if "unavailable_state status owner = Some st" for st
      using that by (auto simp: unavailable_state_def split: if_splits)
    ultimately have "fields_ok spec ((MetricObservation (fields_state (unavailable_state status owner) out) [] [])
          \<lparr>mo_fields := out\<rparr>) \<and> fields_state (unavailable_state status owner) out \<noteq> Excluded"
      by (auto simp: fields_ok_def MetricObservation_def fields_state_def list_all_iff split: option.split)
    with g m False show ?thesis
      by (auto simp: observe_fields_def owner_def [symmetric] Let_def MetricObservation_def)
  qed
qed

lemma observe_metric_ok:
  assumes "metric_ok cases spec" "c \<in> set cases"
    and "\<And>e. e \<in> set (ec_expectations c) \<Longrightarrow> gold_ok (ex_comparison e) (ex_expected e)"
  shows "\<exists>v. observe_metric c document status spec = Inr v \<and> observation_ok spec v
    \<and> (mo_state v = Excluded \<longleftrightarrow> \<not> measured spec c)"
proof (cases "ms_kind spec = Fields")
  case True
  with assms observe_fields_ok [of spec c document status] show ?thesis
    by (auto simp: observe_metric_def metric_ok_def observation_ok_def measured_def list_all_iff)
next
  case False
  with assms observe_labels_ok [of spec c document status] show ?thesis
    by (auto simp: observe_metric_def metric_ok_def observation_ok_def measured_def list_all_iff)
qed


section \<open>Reports\<close>

text \<open>The hypotheses of an evaluation: constructed specifications and gold, validated together.\<close>

definition evaluated :: "eval_suite \<Rightarrow> metric_spec list \<Rightarrow> bool" where
  "evaluated suite specs \<longleftrightarrow> validate_metrics suite specs = Inr ()
     \<and> list_all (\<lambda>spec. MetricSpec spec = Inr spec) specs
     \<and> list_all (\<lambda>c. list_all (\<lambda>e. gold_ok (ex_comparison e) (ex_expected e)) (ec_expectations c))
         (es_cases suite)"

definition observed_rows ::
  "eval_suite \<Rightarrow> metric_spec list \<Rightarrow> (eval_case \<times> json \<times> string) list
   \<Rightarrow> metric_observation list list \<Rightarrow> bool" where
  "observed_rows suite specs attempts rows \<longleftrightarrow> list_all (\<lambda>a. fst a \<in> set (es_cases suite)) attempts
     \<and> mapE (\<lambda>(c, document, status). observe_metrics specs c document status) attempts = Inr rows"

lemma evaluated_spec:
  assumes "evaluated suite specs" "spec \<in> set specs"
  shows "metric_ok (es_cases suite) spec" "distinct (ms_labels spec)" "ms_labels spec \<noteq> []"
  using assms by (auto simp: evaluated_def validate_metrics_def MetricSpec_def list_all_iff split: if_splits)

lemma evaluated_gold:
  "evaluated suite specs \<Longrightarrow> c \<in> set (es_cases suite) \<Longrightarrow> e \<in> set (ec_expectations c)
   \<Longrightarrow> gold_ok (ex_comparison e) (ex_expected e)"
  by (auto simp: evaluated_def list_all_iff)

lemma list_all2_conj_left:
  "list_all2 P xs ys \<Longrightarrow> list_all Q xs \<Longrightarrow> list_all2 (\<lambda>x y. Q x \<and> P x y) xs ys"
  by (induction xs ys rule: list_all2_induct) simp_all

lemma list_all2_right: "list_all2 P xs ys \<Longrightarrow> y \<in> set ys \<Longrightarrow> \<exists>x \<in> set xs. P x y"
  by (induction xs ys rule: list_all2_induct) auto

lemma observed_column:
  assumes "evaluated suite specs" "observed_rows suite specs attempts rows" "i < length specs"
  shows "length rows = length attempts"
    and "list_all2 (\<lambda>a row. observation_ok (specs ! i) (row ! i)
      \<and> (mo_state (row ! i) = Excluded \<longleftrightarrow> \<not> measured (specs ! i) (fst a))) attempts rows"
proof -
  have rel: "list_all2 (\<lambda>a row. fst a \<in> set (es_cases suite)
      \<and> (case a of (c, document, status) \<Rightarrow> observe_metrics specs c document status) = Inr row) attempts rows"
  proof -
    have "list_all (\<lambda>a. fst a \<in> set (es_cases suite)) attempts"
      "list_all2 (\<lambda>a row. (case a of (c, document, status) \<Rightarrow> observe_metrics specs c document status) = Inr row)
        attempts rows"
      using assms(2) unfolding observed_rows_def mapE_Inr_iff by simp_all
    then show ?thesis by (rule list_all2_conj_left [rotated])
  qed
  show "length rows = length attempts" using list_all2_lengthD [OF rel] by simp
  from rel show "list_all2 (\<lambda>a row. observation_ok (specs ! i) (row ! i)
      \<and> (mo_state (row ! i) = Excluded \<longleftrightarrow> \<not> measured (specs ! i) (fst a))) attempts rows"
  proof (rule list_all2_mono)
    fix a row assume h: "fst a \<in> set (es_cases suite)
      \<and> (case a of (c, document, status) \<Rightarrow> observe_metrics specs c document status) = Inr row"
    obtain c document status where a: "a = (c, document, status)" by (cases a)
    from h a have "observe_metric c document status (specs ! i) = Inr (row ! i)"
      using assms(3) by (auto simp: observe_metrics_def mapE_Inr_iff list_all2_conv_all_nth)
    moreover have "metric_ok (es_cases suite) (specs ! i)" using evaluated_spec(1) assms(1,3) by simp
    ultimately show "observation_ok (specs ! i) (row ! i)
      \<and> (mo_state (row ! i) = Excluded \<longleftrightarrow> \<not> measured (specs ! i) (fst a))"
      using observe_metric_ok [of "es_cases suite" "specs ! i" c document status] h a evaluated_gold [OF assms(1)]
      by auto
  qed
qed

lemma label_report_sums:
  assumes ok: "\<And>v. v \<in> set vs \<Longrightarrow> labels_ok spec v" and d: "distinct (ms_labels spec)"
    and r: "r = summarize_labels spec vs repeat"
  shows "mr_support r + mr_excluded r = length vs"
    and "mr_observed r + mr_abstained r + mr_missing r + mr_skipped r + mr_errors r + mr_invalid r = mr_support r"
    and "mr_correct r \<le> mr_observed r"
    and "l \<in> set (mr_per_label r) \<Longrightarrow> lc_true_positive l + lc_false_positive l
      + lc_false_negative l + lc_true_negative l = mr_observed r"
    and "ms_kind spec = Classification \<Longrightarrow> sum_list (map sum_list (mr_confusion r)) = mr_observed r"
proof -
  let ?o = "filter (\<lambda>v. mo_state v = Observed) vs"
  note def = r summarize_labels_def Let_def
  show "mr_support r + mr_excluded r = length vs" using state_counts [of vs] by (simp add: def)
  show "mr_observed r + mr_abstained r + mr_missing r + mr_skipped r + mr_errors r + mr_invalid r = mr_support r"
    using state_counts [of vs] by (simp add: def)
  have "count (\<lambda>v. set (mo_actual v) = set (mo_expected v)) ?o \<le> length ?o" by (rule length_filter_le)
  then show "mr_correct r \<le> mr_observed r" by (simp add: def)
  show "lc_true_positive l + lc_false_positive l + lc_false_negative l + lc_true_negative l = mr_observed r"
    if "l \<in> set (mr_per_label r)"
  proof -
    from that obtain label where l: "l = label_counts_of ?o label" by (auto simp: def)
    let ?a = "\<lambda>v. label \<in> set (mo_actual v)" and ?e = "\<lambda>v. label \<in> set (mo_expected v)"
    have "length ?o = count (\<lambda>v. ?a v \<and> ?e v) ?o + count (\<lambda>v. ?a v \<and> \<not> ?e v) ?o
        + count (\<lambda>v. \<not> ?a v \<and> ?e v) ?o + count (\<lambda>v. \<not> ?a v \<and> \<not> ?e v) ?o"
      by (induction vs) auto
    then show ?thesis by (simp add: l label_counts_of_def LabelCounts_def def)
  qed
  show "sum_list (map sum_list (mr_confusion r)) = mr_observed r" if k: "ms_kind spec = Classification"
  proof -
    have mem: "hd (mo_expected v) \<in> set (ms_labels spec)" "hd (mo_actual v) \<in> set (ms_labels spec)"
      if "v \<in> set ?o" for v
      using ok [of v] that k by (auto simp: labels_ok_def length_Suc_conv)
    have "sum_list (map sum_list (mr_confusion r))
        = (\<Sum>gold\<leftarrow>ms_labels spec. \<Sum>pred\<leftarrow>ms_labels spec.
            count (\<lambda>v. hd (mo_expected v) = gold \<and> hd (mo_actual v) = pred) ?o)"
      by (simp add: def confusion_of_def k comp_def)
    also have "\<dots> = (\<Sum>gold\<leftarrow>ms_labels spec. count (\<lambda>v. hd (mo_expected v) = gold) ?o)"
    proof -
      have inner: "(\<Sum>pred\<leftarrow>ms_labels spec. count (\<lambda>v. hd (mo_expected v) = gold \<and> hd (mo_actual v) = pred) ?o)
          = count (\<lambda>v. hd (mo_expected v) = gold) ?o" for gold
        by (rule count_by_key_filtered [OF d]) (rule mem(2))
      show ?thesis unfolding inner ..
    qed
    also have "\<dots> = length ?o" by (rule count_by_key [OF d]) (rule mem(1))
    finally show ?thesis by (simp add: def)
  qed
qed

lemma count_map_snd: "count P (map snd xs) = count (\<lambda>x. P (snd x)) xs"
  by (induction xs) simp_all

lemma entries_by_label:
  assumes "distinct labels" "\<And>e. e \<in> set es \<Longrightarrow> Some (fst e) \<in> set labels"
  shows "(\<Sum>l\<leftarrow>labels. count P (map snd (filter (\<lambda>e. Some (fst e) = l) es))) = count P (map snd es)"
proof -
  have one: "count P (map snd (filter (\<lambda>e. Some (fst e) = l) es))
      = count (\<lambda>e. P (snd e) \<and> Some (fst e) = l) es" for l
    unfolding count_map_snd by (simp add: conj_commute)
  show ?thesis
    unfolding one unfolding count_map_snd by (rule count_by_key_filtered [OF assms])
qed

lemma count_mono: "(\<And>x. x \<in> set xs \<Longrightarrow> P x \<Longrightarrow> Q x) \<Longrightarrow> count P xs \<le> count Q xs"
  by (induction xs) (auto simp: le_SucI)

lemma count_disjoint: "(\<And>x. \<not> (P x \<and> Q x)) \<Longrightarrow> count P xs + count Q xs = count (\<lambda>x. P x \<or> Q x) xs"
  by (induction xs) auto

definition field_counts_ok :: "field_counts \<Rightarrow> bool" where
  "field_counts_ok f \<longleftrightarrow> fc_support f = fc_correct_value f + fc_correct_null f + fc_hallucinated f
       + fc_missed f + fc_wrong_value f + fc_unavailable f
     \<and> fc_correct_null f + fc_hallucinated f \<le> fc_null_support f
     \<and> fc_correct_value f + fc_missed f + fc_wrong_value f \<le> fc_value_support f"

lemma outcome_counts_ok:
  assumes "\<And>p. p \<in> set xs \<Longrightarrow> entry_ok (name, p)"
  shows "field_counts_ok (outcome_counts label xs)"
proof -
  have n: "fst p \<in> {CorrectNull, Hallucinated} \<Longrightarrow> snd p"
    "fst p \<in> {CorrectValue, Missed, WrongValue} \<Longrightarrow> \<not> snd p" if "p \<in> set xs" for p
    using assms [OF that] by (auto simp: entry_ok_def split: prod.splits)
  have "count (\<lambda>p. fst p = CorrectNull) xs + count (\<lambda>p. fst p = Hallucinated) xs
      = count (\<lambda>p. fst p = CorrectNull \<or> fst p = Hallucinated) xs"
    by (rule count_disjoint) auto
  also have "\<dots> \<le> count snd xs" by (rule count_mono) (use n(1) in auto)
  finally have null: "count (\<lambda>p. fst p = CorrectNull) xs + count (\<lambda>p. fst p = Hallucinated) xs
      \<le> count snd xs" .
  have "count (\<lambda>p. fst p = CorrectValue) xs + count (\<lambda>p. fst p = Missed) xs
      = count (\<lambda>p. fst p = CorrectValue \<or> fst p = Missed) xs"
    by (rule count_disjoint) auto
  moreover have "\<dots> + count (\<lambda>p. fst p = WrongValue) xs
      = count (\<lambda>p. (fst p = CorrectValue \<or> fst p = Missed) \<or> fst p = WrongValue) xs"
    by (rule count_disjoint) auto
  moreover have "\<dots> \<le> count (\<lambda>p. \<not> snd p) xs" by (rule count_mono) (use n(2) in auto)
  ultimately have val: "count (\<lambda>p. fst p = CorrectValue) xs + count (\<lambda>p. fst p = Missed) xs
      + count (\<lambda>p. fst p = WrongValue) xs \<le> count (\<lambda>p. \<not> snd p) xs" by linarith
  have "length xs = count (\<lambda>p. \<not> snd p) xs + count snd xs" by (induction xs) auto
  with null val outcome_sum [of xs] show ?thesis
    by (simp add: field_counts_ok_def outcome_counts_def FieldCounts_def Let_def)
qed

lemma field_report_sums:
  assumes ok: "\<And>v. v \<in> set vs \<Longrightarrow> fields_ok spec v" and d: "distinct (ms_labels spec)"
    and r: "r = summarize_fields spec vs repeat"
  shows "mr_support r + mr_excluded r = length vs"
    and "mr_observed r + mr_missing r + mr_skipped r + mr_errors r = mr_support r"
    and "mr_correct r \<le> mr_observed r"
    and "f \<in> set (mr_per_field r) \<Longrightarrow> field_counts_ok f"
    and "mr_field_totals r = Some t \<Longrightarrow> field_counts_ok t"
    and "mr_field_totals r = Some t \<Longrightarrow> fc_support t = sum_list (map fc_support (mr_per_field r))"
    and "mr_field_totals r = Some t \<Longrightarrow> fc_correct_value t = sum_list (map fc_correct_value (mr_per_field r))"
    and "mr_field_totals r = Some t \<Longrightarrow> fc_correct_null t = sum_list (map fc_correct_null (mr_per_field r))"
proof -
  note def = r summarize_fields_def Let_def
  have "state_count Abstained vs = 0" "state_count InvalidValue vs = 0"
    using ok unfolding fields_ok_def length_0_conv filter_empty_conv by force+
  moreover have same: "state_count Observed (filter (\<lambda>v. mo_state v \<noteq> Excluded) vs) = state_count Observed vs"
    by (induction vs) auto
  ultimately show "mr_support r + mr_excluded r = length vs"
    "mr_observed r + mr_missing r + mr_skipped r + mr_errors r = mr_support r"
    using state_counts [of vs] by (simp_all add: def)
  have "count (\<lambda>v. mo_state v = Observed \<and> list_all (\<lambda>(_, out, _). correct_outcome out) (mo_fields v))
      (filter (\<lambda>v. mo_state v \<noteq> Excluded) vs) \<le> state_count Observed (filter (\<lambda>v. mo_state v \<noteq> Excluded) vs)"
    by (rule count_mono) simp
  then show "mr_correct r \<le> mr_observed r" by (simp add: def)
  define es where "es = entries_of (filter (\<lambda>v. mo_state v \<noteq> Excluded) vs)"
  have es: "entry_ok e" "Some (fst e) \<in> set (ms_labels spec)" if "e \<in> set es" for e
    using that ok by (auto simp: es_def entries_of_def fields_ok_def list_all_iff image_subset_iff)
  have pair: "entry_ok (x, out, b)" if "(a, out, b) \<in> set es" for x a out b
    using es(1) [OF that] by (simp add: entry_ok_def)
  have counts: "field_counts_ok (outcome_counts l (map snd xs))" if "set xs \<subseteq> set es" for l xs
  proof (rule outcome_counts_ok [where name = "[]"])
    fix p assume "p \<in> set (map snd xs)"
    with that obtain a where "(a, p) \<in> set es" by auto
    then show "entry_ok ([], p)" using pair by (metis prod.collapse)
  qed
  show "field_counts_ok f" if f: "f \<in> set (mr_per_field r)"
  proof -
    from f obtain l where "f = outcome_counts l (map snd (filter (\<lambda>e. Some (fst e) = l) es))"
      by (auto simp: def es_def)
    then show ?thesis using counts by simp
  qed
  assume "mr_field_totals r = Some t"
  then have t: "t = outcome_counts None (map snd es)" by (simp add: def es_def)
  show "field_counts_ok t" unfolding t by (rule counts) simp
  have per: "mr_per_field r = map (\<lambda>l. outcome_counts l (map snd (filter (\<lambda>e. Some (fst e) = l) es))) (ms_labels spec)"
    by (simp add: def es_def)
  have by_label: "(\<Sum>l\<leftarrow>ms_labels spec. count P (map snd (filter (\<lambda>e. Some (fst e) = l) es)))
      = count P (map snd es)" for P by (rule entries_by_label [OF d es(2)])
  have length: "length xs = count (\<lambda>_. True) xs" for xs :: "(field_outcome \<times> bool) list" by simp
  have sup: "fc_support (outcome_counts l xs) = count (\<lambda>_. True) xs" for l xs
    by (induction xs) (auto simp: outcome_counts_def FieldCounts_def Let_def)
  have out: "fc_correct_value (outcome_counts l xs) = count (\<lambda>p. fst p = CorrectValue) xs"
    "fc_correct_null (outcome_counts l xs) = count (\<lambda>p. fst p = CorrectNull) xs" for l xs
    by (simp_all add: outcome_counts_def FieldCounts_def Let_def)
  show "fc_support t = sum_list (map fc_support (mr_per_field r))"
    "fc_correct_value t = sum_list (map fc_correct_value (mr_per_field r))"
    "fc_correct_null t = sum_list (map fc_correct_null (mr_per_field r))"
    unfolding t per map_map comp_def sup out by (rule by_label [symmetric])+
qed

lemma failed_not_observed:
  assumes "observe_metric c document status spec = Inr v" "status \<in> set FAILED_STATUSES"
  shows "mo_state v \<noteq> Observed"
proof -
  have u: "unavailable_state status owner \<noteq> None" "unavailable_state status owner \<noteq> Some Observed" for owner
    using assms(2) by (simp_all add: unavailable_state_def)
  show ?thesis
  proof (cases "ms_kind spec = Fields")
    case True
    have "fields_state (unavailable_state status owner) outs \<noteq> Observed" for owner outs
      using u [of owner] by (auto simp: fields_state_def split: option.split)
    with True assms(1) show ?thesis
      by (auto simp: observe_metric_def observe_fields_def MetricObservation_def bindE_Inr_iff
          mapR_Inr_iff Let_def split: if_splits)
  next
    case False
    have "mo_state (case unavailable_state status owner of Some st \<Rightarrow> MetricObservation st expected []
        | None \<Rightarrow> w) \<noteq> Observed" for owner expected w
      using u [of owner] by (auto simp: MetricObservation_def)
    with False assms(1) show ?thesis
      by (cases "matching spec c"; cases "gold_labels spec (hd (matching spec c))")
         (auto simp: observe_metric_def observe_labels_def MetricObservation_def bindE_Inr_iff Let_def)
  qed
qed

lemma complete_repetition:
  assumes len: "list_all (\<lambda>g. length (snd g) = repeat) groups"
  shows "count (\<lambda>a. P (fst a)) (concat (map (\<lambda>(c, runs). map (\<lambda>x. (c, x)) runs) groups))
    = repeat * count (\<lambda>g. P (fst g)) groups"
  using len
proof (induction groups)
  case Nil
  then show ?case by simp
next
  case (Cons g groups)
  have "count (\<lambda>a. P (fst a)) (map (\<lambda>x. (c, x)) runs) = (if P c then length runs else 0)" for c and runs :: "'b list"
    by (induction runs) simp_all
  with Cons show ?case by (cases g) simp
qed

lemma excluded_count:
  "list_all2 (\<lambda>a row. Q row \<and> (mo_state (row ! i) = Excluded \<longleftrightarrow> \<not> measured spec (fst a))) attempts rows
   \<Longrightarrow> state_count Excluded (map (\<lambda>row. row ! i) rows) = count (\<lambda>a. \<not> measured spec (fst a)) attempts"
  by (induction attempts rows rule: list_all2_induct) simp_all

section \<open>Properties\<close>

text \<open>
  C23: A validated set of metrics never fails on an attempt of one of the suite's cases,
  whatever result document and run status the attempt has: every metric yields an observation
  of its kind, an attempt is excluded exactly when the case has no gold for the metric, and a
  failed, cancelled or errored run is never counted as observed.
\<close>

theorem metrics_observe:
  assumes "evaluated suite specs" and "c \<in> set (es_cases suite)"
  shows "\<exists>row. observe_metrics specs c document status = Inr row \<and>
    list_all2 (\<lambda>spec v. observation_ok spec v \<and> (mo_state v = Excluded \<longleftrightarrow> \<not> measured spec c)
      \<and> (status \<in> set FAILED_STATUSES \<longrightarrow> mo_state v \<noteq> Observed)) specs row"
proof -
  have "\<exists>v. observe_metric c document status spec = Inr v \<and> observation_ok spec v
      \<and> (mo_state v = Excluded \<longleftrightarrow> \<not> measured spec c)" if "spec \<in> set specs" for spec
    using observe_metric_ok evaluated_spec(1) evaluated_gold that assms by metis
  then obtain f where f: "\<And>spec. spec \<in> set specs \<Longrightarrow> observe_metric c document status spec = Inr (f spec)
      \<and> observation_ok spec (f spec) \<and> (mo_state (f spec) = Excluded \<longleftrightarrow> \<not> measured spec c)" by metis
  have "observe_metrics specs c document status = Inr (map f specs)"
    unfolding observe_metrics_def by (rule mapE_all_Inr) (use f in blast)
  moreover have "list_all2 (\<lambda>spec v. observation_ok spec v \<and> (mo_state v = Excluded \<longleftrightarrow> \<not> measured spec c)
      \<and> (status \<in> set FAILED_STATUSES \<longrightarrow> mo_state v \<noteq> Observed)) specs (map f specs)"
    unfolding list.rel_map by (rule list.rel_refl_strong) (use f failed_not_observed in blast)
  ultimately show ?thesis by blast
qed

theorem metrics_observe_witness:
  "let spec = \<lparr>ms_name = ''m'', ms_path = ''/payload'', ms_kind = Classification,
         ms_labels = [Some ''a''], ms_each = None, ms_expectation = None\<rparr>;
       gold = \<lparr>ex_name = ''e'', ex_path = ''/payload'', ex_expected = JStr ''a'', ex_comparison = Exact,
         ex_scorer = None, ex_each = None, ex_absent_as_null = False\<rparr>;
       c = \<lparr>ec_id = ''c'', ec_input = \<lparr>en_payload = JNull, en_metadata = []\<rparr>, ec_expectations = [gold]\<rparr> in
   \<exists>row. observe_metrics [spec] c (JArr []) ''failed'' = Inr row"
proof -
  define spec where "spec = \<lparr>ms_name = ''m'', ms_path = ''/payload'', ms_kind = Classification,
    ms_labels = [Some ''a''], ms_each = None, ms_expectation = None\<rparr>"
  define gold where "gold = \<lparr>ex_name = ''e'', ex_path = ''/payload'', ex_expected = JStr ''a'',
    ex_comparison = Exact, ex_scorer = None, ex_each = None, ex_absent_as_null = False\<rparr>"
  define c where "c = \<lparr>ec_id = ''c'', ec_input = \<lparr>en_payload = JNull, en_metadata = []\<rparr>,
    ec_expectations = [gold]\<rparr>"
  define suite where "suite = \<lparr>es_name = ''s'', es_revision = ''1'', es_cases = [c]\<rparr>"
  have e: "evaluated suite [spec]" unfolding spec_def gold_def c_def suite_def by code_simp
  have "c \<in> set (es_cases suite)" by (simp add: suite_def)
  from metrics_observe [OF e this] show ?thesis
    unfolding spec_def [symmetric] gold_def [symmetric] Let_def c_def [symmetric] by blast
qed

text \<open>
  C24: In the report of a classification or multilabel metric every attempt is counted once:
  support and excluded make up the attempts, the six states make up the support, the correct
  ones are observed, the four counts of a label make up the observed attempts, and so does
  the confusion matrix of a classification.
\<close>

theorem label_report_adds_up:
  assumes "evaluated suite specs" and "observed_rows suite specs attempts rows"
    and "i < length specs" and "ms_kind (specs ! i) \<noteq> Fields"
    and "r = summarize_metrics specs rows repeat ! i"
  shows "mr_support r + mr_excluded r = length attempts
    \<and> mr_observed r + mr_abstained r + mr_missing r + mr_skipped r + mr_errors r + mr_invalid r
      = mr_support r
    \<and> mr_correct r \<le> mr_observed r
    \<and> (\<forall>l \<in> set (mr_per_label r). lc_true_positive l + lc_false_positive l
      + lc_false_negative l + lc_true_negative l = mr_observed r)
    \<and> (ms_kind (specs ! i) = Classification \<longrightarrow> sum_list (map sum_list (mr_confusion r)) = mr_observed r)"
proof -
  let ?vs = "map (\<lambda>row. row ! i) rows"
  have r: "r = summarize_labels (specs ! i) ?vs repeat"
    using assms(3-5) by (simp add: summarize_metrics_def summarize_metric_def)
  note col = observed_column [OF assms(1-3)]
  have ok: "labels_ok (specs ! i) v" if "v \<in> set ?vs" for v
  proof -
    from that obtain row where "row \<in> set rows" "v = row ! i" by auto
    with list_all2_right [OF col(2)] show ?thesis using assms(4) by (auto simp: observation_ok_def)
  qed
  note sums = label_report_sums [OF ok evaluated_spec(2) [OF assms(1) nth_mem [OF assms(3)]] r]
  show ?thesis using sums col(1) by auto
qed

theorem label_report_adds_up_witness:
  "let spec = \<lparr>ms_name = ''m'', ms_path = ''/payload'', ms_kind = Classification,
         ms_labels = [Some ''a'', Some ''b''], ms_each = None, ms_expectation = None\<rparr>;
       gold = \<lparr>ex_name = ''e'', ex_path = ''/payload'', ex_expected = JStr ''a'', ex_comparison = Exact,
         ex_scorer = None, ex_each = None, ex_absent_as_null = False\<rparr>;
       c = \<lparr>ec_id = ''c'', ec_input = \<lparr>en_payload = JNull, en_metadata = []\<rparr>, ec_expectations = [gold]\<rparr>;
       attempts = [(c, JObj [(''payload'', JStr ''b'')], ''completed''), (c, JNull, ''error'')];
       rows = [[MetricObservation Observed [Some ''a''] [Some ''b'']], [MetricObservation ErrorState [Some ''a''] []]];
       r = summarize_metrics [spec] rows 2 ! 0 in
   mr_support r + mr_excluded r = length attempts \<and> mr_observed r = 1
   \<and> sum_list (map sum_list (mr_confusion r)) = mr_observed r"
proof -
  define spec where "spec = \<lparr>ms_name = ''m'', ms_path = ''/payload'', ms_kind = Classification,
    ms_labels = [Some ''a'', Some ''b''], ms_each = None, ms_expectation = None\<rparr>"
  define gold where "gold = \<lparr>ex_name = ''e'', ex_path = ''/payload'', ex_expected = JStr ''a'',
    ex_comparison = Exact, ex_scorer = None, ex_each = None, ex_absent_as_null = False\<rparr>"
  define c where "c = \<lparr>ec_id = ''c'', ec_input = \<lparr>en_payload = JNull, en_metadata = []\<rparr>,
    ec_expectations = [gold]\<rparr>"
  define attempts where "attempts = [(c, JObj [(''payload'', JStr ''b'')], ''completed''), (c, JNull, ''error'')]"
  define rows where "rows = [[MetricObservation Observed [Some ''a''] [Some ''b'']],
    [MetricObservation ErrorState [Some ''a''] []]]"
  define suite where "suite = \<lparr>es_name = ''s'', es_revision = ''1'', es_cases = [c]\<rparr>"
  note defs = spec_def gold_def c_def attempts_def rows_def suite_def
  have e: "evaluated suite [spec]" unfolding defs by code_simp
  have o: "observed_rows suite [spec] attempts rows" unfolding defs by code_simp
  have n: "mr_observed (summarize_metrics [spec] rows 2 ! 0) = 1" unfolding defs by code_simp
  have k: "ms_kind ([spec] ! 0) = Classification" by (simp add: spec_def)
  show ?thesis
    using label_report_adds_up [OF e o, of 0 "summarize_metrics [spec] rows 2 ! 0" 2] n k
    unfolding defs [symmetric] Let_def by simp
qed



text \<open>
  C26: When every case of the suite was attempted the same number of times, the source counts of a report
  are the cases with and without gold for the metric: the floor division is exact, and
  repetition changes no source count.
\<close>

theorem source_counts_exact:
  assumes "evaluated suite specs" and "observed_rows suite specs attempts rows"
    and "i < length specs" and "r = summarize_metrics specs rows repeat ! i"
    and "attempts = concat (map (\<lambda>(c, runs). map (\<lambda>x. (c, x)) runs) groups)"
    and "map fst groups = es_cases suite" and "list_all (\<lambda>g. length (snd g) = repeat) groups"
    and "0 < repeat"
  shows "mr_source_support r = count (measured (specs ! i)) (es_cases suite)
    \<and> mr_source_excluded r = count (\<lambda>c. \<not> measured (specs ! i) c) (es_cases suite)"
proof -
  let ?vs = "map (\<lambda>row. row ! i) rows" and ?m = "measured (specs ! i)"
  note col = observed_column [OF assms(1-3)]
  have groups: "count (\<lambda>g. P (fst g)) groups = count P (es_cases suite)" for P
    unfolding assms(6) [symmetric] by (induction groups) simp_all
  have n: "count (\<lambda>a. P (fst a)) attempts = repeat * count P (es_cases suite)" for P
    unfolding assms(5) using complete_repetition [OF assms(7), of P] groups [of P] by simp
  have ex: "state_count Excluded ?vs = repeat * count (\<lambda>c. \<not> ?m c) (es_cases suite)"
    using excluded_count [OF col(2)] n by simp
  have "length ?vs = repeat * length (es_cases suite)" using col(1) n [of "\<lambda>_. True"] by simp
  also have "length (es_cases suite) = count ?m (es_cases suite) + count (\<lambda>c. \<not> ?m c) (es_cases suite)"
    by (rule sum_length_filter_compl [symmetric])
  finally have sup: "length ?vs - state_count Excluded ?vs = repeat * count ?m (es_cases suite)"
    using ex by (simp add: distrib_left)
  have "r = (if ms_kind (specs ! i) = Fields then summarize_fields (specs ! i) ?vs repeat
      else summarize_labels (specs ! i) ?vs repeat)"
    using assms(3,4) by (simp add: summarize_metrics_def summarize_metric_def)
  then have "mr_source_support r = (length ?vs - state_count Excluded ?vs) div repeat"
    "mr_source_excluded r = state_count Excluded ?vs div repeat"
    unfolding summarize_fields_def summarize_labels_def Let_def by (simp_all split: if_splits)
  with ex sup assms(8) show ?thesis by simp
qed

theorem source_counts_exact_witness:
  "let spec = \<lparr>ms_name = ''m'', ms_path = ''/payload'', ms_kind = Multilabel,
         ms_labels = [Some ''a''], ms_each = None, ms_expectation = None\<rparr>;
       rows = [[MetricObservation MissingValue [Some ''a''] []], [MetricObservation MissingValue [Some ''a''] []],
               [MetricObservation Excluded [] []], [MetricObservation Excluded [] []]];
       r = summarize_metrics [spec] rows 2 ! 0 in
   mr_source_support r = 1 \<and> mr_source_excluded r = 1"
proof -
  define spec where "spec = \<lparr>ms_name = ''m'', ms_path = ''/payload'', ms_kind = Multilabel,
    ms_labels = [Some ''a''], ms_each = None, ms_expectation = None\<rparr>"
  define gold where "gold = (\<lambda>path. \<lparr>ex_name = ''x'', ex_path = path, ex_expected = JArr [JStr ''a''],
    ex_comparison = Exact, ex_scorer = None, ex_each = None, ex_absent_as_null = False\<rparr>)"
  define c where "c = (\<lambda>cid path. \<lparr>ec_id = cid, ec_input = \<lparr>en_payload = JNull, en_metadata = []\<rparr>,
    ec_expectations = [gold path]\<rparr>)"
  define runs where "runs = [(JObj [], ''completed''), (JObj [], ''completed'')]"
  define groups where "groups = [(c ''1'' ''/payload'', runs), (c ''2'' ''/status'', runs)]"
  define attempts where "attempts = concat (map (\<lambda>(c, runs). map (\<lambda>x. (c, x)) runs) groups)"
  define rows where "rows = [[MetricObservation MissingValue [Some ''a''] []],
    [MetricObservation MissingValue [Some ''a''] []], [MetricObservation Excluded [] []], [MetricObservation Excluded [] []]]"
  define suite where "suite = \<lparr>es_name = ''s'', es_revision = ''1'', es_cases = map fst groups\<rparr>"
  note defs = spec_def gold_def c_def runs_def groups_def attempts_def rows_def suite_def
  have e: "evaluated suite [spec]" unfolding defs by code_simp
  have o: "observed_rows suite [spec] attempts rows" unfolding defs by code_simp
  have m: "count (measured ([spec] ! 0)) (es_cases suite) = 1"
    "count (\<lambda>c. \<not> measured ([spec] ! 0) c) (es_cases suite) = 1"
    by (simp_all add: defs measured_def matching_def)
  have g: "map fst groups = es_cases suite" "list_all (\<lambda>g. length (snd g) = 2) groups"
    by (simp_all add: defs)
  show ?thesis
    using source_counts_exact [OF e o, of 0 "summarize_metrics [spec] rows 2 ! 0" 2, OF _ refl attempts_def g] m
    unfolding spec_def [symmetric] rows_def [symmetric] Let_def by simp
qed

end
