(* ===== verification/Owners.thy ===== *)
theory Owners imports Metrics "HOL-Library.Sublist" begin

text \<open>
  \<^verbatim>\<open>evaluation/records.py\<close>: the invocations of a public result, indexed by pointer, and the
  record that owns a pointer. The models of \<^verbatim>\<open>contracts/execution.py\<close> appear with the members the
  evaluation reads. Their validators make a step marked as a collection carry a ledger where
  another step carries a business value, so the two are constructors, and allow one ledger, the
  partial one of a failed step (\<^term>\<open>True\<close>) or the result.
\<close>

section \<open>Results\<close>

text \<open>A cost is the decimal number its text prints.\<close>

record public_usage =
  pu_model_requests :: nat
  pu_tool_calls :: nat
  pu_output_retries :: nat
  pu_input_tokens :: "nat option"
  pu_output_tokens :: "nat option"
  pu_cache_read :: "nat option"
  pu_cache_write :: "nat option"
  pu_reasoning :: "nat option"
  pu_cost :: "rat option"
  pu_currency :: "string option"

record record_info =
  ri_status :: string
  ri_elapsed :: "rat option"
  ri_usage :: "public_usage option"
  ri_error :: "(error_code \<times> string option) option"

text \<open>A child of a ledger names its flow; the name of a root flow is its key.\<close>

datatype flow_result = FlowResult
    (fl_flow: string) (fl_info: record_info) (fl_result: "json option")
    (fl_steps: "(string \<times> step_result) list")
  and step_result =
    OperationResult (st_info: record_info) (st_result: "json option") (st_origin: "string option")
  | CollectionResult (st_info: record_info) (st_ledger: "(bool \<times> flow_result list) option")

record execution_result =
  xr_payload :: json
  xr_flows :: "(string \<times> flow_result) list"
  xr_info :: record_info
  xr_workflow :: string
  xr_revision :: string

record flow_observation =
  fo_name :: string
  fo_path :: string
  fo_record :: flow_result

record step_observation =
  so_flow :: string
  so_name :: string
  so_path :: string
  so_record :: step_result

type_synonym observations = "flow_observation list \<times> step_observation list"

definition merge :: "observations \<Rightarrow> observations \<Rightarrow> observations" where
  "merge a b = (fst a @ fst b, snd a @ snd b)"

definition ledger_field :: "bool \<Rightarrow> string" where
  "ledger_field partial = (if partial then ''partial_result'' else ''result'')"

fun ledger_of :: "step_result \<Rightarrow> (string \<times> flow_result list) option" where
  "ledger_of (OperationResult _ _ _) = None"
| "ledger_of (CollectionResult _ ledger) =
     map_option (\<lambda>(partial, items). (ledger_field partial, items)) ledger"

lemma ledger_size [termination_simp]:
  "ledger_of s = Some (field, items) \<Longrightarrow> size_list size items < size s"
  by (cases s) (auto split: option.splits)

fun visit_flow :: "string \<Rightarrow> string \<Rightarrow> flow_result \<Rightarrow> observations"
  and visit_steps :: "string \<Rightarrow> string \<Rightarrow> (string \<times> step_result) list \<Rightarrow> observations"
  and visit_children :: "string \<Rightarrow> nat \<Rightarrow> flow_result list \<Rightarrow> observations"
where
  "visit_flow path name (FlowResult flow info result steps) =
     merge ([\<lparr>fo_name = name, fo_path = path, fo_record = FlowResult flow info result steps\<rparr>], [])
       (visit_steps path name steps)"
| "visit_steps path name [] = ([], [])"
| "visit_steps path name ((step_name, step) # rest) =
     (let step_path = path @ ''/steps/'' @ escape_token step_name in
      merge ([], [\<lparr>so_flow = name, so_name = step_name, so_path = step_path, so_record = step\<rparr>])
        (merge (case ledger_of step of
             None \<Rightarrow> ([], [])
           | Some (field, items) \<Rightarrow> visit_children (step_path @ ''/'' @ field @ ''/items/'') 0 items)
          (visit_steps path name rest)))"
| "visit_children base i [] = ([], [])"
| "visit_children base i (child # rest) =
     merge (visit_flow (base @ nat_text i) (fl_flow child) child)
       (visit_children base (Suc i) rest)"


text \<open>The root flows, each under its name.\<close>

fun visit_roots :: "(string \<times> flow_result) list \<Rightarrow> observations" where
  "visit_roots [] = ([], [])"
| "visit_roots ((name, flow) # rest) =
     merge (visit_flow (''/flows/'' @ escape_token name) name flow) (visit_roots rest)"

definition execution_records :: "execution_result \<Rightarrow> observations" where
  "execution_records result = visit_roots (xr_flows result)"

datatype owner = FlowOwner flow_observation | StepOwner step_observation

fun owner_path :: "owner \<Rightarrow> string" where
  "owner_path (FlowOwner f) = fo_path f"
| "owner_path (StepOwner s) = so_path s"

fun owner_status :: "owner \<Rightarrow> string" where
  "owner_status (FlowOwner f) = ri_status (fl_info (fo_record f))"
| "owner_status (StepOwner s) = ri_status (st_info (so_record s))"

text \<open>\<^verbatim>\<open>max\<close> with a key: the first of the longest.\<close>

fun longest :: "owner list \<Rightarrow> owner option" where
  "longest [] = None"
| "longest (x # xs) = (case longest xs of
     None \<Rightarrow> Some x
   | Some y \<Rightarrow> if length (owner_path y) > length (owner_path x) then Some y else Some x)"

definition owns :: "string \<Rightarrow> string \<Rightarrow> bool" where
  "owns owner path \<longleftrightarrow> path = owner \<or> take (Suc (length owner)) path = owner @ ''/''"

definition path_observation :: "string \<Rightarrow> observations \<Rightarrow> owner option" where
  "path_observation path obs =
     longest (filter (\<lambda>r. owns (owner_path r) path)
       (map FlowOwner (fst obs) @ map StepOwner (snd obs)))"

section \<open>The dump of a result\<close>

text \<open>
  What the serialization of the models (a third-party call) has to do for the evaluation: each
  record becomes an object with its status, its steps under their names, the marker of a
  collection and its ledgers. Other members are free.
\<close>

fun dumps_flow :: "flow_result \<Rightarrow> json \<Rightarrow> bool"
  and dumps_steps :: "(string \<times> step_result) list \<Rightarrow> jobj \<Rightarrow> bool"
  and dumps_step :: "step_result \<Rightarrow> json \<Rightarrow> bool"
  and dumps_children :: "flow_result list \<Rightarrow> json list \<Rightarrow> bool"
where
  "dumps_flow (FlowResult flow info result steps) v = (case v of
     JObj f \<Rightarrow> get f ''status'' = Some (JStr (ri_status info))
       \<and> (case get f ''steps'' of Some (JObj ss) \<Rightarrow> dumps_steps steps ss | _ \<Rightarrow> False)
   | _ \<Rightarrow> False)"
| "dumps_steps [] ss = (ss = [])"
| "dumps_steps ((name, step) # rest) ss = (case ss of
     (key, v) # ss' \<Rightarrow> key = name \<and> dumps_step step v \<and> dumps_steps rest ss' | [] \<Rightarrow> False)"
| "dumps_step (OperationResult info result origin) v = (case v of
     JObj s \<Rightarrow> get s ''status'' = Some (JStr (ri_status info)) \<and> get s ''kind'' = None
   | _ \<Rightarrow> False)"
| "dumps_step (CollectionResult info ledger) v = (case v of
     JObj s \<Rightarrow> get s ''status'' = Some (JStr (ri_status info))
       \<and> get s ''kind'' = Some (JStr ''flow_collection'')
       \<and> (case ledger of
            None \<Rightarrow> get s ''result'' = None \<and> get s ''partial_result'' = None
          | Some (partial, items) \<Rightarrow> get s (ledger_field (\<not> partial)) = None
              \<and> (case get s (ledger_field partial) of
                   Some (JObj l) \<Rightarrow> (case get l ''items'' of
                       Some (JArr xs) \<Rightarrow> dumps_children items xs | _ \<Rightarrow> False)
                 | _ \<Rightarrow> False))
   | _ \<Rightarrow> False)"
| "dumps_children [] xs = (xs = [])"
| "dumps_children (c # cs) xs =
     (case xs of v # vs \<Rightarrow> dumps_flow c v \<and> dumps_children cs vs | [] \<Rightarrow> False)"

fun dumps_roots :: "(string \<times> flow_result) list \<Rightarrow> jobj \<Rightarrow> bool" where
  "dumps_roots [] roots = (roots = [])"
| "dumps_roots ((name, flow) # rest) roots =
     (case roots of (key, v) # vs \<Rightarrow> key = name \<and> dumps_flow flow v \<and> dumps_roots rest vs
      | [] \<Rightarrow> False)"

definition dumps_result :: "execution_result \<Rightarrow> json \<Rightarrow> bool" where
  "dumps_result result document = (case document of
     JObj members \<Rightarrow> (case get members ''flows'' of
         Some (JObj roots) \<Rightarrow> dumps_roots (xr_flows result) roots | _ \<Rightarrow> False)
   | _ \<Rightarrow> False)"


text \<open>What the contracts guarantee: steps under distinct names, at most 1024 children.\<close>

fun flow_ok :: "flow_result \<Rightarrow> bool"
  and step_ok :: "step_result \<Rightarrow> bool"
where
  "flow_ok (FlowResult flow info result steps) =
     (dict_wf steps \<and> list_all (\<lambda>p. step_ok (snd p)) steps)"
| "step_ok (OperationResult info result origin) = True"
| "step_ok (CollectionResult info ledger) = (case ledger of None \<Rightarrow> True
     | Some (partial, items) \<Rightarrow> length items \<le> 1024 \<and> list_all flow_ok items)"

section \<open>Which record owns a path\<close>

text \<open>The records below a flow, by the tokens of their pointer relative to the flow.\<close>

inductive owned :: "flow_result \<Rightarrow> string list \<Rightarrow> string \<Rightarrow> bool" where
  own_self: "owned f [] (ri_status (fl_info f))"
| own_step: "(name, step) \<in> set (fl_steps f) \<Longrightarrow> owned f [''steps'', name] (ri_status (st_info step))"
| own_child: "(name, step) \<in> set (fl_steps f) \<Longrightarrow> ledger_of step = Some (field, items) \<Longrightarrow>
    i < length items \<Longrightarrow> owned (items ! i) ts s \<Longrightarrow>
    owned f (''steps'' # name # field # ''items'' # nat_text i # ts) s"

inductive_cases owned_root: "owned f [] s"

text \<open>The record with the longest path that is a prefix of the tokens, with its status.\<close>

definition innermost :: "(string list \<Rightarrow> string \<Rightarrow> bool) \<Rightarrow> string list \<Rightarrow> string \<Rightarrow> bool" where
  "innermost E ts s \<longleftrightarrow> (\<exists>rs. E rs s \<and> prefix rs ts
     \<and> (\<forall>rs' s'. E rs' s' \<longrightarrow> prefix rs' ts \<longrightarrow> length rs' < length rs \<or> (rs' = rs \<and> s' = s)))"

lemma innermostI:
  "E rs s \<Longrightarrow> prefix rs ts \<Longrightarrow>
   (\<And>rs' s'. E rs' s' \<Longrightarrow> prefix rs' ts \<Longrightarrow> length rs' < length rs \<or> (rs' = rs \<and> s' = s)) \<Longrightarrow>
   innermost E ts s"
  unfolding innermost_def by blast

lemma nat_text_inj [simp]: "nat_text i = nat_text j \<longleftrightarrow> i = j"
  by (metis parse_nat_text)

lemma digits_rev_digits: "list_all ascii_digit (digits_rev n) \<and> digits_rev n \<noteq> []"
proof (induction n rule: digits_rev.induct)
  case (1 n)
  have "of_char (char_of (48 + n mod 10) :: char) = 48 + n mod 10" by simp
  then have "ascii_digit (char_of (48 + n mod 10))" unfolding ascii_digit_def by simp
  with 1 show ?case by (subst (1 2) digits_rev.simps) simp
qed

lemma digits_rev_last: "0 < n \<Longrightarrow> last (digits_rev n) \<noteq> CHR ''0''"
proof (induction n rule: digits_rev.induct)
  case (1 n)
  show ?case
  proof (cases "n < 10")
    case True
    have "char_of (48 + n) \<noteq> CHR ''0''"
    proof
      assume "char_of (48 + n) = CHR ''0''"
      then have "digit_value (char_of (48 + n)) = digit_value (CHR ''0'')" by simp
      with True 1 show False by (simp add: digit_char_value) (simp add: digit_value_def)
    qed
    with True show ?thesis by (subst digits_rev.simps) simp
  next
    case False
    with 1 digits_rev_digits [of "n div 10"] show ?thesis by (subst digits_rev.simps) simp
  qed
qed

lemma index_nat_text: "index_ok (nat_text n)"
proof (cases "n = 0")
  case True
  then show ?thesis by (simp add: nat_text_def digits_rev.simps index_ok_def char_of_48)
next
  case False
  obtain c cs where c: "nat_text n = c # cs"
    using digits_rev_digits [of n] by (cases "nat_text n") (simp_all add: nat_text_def)
  then have "c = last (digits_rev n)" by (metis hd_rev list.sel(1) nat_text_def)
  with False digits_rev_last have "c \<noteq> CHR ''0''" by simp
  moreover have "list_all ascii_digit (nat_text n)"
    using digits_rev_digits [of n] by (simp add: nat_text_def)
  ultimately show ?thesis using c by (simp add: index_ok_def)
qed

lemma item_index_iff:
  assumes "n \<le> 1024"
  shows "item_index token n = Some i \<longleftrightarrow> token = nat_text i \<and> i < n"
proof
  assume "item_index token n = Some i"
  then have i: "i = parse_nat token" "parse_nat token < n" and "index_ok token"
    by (auto simp: item_index_def index_ok_def list_all_iff split: if_splits list.splits)
  with index_text show "token = nat_text i \<and> i < n" by metis
next
  assume t: "token = nat_text i \<and> i < n"
  have "length (nat_text i) \<le> length (nat_text 1024)"
    using t assms digits_rev_length_mono [of i 1024] by (simp add: nat_text_def)
  also have "length (nat_text 1024) = 4" by code_simp
  finally have "length token \<le> 4" using t by simp
  moreover have "index_ok token" using t index_nat_text by simp
  ultimately show "item_index token n = Some i"
    using t by (auto simp: item_index_def index_ok_def ascii_digit_def split: list.splits)
qed

lemma dumps_steps_get:
  "dumps_steps steps ss \<Longrightarrow> (case get steps name of None \<Rightarrow> get ss name = None
     | Some step \<Rightarrow> (\<exists>v. get ss name = Some v \<and> dumps_step step v))"
proof (induction steps arbitrary: ss)
  case Nil
  then show ?case by simp
next
  case (Cons p steps)
  obtain n step where p: "p = (n, step)" by (cases p)
  with Cons.prems obtain v rest where "ss = (n, v) # rest" "dumps_step step v" "dumps_steps steps rest"
    by (cases ss) auto
  with Cons.IH [of rest] p show ?case by (cases "get steps name") auto
qed

lemma dumps_children_nth:
  "dumps_children items xs \<Longrightarrow> length xs = length items \<and> (\<forall>i < length items. dumps_flow (items ! i) (xs ! i))"
proof (induction items arbitrary: xs)
  case Nil
  then show ?case by simp
next
  case (Cons c cs)
  then obtain v vs where "xs = v # vs" "dumps_flow c v" "dumps_children cs vs"
    by (auto split: list.splits)
  with Cons.IH show ?case by (auto simp: nth_Cons split: nat.splits)
qed

lemma step_mem: "flow_ok f \<Longrightarrow> (name, step) \<in> set (fl_steps f) \<longleftrightarrow> get (fl_steps f) name = Some step"
  by (cases f) simp

lemma step_ok_mem: "flow_ok f \<Longrightarrow> (name, step) \<in> set (fl_steps f) \<Longrightarrow> step_ok step"
  by (cases f) (auto simp: list_all_iff)

lemma ledger_ok:
  "step_ok step \<Longrightarrow> ledger_of step = Some (field, items) \<Longrightarrow>
   length items \<le> 1024 \<and> list_all flow_ok items \<and> field \<in> {''result'', ''partial_result''}"
  by (cases step) (auto simp: ledger_field_def split: if_splits)

lemma dumps_step_object:
  "dumps_step step v \<Longrightarrow> \<exists>s. v = JObj s \<and> get s ''status'' = Some (JStr (ri_status (st_info step)))"
  by (cases step) (auto split: json.splits)

lemma dumps_ledger:
  assumes "dumps_step step (JObj s)" "member \<in> {''result'', ''partial_result''}"
    "get s ''kind'' = Some (JStr ''flow_collection'')"
  shows "(\<exists>items l xs. ledger_of step = Some (member, items) \<and> get s member = Some (JObj l)
      \<and> get l ''items'' = Some (JArr xs) \<and> dumps_children items xs)
    \<or> (get s member = None \<and> (\<forall>items. ledger_of step \<noteq> Some (member, items)))"
proof (cases step)
  case (OperationResult info result origin)
  with assms show ?thesis by simp
next
  case (CollectionResult info ledger)
  show ?thesis
  proof (cases ledger)
    case None
    with CollectionResult assms show ?thesis by auto
  next
    case (Some l)
    then obtain partial items where l: "ledger = Some (partial, items)" by (cases l) auto
    with CollectionResult assms(1) have d: "get s (ledger_field (\<not> partial)) = None"
      "case get s (ledger_field partial) of Some (JObj l) \<Rightarrow> (case get l ''items'' of
         Some (JArr xs) \<Rightarrow> dumps_children items xs | _ \<Rightarrow> False) | _ \<Rightarrow> False" by simp_all
    show ?thesis
    proof (cases "member = ledger_field partial")
      case True
      from d(2) obtain l xs where "get s (ledger_field partial) = Some (JObj l)"
          "get l ''items'' = Some (JArr xs)" "dumps_children items xs"
        by (cases "get s (ledger_field partial)") (auto split: json.splits option.splits)
      with True l CollectionResult show ?thesis by auto
    next
      case False
      then have "member = ledger_field (\<not> partial)" using assms(2) by (auto simp: ledger_field_def split: if_splits)
      with d(1) l CollectionResult False show ?thesis by auto
    qed
  qed
qed

lemma ledger_kind:
  assumes "dumps_step step (JObj s)" "ledger_of step = Some l"
  shows "get s ''kind'' = Some (JStr ''flow_collection'')"
  using assms by (cases step) simp_all

lemma innermost_self:
  assumes "\<And>rs s. E rs s \<Longrightarrow> prefix rs ts \<Longrightarrow> rs = [] \<and> s = s0" "E [] s0"
  shows "innermost E ts s0"
proof (rule innermostI [of E "[]"])
  show "E [] s0" by (rule assms(2))
  show "prefix [] ts" by simp
  show "length rs < length [] \<or> (rs = [] \<and> s = s0)" if "E rs s" "prefix rs ts" for rs s
    using assms(1) [OF that] by simp
qed

lemma owned_prefix:
  assumes "owned f rs s" "prefix rs ts" "rs \<noteq> []"
  shows "\<exists>name rest step. ts = ''steps'' # name # rest \<and> (name, step) \<in> set (fl_steps f)"
  using assms(1)
proof (cases rule: owned.cases)
  case own_self
  with assms(3) show ?thesis by simp
next
  case (own_step name step)
  with assms(2) show ?thesis by (auto simp: prefix_def)
next
  case (own_child name step field items i us)
  with assms(2) show ?thesis by (auto simp: prefix_def)
qed

lemma innermost_step:
  assumes "flow_ok f" "get (fl_steps f) name = Some step"
    and "\<And>field items i us. ledger_of step = Some (field, items) \<Longrightarrow> i < length items \<Longrightarrow>
      rest = field # ''items'' # nat_text i # us \<Longrightarrow> False"
  shows "innermost (owned f) (''steps'' # name # rest) (ri_status (st_info step))"
proof (rule innermostI [of _ "[''steps'', name]"])
  have m: "(name, step) \<in> set (fl_steps f)" using assms(1,2) step_mem by simp
  then show "owned f [''steps'', name] (ri_status (st_info step))" by (rule own_step)
  show "prefix [''steps'', name] (''steps'' # name # rest)" by simp
  fix rs s assume o: "owned f rs s" and p: "prefix rs (''steps'' # name # rest)"
  show "length rs < length [''steps'', name] \<or> (rs = [''steps'', name] \<and> s = ri_status (st_info step))"
    using o
  proof (cases rule: owned.cases)
    case (own_step n st)
    with p assms(1,2) step_mem [OF assms(1)] show ?thesis by auto
  next
    case (own_child n st field items i us)
    with p have "n = name" "prefix (field # ''items'' # nat_text i # us) rest" by auto
    then obtain zs where zs: "rest = field # ''items'' # nat_text i # us @ zs" by (auto simp: prefix_def)
    from own_child \<open>n = name\<close> step_mem [OF assms(1)] assms(2) have "st = step" by auto
    with own_child zs have False using assms(3) by blast
    then show ?thesis ..
  qed simp
qed

lemma innermost_child:
  assumes "flow_ok f" "get (fl_steps f) name = Some step" "ledger_of step = Some (field, items)"
    "i < length items" "innermost (owned (items ! i)) us s"
  shows "innermost (owned f) (''steps'' # name # field # ''items'' # nat_text i # us) s"
proof -
  let ?at = "\<lambda>rs. ''steps'' # name # field # ''items'' # nat_text i # rs"
  from assms(5) obtain rs where rs: "owned (items ! i) rs s" "prefix rs us"
    "\<And>rs' s'. owned (items ! i) rs' s' \<Longrightarrow> prefix rs' us \<Longrightarrow> length rs' < length rs \<or> (rs' = rs \<and> s' = s)"
    unfolding innermost_def by blast
  have m: "(name, step) \<in> set (fl_steps f)" using assms(1,2) step_mem by simp
  show ?thesis
  proof (rule innermostI [of _ "?at rs"])
    show "owned f (?at rs) s" using m assms(3,4) rs(1) by (rule own_child)
    show "prefix (?at rs) (?at us)" using rs(2) by simp
    fix rs' s' assume o: "owned f rs' s'" and p: "prefix rs' (?at us)"
    show "length rs' < length (?at rs) \<or> (rs' = ?at rs \<and> s' = s)"
      using o
    proof (cases rule: owned.cases)
      case (own_child n st field' items' j vs)
      with p have n: "n = name" "field' = field" "i = j" "prefix vs us" by auto
      with own_child step_mem [OF assms(1)] assms(2,3) have "items' = items" by auto
      with n own_child rs(3) [of vs s'] show ?thesis by auto
    qed simp_all
  qed
qed

lemma record_status_flow:
  "\<nexists>name rest. ts = ''steps'' # name # rest \<Longrightarrow> record_status status (JObj f) ts = get f ''status''"
  by (cases ts; cases "tl ts") (simp_all add: Let_def)

lemma record_status_unknown:
  "get f ''steps'' = Some (JObj ss) \<Longrightarrow> get ss name = None \<Longrightarrow>
   record_status status (JObj f) (''steps'' # name # rest) = get f ''status''"
  by (simp add: Let_def)

lemma record_status_step:
  assumes "get f ''steps'' = Some (JObj ss)" "get ss name = Some (JObj s)"
    and "\<And>member token us l xs. rest = member # ''items'' # token # us \<Longrightarrow>
      get s ''kind'' = Some (JStr ''flow_collection'') \<Longrightarrow> member \<in> {''result'', ''partial_result''} \<Longrightarrow>
      get s member = Some (JObj l) \<Longrightarrow> get l ''items'' = Some (JArr xs) \<Longrightarrow> item_index token (length xs) = None"
  shows "record_status status (JObj f) (''steps'' # name # rest) = get s ''status''"
proof (cases "\<exists>member items token us. rest = member # items # token # us")
  case False
  with assms(1,2) show ?thesis by (cases rest; cases "tl rest"; cases "tl (tl rest)") (simp_all add: Let_def)
next
  case True
  then obtain member items token us where r: "rest = member # items # token # us" by blast
  show ?thesis
  proof (cases "get s ''kind'' = Some (JStr ''flow_collection'') \<and> member \<in> {''result'', ''partial_result''}
      \<and> items = ''items''")
    case False
    with assms(1,2) r show ?thesis by (simp add: Let_def)
  next
    case True
    note idx = assms(3) [of member token us]
    show ?thesis
    proof (cases "\<exists>l xs. get s member = Some (JObj l) \<and> get l ''items'' = Some (JArr xs)")
      case True
      then obtain l xs where l: "get s member = Some (JObj l)" "get l ''items'' = Some (JArr xs)" by blast
      with idx r \<open>get s ''kind'' = _ \<and> _\<close> have "item_index token (length xs) = None" by simp
      with assms(1,2) r l \<open>get s ''kind'' = _ \<and> _\<close> show ?thesis by (simp add: Let_def)
    next
      case False
      then show ?thesis
        using assms(1,2) r \<open>get s ''kind'' = _ \<and> _\<close>
        by (cases "get s member")
           (auto simp: Let_def split: json.split option.split)
    qed
  qed
qed

lemma record_status_child:
  assumes "get f ''steps'' = Some (JObj ss)" "get ss name = Some (JObj s)"
    "get s ''kind'' = Some (JStr ''flow_collection'')" "member \<in> {''result'', ''partial_result''}"
    "get s member = Some (JObj l)" "get l ''items'' = Some (JArr xs)" "item_index token (length xs) = Some i"
  shows "record_status status (JObj f) (''steps'' # name # member # ''items'' # token # us)
    = record_status (get s ''status'') (xs ! i) us"
  using assms by (simp add: Let_def)

declare record_status.simps(1) [simp del]

lemma record_status_innermost:
  assumes "dumps_flow f v" "flow_ok f"
  shows "\<exists>s. record_status status v ts = Some (JStr s) \<and> innermost (owned f) ts s"
  using assms
proof (induction ts arbitrary: f v status rule: length_induct)
  case (1 ts)
  obtain flow info result steps where f: "f = FlowResult flow info result steps" by (cases f)
  from 1(2) f obtain fo ss where v: "v = JObj fo" "get fo ''status'' = Some (JStr (ri_status info))"
      "get fo ''steps'' = Some (JObj ss)" "dumps_steps steps ss"
    by (auto split: json.splits option.splits)
  have self: "innermost (owned f) ts (ri_status info)"
    if "\<nexists>name rest step. ts = ''steps'' # name # rest \<and> (name, step) \<in> set steps"
  proof (rule innermost_self)
    show "owned f [] (ri_status info)" using own_self [of f] f by simp
    fix rs s assume "owned f rs s" "prefix rs ts"
    moreover from this that f have "rs = []" using owned_prefix [of f rs s ts] by auto
    ultimately show "rs = [] \<and> s = ri_status info" using f by (auto elim: owned_root)
  qed
  show ?case
  proof (cases "\<exists>name rest step. ts = ''steps'' # name # rest \<and> (name, step) \<in> set steps")
    case False
    then have s: "innermost (owned f) ts (ri_status info)" by (rule self)
    have "record_status status v ts = get fo ''status''"
    proof (cases "\<exists>name rest. ts = ''steps'' # name # rest")
      case True
      then obtain name rest where ts: "ts = ''steps'' # name # rest" by blast
      with False have "get steps name = None" by (auto simp: map_of_eq_None_iff image_iff)
      with dumps_steps_get [OF v(4), of name] have "get ss name = None" by simp
      with v(3) show ?thesis unfolding v(1) ts by (rule record_status_unknown)
    next
      case False
      then show ?thesis unfolding v(1) by (rule record_status_flow)
    qed
    then have "record_status status v ts = Some (JStr (ri_status info))" using v(2) by simp
    with s show ?thesis by blast
  next
    case True
    then obtain name rest step where ts: "ts = ''steps'' # name # rest" and mem: "(name, step) \<in> set steps"
      by blast
    have g: "get (fl_steps f) name = Some step" using mem step_mem [OF 1(3)] f by simp
    from dumps_steps_get [OF v(4), of name] g f obtain w where w: "get ss name = Some w" "dumps_step step w"
      by auto
    from dumps_step_object [OF w(2)] obtain so where so: "w = JObj so"
      "get so ''status'' = Some (JStr (ri_status (st_info step)))" by blast
    have sok: "step_ok step" using step_ok_mem [OF 1(3)] mem f by simp
    show ?thesis
    proof (cases "\<exists>field items i us. ledger_of step = Some (field, items) \<and> i < length items
        \<and> rest = field # ''items'' # nat_text i # us")
      case True
      then obtain field items i us where l: "ledger_of step = Some (field, items)" "i < length items"
        "rest = field # ''items'' # nat_text i # us" by blast
      note lok = ledger_ok [OF sok l(1)]
      note kind = ledger_kind [OF w(2) [unfolded so(1)] l(1)]
      from dumps_ledger [OF w(2) [unfolded so(1)] _ kind, of field] lok l(1) obtain lo xs where
        lo: "get so field = Some (JObj lo)" "get lo ''items'' = Some (JArr xs)" "dumps_children items xs"
        by auto
      note nth = dumps_children_nth [OF lo(3)]
      have idx: "item_index (nat_text i) (length xs) = Some i"
        using item_index_iff [of "length xs"] nth lok l(2) by simp
      have "length us < length ts" using ts l(3) by simp
      moreover have "flow_ok (items ! i)" using lok l(2) by (simp add: list_all_length)
      ultimately obtain s where s:
        "record_status (Some (JStr (ri_status (st_info step)))) (xs ! i) us = Some (JStr s)"
        "innermost (owned (items ! i)) us s"
        using 1(1) nth l(2) by blast
      have "record_status status v ts = Some (JStr s)"
        using record_status_child [OF v(3) w(1) [unfolded so(1)] kind _ lo(1,2) idx] lok so(2) s(1)
        unfolding v(1) ts l(3) by simp
      moreover have "innermost (owned f) ts s"
        unfolding ts l(3) by (rule innermost_child [OF 1(3) g l(1,2) s(2)])
      ultimately show ?thesis by blast
    next
      case False
      have "record_status status v ts = get so ''status''"
        unfolding v(1) ts
      proof (rule record_status_step [OF v(3) w(1) [unfolded so(1)]])
        fix member token us l xs
        assume r: "rest = member # ''items'' # token # us" and k: "get so ''kind'' = Some (JStr ''flow_collection'')"
          and m: "member \<in> {''result'', ''partial_result''}" "get so member = Some (JObj l)"
          and x: "get l ''items'' = Some (JArr xs)"
        from dumps_ledger [OF w(2) [unfolded so(1)] m(1) k] m(2) x obtain items where
          items: "ledger_of step = Some (member, items)" "dumps_children items xs" by auto
        note nth = dumps_children_nth [OF items(2)]
        show "item_index token (length xs) = None"
        proof (rule ccontr)
          assume "item_index token (length xs) \<noteq> None"
          then obtain i where "item_index token (length xs) = Some i" by blast
          then have "token = nat_text i \<and> i < length items"
            using item_index_iff [of "length xs"] nth ledger_ok [OF sok items(1)] by simp
          with False items(1) r show False by blast
        qed
      qed
      then have "record_status status v ts = Some (JStr (ri_status (st_info step)))" using so(2) by simp
      moreover have "innermost (owned f) ts (ri_status (st_info step))"
        unfolding ts by (rule innermost_step [OF 1(3) g]) (use False in blast)
      ultimately show ?thesis by blast
    qed
  qed
qed

section \<open>The index of all records\<close>

definition owners :: "observations \<Rightarrow> owner list" where
  "owners obs = map FlowOwner (fst obs) @ map StepOwner (snd obs)"

definition entries :: "observations \<Rightarrow> (string \<times> string) set" where
  "entries obs = (\<lambda>r. (owner_path r, owner_status r)) ` set (owners obs)"

lemma entries_merge [simp]: "entries (merge a b) = entries a \<union> entries b"
  by (auto simp: entries_def owners_def merge_def)

lemma entries_simps [simp]:
  "entries ([], []) = {}"
  "entries ([f], []) = {(fo_path f, ri_status (fl_info (fo_record f)))}"
  "entries ([], [s]) = {(so_path s, ri_status (st_info (so_record s)))}"
  by (simp_all add: entries_def owners_def)

lemma pointer_of_Nil [simp]: "pointer_of [] = []"
  by (simp add: pointer_of_def)

lemma pointer_of_Cons [simp]: "pointer_of (t # ts) = CHR ''/'' # escape_token t @ pointer_of ts"
  by (simp add: pointer_of_def)

lemma escape_plain: "CHR ''~'' \<notin> set t \<Longrightarrow> CHR ''/'' \<notin> set t \<Longrightarrow> escape_token t = t"
  by (induction t) auto

lemma escape_nat [simp]: "escape_token (nat_text i) = nat_text i"
proof (rule escape_plain)
  have d: "ascii_digit c" if "c \<in> set (nat_text i)" for c
    using digits_rev_digits [of i] that by (simp add: nat_text_def list_all_iff)
  show "CHR ''~'' \<notin> set (nat_text i)" "CHR ''/'' \<notin> set (nat_text i)"
    using d [of "CHR ''~''"] d [of "CHR ''/''"] by (auto simp: ascii_digit_def)
qed

definition step_owned :: "string \<times> step_result \<Rightarrow> string list \<Rightarrow> string \<Rightarrow> bool" where
  "step_owned p ts s \<longleftrightarrow> (ts = [fst p] \<and> s = ri_status (st_info (snd p)))
     \<or> (\<exists>field items i us. ledger_of (snd p) = Some (field, items) \<and> i < length items
          \<and> owned (items ! i) us s \<and> ts = fst p # field # ''items'' # nat_text i # us)"

lemma owned_iff: "owned f ts s \<longleftrightarrow> (ts = [] \<and> s = ri_status (fl_info f))
    \<or> (\<exists>p \<in> set (fl_steps f). \<exists>us. ts = ''steps'' # us \<and> step_owned p us s)"
proof
  assume "owned f ts s"
  then show "(ts = [] \<and> s = ri_status (fl_info f))
    \<or> (\<exists>p \<in> set (fl_steps f). \<exists>us. ts = ''steps'' # us \<and> step_owned p us s)"
    by (cases rule: owned.cases) (force simp: step_owned_def)+
next
  assume "(ts = [] \<and> s = ri_status (fl_info f))
    \<or> (\<exists>p \<in> set (fl_steps f). \<exists>us. ts = ''steps'' # us \<and> step_owned p us s)"
  then show "owned f ts s"
    by (auto simp: step_owned_def intro: owned.intros)
qed

lemma ledger_field_name: "ledger_of step = Some (field, items) \<Longrightarrow> field = ''result'' \<or> field = ''partial_result''"
  by (cases step) (auto simp: ledger_field_def split: if_splits)

lemma pair_union:
  "{(g ts, s) | ts s. A ts s \<or> B ts s} = {(g ts, s) | ts s. A ts s} \<union> {(g ts, s) | ts s. B ts s}"
  by blast

lemma visit_entries:
  "entries (visit_flow path name f) = {(path @ pointer_of ts, s) | ts s. owned f ts s}"
  "entries (visit_steps path name steps) =
     {(path @ ''/steps'' @ pointer_of ts, s) | ts s. \<exists>p \<in> set steps. step_owned p ts s}"
  "entries (visit_children base i items) =
     {(base @ nat_text (i + j) @ pointer_of ts, s) | j ts s. j < length items \<and> owned (items ! j) ts s}"
proof (induction path name f and path name steps and base i items
    rule: visit_flow_visit_steps_visit_children.induct)
  case (1 path name flow info result steps)
  have "{(path @ pointer_of ts, s) | ts s. owned (FlowResult flow info result steps) ts s}
      = insert (path, ri_status info)
          {(path @ ''/steps'' @ pointer_of ts, s) | ts s. \<exists>p \<in> set steps. step_owned p ts s}"
  proof -
    have p: "path @ pointer_of (''steps'' # us) = path @ ''/steps'' @ pointer_of us" for us by simp
    have "{(path @ pointer_of ts, s) | ts s. ts = [] \<and> s = ri_status info} = {(path, ri_status info)}"
      by simp
    moreover have "{(path @ pointer_of ts, s) | ts s. \<exists>p \<in> set steps. \<exists>us. ts = ''steps'' # us \<and> step_owned p us s}
        = {(path @ ''/steps'' @ pointer_of ts, s) | ts s. \<exists>p \<in> set steps. step_owned p ts s}"
      unfolding p [symmetric] by blast
    ultimately show ?thesis
      unfolding owned_iff [of "FlowResult flow info result steps"] flow_result.sel pair_union
      by (simp only: Un_insert_left Un_empty_left)
  qed
  with 1 show ?case by simp
next
  case (2 path name)
  then show ?case by simp
next
  case (3 path name step_name step rest)
  let ?sp = "path @ ''/steps/'' @ escape_token step_name"
  have kids: "entries (case ledger_of step of None \<Rightarrow> ([], [])
       | Some (field, items) \<Rightarrow> visit_children (?sp @ ''/'' @ field @ ''/items/'') 0 items)
    = {(path @ ''/steps'' @ pointer_of ts, s) | ts s. \<exists>field items i us. ledger_of step = Some (field, items)
        \<and> i < length items \<and> owned (items ! i) us s \<and> ts = step_name # field # ''items'' # nat_text i # us}"
  proof (cases "ledger_of step")
    case None
    then show ?thesis by simp
  next
    case (Some l)
    then obtain field items where l: "ledger_of step = Some (field, items)" by (cases l) auto
    from ledger_field_name [OF l] have "escape_token field = field" by auto
    then have ptr: "(?sp @ ''/'' @ field @ ''/items/'') @ nat_text (0 + i) @ pointer_of us
        = path @ ''/steps'' @ pointer_of (step_name # field # ''items'' # nat_text i # us)" for i us
      by simp
    have "entries (visit_children (?sp @ ''/'' @ field @ ''/items/'') 0 items)
        = {((?sp @ ''/'' @ field @ ''/items/'') @ nat_text (0 + j) @ pointer_of ts, s) | j ts s.
            j < length items \<and> owned (items ! j) ts s}"
      by (rule 3(1) [OF refl l refl])
    also have "\<dots> = {(path @ ''/steps'' @ pointer_of ts, s) | ts s. \<exists>i us. i < length items
        \<and> owned (items ! i) us s \<and> ts = step_name # field # ''items'' # nat_text i # us}"
      unfolding ptr by blast
    finally show ?thesis unfolding l by simp
  qed
  have all: "{(path @ ''/steps'' @ pointer_of ts, s) | ts s. \<exists>p \<in> set ((step_name, step) # rest). step_owned p ts s}
    = insert (?sp, ri_status (st_info step))
      ({(path @ ''/steps'' @ pointer_of ts, s) | ts s. \<exists>field items i us. ledger_of step = Some (field, items)
        \<and> i < length items \<and> owned (items ! i) us s \<and> ts = step_name # field # ''items'' # nat_text i # us}
       \<union> {(path @ ''/steps'' @ pointer_of ts, s) | ts s. \<exists>p \<in> set rest. step_owned p ts s})"
  proof -
    have "(\<exists>p \<in> set ((step_name, step) # rest). step_owned p ts s) \<longleftrightarrow>
        (ts = [step_name] \<and> s = ri_status (st_info step))
        \<or> ((\<exists>field items i us. ledger_of step = Some (field, items) \<and> i < length items
             \<and> owned (items ! i) us s \<and> ts = step_name # field # ''items'' # nat_text i # us)
          \<or> (\<exists>p \<in> set rest. step_owned p ts s))" for ts s
      unfolding set_simps bex_simps step_owned_def fst_conv snd_conv by (rule disj_assoc)
    moreover have "{(path @ ''/steps'' @ pointer_of ts, s) | ts s. ts = [step_name] \<and> s = ri_status (st_info step)}
        = {(?sp, ri_status (st_info step))}" by auto
    ultimately show ?thesis unfolding pair_union by (simp only: pair_union Un_insert_left Un_empty_left)
  qed
  show ?case
    unfolding visit_steps.simps(2) Let_def entries_merge kids 3(2) [OF refl] all
    by (simp only: entries_simps step_observation.simps Un_insert_left Un_empty_left)
next
  case (4 base i)
  then show ?case by simp
next
  case (5 base i child rest)
  have "{(base @ nat_text (i + j) @ pointer_of ts, s) | j ts s. j < length (child # rest) \<and> owned ((child # rest) ! j) ts s}
    = {((base @ nat_text i) @ pointer_of ts, s) | ts s. owned child ts s}
      \<union> {(base @ nat_text (Suc i + j) @ pointer_of ts, s) | j ts s. j < length rest \<and> owned (rest ! j) ts s}"
  proof -
    have one: "(\<exists>j ts s. x = (base @ nat_text (i + j) @ pointer_of ts, s) \<and> j < length (child # rest) \<and> owned ((child # rest) ! j) ts s)
      \<longleftrightarrow> (\<exists>ts s. x = ((base @ nat_text i) @ pointer_of ts, s) \<and> owned child ts s)
        \<or> (\<exists>j ts s. x = (base @ nat_text (Suc i + j) @ pointer_of ts, s) \<and> j < length rest \<and> owned (rest ! j) ts s)" for x
    proof -
      define P where "P = (\<lambda>j. \<exists>ts s. x = (base @ nat_text (i + j) @ pointer_of ts, s) \<and> owned ((child # rest) ! j) ts s)"
      have "(\<exists>j ts s. x = (base @ nat_text (i + j) @ pointer_of ts, s) \<and> j < length (child # rest) \<and> owned ((child # rest) ! j) ts s)
        \<longleftrightarrow> (\<exists>j. j < Suc (length rest) \<and> P j)" unfolding P_def length_Cons by blast
      also have "\<dots> \<longleftrightarrow> P 0 \<or> (\<exists>j. j < length rest \<and> P (Suc j))"
        by (auto simp: less_Suc_eq_0_disj)
      also have "P 0 \<longleftrightarrow> (\<exists>ts s. x = ((base @ nat_text i) @ pointer_of ts, s) \<and> owned child ts s)"
        by (simp add: P_def)
      also have "(\<exists>j. j < length rest \<and> P (Suc j)) \<longleftrightarrow>
          (\<exists>j ts s. x = (base @ nat_text (Suc i + j) @ pointer_of ts, s) \<and> j < length rest \<and> owned (rest ! j) ts s)"
        unfolding P_def nth_Cons_Suc add_Suc_right add_Suc by blast
      finally show ?thesis .
    qed
    show ?thesis unfolding one Collect_disj_eq ..
  qed
  with 5 show ?case by simp
qed

lemma roots_entries:
  "entries (visit_roots flows)
    = {(pointer_of (''flows'' # name # ts), s) | name f ts s. (name, f) \<in> set flows \<and> owned f ts s}"
proof (induction flows)
  case Nil
  then show ?case by simp
next
  case (Cons p flows)
  obtain name f where p: "p = (name, f)" by (cases p)
  have "{(pointer_of (''flows'' # n # ts), s) | n g ts s. (n, g) \<in> set (p # flows) \<and> owned g ts s}
      = {((''/flows/'' @ escape_token name) @ pointer_of ts, s) | ts s. owned f ts s}
        \<union> {(pointer_of (''flows'' # n # ts), s) | n g ts s. (n, g) \<in> set flows \<and> owned g ts s}"
  proof -
    have "pointer_of (''flows'' # name # ts) = (''/flows/'' @ escape_token name) @ pointer_of ts" for ts
      by simp
    then have e: "(''/flows/'' @ escape_token name) @ pointer_of ts = pointer_of (''flows'' # name # ts)" for ts ..
    show ?thesis unfolding p e by (auto simp del: pointer_of_Cons)
  qed
  with Cons show ?case by (simp add: p visit_entries(1))
qed

section \<open>Prefixes of pointers\<close>

lemma split_on_append: "split_on c (a @ c # b) = split_on c a @ split_on c b"
  by (induction a) (auto split: list.split)

lemma split_pointer: "split_on (CHR ''/'') (pointer_of ts) = [] # map escape_token ts"
proof (cases ts)
  case Nil
  then show ?thesis by simp
next
  case (Cons t us)
  then show ?thesis using split_pointer_of [of t us] by simp
qed

lemma escape_inj: "escape_token a = escape_token b \<longleftrightarrow> a = b"
  by (metis unescape_escape)

lemma owns_pointer: "owns (pointer_of rs) (pointer_of ts) \<longleftrightarrow> prefix rs ts"
proof
  assume o: "owns (pointer_of rs) (pointer_of ts)"
  have "prefix (map escape_token rs) (map escape_token ts)"
  proof (cases "pointer_of ts = pointer_of rs")
    case True
    then have "map escape_token ts = map escape_token rs" using split_pointer by (metis list.inject)
    then show ?thesis by simp
  next
    case False
    with o have "pointer_of ts = pointer_of rs @ CHR ''/'' # drop (Suc (length (pointer_of rs))) (pointer_of ts)"
      unfolding owns_def by (metis append_Cons append_Nil append_assoc append_take_drop_id)
    then obtain b where "split_on (CHR ''/'') (pointer_of ts) = split_on (CHR ''/'') (pointer_of rs) @ split_on (CHR ''/'') b"
      using split_on_append by metis
    then have "map escape_token ts = map escape_token rs @ split_on (CHR ''/'') b"
      by (simp add: split_pointer)
    then show ?thesis by simp
  qed
  then obtain zs where z: "map escape_token ts = map escape_token rs @ zs" by (auto simp: prefix_def)
  then have "map escape_token rs = map escape_token (take (length rs) ts)"
    by (metis append_eq_conv_conj length_map take_map)
  then have "rs = take (length rs) ts" using escape_inj by (metis inj_map_eq_map inj_onI)
  then show "prefix rs ts" by (metis take_is_prefix)
next
  assume "prefix rs ts"
  then obtain us where ts: "ts = rs @ us" by (auto simp: prefix_def)
  have app: "pointer_of (rs @ us) = pointer_of rs @ pointer_of us" for us by (simp add: pointer_of_def)
  show "owns (pointer_of rs) (pointer_of ts)"
    by (cases us) (simp_all add: ts app owns_def)
qed

lemma pointer_of_longer:
  assumes "prefix rs ts" "prefix qs ts" "length qs < length rs"
  shows "length (pointer_of qs) < length (pointer_of rs)"
proof -
  have "prefix qs rs" using assms by (meson less_imp_le prefix_length_prefix)
  then obtain us where rs: "rs = qs @ us" by (auto simp: prefix_def)
  with assms(3) obtain u vs where "us = u # vs" by (cases us) auto
  then show ?thesis by (simp add: rs pointer_of_def)
qed

lemma longest_Some:
  "longest xs = Some y \<Longrightarrow> y \<in> set xs \<and> (\<forall>x \<in> set xs. length (owner_path x) \<le> length (owner_path y))"
proof (induction xs arbitrary: y)
  case Nil
  then show ?case by simp
next
  case (Cons x xs)
  show ?case
  proof (cases "longest xs")
    case None
    then have "xs = []" by (cases xs) (auto split: option.splits if_splits)
    with Cons show ?thesis by simp
  next
    case (Some z)
    with Cons show ?thesis by (fastforce split: if_splits)
  qed
qed

lemma longest_None: "longest xs = None \<longleftrightarrow> xs = []"
  by (cases xs) (auto split: option.splits)

text \<open>The owner found by text is the innermost record by tokens.\<close>

lemma path_observation_innermost:
  assumes e: "entries obs = {(pointer_of ts, s) | ts s. E ts s}" and i: "innermost E ts s"
  shows "map_option owner_status (path_observation (pointer_of ts) obs) = Some s"
proof -
  let ?xs = "filter (\<lambda>r. owns (owner_path r) (pointer_of ts)) (owners obs)"
  from i obtain rs where rs: "E rs s" "prefix rs ts"
    "\<And>rs' s'. E rs' s' \<Longrightarrow> prefix rs' ts \<Longrightarrow> length rs' < length rs \<or> (rs' = rs \<and> s' = s)"
    unfolding innermost_def by blast
  from rs(1) e have "(pointer_of rs, s) \<in> entries obs" by blast
  then obtain r where r: "r \<in> set (owners obs)" "owner_path r = pointer_of rs" by (auto simp: entries_def)
  with rs(2) have mem: "r \<in> set ?xs" by (simp add: owns_pointer)
  then obtain y where y: "longest ?xs = Some y" using longest_None by (metis empty_iff empty_set not_None_eq)
  from longest_Some [OF y] mem r have yy: "y \<in> set (owners obs)" "owns (owner_path y) (pointer_of ts)"
    "length (pointer_of rs) \<le> length (owner_path y)" by auto
  from yy(1) e obtain qs q where q: "owner_path y = pointer_of qs" "owner_status y = q" "E qs q"
    by (auto simp: entries_def set_eq_iff) blast
  with yy(2) have "prefix qs ts" by (simp add: owns_pointer)
  with rs(3) [OF q(3)] have "length qs < length rs \<or> q = s" by blast
  moreover have "\<not> length qs < length rs"
    using pointer_of_longer [OF rs(2) \<open>prefix qs ts\<close>] yy(3) q(1) by auto
  ultimately show ?thesis using y q(2) by (simp add: path_observation_def owners_def)
qed

lemma dumps_roots_get:
  "dumps_roots flows roots \<Longrightarrow> (case get flows name of None \<Rightarrow> get roots name = None
     | Some f \<Rightarrow> (\<exists>v. get roots name = Some v \<and> dumps_flow f v))"
proof (induction flows arbitrary: roots)
  case Nil
  then show ?case by simp
next
  case (Cons p flows)
  obtain n f where p: "p = (n, f)" by (cases p)
  with Cons.prems obtain v rest where "roots = (n, v) # rest" "dumps_flow f v" "dumps_roots flows rest"
    by (cases roots) auto
  with Cons.IH [of rest] p show ?case by (cases "get flows name") auto
qed

lemma document_tokens:
  "document_path_status (pointer_of ts) (JObj members) = (case ts of
     first # name # parts \<Rightarrow> if first \<noteq> ''flows'' then None
       else (case get members ''flows'' of
          Some (JObj roots) \<Rightarrow> (case get roots name of
              Some flow \<Rightarrow> (case record_status None flow parts of Some (JStr s) \<Rightarrow> Some s | _ \<Rightarrow> None)
            | None \<Rightarrow> None)
        | _ \<Rightarrow> None)
   | _ \<Rightarrow> None)"
  by (simp add: document_path_status_def split_pointer comp_def)

section \<open>Properties\<close>

text \<open>
  C22: Two routines find the record that owns a result pointer: one searches the index of
  all invocations for the longest matching path text, the other walks the serialized result
  from flow to step to child. They agree on every pointer: on the status, and on whether the
  pointer has an owner at all, through any nesting of collections and for any names.
\<close>

theorem owner_status_agrees:
  assumes "dumps_result result document" and "dict_wf (xr_flows result)"
    and "list_all (\<lambda>p. flow_ok (snd p)) (xr_flows result)"
  shows "document_path_status (pointer_of ts) document
    = map_option owner_status (path_observation (pointer_of ts) (execution_records result))"
proof -
  define E where "E = (\<lambda>ts s. \<exists>name f us. (name, f) \<in> set (xr_flows result) \<and> owned f us s \<and> ts = ''flows'' # name # us)"
  have e: "entries (execution_records result) = {(pointer_of ts, s) | ts s. E ts s}"
    unfolding execution_records_def roots_entries E_def by blast
  from assms(1) obtain members roots where d: "document = JObj members" "get members ''flows'' = Some (JObj roots)"
    "dumps_roots (xr_flows result) roots"
  proof -
    from assms(1) obtain members where m: "document = JObj members"
        "case get members ''flows'' of Some (JObj roots) \<Rightarrow> dumps_roots (xr_flows result) roots | _ \<Rightarrow> False"
      unfolding dumps_result_def by (cases document) simp_all
    from m(2) obtain v where "get members ''flows'' = Some v" by (cases "get members ''flows''") simp_all
    with m that show ?thesis by (cases v) simp_all
  qed
  show ?thesis
  proof (cases "\<exists>name f us. (name, f) \<in> set (xr_flows result) \<and> ts = ''flows'' # name # us")
    case True
    then obtain name f us where f: "(name, f) \<in> set (xr_flows result)" "ts = ''flows'' # name # us" by blast
    then have g: "get (xr_flows result) name = Some f" using assms(2) by simp
    with dumps_roots_get [OF d(3), of name] obtain v where v: "get roots name = Some v" "dumps_flow f v" by auto
    have "flow_ok f" using assms(3) f(1) by (auto simp: list_all_iff)
    from record_status_innermost [OF v(2) this] obtain s where
      s: "record_status None v us = Some (JStr s)" "innermost (owned f) us s" by blast
    from s(2) obtain rs where rs: "owned f rs s" "prefix rs us"
      "\<And>rs' s'. owned f rs' s' \<Longrightarrow> prefix rs' us \<Longrightarrow> length rs' < length rs \<or> (rs' = rs \<and> s' = s)"
      unfolding innermost_def by blast
    have "innermost E ts s"
    proof (rule innermostI [of _ "''flows'' # name # rs"])
      show "E (''flows'' # name # rs) s" using f(1) rs(1) unfolding E_def by blast
      show "prefix (''flows'' # name # rs) ts" using rs(2) f(2) by simp
      fix rs' s' assume "E rs' s'" and p: "prefix rs' ts"
      then obtain n h ws where w: "(n, h) \<in> set (xr_flows result)" "owned h ws s'" "rs' = ''flows'' # n # ws"
        unfolding E_def by blast
      with p f(2) have "n = name" "prefix ws us" by simp_all
      with w(1) g assms(2) have "h = f" by simp
      with w rs(3) \<open>n = name\<close> \<open>prefix ws us\<close> show "length rs' < length (''flows'' # name # rs) \<or> (rs' = ''flows'' # name # rs \<and> s' = s)"
        by force
    qed
    note innermost = path_observation_innermost [OF e this]
    show ?thesis
      unfolding innermost using d v(1) s(1) f(2) by (simp add: document_tokens del: pointer_of_Cons)
  next
    case False
    have none: "\<not> owns (owner_path r) (pointer_of ts)" if "r \<in> set (owners (execution_records result))" for r
    proof -
      from that e have "(owner_path r, owner_status r) \<in> {(pointer_of ts, s) | ts s. E ts s}"
        unfolding e [symmetric] entries_def by blast
      then obtain qs where q: "owner_path r = pointer_of qs" "E qs (owner_status r)" by auto
      have "\<not> prefix qs ts" using q(2) False unfolding E_def prefix_def by force
      with q(1) show ?thesis by (simp add: owns_pointer)
    qed
    then have "path_observation (pointer_of ts) (execution_records result) = None"
      by (simp add: path_observation_def longest_None filter_empty_conv owners_def [symmetric])
    moreover have "document_path_status (pointer_of ts) document = None"
    proof (cases "\<exists>name us. ts = ''flows'' # name # us")
      case True
      then obtain name us where ts: "ts = ''flows'' # name # us" by blast
      with False have "get (xr_flows result) name = None" by (auto simp: map_of_eq_None_iff image_iff)
      with dumps_roots_get [OF d(3), of name] have "get roots name = None" by simp
      with d ts show ?thesis by (simp add: document_tokens del: pointer_of_Cons)
    next
      case False
      with d(1) show ?thesis by (simp add: document_tokens del: pointer_of_Cons split: list.split)
    qed
    ultimately show ?thesis by simp
  qed
qed

theorem owner_status_agrees_witness:
  "let info = (\<lambda>st. \<lparr>ri_status = st, ri_elapsed = None, ri_usage = None, ri_error = None\<rparr>);
       child = FlowResult ''c'' (info ''needs_review'') None [];
       step = CollectionResult (info ''failed'') (Some (True, [child]));
       result = \<lparr>xr_payload = JNull, xr_flows = [(''a/b'', FlowResult ''a/b'' (info ''failed'') None [(''s'', step)])],
         xr_info = info ''failed'', xr_workflow = ''w'', xr_revision = ''1''\<rparr> in
   map_option owner_status (path_observation
     ''/flows/a~1b/steps/s/partial_result/items/0/result'' (execution_records result)) = Some ''needs_review''"
proof -
  define info where "info = (\<lambda>st. \<lparr>ri_status = st, ri_elapsed = None, ri_usage = None, ri_error = None\<rparr>)"
  define child where "child = FlowResult ''c'' (info ''needs_review'') None []"
  define step where "step = CollectionResult (info ''failed'') (Some (True, [child]))"
  define result where "result = \<lparr>xr_payload = JNull,
    xr_flows = [(''a/b'', FlowResult ''a/b'' (info ''failed'') None [(''s'', step)])],
    xr_info = info ''failed'', xr_workflow = ''w'', xr_revision = ''1''\<rparr>"
  define document where "document = JObj [(''flows'', JObj [(''a/b'', JObj [(''status'', JStr ''failed''),
    (''steps'', JObj [(''s'', JObj [(''status'', JStr ''failed''), (''kind'', JStr ''flow_collection''),
      (''partial_result'', JObj [(''items'', JArr [JObj [(''status'', JStr ''needs_review''), (''steps'', JObj [])]])])])])])])]"
  note defs = info_def child_def step_def result_def document_def
  let ?ts = "[''flows'', ''a/b'', ''steps'', ''s'', ''partial_result'', ''items'', ''0'', ''result'']"
  have "dumps_result result document"
    by (simp add: defs dumps_result_def ledger_field_def)
  moreover have "dict_wf (xr_flows result)" "list_all (\<lambda>p. flow_ok (snd p)) (xr_flows result)"
    by (simp_all add: defs)
  ultimately have "document_path_status (pointer_of ?ts) document
      = map_option owner_status (path_observation (pointer_of ?ts) (execution_records result))"
    by (rule owner_status_agrees)
  moreover have "document_path_status (pointer_of ?ts) document = Some ''needs_review''"
    unfolding defs by code_simp
  ultimately show ?thesis
    unfolding Let_def info_def [symmetric] child_def [symmetric] step_def [symmetric] result_def [symmetric]
    by simp
qed

end
