(* ===== verification/Summaries.thy ===== *)
theory Summaries imports Owners Records "HOL-Library.Product_Lexorder" begin

text \<open>
  \<^verbatim>\<open>evaluation/summaries.py\<close> and \<^verbatim>\<open>evaluation/intervals.py\<close>: counts of failures, latency, usage and
  cost over attempts, and percentile bootstrap intervals. Floats are exact rationals; the
  random generator is a parameter, the list of index lists it draws.
\<close>

section \<open>Failures\<close>

fun tally :: "('a, nat) dict \<Rightarrow> 'a list \<Rightarrow> ('a, nat) dict" where
  "tally d [] = d"
| "tally d (x # xs) = tally (put x (case get d x of Some n \<Rightarrow> Suc n | None \<Rightarrow> 1) d) xs"

text \<open>An empty code counts as no code.\<close>

definition failed_codes :: "(string \<times> string option) list \<Rightarrow> string list" where
  "failed_codes outcomes = concat (map (\<lambda>(status, code). case code of
     Some c \<Rightarrow> if status \<in> set FAILED_STATUSES \<and> c \<noteq> [] then [c] else [] | None \<Rightarrow> []) outcomes)"

definition count_failures :: "(string \<times> string option) list \<Rightarrow> (string, nat) dict" where
  "count_failures outcomes =
     sort_key (\<lambda>(code, n). (- int n, code)) (tally [] (failed_codes outcomes))"

section \<open>Latency\<close>

record latency_summary =
  ls_count :: nat
  ls_unavailable :: nat
  ls_minimum :: "rat option"
  ls_median :: "rat option"
  ls_p95 :: "rat option"
  ls_maximum :: "rat option"

definition latency_ok :: "pfloat \<Rightarrow> bool" where
  "latency_ok v = (case v of Fin q \<Rightarrow> 0 \<le> q | _ \<Rightarrow> False)"

fun finite_part :: "pfloat option \<Rightarrow> rat list" where
  "finite_part (Some (Fin q)) = [q]"
| "finite_part _ = []"

text \<open>\<^verbatim>\<open>statistics.median\<close> of a sorted list that is not empty.\<close>

definition median_of :: "rat list \<Rightarrow> rat" where
  "median_of xs = (let n = length xs in
     if odd n then xs ! (n div 2) else (xs ! (n div 2 - 1) + xs ! (n div 2)) / 2)"

text \<open>\<^verbatim>\<open>ceil(0.95 * count)\<close>; the rounding of the product never crosses an integer.\<close>

definition p95_rank :: "nat \<Rightarrow> nat" where
  "p95_rank n = nat \<lceil>(95 / 100 :: rat) * of_nat n\<rceil>"

definition summarize_latency :: "pfloat option list \<Rightarrow> (exn, latency_summary) result" where
  "summarize_latency samples =
     (if \<not> list_all (\<lambda>v. pred_option latency_ok v) samples then value_error
      else let known = sort (concat (map finite_part samples)); n = length known;
               opt = (\<lambda>x. if n = 0 then None else Some x) in
        Inr \<lparr>ls_count = n, ls_unavailable = length samples - n, ls_minimum = opt (known ! 0),
          ls_median = opt (median_of known), ls_p95 = opt (known ! (p95_rank n - 1)),
          ls_maximum = opt (last known)\<rparr>)"

section \<open>Usage and cost\<close>

record usage_count =
  uc_observed :: nat
  uc_unknown :: nat
  uc_known_total :: "nat option"
  uc_total :: "nat option"

record cost_summary =
  cs_observed :: nat
  cs_unknown :: nat
  cs_known_total :: "rat option"
  cs_total :: "rat option"
  cs_currency :: "string option"

record usage_summary =
  um_model_requests :: usage_count
  um_tool_calls :: usage_count
  um_input_tokens :: usage_count
  um_output_tokens :: usage_count
  um_cache_read :: usage_count
  um_cache_write :: usage_count
  um_reasoning :: usage_count
  um_cost :: cost_summary

definition known_values :: "'a option list \<Rightarrow> 'a list" where
  "known_values xs = map the (filter (\<lambda>x. x \<noteq> None) xs)"

definition usage_field ::
  "(public_usage \<Rightarrow> nat option) \<Rightarrow> public_usage option list \<Rightarrow> usage_count" where
  "usage_field f samples = (let counts = map (\<lambda>u. Option.bind u f) samples;
       known = known_values counts;
       total = (if known = [] then None else Some (sum_list known)) in
     \<lparr>uc_observed = length known, uc_unknown = length counts - length known, uc_known_total = total,
      uc_total = (if length known = length counts then total else None)\<rparr>)"

text \<open>The known cost of one attempt: an estimate with its currency, or zero without requests.\<close>

definition known_cost :: "public_usage option \<Rightarrow> (rat \<times> string option) option" where
  "known_cost u = (case u of
     None \<Rightarrow> None
   | Some v \<Rightarrow> (case (pu_currency v, pu_cost v) of
       (Some cur, Some c) \<Rightarrow> Some (c, Some cur)
     | _ \<Rightarrow> if pu_model_requests v = 0 then Some (0, None) else None))"

definition summarize_cost :: "public_usage option list \<Rightarrow> cost_summary" where
  "summarize_cost samples =
     (let costs = map known_cost samples; known = known_values costs;
          unknown = length costs - length known;
          currencies = remdups (known_values (map snd known));
          total = (if known = [] then None else Some (quantize_cost (sum_list (map fst known)))) in
      \<lparr>cs_observed = length known, cs_unknown = unknown, cs_known_total = total,
       cs_total = (if unknown = 0 then total else None),
       cs_currency = (case currencies of [c] \<Rightarrow> Some c | _ \<Rightarrow> None)\<rparr>)"

definition summarize_usage :: "public_usage option list \<Rightarrow> usage_summary" where
  "summarize_usage samples =
     \<lparr>um_model_requests = usage_field (\<lambda>u. Some (pu_model_requests u)) samples,
      um_tool_calls = usage_field (\<lambda>u. Some (pu_tool_calls u)) samples,
      um_input_tokens = usage_field pu_input_tokens samples,
      um_output_tokens = usage_field pu_output_tokens samples,
      um_cache_read = usage_field pu_cache_read samples,
      um_cache_write = usage_field pu_cache_write samples,
      um_reasoning = usage_field pu_reasoning samples,
      um_cost = summarize_cost samples\<rparr>"

section \<open>Intervals\<close>

type_synonym sample = "rat \<times> rat"

record bootstrap_interval =
  bi_low :: rat
  bi_high :: rat
  bi_level :: rat
  bi_resamples :: nat

definition excludes_zero :: "bootstrap_interval \<Rightarrow> bool" where
  "excludes_zero i \<longleftrightarrow> bi_low i > 0 \<or> bi_high i < 0"

definition check_bounds :: "nat \<Rightarrow> rat \<Rightarrow> (exn, unit) result" where
  "check_bounds resamples level =
     (if 100 \<le> resamples \<and> resamples \<le> 100000 \<and> 1 / 2 \<le> level \<and> level < 1 then Inr () else value_error)"

definition interpolate :: "rat list \<Rightarrow> rat \<Rightarrow> rat" where
  "interpolate xs position =
     (let low = nat \<lfloor>position\<rfloor>; high = min (low + 1) (length xs - 1) in
      xs ! low + (xs ! high - xs ! low) * (position - of_nat low))"

definition percentile :: "rat list \<Rightarrow> rat \<Rightarrow> rat" where
  "percentile xs q = interpolate xs (q * of_nat (length xs - 1))"

definition sample_rate :: "sample list \<Rightarrow> nat list \<Rightarrow> rat option" where
  "sample_rate samples picks =
     (let denominator = sum_list (map (\<lambda>i. snd (samples ! i)) picks) in
      if denominator = 0 then None
      else Some (sum_list (map (\<lambda>i. fst (samples ! i)) picks) / denominator))"

definition interval_of :: "rat list \<Rightarrow> rat \<Rightarrow> nat \<Rightarrow> bootstrap_interval option" where
  "interval_of statistics level resamples =
     (if length statistics < 2 then None
      else let xs = sort statistics; tail = (1 - level) / 2 in
        Some \<lparr>bi_low = percentile xs tail, bi_high = percentile xs (1 - tail), bi_level = level,
              bi_resamples = resamples\<rparr>)"

definition ratio_interval ::
  "nat list list \<Rightarrow> sample list \<Rightarrow> rat \<Rightarrow> (exn, bootstrap_interval option) result" where
  "ratio_interval draws samples level =
     bindE (check_bounds (length draws) level) (\<lambda>_.
       Inr (if length samples < 2 then None
            else interval_of (known_values (map (sample_rate samples) draws)) level (length draws)))"

definition rate_difference :: "sample list \<Rightarrow> sample list \<Rightarrow> nat list \<Rightarrow> rat option" where
  "rate_difference baseline candidate picks =
     (case (sample_rate baseline picks, sample_rate candidate picks) of
        (Some before, Some after) \<Rightarrow> Some (after - before) | _ \<Rightarrow> None)"

definition paired_difference_interval ::
  "nat list list \<Rightarrow> sample list \<Rightarrow> sample list \<Rightarrow> rat \<Rightarrow> (exn, bootstrap_interval option) result" where
  "paired_difference_interval draws baseline candidate level =
     bindE (check_bounds (length draws) level) (\<lambda>_.
       if length baseline \<noteq> length candidate then value_error
       else Inr (if length baseline < 2 then None
            else interval_of (known_values (map (rate_difference baseline candidate) draws)) level
                   (length draws)))"

section \<open>Facts\<close>

lemma floor_position:
  assumes "0 \<le> p" "p \<le> (of_nat m :: rat)"
  obtains k where "nat \<lfloor>p\<rfloor> = k" "k \<le> m" "of_nat k \<le> p" "p < of_nat k + 1"
proof -
  have k: "of_nat (nat \<lfloor>p\<rfloor>) = (of_int \<lfloor>p\<rfloor> :: rat)" using assms(1) by (simp add: of_nat_nat)
  have "of_nat (nat \<lfloor>p\<rfloor>) \<le> p" "p < of_nat (nat \<lfloor>p\<rfloor>) + 1" unfolding k by linarith+
  moreover from this(1) assms(2) have "(of_nat (nat \<lfloor>p\<rfloor>) :: rat) \<le> of_nat m" by (rule order_trans)
  then have "nat \<lfloor>p\<rfloor> \<le> m" by (simp only: of_nat_le_iff)
  ultimately show ?thesis using that by blast
qed

lemma interpolate_at:
  assumes "nat \<lfloor>p\<rfloor> = k" "length xs = Suc m"
  shows "interpolate xs p = xs ! k + (xs ! min (k + 1) m - xs ! k) * (p - of_nat k)"
  using assms by (simp add: interpolate_def)

lemma interpolate_between:
  assumes s: "sorted xs" and n: "length xs = Suc m"
    and k: "nat \<lfloor>p\<rfloor> = k" "k \<le> m" "of_nat k \<le> p" "p < of_nat k + 1"
  shows "xs ! k \<le> interpolate xs p" "interpolate xs p \<le> xs ! min (k + 1) m"
proof -
  let ?h = "min (k + 1) m"
  have le: "xs ! k \<le> xs ! ?h" by (rule sorted_nth_mono [OF s]) (use k(2) n in auto)
  have f: "0 \<le> p - of_nat k" "p - of_nat k \<le> 1" using k by simp_all
  show "xs ! k \<le> interpolate xs p" using le f by (simp add: interpolate_at [OF k(1) n])
  have "(xs ! ?h - xs ! k) * (p - of_nat k) \<le> xs ! ?h - xs ! k"
    using le f by (simp add: mult_left_le)
  then show "interpolate xs p \<le> xs ! ?h" by (simp add: interpolate_at [OF k(1) n])
qed

lemma interpolate_mono:
  assumes s: "sorted xs" and n: "length xs = Suc m" and p: "0 \<le> p" "p \<le> t" "t \<le> of_nat m"
  shows "interpolate xs p \<le> interpolate xs t"
proof -
  from floor_position [OF p(1) order_trans [OF p(2,3)]] obtain k where
    k: "nat \<lfloor>p\<rfloor> = k" "k \<le> m" "of_nat k \<le> p" "p < of_nat k + 1" .
  from floor_position [OF order_trans [OF p(1,2)] p(3)] obtain l where
    l: "nat \<lfloor>t\<rfloor> = l" "l \<le> m" "of_nat l \<le> t" "t < of_nat l + 1" .
  show ?thesis
  proof (cases "k = l")
    case True
    have "xs ! k \<le> xs ! min (k + 1) m"
      using interpolate_between [OF s n k] by (rule order_trans)
    then have "(xs ! min (k + 1) m - xs ! k) * (p - of_nat k) \<le> (xs ! min (k + 1) m - xs ! k) * (t - of_nat k)"
      using p(2) by (intro mult_left_mono) simp_all
    then show ?thesis using True by (simp add: interpolate_at [OF k(1) n] interpolate_at [OF l(1) n])
  next
    case False
    have "k \<le> l" using k(1) l(1) p(2) by (metis floor_mono nat_mono)
    with False have lt: "k + 1 \<le> l" by simp
    have "interpolate xs p \<le> xs ! min (k + 1) m" by (rule interpolate_between(2) [OF s n k])
    also have "\<dots> \<le> xs ! l" by (rule sorted_nth_mono [OF s]) (use lt l(2) n in auto)
    also have "\<dots> \<le> interpolate xs t" by (rule interpolate_between(1) [OF s n l])
    finally show ?thesis .
  qed
qed

lemma interpolate_bounds:
  assumes s: "sorted xs" and n: "length xs = Suc m" and p: "0 \<le> p" "p \<le> of_nat m"
    and ab: "\<And>x. x \<in> set xs \<Longrightarrow> a \<le> x \<and> x \<le> b"
  shows "a \<le> interpolate xs p \<and> interpolate xs p \<le> b"
proof -
  from floor_position [OF p] obtain k where
    k: "nat \<lfloor>p\<rfloor> = k" "k \<le> m" "of_nat k \<le> p" "p < of_nat k + 1" .
  have "xs ! k \<in> set xs" "xs ! min (k + 1) m \<in> set xs" using k(2) n by (simp_all add: min_def)
  with interpolate_between [OF s n k] ab show ?thesis by (meson order_trans)
qed

lemma sort_uminus: "sort (map uminus xs) = rev (map uminus (sort xs))" for xs :: "rat list"
proof -
  have "sorted_wrt (\<lambda>x y. - y \<le> - x) (sort xs)" by simp
  then have "sorted (rev (map uminus (sort xs)))" by (simp add: sorted_wrt_rev sorted_wrt_map)
  moreover have "mset (rev (map uminus (sort xs))) = mset (map uminus xs)" by simp
  ultimately show ?thesis using properties_for_sort by metis
qed

lemma interpolate_reflect:
  assumes n: "length xs = Suc m" and p: "0 \<le> p" "p \<le> of_nat m"
  shows "interpolate (rev (map uminus xs)) (of_nat m - p) = - interpolate xs p"
proof -
  let ?ys = "rev (map uminus xs)"
  have n': "length ?ys = Suc m" using n by simp
  have nth: "?ys ! i = - (xs ! (m - i))" if "i \<le> m" for i
    using that n by (simp add: rev_nth)
  from floor_position [OF p] obtain k where
    k: "nat \<lfloor>p\<rfloor> = k" "k \<le> m" "of_nat k \<le> p" "p < of_nat k + 1" .
  show ?thesis
  proof (cases "p = of_nat k")
    case True
    have "of_nat m - p = of_nat (m - k)" using True k(2) by (simp add: of_nat_diff)
    then have fl: "nat \<lfloor>of_nat m - p\<rfloor> = m - k" and e: "of_nat m - p = of_nat (m - k)" by simp_all
    have "interpolate xs p = xs ! k" using interpolate_at [OF k(1) n] True by simp
    moreover have "interpolate ?ys (of_nat m - p) = ?ys ! (m - k)"
      using interpolate_at [OF fl n'] e by simp
    ultimately show ?thesis using nth [of "m - k"] k(2) by simp
  next
    case False
    with k(3) have gt: "of_nat k < p" by simp
    with p(2) have "(of_nat k :: rat) < of_nat m" by simp
    then have km: "k < m" by (simp only: of_nat_less_iff)
    then obtain j where j: "m = k + 1 + j" using less_iff_Suc_add by auto
    have "\<lfloor>of_nat m - p\<rfloor> = int j"
      by (rule floor_unique) (use gt k(4) j in simp_all)
    then have fl: "nat \<lfloor>of_nat m - p\<rfloor> = j" by simp
    have a: "?ys ! j = - (xs ! (k + 1))" using nth [of j] j by simp
    have b: "?ys ! (j + 1) = - (xs ! k)" using nth [of "j + 1"] j by simp
    have mi: "min (j + 1) m = j + 1" "min (k + 1) m = k + 1" using j by simp_all
    have f: "of_nat m - p - of_nat j = 1 - (p - of_nat k)" using j by simp
    show ?thesis
      unfolding interpolate_at [OF fl n'] interpolate_at [OF k(1) n] mi a b f by (simp add: algebra_simps)
  qed
qed

lemma tails:
  assumes "1 / 2 \<le> level" "level < (1 :: rat)"
  shows "0 \<le> (1 - level) / 2" "(1 - level) / 2 \<le> 1 - (1 - level) / 2" "1 - (1 - level) / 2 \<le> 1"
  using assms by (simp_all add: field_simps)

lemma interval_bounds:
  assumes "interval_of xs level n = Some i" and l: "1 / 2 \<le> level" "level < 1"
    and ab: "\<And>x. x \<in> set xs \<Longrightarrow> a \<le> x \<and> x \<le> b"
  shows "a \<le> bi_low i \<and> bi_low i \<le> bi_high i \<and> bi_high i \<le> b"
proof -
  define ys where "ys = sort xs"
  have "2 \<le> length xs" using assms(1) by (auto simp: interval_of_def split: if_splits)
  then obtain m where m: "length ys = Suc m" unfolding ys_def by (cases "length xs") simp_all
  define t where "t = (1 - level) / 2"
  note t = tails [OF l, folded t_def]
  have i: "bi_low i = interpolate ys (t * of_nat m)" "bi_high i = interpolate ys ((1 - t) * of_nat m)"
    using assms(1) m by (auto simp: interval_of_def percentile_def Let_def ys_def t_def split: if_splits)
  have s: "sorted ys" and mem: "\<And>x. x \<in> set ys \<Longrightarrow> a \<le> x \<and> x \<le> b" using ab by (simp_all add: ys_def)
  have p: "0 \<le> t * of_nat m" "t * of_nat m \<le> (1 - t) * of_nat m" "(1 - t) * of_nat m \<le> of_nat m"
    using t by (simp_all add: mult_right_mono mult_left_le_one_le)
  show ?thesis
    unfolding i using interpolate_bounds [OF s m p(1) order_trans [OF p(2,3)] mem]
      interpolate_bounds [OF s m order_trans [OF p(1,2)] p(3) mem] interpolate_mono [OF s m p]
    by blast
qed

definition negated :: "bootstrap_interval \<Rightarrow> bootstrap_interval" where
  "negated i = i\<lparr>bi_low := - bi_high i, bi_high := - bi_low i\<rparr>"

lemma interval_negated:
  assumes l: "1 / 2 \<le> level" "level < 1"
  shows "interval_of (map uminus xs) level n = map_option negated (interval_of xs level n)"
proof (cases "length xs < 2")
  case True
  then show ?thesis by (simp add: interval_of_def)
next
  case False
  define ys where "ys = sort xs"
  from False obtain m where m: "length ys = Suc m" unfolding ys_def by (cases "length xs") simp_all
  define t where "t = (1 - level) / 2"
  note t = tails [OF l, folded t_def]
  have p: "0 \<le> t * of_nat m" "t * of_nat m \<le> of_nat m"
    using t by (simp_all add: mult_left_le_one_le)
  have q: "(1 - t) * of_nat m = of_nat m - t * of_nat m" by (simp add: algebra_simps)
  have q': "0 \<le> of_nat m - t * of_nat m" "of_nat m - t * of_nat m \<le> of_nat m" using p by simp_all
  have "interpolate (rev (map uminus ys)) (of_nat m - t * of_nat m) = - interpolate ys (t * of_nat m)"
    by (rule interpolate_reflect [OF m p])
  moreover have "interpolate (rev (map uminus ys)) (t * of_nat m) = - interpolate ys (of_nat m - t * of_nat m)"
    using interpolate_reflect [OF m q'] by simp
  moreover have "length xs = Suc m" "sort xs = ys" using m by (simp_all add: ys_def)
  ultimately show ?thesis
    using False m by (simp add: interval_of_def percentile_def Let_def sort_uminus negated_def t_def [symmetric] q)
qed

lemma known_map_option: "known_values (map (\<lambda>x. map_option f (g x)) xs) = map f (known_values (map g xs))"
  by (induction xs) (auto simp: known_values_def)

lemma sorted_ranks:
  assumes s: "sorted (xs :: rat list)" and n: "0 < length xs"
  shows "xs ! 0 \<le> median_of xs" "median_of xs \<le> xs ! (p95_rank (length xs) - 1)"
    "xs ! (p95_rank (length xs) - 1) \<le> last xs" "19 * length xs \<le> 20 * p95_rank (length xs)"
    "0 < p95_rank (length xs)" "p95_rank (length xs) \<le> length xs"
proof -
  let ?n = "length xs" and ?r = "p95_rank (length xs)"
  have c: "of_nat ?r = (of_int \<lceil>(95 / 100 :: rat) * of_nat ?n\<rceil> :: rat)"
    by (simp add: p95_rank_def of_nat_nat)
  have lo: "(95 / 100 :: rat) * of_nat ?n \<le> of_nat ?r" and hi: "of_nat ?r < (95 / 100 :: rat) * of_nat ?n + 1"
    unfolding c by linarith+
  have "of_nat (19 * ?n) \<le> (of_nat (20 * ?r) :: rat)" using lo by simp
  then show r19: "19 * ?n \<le> 20 * ?r" by (simp only: of_nat_le_iff)
  then show r0: "0 < ?r" using n by linarith
  have "of_nat (20 * ?r) < (of_nat (19 * ?n + 20) :: rat)" using hi by simp
  then have "20 * ?r < 19 * ?n + 20" by (simp only: of_nat_less_iff)
  then show rn: "?r \<le> ?n" using n by linarith
  have mid: "?n div 2 \<le> ?r - 1"
  proof -
    have "19 * ?n \<le> 20 * ?r" by (rule r19)
    with n show ?thesis by linarith
  qed
  have le: "xs ! i \<le> xs ! j" if "i \<le> j" "j < ?n" for i j using s that by (simp add: sorted_nth_mono)
  have "xs ! 0 \<le> xs ! (?n div 2 - 1)" "xs ! (?n div 2 - 1) \<le> xs ! (?n div 2)" "xs ! 0 \<le> xs ! (?n div 2)"
    "xs ! (?n div 2) \<le> xs ! (?r - 1)"
    using n mid r0 rn by (auto intro!: le)
  then show "xs ! 0 \<le> median_of xs" "median_of xs \<le> xs ! (?r - 1)"
    by (auto simp: median_of_def Let_def)
  have "last xs = xs ! (?n - 1)" using n by (simp add: last_conv_nth)
  moreover have "xs ! (?r - 1) \<le> xs ! (?n - 1)" by (rule le) (use r0 rn n in linarith)+
  ultimately show "xs ! (?r - 1) \<le> last xs" by simp
qed

section \<open>Properties\<close>

text \<open>
  A latency summary of admissible measurements counts every attempt as measured or
  unavailable; when something was measured, minimum, median, 95th percentile and maximum
  exist, are in this order, and at least 95 percent of the measurements are at most the
  95th percentile.
\<close>

theorem latency_ordered:
  assumes "list_all (\<lambda>v. pred_option latency_ok v) samples"
  shows "\<exists>s. summarize_latency samples = Inr s \<and> ls_count s + ls_unavailable s = length samples
    \<and> (ls_count s > 0 \<longrightarrow> (\<exists>a m p b. ls_minimum s = Some a \<and> ls_median s = Some m \<and> ls_p95 s = Some p
        \<and> ls_maximum s = Some b \<and> a \<le> m \<and> m \<le> p \<and> p \<le> b
        \<and> 19 * ls_count s \<le> 20 * count (\<lambda>x. x \<le> p) (concat (map finite_part samples))))"
proof -
  define xs where "xs = sort (concat (map finite_part samples))"
  have len: "length (concat (map finite_part samples)) \<le> length samples"
  proof (induction samples)
    case Nil
    then show ?case by simp
  next
    case (Cons v samples)
    have "length (finite_part v) \<le> 1" by (cases v rule: finite_part.cases) simp_all
    with Cons show ?case by simp
  qed
  have "count (\<lambda>x. x \<le> p) (concat (map finite_part samples)) = count (\<lambda>x. x \<le> p) xs" for p
    unfolding xs_def by (metis mset_filter mset_sort size_mset)
  moreover have "p95_rank (length xs) \<le> count (\<lambda>x. x \<le> xs ! (p95_rank (length xs) - 1)) xs" if "0 < length xs"
  proof -
    let ?r = "p95_rank (length xs)"
    have s: "sorted xs" by (simp add: xs_def)
    note r = sorted_ranks [OF s that]
    have "filter (\<lambda>x. x \<le> xs ! (?r - 1)) (take ?r xs) = take ?r xs"
    proof (rule filter_True, rule ballI)
      fix x assume "x \<in> set (take ?r xs)"
      then obtain i where i: "i < ?r" "i < length xs" "x = xs ! i" by (auto simp: in_set_conv_nth)
      then show "x \<le> xs ! (?r - 1)" using s r(5,6) by (auto intro!: sorted_nth_mono)
    qed
    then have "?r \<le> count (\<lambda>x. x \<le> xs ! (?r - 1)) (take ?r xs)" using r(6) by simp
    also have "\<dots> \<le> count (\<lambda>x. x \<le> xs ! (?r - 1)) (take ?r xs @ drop ?r xs)"
      by (simp only: filter_append length_append le_add1)
    finally show ?thesis by simp
  qed
  moreover have "0 < length xs \<Longrightarrow> sorted xs" by (simp add: xs_def)
  ultimately have rank: "19 * length xs \<le> 20 * count (\<lambda>x. x \<le> xs ! (p95_rank (length xs) - 1))
      (concat (map finite_part samples))" if "0 < length xs"
    using sorted_ranks(4) [of xs] that by (metis le_trans mult_le_mono2)
  let ?n = "length xs"
  let ?opt = "\<lambda>x. if ?n = 0 then None else Some x"
  have s: "summarize_latency samples = Inr \<lparr>ls_count = ?n, ls_unavailable = length samples - ?n,
      ls_minimum = ?opt (xs ! 0), ls_median = ?opt (median_of xs),
      ls_p95 = ?opt (xs ! (p95_rank ?n - 1)), ls_maximum = ?opt (last xs)\<rparr>"
    unfolding summarize_latency_def Let_def xs_def using assms by simp
  have n: "?n \<le> length samples" using len by (simp add: xs_def)
  show ?thesis
  proof (cases "?n = 0")
    case True
    then show ?thesis unfolding s by simp
  next
    case False
    then have pos: "0 < ?n" by simp
    have "sorted xs" by (simp add: xs_def)
    note r = sorted_ranks(1-3) [OF this pos]
    show ?thesis unfolding s using False n r rank [OF pos] by simp
  qed
qed

theorem latency_ordered_witness:
  "\<exists>s. summarize_latency [Some (Fin 2), None, Some (Fin 1)] = Inr s \<and> ls_count s + ls_unavailable s = 3"
  using latency_ordered [of "[Some (Fin 2), None, Some (Fin 1)]"]
  by (auto simp: latency_ok_def)



end
