(* ===== verification/Spec2Isabelle.thy ===== *)
theory Spec2Isabelle imports
  Prelude Errors Json Prompt Plan Bindings Conditions Usage Budget Records Admission Effects
  Retry Boundary RunBase Runner Run RunFrames RunUsage RunProps RunPath RunShape Routes Graph
  Dominators GraphChecks CompiledRuns Spending RunSteps StepBudgets StaticSchema StaticValues Scopes
  StaticResults StaticConditions Patterns ConditionPlans Boundaries StaticChecks StepChecks StepRuns
  Comparisons Metrics MetricReports Owners Summaries
begin

text \<open>
  Foliqant is a Python library that runs workflows: a workflow is a graph of flows, a flow is
  a list of steps, and a step asks a model, calls a tool, calls a trusted handler or runs a
  bounded collection of further flows. A compiler (\<^verbatim>\<open>src/src/foliqant/compiler\<close>) checks the
  authored files and builds an immutable plan; an engine (\<^verbatim>\<open>src/src/foliqant/core\<close>) runs the
  plan. Adapters connect the engine to providers, observers and validators. This development
  models the engine completely, of the compiler the graph checks, the step budgets and the
  static analysis of schemas, bindings, conditions and routes, and of the evaluation of recorded
  results (\<^verbatim>\<open>src/src/foliqant/evaluation\<close>) the gold, the metrics and the summaries; paths below are
  relative to \<^verbatim>\<open>src/src/foliqant\<close>.

  \<^bold>\<open>Theories and code.\<close>

  \<^item> \<^verbatim>\<open>Prelude\<close>: results that may raise (\<^verbatim>\<open>Inl\<close> the exception), dictionaries as
    association lists in insertion order, fact collections.
  \<^item> \<^verbatim>\<open>Errors\<close> (\<^verbatim>\<open>core/errors.py\<close>): codes, the checked construction of a service error, the
    exceptions that occur, and \<^verbatim>\<open>timeout_code\<close>.
  \<^item> \<^verbatim>\<open>Json\<close> (\<^verbatim>\<open>core/json.py\<close>, the equality of \<^verbatim>\<open>core/conditions.py\<close>): Python objects, frozen
    JSON values, freezing, thawing and business equality. A float is a rational number,
    an infinity or NaN; the sign of a zero is not modelled.
  \<^item> \<^verbatim>\<open>Prompt\<close> (\<^verbatim>\<open>core/prompt.py\<close>): prompt templates and their rendering.
  \<^item> \<^verbatim>\<open>Plan\<close> (\<^verbatim>\<open>core/plan.py\<close>): the compiled plan, constructor by constructor.
  \<^item> \<^verbatim>\<open>Bindings\<close> (\<^verbatim>\<open>core/bindings.py\<close>): RFC 6901 lookup and the resolution of bindings.
  \<^item> \<^verbatim>\<open>Conditions\<close> (\<^verbatim>\<open>core/conditions.py\<close>): the condition language with its trace and text.
  \<^item> \<^verbatim>\<open>Usage\<close> (\<^verbatim>\<open>core/execution.py\<close>, \<^verbatim>\<open>core/pricing.py\<close>): token counts, costs, totals.
  \<^item> \<^verbatim>\<open>Budget\<close> (\<^verbatim>\<open>core/budget.py\<close>): what one step may use, and its usage snapshot.
  \<^item> \<^verbatim>\<open>Records\<close> (\<^verbatim>\<open>core/execution.py\<close>): the records of a run and their JSON values.
  \<^item> \<^verbatim>\<open>Admission\<close> (\<^verbatim>\<open>core/admission.py\<close>): the capacity limiter and its semaphore as a step
    relation over all interleavings of tasks.
  \<^item> \<^verbatim>\<open>Effects\<close>: computations over a state that may raise, their combinators (bind, handlers,
    \<^verbatim>\<open>finally\<close>, local state) and a Hoare calculus for them.
  \<^item> \<^verbatim>\<open>Retry\<close> (\<^verbatim>\<open>core/retry.py\<close>): the bounded retry loop over an arbitrary operation.
  \<^item> \<^verbatim>\<open>Boundary\<close> (\<^verbatim>\<open>core/envelope.py\<close>, \<^verbatim>\<open>core/identity.py\<close>, \<^verbatim>\<open>core/observation.py\<close>):
    envelopes, identities, trace carriers.
  \<^item> \<^verbatim>\<open>RunBase\<close>, \<^verbatim>\<open>Runner\<close>, \<^verbatim>\<open>Run\<close> (\<^verbatim>\<open>core/runner.py\<close>): the engine. \<^verbatim>\<open>RunBase\<close> has the run
    state, contexts, checks of outcomes, observed scopes and routes; \<^verbatim>\<open>Runner\<close> executes one
    flow (\<^verbatim>\<open>execute_flow\<close>) with guards, operation steps, collections and repeats; \<^verbatim>\<open>Run\<close>
    routes from flow to flow and admits a run.
  \<^item> \<^verbatim>\<open>RunFrames\<close>, \<^verbatim>\<open>RunUsage\<close>, \<^verbatim>\<open>RunProps\<close>, \<^verbatim>\<open>RunPath\<close>, \<^verbatim>\<open>RunShape\<close>: proofs about the engine.
    Their locales (\<^verbatim>\<open>frame\<close>, \<^verbatim>\<open>flow_frame\<close>, \<^verbatim>\<open>scope_frame\<close>, \<^verbatim>\<open>run_frame\<close>, \<^verbatim>\<open>step_count\<close>) state
    what a relation between run states has to satisfy to be kept by the whole engine, and
    are interpreted on the step counter, the log of scopes, the flow records, the usage counters.
  \<^item> \<^verbatim>\<open>Routes\<close>, \<^verbatim>\<open>Graph\<close> (\<^verbatim>\<open>compiler/compiler.py\<close>): the checks of repeats and of the routed
    graph, with the authored location of every refusal. \<^verbatim>\<open>Dominators\<close>: dominators, ancestors
    and the whole of \<^verbatim>\<open>_validate_graph\<close>. \<^verbatim>\<open>GraphChecks\<close>: what an accepted graph guarantees.
    \<^verbatim>\<open>CompiledRuns\<close>: the same of the runs of an accepted plan.
  \<^item> \<^verbatim>\<open>Spending\<close>, \<^verbatim>\<open>RunSteps\<close>, \<^verbatim>\<open>StepBudgets\<close>: the steps the parts of the engine consume at
    most, and the step budgets of the compiler (\<^verbatim>\<open>_worst_steps\<close>, \<^verbatim>\<open>_validate_budgets\<close>), which
    bound every run.
  \<^item> \<^verbatim>\<open>StaticSchema\<close> (\<^verbatim>\<open>compiler/static_schema.py\<close>, \<^verbatim>\<open>compiler/schema_helpers.py\<close>): views of
    schema nodes, references, selection of a token, JSON types, and the laws a JSON Schema
    validator has for the keywords the analysis reads (locale \<^verbatim>\<open>schema_validator\<close>, interpreted on
    \<^verbatim>\<open>keyword_valid\<close>). \<^verbatim>\<open>StaticValues\<close> (\<^verbatim>\<open>compiler/static_values.py\<close>): sets of values as unions
    of alternatives with their concretization \<^verbatim>\<open>admits\<close>. \<^verbatim>\<open>Scopes\<close> (\<^verbatim>\<open>compiler/scopes.py\<close>): the
    static values of pointers and bindings, and of step and flow results. \<^verbatim>\<open>StaticResults\<close>:
    the engine's collection results against their derived schema.
  \<^item> \<^verbatim>\<open>StaticConditions\<close>, \<^verbatim>\<open>ConditionPlans\<close> (\<^verbatim>\<open>compiler/conditions.py\<close>,
    \<^verbatim>\<open>contracts/conditions.py\<close>): static verdicts, and the compilation of authored conditions.
    \<^verbatim>\<open>Patterns\<close> (\<^verbatim>\<open>compiler/patterns.py\<close>): the estimate of backtracking work, against a semantics of
    backtracking matches. The parser, the widths of unmodelled items and case folding are
    parameters.
  \<^item> \<^verbatim>\<open>Boundaries\<close> (\<^verbatim>\<open>_validate_boundaries\<close> of \<^verbatim>\<open>compiler/compiler.py\<close> and what it calls): bindings
    between flows, routes, case coverage, repeats, dead entries. \<^verbatim>\<open>StaticChecks\<close>: what these
    checks mean for the engine, as the properties of the static analysis.
  \<^item> \<^verbatim>\<open>StepChecks\<close> (\<^verbatim>\<open>_validate_bindings\<close>, \<^verbatim>\<open>_validate_output\<close>, \<^verbatim>\<open>_validate_schema_bindings\<close>,
    \<^verbatim>\<open>_flow_diagnostics\<close> of \<^verbatim>\<open>compiler/compiler.py\<close>): the checks of the steps of one flow.
    \<^verbatim>\<open>StepRuns\<close>: the steps the engine went through have results, so accepted references resolve.
  \<^item> \<^verbatim>\<open>Comparisons\<close> (\<^verbatim>\<open>evaluation/comparisons.py\<close>, \<^verbatim>\<open>evaluation/spans.py\<close> and the gold of
    \<^verbatim>\<open>evaluation/contracts.py\<close>): assertions, cases, suites, fingerprints and every built-in
    comparison. \<^verbatim>\<open>Metrics\<close> (\<^verbatim>\<open>evaluation/metrics.py\<close>): specifications, observations and reports;
    \<^verbatim>\<open>MetricReports\<close>: the reports count every attempt and every gold field once. \<^verbatim>\<open>Owners\<close>
    (\<^verbatim>\<open>evaluation/records.py\<close>): the invocations of a result and the owner of a pointer, by index and
    by document. \<^verbatim>\<open>Summaries\<close> (\<^verbatim>\<open>evaluation/summaries.py\<close>, \<^verbatim>\<open>evaluation/intervals.py\<close>): failures,
    latency, usage, cost and bootstrap intervals.

  \<^bold>\<open>State.\<close> A coroutine of the runner is a function from the run state (\<^verbatim>\<open>run_state\<close>: the
  world, the records, the step counter, the active flow, the open scopes and their log) to a
  result and the next state. Locals that outlive an exception are a record beside it. What the
  engine calls and does not contain is the record \<^verbatim>\<open>run_env\<close>: the clock, the executor, the
  validators, the regular-expression engine, the observer's carrier and the limiter, each an
  arbitrary function of a world of any type. A theorem about a run therefore holds
  whatever the adapters answer, raise, or spend of their budget, cancellation included.

  \<^bold>\<open>Loops and bounds.\<close> Attempts, items and steps are structural recursions. Nested flows recurse
  on the collection depth, which the code bounds by 16; the routing loop recurses on the number
  of flows not visited. The graph walk of the compiler is a \<^verbatim>\<open>partial_function\<close> on options.

  \<^bold>\<open>What the theorems show.\<close> A run ends with a result and without an escaping exception; its
  transitions form a path; its steps, attempts, model requests and tool calls respect the
  limits; its scopes are closed; its records have the documented shape and can be
  written to the ledger. The limiter admits and runs at most what it should, in every
  interleaving, and hands on every permit. Values round-trip, conditions are total and mean their
  Boolean combination, usage totals do not depend on how they are grouped.

  \<^bold>\<open>Not modelled.\<close> Texts of messages; the pydantic models of \<^verbatim>\<open>contracts\<close> and the validation they
  inherit; adapters, command line, settings and telemetry, which are input and output around
  third-party code; Mermaid diagrams; of the evaluation the scheduling of live attempts, data
  sets, report artifacts and their comparison.
\<close>

end
